(* ===== verification/Gw_Prelude.thy ===== *)
theory Gw_Prelude
  imports Main "HOL-Library.Word"
begin

text \<open>
  Vocabulary shared by the component theories: the machine types of the firmware, little-endian
  encodings (the STM32F4 is little-endian, so a C cast of a \<open>uint32_t *\<close> to \<open>uint8_t *\<close> is
  \<open>le32\<close>), byte-addressed memory, C strings, the \<open>if(sts) return sts;\<close> sequencing idiom, and the
  locale that lifts a one-step invariant to a whole run.
\<close>

unbundle bit_operations_syntax

section \<open>Types\<close>

type_synonym u8 = "8 word"
type_synonym u16 = "16 word"
type_synonym u32 = "32 word"
type_synonym u64 = "64 word"
type_synonym bytes = "u8 list"
type_synonym memory = "u32 \<Rightarrow> u8"

named_theorems enc_simps \<open>little-endian encodings and their inverses\<close>
named_theorems mem_simps \<open>reads and writes of byte-addressed memory\<close>
named_theorems seq_simps \<open>sequencing of status-returning steps\<close>

section \<open>Encodings\<close>

definition le16 :: "u16 \<Rightarrow> bytes" where
  "le16 w = [ucast w, ucast (drop_bit 8 w)]"

definition le32 :: "u32 \<Rightarrow> bytes" where
  "le32 w = [ucast w, ucast (drop_bit 8 w), ucast (drop_bit 16 w), ucast (drop_bit 24 w)]"

definition word16_of :: "u8 \<Rightarrow> u8 \<Rightarrow> u16" where
  "word16_of b0 b1 = ucast b0 OR push_bit 8 (ucast b1)"

definition word32_of :: "u8 \<Rightarrow> u8 \<Rightarrow> u8 \<Rightarrow> u8 \<Rightarrow> u32" where
  "word32_of b0 b1 b2 b3 =
     ucast b0 OR push_bit 8 (ucast b1) OR push_bit 16 (ucast b2) OR push_bit 24 (ucast b3)"

text \<open>A \<open>memcpy\<close> of four (two) bytes into an integer; fewer bytes read as zero.\<close>

fun rd32 :: "bytes \<Rightarrow> u32" where
  "rd32 (a # b # c # d # _) = word32_of a b c d"
| "rd32 _ = 0"

fun rd16 :: "bytes \<Rightarrow> u16" where
  "rd16 (a # b # _) = word16_of a b"
| "rd16 _ = 0"

text \<open>Bytes of a C string literal, without and with its terminator.\<close>

definition ascii :: "string \<Rightarrow> bytes" where
  "ascii s = map of_char s"

text \<open>The C string a buffer holds: everything before its first zero byte.\<close>

definition c_str :: "bytes \<Rightarrow> bytes" where
  "c_str bs = takeWhile (\<lambda>b. b \<noteq> 0) bs"

section \<open>Memory\<close>

definition mem_bytes :: "memory \<Rightarrow> u32 \<Rightarrow> nat \<Rightarrow> bytes" where
  "mem_bytes m a n = map (\<lambda>i. m (a + of_nat i)) [0..<n]"

fun mem_write :: "memory \<Rightarrow> u32 \<Rightarrow> bytes \<Rightarrow> memory" where
  "mem_write m a [] = m"
| "mem_write m a (b # bs) = mem_write (m(a := b)) (a + 1) bs"

section \<open>Sequencing\<close>

text \<open>
  \<open>sts = f(...); if(sts) return sts; ...\<close> on a state: the second step runs only when the first
  returns \<open>ok\<close>.
\<close>

definition and_then :: "'r \<Rightarrow> ('s \<Rightarrow> 'r \<times> 's) \<Rightarrow> ('s \<Rightarrow> 'r \<times> 's) \<Rightarrow> 's \<Rightarrow> 'r \<times> 's" where
  "and_then ok f g s = (case f s of (r, s') \<Rightarrow> if r = ok then g s' else (r, s'))"

text \<open>The same over a list of steps, as a loop of such calls.\<close>

fun each_then :: "'r \<Rightarrow> ('x \<Rightarrow> 's \<Rightarrow> 'r \<times> 's) \<Rightarrow> 'x list \<Rightarrow> 's \<Rightarrow> 'r \<times> 's" where
  "each_then ok f [] s = (ok, s)"
| "each_then ok f (x # xs) s = and_then ok (f x) (each_then ok f xs) s"

section \<open>Sequencing lemmas\<close>

lemma and_then_ok [seq_simps]: "fst (f s) = ok \<Longrightarrow> and_then ok f g s = g (snd (f s))"
  by (auto simp: and_then_def split: prod.split)

lemma and_then_err [seq_simps]: "fst (f s) \<noteq> ok \<Longrightarrow> and_then ok f g s = f s"
  by (auto simp: and_then_def split: prod.split)

lemma and_then_fst_ok:
  "fst (and_then ok f g s) = ok \<longleftrightarrow> fst (f s) = ok \<and> fst (g (snd (f s))) = ok"
  by (auto simp: and_then_def split: prod.split)

lemma and_then_assoc: "and_then ok f (and_then ok g h) = and_then ok (and_then ok f g) h"
  by (rule ext) (auto simp: and_then_def split: prod.split)

lemma each_then_append:
  "each_then ok f (xs @ ys) s = and_then ok (each_then ok f xs) (each_then ok f ys) s"
  by (induction xs arbitrary: s) (auto simp: and_then_def split: prod.splits)

text \<open>An invariant of one step is an invariant of a run.\<close>

locale inv_machine =
  fixes step :: "'x \<Rightarrow> 's \<Rightarrow> 's" and inv :: "'s \<Rightarrow> bool"
  assumes inv_step: "inv s \<Longrightarrow> inv (step x s)"
begin

lemma inv_run: "inv s \<Longrightarrow> inv (fold step xs s)"
  by (induction xs arbitrary: s) (simp_all add: inv_step)

end

section \<open>Encoding lemmas\<close>

lemma length_le16 [simp]: "length (le16 w) = 2"
  by (simp add: le16_def)

lemma length_le32 [simp]: "length (le32 w) = 4"
  by (simp add: le32_def)

lemma word16_of_le16 [enc_simps]: "word16_of (ucast w) (ucast (drop_bit 8 w)) = w"
  unfolding word16_of_def
  by (rule bit_word_eqI) (auto simp: bit_simps)

lemma word32_of_le32 [enc_simps]:
  "word32_of (ucast w) (ucast (drop_bit 8 w)) (ucast (drop_bit 16 w)) (ucast (drop_bit 24 w)) = w"
proof (rule bit_word_eqI)
  fix n assume n: "n < LENGTH(32)"
  then consider "n < 8" | "8 \<le> n" "n < 16" | "16 \<le> n" "n < 24" | "24 \<le> n" "n < 32"
    by force
  then show "bit (word32_of (ucast w) (ucast (drop_bit 8 w)) (ucast (drop_bit 16 w))
      (ucast (drop_bit 24 w))) n = bit w n"
    by cases (auto simp: word32_of_def bit_simps)
qed

lemma rd32_le32 [simp]: "rd32 (le32 w @ r) = w"
  by (simp add: le32_def word32_of_le32)

lemma rd32_le32_only [simp]: "rd32 (le32 w) = w"
  using rd32_le32 [of w "[]"] by simp

lemma rd16_le16 [simp]: "rd16 (le16 w @ r) = w"
  by (simp add: le16_def word16_of_le16)

lemma le32_inject [simp]: "le32 v = le32 w \<longleftrightarrow> v = w"
  by (metis rd32_le32_only)

lemma ascii_length [simp]: "length (ascii s) = length s"
  by (simp add: ascii_def)

lemma c_str_append_zero [simp]: "0 \<notin> set k \<Longrightarrow> c_str (k @ 0 # r) = k"
  unfolding c_str_def by (subst takeWhile_append2) auto

lemma c_str_no_zero: "0 \<notin> set (c_str bs)"
  unfolding c_str_def using set_takeWhileD by fastforce

lemma unat_u32_less [simp]: "unat (w :: u32) < 4294967296"
proof -
  have "unat w < 2 ^ LENGTH(32)" by (rule unsigned_less)
  then show ?thesis by simp
qed

section \<open>Memory lemmas\<close>

lemma length_mem_bytes [simp]: "length (mem_bytes m a n) = n"
  by (simp add: mem_bytes_def)

lemma mem_bytes_0 [simp]: "mem_bytes m a 0 = []"
  by (simp add: mem_bytes_def)

lemma mem_bytes_nth: "i < n \<Longrightarrow> mem_bytes m a n ! i = m (a + of_nat i)"
  by (simp add: mem_bytes_def)

lemma mem_bytes_add [mem_simps]:
  "mem_bytes m a (n + k) = mem_bytes m a n @ mem_bytes m (a + of_nat n) k"
  by (rule nth_equalityI) (auto simp: mem_bytes_nth nth_append algebra_simps of_nat_diff)

lemma mem_bytes_Suc [mem_simps]: "mem_bytes m a (Suc n) = m a # mem_bytes m (a + 1) n"
  using mem_bytes_add [of m a 1 n] by (simp add: mem_bytes_def)

lemma mem_bytes_take: "k \<le> n \<Longrightarrow> take k (mem_bytes m a n) = mem_bytes m a k"
  using mem_bytes_add [of m a k "n - k"] by simp

lemma mem_bytes_drop:
  "k \<le> n \<Longrightarrow> drop k (mem_bytes m a n) = mem_bytes m (a + of_nat k) (n - k)"
  using mem_bytes_add [of m a k "n - k"] by simp

lemma mem_bytes_cong:
  "(\<And>i. i < n \<Longrightarrow> m (a + of_nat i) = m' (a + of_nat i)) \<Longrightarrow> mem_bytes m a n = mem_bytes m' a n"
  by (simp add: mem_bytes_def)

lemma mem_write_append [mem_simps]:
  "mem_write m a (xs @ ys) = mem_write (mem_write m a xs) (a + of_nat (length xs)) ys"
  by (induction xs arbitrary: m a) (auto simp: algebra_simps)

lemma of_nat_u32_inj:
  "i < 2 ^ 32 \<Longrightarrow> j < 2 ^ 32 \<Longrightarrow> (of_nat i :: u32) = of_nat j \<longleftrightarrow> i = j"
  by (simp add: word_of_nat_eq_iff take_bit_nat_eq_self)

lemma mem_write_other:
  "(\<And>i. i < length bs \<Longrightarrow> x \<noteq> a + of_nat i) \<Longrightarrow> mem_write m a bs x = m x"
proof (induction bs arbitrary: m a)
  case (Cons b bs)
  have "mem_write (m(a := b)) (a + 1) bs x = (m(a := b)) x"
    by (rule Cons.IH) (use Cons.prems in \<open>force simp: algebra_simps dest: spec [of _ "Suc _"]\<close>)
  moreover have "x \<noteq> a" using Cons.prems [of 0] by simp
  ultimately show ?case by simp
qed simp

lemma unat_add_of_nat: "unat a + n < 2 ^ 32 \<Longrightarrow> unat (a + of_nat n :: u32) = unat a + n"
  by (simp add: unat_plus_if' unat_of_nat take_bit_nat_eq_self)


lemma unat_of_nat_u16: "n < 2 ^ 16 \<Longrightarrow> unat (of_nat n :: u16) = n"
  by (simp add: unat_of_nat take_bit_nat_eq_self)

lemma unat_of_nat_u32: "n < 2 ^ 32 \<Longrightarrow> unat (of_nat n :: u32) = n"
  by (simp add: unat_of_nat take_bit_nat_eq_self)


lemma mem_bytes_mem_write:
  "length bs < 2 ^ 32 \<Longrightarrow> mem_bytes (mem_write m a bs) a (length bs) = bs"
proof (induction bs arbitrary: m a)
  case (Cons b bs)
  have "mem_write (m(a := b)) (a + 1) bs a = (m(a := b)) a"
  proof (rule mem_write_other)
    fix i assume "i < length bs"
    then have "(of_nat (Suc i) :: u32) \<noteq> of_nat 0" using Cons.prems by (subst of_nat_u32_inj) auto
    then show "a \<noteq> a + 1 + of_nat i" by (simp add: add.assoc)
  qed
  with Cons show ?case by (simp add: mem_bytes_Suc)
qed simp

end
