(* ===== verification/Crc.thy ===== *)
theory Crc
  imports Gw_Prelude
begin

text \<open>
  The 32-bit CRC the firmware images and the configuration area are protected with.
  \<^item> common/crc/crc.c drives the CRC unit of the STM32F4: writing \<open>CR\<close> resets the data register to
    \<open>0xFFFFFFFF\<close>, every write to \<open>DR\<close> folds one 32-bit word in.  What one write does is hardware
    and so a parameter \<open>dr\<close> of the definitions (old register, word written, new register).
  \<^item> sign/sign.c computes the same CRC on the build host with a byte table.
  \<open>crc_spec_word\<close> is the bit-serial definition of the unit (polynomial \<open>0x04C11DB7\<close>, most
  significant bit first); the lemmas show that the table code computes it.
\<close>

section \<open>Definitions\<close>

fun words_of :: "bytes \<Rightarrow> u32 list" where
  "words_of (a # b # c # d # r) = word32_of a b c d # words_of r"
| "words_of _ = []"

definition crc_reset :: u32 where
  "crc_reset = 0xFFFFFFFF"

text \<open>crc.c. The last argument of \<open>crc32_end\<close> is the data register left by the earlier calls.\<close>

definition crc32_end :: "(u32 \<Rightarrow> u32 \<Rightarrow> u32) \<Rightarrow> bytes \<Rightarrow> u32 \<Rightarrow> u32" where
  "crc32_end dr data reg = fold (\<lambda>w reg. dr reg w) (words_of data) reg"

definition crc32_start :: "(u32 \<Rightarrow> u32 \<Rightarrow> u32) \<Rightarrow> bytes \<Rightarrow> u32" where
  "crc32_start dr data = fold (\<lambda>w reg. dr reg w) (words_of data) crc_reset"

definition crc32 :: "(u32 \<Rightarrow> u32 \<Rightarrow> u32) \<Rightarrow> bytes \<Rightarrow> u32" where
  "crc32 dr data = fold (\<lambda>w reg. dr reg w) (words_of data) crc_reset"

text \<open>sign.c: the table, one word, and the three loops.\<close>

definition sw_crc32_table :: "u32 list" where
  "sw_crc32_table = [
      0x00000000, 0x04c11db7, 0x09823b6e, 0x0d4326d9,
      0x130476dc, 0x17c56b6b, 0x1a864db2, 0x1e475005,
      0x2608edb8, 0x22c9f00f, 0x2f8ad6d6, 0x2b4bcb61,
      0x350c9b64, 0x31cd86d3, 0x3c8ea00a, 0x384fbdbd,
      0x4c11db70, 0x48d0c6c7, 0x4593e01e, 0x4152fda9,
      0x5f15adac, 0x5bd4b01b, 0x569796c2, 0x52568b75,
      0x6a1936c8, 0x6ed82b7f, 0x639b0da6, 0x675a1011,
      0x791d4014, 0x7ddc5da3, 0x709f7b7a, 0x745e66cd,
      0x9823b6e0, 0x9ce2ab57, 0x91a18d8e, 0x95609039,
      0x8b27c03c, 0x8fe6dd8b, 0x82a5fb52, 0x8664e6e5,
      0xbe2b5b58, 0xbaea46ef, 0xb7a96036, 0xb3687d81,
      0xad2f2d84, 0xa9ee3033, 0xa4ad16ea, 0xa06c0b5d,
      0xd4326d90, 0xd0f37027, 0xddb056fe, 0xd9714b49,
      0xc7361b4c, 0xc3f706fb, 0xceb42022, 0xca753d95,
      0xf23a8028, 0xf6fb9d9f, 0xfbb8bb46, 0xff79a6f1,
      0xe13ef6f4, 0xe5ffeb43, 0xe8bccd9a, 0xec7dd02d,
      0x34867077, 0x30476dc0, 0x3d044b19, 0x39c556ae,
      0x278206ab, 0x23431b1c, 0x2e003dc5, 0x2ac12072,
      0x128e9dcf, 0x164f8078, 0x1b0ca6a1, 0x1fcdbb16,
      0x018aeb13, 0x054bf6a4, 0x0808d07d, 0x0cc9cdca,
      0x7897ab07, 0x7c56b6b0, 0x71159069, 0x75d48dde,
      0x6b93dddb, 0x6f52c06c, 0x6211e6b5, 0x66d0fb02,
      0x5e9f46bf, 0x5a5e5b08, 0x571d7dd1, 0x53dc6066,
      0x4d9b3063, 0x495a2dd4, 0x44190b0d, 0x40d816ba,
      0xaca5c697, 0xa864db20, 0xa527fdf9, 0xa1e6e04e,
      0xbfa1b04b, 0xbb60adfc, 0xb6238b25, 0xb2e29692,
      0x8aad2b2f, 0x8e6c3698, 0x832f1041, 0x87ee0df6,
      0x99a95df3, 0x9d684044, 0x902b669d, 0x94ea7b2a,
      0xe0b41de7, 0xe4750050, 0xe9362689, 0xedf73b3e,
      0xf3b06b3b, 0xf771768c, 0xfa325055, 0xfef34de2,
      0xc6bcf05f, 0xc27dede8, 0xcf3ecb31, 0xcbffd686,
      0xd5b88683, 0xd1799b34, 0xdc3abded, 0xd8fba05a,
      0x690ce0ee, 0x6dcdfd59, 0x608edb80, 0x644fc637,
      0x7a089632, 0x7ec98b85, 0x738aad5c, 0x774bb0eb,
      0x4f040d56, 0x4bc510e1, 0x46863638, 0x42472b8f,
      0x5c007b8a, 0x58c1663d, 0x558240e4, 0x51435d53,
      0x251d3b9e, 0x21dc2629, 0x2c9f00f0, 0x285e1d47,
      0x36194d42, 0x32d850f5, 0x3f9b762c, 0x3b5a6b9b,
      0x0315d626, 0x07d4cb91, 0x0a97ed48, 0x0e56f0ff,
      0x1011a0fa, 0x14d0bd4d, 0x19939b94, 0x1d528623,
      0xf12f560e, 0xf5ee4bb9, 0xf8ad6d60, 0xfc6c70d7,
      0xe22b20d2, 0xe6ea3d65, 0xeba91bbc, 0xef68060b,
      0xd727bbb6, 0xd3e6a601, 0xdea580d8, 0xda649d6f,
      0xc423cd6a, 0xc0e2d0dd, 0xcda1f604, 0xc960ebb3,
      0xbd3e8d7e, 0xb9ff90c9, 0xb4bcb610, 0xb07daba7,
      0xae3afba2, 0xaafbe615, 0xa7b8c0cc, 0xa379dd7b,
      0x9b3660c6, 0x9ff77d71, 0x92b45ba8, 0x9675461f,
      0x8832161a, 0x8cf30bad, 0x81b02d74, 0x857130c3,
      0x5d8a9099, 0x594b8d2e, 0x5408abf7, 0x50c9b640,
      0x4e8ee645, 0x4a4ffbf2, 0x470cdd2b, 0x43cdc09c,
      0x7b827d21, 0x7f436096, 0x7200464f, 0x76c15bf8,
      0x68860bfd, 0x6c47164a, 0x61043093, 0x65c52d24,
      0x119b4be9, 0x155a565e, 0x18197087, 0x1cd86d30,
      0x029f3d35, 0x065e2082, 0x0b1d065b, 0x0fdc1bec,
      0x3793a651, 0x3352bbe6, 0x3e119d3f, 0x3ad08088,
      0x2497d08d, 0x2056cd3a, 0x2d15ebe3, 0x29d4f654,
      0xc5a92679, 0xc1683bce, 0xcc2b1d17, 0xc8ea00a0,
      0xd6ad50a5, 0xd26c4d12, 0xdf2f6bcb, 0xdbee767c,
      0xe3a1cbc1, 0xe760d676, 0xea23f0af, 0xeee2ed18,
      0xf0a5bd1d, 0xf464a0aa, 0xf9278673, 0xfde69bc4,
      0x89b8fd09, 0x8d79e0be, 0x803ac667, 0x84fbdbd0,
      0x9abc8bd5, 0x9e7d9662, 0x933eb0bb, 0x97ffad0c,
      0xafb010b1, 0xab710d06, 0xa6322bdf, 0xa2f33668,
      0xbcb4666d, 0xb8757bda, 0xb5365d03, 0xb1f740b4]"

definition sw_crc32_shift :: "u32 \<Rightarrow> u32" where
  "sw_crc32_shift c = push_bit 8 c XOR sw_crc32_table ! unat (drop_bit 24 c)"

definition sw_crc32_word :: "u32 \<Rightarrow> u32 \<Rightarrow> u32" where
  "sw_crc32_word c data = (sw_crc32_shift ^^ 4) (c XOR data)"

definition crc32_eth :: "bytes \<Rightarrow> u32" where
  "crc32_eth buf = fold (\<lambda>w c. sw_crc32_word c w) (words_of buf) 0xFFFFFFFF"

definition crc32_eth_start :: "bytes \<Rightarrow> u32" where
  "crc32_eth_start buf = fold (\<lambda>w c. sw_crc32_word c w) (words_of buf) 0xFFFFFFFF"

definition crc32_eth_end :: "bytes \<Rightarrow> u32 \<Rightarrow> u32" where
  "crc32_eth_end buf temp = fold (\<lambda>w c. sw_crc32_word c w) (words_of buf) temp"

text \<open>The reference: one bit at a time.\<close>

definition crc_spec_bit :: "u32 \<Rightarrow> u32" where
  "crc_spec_bit c = push_bit 1 c XOR (if bit c 31 then 0x04C11DB7 else 0)"

definition crc_spec_word :: "u32 \<Rightarrow> u32 \<Rightarrow> u32" where
  "crc_spec_word c w = (crc_spec_bit ^^ 32) (c XOR w)"

text \<open>One byte of the reference; the table as the linear span of the entries of the powers of two.\<close>

definition crc_spec_byte :: "u32 \<Rightarrow> u32" where
  "crc_spec_byte c = (crc_spec_bit ^^ 8) c"

definition crc_span :: "u32 list \<Rightarrow> u32 list" where
  "crc_span basis = fold (\<lambda>b acc. acc @ map (\<lambda>t. b XOR t) acc) basis [0]"

definition crc_basis :: "u32 list" where
  "crc_basis = map (\<lambda>k. sw_crc32_table ! k) [1,2,4,8,16,32,64,128]"

section \<open>The table code computes the bit-serial CRC\<close>

lemma crc_spec_byte_unroll:
  "crc_spec_byte c = crc_spec_bit (crc_spec_bit (crc_spec_bit (crc_spec_bit
     (crc_spec_bit (crc_spec_bit (crc_spec_bit (crc_spec_bit c)))))))"
  by (simp add: crc_spec_byte_def eval_nat_numeral)

lemma crc_table_is_span: "sw_crc32_table = crc_span crc_basis"
  by (simp add: sw_crc32_table_def crc_span_def crc_basis_def)

lemma crc_basis_eq: "crc_basis = map (\<lambda>k. crc_spec_byte (push_bit 24 (2 ^ k))) [0..<8]"
proof -
  have u: "[0..<8] = [0,1,2,3,4,5,6,7::nat]" by code_simp
  show ?thesis unfolding u crc_basis_def sw_crc32_table_def
  by (simp add: crc_spec_byte_unroll crc_spec_bit_def)
qed

lemma crc_spec_bit_xor: "crc_spec_bit (a XOR b) = crc_spec_bit a XOR crc_spec_bit b"
  unfolding crc_spec_bit_def
  by (rule bit_word_eqI) (auto simp: bit_simps)

lemma crc_spec_bits_xor:
  "(crc_spec_bit ^^ n) (a XOR b) = (crc_spec_bit ^^ n) a XOR (crc_spec_bit ^^ n) b"
  by (induction n) (auto simp: crc_spec_bit_xor)

lemma crc_spec_bit_0 [simp]: "crc_spec_bit 0 = 0"
  by (simp add: crc_spec_bit_def)

lemma crc_spec_bits_0 [simp]: "(crc_spec_bit ^^ n) 0 = 0"
  by (induction n) auto

lemma crc_span_nth:
  assumes "length acc = 2 ^ n"
    and "\<And>j. j < 2 ^ n \<Longrightarrow> acc ! j = crc_spec_byte (push_bit 24 (of_nat j))"
    and "n + m \<le> 8"
    and "j < 2 ^ (n + m)"
  shows "fold (\<lambda>b acc. acc @ map (\<lambda>t. b XOR t) acc)
      (map (\<lambda>k. crc_spec_byte (push_bit 24 (2 ^ k))) [n..<n + m]) acc ! j
    = crc_spec_byte (push_bit 24 (of_nat j))"
  using assms
proof (induction m arbitrary: n acc)
  case (Suc m)
  define b where "b = crc_spec_byte (push_bit 24 (2 ^ n))"
  define acc' where "acc' = acc @ map (\<lambda>t. b XOR t) acc"
  have len: "length acc' = 2 ^ Suc n" using Suc.prems(1) by (simp add: acc'_def)
  have nth: "acc' ! i = crc_spec_byte (push_bit 24 (of_nat i))" if i: "i < 2 ^ Suc n" for i
  proof (cases "i < 2 ^ n")
    case True
    then show ?thesis using Suc.prems(1,2) by (simp add: acc'_def nth_append)
  next
    case False
    define d where "d = i - 2 ^ n"
    have d: "i = 2 ^ n + d" "d < 2 ^ n" using False i by (auto simp: d_def)
    have "d AND 2 ^ n = 0" using d(2)
      by (auto intro!: bit_eqI simp: bit_simps bit_exp_iff dest: bit_imp_le_length)
         (metis bit_take_bit_iff nless_le take_bit_nat_eq_self)
    then have "i = 2 ^ n XOR d"
      by (simp add: d(1) disjunctive_add_eq_xor and.commute)
    then have "(of_nat i :: u32) = 2 ^ n XOR of_nat d"
      by (simp add: of_nat_xor_eq)
    then have "crc_spec_byte (push_bit 24 (of_nat i)) = b XOR crc_spec_byte (push_bit 24 (of_nat d))"
      by (simp add: b_def crc_spec_byte_def crc_spec_bits_xor push_bit_xor)
    with d Suc.prems(1,2) show ?thesis by (simp add: acc'_def nth_append)
  qed
  have "fold (\<lambda>b acc. acc @ map (\<lambda>t. b XOR t) acc)
      (map (\<lambda>k. crc_spec_byte (push_bit 24 (2 ^ k))) [Suc n..<Suc n + m]) acc' ! j
    = crc_spec_byte (push_bit 24 (of_nat j))"
    by (rule Suc.IH) (use len nth Suc.prems in auto)
  then show ?case
    by (simp add: upt_conv_Cons acc'_def b_def del: upt_Suc)
qed simp

lemma sw_crc32_table_nth:
  assumes "j < 256"
  shows "sw_crc32_table ! j = crc_spec_byte (push_bit 24 (of_nat j))"
proof -
  have "crc_span crc_basis ! j = crc_spec_byte (push_bit 24 (of_nat j))"
    unfolding crc_span_def crc_basis_eq
    using crc_span_nth [of "[0]" 0 8 j] assms by (simp add: crc_spec_byte_def)
  then show ?thesis by (simp add: crc_table_is_span)
qed

lemma crc_low_bits: "n \<le> 8 \<Longrightarrow> (crc_spec_bit ^^ n) (take_bit 24 c) = push_bit n (take_bit 24 c)"
proof (induction n)
  case (Suc n)
  then have "\<not> bit (push_bit n (take_bit 24 c)) 31"
    by (auto simp: bit_simps)
  with Suc show ?case
    by (simp add: crc_spec_bit_def push_bit_Suc push_bit_double flip: push_bit_push_bit)
qed simp

lemma sw_crc32_shift_spec: "sw_crc32_shift c = crc_spec_byte c"
proof -
  define hi where "hi = push_bit 24 (drop_bit 24 c)"
  have split: "c = hi XOR take_bit 24 c"
    unfolding hi_def by (rule bit_word_eqI) (auto simp: bit_simps)
  have idx: "unat (drop_bit 24 c) < 256"
    using unat_u32_less [of c]
    by (simp add: drop_bit_eq_div unat_div_distrib less_mult_imp_div_less)
  have "crc_spec_byte c = crc_spec_byte hi XOR crc_spec_byte (take_bit 24 c)"
    by (subst split) (simp add: crc_spec_byte_def crc_spec_bits_xor)
  also have "crc_spec_byte (take_bit 24 c) = push_bit 8 (take_bit 24 c)"
    by (simp add: crc_spec_byte_def crc_low_bits)
  also have "\<dots> = push_bit 8 c"
    by (rule bit_word_eqI) (auto simp: bit_simps)
  also have "crc_spec_byte hi = sw_crc32_table ! unat (drop_bit 24 c)"
    by (simp add: sw_crc32_table_nth [OF idx] hi_def)
  finally show ?thesis
    by (simp add: sw_crc32_shift_def xor.commute)
qed

lemma sw_crc32_word_spec: "sw_crc32_word c w = crc_spec_word c w"
proof -
  have eq: "sw_crc32_shift = (crc_spec_bit ^^ 8)"
    by (rule ext) (simp add: sw_crc32_shift_spec crc_spec_byte_def)
  show ?thesis
    unfolding sw_crc32_word_def crc_spec_word_def eq funpow_mult by simp
qed

section \<open>Streaming\<close>

lemma words_of_append: "4 dvd length xs \<Longrightarrow> words_of (xs @ ys) = words_of xs @ words_of ys"
proof (induction xs rule: words_of.induct)
  case (1 a b c d r)
  from "1.prems" have "4 dvd length r" by simp presburger
  with "1.IH" show ?case by simp
qed (auto dest: dvd_imp_le)

lemma words_of_le32 [simp]: "words_of (le32 w @ r) = w # words_of r"
  by (simp add: le32_def word32_of_le32)

lemma crc32_end_append [enc_simps]:
  "4 dvd length xs \<Longrightarrow> crc32_end dr (xs @ ys) r = crc32_end dr ys (crc32_end dr xs r)"
  by (simp add: crc32_end_def words_of_append)

lemma crc32_end_Nil [simp]: "crc32_end dr [] r = r"
  by (simp add: crc32_end_def)

lemma crc32_start_end: "crc32_start dr xs = crc32_end dr xs crc_reset"
  by (simp add: crc32_start_def crc32_end_def)

lemma crc32_eq_start: "crc32 dr xs = crc32_start dr xs"
  by (simp add: crc32_def crc32_start_def)

lemma crc32_start_append [enc_simps]:
  "4 dvd length xs \<Longrightarrow> crc32_start dr (xs @ ys) = crc32_end dr ys (crc32_start dr xs)"
  by (simp add: crc32_start_end crc32_end_append)

section \<open>Injectivity\<close>

lemma crc_spec_bit_eq_0: "crc_spec_bit c = 0 \<Longrightarrow> c = 0"
proof -
  assume z: "crc_spec_bit c = 0"
  have "\<not> bit c 31"
  proof
    assume b: "bit c 31"
    have "\<not> bit (push_bit 1 c) 0" by (subst bit_push_bit_iff) simp
    moreover have "bit (0x04C11DB7 :: u32) 0" by simp
    ultimately have "bit (push_bit 1 c XOR 0x04C11DB7) 0" unfolding bit_xor_iff by blast
    with b z show False by (simp add: crc_spec_bit_def)
  qed
  with z have p: "push_bit 1 c = 0" by (simp add: crc_spec_bit_def)
  show "c = 0"
  proof (rule bit_word_eqI)
    fix n assume n: "n < LENGTH(32)"
    have "\<not> bit c n"
    proof (cases "n = 31")
      case False
      with n have "bit (push_bit 1 c) (Suc n) = bit c n" by (subst bit_push_bit_iff) simp
      with p show ?thesis by simp
    qed (use \<open>\<not> bit c 31\<close> in simp)
    then show "bit c n = bit (0 :: u32) n" by simp
  qed
qed

lemma xor_eq_0_word: "(a :: u32) XOR b = 0 \<longleftrightarrow> a = b"
  by (metis xor.assoc xor.left_neutral xor.right_neutral xor_self_eq)

lemma crc_spec_bits_inj: "(crc_spec_bit ^^ n) a = (crc_spec_bit ^^ n) b \<Longrightarrow> a = b"
proof (induction n)
  case (Suc n)
  from Suc.prems have "crc_spec_bit ((crc_spec_bit ^^ n) a XOR (crc_spec_bit ^^ n) b) = 0"
    by (simp add: crc_spec_bit_xor)
  then have "(crc_spec_bit ^^ n) a = (crc_spec_bit ^^ n) b"
    using crc_spec_bit_eq_0 xor_eq_0_word by blast
  then show ?case by (rule Suc.IH)
qed simp

lemma xor_cancel_word: "(c :: u32) XOR v = c XOR w \<longleftrightarrow> v = w"
  by (metis xor.assoc xor.left_neutral xor_self_eq)

lemma xor_cancel_word_right: "(v :: u32) XOR c = w XOR c \<longleftrightarrow> v = w"
  by (metis xor.commute xor_cancel_word)

lemma crc_spec_word_inj: "crc_spec_word a v = crc_spec_word b w \<longleftrightarrow> a XOR v = b XOR w"
proof
  show "crc_spec_word a v = crc_spec_word b w \<Longrightarrow> a XOR v = b XOR w"
    unfolding crc_spec_word_def by (rule crc_spec_bits_inj)
qed (simp add: crc_spec_word_def)

lemma fold_crc_inj:
  "fold (\<lambda>w c. crc_spec_word c w) ws a = fold (\<lambda>w c. crc_spec_word c w) ws b \<longleftrightarrow> a = b"
proof (induction ws arbitrary: a b)
  case (Cons w ws)
  show ?case unfolding fold_Cons comp_apply Cons.IH crc_spec_word_inj xor_cancel_word_right ..
qed simp

lemma words_of_subst:
  assumes "4 dvd length pre" shows "words_of (pre @ le32 w @ post) = words_of pre @ w # words_of post"
  using assms by (simp add: words_of_append)

lemma sw_fold: "(\<lambda>w c. sw_crc32_word c w) = (\<lambda>w c. crc_spec_word c w)"
  by (simp add: sw_crc32_word_spec)

section \<open>The CRC unit as an interface\<close>

text \<open>
  What the firmware relies on: the unit folds a word in as the bit-serial definition says
  (RM0090, CRC calculation unit). Host-side signing relies on the same law.
\<close>

locale crc_unit =
  fixes dr :: "u32 \<Rightarrow> u32 \<Rightarrow> u32"
  assumes dr_spec: "dr c w = crc_spec_word c w"
begin

lemma dr_eq_sw: "dr = sw_crc32_word"
  by (intro ext) (simp add: dr_spec sw_crc32_word_spec)

lemma start_eq_eth: "crc32_start dr xs = crc32_eth_start xs"
  by (simp add: crc32_start_def crc32_eth_start_def dr_eq_sw crc_reset_def)

lemma end_eq_eth: "crc32_end dr xs c = crc32_eth_end xs c"
  by (simp add: crc32_end_def crc32_eth_end_def dr_eq_sw)

lemma crc32_eq_eth: "crc32 dr xs = crc32_eth xs"
  by (simp add: crc32_def crc32_eth_def dr_eq_sw crc_reset_def)

end

interpretation sw_crc: crc_unit sw_crc32_word
  by unfold_locales (rule sw_crc32_word_spec)

section \<open>Properties\<close>

text \<open>The table-driven CRC of the signing tool is the bit-serial CRC-32 (polynomial
  \<open>0x04C11DB7\<close>, most significant bit first, no reflection), from the reset value and from any
  intermediate one.\<close>

lemma crc32_eth_bit_serial:
  "crc32_eth buf = fold (\<lambda>w c. crc_spec_word c w) (words_of buf) 0xFFFFFFFF
   \<and> crc32_eth_end buf temp = fold (\<lambda>w c. crc_spec_word c w) (words_of buf) temp"
  by (simp add: crc32_eth_def crc32_eth_end_def sw_fold)

text \<open>An image in which one aligned word was altered never has the CRC of the original.\<close>

lemma crc32_detects_word:
  assumes "crc_unit dr" "4 dvd length pre" "v \<noteq> w"
  shows "crc32 dr (pre @ le32 v @ post) \<noteq> crc32 dr (pre @ le32 w @ post)"
proof -
  have d: "dr = crc_spec_word"
    using crc_unit.dr_eq_sw [OF assms(1)] sw_crc32_word_spec by (simp add: fun_eq_iff)
  show ?thesis
    using assms(3) by (simp add: crc32_def words_of_subst [OF assms(2)] d fold_crc_inj crc_spec_word_inj xor_cancel_word)
qed
lemma crc32_detects_word_witness:
  "crc32 sw_crc32_word (le32 1 @ le32 2 @ le32 3) \<noteq> crc32 sw_crc32_word (le32 1 @ le32 0x82 @ le32 3)"
  by (rule crc32_detects_word [OF sw_crc.crc_unit_axioms]) simp_all

end
