(* ===== verification/Flash.thy ===== *)
theory Flash
  imports Gw_Prelude
begin

text \<open>
  Program flash, common/platform.c: the sector table, \<open>platform_flash_write\<close> (erase a sector on its
  first write after a flag reset, program and verify byte by byte) and \<open>platform_flash_read\<close>, and
  the range check of common/fw_header/fw_headers_variables.c.

  What the flash controller does on \<open>FLASH_EraseSector\<close> and \<open>FLASH_ProgramByte\<close> is hardware: a
  \<open>flash_dev\<close> gives, for each, whether it completed and the memory it leaves.  The locale
  \<open>nor_flash\<close> states the documented behaviour of NOR flash: an erase that completes leaves
  \<open>0xFF\<close> in the sector, programming can only clear bits, and neither touches anything else.
\<close>

section \<open>Definitions\<close>

abbreviation FLASH_START :: u32 where "FLASH_START \<equiv> 0x08000000"
abbreviation FLASH_LEN :: u32 where "FLASH_LEN \<equiv> 0x00080000"
abbreviation FLASH_FINISH :: u32 where "FLASH_FINISH \<equiv> 0x08080000"

record sector_t =
  sec_start :: u32
  sec_len :: u32
  sec_num :: u32
  sec_erased :: bool

record flash_dev =
  fd_erase :: "u32 \<Rightarrow> memory \<Rightarrow> bool \<times> memory"
  fd_program :: "u32 \<Rightarrow> u8 \<Rightarrow> memory \<Rightarrow> bool \<times> memory"

record flash_st =
  flash_desc :: "sector_t list"
  flash_mem :: memory
  flash_locked :: bool

definition flash_desc_init :: "sector_t list" where
  "flash_desc_init =
    [\<lparr>sec_start = 0x08000000, sec_len = 16 * 1024, sec_num = 0x00, sec_erased = False\<rparr>,
     \<lparr>sec_start = 0x08004000, sec_len = 16 * 1024, sec_num = 0x08, sec_erased = False\<rparr>,
     \<lparr>sec_start = 0x08008000, sec_len = 16 * 1024, sec_num = 0x10, sec_erased = False\<rparr>,
     \<lparr>sec_start = 0x0800C000, sec_len = 16 * 1024, sec_num = 0x18, sec_erased = False\<rparr>,
     \<lparr>sec_start = 0x08010000, sec_len = 64 * 1024, sec_num = 0x20, sec_erased = False\<rparr>,
     \<lparr>sec_start = 0x08020000, sec_len = 128 * 1024, sec_num = 0x28, sec_erased = False\<rparr>,
     \<lparr>sec_start = 0x08040000, sec_len = 128 * 1024, sec_num = 0x30, sec_erased = False\<rparr>,
     \<lparr>sec_start = 0x08060000, sec_len = 128 * 1024, sec_num = 0x38, sec_erased = False\<rparr>]"

definition CFG_SECT :: nat where
  "CFG_SECT = 4"

definition in_sector :: "sector_t \<Rightarrow> u32 \<Rightarrow> bool" where
  "in_sector d addr \<longleftrightarrow> addr \<ge> sec_start d \<and> addr < sec_start d + sec_len d"

text \<open>\<open>find_sector\<close>: the index of the first entry that holds the address; \<open>-1\<close> is \<open>None\<close>.\<close>

fun find_sector_from :: "nat \<Rightarrow> sector_t list \<Rightarrow> u32 \<Rightarrow> nat option" where
  "find_sector_from i [] addr = None"
| "find_sector_from i (d # ds) addr =
     (if in_sector d addr then Some i else find_sector_from (Suc i) ds addr)"

definition find_sector :: "sector_t list \<Rightarrow> u32 \<Rightarrow> nat option" where
  "find_sector ds addr = find_sector_from 0 ds addr"

definition platform_flash_erase_flag_reset :: "flash_st \<Rightarrow> flash_st" where
  "platform_flash_erase_flag_reset st =
     st\<lparr>flash_desc := map (\<lambda>d. d\<lparr>sec_erased := False\<rparr>) (flash_desc st)\<rparr>"

definition platform_flash_erase_flag_reset_sect_cfg :: "flash_st \<Rightarrow> flash_st" where
  "platform_flash_erase_flag_reset_sect_cfg st =
     st\<lparr>flash_desc := (flash_desc st)[CFG_SECT := (flash_desc st ! CFG_SECT)\<lparr>sec_erased := False\<rparr>]\<rparr>"

definition platform_flash_unlock :: "flash_st \<Rightarrow> flash_st" where
  "platform_flash_unlock st = st\<lparr>flash_locked := False\<rparr>"

definition platform_flash_lock :: "flash_st \<Rightarrow> flash_st" where
  "platform_flash_lock st = st\<lparr>flash_locked := True\<rparr>"

text \<open>
  One iteration of the write loop: error codes 1 (no sector), 2 (erase), 4 (program), 5 (verify);
  every error path locks the flash again.
\<close>

definition flash_erase_once :: "flash_dev \<Rightarrow> nat \<Rightarrow> flash_st \<Rightarrow> nat \<times> flash_st" where
  "flash_erase_once dev sect st =
    (let d = flash_desc st ! sect
     in if sec_erased d then (0, st)
        else (case fd_erase dev (sec_num d) (flash_mem st) of (c, m) \<Rightarrow>
          (let st1 = st\<lparr>flash_desc := (flash_desc st)[sect := d\<lparr>sec_erased := True\<rparr>], flash_mem := m\<rparr>
           in if c then (0, st1) else (2, platform_flash_lock st1))))"

definition flash_program_verify :: "flash_dev \<Rightarrow> u32 \<Rightarrow> u8 \<Rightarrow> flash_st \<Rightarrow> nat \<times> flash_st" where
  "flash_program_verify dev addr b st =
    (case fd_program dev addr b (flash_mem st) of (c, m) \<Rightarrow>
      (let st1 = st\<lparr>flash_mem := m\<rparr>
       in if \<not> c then (4, platform_flash_lock st1)
          else if m addr \<noteq> b then (5, platform_flash_lock st1)
          else (0, st1)))"

definition flash_write_byte :: "flash_dev \<Rightarrow> u32 \<Rightarrow> u8 \<Rightarrow> flash_st \<Rightarrow> nat \<times> flash_st" where
  "flash_write_byte dev addr b st =
    (case find_sector (flash_desc st) addr of
       None \<Rightarrow> (1, platform_flash_lock st)
     | Some sect \<Rightarrow> and_then 0 (flash_erase_once dev sect) (flash_program_verify dev addr b) st)"

fun flash_write_loop :: "flash_dev \<Rightarrow> u32 \<Rightarrow> bytes \<Rightarrow> flash_st \<Rightarrow> nat \<times> flash_st" where
  "flash_write_loop dev dest [] st = (0, platform_flash_lock st)"
| "flash_write_loop dev dest (b # bs) st =
     and_then 0 (flash_write_byte dev dest b) (flash_write_loop dev (dest + 1) bs) st"

definition platform_flash_write :: "flash_dev \<Rightarrow> u32 \<Rightarrow> bytes \<Rightarrow> flash_st \<Rightarrow> nat \<times> flash_st" where
  "platform_flash_write dev dest src st =
     (if src = [] then (0, st) else flash_write_loop dev dest src (platform_flash_unlock st))"

text \<open>\<open>platform_flash_read\<close>: on a range error the destination keeps its old bytes.\<close>

definition platform_flash_read :: "flash_st \<Rightarrow> u32 \<Rightarrow> u32 \<Rightarrow> bytes \<Rightarrow> nat \<times> bytes" where
  "platform_flash_read st addr sz old =
     (if addr < FLASH_START \<or> addr + sz \<ge> FLASH_FINISH then (1, old)
      else (0, mem_bytes (flash_mem st) addr (unat sz)))"

text \<open>\<open>flash_check_range\<close>: true when the range is \<^emph>\<open>not\<close> inside the flash.\<close>

definition flash_check_range :: "u32 \<Rightarrow> u32 \<Rightarrow> bool" where
  "flash_check_range addr_start sz =
     (if sz > FLASH_LEN then True
      else addr_start < FLASH_START \<or> addr_start + sz > FLASH_FINISH)"

text \<open>An ideal device: every operation completes.\<close>

definition nor_erase :: "u32 \<Rightarrow> memory \<Rightarrow> bool \<times> memory" where
  "nor_erase num m =
     (True, \<lambda>a. if \<exists>d \<in> set flash_desc_init. sec_num d = num \<and> in_sector d a then 0xFF else m a)"

definition nor_program :: "u32 \<Rightarrow> u8 \<Rightarrow> memory \<Rightarrow> bool \<times> memory" where
  "nor_program a b m = (True, m(a := m a AND b))"

definition nor_dev :: flash_dev where
  "nor_dev = \<lparr>fd_erase = nor_erase, fd_program = nor_program\<rparr>"

definition flash_init :: flash_st where
  "flash_init = \<lparr>flash_desc = flash_desc_init, flash_mem = (\<lambda>_. 0xFF), flash_locked = True\<rparr>"

text \<open>The geometry of the table: what no operation changes.\<close>

definition sec_geom :: "sector_t \<Rightarrow> u32 \<times> u32 \<times> u32" where
  "sec_geom d = (sec_start d, sec_len d, sec_num d)"

definition desc_ok :: "flash_st \<Rightarrow> bool" where
  "desc_ok st \<longleftrightarrow> map sec_geom (flash_desc st) = map sec_geom flash_desc_init"

text \<open>The sector that holds an address has its erased flag set.\<close>

definition addr_erased :: "flash_st \<Rightarrow> u32 \<Rightarrow> bool" where
  "addr_erased st a \<longleftrightarrow>
     (case find_sector flash_desc_init a of None \<Rightarrow> False | Some i \<Rightarrow> sec_erased (flash_desc st ! i))"

text \<open>A cell that a write can reach with any value: not erased yet, or blank.\<close>

definition writable :: "flash_st \<Rightarrow> u32 \<Rightarrow> bool" where
  "writable st a \<longleftrightarrow> find_sector flash_desc_init a \<noteq> None \<and> (\<not> addr_erased st a \<or> flash_mem st a = 0xFF)"

section \<open>Lemmas\<close>

lemma length_flash_desc_init [simp]: "length flash_desc_init = 8"
  by (simp add: flash_desc_init_def)

lemma find_sector_from_geom:
  "map sec_geom ds = map sec_geom ds' \<Longrightarrow> find_sector_from i ds a = find_sector_from i ds' a"
proof (induction ds arbitrary: i ds')
  case (Cons d ds)
  then obtain d' ds'' where eq: "ds' = d' # ds''" "sec_geom d = sec_geom d'"
    and rest: "map sec_geom ds = map sec_geom ds''"
    by (cases ds') auto
  from eq(2) have "in_sector d a = in_sector d' a" by (simp add: in_sector_def sec_geom_def)
  then show ?case using Cons.IH [OF rest, of "Suc i"] by (simp add: eq(1))
qed simp

lemma find_sector_desc_ok: "desc_ok st \<Longrightarrow> find_sector (flash_desc st) a = find_sector flash_desc_init a"
  unfolding find_sector_def desc_ok_def by (rule find_sector_from_geom)

lemma desc_ok_length: "desc_ok st \<Longrightarrow> length (flash_desc st) = 8"
  unfolding desc_ok_def by (metis length_flash_desc_init length_map)

lemma desc_ok_nth: "desc_ok st \<Longrightarrow> i < 8 \<Longrightarrow> sec_geom (flash_desc st ! i) = sec_geom (flash_desc_init ! i)"
  using desc_ok_length [of st] unfolding desc_ok_def by (metis length_flash_desc_init nth_map)

lemma find_sector_from_Some:
  "find_sector_from i ds a = Some j \<Longrightarrow> i \<le> j \<and> j < i + length ds \<and> in_sector (ds ! (j - i)) a"
proof (induction ds arbitrary: i)
  case (Cons d ds)
  show ?case
  proof (cases "in_sector d a")
    case False
    with Cons.prems Cons.IH [of "Suc i"] show ?thesis
      by (auto simp: nth_Cons' Suc_le_eq)
  qed (use Cons.prems in auto)
qed simp

lemma find_sector_Some: "find_sector flash_desc_init a = Some j \<Longrightarrow> j < 8 \<and> in_sector (flash_desc_init ! j) a"
  using find_sector_from_Some [of 0 flash_desc_init a j] by (simp add: find_sector_def)

lemma in_sector_unique:
  assumes "in_sector (flash_desc_init ! i) a" "in_sector (flash_desc_init ! j) a" "i < 8" "j < 8"
  shows "i = j"
proof -
  have "i \<in> {0,1,2,3,4,5,6,7}" "j \<in> {0,1,2,3,4,5,6,7}" using assms(3,4) by auto
  with assms(1,2) show ?thesis
    by (auto simp: flash_desc_init_def in_sector_def word_le_nat_alt word_less_nat_alt)
qed

lemma sec_num_unique:
  assumes "sec_num (flash_desc_init ! i) = sec_num (flash_desc_init ! j)" "i < 8" "j < 8"
  shows "i = j"
proof -
  have "i \<in> {0,1,2,3,4,5,6,7}" "j \<in> {0,1,2,3,4,5,6,7}" using assms(2,3) by auto
  with assms(1) show ?thesis
    by (auto simp: flash_desc_init_def)
qed

lemma find_sector_flash:
  assumes "FLASH_START \<le> a" "a < FLASH_FINISH"
  shows "\<exists>i. find_sector flash_desc_init a = Some i"
  using assms
  by (auto simp: find_sector_def flash_desc_init_def in_sector_def word_le_nat_alt word_less_nat_alt)

lemma platform_flash_lock_sel [simp]:
  "flash_desc (platform_flash_lock st) = flash_desc st"
  "flash_mem (platform_flash_lock st) = flash_mem st"
  "flash_desc (platform_flash_unlock st) = flash_desc st"
  "flash_mem (platform_flash_unlock st) = flash_mem st"
  by (simp_all add: platform_flash_lock_def platform_flash_unlock_def)

lemma flash_lock_inv [simp]:
  "desc_ok (platform_flash_lock st) = desc_ok st"
  "addr_erased (platform_flash_lock st) a = addr_erased st a"
  "desc_ok (platform_flash_unlock st) = desc_ok st"
  "addr_erased (platform_flash_unlock st) a = addr_erased st a"
  by (simp_all add: desc_ok_def addr_erased_def cong: option.case_cong)

lemma erase_once_desc:
  "flash_desc (snd (flash_erase_once dev i st)) = (flash_desc st)[i := (flash_desc st ! i)\<lparr>sec_erased := True\<rparr>]"
  if "i < length (flash_desc st)"
proof (cases "sec_erased (flash_desc st ! i)")
  case True
  then have "(flash_desc st ! i)\<lparr>sec_erased := True\<rparr> = flash_desc st ! i" by simp
  with that have "(flash_desc st)[i := (flash_desc st ! i)\<lparr>sec_erased := True\<rparr>] = flash_desc st"
    by (metis list_update_id)
  with True show ?thesis by (simp add: flash_erase_once_def Let_def)
next
  case False
  then show ?thesis by (simp add: flash_erase_once_def Let_def split: prod.split)
qed

lemma erase_once_desc_ok: "desc_ok st \<Longrightarrow> i < 8 \<Longrightarrow> desc_ok (snd (flash_erase_once dev i st))"
proof -
  assume ok: "desc_ok st" and i: "i < 8"
  then have "sec_geom ((flash_desc st ! i)\<lparr>sec_erased := True\<rparr>) = map sec_geom flash_desc_init ! i"
    using desc_ok_nth [OF ok i] by (simp add: sec_geom_def)
  with ok i desc_ok_length [OF ok] show ?thesis
    by (simp add: desc_ok_def erase_once_desc map_update list_update_same_conv)
qed

lemma erase_once_addr_erased:
  "desc_ok st \<Longrightarrow> i < 8 \<Longrightarrow>
   addr_erased (snd (flash_erase_once dev i st)) a \<longleftrightarrow> addr_erased st a \<or> find_sector flash_desc_init a = Some i"
  using desc_ok_length [of st] find_sector_Some [of a]
  by (auto simp: addr_erased_def erase_once_desc nth_list_update split: option.splits)

lemma program_verify_desc [simp]: "flash_desc (snd (flash_program_verify dev a b st)) = flash_desc st"
  by (simp add: flash_program_verify_def Let_def split: prod.split)

lemma program_verify_inv [simp]:
  "desc_ok (snd (flash_program_verify dev a b st)) = desc_ok st"
  "addr_erased (snd (flash_program_verify dev a b st)) x = addr_erased st x"
  by (simp_all add: desc_ok_def addr_erased_def cong: option.case_cong)

lemma and_ff: "(0xFF :: u8) AND b = b"
proof -
  have "(0xFF :: u8) = - 1" by simp
  then show ?thesis by (metis and.left_neutral)
qed

lemma writable_lock [simp]:
  "writable (platform_flash_lock st) a = writable st a"
  "writable (platform_flash_unlock st) a = writable st a"
  by (simp_all add: writable_def)

section \<open>The flash controller\<close>

locale nor_flash =
  fixes dev :: flash_dev
  assumes erase_ff: "fst (fd_erase dev (sec_num (flash_desc_init ! i)) m) \<Longrightarrow> i < 8 \<Longrightarrow>
      in_sector (flash_desc_init ! i) a \<Longrightarrow> snd (fd_erase dev (sec_num (flash_desc_init ! i)) m) a = 0xFF"
    and erase_other: "i < 8 \<Longrightarrow> \<not> in_sector (flash_desc_init ! i) a \<Longrightarrow>
      snd (fd_erase dev (sec_num (flash_desc_init ! i)) m) a = m a"
    and program_and: "fst (fd_program dev a b m) \<Longrightarrow> snd (fd_program dev a b m) a = m a AND b"
    and program_other: "x \<noteq> a \<Longrightarrow> snd (fd_program dev a b m) x = m x"
begin

lemma erase_once_other:
  assumes "desc_ok st" "i < 8" "\<not> in_sector (flash_desc_init ! i) x \<or> addr_erased st x"
  shows "flash_mem (snd (flash_erase_once dev i st)) x = flash_mem st x"
proof (cases "sec_erased (flash_desc st ! i)")
  case False
  have "\<not> in_sector (flash_desc_init ! i) x"
  proof
    assume i: "in_sector (flash_desc_init ! i) x"
    with assms(3) obtain j where j: "find_sector flash_desc_init x = Some j" "sec_erased (flash_desc st ! j)"
      by (auto simp: addr_erased_def split: option.splits)
    with find_sector_Some [OF j(1)] in_sector_unique [OF i] assms(2) False show False by blast
  qed
  with False assms(2) desc_ok_nth [OF assms(1,2)] erase_other [of i x "flash_mem st"]
  show ?thesis
    by (auto simp: flash_erase_once_def Let_def sec_geom_def split: prod.split)
qed (simp add: flash_erase_once_def)

lemma program_verify_other: "x \<noteq> a \<Longrightarrow> flash_mem (snd (flash_program_verify dev a b st)) x = flash_mem st x"
  using program_other [of x a b "flash_mem st"]
  by (auto simp: flash_program_verify_def Let_def split: prod.split)

lemma program_verify_ok:
  "fst (flash_program_verify dev a b st) = 0 \<Longrightarrow> flash_mem (snd (flash_program_verify dev a b st)) a = b"
  by (auto simp: flash_program_verify_def Let_def split: prod.splits if_splits)

lemma write_byte_desc_ok:
  assumes "desc_ok st"
  shows "desc_ok (snd (flash_write_byte dev a b st))"
proof (cases "find_sector flash_desc_init a")
  case None
  then show ?thesis
    using assms by (simp add: flash_write_byte_def find_sector_desc_ok)
next
  case (Some i)
  then have ok: "desc_ok (snd (flash_erase_once dev i st))"
    using assms find_sector_Some [OF Some] by (simp add: erase_once_desc_ok)
  from ok Some assms show ?thesis
    using program_verify_inv(1) [of dev a b]
    by (simp add: flash_write_byte_def and_then_def find_sector_desc_ok split: prod.split) (metis snd_conv)
qed

lemma write_byte_ok:
  assumes "desc_ok st" "fst (flash_write_byte dev a b st) = 0"
  shows "flash_mem (snd (flash_write_byte dev a b st)) a = b"
    and "addr_erased (snd (flash_write_byte dev a b st)) a"
    and "addr_erased st x \<Longrightarrow> addr_erased (snd (flash_write_byte dev a b st)) x"
    and "addr_erased st x \<Longrightarrow> x \<noteq> a \<Longrightarrow> flash_mem (snd (flash_write_byte dev a b st)) x = flash_mem st x"
proof -
  from assms obtain i where i: "find_sector flash_desc_init a = Some i"
    by (auto simp: flash_write_byte_def find_sector_desc_ok split: option.splits)
  define st1 where "st1 = snd (flash_erase_once dev i st)"
  from i assms have e: "fst (flash_erase_once dev i st) = 0"
    and w: "flash_write_byte dev a b st = flash_program_verify dev a b st1"
    by (auto simp: flash_write_byte_def and_then_def find_sector_desc_ok st1_def split: prod.splits if_splits)
  have i8: "i < 8" using find_sector_Some [OF i] by simp
  show "flash_mem (snd (flash_write_byte dev a b st)) a = b"
    using assms(2) program_verify_ok unfolding w by blast
  show "addr_erased (snd (flash_write_byte dev a b st)) a"
    unfolding w program_verify_inv
    by (simp add: st1_def erase_once_addr_erased [OF assms(1) i8] i)
  show "addr_erased st x \<Longrightarrow> addr_erased (snd (flash_write_byte dev a b st)) x"
    unfolding w program_verify_inv
    by (simp add: st1_def erase_once_addr_erased [OF assms(1) i8])
  show "addr_erased st x \<Longrightarrow> x \<noteq> a \<Longrightarrow> flash_mem (snd (flash_write_byte dev a b st)) x = flash_mem st x"
    using erase_once_other [OF assms(1) i8, of x]
    by (simp add: w program_verify_other st1_def)
qed

lemma write_loop_ok:
  assumes "desc_ok st" "fst (flash_write_loop dev a bs st) = 0" "length bs \<le> 2 ^ 32"
  shows "desc_ok (snd (flash_write_loop dev a bs st))
    \<and> mem_bytes (flash_mem (snd (flash_write_loop dev a bs st))) a (length bs) = bs
    \<and> (\<forall>i < length bs. addr_erased (snd (flash_write_loop dev a bs st)) (a + of_nat i))
    \<and> (\<forall>x. addr_erased st x \<longrightarrow> addr_erased (snd (flash_write_loop dev a bs st)) x
          \<and> ((\<forall>i < length bs. x \<noteq> a + of_nat i) \<longrightarrow>
                flash_mem (snd (flash_write_loop dev a bs st)) x = flash_mem st x))"
  using assms
proof (induction bs arbitrary: a st)
  case Nil
  then show ?case by simp
next
  case (Cons b bs)
  define st1 where "st1 = snd (flash_write_byte dev a b st)"
  define st2 where "st2 = snd (flash_write_loop dev (a + 1) bs st1)"
  from Cons.prems(2) have z: "fst (flash_write_byte dev a b st) = 0"
    and r: "flash_write_loop dev a (b # bs) st = flash_write_loop dev (a + 1) bs st1"
    by (auto simp: and_then_def st1_def split: prod.splits if_splits)
  note w = write_byte_ok [OF Cons.prems(1) z, folded st1_def]
  have ok1: "desc_ok st1"
    unfolding st1_def by (rule write_byte_desc_ok [OF Cons.prems(1)])
  have z2: "fst (flash_write_loop dev (a + 1) bs st1) = 0"
    using Cons.prems(2) r by simp
  from Cons.IH [OF ok1 z2] Cons.prems(3)
  have ih: "desc_ok st2" "mem_bytes (flash_mem st2) (a + 1) (length bs) = bs"
    "\<And>i. i < length bs \<Longrightarrow> addr_erased st2 (a + 1 + of_nat i)"
    "\<And>x. addr_erased st1 x \<Longrightarrow> addr_erased st2 x"
    "\<And>x. addr_erased st1 x \<Longrightarrow> (\<And>i. i < length bs \<Longrightarrow> x \<noteq> a + 1 + of_nat i) \<Longrightarrow>
       flash_mem st2 x = flash_mem st1 x"
    by (auto simp: st2_def)
  have other: "a \<noteq> a + 1 + of_nat i" if "i < length bs" for i
  proof -
    have "(of_nat (Suc i) :: u32) \<noteq> of_nat 0"
      using that Cons.prems(3) by (subst of_nat_u32_inj) auto
    then show ?thesis by (simp add: add.assoc)
  qed
  have "flash_mem st2 a = b"
    using ih(5) [OF w(2) other] w(1) by simp
  with ih(2) have m: "mem_bytes (flash_mem st2) a (length (b # bs)) = b # bs"
    by (simp add: mem_bytes_Suc)
  have e: "addr_erased st2 (a + of_nat i)" if "i < length (b # bs)" for i
    using that ih(3) [of "i - 1"] ih(4) [OF w(2)] by (cases i) (auto simp: algebra_simps)
  have f: "flash_mem st2 x = flash_mem st x"
    if "addr_erased st x" "\<forall>i < length (b # bs). x \<noteq> a + of_nat i" for x
  proof -
    have "x \<noteq> a" using that(2) by force
    moreover have "x \<noteq> a + 1 + of_nat i" if "i < length bs" for i
      using \<open>\<forall>i < length (b # bs). x \<noteq> a + of_nat i\<close> that by (auto simp: algebra_simps dest: spec [of _ "Suc i"])
    ultimately show ?thesis
      using ih(5) [OF w(3) [OF that(1)]] w(4) [OF that(1)] by simp
  qed
  show ?case
    unfolding r st2_def [symmetric] using ih(1) m e f ih(4) [OF w(3)] by blast
qed

lemma write_byte_frame:
  assumes "desc_ok st" "find_sector flash_desc_init x \<noteq> find_sector flash_desc_init a"
    "find_sector flash_desc_init x \<noteq> None"
  shows "flash_mem (snd (flash_write_byte dev a b st)) x = flash_mem st x"
proof (cases "find_sector flash_desc_init a")
  case None
  then show ?thesis
    using assms(1) by (simp add: flash_write_byte_def find_sector_desc_ok)
next
  case (Some i)
  from assms(2,3) Some obtain j where j: "find_sector flash_desc_init x = Some j" "j \<noteq> i" by auto
  have out: "\<not> in_sector (flash_desc_init ! i) x"
    using find_sector_Some [OF j(1)] find_sector_Some [OF Some] in_sector_unique [of j x i] j(2) by blast
  have ne: "x \<noteq> a" using assms(2) by blast
  have e: "flash_mem (snd (flash_erase_once dev i st)) x = flash_mem st x"
    using erase_once_other [OF assms(1)] find_sector_Some [OF Some] out by blast
  show ?thesis
    using Some assms(1) e program_verify_other [OF ne]
    by (auto simp: flash_write_byte_def and_then_def find_sector_desc_ok split: prod.split)
qed

lemma write_loop_frame:
  assumes "desc_ok st" "find_sector flash_desc_init x \<noteq> None"
    "\<forall>i < length bs. find_sector flash_desc_init x \<noteq> find_sector flash_desc_init (a + of_nat i)"
  shows "flash_mem (snd (flash_write_loop dev a bs st)) x = flash_mem st x
    \<and> desc_ok (snd (flash_write_loop dev a bs st))"
  using assms
proof (induction bs arbitrary: a st)
  case (Cons b bs)
  define st1 where "st1 = snd (flash_write_byte dev a b st)"
  have a: "find_sector flash_desc_init x \<noteq> find_sector flash_desc_init a"
    using Cons.prems(3) by force
  have r: "find_sector flash_desc_init x \<noteq> find_sector flash_desc_init (a + 1 + of_nat i)"
    if "i < length bs" for i
    using that Cons.prems(3) [rule_format, of "Suc i"] by (simp add: algebra_simps)
  have m: "flash_mem st1 x = flash_mem st x"
    unfolding st1_def by (rule write_byte_frame [OF Cons.prems(1) a Cons.prems(2)])
  have ok: "desc_ok st1"
    unfolding st1_def by (rule write_byte_desc_ok [OF Cons.prems(1)])
  have "flash_mem (snd (flash_write_loop dev (a + 1) bs st1)) x = flash_mem st1 x
    \<and> desc_ok (snd (flash_write_loop dev (a + 1) bs st1))"
    by (rule Cons.IH [OF ok Cons.prems(2)]) (use r in blast)
  with m ok show ?case
    by (cases "flash_write_byte dev a b st") (auto simp: and_then_def st1_def)
qed simp

lemma platform_write_ok:
  assumes "desc_ok st" "length src < 2 ^ 32" "fst (platform_flash_write dev dest src st) = 0"
  shows "mem_bytes (flash_mem (snd (platform_flash_write dev dest src st))) dest (length src) = src
    \<and> desc_ok (snd (platform_flash_write dev dest src st))
    \<and> (\<forall>i < length src. addr_erased (snd (platform_flash_write dev dest src st)) (dest + of_nat i))
    \<and> (\<forall>x. addr_erased st x \<longrightarrow> addr_erased (snd (platform_flash_write dev dest src st)) x
          \<and> ((\<forall>i < length src. x \<noteq> dest + of_nat i) \<longrightarrow>
                flash_mem (snd (platform_flash_write dev dest src st)) x = flash_mem st x))"
  using assms write_loop_ok [of "platform_flash_unlock st" dest src]
  by (cases "src = []") (simp_all add: platform_flash_write_def)

lemma platform_write_frame:
  assumes "desc_ok st" "find_sector flash_desc_init x \<noteq> None"
    "\<forall>i < length src. find_sector flash_desc_init x \<noteq> find_sector flash_desc_init (dest + of_nat i)"
  shows "flash_mem (snd (platform_flash_write dev dest src st)) x = flash_mem st x"
  using write_loop_frame [OF _ assms(2,3), of "platform_flash_unlock st"] assms(1)
  by (simp add: platform_flash_write_def)

lemma write_loop_desc_ok: "desc_ok st \<Longrightarrow> desc_ok (snd (flash_write_loop dev a bs st))"
proof (induction bs arbitrary: a st)
  case (Cons b bs)
  from write_byte_desc_ok [OF Cons.prems, of a b] Cons.IH show ?case
    by (cases "flash_write_byte dev a b st") (auto simp: and_then_def)
qed simp

lemma platform_write_desc_ok: "desc_ok st \<Longrightarrow> desc_ok (snd (platform_flash_write dev dest src st))"
  by (simp add: platform_flash_write_def write_loop_desc_ok)

end

text \<open>A device on which every operation completes writes every blank or not yet erased cell.\<close>

locale reliable_flash = nor_flash +
  assumes erase_done: "i < 8 \<Longrightarrow> fst (fd_erase dev (sec_num (flash_desc_init ! i)) m)"
    and program_done: "fst (fd_program dev a b m)"
begin

lemma erase_once_done:
  "desc_ok st \<Longrightarrow> i < 8 \<Longrightarrow> fst (flash_erase_once dev i st) = 0"
  using desc_ok_nth [of st i] erase_done [of i "flash_mem st"]
  by (auto simp: flash_erase_once_def Let_def sec_geom_def split: prod.split)

lemma erase_once_writable:
  assumes "desc_ok st" "i < 8" "writable st x"
  shows "writable (snd (flash_erase_once dev i st)) x"
    and "in_sector (flash_desc_init ! i) x \<Longrightarrow> flash_mem (snd (flash_erase_once dev i st)) x = 0xFF"
proof -
  show ff: "flash_mem (snd (flash_erase_once dev i st)) x = 0xFF" if "in_sector (flash_desc_init ! i) x"
  proof (cases "sec_erased (flash_desc st ! i)")
    case True
    from assms(3) obtain j where j: "find_sector flash_desc_init x = Some j"
      by (auto simp: writable_def)
    with find_sector_Some [OF j] that assms(2) have "j = i" using in_sector_unique by blast
    with True j assms(3) show ?thesis by (simp add: writable_def addr_erased_def flash_erase_once_def)
  next
    case False
    then show ?thesis
      using erase_ff [OF erase_done [OF assms(2)] assms(2) that] desc_ok_nth [OF assms(1,2)]
      by (auto simp: flash_erase_once_def Let_def sec_geom_def split: prod.split) (metis snd_conv)+
  qed
  show "writable (snd (flash_erase_once dev i st)) x"
  proof (cases "in_sector (flash_desc_init ! i) x")
    case True
    with ff assms(3) show ?thesis by (simp add: writable_def)
  next
    case False
    then have "find_sector flash_desc_init x \<noteq> Some i" using find_sector_Some by blast
    with False assms show ?thesis
      by (auto simp: writable_def erase_once_addr_erased erase_once_other)
  qed
qed

lemma write_byte_done:
  assumes "desc_ok st" "writable st a"
  shows "fst (flash_write_byte dev a b st) = 0"
    and "x \<noteq> a \<Longrightarrow> writable st x \<Longrightarrow> writable (snd (flash_write_byte dev a b st)) x"
proof -
  from assms(2) obtain i where i: "find_sector flash_desc_init a = Some i"
    by (auto simp: writable_def)
  then have i8: "i < 8" and ia: "in_sector (flash_desc_init ! i) a" using find_sector_Some by blast+
  define st1 where "st1 = snd (flash_erase_once dev i st)"
  have w: "flash_write_byte dev a b st = flash_program_verify dev a b st1"
    using i assms(1) erase_once_done [OF assms(1) i8]
    by (auto simp: flash_write_byte_def and_then_def find_sector_desc_ok st1_def split: prod.split)
  have "flash_mem st1 a = 0xFF"
    unfolding st1_def by (rule erase_once_writable(2) [OF assms(1) i8 assms(2) ia])
  then show "fst (flash_write_byte dev a b st) = 0"
    unfolding w using program_done [of a b "flash_mem st1"] program_and [of a b "flash_mem st1"]
    by (auto simp: flash_program_verify_def Let_def and_ff split: prod.split)
  show "writable (snd (flash_write_byte dev a b st)) x" if "x \<noteq> a" "writable st x"
    using erase_once_writable(1) [OF assms(1) i8 that(2)] that(1)
    by (simp add: w writable_def program_verify_other st1_def)
qed

lemma write_loop_done:
  assumes "desc_ok st" "\<forall>i < length bs. writable st (a + of_nat i)" "length bs \<le> 2 ^ 32"
  shows "fst (flash_write_loop dev a bs st) = 0"
    and "writable st x \<Longrightarrow> (\<forall>i < length bs. x \<noteq> a + of_nat i) \<Longrightarrow>
      writable (snd (flash_write_loop dev a bs st)) x"
proof -
  have "fst (flash_write_loop dev a bs st) = 0 \<and> (writable st x \<longrightarrow> (\<forall>i < length bs. x \<noteq> a + of_nat i) \<longrightarrow>
      writable (snd (flash_write_loop dev a bs st)) x)"
    using assms
  proof (induction bs arbitrary: a st)
    case (Cons b bs)
    define st1 where "st1 = snd (flash_write_byte dev a b st)"
    have wa: "writable st a" using Cons.prems(2) by force
    have ok1: "desc_ok st1" unfolding st1_def by (rule write_byte_desc_ok [OF Cons.prems(1)])
    have "writable st1 (a + 1 + of_nat i)" if "i < length bs" for i
    proof -
      have "(of_nat (Suc i) :: u32) \<noteq> of_nat 0"
        using that Cons.prems(3) by (subst of_nat_u32_inj) auto
      then have "a + 1 + of_nat i \<noteq> a" by (simp add: add.assoc)
      moreover have "writable st (a + 1 + of_nat i)"
        using that Cons.prems(2) [rule_format, of "Suc i"] by (simp add: algebra_simps)
      ultimately show ?thesis
        unfolding st1_def by (rule write_byte_done(2) [OF Cons.prems(1) wa])
    qed
    then have ih: "fst (flash_write_loop dev (a + 1) bs st1) = 0"
      "writable st1 x \<Longrightarrow> (\<forall>i < length bs. x \<noteq> a + 1 + of_nat i) \<Longrightarrow>
         writable (snd (flash_write_loop dev (a + 1) bs st1)) x"
      using Cons.IH [OF ok1, of "a + 1"] Cons.prems(3) by auto
    have r: "flash_write_loop dev a (b # bs) st = flash_write_loop dev (a + 1) bs st1"
      using write_byte_done(1) [OF Cons.prems(1) wa, of b]
      by (auto simp: and_then_def st1_def split: prod.split)
    have "writable (snd (flash_write_loop dev (a + 1) bs st1)) x"
      if "writable st x" "\<forall>i < length (b # bs). x \<noteq> a + of_nat i"
    proof (rule ih(2))
      have "x \<noteq> a" using that(2) by force
      then show "writable st1 x" unfolding st1_def by (rule write_byte_done(2) [OF Cons.prems(1) wa _ that(1)])
      show "\<forall>i < length bs. x \<noteq> a + 1 + of_nat i"
        using that(2) by (auto simp: algebra_simps dest: spec [of _ "Suc _"])
    qed
    with ih(1) r show ?case by simp
  qed simp
  then show "fst (flash_write_loop dev a bs st) = 0"
    and "writable st x \<Longrightarrow> (\<forall>i < length bs. x \<noteq> a + of_nat i) \<Longrightarrow>
      writable (snd (flash_write_loop dev a bs st)) x" by blast+
qed

lemma platform_write_done:
  assumes "desc_ok st" "\<forall>i < length src. writable st (dest + of_nat i)" "length src < 2 ^ 32"
  shows "fst (platform_flash_write dev dest src st) = 0"
    and "writable st x \<Longrightarrow> (\<forall>i < length src. x \<noteq> dest + of_nat i) \<Longrightarrow>
      writable (snd (platform_flash_write dev dest src st)) x"
  using assms write_loop_done [of "platform_flash_unlock st" src dest]
  by (auto simp: platform_flash_write_def)

end

interpretation nor: reliable_flash nor_dev
proof unfold_locales
  show "snd (fd_erase nor_dev (sec_num (flash_desc_init ! i)) m) a = m a"
    if "i < 8" "\<not> in_sector (flash_desc_init ! i) a" for i m a
  proof -
    have "\<not> (\<exists>d \<in> set flash_desc_init. sec_num d = sec_num (flash_desc_init ! i) \<and> in_sector d a)"
    proof
      assume "\<exists>d \<in> set flash_desc_init. sec_num d = sec_num (flash_desc_init ! i) \<and> in_sector d a"
      then obtain j where j: "j < 8" "sec_num (flash_desc_init ! j) = sec_num (flash_desc_init ! i)"
        "in_sector (flash_desc_init ! j) a"
        by (metis in_set_conv_nth length_flash_desc_init)
      with sec_num_unique [OF j(2,1) that(1)] that(2) show False by blast
    qed
    then show ?thesis by (auto simp: nor_dev_def nor_erase_def)
  qed
qed (auto simp: nor_dev_def nor_erase_def nor_program_def)

lemma desc_ok_flash_init: "desc_ok flash_init"
  by (simp add: desc_ok_def flash_init_def)

lemma flash_init_mem: "flash_mem flash_init a = 0xFF"
  by (simp add: flash_init_def)

section \<open>Properties\<close>

text \<open>C13: when \<open>platform_flash_write\<close> returns 0, the destination holds exactly the source bytes, its
  sectors are marked erased, and every cell that was already marked erased and is not a destination
  keeps its value: a sequence of writes into one sector does not destroy the earlier ones.\<close>

lemma platform_flash_write_stores:
  assumes "nor_flash dev" "desc_ok st" "length src < 2 ^ 32"
    and "fst (platform_flash_write dev dest src st) = 0"
  shows "mem_bytes (flash_mem (snd (platform_flash_write dev dest src st))) dest (length src) = src
    \<and> desc_ok (snd (platform_flash_write dev dest src st))
    \<and> (\<forall>i < length src. addr_erased (snd (platform_flash_write dev dest src st)) (dest + of_nat i))
    \<and> (\<forall>x. addr_erased st x \<longrightarrow> addr_erased (snd (platform_flash_write dev dest src st)) x
          \<and> ((\<forall>i < length src. x \<noteq> dest + of_nat i) \<longrightarrow>
                flash_mem (snd (platform_flash_write dev dest src st)) x = flash_mem st x))"
by (rule nor_flash.platform_write_ok [OF assms])

lemma platform_flash_write_stores_witness:
  "mem_bytes (flash_mem (snd (platform_flash_write nor_dev 0x08010000 [1, 2, 3] flash_init))) 0x08010000 3 = [1, 2, 3]"
proof -
  have "fst (platform_flash_write nor_dev 0x08010000 [1, 2, 3] flash_init) = 0"
    by code_simp
  from platform_flash_write_stores [OF nor.nor_flash_axioms desc_ok_flash_init _ this, THEN conjunct1]
  show ?thesis by (simp add: numeral_3_eq_3)
qed

text \<open>Whatever \<open>platform_flash_write\<close> returns, it changes no byte of a sector it has no
  destination in: a failed or aborted update of one region leaves the other regions alone.\<close>

lemma platform_flash_write_frame:
  assumes "nor_flash dev" "desc_ok st" "find_sector flash_desc_init x \<noteq> None"
    and "\<forall>i < length src. find_sector flash_desc_init x \<noteq> find_sector flash_desc_init (dest + of_nat i)"
  shows "flash_mem (snd (platform_flash_write dev dest src st)) x = flash_mem st x
    \<and> desc_ok (snd (platform_flash_write dev dest src st))"
  using nor_flash.platform_write_frame [OF assms] nor_flash.platform_write_desc_ok [OF assms(1,2)] by blast

lemma platform_flash_write_frame_witness:
  "flash_mem (snd (platform_flash_write nor_dev 0x08010000 [7] flash_init)) 0x08004000 = 0xFF"
proof -
  have "find_sector flash_desc_init 0x08004000 = Some 1" "find_sector flash_desc_init 0x08010000 = Some 4"
    by (simp_all add: find_sector_def flash_desc_init_def in_sector_def word_le_nat_alt word_less_nat_alt)
  then show ?thesis
    using platform_flash_write_frame [OF nor.nor_flash_axioms, of flash_init "0x08004000" "[7]" "0x08010000"]
    by (simp add: desc_ok_flash_init flash_init_mem)
qed

text \<open>On a device whose operations complete, writing cells of the flash that are blank, or whose
  sector is erased by this write, succeeds, and every other writable cell stays writable.\<close>

lemma platform_flash_write_succeeds:
  assumes "reliable_flash dev" "desc_ok st" "length src < 2 ^ 32"
    and "\<forall>i < length src. writable st (dest + of_nat i)"
  shows "fst (platform_flash_write dev dest src st) = 0
    \<and> (\<forall>x. writable st x \<and> (\<forall>i < length src. x \<noteq> dest + of_nat i) \<longrightarrow>
          writable (snd (platform_flash_write dev dest src st)) x)"
  using reliable_flash.platform_write_done [OF assms(1,2,4,3)] by blast

lemma platform_flash_write_succeeds_witness:
  "fst (platform_flash_write nor_dev 0x0807FFFF [0x12] flash_init) = 0"
proof -
  have "writable flash_init 0x0807FFFF"
    by (simp add: writable_def flash_init_def find_sector_def flash_desc_init_def in_sector_def
        word_le_nat_alt word_less_nat_alt)
  then show ?thesis
    using platform_flash_write_succeeds [OF nor.reliable_flash_axioms, of flash_init "[0x12]" "0x0807FFFF"]
    by (simp add: desc_ok_flash_init)
qed

text \<open>The range check accepts a range that starts in or at the end of the flash exactly when the
  range ends inside it.  (Starting addresses far above the flash make the sum wrap, which
  \<open>flash_check_range_wraps\<close> shows.)\<close>

lemma flash_check_range_exact:
  assumes "addr \<le> FLASH_FINISH"
  shows "\<not> flash_check_range addr sz \<longleftrightarrow>
    unat FLASH_START \<le> unat addr \<and> unat addr + unat sz \<le> unat FLASH_FINISH"
proof -
  have a: "unat addr \<le> 0x08080000" using assms by (simp add: word_le_nat_alt)
  show ?thesis
  proof (cases "sz > FLASH_LEN")
    case True
    then show ?thesis by (auto simp: flash_check_range_def word_less_nat_alt)
  next
    case False
    with a have "unat (addr + sz) = unat addr + unat sz"
      by (simp add: unat_plus_if' word_less_nat_alt)
    with False show ?thesis
      by (auto simp: flash_check_range_def word_less_nat_alt)
  qed
qed

lemma flash_check_range_exact_witness:
  "\<not> flash_check_range 0x08020000 0x60000"
  using flash_check_range_exact [of "0x08020000" "0x60000"] by (simp add: word_le_nat_alt)

lemma flash_check_range_wraps: "\<not> flash_check_range 0xFFFFFFFF 2"
  by (simp add: flash_check_range_def)

end
