(* ===== verification/Fw_Header.thy ===== *)
theory Fw_Header
  imports Crc Flash
begin

text \<open>
  Firmware headers, common/fw_header: the bounded string routines and the walks over the fields
  section (fw_header.c), the check of one image (fw_header_utils.c) and of the three of them
  (fw_headers_variables.c).  Memory is byte-addressed; a null pointer is address 0.  The signing
  tool that makes the images is in theory Sign.
\<close>

section \<open>Definitions\<close>

datatype FW_HDR_LOCK =
    LOCK_NONE
  | LOCK_BY_CRC
  | LOCK_BY_ADDR
  | LOCK_BY_SIZE_SMALL
  | LOCK_BY_ZERO_FIELDS_COUNT
  | LOCK_NO_PROD_FIELD
  | LOCK_NO_PROD_NAME_FIELD
  | LOCK_PROD_MISMATCH
  | LOCK_PROD_NAME_FAULT

record fw_header_v1 =
  fw_size :: u32
  fw_crc32 :: u32
  fields_addr_offset :: u32
  reserved2 :: u32

record fw_info =
  locked :: FW_HDR_LOCK
  fw_addr :: u32
  fw_len :: u32
  fields_count :: int
  field_product_ptr :: u32
  field_product_len :: int
  field_product_name_ptr :: u32
  field_product_name_len :: int
  ver_major :: u32
  ver_minor :: u32
  ver_patch :: u32

abbreviation NULL :: u32 where "NULL \<equiv> 0"

abbreviation HEADER_OFFSET :: u32 where "HEADER_OFFSET \<equiv> 0x190"
abbreviation HEADER_SIZE :: u32 where "HEADER_SIZE \<equiv> 0x10"

text \<open>A header read through a \<open>fw_header_v1_t\<close> pointer.\<close>

definition hdr_at :: "memory \<Rightarrow> u32 \<Rightarrow> fw_header_v1" where
  "hdr_at m a = \<lparr>fw_size = rd32 (mem_bytes m a 4), fw_crc32 = rd32 (mem_bytes m (a + 4) 4),
     fields_addr_offset = rd32 (mem_bytes m (a + 8) 4), reserved2 = rd32 (mem_bytes m (a + 12) 4)\<rparr>"

subsection \<open>fw_header.c\<close>

text \<open>The loop of \<open>str_len_safe\<close>: \<open>p\<close> is \<open>s + i\<close>.\<close>

function str_len_loop :: "memory \<Rightarrow> u32 \<Rightarrow> nat \<Rightarrow> int" where
  "str_len_loop m p i =
     (if m p = 0 then int i
      else if flash_check_range p 0 then -2
      else str_len_loop m (p + 1) (i + 1))"
  by pat_completeness auto

termination
proof (relation "measure (\<lambda>(m, p, i). 0x08080001 - unat p)")
  fix m :: memory and p :: u32 and i :: nat
  assume "\<not> flash_check_range p 0"
  then have "unat p \<le> 0x08080000"
    by (simp add: flash_check_range_def word_less_nat_alt)
  moreover from this have "unat (p + 1) = unat p + 1" by (simp add: unat_plus_if')
  ultimately show "((m, p + 1, i + 1), m, p, i) \<in> measure (\<lambda>(m, p, i). 0x08080001 - unat p)" by simp
qed simp

declare str_len_loop.simps [simp del]

definition str_len_safe :: "memory \<Rightarrow> u32 \<Rightarrow> int" where
  "str_len_safe m s = (if flash_check_range s 1 then -1 else str_len_loop m s 0)"

text \<open>The comparison loop over the first \<open>n\<close> characters.\<close>

definition str_equal_n :: "memory \<Rightarrow> u32 \<Rightarrow> bytes \<Rightarrow> nat \<Rightarrow> bool" where
  "str_equal_n m s1 s2 n = list_all (\<lambda>i. m (s1 + of_nat i) = s2 ! i) [0..<n]"

definition str_compare_equal_safe_two_arg :: "memory \<Rightarrow> u32 \<Rightarrow> u32 \<Rightarrow> bool" where
  "str_compare_equal_safe_two_arg m s1 s2 =
    (let len_s1 = str_len_safe m s1; len_s2 = str_len_safe m s2
     in if len_s1 \<le> 0 \<or> len_s2 \<le> 0 \<or> len_s1 \<noteq> len_s2 then False
        else str_equal_n m s1 (mem_bytes m s2 (nat len_s1)) (nat len_s1))"

definition str_compare_equal_safe_first_arg :: "memory \<Rightarrow> u32 \<Rightarrow> bytes \<Rightarrow> bool" where
  "str_compare_equal_safe_first_arg m s1 s2 =
    (let len_s1 = str_len_safe m s1; len_s2 = int (length s2)
     in if len_s1 \<le> 0 \<or> len_s2 \<le> 0 \<or> len_s1 \<noteq> len_s2 then False
        else str_equal_n m s1 s2 (nat len_s1))"

text \<open>
  The walks over the fields section: \<open>bs\<close> is what is left of the region, \<open>first\<close> says that \<open>i\<close> is
  0, \<open>p\<close> is the address of the next byte.
\<close>

fun get_count_loop :: "bytes \<Rightarrow> bool \<Rightarrow> nat \<Rightarrow> nat \<Rightarrow> int" where
  "get_count_loop [] first null_term_count element_count = -4"
| "get_count_loop (b # bs) first null_term_count element_count =
    (if b = 0
     then if first then -2
          else let ntc = null_term_count + 1;
                   ec = (if ntc = 1 then element_count + 1 else element_count)
               in if ntc \<ge> 2 then (if odd ec then -3 else int (ec div 2))
                  else get_count_loop bs False ntc ec
     else get_count_loop bs False 0 element_count)"

definition fw_fields_get_count :: "memory \<Rightarrow> u32 \<Rightarrow> u32 \<Rightarrow> int" where
  "fw_fields_get_count m addr_fields_start region_size =
    (if flash_check_range addr_fields_start region_size then -1
     else get_count_loop (mem_bytes m addr_fields_start (unat region_size)) True 0 0)"

fun find_by_key_loop :: "memory \<Rightarrow> bytes \<Rightarrow> u32 \<Rightarrow> bytes \<Rightarrow> bool \<Rightarrow> nat \<Rightarrow> nat \<Rightarrow> bool \<Rightarrow> u32" where
  "find_by_key_loop m key p [] first null_term_count element_count null_captured = NULL"
| "find_by_key_loop m key p (b # bs) first null_term_count element_count null_captured =
    (if b = 0
     then if first then NULL
          else let ntc = null_term_count + 1;
                   ec = (if ntc = 1 then element_count + 1 else element_count)
               in if ntc \<ge> 2 then NULL else find_by_key_loop m key (p + 1) bs False ntc ec True
     else if null_captured \<and> even element_count \<and> str_compare_equal_safe_first_arg m p key
          then p + of_int (str_len_safe m p) + 1
          else find_by_key_loop m key (p + 1) bs False 0 element_count False)"

definition fw_fields_find_by_key :: "memory \<Rightarrow> u32 \<Rightarrow> bytes \<Rightarrow> u32 \<Rightarrow> u32" where
  "fw_fields_find_by_key m addr_fields_start key region_size =
    (if flash_check_range addr_fields_start region_size then NULL
     else find_by_key_loop m key addr_fields_start (mem_bytes m addr_fields_start (unat region_size)) True 0 0 True)"

text \<open>The iterator returns its flag with the two output pointers; \<open>None\<close>: they were not assigned.\<close>

fun find_by_iterator_loop :: "memory \<Rightarrow> nat \<Rightarrow> u32 \<Rightarrow> bytes \<Rightarrow> bool \<Rightarrow> nat \<Rightarrow> nat \<Rightarrow> bool \<Rightarrow> bool \<times> (u32 \<times> u32) option" where
  "find_by_iterator_loop m iter p [] first null_term_count element_count null_captured = (False, Some (NULL, NULL))"
| "find_by_iterator_loop m iter p (b # bs) first null_term_count element_count null_captured =
    (if b = 0
     then if first then (False, Some (NULL, NULL))
          else let ntc = null_term_count + 1;
                   ec = (if ntc = 1 then element_count + 1 else element_count)
               in if ntc \<ge> 2 then (False, Some (NULL, NULL))
                  else find_by_iterator_loop m iter (p + 1) bs False ntc ec True
     else if null_captured \<and> even element_count \<and> element_count div 2 = iter
          then (True, Some (p, p + of_int (str_len_safe m p) + 1))
          else find_by_iterator_loop m iter (p + 1) bs False 0 element_count False)"

definition fw_fields_find_by_iterator :: "memory \<Rightarrow> u32 \<Rightarrow> nat \<Rightarrow> u32 \<Rightarrow> bool \<times> (u32 \<times> u32) option" where
  "fw_fields_find_by_iterator m addr_fields_start iter region_size =
    (if flash_check_range addr_fields_start region_size then (True, None)
     else find_by_iterator_loop m iter addr_fields_start
            (mem_bytes m addr_fields_start (unat region_size)) True 0 0 True)"

subsection \<open>fw\_header\_utils.c\<close>

abbreviation is_digit :: "u8 \<Rightarrow> bool" where
  "is_digit c \<equiv> 0x30 \<le> c \<and> c \<le> 0x39"

text \<open>The first loop of \<open>get_uint32_number_from_str\<close>: the digit count, or \<open>None\<close> for an early return.\<close>

function count_digits :: "memory \<Rightarrow> u32 \<Rightarrow> nat \<Rightarrow> nat option" where
  "count_digits m s i =
    (if i \<ge> 10 then Some i
     else if flash_check_range (s + of_nat i) 2 then None
     else if \<not> is_digit (m (s + of_nat i)) \<and> m (s + of_nat i) \<noteq> 0 then None
     else if m (s + of_nat i) = 0 then Some i
     else if i = 9 \<and> m (s + of_nat (i + 1)) \<noteq> 0 then None
     else count_digits m s (i + 1))"
  by pat_completeness auto

termination by (relation "measure (\<lambda>(m, s, i). 10 - i)") auto

declare count_digits.simps [simp del]

text \<open>The second loop, over the digits from the last one on; the arithmetic is modulo \<open>2 ^ 32\<close>.\<close>

fun sum_digits :: "u8 list \<Rightarrow> u32 \<Rightarrow> u32 \<Rightarrow> u32" where
  "sum_digits [] rank number = number"
| "sum_digits (c # cs) rank number =
    (let num = (ucast c - 0x30) * rank
     in if 0xFFFFFFFF - number < num then 0 else sum_digits cs (rank * 10) (number + num))"

definition get_uint32_number_from_str :: "memory \<Rightarrow> u32 \<Rightarrow> u32" where
  "get_uint32_number_from_str m s =
    (case count_digits m s 0 of None \<Rightarrow> 0 | Some n \<Rightarrow> sum_digits (rev (mem_bytes m s n)) 1 0)"

definition fields_region :: "u32 \<Rightarrow> fw_header_v1 \<Rightarrow> u32" where
  "fields_region max_size hdr =
    (if max_size < fields_addr_offset hdr then 0 else max_size - fields_addr_offset hdr)"

definition fw_calc_crc :: "(u32 \<Rightarrow> u32 \<Rightarrow> u32) \<Rightarrow> memory \<Rightarrow> u32 \<Rightarrow> u32 \<Rightarrow> u32 \<Rightarrow> u32" where
  "fw_calc_crc dr m addr header_offset sz =
    crc32_end dr (mem_bytes m ((addr + header_offset + HEADER_SIZE) AND 0xFFFFFFFC) (unat (sz - (header_offset + HEADER_SIZE))))
      (crc32_start dr (mem_bytes m (addr AND 0xFFFFFFFC) (unat header_offset)))"

text \<open>Lines 49-62 of \<open>fw_header_check_region\<close>: size, CRC and field count.\<close>

definition fw_check_image :: "(u32 \<Rightarrow> u32 \<Rightarrow> u32) \<Rightarrow> memory \<Rightarrow> u32 \<Rightarrow> u32 \<Rightarrow> fw_info \<Rightarrow> fw_info" where
  "fw_check_image dr m header_offset max_size fw0 =
    (let hdr = hdr_at m (fw_addr fw0 + header_offset);
         fw = fw0\<lparr>locked := LOCK_NONE, fw_len := fw_size hdr\<rparr>;
         fw1 = (if flash_check_range (fw_addr fw) (fw_size hdr) then fw\<lparr>locked := LOCK_BY_ADDR\<rparr> else fw);
         fw2 = (if fw_size hdr \<le> header_offset + HEADER_SIZE then fw1\<lparr>locked := LOCK_BY_SIZE_SMALL\<rparr> else fw1)
     in if locked fw2 \<noteq> LOCK_NONE then fw2
        else if fw_calc_crc dr m (fw_addr fw2) header_offset (fw_size hdr) \<noteq> fw_crc32 hdr
        then fw2\<lparr>locked := LOCK_BY_CRC\<rparr>
        else let cnt = fw_fields_get_count m (fw_addr fw2 + fields_addr_offset hdr) (fields_region max_size hdr);
                 fw3 = fw2\<lparr>fields_count := cnt\<rparr>
             in if cnt \<le> 0 then fw3\<lparr>locked := LOCK_BY_ZERO_FIELDS_COUNT\<rparr> else fw3)"

definition fw_check_fields :: "memory \<Rightarrow> u32 \<Rightarrow> u32 \<Rightarrow> fw_info \<Rightarrow> fw_info" where
  "fw_check_fields m header_offset max_size fw =
    (let hdr = hdr_at m (fw_addr fw + header_offset);
         find = (\<lambda>key. fw_fields_find_by_key m (fw_addr fw + fields_addr_offset hdr) (ascii key) (fields_region max_size hdr));
         prod = find ''prod''; name = find ''prod_name'';
         lock1 = (if prod = NULL then LOCK_NO_PROD_FIELD else locked fw);
         lock2 = (if name = NULL then LOCK_NO_PROD_NAME_FIELD else lock1)
     in fw\<lparr>locked := lock2,
           field_product_ptr := prod, field_product_len := str_len_safe m prod,
           field_product_name_ptr := name, field_product_name_len := str_len_safe m name,
           ver_major := get_uint32_number_from_str m (find ''ver_maj''),
           ver_minor := get_uint32_number_from_str m (find ''ver_min''),
           ver_patch := get_uint32_number_from_str m (find ''ver_pat'')\<rparr>)"

definition fw_header_check_region :: "(u32 \<Rightarrow> u32 \<Rightarrow> u32) \<Rightarrow> memory \<Rightarrow> u32 \<Rightarrow> u32 \<Rightarrow> fw_info \<Rightarrow> bool \<times> fw_info" where
  "fw_header_check_region dr m header_offset max_size fw0 =
    (let fw = fw_check_image dr m header_offset max_size fw0
     in if locked fw \<noteq> LOCK_NONE then (True, fw)
        else let fw' = fw_check_fields m header_offset max_size fw in (locked fw' \<noteq> LOCK_NONE, fw'))"

subsection \<open>fw\_headers\_variables.c\<close>

abbreviation PRELDR_START :: u32 where "PRELDR_START \<equiv> 0x08000000"
abbreviation LDR_START :: u32 where "LDR_START \<equiv> 0x08004000"
abbreviation APP_START :: u32 where "APP_START \<equiv> 0x08020000"

record g_fw_info =
  FW_PRELDR :: fw_info
  FW_LDR :: fw_info
  FW_APP :: fw_info

definition fw_max_size :: "u32 \<Rightarrow> u32" where
  "fw_max_size addr = FLASH_FINISH - HEADER_OFFSET - addr - 1"

definition fw_check_at :: "(u32 \<Rightarrow> u32 \<Rightarrow> u32) \<Rightarrow> memory \<Rightarrow> u32 \<Rightarrow> fw_info \<Rightarrow> fw_info" where
  "fw_check_at dr m addr fw =
    snd (fw_header_check_region dr m HEADER_OFFSET (fw_max_size addr) (fw\<lparr>fw_addr := addr\<rparr>))"

text \<open>\<open>a\<close> locks \<open>b\<close> when both are good and their products differ.\<close>

definition lock_mismatch :: "memory \<Rightarrow> fw_info \<Rightarrow> fw_info \<Rightarrow> fw_info" where
  "lock_mismatch m a b =
    (if locked a = LOCK_NONE \<and> locked b = LOCK_NONE
        \<and> \<not> str_compare_equal_safe_two_arg m (field_product_ptr a) (field_product_ptr b)
     then b\<lparr>locked := LOCK_PROD_MISMATCH\<rparr> else b)"

definition lock_name :: "memory \<Rightarrow> u32 \<Rightarrow> fw_info \<Rightarrow> fw_info" where
  "lock_name m name b =
    (if locked b = LOCK_NONE \<and> \<not> str_compare_equal_safe_two_arg m name (field_product_name_ptr b)
     then b\<lparr>locked := LOCK_PROD_NAME_FAULT\<rparr> else b)"

text \<open>\<open>ldr_name\<close> and \<open>app_name\<close>: where the running firmware keeps its two string literals.\<close>

definition fw_header_check_all :: "(u32 \<Rightarrow> u32 \<Rightarrow> u32) \<Rightarrow> memory \<Rightarrow> u32 \<Rightarrow> u32 \<Rightarrow> g_fw_info \<Rightarrow> g_fw_info" where
  "fw_header_check_all dr m ldr_name app_name g =
    (let pre = fw_check_at dr m PRELDR_START (FW_PRELDR g);
         ldr = fw_check_at dr m LDR_START (FW_LDR g);
         app = fw_check_at dr m APP_START (FW_APP g);
         ldr1 = lock_mismatch m pre ldr;
         app1 = lock_mismatch m pre app
     in \<lparr>FW_PRELDR = pre, FW_LDR = lock_name m ldr_name ldr1, FW_APP = lock_name m app_name app1\<rparr>)"

definition fw_fields_find_by_key_helper :: "memory \<Rightarrow> fw_info \<Rightarrow> bytes \<Rightarrow> u32" where
  "fw_fields_find_by_key_helper m fw key =
    (if locked fw \<noteq> LOCK_NONE then NULL
     else if fields_count fw = 0 then NULL
     else let hdr = hdr_at m (fw_addr fw + HEADER_OFFSET)
          in fw_fields_find_by_key m (fw_addr fw + fields_addr_offset hdr) key (fields_region (fw_max_size (fw_addr fw)) hdr))"

definition fw_fields_find_by_iterator_helper :: "memory \<Rightarrow> fw_info \<Rightarrow> nat \<Rightarrow> bool \<times> (u32 \<times> u32) option" where
  "fw_fields_find_by_iterator_helper m fw iter =
    (if locked fw \<noteq> LOCK_NONE then (False, None)
     else if int iter \<ge> fields_count fw then (False, None)
     else let hdr = hdr_at m (fw_addr fw + HEADER_OFFSET)
          in fw_fields_find_by_iterator m (fw_addr fw + fields_addr_offset hdr) iter (fields_region (fw_max_size (fw_addr fw)) hdr))"

section \<open>Lemmas: strings in flash\<close>

lemma append_split: "a @ b = c @ d \<Longrightarrow> length a = length c \<Longrightarrow> a = c \<and> b = d"
  by simp

definition cstr_at :: "memory \<Rightarrow> u32 \<Rightarrow> bytes \<Rightarrow> bool" where
  "cstr_at m p s \<longleftrightarrow> mem_bytes m p (length s + 1) = s @ [0] \<and> 0 \<notin> set s
     \<and> FLASH_START \<le> p \<and> unat p + length s < 0x08080000"

lemma in_flash_ok:
  assumes "FLASH_START \<le> p" "unat p + n \<le> 0x08080000" "n < 2 ^ 20"
  shows "\<not> flash_check_range p (of_nat n)"
proof -
  have n: "unat (of_nat n :: u32) = n" using assms(3) by (intro unat_of_nat_u32) simp
  have "unat (p + of_nat n) = unat p + n" using assms(2) by (intro unat_add_of_nat) simp
  moreover have "n \<le> 0x80000" using assms(1,2) by (simp add: word_le_nat_alt)
  ultimately show ?thesis
    using assms n by (simp add: flash_check_range_def word_less_nat_alt word_le_nat_alt)
qed

lemma cstr_at_Cons:
  assumes "cstr_at m p (c # s)"
  shows "m p = c" "c \<noteq> 0" "cstr_at m (p + 1) s"
proof -
  have u: "unat (p + 1) = unat p + 1"
    using assms unat_add_of_nat [of p 1] by (simp add: cstr_at_def)
  from assms show "m p = c" "c \<noteq> 0" "cstr_at m (p + 1) s"
    using u by (auto simp: cstr_at_def mem_bytes_Suc word_le_nat_alt)
qed

lemma str_len_loop_cstr: "cstr_at m p s \<Longrightarrow> str_len_loop m p i = int (i + length s)"
proof (induction s arbitrary: p i)
  case Nil
  then have "m p = 0" by (simp add: cstr_at_def mem_bytes_Suc)
  then show ?case by (simp add: str_len_loop.simps)
next
  case (Cons c s)
  have "\<not> flash_check_range p 0"
    using in_flash_ok [of p 0] Cons.prems by (simp add: cstr_at_def)
  then have "str_len_loop m p i = str_len_loop m (p + 1) (i + 1)"
    using cstr_at_Cons [OF Cons.prems] by (subst str_len_loop.simps) simp
  with Cons.IH [OF cstr_at_Cons(3) [OF Cons.prems]] show ?case by simp
qed

lemma str_len_safe_cstr: "cstr_at m p s \<Longrightarrow> str_len_safe m p = int (length s)"
  using str_len_loop_cstr [of m p s 0] in_flash_ok [of p 1]
  by (simp add: str_len_safe_def cstr_at_def)

lemma cstr_at_nth: "cstr_at m p s \<Longrightarrow> i < length s \<Longrightarrow> m (p + of_nat i) = s ! i"
proof -
  assume a: "cstr_at m p s" "i < length s"
  then have "mem_bytes m p (length s + 1) ! i = s ! i" by (simp add: cstr_at_def nth_append)
  with a(2) show ?thesis by (simp add: mem_bytes_nth)
qed

lemma str_equal_n_cstr:
  assumes "cstr_at m p s" "length s2 = length s"
  shows "str_equal_n m p s2 (length s) \<longleftrightarrow> s = s2"
  using assms cstr_at_nth [OF assms(1)]
  by (auto simp: str_equal_n_def list_all_iff intro: nth_equalityI)

lemma str_compare_first_cstr:
  "cstr_at m p s \<Longrightarrow> str_compare_equal_safe_first_arg m p key \<longleftrightarrow> s = key \<and> key \<noteq> []"
  using str_equal_n_cstr [of m p s key]
  by (auto simp: str_compare_equal_safe_first_arg_def str_len_safe_cstr Let_def)

lemma str_compare_two_cstr:
  assumes "cstr_at m p s" "cstr_at m q t"
  shows "str_compare_equal_safe_two_arg m p q \<longleftrightarrow> s = t \<and> t \<noteq> []"
proof -
  have "mem_bytes m q (length t) = t"
    using assms(2) mem_bytes_take [of "length t" "length t + 1" m q] by (simp add: cstr_at_def)
  then show ?thesis
    using str_equal_n_cstr [OF assms(1), of t]
    by (auto simp: str_compare_equal_safe_two_arg_def str_len_safe_cstr [OF assms(1)] str_len_safe_cstr [OF assms(2)] Let_def)
qed

section \<open>Lemmas: the fields section\<close>

definition field_enc :: "bytes \<times> bytes \<Rightarrow> bytes" where
  "field_enc kv = fst kv @ 0 # snd kv @ [0]"

definition fields_enc :: "(bytes \<times> bytes) list \<Rightarrow> bytes" where
  "fields_enc kvs = concat (map field_enc kvs)"

definition field_ok :: "bytes \<times> bytes \<Rightarrow> bool" where
  "field_ok kv \<longleftrightarrow> fst kv \<noteq> [] \<and> snd kv \<noteq> [] \<and> 0 \<notin> set (fst kv) \<and> 0 \<notin> set (snd kv)"

lemma get_count_string:
  "0 \<notin> set w \<Longrightarrow> w \<noteq> [] \<Longrightarrow> get_count_loop (w @ r) f n ec = get_count_loop r False 0 ec"
proof (induction w arbitrary: f n)
  case (Cons b w)
  then show ?case by (cases w) auto
qed simp

lemma get_count_field:
  assumes "field_ok kv"
  shows "get_count_loop (field_enc kv @ r) f n ec = get_count_loop r False 1 (ec + 2)"
  using assms get_count_string [of "fst kv" "0 # snd kv @ 0 # r" f n ec]
    get_count_string [of "snd kv" "0 # r" False 1 "ec + 1"]
  by (simp add: field_enc_def field_ok_def)

lemma get_count_fields_tail:
  "list_all field_ok kvs \<Longrightarrow> even ec \<Longrightarrow>
   get_count_loop (fields_enc kvs @ 0 # r) False 1 ec = int (ec div 2 + length kvs)"
proof (induction kvs arbitrary: ec)
  case (Cons kv kvs)
  then have "field_ok kv" by simp
  with get_count_field [OF this, of "fields_enc kvs @ 0 # r" False 1 ec] Cons show ?case
    by (simp add: fields_enc_def)
qed (simp add: fields_enc_def)

lemma get_count_fields:
  assumes "list_all field_ok kvs" "kvs \<noteq> []"
  shows "get_count_loop (fields_enc kvs @ 0 # r) True 0 0 = int (length kvs)"
proof -
  obtain kv kvs' where k: "kvs = kv # kvs'" using assms(2) by (cases kvs) auto
  with assms(1) have "field_ok kv" "list_all field_ok kvs'" by simp_all
  with get_count_field [OF this(1), of "fields_enc kvs' @ 0 # r" True 0 0] get_count_fields_tail [of kvs' 2 r]
  show ?thesis by (simp add: k fields_enc_def numeral_2_eq_2)
qed

lemma find_key_skip:
  "0 \<notin> set w \<Longrightarrow> find_by_key_loop m key p (w @ r) f n ec False =
     (if w = [] then find_by_key_loop m key p r f n ec False
      else find_by_key_loop m key (p + of_nat (length w)) r False 0 ec False)"
proof (induction w arbitrary: p f n)
  case (Cons b w)
  then show ?case by (cases "w = []") (auto simp: algebra_simps)
qed simp

text \<open>A string that is not looked at, or that is not the key.\<close>

lemma find_key_string:
  assumes "0 \<notin> set w" "w \<noteq> []" "odd ec \<or> \<not> str_compare_equal_safe_first_arg m p key"
  shows "find_by_key_loop m key p (w @ 0 # r) f n ec True =
    find_by_key_loop m key (p + of_nat (length w) + 1) r False 1 (ec + 1) True"
proof -
  obtain b w' where w: "w = b # w'" using assms(2) by (cases w) auto
  with assms find_key_skip [of w' m key "p + 1" "0 # r" False 0 ec] show ?thesis
    by (cases "w' = []") (auto simp: algebra_simps)
qed

lemma field_strings:
  assumes "mem_bytes m p (length (field_enc kv)) = field_enc kv" "field_ok kv"
    "FLASH_START \<le> p" "unat p + length (field_enc kv) \<le> 0x08080000"
  shows "cstr_at m p (fst kv)" "cstr_at m (p + of_nat (length (fst kv)) + 1) (snd kv)"
proof -
  let ?k = "length (fst kv) + 1" and ?v = "length (snd kv) + 1"
  have len: "length (field_enc kv) = ?k + ?v" by (simp add: field_enc_def)
  have "mem_bytes m p ?k @ mem_bytes m (p + of_nat ?k) ?v = (fst kv @ [0]) @ (snd kv @ [0])"
    using assms(1) unfolding len mem_bytes_add by (simp add: field_enc_def)
  from append_split [OF this] have s: "mem_bytes m p ?k = fst kv @ [0]" "mem_bytes m (p + of_nat ?k) ?v = snd kv @ [0]"
    by simp_all
  have u: "unat (p + of_nat ?k) = unat p + ?k" using assms(4) len by (intro unat_add_of_nat) simp
  show "cstr_at m p (fst kv)" using s(1) assms(2-4) len by (simp add: cstr_at_def field_ok_def)
  have "FLASH_START \<le> p + of_nat ?k" using assms(3) u by (simp add: word_le_nat_alt)
  then have "cstr_at m (p + of_nat ?k) (snd kv)"
    using s(2) u assms(2,4) len unfolding cstr_at_def field_ok_def by simp
  then show "cstr_at m (p + of_nat (length (fst kv)) + 1) (snd kv)" by (simp add: algebra_simps)
qed

lemma find_key_fields:
  assumes "list_all field_ok kvs" "mem_bytes m p (length (fields_enc kvs)) = fields_enc kvs"
    "FLASH_START \<le> p" "unat p + length (fields_enc kvs) \<le> 0x08080000" "even ec" "n = 1 \<or> kvs \<noteq> []" "f \<Longrightarrow> kvs \<noteq> []"
    "key \<noteq> []"
  shows "case map_of kvs key of
      None \<Rightarrow> find_by_key_loop m key p (fields_enc kvs @ 0 # r) f n ec True = NULL
    | Some v \<Rightarrow> cstr_at m (find_by_key_loop m key p (fields_enc kvs @ 0 # r) f n ec True) v"
  using assms
proof (induction kvs arbitrary: p f n ec)
  case Nil
  then show ?case by (simp add: fields_enc_def)
next
  case (Cons kv kvs)
  let ?fe = "field_enc kv" and ?rest = "fields_enc kvs @ 0 # r"
  have len: "length (fields_enc (kv # kvs)) = length ?fe + length (fields_enc kvs)"
    and enc: "fields_enc (kv # kvs) @ 0 # r = fst kv @ 0 # (snd kv @ 0 # ?rest)"
    by (simp_all add: fields_enc_def field_enc_def)
  have ok: "field_ok kv" using Cons.prems(1) by simp
  have m: "mem_bytes m p (length ?fe) = ?fe" "mem_bytes m (p + of_nat (length ?fe)) (length (fields_enc kvs)) = fields_enc kvs"
  proof -
    have "mem_bytes m p (length ?fe) @ mem_bytes m (p + of_nat (length ?fe)) (length (fields_enc kvs)) = ?fe @ fields_enc kvs"
      using Cons.prems(2) unfolding len mem_bytes_add by (simp add: fields_enc_def)
    from append_split [OF this] show "mem_bytes m p (length ?fe) = ?fe"
      "mem_bytes m (p + of_nat (length ?fe)) (length (fields_enc kvs)) = fields_enc kvs" by simp_all
  qed
  note s = field_strings [OF m(1) ok Cons.prems(3)]
  have kok: "fst kv \<noteq> []" "snd kv \<noteq> []" "0 \<notin> set (fst kv)" "0 \<notin> set (snd kv)" using ok by (simp_all add: field_ok_def)
  have bnd: "unat p + length ?fe \<le> 0x08080000" using Cons.prems(4) len by simp
  note cs = s(1) [OF bnd] s(2) [OF bnd]
  show ?case
  proof (cases "fst kv = key")
    case True
    have "str_compare_equal_safe_first_arg m p key" using str_compare_first_cstr [OF cs(1)] True Cons.prems(8) by simp
    then have "find_by_key_loop m key p (fields_enc (kv # kvs) @ 0 # r) f n ec True = p + of_int (int (length (fst kv))) + 1"
      using kok Cons.prems(5) str_len_safe_cstr [OF cs(1)] by (cases "fst kv") (auto simp: enc)
    with cs(2) True show ?thesis by (simp add: of_int_of_nat_eq)
  next
    case False
    have "\<not> str_compare_equal_safe_first_arg m p key" using str_compare_first_cstr [OF cs(1)] False by simp
    then have "find_by_key_loop m key p (fields_enc (kv # kvs) @ 0 # r) f n ec True =
        find_by_key_loop m key (p + of_nat (length ?fe)) ?rest False 1 (ec + 2) True"
      using find_key_string [OF kok(3,1), of ec m p key "snd kv @ 0 # ?rest" f n]
        find_key_string [OF kok(4,2), of "ec + 1" m "p + of_nat (length (fst kv)) + 1" key ?rest False 1] Cons.prems(5)
      by (simp add: enc field_enc_def algebra_simps)
    moreover have "unat (p + of_nat (length ?fe)) = unat p + length ?fe"
      using bnd by (intro unat_add_of_nat) simp
    ultimately show ?thesis
      using Cons.IH [OF _ m(2), of "ec + 2" 1 False] Cons.prems(1,3-5,8) len False
      by (simp add: word_le_nat_alt split: option.splits)
  qed
qed

section \<open>Lemmas: decimal numbers\<close>

definition digit_val :: "u8 \<Rightarrow> nat" where
  "digit_val c = unat c - 0x30"

text \<open>The value of a digit string, least significant digit first.\<close>

fun digits_val :: "u8 list \<Rightarrow> nat" where
  "digits_val [] = 0"
| "digits_val (c # cs) = digit_val c + 10 * digits_val cs"

lemma digit_bounds: "is_digit c \<Longrightarrow> digit_val c \<le> 9"
  unfolding digit_val_def word_le_nat_alt by simp arith

lemma digit_word: "is_digit c \<Longrightarrow> (ucast c - 0x30 :: u32) = of_nat (digit_val c)"
proof -
  assume "is_digit c"
  then have le: "0x30 \<le> unat c" by (simp add: word_le_nat_alt)
  have "(ucast c :: u32) = of_nat (unat c)" by (metis of_nat_unat)
  with le show ?thesis by (simp add: digit_val_def of_nat_diff)
qed

lemma digit_power_bound:
  assumes "d \<le> 9" "k \<le> 9" "d * 10 ^ k < (5000000000 :: nat)"
  shows "d * 10 ^ k < 2 ^ 32"
proof (cases "k = 9")
  case True
  with assms(3) have "d \<le> 4" by simp
  with True show ?thesis by simp
next
  case False
  with assms(2) have "k \<le> 8" by simp
  then have "(10 :: nat) ^ k \<le> 10 ^ 8" by (intro power_increasing) simp_all
  with assms(1) have "d * 10 ^ k \<le> 9 * 10 ^ 8" by (rule mult_le_mono)
  then show ?thesis by simp
qed

lemma sum_digits_val:
  assumes "list_all is_digit cs" "k + length cs \<le> 10" "N < 10 ^ k" "N < 2 ^ 32"
    "N + 10 ^ k * digits_val cs < 5000000000"
  shows "sum_digits cs (of_nat (10 ^ k)) (of_nat N) =
    (if N + 10 ^ k * digits_val cs < 2 ^ 32 then of_nat (N + 10 ^ k * digits_val cs) else 0)"
  using assms
proof (induction cs arbitrary: k N)
  case (Cons c cs)
  let ?d = "digit_val c" and ?V = "N + 10 ^ k * digits_val (c # cs)"
  have c: "is_digit c" "list_all is_digit cs" using Cons.prems(1) by simp_all
  have d9: "?d \<le> 9" by (rule digit_bounds [OF c(1)])
  have V: "?V = N + ?d * 10 ^ k + 10 ^ (k + 1) * digits_val cs" by (simp add: algebra_simps)
  have "?d * 10 ^ k < 5000000000" using Cons.prems(5) unfolding V by linarith
  then have p: "?d * 10 ^ k < 2 ^ 32" using d9 Cons.prems(2) by (intro digit_power_bound) simp_all
  have num: "(ucast c - 0x30 :: u32) * of_nat (10 ^ k) = of_nat (?d * 10 ^ k)"
    by (simp add: digit_word [OF c(1)])
  have un: "unat (of_nat N :: u32) = N" "unat (of_nat (?d * 10 ^ k) :: u32) = ?d * 10 ^ k"
    using Cons.prems(4) p by (intro unat_of_nat_u32; simp)+
  have "unat (0xFFFFFFFF - of_nat N :: u32) = 0xFFFFFFFF - N"
    using un(1) Cons.prems(4) by (simp add: unat_sub word_le_nat_alt)
  then have ov: "(0xFFFFFFFF - of_nat N :: u32) < of_nat (?d * 10 ^ k) \<longleftrightarrow> 2 ^ 32 \<le> N + ?d * 10 ^ k"
    unfolding word_less_nat_alt un(2) using Cons.prems(4) by auto
  show ?case
  proof (cases "2 ^ 32 \<le> N + ?d * 10 ^ k")
    case True
    then have "sum_digits (c # cs) (of_nat (10 ^ k)) (of_nat N) = 0"
      by (simp only: sum_digits.simps Let_def num ov if_True)
    moreover have "\<not> ?V < 2 ^ 32" using True unfolding V by linarith
    ultimately show ?thesis by (simp only: if_False)
  next
    case False
    have N': "N + ?d * 10 ^ k < 10 ^ (k + 1)"
    proof -
      have "?d * 10 ^ k \<le> 9 * 10 ^ k" using d9 by simp
      from add_less_le_mono [OF Cons.prems(3) this] show ?thesis by simp
    qed
    have r: "of_nat (10 ^ k) * 10 = (of_nat (10 ^ (k + 1)) :: u32)" by simp
    have a: "of_nat N + of_nat (?d * 10 ^ k) = (of_nat (N + ?d * 10 ^ k) :: u32)" by simp
    have "sum_digits (c # cs) (of_nat (10 ^ k)) (of_nat N) =
        sum_digits cs (of_nat (10 ^ (k + 1))) (of_nat (N + ?d * 10 ^ k))"
      by (simp only: sum_digits.simps Let_def num ov False if_False r a)
    also have "... = (if N + ?d * 10 ^ k + 10 ^ (k + 1) * digits_val cs < 2 ^ 32
        then of_nat (N + ?d * 10 ^ k + 10 ^ (k + 1) * digits_val cs) else 0)"
      using Cons.prems(2,5) False unfolding V by (intro Cons.IH c(2) N') simp_all
    finally show ?thesis unfolding V .
  qed
qed simp

lemma cstr_at_end: "cstr_at m p s \<Longrightarrow> m (p + of_nat (length s)) = 0"
proof -
  assume a: "cstr_at m p s"
  have "mem_bytes m p (length s + 1) ! length s = m (p + of_nat (length s))" by (rule mem_bytes_nth) simp
  moreover have "mem_bytes m p (length s + 1) = s @ [0]" using a by (simp add: cstr_at_def)
  ultimately show ?thesis by simp
qed

lemma count_digits_cstr:
  assumes "cstr_at m s ds" "list_all is_digit ds" "length ds \<le> 10" "i \<le> length ds"
    and fits: "unat s + length ds + 2 \<le> 0x08080000"
  shows "count_digits m s i = Some (length ds)"
  using assms(4)
proof (induction "length ds - i" arbitrary: i)
  case 0
  then have i: "i = length ds" by simp
  have "\<not> flash_check_range (s + of_nat i) 2" if "i < 10"
  proof -
    have u: "unat (s + of_nat i) = unat s + i" using fits i by (intro unat_add_of_nat) simp
    have "FLASH_START \<le> s + of_nat i" using assms(1) u by (simp add: cstr_at_def word_le_nat_alt)
    then show ?thesis using in_flash_ok [of "s + of_nat i" 2] u fits i by simp
  qed
  then show ?case
    using cstr_at_end [OF assms(1)] i assms(3) by (subst count_digits.simps) auto
next
  case (Suc k)
  then have i: "i < length ds" by simp
  have ch: "m (s + of_nat i) = ds ! i" by (rule cstr_at_nth [OF assms(1) i])
  have dg: "is_digit (ds ! i)" using assms(2) i by (simp add: list_all_length)
  have nz: "ds ! i \<noteq> 0" using dg by auto
  have u: "unat (s + of_nat i) = unat s + i" using fits i by (intro unat_add_of_nat) simp
  have "FLASH_START \<le> s + of_nat i" using assms(1) u by (simp add: cstr_at_def word_le_nat_alt)
  then have rng: "\<not> flash_check_range (s + of_nat i) 2"
    using in_flash_ok [of "s + of_nat i" 2] u fits i by simp
  have nine: "m (s + of_nat (i + 1)) = 0" if "i = 9"
  proof -
    have "i + 1 = length ds" using that i assms(3) by simp
    with cstr_at_end [OF assms(1)] show ?thesis by metis
  qed
  have "count_digits m s i = count_digits m s (i + 1)"
    using i assms(3) rng ch dg nz nine by (subst count_digits.simps) auto
  with Suc.hyps(1) [of "i + 1"] Suc.hyps(2) i show ?case by simp
qed


lemma get_uint32_cstr:
  assumes "cstr_at m s ds" "list_all is_digit ds" "length ds \<le> 10" "unat s + length ds + 2 \<le> 0x08080000"
    "digits_val (rev ds) < 5000000000"
  shows "get_uint32_number_from_str m s =
    (if digits_val (rev ds) < 2 ^ 32 then of_nat (digits_val (rev ds)) else 0)"
proof -
  have "mem_bytes m s (length ds) = ds"
    using assms(1) mem_bytes_take [of "length ds" "length ds + 1" m s] by (simp add: cstr_at_def)
  then have "get_uint32_number_from_str m s = sum_digits (rev ds) (of_nat (10 ^ 0)) (of_nat 0)"
    using count_digits_cstr [OF assms(1-3), of 0] assms(4) by (simp add: get_uint32_number_from_str_def)
  also have "... = (if 0 + 10 ^ 0 * digits_val (rev ds) < 2 ^ 32 then of_nat (0 + 10 ^ 0 * digits_val (rev ds)) else 0)"
    by (rule sum_digits_val) (use assms(2,3,5) in simp_all)
  finally show ?thesis by simp
qed

section \<open>Lemmas: what unlocking means\<close>

lemma check_image_sound:
  assumes "locked (fw_check_image dr m ho mx fw) = LOCK_NONE"
  defines "hdr \<equiv> hdr_at m (fw_addr fw + ho)"
  shows "\<not> flash_check_range (fw_addr fw) (fw_size hdr) \<and> ho + HEADER_SIZE < fw_size hdr
    \<and> fw_calc_crc dr m (fw_addr fw) ho (fw_size hdr) = fw_crc32 hdr
    \<and> 0 < fw_fields_get_count m (fw_addr fw + fields_addr_offset hdr) (fields_region mx hdr)"
  using assms by (auto simp: fw_check_image_def Let_def split: if_splits)

lemma check_image_addr [simp]: "fw_addr (fw_check_image dr m ho mx fw) = fw_addr fw"
  by (simp add: fw_check_image_def Let_def)

lemma check_region_sound:
  assumes "locked (snd (fw_header_check_region dr m ho mx fw)) = LOCK_NONE"
  shows "locked (fw_check_image dr m ho mx fw) = LOCK_NONE
    \<and> field_product_ptr (snd (fw_header_check_region dr m ho mx fw)) \<noteq> NULL
    \<and> field_product_name_ptr (snd (fw_header_check_region dr m ho mx fw)) \<noteq> NULL"
  using assms by (auto simp: fw_header_check_region_def fw_check_fields_def Let_def split: if_splits)

lemma check_region_flag: "fst (fw_header_check_region dr m ho mx fw) \<longleftrightarrow> locked (snd (fw_header_check_region dr m ho mx fw)) \<noteq> LOCK_NONE"
  by (auto simp: fw_header_check_region_def Let_def)

text \<open>The image of one slot is good: what the boot decision relies on.\<close>

definition image_good :: "(u32 \<Rightarrow> u32 \<Rightarrow> u32) \<Rightarrow> memory \<Rightarrow> u32 \<Rightarrow> bool" where
  "image_good dr m addr \<longleftrightarrow> (let hdr = hdr_at m (addr + HEADER_OFFSET)
     in \<not> flash_check_range addr (fw_size hdr) \<and> HEADER_OFFSET + HEADER_SIZE < fw_size hdr
        \<and> fw_calc_crc dr m addr HEADER_OFFSET (fw_size hdr) = fw_crc32 hdr
        \<and> 0 < fw_fields_get_count m (addr + fields_addr_offset hdr) (fields_region (fw_max_size addr) hdr))"

lemma check_at_good: "locked (fw_check_at dr m addr fw) = LOCK_NONE \<Longrightarrow> image_good dr m addr"
  using check_region_sound [of dr m HEADER_OFFSET "fw_max_size addr" "fw\<lparr>fw_addr := addr\<rparr>"]
    check_image_sound [of dr m HEADER_OFFSET "fw_max_size addr" "fw\<lparr>fw_addr := addr\<rparr>"]
  by (simp add: fw_check_at_def image_good_def Let_def)

lemma lock_mismatch_cases:
  "locked (lock_mismatch m a b) = LOCK_NONE \<Longrightarrow>
   lock_mismatch m a b = b \<and> locked b = LOCK_NONE
   \<and> (locked a = LOCK_NONE \<longrightarrow> str_compare_equal_safe_two_arg m (field_product_ptr a) (field_product_ptr b))"
  by (auto simp: lock_mismatch_def split: if_splits)

lemma lock_name_cases:
  "locked (lock_name m name b) = LOCK_NONE \<Longrightarrow>
   lock_name m name b = b \<and> locked b = LOCK_NONE \<and> str_compare_equal_safe_two_arg m name (field_product_name_ptr b)"
  by (auto simp: lock_name_def split: if_splits)

lemma check_all_app:
  assumes "locked (FW_APP (fw_header_check_all dr m ln an g)) = LOCK_NONE"
  shows "image_good dr m APP_START"
    and "str_compare_equal_safe_two_arg m an (field_product_name_ptr (FW_APP (fw_header_check_all dr m ln an g)))"
    and "locked (FW_PRELDR (fw_header_check_all dr m ln an g)) = LOCK_NONE \<Longrightarrow>
      str_compare_equal_safe_two_arg m (field_product_ptr (FW_PRELDR (fw_header_check_all dr m ln an g)))
        (field_product_ptr (FW_APP (fw_header_check_all dr m ln an g)))"
proof -
  let ?pre = "fw_check_at dr m PRELDR_START (FW_PRELDR g)" and ?b = "fw_check_at dr m APP_START (FW_APP g)"
  have l: "locked (lock_name m an (lock_mismatch m ?pre ?b)) = LOCK_NONE"
    using assms by (simp add: fw_header_check_all_def Let_def)
  note n = lock_name_cases [OF l]
  have l2: "locked (lock_mismatch m ?pre ?b) = LOCK_NONE" using n by blast
  note k = lock_mismatch_cases [OF l2]
  have nb: "lock_name m an (lock_mismatch m ?pre ?b) = ?b" using n k by metis
  have eq: "FW_APP (fw_header_check_all dr m ln an g) = ?b" "FW_PRELDR (fw_header_check_all dr m ln an g) = ?pre"
    unfolding fw_header_check_all_def Let_def g_fw_info.simps by (rule nb) (rule refl)
  show "image_good dr m APP_START" using k by (intro check_at_good) blast
  show "str_compare_equal_safe_two_arg m an (field_product_name_ptr (FW_APP (fw_header_check_all dr m ln an g)))"
    unfolding eq using n k by metis
  show "str_compare_equal_safe_two_arg m (field_product_ptr (FW_PRELDR (fw_header_check_all dr m ln an g)))
        (field_product_ptr (FW_APP (fw_header_check_all dr m ln an g)))"
    if "locked (FW_PRELDR (fw_header_check_all dr m ln an g)) = LOCK_NONE"
    using that k unfolding eq by blast
qed

lemma check_all_ldr:
  assumes "locked (FW_LDR (fw_header_check_all dr m ln an g)) = LOCK_NONE"
  shows "image_good dr m LDR_START"
    and "str_compare_equal_safe_two_arg m ln (field_product_name_ptr (FW_LDR (fw_header_check_all dr m ln an g)))"
proof -
  let ?pre = "fw_check_at dr m PRELDR_START (FW_PRELDR g)" and ?b = "fw_check_at dr m LDR_START (FW_LDR g)"
  have l: "locked (lock_name m ln (lock_mismatch m ?pre ?b)) = LOCK_NONE"
    using assms by (simp add: fw_header_check_all_def Let_def)
  note n = lock_name_cases [OF l]
  have l2: "locked (lock_mismatch m ?pre ?b) = LOCK_NONE" using n by blast
  note k = lock_mismatch_cases [OF l2]
  have nb: "lock_name m ln (lock_mismatch m ?pre ?b) = ?b" using n k by metis
  have eq: "FW_LDR (fw_header_check_all dr m ln an g) = ?b" "FW_PRELDR (fw_header_check_all dr m ln an g) = ?pre"
    unfolding fw_header_check_all_def Let_def g_fw_info.simps by (rule nb) (rule refl)
  show "image_good dr m LDR_START" using k by (intro check_at_good) blast
  show "str_compare_equal_safe_two_arg m ln (field_product_name_ptr (FW_LDR (fw_header_check_all dr m ln an g)))"
    unfolding eq using n k by metis
qed

section \<open>Properties\<close>

text \<open>A version field of at most ten decimal digits below 5000000000 is parsed to its value, or to 0
  when it does not fit 32 bits.  (Above, the product of the tenth digit wraps unnoticed:
  \<open>sum_digits_wraps\<close>.)\<close>

lemma get_uint32_parses:
  assumes "cstr_at m s ds" "list_all is_digit ds" "length ds \<le> 10" "unat s + length ds + 2 \<le> 0x08080000"
    and "digits_val (rev ds) < 5000000000"
  shows "get_uint32_number_from_str m s =
    (if digits_val (rev ds) < 2 ^ 32 then of_nat (digits_val (rev ds)) else 0)"
  by (rule get_uint32_cstr [OF assms])

lemma sum_digits_wraps: "sum_digits (rev (ascii ''5000000000'')) 1 0 = 705032704"
  by (simp add: ascii_def Let_def)

lemma ex_number: "cstr_at (mem_write (\<lambda>_. 0xFF) 0x08030000 (ascii ''1203'' @ [0])) 0x08030000 (ascii ''1203'')"
  using mem_bytes_mem_write [of "ascii ''1203'' @ [0]" "\<lambda>_. 0xFF" "0x08030000"]
  by (simp add: cstr_at_def ascii_def)

lemma get_uint32_parses_witness:
  "get_uint32_number_from_str (mem_write (\<lambda>_. 0xFF) 0x08030000 (ascii ''1203'' @ [0])) 0x08030000 = 1203"
  using get_uint32_parses [OF ex_number] by (simp add: ascii_def digit_val_def)

end
