(* ===== verification/Sign.thy ===== *)
theory Sign
  imports Fw_Header
begin

text \<open>
  The signing tool sign/sign.c: it appends the fields given on the command line to a firmware
  image, fills in the header and the CRC.  \<open>sign_image\<close> is \<open>main\<close> from the content read from the
  input file to the content written to the output file; opening, reading and writing the files and
  the messages are left out, each error exit is its return code.  The lemmas show that the loader's
  check (theory Fw_Header) accepts what the tool makes.
\<close>

section \<open>Definitions\<close>

definition FIELDS_OFFSET :: nat where
  "FIELDS_OFFSET = 0x190"

definition pattern :: bytes where
  "pattern = le32 0xAAAAAAAA @ le32 0xBBBBBBBB @ le32 0xCCCCCCCC @ le32 0xDDDDDDDD"

text \<open>\<open>for(i = 0; i < 1 || (content_length % 4); i++)\<close>: at least one zero, then up to a multiple of 4.\<close>

function pad_loop :: "nat \<Rightarrow> bytes \<Rightarrow> bytes" where
  "pad_loop i content =
     (if i < 1 \<or> length content mod 4 \<noteq> 0 then pad_loop (i + 1) (content @ [0]) else content)"
  by pat_completeness auto

termination
proof (relation "measure (\<lambda>(i, content). (if i < 1 then 5 else 0) + (4 - length content mod 4) mod 4)")
  fix i :: nat and content :: bytes
  assume a: "i < 1 \<or> length content mod 4 \<noteq> 0"
  have m: "length content mod 4 < 4" by simp
  show "((i + 1, content @ [0]), i, content)
    \<in> measure (\<lambda>(i, content). (if i < 1 then 5 else 0) + (4 - length content mod 4) mod 4)"
  proof (cases "i < 1")
    case True
    have "(4 - length (content @ [0]) mod 4) mod 4 < 4" by simp
    with True show ?thesis by (simp del: length_append)
  next
    case False
    with a have "length content mod 4 \<noteq> 0" by simp
    then have "(4 - Suc (length content) mod 4) mod 4 < (4 - length content mod 4) mod 4"
      using m by (auto simp: mod_Suc)
    with False show ?thesis by simp
  qed
qed simp

declare pad_loop.simps [simp del]

text \<open>One command-line field: error 3 unless it is \<open>key=value\<close> with both parts non-empty.\<close>

definition delim_pos :: "bytes \<Rightarrow> nat option" where
  "delim_pos arg = (if 0x3D \<in> set arg then Some (length (takeWhile (\<lambda>b. b \<noteq> 0x3D) arg)) else None)"

definition add_field :: "bytes \<Rightarrow> bytes \<Rightarrow> nat + bytes" where
  "add_field arg content =
    (case delim_pos arg of
       None \<Rightarrow> Inl 3
     | Some d \<Rightarrow> if d = 0 \<or> length arg \<le> d + 1 then Inl 3
                 else Inr (content @ (arg @ [0])[d := 0]))"

fun add_fields :: "bytes list \<Rightarrow> bytes \<Rightarrow> nat + bytes" where
  "add_fields [] content = Inr content"
| "add_fields (arg # args) content =
     (case add_field arg content of Inl e \<Rightarrow> Inl e | Inr content' \<Rightarrow> add_fields args content')"

text \<open>Writing the header fields into the content; \<open>reserved2\<close> keeps the pattern.\<close>

definition put32 :: "bytes \<Rightarrow> nat \<Rightarrow> u32 \<Rightarrow> bytes" where
  "put32 content off w = take off content @ le32 w @ drop (off + 4) content"

definition sign_crc :: "bytes \<Rightarrow> u32" where
  "sign_crc content = crc32_eth_end (drop (FIELDS_OFFSET + 16) content) (crc32_eth_start (take FIELDS_OFFSET content))"

definition sign_header :: "nat \<Rightarrow> bytes \<Rightarrow> bytes" where
  "sign_header fields_off content =
    (let c1 = put32 content FIELDS_OFFSET (of_nat (length content));
         c2 = put32 c1 (FIELDS_OFFSET + 8) (of_nat fields_off)
     in put32 c2 (FIELDS_OFFSET + 4) (sign_crc c2))"

definition sign_image :: "bytes \<Rightarrow> int \<Rightarrow> bytes list \<Rightarrow> nat + bytes" where
  "sign_image input length_limit args =
    (let c0 = pad_loop 0 input
     in if length c0 < FIELDS_OFFSET + 4 then Inl 7
        else case add_fields args c0 of
               Inl e \<Rightarrow> Inl e
             | Inr c1 \<Rightarrow>
                 (let c2 = pad_loop 0 c1
                  in if take 16 (drop FIELDS_OFFSET c2) \<noteq> pattern then Inl 7
                     else if length_limit < int (length c2) then Inl 8
                     else Inr (sign_header (length c0) c2)))"

section \<open>Lemmas\<close>

definition split_arg :: "bytes \<Rightarrow> bytes \<times> bytes" where
  "split_arg arg = (takeWhile (\<lambda>b. b \<noteq> 0x3D) arg, tl (dropWhile (\<lambda>b. b \<noteq> 0x3D) arg))"

lemma add_field_split:
  assumes "add_field arg c = Inr c'" "0 \<notin> set arg"
  shows "c' = c @ field_enc (split_arg arg) \<and> field_ok (split_arg arg)"
proof -
  obtain k v where kv: "split_arg arg = (k, v)" by (cases "split_arg arg")
  have eq: "0x3D \<in> set arg" using assms(1) by (auto simp: add_field_def delim_pos_def split: if_splits)
  then have "dropWhile (\<lambda>b. b \<noteq> 0x3D) arg \<noteq> []" by (auto simp: dropWhile_eq_Nil_conv)
  then have "dropWhile (\<lambda>b. b \<noteq> 0x3D) arg = 0x3D # v"
    using kv hd_dropWhile [of "\<lambda>b. b \<noteq> 0x3D" arg] by (cases "dropWhile (\<lambda>b. b \<noteq> 0x3D) arg") (auto simp: split_arg_def)
  moreover have k: "takeWhile (\<lambda>b. b \<noteq> 0x3D) arg = k" using kv by (simp add: split_arg_def)
  ultimately have arg: "arg = k @ 0x3D # v" by (metis takeWhile_dropWhile_id)
  have "c' = c @ (arg @ [0])[length k := 0]" "k \<noteq> []" "v \<noteq> []"
    using assms(1) eq k arg by (auto simp: add_field_def delim_pos_def split: if_splits)
  moreover have "(arg @ [0])[length k := 0] = k @ 0 # v @ [0]" by (simp add: arg)
  moreover have "0 \<notin> set k" "0 \<notin> set v" using assms(2) unfolding arg by simp_all
  ultimately show ?thesis unfolding kv by (simp add: field_enc_def field_ok_def)
qed

lemma add_fields_split:
  "add_fields args c = Inr c' \<Longrightarrow> \<forall>arg \<in> set args. 0 \<notin> set arg \<Longrightarrow>
   c' = c @ fields_enc (map split_arg args) \<and> list_all field_ok (map split_arg args)"
proof (induction args arbitrary: c)
  case (Cons arg args)
  then obtain c1 where c1: "add_field arg c = Inr c1" "add_fields args c1 = Inr c'"
    by (auto split: sum.splits)
  with add_field_split [OF c1(1)] Cons.IH [OF c1(2)] Cons.prems(2) show ?case
    by (simp add: fields_enc_def)
qed (simp add: fields_enc_def)

lemma pad_loop_zeros: "\<exists>n. pad_loop i c = c @ replicate n 0 \<and> 4 dvd length c + n \<and> (i < 1 \<longrightarrow> n \<ge> 1)"
proof (induction i c rule: pad_loop.induct)
  case (1 i c)
  show ?case
  proof (cases "i < 1 \<or> length c mod 4 \<noteq> 0")
    case True
    from "1.IH" [OF True] obtain n where n: "pad_loop (i + 1) (c @ [0]) = (c @ [0]) @ replicate n 0"
      "4 dvd length (c @ [0]) + n" by blast
    have "pad_loop i c = c @ replicate (n + 1) 0"
      using True n(1) by (subst pad_loop.simps) simp
    with n(2) show ?thesis by (intro exI [of _ "n + 1"]) simp
  next
    case False
    then have "pad_loop i c = c @ replicate 0 0" "4 dvd length c + 0" "\<not> i < 1"
      by (auto simp: pad_loop.simps)
    then show ?thesis by blast
  qed
qed

lemma put32_append: "length a = off \<Longrightarrow> length w0 = 4 \<Longrightarrow> put32 (a @ w0 @ r) off w = a @ le32 w @ r"
  by (simp add: put32_def)

lemma sign_header_parts:
  assumes "length A = FIELDS_OFFSET"
  shows "sign_header off (A @ pattern @ B) =
    A @ le32 (of_nat (FIELDS_OFFSET + 16 + length B)) @ le32 (crc32_eth_end B (crc32_eth_start A)) @ le32 (of_nat off)
      @ le32 0xDDDDDDDD @ B"
proof -
  let ?a = "le32 0xAAAAAAAA" and ?b = "le32 0xBBBBBBBB" and ?c = "le32 0xCCCCCCCC" and ?d = "le32 0xDDDDDDDD"
  let ?n = "le32 (of_nat (FIELDS_OFFSET + 16 + length B))" and ?o = "le32 (of_nat off)"
  have len: "length (A @ pattern @ B) = FIELDS_OFFSET + 16 + length B" using assms by (simp add: pattern_def)
  have c0: "A @ pattern @ B = A @ ?a @ ?b @ ?c @ ?d @ B" by (simp add: pattern_def)
  have c1: "put32 (A @ pattern @ B) FIELDS_OFFSET (of_nat (FIELDS_OFFSET + 16 + length B)) = A @ ?n @ ?b @ ?c @ ?d @ B"
    unfolding c0 using assms by (simp add: put32_append)
  have c2: "put32 (A @ ?n @ ?b @ ?c @ ?d @ B) (FIELDS_OFFSET + 8) (of_nat off) = A @ ?n @ ?b @ ?o @ ?d @ B"
    using put32_append [of "A @ ?n @ ?b" "FIELDS_OFFSET + 8" ?c "?d @ B" "of_nat off"] assms by simp
  have crc: "sign_crc (A @ ?n @ ?b @ ?o @ ?d @ B) = crc32_eth_end B (crc32_eth_start A)"
    using assms by (simp add: sign_crc_def)
  have p: "put32 (A @ ?n @ ?b @ ?o @ ?d @ B) (FIELDS_OFFSET + 4) w = A @ ?n @ le32 w @ ?o @ ?d @ B" for w
    using put32_append [of "A @ ?n" "FIELDS_OFFSET + 4" ?b "?o @ ?d @ B" w] assms by simp
  show ?thesis
    unfolding sign_header_def Let_def len c1 c2 crc p ..
qed

lemma pattern_no_zero: "0 \<notin> set pattern" "length pattern = 16"
  by (simp_all add: pattern_def le32_def)

text \<open>The shape of what the tool writes.\<close>

lemma sign_image_shape:
  assumes "sign_image input lim args = Inr out" "\<forall>arg \<in> set args. 0 \<notin> set arg"
  shows "\<exists>A C off n. length A = FIELDS_OFFSET \<and> off = FIELDS_OFFSET + 16 + length C \<and> 4 dvd off
    \<and> (let kvs = map split_arg args; B = C @ fields_enc kvs @ replicate n 0
       in list_all field_ok kvs \<and> 1 \<le> n \<and> 4 dvd length B \<and> int (FIELDS_OFFSET + 16 + length B) \<le> lim
          \<and> out = A @ le32 (of_nat (FIELDS_OFFSET + 16 + length B)) @ le32 (crc32_eth_end B (crc32_eth_start A))
              @ le32 (of_nat off) @ le32 0xDDDDDDDD @ B)"
proof -
  obtain n1 where n1: "pad_loop 0 input = input @ replicate n1 0" "4 dvd length input + n1" "1 \<le> n1"
    using pad_loop_zeros [of 0 input] by auto
  define c0 where "c0 = input @ replicate n1 0"
  obtain c1 where c1: "add_fields args c0 = Inr c1"
    using assms(1) by (auto simp: sign_image_def Let_def n1(1) c0_def split: if_splits sum.splits)
  from add_fields_split [OF c1 assms(2)]
  have fe: "c1 = c0 @ fields_enc (map split_arg args)" "list_all field_ok (map split_arg args)" by simp_all
  obtain n where n: "pad_loop 0 c1 = c1 @ replicate n 0" "4 dvd length c1 + n" "1 \<le> n"
    using pad_loop_zeros [of 0 c1] by auto
  define c2 where "c2 = c1 @ replicate n 0"
  have facts: "take 16 (drop FIELDS_OFFSET c2) = pattern" "int (length c2) \<le> lim" "out = sign_header (length c0) c2"
    "FIELDS_OFFSET + 4 \<le> length c0"
    using assms(1) c1 n(1) n1(1)
    by (auto simp: sign_image_def Let_def c0_def c2_def split: if_splits)
  define A where "A = take FIELDS_OFFSET c2"
  have split: "c2 = A @ pattern @ drop (FIELDS_OFFSET + 16) c2"
    using facts(1) by (metis A_def add.commute append_take_drop_id drop_drop)
  have lA: "length A = FIELDS_OFFSET"
    using facts(4) by (simp add: A_def c2_def fe(1) FIELDS_OFFSET_def)
  have l0: "FIELDS_OFFSET + 16 \<le> length c0"
  proof (rule ccontr)
    assume "\<not> FIELDS_OFFSET + 16 \<le> length c0"
    with facts(4) have i: "length c0 - 1 - FIELDS_OFFSET < 16" "FIELDS_OFFSET \<le> length c0 - 1" by auto
    have "c0 ! (length c0 - 1) = 0" using n1(3) by (auto simp: c0_def nth_append)
    then have "c2 ! (length c0 - 1) = 0" using facts(4) by (auto simp: c2_def fe(1) nth_append FIELDS_OFFSET_def)
    moreover have "pattern ! (length c0 - 1 - FIELDS_OFFSET) = c2 ! (length c0 - 1)"
    proof -
      have "FIELDS_OFFSET \<le> length c2" using facts(4) by (simp add: c2_def fe(1))
      then have "take 16 (drop FIELDS_OFFSET c2) ! (length c0 - 1 - FIELDS_OFFSET) =
          c2 ! (FIELDS_OFFSET + (length c0 - 1 - FIELDS_OFFSET))"
        using i(1) by (simp only: nth_take nth_drop)
      moreover have "FIELDS_OFFSET + (length c0 - 1 - FIELDS_OFFSET) = length c0 - 1" using i(2) by arith
      ultimately show ?thesis unfolding facts(1) by metis
    qed
    ultimately show False using pattern_no_zero i(1) nth_mem [of "length c0 - 1 - FIELDS_OFFSET" pattern] by simp
  qed
  define C where "C = drop (FIELDS_OFFSET + 16) c0"
  have B: "drop (FIELDS_OFFSET + 16) c2 = C @ fields_enc (map split_arg args) @ replicate n 0"
    using l0 by (simp add: c2_def fe(1) C_def)
  have lC: "length c0 = FIELDS_OFFSET + 16 + length C" using l0 by (simp add: C_def)
  let ?B = "C @ fields_enc (map split_arg args) @ replicate n 0"
  have out: "out = A @ le32 (of_nat (FIELDS_OFFSET + 16 + length ?B)) @ le32 (crc32_eth_end ?B (crc32_eth_start A))
              @ le32 (of_nat (length c0)) @ le32 0xDDDDDDDD @ ?B"
    using facts(3) sign_header_parts [OF lA, of "length c0" ?B] split B by simp
  have dv: "4 dvd length c0" using n1(2) by (simp add: c0_def)
  have l2: "length c2 = FIELDS_OFFSET + 16 + length ?B"
    using arg_cong [OF split, of length] lA B by (simp add: pattern_def)
  have "length c2 = length c1 + n" by (simp add: c2_def)
  with l2 n(2) have "4 dvd FIELDS_OFFSET + 16 + length ?B" by metis
  then have dB: "4 dvd length ?B" unfolding FIELDS_OFFSET_def by presburger
  show ?thesis
    by (intro exI [of _ A] exI [of _ C] exI [of _ "length c0"] exI [of _ n])
      (use lA lC dv fe(2) n(3) dB facts(2) l2 out in \<open>simp add: Let_def\<close>)
qed


lemma mem_piece:
  assumes "mem_bytes m a n = xs @ ys @ zs" "n = length xs + length ys + length zs"
  shows "mem_bytes m (a + of_nat (length xs)) (length ys) = ys"
proof -
  have "mem_bytes m a (length xs) @ mem_bytes m (a + of_nat (length xs)) (length ys + length zs) = xs @ ys @ zs"
    using assms mem_bytes_add [of m a "length xs" "length ys + length zs"] by (simp add: add.assoc)
  from append_split [OF this]
  have "mem_bytes m (a + of_nat (length xs)) (length ys) @
      mem_bytes m (a + of_nat (length xs) + of_nat (length ys)) (length zs) = ys @ zs"
    by (simp add: mem_bytes_add)
  from append_split [OF this] show ?thesis by simp
qed

lemma and_mask_aligned:
  assumes "4 dvd unat (w :: u32)"
  shows "w AND 0xFFFFFFFC = w"
proof -
  have "take_bit 2 w = 0" using assms by (simp add: take_bit_eq_mod word_arith_nat_mod dvd_eq_mod_eq_0)
  then have "w AND 3 = 0" by (simp add: take_bit_eq_mask mask_eq_exp_minus_1)
  moreover have "w AND (3 OR NOT 3) = (w AND 3) OR (w AND NOT 3)" by (rule bit.conj_disj_distrib)
  moreover have "(3 :: u32) OR NOT 3 = - 1" by (rule bit.disj_cancel_right)
  ultimately have "w = w AND NOT 3" by simp
  moreover have "(0xFFFFFFFC :: u32) = NOT 3" by simp
  ultimately show ?thesis by metis
qed

lemma region_start_ok:
  assumes "FLASH_START \<le> a" "unat a + k \<le> 0x0807FE6F"
  shows "unat (a + of_nat k) = unat a + k" "unat (fw_max_size a) = 0x0807FE6F - unat a"
    "FLASH_START \<le> a + of_nat k"
    "unat (fw_max_size a - of_nat k) = 0x0807FE6F - unat a - k" "\<not> fw_max_size a < of_nat k"
    "\<not> flash_check_range (a + of_nat k) (fw_max_size a - of_nat k)"
proof -
  show u: "unat (a + of_nat k) = unat a + k" using assms(2) by (intro unat_add_of_nat) simp
  have "fw_max_size a = 0x0807FE6F - a" by (simp add: fw_max_size_def)
  moreover have "a \<le> 0x0807FE6F" using assms(2) by (simp add: word_le_nat_alt)
  ultimately show mx: "unat (fw_max_size a) = 0x0807FE6F - unat a" by (simp add: unat_sub word_le_nat_alt)
  show st: "FLASH_START \<le> a + of_nat k" using assms(1) u by (simp add: word_le_nat_alt)
  have k: "unat (of_nat k :: u32) = k" using assms(2) by (intro unat_of_nat_u32) simp
  show nl: "\<not> fw_max_size a < of_nat k" using mx k assms(2) by (simp add: word_less_nat_alt)
  then show r: "unat (fw_max_size a - of_nat k) = 0x0807FE6F - unat a - k"
    using mx k by (simp add: unat_sub not_less)
  have "fw_max_size a - of_nat k = of_nat (0x0807FE6F - unat a - k)" 
  proof -
    have "fw_max_size a - of_nat k = of_nat (unat (fw_max_size a - of_nat k))" by simp
    then show ?thesis unfolding r .
  qed
  moreover have "0x0807FE6F - unat a - k < 2 ^ 20" using assms(1) by (simp add: word_le_nat_alt)
  moreover have "unat (a + of_nat k) + (0x0807FE6F - unat a - k) \<le> 0x08080000" using u assms(2) by simp
  ultimately show "\<not> flash_check_range (a + of_nat k) (fw_max_size a - of_nat k)"
    using in_flash_ok [OF st] by simp
qed

lemma check_image_passes:
  assumes "fw_addr fw = a" "hdr = hdr_at m (a + ho)" "\<not> flash_check_range a (fw_size hdr)"
    "\<not> fw_size hdr \<le> ho + HEADER_SIZE" "fw_calc_crc dr m a ho (fw_size hdr) = fw_crc32 hdr"
    "fw_fields_get_count m (a + fields_addr_offset hdr) (fields_region mx hdr) = cnt" "\<not> cnt \<le> 0"
  shows "fw_check_image dr m ho mx fw = fw\<lparr>locked := LOCK_NONE, fw_len := fw_size hdr, fields_count := cnt\<rparr>"
  using assms by (simp add: fw_check_image_def Let_def)

text \<open>An image of this shape in the flash passes the size, CRC and count checks.\<close>

locale signed_image = crc_unit dr for dr +
  fixes m :: memory and a :: u32 and A C :: bytes and kvs :: "(bytes \<times> bytes) list" and n :: nat
  assumes lA: "length A = FIELDS_OFFSET" and off4: "4 dvd FIELDS_OFFSET + 16 + length C"
    and kvs_ok: "list_all field_ok kvs" and kvs_ne: "kvs \<noteq> []" and n1: "1 \<le> n"
    and B4: "4 dvd length (C @ fields_enc kvs @ replicate n 0)"
    and a4: "4 dvd unat a" and start: "FLASH_START \<le> a"
    and fit: "unat a + (FIELDS_OFFSET + 16 + length (C @ fields_enc kvs @ replicate n 0)) \<le> 0x0807FE6F"
    and stored: "mem_bytes m a (FIELDS_OFFSET + 16 + length (C @ fields_enc kvs @ replicate n 0)) =
      A @ le32 (of_nat (FIELDS_OFFSET + 16 + length (C @ fields_enc kvs @ replicate n 0)))
        @ le32 (crc32_eth_end (C @ fields_enc kvs @ replicate n 0) (crc32_eth_start A))
        @ le32 (of_nat (FIELDS_OFFSET + 16 + length C)) @ le32 0xDDDDDDDD @ (C @ fields_enc kvs @ replicate n 0)"
begin

abbreviation "B \<equiv> C @ fields_enc kvs @ replicate n 0"
abbreviation "len \<equiv> FIELDS_OFFSET + 16 + length B"
abbreviation "off \<equiv> FIELDS_OFFSET + 16 + length C"

lemma hdr_fields:
  "hdr_at m (a + HEADER_OFFSET) = \<lparr>fw_size = of_nat len, fw_crc32 = crc32_eth_end B (crc32_eth_start A),
     fields_addr_offset = of_nat off, reserved2 = 0xDDDDDDDD\<rparr>"
proof -
  let ?n = "le32 (of_nat len)" and ?c = "le32 (crc32_eth_end B (crc32_eth_start A))"
  let ?o = "le32 (of_nat off)" and ?d = "le32 0xDDDDDDDD"
  have h: "HEADER_OFFSET = of_nat FIELDS_OFFSET" by (simp add: FIELDS_OFFSET_def)
  have "mem_bytes m (a + of_nat (length A)) (length ?n) = ?n"
    by (rule mem_piece [OF stored]) (simp add: lA)
  moreover have "mem_bytes m (a + of_nat (length (A @ ?n))) (length ?c) = ?c"
    by (rule mem_piece [where n = len and zs = "?o @ ?d @ B"]) (use stored in \<open>simp_all add: lA\<close>)
  moreover have "mem_bytes m (a + of_nat (length (A @ ?n @ ?c))) (length ?o) = ?o"
    by (rule mem_piece [where n = len and zs = "?d @ B"]) (use stored in \<open>simp_all add: lA\<close>)
  moreover have "mem_bytes m (a + of_nat (length (A @ ?n @ ?c @ ?o))) (length ?d) = ?d"
    by (rule mem_piece [where n = len and zs = "B"]) (use stored in \<open>simp_all add: lA\<close>)
  ultimately show ?thesis by (simp add: hdr_at_def h lA add.assoc)
qed

lemma crc_passes: "fw_calc_crc dr m a HEADER_OFFSET (of_nat len) = crc32_eth_end B (crc32_eth_start A)"
proof -
  have fo: "FIELDS_OFFSET = 0x190" by (simp add: FIELDS_OFFSET_def)
  have "mem_bytes m (a + of_nat (length ([] :: bytes))) (length A) = A"
    by (rule mem_piece [where n = len and xs = "[]" and zs = "le32 (of_nat len) @ le32 (crc32_eth_end B (crc32_eth_start A))
          @ le32 (of_nat off) @ le32 0xDDDDDDDD @ B"]) (use stored in \<open>simp_all add: lA\<close>)
  then have mA: "mem_bytes m a 0x190 = A" by (simp add: lA fo)
  let ?h = "A @ le32 (of_nat len) @ le32 (crc32_eth_end B (crc32_eth_start A)) @ le32 (of_nat off) @ le32 0xDDDDDDDD"
  have "mem_bytes m (a + of_nat (length ?h)) (length B) = B"
    by (rule mem_piece [where n = len and zs = "[]"]) (use stored in \<open>simp_all add: lA\<close>)
  then have mB: "mem_bytes m (a + 0x1A0) (length B) = B" by (simp add: lA fo)
  have al: "a AND 0xFFFFFFFC = a" by (rule and_mask_aligned [OF a4])
  have u: "unat (a + of_nat 0x1A0) = unat a + 0x1A0" using fit by (intro unat_add_of_nat) (simp add: fo)
  then have "4 dvd unat (a + 0x1A0)" using a4 by simp
  then have al2: "(a + 0x1A0) AND 0xFFFFFFFC = a + 0x1A0" by (rule and_mask_aligned)
  have "of_nat len - (0x1A0 :: u32) = of_nat (length B)" by (simp add: fo)
  moreover have "unat (of_nat (length B) :: u32) = length B" using fit by (intro unat_of_nat_u32) simp
  ultimately have lB: "unat (of_nat len - (0x1A0 :: u32)) = length B" by simp
  have e: "HEADER_OFFSET + HEADER_SIZE = (0x1A0 :: u32)" "a + HEADER_OFFSET + HEADER_SIZE = a + 0x1A0" by simp_all
  have h: "unat HEADER_OFFSET = 0x190" by simp
  show ?thesis
    unfolding fw_calc_crc_def e al al2 lB mB h mA start_eq_eth end_eq_eth ..
qed

lemma fields_at: "mem_bytes m (a + of_nat off) (length (fields_enc kvs)) = fields_enc kvs"
proof -
  let ?h = "(A @ le32 (of_nat len) @ le32 (crc32_eth_end B (crc32_eth_start A)) @ le32 (of_nat off) @ le32 0xDDDDDDDD) @ C"
  have "mem_bytes m (a + of_nat (length ?h)) (length (fields_enc kvs)) = fields_enc kvs"
    by (rule mem_piece [where n = len and zs = "replicate n 0"]) (use stored in \<open>simp_all add: lA\<close>)
  then show ?thesis by (simp add: lA add.assoc)
qed

lemma region_bytes:
  "\<exists>r. mem_bytes m (a + of_nat off) (0x0807FE6F - unat a - off) = fields_enc kvs @ 0 # r"
proof -
  let ?h = "(A @ le32 (of_nat len) @ le32 (crc32_eth_end B (crc32_eth_start A)) @ le32 (of_nat off) @ le32 0xDDDDDDDD) @ C"
  let ?f = "length (fields_enc kvs)" and ?R = "0x0807FE6F - unat a - off"
  have "mem_bytes m (a + of_nat (length ?h)) (length (fields_enc kvs @ [0])) = fields_enc kvs @ [0]"
  proof (rule mem_piece [where n = len and zs = "replicate (n - 1) 0"])
    have "replicate n 0 = [0 :: u8] @ replicate (n - 1) 0" using n1 by (cases n) simp_all
    then show "mem_bytes m a len = ?h @ (fields_enc kvs @ [0]) @ replicate (n - 1) 0"
      using stored by simp
    show "len = length ?h + length (fields_enc kvs @ [0]) + length (replicate (n - 1) (0 :: u8))"
      using n1 by (simp add: lA)
  qed
  then have f: "mem_bytes m (a + of_nat off) (?f + 1) = fields_enc kvs @ [0]" by (simp add: lA add.assoc)
  have "?R = (?f + 1) + (?R - (?f + 1))" using fit n1 by simp
  then have "mem_bytes m (a + of_nat off) ?R = mem_bytes m (a + of_nat off) (?f + 1) @
      mem_bytes m (a + of_nat off + of_nat (?f + 1)) (?R - (?f + 1))"
    by (metis mem_bytes_add)
  then show ?thesis unfolding f by auto
qed

lemma off_fit: "unat a + off \<le> 0x0807FE6F"
  using fit by simp

lemma region_size: "fields_region (fw_max_size a) (hdr_at m (a + HEADER_OFFSET)) = fw_max_size a - of_nat off"
  using region_start_ok(5) [OF start off_fit] by (simp add: fields_region_def hdr_fields)

lemma count_fields:
  "fw_fields_get_count m (a + of_nat off) (fw_max_size a - of_nat off) = int (length kvs)"
proof -
  obtain r where "mem_bytes m (a + of_nat off) (0x0807FE6F - unat a - off) = fields_enc kvs @ 0 # r"
    using region_bytes by blast
  then show ?thesis
    using region_start_ok(4,6) [OF start off_fit] get_count_fields [OF kvs_ok kvs_ne]
    by (simp add: fw_fields_get_count_def)
qed

lemma find_field:
  assumes "key \<noteq> []"
  shows "case map_of kvs key of
      None \<Rightarrow> fw_fields_find_by_key m (a + of_nat off) key (fw_max_size a - of_nat off) = NULL
    | Some v \<Rightarrow> cstr_at m (fw_fields_find_by_key m (a + of_nat off) key (fw_max_size a - of_nat off)) v"
proof -
  obtain r where r: "mem_bytes m (a + of_nat off) (0x0807FE6F - unat a - off) = fields_enc kvs @ 0 # r"
    using region_bytes by blast
  note ok = region_start_ok [OF start off_fit]
  have e: "fw_fields_find_by_key m (a + of_nat off) key (fw_max_size a - of_nat off) =
      find_by_key_loop m key (a + of_nat off) (fields_enc kvs @ 0 # r) True 0 0 True"
    using ok(4,6) r by (simp add: fw_fields_find_by_key_def)
  have bnd: "unat (a + of_nat off) + length (fields_enc kvs) \<le> 0x08080000" using ok(1) fit by simp
  show ?thesis
    unfolding e by (rule find_key_fields [OF kvs_ok fields_at ok(3) bnd]) (use kvs_ne assms in simp_all)
qed

lemma image_ok:
  assumes "fw_addr fw = a"
  shows "fw_check_image dr m HEADER_OFFSET (fw_max_size a) fw =
    fw\<lparr>locked := LOCK_NONE, fw_len := of_nat len, fields_count := int (length kvs)\<rparr>"
proof -
  have l: "unat (of_nat len :: u32) = len" using fit by (intro unat_of_nat_u32) simp
  have "len < 2 ^ 20" using fit start by (simp add: word_le_nat_alt)
  then have rng: "\<not> flash_check_range a (of_nat len)"
    using in_flash_ok [OF start, of len] fit by simp
  have "length B \<noteq> 0" using n1 by simp
  then have big: "\<not> of_nat len \<le> HEADER_OFFSET + HEADER_SIZE"
    using l by (simp add: word_le_nat_alt FIELDS_OFFSET_def)
  have h: "fw_size (hdr_at m (a + HEADER_OFFSET)) = of_nat len"
    "fw_crc32 (hdr_at m (a + HEADER_OFFSET)) = crc32_eth_end B (crc32_eth_start A)"
    "fields_addr_offset (hdr_at m (a + HEADER_OFFSET)) = of_nat off"
    by (simp_all only: hdr_fields fw_header_v1.simps)
  have "fw_check_image dr m HEADER_OFFSET (fw_max_size a) fw = fw\<lparr>locked := LOCK_NONE,
      fw_len := fw_size (hdr_at m (a + HEADER_OFFSET)), fields_count := int (length kvs)\<rparr>"
  proof (rule check_image_passes [OF assms refl])
    show "\<not> flash_check_range a (fw_size (hdr_at m (a + HEADER_OFFSET)))" unfolding h by (rule rng)
    show "\<not> fw_size (hdr_at m (a + HEADER_OFFSET)) \<le> HEADER_OFFSET + HEADER_SIZE" unfolding h by (rule big)
    show "fw_calc_crc dr m a HEADER_OFFSET (fw_size (hdr_at m (a + HEADER_OFFSET))) = fw_crc32 (hdr_at m (a + HEADER_OFFSET))"
      unfolding h by (rule crc_passes)
    show "fw_fields_get_count m (a + fields_addr_offset (hdr_at m (a + HEADER_OFFSET)))
        (fields_region (fw_max_size a) (hdr_at m (a + HEADER_OFFSET))) = int (length kvs)"
      unfolding region_size h by (rule count_fields)
  qed (use kvs_ne in simp)
  then show ?thesis unfolding h .
qed

end


text \<open>An example: an application image with two fields, at its place in the flash.\<close>

definition ex_input :: bytes where
  "ex_input = replicate FIELDS_OFFSET 1 @ pattern"

definition ex_args :: "bytes list" where
  "ex_args = [ascii ''prod=gw'', ascii ''prod_name=sh_gw_app'']"

definition ex_kvs :: "(bytes \<times> bytes) list" where
  "ex_kvs = [(ascii ''prod'', ascii ''gw''), (ascii ''prod_name'', ascii ''sh_gw_app'')]"

definition ex_out :: bytes where
  "ex_out = sign_header 420 (ex_input @ replicate 4 0 @ fields_enc ex_kvs @ replicate 4 0)"

definition ex_mem :: memory where
  "ex_mem = mem_write (\<lambda>_. 0xFF) 0x08020000 ex_out"

lemma ex_split: "map split_arg ex_args = ex_kvs"
  by (simp add: ex_args_def ex_kvs_def split_arg_def ascii_def)

lemma length_ex_fields: "length (fields_enc ex_kvs) = 28"
  by (simp add: ex_kvs_def fields_enc_def field_enc_def)

lemma ex_pad1: "pad_loop 0 ex_input = ex_input @ replicate 4 0"
proof -
  have l: "length ex_input = 416" by (simp add: ex_input_def pattern_def FIELDS_OFFSET_def)
  show ?thesis
    by (subst pad_loop.simps, simp add: l, (subst pad_loop.simps, simp add: l)+) (simp add: numeral_eq_Suc)
qed

lemma ex_fields: "add_fields ex_args c = Inr (c @ fields_enc ex_kvs)"
  by (simp add: ex_args_def ex_kvs_def fields_enc_def field_enc_def add_field_def delim_pos_def ascii_def)

lemma ex_pad2: "length c = 448 \<Longrightarrow> pad_loop 0 c = c @ replicate 4 0"
  by (subst pad_loop.simps, simp, (subst pad_loop.simps, simp)+) (simp add: numeral_eq_Suc)

lemma ex_signed: "sign_image ex_input 393216 ex_args = Inr ex_out"
proof -
  let ?c0 = "ex_input @ replicate 4 0" and ?f = "fields_enc ex_kvs"
  have l: "length ex_input = 416" by (simp add: ex_input_def pattern_def FIELDS_OFFSET_def)
  have p2: "pad_loop 0 (?c0 @ ?f) = (?c0 @ ?f) @ replicate 4 0"
    by (rule ex_pad2) (simp add: l length_ex_fields)
  have "take 16 (drop FIELDS_OFFSET ((?c0 @ ?f) @ replicate 4 0)) = pattern"
    by (simp add: ex_input_def pattern_def)
  then show ?thesis
    by (simp only: sign_image_def ex_pad1 Let_def ex_fields p2 sum.case)
      (simp add: l length_ex_fields FIELDS_OFFSET_def ex_out_def)
qed

context signed_image begin

lemma region_checked:
  assumes "fw = snd (fw_header_check_region dr m HEADER_OFFSET (fw_max_size a) (fw0\<lparr>fw_addr := a\<rparr>))"
  shows "locked fw = (if map_of kvs (ascii ''prod_name'') = None then LOCK_NO_PROD_NAME_FIELD
        else if map_of kvs (ascii ''prod'') = None then LOCK_NO_PROD_FIELD else LOCK_NONE)
    \<and> fields_count fw = int (length kvs) \<and> fw_len fw = of_nat len
    \<and> (\<forall>v. map_of kvs (ascii ''prod'') = Some v \<longrightarrow> cstr_at m (field_product_ptr fw) v)
    \<and> (\<forall>v. map_of kvs (ascii ''prod_name'') = Some v \<longrightarrow> cstr_at m (field_product_name_ptr fw) v)"
proof -
  let ?find = "\<lambda>key. fw_fields_find_by_key m (a + of_nat off) key (fw_max_size a - of_nat off)"
  let ?fw1 = "(fw0\<lparr>fw_addr := a\<rparr>)\<lparr>locked := LOCK_NONE, fw_len := of_nat len, fields_count := int (length kvs)\<rparr>"
  have img: "fw_check_image dr m HEADER_OFFSET (fw_max_size a) (fw0\<lparr>fw_addr := a\<rparr>) = ?fw1"
    by (rule image_ok) simp
  have o': "fields_addr_offset (hdr_at m (a + HEADER_OFFSET)) = of_nat off"
    by (simp only: hdr_fields fw_header_v1.simps)
  have fw: "fw = fw_check_fields m HEADER_OFFSET (fw_max_size a) ?fw1"
    unfolding assms fw_header_check_region_def img by (simp add: Let_def)
  have addr: "fw_addr ?fw1 = a" by simp
  have sel: "locked fw = (if ?find (ascii ''prod_name'') = NULL then LOCK_NO_PROD_NAME_FIELD
        else if ?find (ascii ''prod'') = NULL then LOCK_NO_PROD_FIELD else LOCK_NONE)"
    "field_product_ptr fw = ?find (ascii ''prod'')" "field_product_name_ptr fw = ?find (ascii ''prod_name'')"
    "fields_count fw = int (length kvs)" "fw_len fw = of_nat len"
    unfolding fw fw_check_fields_def Let_def addr o' region_size by simp_all
  have nn: "p \<noteq> NULL" if "cstr_at m p v" for p v
    using that by (auto simp: cstr_at_def word_le_nat_alt)
  have f1: "case map_of kvs (ascii ''prod'') of None \<Rightarrow> ?find (ascii ''prod'') = NULL
      | Some v \<Rightarrow> cstr_at m (?find (ascii ''prod'')) v"
    by (rule find_field) (simp add: ascii_def)
  have f2: "case map_of kvs (ascii ''prod_name'') of None \<Rightarrow> ?find (ascii ''prod_name'') = NULL
      | Some v \<Rightarrow> cstr_at m (?find (ascii ''prod_name'')) v"
    by (rule find_field) (simp add: ascii_def)
  have z1: "?find (ascii ''prod'') = NULL \<longleftrightarrow> map_of kvs (ascii ''prod'') = None"
    using f1 nn by (cases "map_of kvs (ascii ''prod'')") auto
  have z2: "?find (ascii ''prod_name'') = NULL \<longleftrightarrow> map_of kvs (ascii ''prod_name'') = None"
    using f2 nn by (cases "map_of kvs (ascii ''prod_name'')") auto
  show ?thesis
    unfolding sel z1 z2 using f1 f2 by (auto split: option.splits)
qed

end

lemma ex_out_shape:
  "ex_out = replicate FIELDS_OFFSET 1 @ le32 (of_nat (FIELDS_OFFSET + 16 + length (replicate 4 0 @ fields_enc ex_kvs @ replicate 4 0)))
     @ le32 (crc32_eth_end (replicate 4 0 @ fields_enc ex_kvs @ replicate 4 0) (crc32_eth_start (replicate FIELDS_OFFSET 1)))
     @ le32 (of_nat (FIELDS_OFFSET + 16 + length (replicate 4 (0 :: u8)))) @ le32 0xDDDDDDDD
     @ (replicate 4 0 @ fields_enc ex_kvs @ replicate 4 0)"
  unfolding ex_out_def ex_input_def append_assoc
  using sign_header_parts [of "replicate FIELDS_OFFSET 1" 420 "replicate 4 0 @ fields_enc ex_kvs @ replicate 4 0"]
  by (simp add: FIELDS_OFFSET_def)

lemma length_ex_out: "length ex_out = 452"
  by (simp add: ex_out_shape length_ex_fields FIELDS_OFFSET_def)

lemma ex_stored: "mem_bytes ex_mem 0x08020000 452 = ex_out"
  using mem_bytes_mem_write [of ex_out "\<lambda>_. 0xFF" "0x08020000"] by (simp add: ex_mem_def length_ex_out)

interpretation ex_image: signed_image sw_crc32_word ex_mem "0x08020000" "replicate FIELDS_OFFSET 1" "replicate 4 0" ex_kvs 4
proof unfold_locales
  show "list_all field_ok ex_kvs" by (simp add: ex_kvs_def field_ok_def ascii_def)
  show "mem_bytes ex_mem 0x08020000 (FIELDS_OFFSET + 16 + length (replicate 4 0 @ fields_enc ex_kvs @ replicate 4 0)) =
      replicate FIELDS_OFFSET 1 @ le32 (of_nat (FIELDS_OFFSET + 16 + length (replicate 4 0 @ fields_enc ex_kvs @ replicate 4 0)))
     @ le32 (crc32_eth_end (replicate 4 0 @ fields_enc ex_kvs @ replicate 4 0) (crc32_eth_start (replicate FIELDS_OFFSET 1)))
     @ le32 (of_nat (FIELDS_OFFSET + 16 + length (replicate 4 (0 :: u8)))) @ le32 0xDDDDDDDD
     @ (replicate 4 0 @ fields_enc ex_kvs @ replicate 4 0)"
    unfolding ex_out_shape [symmetric] using ex_stored by (simp add: length_ex_fields FIELDS_OFFSET_def)
qed (simp_all add: FIELDS_OFFSET_def length_ex_fields ex_kvs_def [THEN arg_cong [of _ _ "\<lambda>x. x \<noteq> []"]])

section \<open>Properties\<close>



end
