(* ===== verification/Boot.thy ===== *)
theory Boot
  imports Sign
begin

text \<open>
  The boot chain: the first-stage loader preldr/preldr.c picks the image to run from the retained
  load source (common/ret_mem.c) and the checked headers; the loader ldr/ldr.c counts down and resets,
  the application app/app.c announces itself.  \<open>boot_step\<close> puts the three together with resets.
\<close>

section \<open>Definitions\<close>

datatype load_src_t = LOAD_SRC_NONE | LOAD_SRC_BOOTLOADER | LOAD_SRC_APP

definition load_src_code :: "load_src_t \<Rightarrow> u32" where
  "load_src_code s = (case s of LOAD_SRC_NONE \<Rightarrow> 0 | LOAD_SRC_BOOTLOADER \<Rightarrow> 0x55 | LOAD_SRC_APP \<Rightarrow> 0xAA)"

text \<open>The backup registers of the RTC the firmware uses.\<close>

record rtc_regs =
  BKP0R :: u32
  BKP2R :: u32
  BKP3R :: u32

definition ret_mem_get_load_src :: "rtc_regs \<Rightarrow> u32" where
  "ret_mem_get_load_src r = BKP0R r"

definition ret_mem_set_load_src :: "load_src_t \<Rightarrow> rtc_regs \<Rightarrow> rtc_regs" where
  "ret_mem_set_load_src src r = r\<lparr>BKP0R := load_src_code src\<rparr>"

definition ret_mem_set_rst_cause_ldr :: "u32 \<Rightarrow> rtc_regs \<Rightarrow> rtc_regs" where
  "ret_mem_set_rst_cause_ldr src r = r\<lparr>BKP2R := src\<rparr>"

definition ret_mem_set_rst_cause_app :: "u32 \<Rightarrow> rtc_regs \<Rightarrow> rtc_regs" where
  "ret_mem_set_rst_cause_app src r = r\<lparr>BKP3R := src\<rparr>"

definition ret_mem_get_rst_cause_ldr :: "rtc_regs \<Rightarrow> u32" where
  "ret_mem_get_rst_cause_ldr r = BKP2R r"

definition ret_mem_get_rst_cause_app :: "rtc_regs \<Rightarrow> u32" where
  "ret_mem_get_rst_cause_app r = BKP3R r"

text \<open>\<open>main\<close> of preldr.c: the address it jumps to, \<open>None\<close> for the endless loop.\<close>

definition preldr_main :: "g_fw_info \<Rightarrow> rtc_regs \<Rightarrow> u32 option \<times> rtc_regs" where
  "preldr_main g r0 =
    (let load_src = ret_mem_get_load_src r0;
         r = ret_mem_set_load_src LOAD_SRC_NONE r0
     in if load_src = load_src_code LOAD_SRC_BOOTLOADER \<and> locked (FW_APP g) = LOCK_NONE then (Some APP_START, r)
        else if locked (FW_LDR g) = LOCK_NONE then (Some LDR_START, r)
        else if locked (FW_APP g) = LOCK_NONE then (Some APP_START, r)
        else (None, r))"

text \<open>ldr.c: the state of the main loop and one iteration of it.\<close>

abbreviation SYSTICK_IN_US :: u32 where "SYSTICK_IN_US \<equiv> 168"
abbreviation SYSTICK_IN_MS :: u32 where "SYSTICK_IN_MS \<equiv> 168000"
abbreviation BOOT_DELAY :: u32 where "BOOT_DELAY \<equiv> 5000"

record ldr_st =
  g_stay_in_boot :: bool
  system_time :: u64
  sys_time_u32 :: u32
  boot_delay :: u32
  remain_us :: u32
  remain_ms :: u32
  difff :: u32
  led :: bool

definition ldr_start :: ldr_st where
  "ldr_start = \<lparr>g_stay_in_boot = False, system_time = 0, sys_time_u32 = 0, boot_delay = BOOT_DELAY,
     remain_us = 0, remain_ms = 0, difff = 0, led = False\<rparr>"

text \<open>\<open>delay_ms\<close> busy-waits until this many ticks of the cycle counter have passed.\<close>

fun delay_wait :: "u32 list \<Rightarrow> u32 \<Rightarrow> u32 \<Rightarrow> bool" where
  "delay_wait [] start time_limit = False"
| "delay_wait (mark # marks) start time_limit =
     (if start + mark \<ge> time_limit then True else delay_wait marks (start + mark) time_limit)"

definition ldr_mac :: "u32 \<Rightarrow> u8 list" where
  "ldr_mac crc = [ucast (drop_bit 16 crc AND 0xFF), ucast (drop_bit 8 crc AND 0xFF), ucast (crc AND 0xFF)]"

definition ldr_init :: "u32 \<Rightarrow> rtc_regs \<Rightarrow> rtc_regs" where
  "ldr_init rst_cause r = ret_mem_set_load_src LOAD_SRC_BOOTLOADER (ret_mem_set_rst_cause_ldr rst_cause r)"

text \<open>The loop body: \<open>None\<close> is the reset of lines 113-118.\<close>

definition ldr_loop :: "g_fw_info \<Rightarrow> bool \<Rightarrow> u32 \<Rightarrow> ldr_st \<Rightarrow> ldr_st option" where
  "ldr_loop g link_up time_diff_systick s0 =
    (let s = s0\<lparr>remain_us := (time_diff_systick + remain_us s0) mod SYSTICK_IN_US,
                remain_ms := (time_diff_systick + remain_ms s0) mod SYSTICK_IN_MS\<rparr>;
         diff_ms = (time_diff_systick + remain_ms s0) div SYSTICK_IN_MS
     in if boot_delay s = 0 \<and> \<not> g_stay_in_boot s \<and> locked (FW_APP g) = LOCK_NONE then None
        else let d = difff s + diff_ms; d' = (if d > 100 then 0 else d)
             in Some (s\<lparr>system_time := system_time s + ucast diff_ms, sys_time_u32 := sys_time_u32 s + diff_ms,
                        boot_delay := (if boot_delay s \<ge> diff_ms then boot_delay s - diff_ms else 0),
                        difff := d', led := d' < (if link_up then 60 else 7)\<rparr>))"

definition sys_now :: "ldr_st \<Rightarrow> u32" where
  "sys_now s = sys_time_u32 s"

definition app_init :: "u32 \<Rightarrow> rtc_regs \<Rightarrow> rtc_regs" where
  "app_init rst_cause r = ret_mem_set_load_src LOAD_SRC_APP (ret_mem_set_rst_cause_app rst_cause r)"

subsection \<open>The chain\<close>

text \<open>What the processor executes; the loader keeps the header information it checked at its start.\<close>

datatype cpu = In_Preldr | In_Ldr g_fw_info ldr_st | In_App | Hung

record board =
  brd_cpu :: cpu
  brd_regs :: rtc_regs
  brd_mem :: memory
  brd_info :: g_fw_info

text \<open>
  One step of the board, with the CRC unit, the name literals and the freshly cleared
  \<open>g_fw_info\<close> as parameters: the first-stage loader runs to its jump, the loader turns its loop, receives
  a request that keeps it in boot, writes flash or checks the headers again, the application writes
  flash, anything may be reset.
\<close>

inductive boot_step :: "(u32 \<Rightarrow> u32 \<Rightarrow> u32) \<Rightarrow> u32 \<Rightarrow> u32 \<Rightarrow> g_fw_info \<Rightarrow> board \<Rightarrow> board \<Rightarrow> bool"
  for dr ln an g0 where
  preldr_app: "brd_cpu b = In_Preldr \<Longrightarrow> preldr_main (fw_header_check_all dr (brd_mem b) ln an g0) (brd_regs b) = (Some APP_START, r) \<Longrightarrow>
     boot_step dr ln an g0 b (b\<lparr>brd_cpu := In_App, brd_regs := app_init rc r, brd_info := fw_header_check_all dr (brd_mem b) ln an g0\<rparr>)"
| preldr_ldr: "brd_cpu b = In_Preldr \<Longrightarrow> preldr_main (fw_header_check_all dr (brd_mem b) ln an g0) (brd_regs b) = (Some LDR_START, r) \<Longrightarrow>
     g = fw_header_check_all dr (brd_mem b) ln an g0 \<Longrightarrow>
     boot_step dr ln an g0 b (b\<lparr>brd_cpu := In_Ldr g ldr_start, brd_regs := ldr_init rc r, brd_info := g\<rparr>)"
| preldr_hang: "brd_cpu b = In_Preldr \<Longrightarrow> preldr_main (fw_header_check_all dr (brd_mem b) ln an g0) (brd_regs b) = (None, r) \<Longrightarrow>
     boot_step dr ln an g0 b (b\<lparr>brd_cpu := Hung, brd_regs := r\<rparr>)"
| ldr_turn: "brd_cpu b = In_Ldr g s \<Longrightarrow> ldr_loop g link t s = Some s' \<Longrightarrow>
     boot_step dr ln an g0 b (b\<lparr>brd_cpu := In_Ldr g s'\<rparr>)"
| ldr_reset: "brd_cpu b = In_Ldr g s \<Longrightarrow> ldr_loop g link t s = None \<Longrightarrow>
     boot_step dr ln an g0 b (b\<lparr>brd_cpu := In_Preldr\<rparr>)"
| ldr_stay: "brd_cpu b = In_Ldr g s \<Longrightarrow>
     boot_step dr ln an g0 b (b\<lparr>brd_cpu := In_Ldr g (s\<lparr>g_stay_in_boot := True\<rparr>)\<rparr>)"
| ldr_flash: "brd_cpu b = In_Ldr g s \<Longrightarrow> boot_step dr ln an g0 b (b\<lparr>brd_mem := m'\<rparr>)"
| ldr_check: "brd_cpu b = In_Ldr g s \<Longrightarrow> g' = fw_header_check_all dr (brd_mem b) ln an g \<Longrightarrow>
     boot_step dr ln an g0 b (b\<lparr>brd_cpu := In_Ldr g' s\<rparr>)"
| app_flash: "brd_cpu b = In_App \<Longrightarrow> boot_step dr ln an g0 b (b\<lparr>brd_mem := m'\<rparr>)"
| reset: "boot_step dr ln an g0 b (b\<lparr>brd_cpu := In_Preldr\<rparr>)"
| power_cycle: "boot_step dr ln an g0 b (b\<lparr>brd_cpu := In_Preldr, brd_regs := \<lparr>BKP0R = 0, BKP2R = 0, BKP3R = 0\<rparr>\<rparr>)"

section \<open>Lemmas\<close>

inductive_cases boot_stepE: "boot_step dr ln an g0 b b'"

lemma preldr_runs_app:
  "fst (preldr_main g r) = Some APP_START \<Longrightarrow> locked (FW_APP g) = LOCK_NONE"
  by (auto simp: preldr_main_def Let_def split: if_splits)

lemma preldr_runs_ldr:
  "fst (preldr_main g r) = Some LDR_START \<Longrightarrow> locked (FW_LDR g) = LOCK_NONE"
  by (auto simp: preldr_main_def Let_def split: if_splits)

lemma preldr_clears: "BKP0R (snd (preldr_main g r)) = 0"
  by (simp add: preldr_main_def Let_def ret_mem_set_load_src_def load_src_code_def)

lemma boot_step_app:
  assumes "boot_step dr ln an g0 b b'" "brd_cpu b' = In_App" "brd_cpu b \<noteq> In_App"
  shows "brd_cpu b = In_Preldr \<and> brd_mem b' = brd_mem b \<and> brd_info b' = fw_header_check_all dr (brd_mem b) ln an g0
    \<and> locked (FW_APP (brd_info b')) = LOCK_NONE"
  using assms(1)
proof cases
  case (preldr_app r rc)
  then show ?thesis using preldr_runs_app [of "fw_header_check_all dr (brd_mem b) ln an g0" "brd_regs b"] by simp
qed (use assms(2,3) in simp_all)

lemma boot_step_ldr:
  assumes "boot_step dr ln an g0 b b'" "brd_cpu b' = In_Ldr g s" "brd_cpu b = In_Preldr"
  shows "brd_mem b' = brd_mem b \<and> brd_info b' = fw_header_check_all dr (brd_mem b) ln an g0
    \<and> locked (FW_LDR (brd_info b')) = LOCK_NONE"
  using assms(1)
proof cases
  case (preldr_ldr r g rc)
  then show ?thesis using preldr_runs_ldr [of "fw_header_check_all dr (brd_mem b) ln an g0" "brd_regs b"] by simp
qed (use assms(2,3) in simp_all)

text \<open>The countdown: the boot delay reaches zero after enough milliseconds, and stays there.\<close>

definition turn_ms :: "u32 \<Rightarrow> ldr_st \<Rightarrow> u32" where
  "turn_ms t s = (t + remain_ms s) div SYSTICK_IN_MS"

lemma ldr_loop_Some:
  "ldr_loop g link t s = Some s' \<Longrightarrow>
   boot_delay s' = (if boot_delay s \<ge> turn_ms t s then boot_delay s - turn_ms t s else 0)
   \<and> g_stay_in_boot s' = g_stay_in_boot s"
  by (auto simp: ldr_loop_def Let_def turn_ms_def split: if_splits)

lemma ldr_loop_None:
  "ldr_loop g link t s = None \<longleftrightarrow> boot_delay s = 0 \<and> \<not> g_stay_in_boot s \<and> locked (FW_APP g) = LOCK_NONE"
  by (auto simp: ldr_loop_def Let_def)

text \<open>A run of the loop over a list of measured times; \<open>None\<close> is the reset.\<close>

fun ldr_run :: "g_fw_info \<Rightarrow> bool \<Rightarrow> u32 list \<Rightarrow> ldr_st \<Rightarrow> ldr_st option" where
  "ldr_run g link [] s = Some s"
| "ldr_run g link (t # ts) s = (case ldr_loop g link t s of None \<Rightarrow> None | Some s' \<Rightarrow> ldr_run g link ts s')"


lemma turn_exact:
  assumes "unat t + unat (remain_ms s) < 2 ^ 32"
  shows "unat (turn_ms t s) = (unat t + unat (remain_ms s)) div 168000"
    and "ldr_loop g link t s = Some s' \<Longrightarrow> unat (remain_ms s') = (unat t + unat (remain_ms s)) mod 168000"
proof -
  have u: "unat (t + remain_ms s) = unat t + unat (remain_ms s)" using assms by (simp add: unat_plus_if')
  show "unat (turn_ms t s) = (unat t + unat (remain_ms s)) div 168000"
    by (simp add: turn_ms_def unat_div_distrib u)
  show "unat (remain_ms s') = (unat t + unat (remain_ms s)) mod 168000" if "ldr_loop g link t s = Some s'"
    using that by (auto simp: ldr_loop_def Let_def unat_mod_distrib u split: if_splits)
qed

lemma ldr_run_delay:
  assumes "ldr_run g link ts s = Some s'" "\<forall>t \<in> set ts. unat t < 4000000000" "unat (remain_ms s) < 168000"
  shows "unat (boot_delay s') = unat (boot_delay s) - (sum_list (map unat ts) + unat (remain_ms s)) div 168000
    \<and> g_stay_in_boot s' = g_stay_in_boot s"
  using assms
proof (induction ts arbitrary: s)
  case Nil
  then show ?case by simp
next
  case (Cons t ts)
  let ?T = "unat t + unat (remain_ms s)" and ?S = "sum_list (map unat ts)"
  obtain s1 where s1: "ldr_loop g link t s = Some s1" "ldr_run g link ts s1 = Some s'"
    using Cons.prems(1) by (auto split: option.splits)
  have b: "?T < 2 ^ 32" using Cons.prems(2,3) by simp
  note e = turn_exact(1) [OF b] turn_exact(2) [OF b s1(1)]
  have d: "unat (boot_delay s1) = unat (boot_delay s) - ?T div 168000" "g_stay_in_boot s1 = g_stay_in_boot s"
    using ldr_loop_Some [OF s1(1)] e(1) by (auto simp: unat_sub word_le_nat_alt)
  have r: "unat (remain_ms s1) < 168000" using e(2) by simp
  have "?T div 168000 + (?S + ?T mod 168000) div 168000 = (?S + ?T) div 168000"
  proof -
    have "?S + ?T = ?S + ?T mod 168000 + 168000 * (?T div 168000)" by simp
    then show ?thesis by (metis add.commute div_mult_self2 zero_neq_numeral)
  qed
  moreover have "unat (boot_delay s') = unat (boot_delay s) - ?T div 168000 - (?S + ?T mod 168000) div 168000
      \<and> g_stay_in_boot s' = g_stay_in_boot s"
    using Cons.IH [OF s1(2) _ r] Cons.prems(2) d e(2) by simp
  ultimately show ?case by (simp only: diff_diff_left) (simp add: ac_simps)
qed

lemma ldr_run_append_None: "ldr_run g link ts s = None \<Longrightarrow> ldr_run g link (ts @ us) s = None"
  by (induction ts arbitrary: s) (auto split: option.splits)

lemma ldr_run_append_Some: "ldr_run g link ts s = Some s' \<Longrightarrow> ldr_run g link (ts @ us) s = ldr_run g link us s'"
  by (induction ts arbitrary: s) (auto split: option.splits)

section \<open>An example board\<close>

definition ex_info :: fw_info where
  "ex_info = \<lparr>locked = LOCK_NONE, fw_addr = 0, fw_len = 0, fields_count = 0, field_product_ptr = 0,
     field_product_len = 0, field_product_name_ptr = 0, field_product_name_len = 0,
     ver_major = 0, ver_minor = 0, ver_patch = 0\<rparr>"

definition ex_g :: g_fw_info where
  "ex_g = \<lparr>FW_PRELDR = ex_info, FW_LDR = ex_info, FW_APP = ex_info\<rparr>"

definition ex_board :: board where
  "ex_board = \<lparr>brd_cpu = In_Preldr, brd_regs = \<lparr>BKP0R = 0x55, BKP2R = 0, BKP3R = 0\<rparr>, brd_mem = ex_mem, brd_info = ex_g\<rparr>"

definition ex_name :: u32 where
  "ex_name = field_product_name_ptr (fw_check_at sw_crc32_word ex_mem APP_START ex_info)"

lemma ex_app_checked: "locked (fw_check_at sw_crc32_word ex_mem APP_START ex_info) = LOCK_NONE"
  "cstr_at ex_mem ex_name (ascii ''sh_gw_app'')"
  using ex_image.region_checked [OF refl, of ex_info]
  by (simp_all add: fw_check_at_def ex_name_def) (simp_all add: ex_kvs_def ascii_def)

lemma ex_mem_blank: "x < 0x08020000 \<Longrightarrow> ex_mem x = 0xFF"
  unfolding ex_mem_def
proof (subst mem_write_other)
  fix i assume x: "x < 0x08020000" and i: "i < length ex_out"
  have "unat ((0x08020000 :: u32) + of_nat i) = 0x08020000 + i"
    using i unat_add_of_nat [of "0x08020000" i] by (simp add: length_ex_out)
  with x show "x \<noteq> 0x08020000 + of_nat i" by (auto simp: word_less_nat_alt)
qed simp

lemma ex_preldr_locked: "locked (fw_check_at sw_crc32_word ex_mem PRELDR_START ex_info) = LOCK_BY_ADDR"
proof -
  have "mem_bytes ex_mem 0x08000190 4 = [0xFF, 0xFF, 0xFF, 0xFF]"
    by (simp add: eval_nat_numeral mem_bytes_Suc) (simp add: ex_mem_blank)
  then have "fw_size (hdr_at ex_mem (PRELDR_START + HEADER_OFFSET)) = 0xFFFFFFFF"
    by (simp add: hdr_at_def word32_of_def)
  then show ?thesis
    by (simp add: fw_check_at_def fw_header_check_region_def fw_check_image_def Let_def ex_info_def flash_check_range_def)
qed

lemma ex_all_app: "locked (FW_APP (fw_header_check_all sw_crc32_word ex_mem ln ex_name ex_g)) = LOCK_NONE"
proof -
  have "str_compare_equal_safe_two_arg ex_mem ex_name ex_name"
    using str_compare_two_cstr [OF ex_app_checked(2) ex_app_checked(2)] by (simp add: ascii_def)
  then show ?thesis
    using ex_app_checked(1) ex_preldr_locked
    by (simp add: fw_header_check_all_def Let_def ex_g_def lock_mismatch_def lock_name_def ex_name_def [symmetric])
qed

lemma ex_boot_step:
  "boot_step sw_crc32_word ln ex_name ex_g ex_board (ex_board\<lparr>brd_cpu := In_App,
     brd_regs := app_init 0 \<lparr>BKP0R = 0, BKP2R = 0, BKP3R = 0\<rparr>,
     brd_info := fw_header_check_all sw_crc32_word ex_mem ln ex_name ex_g\<rparr>)"
proof -
  have "preldr_main (fw_header_check_all sw_crc32_word (brd_mem ex_board) ln ex_name ex_g) (brd_regs ex_board) =
      (Some APP_START, \<lparr>BKP0R = 0, BKP2R = 0, BKP3R = 0\<rparr>)"
    using ex_all_app by (simp add: ex_board_def preldr_main_def Let_def ret_mem_get_load_src_def
        ret_mem_set_load_src_def load_src_code_def)
  from preldr_app [OF _ this] show ?thesis by (simp add: ex_board_def)
qed

section \<open>Properties\<close>

text \<open>C4: control reaches the application only through the first-stage loader and only when, in the
  flash as it is at that moment, the application's image lies inside the flash, is longer than its
  header, has the CRC its header states and at least one field, bears the expected product name and,
  when the first-stage loader has a valid header itself, the same product.\<close>

lemma boot_runs_only_good_app:
  assumes "boot_step dr ln an g0 b b'" "brd_cpu b' = In_App" "brd_cpu b \<noteq> In_App"
  shows "brd_cpu b = In_Preldr \<and> image_good dr (brd_mem b') APP_START
    \<and> str_compare_equal_safe_two_arg (brd_mem b') an (field_product_name_ptr (FW_APP (brd_info b')))
    \<and> (locked (FW_PRELDR (brd_info b')) = LOCK_NONE \<longrightarrow> str_compare_equal_safe_two_arg (brd_mem b')
         (field_product_ptr (FW_PRELDR (brd_info b'))) (field_product_ptr (FW_APP (brd_info b'))))"
proof -
  have l: "locked (FW_APP (fw_header_check_all dr (brd_mem b) ln an g0)) = LOCK_NONE"
    using boot_step_app [OF assms] by metis
  show ?thesis using boot_step_app [OF assms] check_all_app [OF l] by metis
qed

lemma boot_runs_only_good_app_witness: "image_good sw_crc32_word ex_mem APP_START"
  using boot_runs_only_good_app [OF ex_boot_step] by (simp add: ex_board_def)

text \<open>C33: the loader hands over: with a good application and nothing asking it to stay, once its loop
  has counted 5000 ms it resets, and the first-stage loader then runs the application.\<close>

lemma ldr_hands_over:
  assumes "locked (FW_APP g) = LOCK_NONE" "\<forall>t \<in> set ts. unat t < 4000000000"
    and "5000 * 168000 \<le> sum_list (map unat ts)"
  shows "ldr_run g link (ts @ [t]) ldr_start = None
    \<and> fst (preldr_main g (ldr_init rst_cause regs)) = Some APP_START"
proof -
  have p: "fst (preldr_main g (ldr_init rst_cause regs)) = Some APP_START"
    using assms(1) by (simp add: preldr_main_def Let_def ldr_init_def ret_mem_get_load_src_def ret_mem_set_load_src_def)
  have "ldr_run g link (ts @ [t]) ldr_start = None"
  proof (cases "ldr_run g link ts ldr_start")
    case None
    then show ?thesis by (rule ldr_run_append_None)
  next
    case (Some s)
    have "5000 \<le> sum_list (map unat ts) div 168000" using div_le_mono [OF assms(3), of 168000] by simp
    with ldr_run_delay [OF Some assms(2)] have "boot_delay s = 0" "\<not> g_stay_in_boot s"
      by (simp_all add: ldr_start_def unat_eq_0 [symmetric])
    then have "ldr_loop g link t s = None" using assms(1) by (simp add: ldr_loop_None)
    then show ?thesis using ldr_run_append_Some [OF Some] by simp
  qed
  with p show ?thesis by blast
qed

lemma ldr_hands_over_witness:
  "ldr_run ex_g True (replicate 5 200000000 @ [1]) ldr_start = None"
proof -
  have l: "locked (FW_APP ex_g) = LOCK_NONE" by (simp add: ex_g_def ex_info_def)
  have s: "\<forall>t \<in> set (replicate 5 (200000000 :: u32)). unat t < 4000000000"
    "5000 * 168000 \<le> sum_list (map unat (replicate 5 (200000000 :: u32)))" by (simp_all add: sum_list_replicate)
  show ?thesis by (rule ldr_hands_over [OF l s, THEN conjunct1])
qed

text \<open>With a request to stay in boot, or without a good application, the loader's loop never
  resets, whatever times are measured.\<close>

lemma ldr_stays:
  assumes "g_stay_in_boot s \<or> locked (FW_APP g) \<noteq> LOCK_NONE"
  shows "\<exists>s'. ldr_run g link ts s = Some s' \<and> g_stay_in_boot s' = g_stay_in_boot s"
  using assms
proof (induction ts arbitrary: s)
  case (Cons t ts)
  then obtain s1 where s1: "ldr_loop g link t s = Some s1" using ldr_loop_None [of g link t s] by fastforce
  then have "g_stay_in_boot s1 = g_stay_in_boot s" using ldr_loop_Some [OF s1] by simp
  with Cons.IH [of s1] Cons.prems s1 show ?case by simp
qed simp

lemma ldr_stays_witness:
  "\<exists>s'. ldr_run ex_g True [0, 1000000000] (ldr_start\<lparr>g_stay_in_boot := True\<rparr>) = Some s' \<and> g_stay_in_boot s' = True"
  using ldr_stays [of "ldr_start\<lparr>g_stay_in_boot := True\<rparr>" ex_g True "[0, 1000000000]"] by simp

end
