(* ===== verification/Can_Driver.thy ===== *)
theory Can_Driver
  imports Gw_Prelude
begin

text \<open>
  The CAN side below CANopenNode: the register driver of the bxCAN peripheral
  (common/canopendriver/can_driver.c) and the CANopenNode driver on top of it
  (common/canopendriver/CO_driver_target.c): receive matching, the software transmit buffers, and
  the error status.

  The peripheral is a record of its registers.  What it makes of them by itself (flags that are
  cleared by writing one, mailboxes that empty) is the parameter \<open>hw\<close>, applied where the driver has
  finished a group of writes and inside its waiting loops.
\<close>

section \<open>Registers\<close>

record can_msg =
  msg_id :: u32
  msg_IDE :: bool
  msg_RTR :: bool
  msg_DLC :: u8
  msg_data :: bytes

record tx_mailbox = TIR :: u32  TDTR :: u32  TDLR :: u32  TDHR :: u32
record rx_mailbox = RIR :: u32  RDTR :: u32  RDLR :: u32  RDHR :: u32

record can_dev =
  MCR :: u32  MSR :: u32  TSR :: u32  RF0R :: u32  IER :: u32  ESR :: u32  BTR :: u32
  FMR :: u32  FM1R :: u32  FS1R :: u32  FFA1R :: u32  FA1R :: u32
  sTxMailBox :: "tx_mailbox list"
  sFIFOMailBox :: rx_mailbox
  sFilterRegister :: "(u32 \<times> u32) list"

abbreviation CAN_FILT_NUM :: nat where "CAN_FILT_NUM \<equiv> 28"
abbreviation F_OSC_CAN :: int where "F_OSC_CAN \<equiv> 42000000"

abbreviation CAN_MCR_INRQ :: u32 where "CAN_MCR_INRQ \<equiv> 0x1"
abbreviation CAN_MCR_SLEEP :: u32 where "CAN_MCR_SLEEP \<equiv> 0x2"
abbreviation CAN_MCR_TXFP :: u32 where "CAN_MCR_TXFP \<equiv> 0x4"
abbreviation CAN_MCR_NART :: u32 where "CAN_MCR_NART \<equiv> 0x10"
abbreviation CAN_MCR_AWUM :: u32 where "CAN_MCR_AWUM \<equiv> 0x20"
abbreviation CAN_MCR_ABOM :: u32 where "CAN_MCR_ABOM \<equiv> 0x40"
abbreviation CAN_MCR_RESET :: u32 where "CAN_MCR_RESET \<equiv> 0x8000"
abbreviation CAN_MSR_INAK :: u32 where "CAN_MSR_INAK \<equiv> 0x1"
abbreviation CAN_TSR_TME0 :: u32 where "CAN_TSR_TME0 \<equiv> 0x4000000"
abbreviation CAN_TSR_TME1 :: u32 where "CAN_TSR_TME1 \<equiv> 0x8000000"
abbreviation CAN_TSR_TME2 :: u32 where "CAN_TSR_TME2 \<equiv> 0x10000000"
abbreviation CAN_TSR_TME :: u32 where "CAN_TSR_TME \<equiv> 0x1C000000"
abbreviation CAN_TSR_ABRQ :: u32 where "CAN_TSR_ABRQ \<equiv> 0x808080"
abbreviation CAN_TI0R_TXRQ :: u32 where "CAN_TI0R_TXRQ \<equiv> 0x1"
abbreviation CAN_TI0R_RTR :: u32 where "CAN_TI0R_RTR \<equiv> 0x2"
abbreviation CAN_RI0R_RTR :: u32 where "CAN_RI0R_RTR \<equiv> 0x2"
abbreviation CAN_RI0R_IDE :: u32 where "CAN_RI0R_IDE \<equiv> 0x4"
abbreviation CAN_RF0R_FMP0 :: u32 where "CAN_RF0R_FMP0 \<equiv> 0x3"
abbreviation CAN_RF0R_FOVR0 :: u32 where "CAN_RF0R_FOVR0 \<equiv> 0x10"
abbreviation CAN_RF0R_RFOM0 :: u32 where "CAN_RF0R_RFOM0 \<equiv> 0x20"
abbreviation CAN_ESR_BOFF :: u32 where "CAN_ESR_BOFF \<equiv> 0x4"

section \<open>The register driver\<close>

text \<open>\<open>while(busy) ;\<close>: the peripheral runs while the driver waits; \<open>None\<close> when it waits for ever.\<close>

partial_function (option) wait_while :: "(can_dev \<Rightarrow> can_dev) \<Rightarrow> (can_dev \<Rightarrow> bool) \<Rightarrow> can_dev \<Rightarrow> can_dev option" where
  "wait_while hw busy dev = (if busy dev then wait_while hw busy (hw dev) else Some dev)"

definition can_drv_leave_init_mode :: "(can_dev \<Rightarrow> can_dev) \<Rightarrow> can_dev \<Rightarrow> can_dev option" where
  "can_drv_leave_init_mode hw dev =
    (let reg = BTR dev AND NOT 0x80000000 AND NOT 0x40000000;
         dev1 = dev\<lparr>BTR := reg, MCR := MCR dev AND NOT CAN_MCR_INRQ\<rparr>
     in wait_while hw (\<lambda>d. MSR d AND CAN_MSR_INAK \<noteq> 0) dev1)"

definition can_drv_enter_init_mode :: "(can_dev \<Rightarrow> can_dev) \<Rightarrow> can_dev \<Rightarrow> can_dev option" where
  "can_drv_enter_init_mode hw dev =
    wait_while hw (\<lambda>d. MSR d AND CAN_MSR_INAK = 0) (dev\<lparr>MCR := MCR dev OR CAN_MCR_INRQ\<rparr>)"

definition can_drv_start :: "can_dev \<Rightarrow> can_dev" where
  "can_drv_start dev = dev\<lparr>
     IER := IER dev OR 0x800 OR 0x400 OR 0x200 OR 0x100,
     MCR := (((((MCR dev AND NOT CAN_MCR_NART) OR CAN_MCR_ABOM) OR CAN_MCR_AWUM) OR CAN_MCR_TXFP) AND NOT CAN_MCR_SLEEP),
     FMR := (FMR dev OR 1) AND NOT 1,
     FA1R := 0, FM1R := 0, FS1R := 0x0FFFFFFF, FFA1R := 0,
     sFilterRegister := replicate CAN_FILT_NUM (0, 0)\<rparr>"

text \<open>
  The search for the prescaler.  \<open>div\<close> is C's division here: \<open>F_OSC_CAN\<close> and \<open>brp\<close> are positive, a
  negative bit rate makes \<open>tqs\<close> negative either way, and for zero the Cortex-M4 gives zero as HOL does.
\<close>

definition brp_fits :: "int \<Rightarrow> int \<Rightarrow> bool" where
  "brp_fits bit_rate brp \<longleftrightarrow>
    (let tqs = F_OSC_CAN div brp div bit_rate
     in 5 \<le> tqs \<and> tqs \<le> 16 \<and> F_OSC_CAN div brp div tqs = bit_rate)"

function brp_search :: "int \<Rightarrow> int \<Rightarrow> int option" where
  "brp_search bit_rate brp =
    (if brp < 0x400 then if brp_fits bit_rate brp then Some brp else brp_search bit_rate (brp + 1)
     else None)"
  by pat_completeness auto

termination by (relation "measure (\<lambda>(_, brp). nat (0x400 - brp))") auto

declare brp_search.simps [simp del]

text \<open>\<open>tseg1\<close> and \<open>tseg2\<close> from the number of time quanta of a bit.\<close>

definition split_tqs :: "int \<Rightarrow> int \<times> int" where
  "split_tqs tqs =
    (let t = (tqs - 1) div 2;
         tseg1 = (if tqs - (1 + t + t) = 1 then t + 1 else t)
     in if t > 8 then (tseg1 + (t - 8), 8) else (tseg1, t))"

definition can_drv_check_set_bitrate :: "int \<Rightarrow> bool \<Rightarrow> can_dev \<Rightarrow> int \<times> can_dev" where
  "can_drv_check_set_bitrate bit_rate is_set dev =
    (case brp_search bit_rate 1 of
       None \<Rightarrow> (0, dev)
     | Some brp \<Rightarrow>
         (case split_tqs (F_OSC_CAN div brp div bit_rate) of (tseg1, tseg2) \<Rightarrow>
           (bit_rate,
            if is_set
            then dev\<lparr>BTR := (BTR dev AND NOT (0x3FF OR push_bit 16 0x7F))
                     OR (of_int (brp - 1) OR push_bit 16 (of_int (tseg1 - 1)) OR push_bit 20 (of_int (tseg2 - 1)))\<rparr>
            else dev)))"

definition can_drv_reset_module :: "(can_dev \<Rightarrow> can_dev) \<Rightarrow> can_dev \<Rightarrow> can_dev option" where
  "can_drv_reset_module hw dev =
    wait_while hw (\<lambda>d. MCR d AND CAN_MCR_RESET \<noteq> 0) (dev\<lparr>MCR := MCR dev OR CAN_MCR_RESET\<rparr>)"

definition can_drv_set_rx_filter :: "nat \<Rightarrow> u32 \<Rightarrow> u32 \<Rightarrow> can_dev \<Rightarrow> can_dev" where
  "can_drv_set_rx_filter filt ident msk dev = dev\<lparr>
     FMR := (FMR dev OR 1) AND NOT 1,
     FA1R := (FA1R dev AND NOT (push_bit filt 1)) OR push_bit filt 1,
     sFilterRegister := (sFilterRegister dev)[filt := (ident, msk)],
     FM1R := FM1R dev AND NOT (push_bit filt 1),
     FFA1R := FFA1R dev AND NOT (push_bit filt 1)\<rparr>"

definition can_drv_check_rx_overrun :: "(can_dev \<Rightarrow> can_dev) \<Rightarrow> can_dev \<Rightarrow> bool \<times> can_dev" where
  "can_drv_check_rx_overrun hw dev =
    (if RF0R dev AND CAN_RF0R_FOVR0 \<noteq> 0 then (True, hw (dev\<lparr>RF0R := RF0R dev OR CAN_RF0R_FOVR0\<rparr>)) else (False, dev))"

definition can_drv_check_bus_off :: "(can_dev \<Rightarrow> can_dev) \<Rightarrow> can_dev \<Rightarrow> bool \<times> can_dev" where
  "can_drv_check_bus_off hw dev =
    (if ESR dev AND CAN_ESR_BOFF \<noteq> 0 then (True, hw (dev\<lparr>ESR := ESR dev AND NOT CAN_ESR_BOFF\<rparr>)) else (False, dev))"

definition can_drv_is_rx_pending :: "can_dev \<Rightarrow> bool" where
  "can_drv_is_rx_pending dev \<longleftrightarrow> RF0R dev AND CAN_RF0R_FMP0 > 0"

definition can_drv_get_rx_error_counter :: "can_dev \<Rightarrow> u8" where
  "can_drv_get_rx_error_counter dev = ucast (drop_bit 24 (ESR dev AND 0xFF000000))"

definition can_drv_get_tx_error_counter :: "can_dev \<Rightarrow> u8" where
  "can_drv_get_tx_error_counter dev = ucast (drop_bit 16 (ESR dev AND 0x00FF0000))"

definition can_drv_get_rx_filter_index :: "can_dev \<Rightarrow> nat" where
  "can_drv_get_rx_filter_index dev = unat (drop_bit 8 (RDTR (sFIFOMailBox dev)) AND 0xFF)"

definition can_drv_get_rx_ident :: "can_dev \<Rightarrow> u32" where
  "can_drv_get_rx_ident dev = RIR (sFIFOMailBox dev)"

definition can_drv_get_rx_dlc :: "can_dev \<Rightarrow> u8" where
  "can_drv_get_rx_dlc dev = ucast (RDTR (sFIFOMailBox dev) AND 0xFF)"

definition can_drv_get_rx_data :: "can_dev \<Rightarrow> bytes" where
  "can_drv_get_rx_data dev = le32 (RDLR (sFIFOMailBox dev)) @ le32 (RDHR (sFIFOMailBox dev))"

definition can_drv_release_rx_message :: "(can_dev \<Rightarrow> can_dev) \<Rightarrow> can_dev \<Rightarrow> can_dev" where
  "can_drv_release_rx_message hw dev = hw (dev\<lparr>RF0R := CAN_RF0R_RFOM0\<rparr>)"

definition free_mailbox :: "can_dev \<Rightarrow> nat option" where
  "free_mailbox dev =
    (if TSR dev AND CAN_TSR_TME0 = CAN_TSR_TME0 then Some 0
     else if TSR dev AND CAN_TSR_TME1 = CAN_TSR_TME1 then Some 1
     else if TSR dev AND CAN_TSR_TME2 = CAN_TSR_TME2 then Some 2
     else None)"

text \<open>\<open>can_tx_msg\<close>, a statistics counter, is left out.\<close>

definition can_drv_tx :: "(can_dev \<Rightarrow> can_dev) \<Rightarrow> u32 \<Rightarrow> u8 \<Rightarrow> bytes \<Rightarrow> can_dev \<Rightarrow> bool \<times> can_dev" where
  "can_drv_tx hw ident dlc d dev =
    (case free_mailbox dev of
       None \<Rightarrow> (False, dev)
     | Some txmb \<Rightarrow>
         (let mb = sTxMailBox dev ! txmb;
              mb' = \<lparr>TIR = ident OR CAN_TI0R_TXRQ,
                     TDTR = (TDTR mb AND 0xFFFFFFF0) OR ucast dlc,
                     TDLR = word32_of (d ! 0) (d ! 1) (d ! 2) (d ! 3),
                     TDHR = word32_of (d ! 4) (d ! 5) (d ! 6) (d ! 7)\<rparr>
          in (True, hw (dev\<lparr>sTxMailBox := (sTxMailBox dev)[txmb := mb']\<rparr>))))"

definition can_drv_is_transmitting :: "can_dev \<Rightarrow> bool" where
  "can_drv_is_transmitting dev \<longleftrightarrow> TSR dev AND CAN_TSR_TME \<noteq> CAN_TSR_TME"

definition can_drv_is_message_sent :: "can_dev \<Rightarrow> u32" where
  "can_drv_is_message_sent dev =
    (if TSR dev AND 0x1 \<noteq> 0 then TSR dev AND 0x1
     else if TSR dev AND 0x100 \<noteq> 0 then TSR dev AND 0x100
     else if TSR dev AND 0x10000 \<noteq> 0 then TSR dev AND 0x10000
     else 0)"

definition can_drv_release_tx_message :: "(can_dev \<Rightarrow> can_dev) \<Rightarrow> u32 \<Rightarrow> can_dev \<Rightarrow> can_dev" where
  "can_drv_release_tx_message hw msk dev = hw (dev\<lparr>TSR := TSR dev OR msk\<rparr>)"

definition can_drv_tx_abort :: "(can_dev \<Rightarrow> can_dev) \<Rightarrow> can_dev \<Rightarrow> can_dev option" where
  "can_drv_tx_abort hw dev =
    wait_while hw (\<lambda>d. TSR d AND CAN_TSR_ABRQ \<noteq> 0) (dev\<lparr>TSR := TSR dev OR CAN_TSR_ABRQ\<rparr>)"

section \<open>The CANopenNode driver\<close>

text \<open>Callbacks and their objects are the numbers of the functions and objects CANopenNode registers.\<close>

record co_rx = rx_ident :: u32  rx_mask :: u32  rx_object :: nat  CANrx_callback :: "nat option"
record co_tx = tx_ident :: u32  tx_DLC :: u8  tx_data :: bytes  bufferFull :: bool  syncFlag :: bool

record co_can =
  CANptr :: can_dev
  rxArray :: "co_rx list"
  txArray :: "co_tx list"
  CANerrorStatus :: u16
  CANnormal :: bool
  useCANrxFilters :: bool
  bufferInhibitFlag :: bool
  firstCANtxMessage :: bool
  CANtxCount :: u16
  errOld :: u32
  is_bus_off :: bool
  rx_err_cnt :: u8
  tx_err_cnt :: u8
  bus_off_err_cnt :: u32

abbreviation CO_CAN_ERRTX_WARNING :: u16 where "CO_CAN_ERRTX_WARNING \<equiv> 0x1"
abbreviation CO_CAN_ERRTX_PASSIVE :: u16 where "CO_CAN_ERRTX_PASSIVE \<equiv> 0x2"
abbreviation CO_CAN_ERRTX_BUS_OFF :: u16 where "CO_CAN_ERRTX_BUS_OFF \<equiv> 0x4"
abbreviation CO_CAN_ERRTX_OVERFLOW :: u16 where "CO_CAN_ERRTX_OVERFLOW \<equiv> 0x8"
abbreviation CO_CAN_ERRTX_PDO_LATE :: u16 where "CO_CAN_ERRTX_PDO_LATE \<equiv> 0x80"
abbreviation CO_CAN_ERRRX_WARNING :: u16 where "CO_CAN_ERRRX_WARNING \<equiv> 0x100"
abbreviation CO_CAN_ERRRX_PASSIVE :: u16 where "CO_CAN_ERRRX_PASSIVE \<equiv> 0x200"
abbreviation CO_CAN_ERRRX_OVERFLOW :: u16 where "CO_CAN_ERRRX_OVERFLOW \<equiv> 0x800"

datatype co_error = CO_ERROR_NO | CO_ERROR_ILLEGAL_ARGUMENT | CO_ERROR_ILLEGAL_BAUDRATE | CO_ERROR_TX_OVERFLOW

definition CO_CANsetNormalMode :: "(can_dev \<Rightarrow> can_dev) \<Rightarrow> co_can \<Rightarrow> co_can option" where
  "CO_CANsetNormalMode hw m =
    map_option (\<lambda>dev. m\<lparr>CANptr := dev, CANnormal := True\<rparr>) (can_drv_leave_init_mode hw (CANptr m))"

definition rx_idle :: "co_rx \<Rightarrow> co_rx" where
  "rx_idle r = r\<lparr>rx_ident := 0, rx_mask := 0xFFFF, rx_object := 0, CANrx_callback := None\<rparr>"

text \<open>The arrays are \<open>None\<close> for NULL.  The result is \<open>None\<close> when the peripheral never acknowledges.\<close>

definition CO_CANmodule_init :: "(can_dev \<Rightarrow> can_dev) \<Rightarrow> can_dev \<Rightarrow> co_rx list option \<Rightarrow> co_tx list option \<Rightarrow> u16
    \<Rightarrow> co_can \<Rightarrow> (co_error \<times> co_can) option" where
  "CO_CANmodule_init hw dev rx_arr tx_arr can_bitrate m =
    (case (rx_arr, tx_arr) of
       (Some rx, Some tx) \<Rightarrow>
         (let m1 = m\<lparr>rxArray := map rx_idle rx, txArray := map (\<lambda>b. b\<lparr>bufferFull := False\<rparr>) tx,
                     CANerrorStatus := 0, CANnormal := False, useCANrxFilters := False,
                     bufferInhibitFlag := False, firstCANtxMessage := True, CANtxCount := 0, errOld := 0\<rparr>
          in case can_drv_enter_init_mode hw (can_drv_start dev) of
               None \<Rightarrow> None
             | Some dev1 \<Rightarrow>
                 if can_bitrate < 10 \<or> can_bitrate > 1000 then Some (CO_ERROR_ILLEGAL_ARGUMENT, m1\<lparr>CANptr := dev1\<rparr>)
                 else (case can_drv_check_set_bitrate (uint can_bitrate * 1000) True dev1 of (res, dev2) \<Rightarrow>
                   if res \<noteq> uint can_bitrate * 1000 then Some (CO_ERROR_ILLEGAL_BAUDRATE, m1\<lparr>CANptr := dev2\<rparr>)
                   else Some (CO_ERROR_NO, m1\<lparr>CANptr := can_drv_set_rx_filter 0 0 0 dev2\<rparr>)))
     | _ \<Rightarrow> Some (CO_ERROR_ILLEGAL_ARGUMENT, m))"

definition CO_CANmodule_disable :: "(can_dev \<Rightarrow> can_dev) \<Rightarrow> co_can \<Rightarrow> co_can option" where
  "CO_CANmodule_disable hw m = map_option (\<lambda>dev. m\<lparr>CANptr := dev\<rparr>) (can_drv_reset_module hw (CANptr m))"

text \<open>The driver is initialised without hardware filters, so the branch that sets one is not reached; it is modelled all the same.\<close>

definition CO_CANrxBufferInit :: "nat \<Rightarrow> u16 \<Rightarrow> u16 \<Rightarrow> bool \<Rightarrow> nat option \<Rightarrow> nat option \<Rightarrow> co_can \<Rightarrow> co_error \<times> co_can" where
  "CO_CANrxBufferInit index ident msk rtr object callback m =
    (case object of
       Some obj \<Rightarrow>
         if callback \<noteq> None \<and> index < length (rxArray m)
         then (let idt = push_bit 21 (ucast (ident AND 0x7FF)) OR (if rtr then CAN_RI0R_RTR else 0);
                   mk = push_bit 21 (ucast (msk AND 0x7FF)) OR CAN_RI0R_RTR OR CAN_RI0R_IDE
               in (CO_ERROR_NO,
                   m\<lparr>rxArray := (rxArray m)[index := \<lparr>rx_ident = idt, rx_mask = mk, rx_object = obj, CANrx_callback = callback\<rparr>],
                     CANptr := (if useCANrxFilters m then can_drv_set_rx_filter index idt mk (CANptr m) else CANptr m)\<rparr>))
         else (CO_ERROR_ILLEGAL_ARGUMENT, m)
     | None \<Rightarrow> (CO_ERROR_ILLEGAL_ARGUMENT, m))"

text \<open>The result is the index of the buffer, or \<open>None\<close> for NULL.\<close>

definition CO_CANtxBufferInit :: "nat \<Rightarrow> u16 \<Rightarrow> bool \<Rightarrow> u8 \<Rightarrow> bool \<Rightarrow> co_can \<Rightarrow> nat option \<times> co_can" where
  "CO_CANtxBufferInit index ident rtr noOfBytes sync_flag m =
    (if index < length (txArray m)
     then (Some index, m\<lparr>txArray := (txArray m)[index := (txArray m ! index)
            \<lparr>tx_ident := push_bit 21 (ucast (ident AND 0x7FF)) OR (if rtr then CAN_TI0R_RTR else 0),
             tx_DLC := noOfBytes AND 0xF, bufferFull := False, syncFlag := sync_flag\<rparr>]\<rparr>)
     else (None, m))"

definition CO_CANsend :: "(can_dev \<Rightarrow> can_dev) \<Rightarrow> nat \<Rightarrow> co_can \<Rightarrow> co_error \<times> co_can" where
  "CO_CANsend hw i m =
    (let buffer = txArray m ! i;
         m1 = (if bufferFull buffer \<and> \<not> firstCANtxMessage m
               then m\<lparr>CANerrorStatus := CANerrorStatus m OR CO_CAN_ERRTX_OVERFLOW\<rparr> else m);
         err = (if bufferFull buffer then CO_ERROR_TX_OVERFLOW else CO_ERROR_NO)
     in case can_drv_tx hw (tx_ident buffer) (tx_DLC buffer) (tx_data buffer) (CANptr m1) of (sent, dev) \<Rightarrow>
          if sent \<and> CANtxCount m1 = 0
          then (err, m1\<lparr>CANptr := dev, bufferInhibitFlag := syncFlag buffer\<rparr>)
          else (err, m1\<lparr>CANptr := dev, txArray := (txArray m1)[i := buffer\<lparr>bufferFull := True\<rparr>],
                        CANtxCount := CANtxCount m1 + 1\<rparr>))"

text \<open>The scan of the transmit buffers for pending synchronous messages.\<close>

fun clear_sync :: "co_tx list \<Rightarrow> u16 \<Rightarrow> bool \<Rightarrow> co_tx list \<times> u16 \<times> bool" where
  "clear_sync [] cnt del = ([], cnt, del)"
| "clear_sync (b # bs) cnt del =
    (if bufferFull b \<and> syncFlag b
     then case clear_sync bs (cnt - 1) True of (bs', r) \<Rightarrow> (b\<lparr>bufferFull := False\<rparr> # bs', r)
     else case clear_sync bs cnt del of (bs', r) \<Rightarrow> (b # bs', r))"

definition CO_CANclearPendingSyncPDOs :: "(can_dev \<Rightarrow> can_dev) \<Rightarrow> co_can \<Rightarrow> co_can option" where
  "CO_CANclearPendingSyncPDOs hw m =
    (let aborts = can_drv_is_transmitting (CANptr m) \<and> bufferInhibitFlag m
     in case (if aborts then can_drv_tx_abort hw (CANptr m) else Some (CANptr m)) of
          None \<Rightarrow> None
        | Some dev \<Rightarrow>
            (let m1 = m\<lparr>CANptr := dev, bufferInhibitFlag := (if aborts then False else bufferInhibitFlag m)\<rparr>;
                 (tx, cnt, del) = (if CANtxCount m1 \<noteq> 0 then clear_sync (txArray m1) (CANtxCount m1) aborts
                                   else (txArray m1, CANtxCount m1, aborts));
                 m2 = m1\<lparr>txArray := tx, CANtxCount := cnt\<rparr>
             in Some (if del then m2\<lparr>CANerrorStatus := CANerrorStatus m2 OR CO_CAN_ERRTX_PDO_LATE\<rparr> else m2)))"

text \<open>The error status computed from the counters; \<open>rx\<close> and \<open>tx\<close> are the error counters.\<close>

definition can_status :: "u16 \<Rightarrow> u8 \<Rightarrow> u8 \<Rightarrow> bool \<Rightarrow> u16" where
  "can_status old rx tx bus_off =
    (let s1 = (if tx = 0xFF then old OR CO_CAN_ERRTX_BUS_OFF
               else let s = old AND (0xFFFF XOR (CO_CAN_ERRTX_BUS_OFF OR CO_CAN_ERRRX_WARNING OR CO_CAN_ERRRX_PASSIVE
                              OR CO_CAN_ERRTX_WARNING OR CO_CAN_ERRTX_PASSIVE));
                        s' = (if rx \<ge> 128 then s OR (CO_CAN_ERRRX_WARNING OR CO_CAN_ERRRX_PASSIVE)
                              else if rx \<ge> 96 then s OR CO_CAN_ERRRX_WARNING else s);
                        s'' = (if tx \<ge> 128 then s' OR (CO_CAN_ERRTX_WARNING OR CO_CAN_ERRTX_PASSIVE)
                               else if rx \<ge> 96 then s' OR CO_CAN_ERRTX_WARNING else s')
                    in if s'' AND CO_CAN_ERRTX_PASSIVE = 0 then s'' AND (0xFFFF XOR CO_CAN_ERRTX_OVERFLOW) else s'')
     in if bus_off then s1 OR CO_CAN_ERRRX_OVERFLOW else s1)"

definition CO_CANmodule_process :: "(can_dev \<Rightarrow> can_dev) \<Rightarrow> co_can \<Rightarrow> co_can" where
  "CO_CANmodule_process hw m =
    (case can_drv_check_bus_off hw (CANptr m) of (off, dev) \<Rightarrow>
      (let rx = can_drv_get_rx_error_counter dev;
           tx = can_drv_get_tx_error_counter dev;
           m1 = m\<lparr>CANptr := dev, is_bus_off := off, rx_err_cnt := rx, tx_err_cnt := tx,
                  bus_off_err_cnt := (if off then bus_off_err_cnt m + 1 else bus_off_err_cnt m)\<rparr>;
           err = push_bit 16 (ucast tx) OR push_bit 8 (ucast rx) OR (if off then 1 else 0)
       in if errOld m1 \<noteq> err
          then m1\<lparr>errOld := err, CANerrorStatus := can_status (CANerrorStatus m1) rx tx off\<rparr>
          else m1))"

subsection \<open>The interrupt\<close>

text \<open>What the interrupt calls: \<open>can_drv_rxed\<close>, and the callback of the matching receive buffer.\<close>

datatype can_event = Rxed can_msg | Callback nat nat u32 u8 bytes

definition rx_matches :: "u32 \<Rightarrow> co_rx \<Rightarrow> bool" where
  "rx_matches ident r \<longleftrightarrow> (ident XOR rx_ident r) AND rx_mask r = 0"

text \<open>The search from \<open>rxSize - 1\<close> down to 0: \<open>n\<close> is the number of buffers left.\<close>

fun find_match :: "co_rx list \<Rightarrow> u32 \<Rightarrow> nat \<Rightarrow> nat option" where
  "find_match arr ident 0 = None"
| "find_match arr ident (Suc n) = (if rx_matches ident (arr ! n) then Some n else find_match arr ident n)"

definition can_rx_msg :: "can_dev \<Rightarrow> can_msg" where
  "can_rx_msg dev =
    (let rir = can_drv_get_rx_ident dev; ide = (rir AND 4 \<noteq> 0)
     in \<lparr>msg_id = (if ide then drop_bit 3 rir else drop_bit 21 rir), msg_IDE = ide, msg_RTR = (rir AND 2 \<noteq> 0),
         msg_DLC = can_drv_get_rx_dlc dev AND 0x3F, msg_data = can_drv_get_rx_data dev\<rparr>)"

definition can_interrupt_rx :: "(can_dev \<Rightarrow> can_dev) \<Rightarrow> co_can \<Rightarrow> co_can \<times> can_event list" where
  "can_interrupt_rx hw m =
    (case can_drv_check_rx_overrun hw (CANptr m) of (overrun, dev) \<Rightarrow>
      if overrun then (m\<lparr>CANptr := dev\<rparr>, [])
      else let ident = can_drv_get_rx_ident dev;
               index = can_drv_get_rx_filter_index dev;
               found = (if useCANrxFilters m
                        then if index < length (rxArray m) \<and> rx_matches ident (rxArray m ! index) then Some index else None
                        else find_match (rxArray m) ident (length (rxArray m)));
               calls = (case found of None \<Rightarrow> [] | Some i \<Rightarrow>
                         (case CANrx_callback (rxArray m ! i) of None \<Rightarrow> []
                          | Some cb \<Rightarrow> [Callback cb (rx_object (rxArray m ! i)) ident (can_drv_get_rx_dlc dev) (can_drv_get_rx_data dev)]))
           in (m\<lparr>CANptr := can_drv_release_rx_message hw dev\<rparr>, Rxed (can_rx_msg dev) # calls))"

fun take_full :: "co_tx list \<Rightarrow> (co_tx \<times> co_tx list) option" where
  "take_full [] = None"
| "take_full (b # bs) =
    (if bufferFull b then Some (b, b\<lparr>bufferFull := False\<rparr> # bs)
     else map_option (\<lambda>(x, bs'). (x, b # bs')) (take_full bs))"

definition can_interrupt_tx :: "(can_dev \<Rightarrow> can_dev) \<Rightarrow> u32 \<Rightarrow> co_can \<Rightarrow> co_can" where
  "can_interrupt_tx hw txMask m =
    (let m1 = m\<lparr>CANptr := can_drv_release_tx_message hw txMask (CANptr m), firstCANtxMessage := False,
                bufferInhibitFlag := False\<rparr>
     in if CANtxCount m1 > 0
        then (case take_full (txArray m1) of
                None \<Rightarrow> m1\<lparr>CANtxCount := 0\<rparr>
              | Some (b, tx) \<Rightarrow>
                  m1\<lparr>txArray := tx, CANtxCount := CANtxCount m1 - 1, bufferInhibitFlag := syncFlag b,
                     CANptr := snd (can_drv_tx hw (tx_ident b) (tx_DLC b) (tx_data b) (CANptr m1))\<rparr>)
        else m1)"

definition CO_CANinterrupt :: "(can_dev \<Rightarrow> can_dev) \<Rightarrow> co_can \<Rightarrow> co_can \<times> can_event list" where
  "CO_CANinterrupt hw m =
    (if can_drv_is_rx_pending (CANptr m) then can_interrupt_rx hw m
     else let txMask = can_drv_is_message_sent (CANptr m)
          in if txMask \<noteq> 0 then (can_interrupt_tx hw txMask m, []) else (m, []))"

section \<open>Bit rate\<close>

lemma brp_search_Some: "brp_search br b = Some brp \<Longrightarrow> b \<le> brp \<and> brp < 1024 \<and> brp_fits br brp"
proof (induction br b rule: brp_search.induct)
  case (1 br b)
  then show ?case by (subst (asm) (2) brp_search.simps) (auto split: if_splits)
qed

lemma brp_search_None: "brp_search br b = None \<Longrightarrow> b \<le> brp \<Longrightarrow> brp < 1024 \<Longrightarrow> \<not> brp_fits br brp"
proof (induction br b rule: brp_search.induct)
  case (1 br b)
  from "1.prems"(1) have n: "b < 1024 \<Longrightarrow> \<not> brp_fits br b \<and> brp_search br (b + 1) = None"
    by (subst (asm) brp_search.simps) (auto split: if_splits)
  show ?case
  proof (cases "brp = b")
    case False
    with "1.prems" n show ?thesis by (intro "1.IH") auto
  qed (use n "1.prems" in auto)
qed

lemma split_tqs_sum:
  assumes "5 \<le> tqs" "tqs \<le> 16" "split_tqs tqs = (t1, t2)"
  shows "1 + t1 + t2 = tqs \<and> 1 \<le> t1 \<and> t1 \<le> 16 \<and> 1 \<le> t2 \<and> t2 \<le> 8"
proof -
  have "(tqs - 1) div 2 \<le> 7" using assms(2) by linarith
  with assms show ?thesis by (auto simp: split_tqs_def Let_def split: if_splits)
qed

lemma btr_fields:
  fixes b x y reg :: u32
  assumes "b AND mask 10 = b" "x AND mask 4 = x" "y AND mask 3 = y"
    and "r = (reg AND NOT (0x3FF OR push_bit 16 0x7F)) OR (b OR push_bit 16 x OR push_bit 20 y)"
  shows "r AND mask 10 = b" "drop_bit 16 r AND mask 4 = x" "drop_bit 20 r AND mask 3 = y"
    "r AND NOT 0x7F03FF = reg AND NOT 0x7F03FF"
proof -
  have m: "(0x3FF :: u32) = mask 10" "(0x7F :: u32) = mask 7" "(0x7F03FF :: u32) = mask 10 OR push_bit 16 (mask 7)"
    by (simp_all add: mask_eq_exp_minus_1 push_bit_eq_mult)
  have b: "bit b n \<Longrightarrow> n < 10" for n using assms(1) by (metis bit_and_iff bit_mask_iff)
  have x: "bit x n \<Longrightarrow> n < 4" for n using assms(2) by (metis bit_and_iff bit_mask_iff)
  have y: "bit y n \<Longrightarrow> n < 3" for n using assms(3) by (metis bit_and_iff bit_mask_iff)
  show "r AND mask 10 = b"
    by (rule bit_word_eqI) (auto simp: assms(4) m bit_simps dest: b x y)
  show "drop_bit 16 r AND mask 4 = x"
    by (rule bit_word_eqI) (auto simp: assms(4) m bit_simps dest: b x y)
  show "drop_bit 20 r AND mask 3 = y"
    by (rule bit_word_eqI) (auto simp: assms(4) m bit_simps dest: b x y)
  show "r AND NOT 0x7F03FF = reg AND NOT 0x7F03FF"
    by (rule bit_word_eqI) (auto simp: assms(4) m bit_simps dest: b x y)
qed

lemma of_int_mask: "0 \<le> b \<Longrightarrow> b < 2 ^ n \<Longrightarrow> n \<le> 32 \<Longrightarrow> (of_int b :: u32) AND mask n = of_int b"
  by transfer (simp add: take_bit_eq_mask [symmetric] take_bit_int_eq_self)

lemma uint_of_int_small: "0 \<le> b \<Longrightarrow> b < 2 ^ 32 \<Longrightarrow> uint (of_int b :: u32) = b"
  by (simp add: unsigned_of_int take_bit_int_eq_self)

text \<open>The bit rate is accepted exactly when some prescaler from 1 to 1023 gives it with 5 to 16 time
  quanta per bit; the register BTR then holds a prescaler and segments in the peripheral's ranges
  that give that bit rate, and its other bits and all other registers are unchanged.\<close>

lemma can_bitrate_timing:
  assumes "can_drv_check_set_bitrate br True dev = (r, dev')" "br > 0"
  shows "(r = 0 \<longleftrightarrow> (\<forall>brp. 1 \<le> brp \<and> brp < 1024 \<longrightarrow> \<not> brp_fits br brp))
    \<and> (r = 0 \<longrightarrow> dev' = dev)
    \<and> (r \<noteq> 0 \<longrightarrow> r = br \<and> dev' = dev\<lparr>BTR := BTR dev'\<rparr> \<and> BTR dev' AND NOT 0x7F03FF = BTR dev AND NOT 0x7F03FF
        \<and> (\<exists>brp t1 t2. F_OSC_CAN div brp div (1 + t1 + t2) = br
            \<and> 1 \<le> brp \<and> brp \<le> 1024 \<and> 1 \<le> t1 \<and> t1 \<le> 16 \<and> 1 \<le> t2 \<and> t2 \<le> 8
            \<and> uint (BTR dev' AND mask 10) = brp - 1
            \<and> uint (drop_bit 16 (BTR dev') AND mask 4) = t1 - 1
            \<and> uint (drop_bit 20 (BTR dev') AND mask 3) = t2 - 1))"
proof (cases "brp_search br 1")
  case None
  with assms(1) have "r = 0" "dev' = dev" by (simp_all add: can_drv_check_set_bitrate_def)
  with brp_search_None [OF None] show ?thesis by blast
next
  case (Some brp)
  note s = brp_search_Some [OF Some]
  obtain t1 t2 where t: "split_tqs (F_OSC_CAN div brp div br) = (t1, t2)" by fastforce
  have tq: "1 + t1 + t2 = F_OSC_CAN div brp div br" "1 \<le> t1" "t1 \<le> 16" "1 \<le> t2" "t2 \<le> 8"
    and f: "F_OSC_CAN div brp div (1 + t1 + t2) = br"
    using split_tqs_sum [OF _ _ t] s by (auto simp: brp_fits_def Let_def)
  have d: "r = br" "dev' = dev\<lparr>BTR := (BTR dev AND NOT (0x3FF OR push_bit 16 0x7F))
        OR (of_int (brp - 1) OR push_bit 16 (of_int (t1 - 1)) OR push_bit 20 (of_int (t2 - 1)))\<rparr>"
    using assms(1) by (simp_all add: can_drv_check_set_bitrate_def Some t)
  have b: "BTR dev' = (BTR dev AND NOT (0x3FF OR push_bit 16 0x7F))
        OR (of_int (brp - 1) OR push_bit 16 (of_int (t1 - 1)) OR push_bit 20 (of_int (t2 - 1)))"
    by (simp add: d(2))
  have o: "(of_int (brp - 1) :: u32) AND mask 10 = of_int (brp - 1)" "(of_int (t1 - 1) :: u32) AND mask 4 = of_int (t1 - 1)"
    "(of_int (t2 - 1) :: u32) AND mask 3 = of_int (t2 - 1)"
    using s tq by (intro of_int_mask; simp)+
  have u: "uint (of_int (brp - 1) :: u32) = brp - 1" "uint (of_int (t1 - 1) :: u32) = t1 - 1" "uint (of_int (t2 - 1) :: u32) = t2 - 1"
    using s tq by (intro uint_of_int_small; simp)+
  note fl = btr_fields [OF o b]
  have "uint (BTR dev' AND mask 10) = brp - 1" "uint (drop_bit 16 (BTR dev') AND mask 4) = t1 - 1"
    "uint (drop_bit 20 (BTR dev') AND mask 3) = t2 - 1" "BTR dev' AND NOT 0x7F03FF = BTR dev AND NOT 0x7F03FF"
    by (simp_all only: fl u)
  moreover have "dev' = dev\<lparr>BTR := BTR dev'\<rparr>" by (simp add: d(2))
  moreover have "r \<noteq> 0" "r = br" using assms(2) d(1) by simp_all
  moreover have "\<exists>brp. 1 \<le> brp \<and> brp < 1024 \<and> brp_fits br brp" using s by blast
  ultimately show ?thesis using f s tq by (intro conjI) (blast, blast, smt (verit))
qed

text \<open>A module and a peripheral that acknowledges at once.\<close>

definition ex_dev :: can_dev where
  "ex_dev = \<lparr>MCR = 0, MSR = 1, TSR = 0, RF0R = 0, IER = 0, ESR = 0, BTR = 0, FMR = 0, FM1R = 0, FS1R = 0, FFA1R = 0, FA1R = 0,
     sTxMailBox = [], sFIFOMailBox = \<lparr>RIR = 0, RDTR = 0, RDLR = 0, RDHR = 0\<rparr>, sFilterRegister = []\<rparr>"

definition ex_can :: co_can where
  "ex_can = \<lparr>CANptr = ex_dev, rxArray = [], txArray = [], CANerrorStatus = 0, CANnormal = False, useCANrxFilters = False,
     bufferInhibitFlag = False, firstCANtxMessage = False, CANtxCount = 0, errOld = 0, is_bus_off = False,
     rx_err_cnt = 0, tx_err_cnt = 0, bus_off_err_cnt = 0\<rparr>"

lemma brp_500: "brp_search 500000 1 = Some 6"
  by (simp add: brp_search.simps brp_fits_def Let_def)

lemma can_bitrate_timing_witness:
  "fst (can_drv_check_set_bitrate 500000 True ex_dev) = 500000
   \<and> BTR (snd (can_drv_check_set_bitrate 500000 True ex_dev)) AND NOT 0x7F03FF = 0"
proof -
  let ?p = "can_drv_check_set_bitrate 500000 True ex_dev"
  have "fst ?p = 500000" by (simp add: can_drv_check_set_bitrate_def brp_500 split: prod.split)
  then have "?p = (500000, snd ?p)" by (metis prod.collapse)
  from can_bitrate_timing [OF this] have "BTR (snd ?p) AND NOT 0x7F03FF = BTR ex_dev AND NOT 0x7F03FF" by simp
  moreover have "BTR ex_dev = 0" by (simp add: ex_dev_def)
  ultimately show ?thesis using \<open>fst ?p = 500000\<close> by simp
qed

section \<open>Receive\<close>

lemma find_match_iff:
  "find_match arr ident n = Some i \<longleftrightarrow> i < n \<and> rx_matches ident (arr ! i) \<and> (\<forall>j. i < j \<and> j < n \<longrightarrow> \<not> rx_matches ident (arr ! j))"
  by (induction n) (auto simp: less_Suc_eq)

lemma find_match_None: "find_match arr ident n = None \<longleftrightarrow> (\<forall>j < n. \<not> rx_matches ident (arr ! j))"
  by (induction n) (auto simp: less_Suc_eq)

lemma word_zero_bits: "(w :: 'a :: len word) = 0 \<longleftrightarrow> (\<forall>n < LENGTH('a). \<not> bit w n)"
  by (auto intro!: bit_word_eqI)

lemma bit_2_4: "bit (2 :: u32) n \<longleftrightarrow> n = 1" "bit (4 :: u32) n \<longleftrightarrow> n = 2" for n
  using bit_exp_iff [where 'a = u32, of 1 n] bit_exp_iff [where 'a = u32, of 2 n] by auto

lemma all_or_1_2:
  "(\<forall>n < (32::nat). \<not> (21 \<le> n \<and> n < 32 \<and> B n \<or> n = 1 \<and> p \<or> n = 2 \<and> q)) \<longleftrightarrow> (\<forall>n < 32. 21 \<le> n \<longrightarrow> \<not> B n) \<and> \<not> p \<and> \<not> q"
proof
  assume a: "\<forall>n < (32::nat). \<not> (21 \<le> n \<and> n < 32 \<and> B n \<or> n = 1 \<and> p \<or> n = 2 \<and> q)"
  from spec [OF a, of 1] spec [OF a, of 2] a
  show "(\<forall>n < 32. 21 \<le> n \<longrightarrow> \<not> B n) \<and> \<not> p \<and> \<not> q" by simp
qed auto

lemma all_from_21:
  "(\<forall>n < (32::nat). 21 \<le> n \<longrightarrow> P (n - 21) \<longrightarrow> Q n = R (n - 21)) \<longleftrightarrow> (\<forall>k < 11. P k \<longrightarrow> Q (21 + k) = R k)"
proof (intro iffI allI impI)
  fix n :: nat assume "\<forall>k < 11. P k \<longrightarrow> Q (21 + k) = R k" "n < 32" "21 \<le> n" "P (n - 21)"
  then show "Q n = R (n - 21)" by (auto dest: spec [of _ "n - 21"])
next
  fix k :: nat assume "\<forall>n < 32. 21 \<le> n \<longrightarrow> P (n - 21) \<longrightarrow> Q n = R (n - 21)" "k < 11" "P k"
  then show "Q (21 + k) = R k" by (auto dest: spec [of _ "21 + k"])
qed

text \<open>A receive buffer set up for an 11-bit identifier and mask accepts exactly the standard frames
  of its kind (data or remote) whose identifier agrees under the mask.\<close>

lemma can_rx_accepts:
  assumes "CO_CANrxBufferInit index ident msk rtr (Some obj) (Some cb) m = (CO_ERROR_NO, m')"
  shows "index < length (rxArray m) \<and>
    (rx_matches rir (rxArray m' ! index) \<longleftrightarrow>
      ((ucast (drop_bit 21 rir) XOR ident) AND msk AND mask 11 = 0 \<and> bit rir 1 = rtr \<and> \<not> bit rir 2))"
proof -
  let ?idt = "push_bit 21 (ucast (ident AND 0x7FF)) OR (if rtr then CAN_RI0R_RTR else 0) :: u32"
  let ?mk = "push_bit 21 (ucast (msk AND 0x7FF)) OR CAN_RI0R_RTR OR CAN_RI0R_IDE :: u32"
  have i: "index < length (rxArray m)" and r: "rxArray m' ! index = \<lparr>rx_ident = ?idt, rx_mask = ?mk, rx_object = obj, CANrx_callback = Some cb\<rparr>"
    using assms by (auto simp: CO_CANrxBufferInit_def Let_def split: if_splits)
  have lt: "k < 11 \<Longrightarrow> k < 16" for k :: nat by simp
  have m: "(0x7FF :: u16) = mask 11" by (simp add: mask_eq_exp_minus_1)
  have r2: "bit (if rtr then CAN_RI0R_RTR else 0 :: u32) n \<longleftrightarrow> rtr \<and> n = 1" for n
    by (cases rtr) (simp_all only: if_True if_False bit_2_4 bit_0_eq bot_fun_def bot_bool_def simp_thms)
  have mk: "bit ?mk n \<longleftrightarrow> 21 \<le> n \<and> n < 32 \<and> bit msk (n - 21) \<or> n = 1 \<or> n = 2" for n
    unfolding bit_or_iff bit_2_4 m by (auto simp: bit_push_bit_iff bit_and_iff bit_mask_iff bit_unsigned_iff)
  have idt: "bit ?idt n \<longleftrightarrow> 21 \<le> n \<and> n < 32 \<and> bit ident (n - 21) \<or> rtr \<and> n = 1" for n
    unfolding bit_or_iff r2 m by (auto simp: bit_push_bit_iff bit_and_iff bit_mask_iff bit_unsigned_iff)
  have key: "bit ((rir XOR ?idt) AND ?mk) n \<longleftrightarrow> 21 \<le> n \<and> n < 32 \<and> (bit msk (n - 21) \<and> bit rir n \<noteq> bit ident (n - 21))
      \<or> n = 1 \<and> bit rir 1 \<noteq> rtr \<or> n = 2 \<and> bit rir 2" for n
  proof (cases "n = 1 \<or> n = 2")
    case True
    then show ?thesis unfolding bit_and_iff bit_xor_iff mk idt by (elim disjE) simp_all
  next
    case False
    then show ?thesis unfolding bit_and_iff bit_xor_iff mk idt by auto
  qed
  have "(rir XOR ?idt) AND ?mk = 0 \<longleftrightarrow> (\<forall>n < 32. \<not> bit ((rir XOR ?idt) AND ?mk) n)"
    using word_zero_bits [of "(rir XOR ?idt) AND ?mk"] by simp
  also have "... \<longleftrightarrow> (\<forall>n < 32. 21 \<le> n \<longrightarrow> bit msk (n - 21) \<longrightarrow> bit rir n = bit ident (n - 21)) \<and> bit rir 1 = rtr \<and> \<not> bit rir 2"
    unfolding key all_or_1_2 by blast
  also have "(\<forall>n < 32. 21 \<le> n \<longrightarrow> bit msk (n - 21) \<longrightarrow> bit rir n = bit ident (n - 21))
     \<longleftrightarrow> (\<forall>k < 11. bit msk k \<longrightarrow> bit rir (21 + k) = bit ident k)"
    by (rule all_from_21)
  also have "... \<longleftrightarrow> (ucast (drop_bit 21 rir) XOR ident) AND msk AND mask 11 = 0"
    unfolding word_zero_bits by (auto simp: bit_simps) (use lt in blast)+
  finally show ?thesis using i r by (simp add: rx_matches_def)
qed


lemma can_rx_accepts_witness:
  "rx_matches (push_bit 21 0x581) (rxArray (snd (CO_CANrxBufferInit 0 0x581 0x7FF False (Some 7) (Some 1)
     (ex_can \<lparr>rxArray := [\<lparr>rx_ident = 0, rx_mask = 0, rx_object = 0, CANrx_callback = None\<rparr>]\<rparr>))) ! 0)"
proof -
  let ?m = "ex_can \<lparr>rxArray := [\<lparr>rx_ident = 0, rx_mask = 0, rx_object = 0, CANrx_callback = None\<rparr>]\<rparr>"
  let ?r = "CO_CANrxBufferInit 0 0x581 0x7FF False (Some 7) (Some 1) ?m"
  have "fst ?r = CO_ERROR_NO" by (simp add: CO_CANrxBufferInit_def Let_def)
  then have "?r = (CO_ERROR_NO, snd ?r)" by (metis prod.collapse)
  from can_rx_accepts [OF this, of "push_bit 21 0x581"] show ?thesis by simp
qed

section \<open>Error status\<close>

text \<open>After the error counters change, the receiver flags follow the receive counter (96 warns, 128 is
  passive); the transmitter's passive flag follows the transmit counter, but below 128 its warning flag
  follows the receive counter.  255 transmit errors raise bus-off and leave the other flags.\<close>

lemma can_status_flags:
  fixes old :: u16 and rx tx :: u8
  shows "(tx \<noteq> 0xFF \<longrightarrow>
      (bit (can_status old rx tx off) 8 \<longleftrightarrow> rx \<ge> 96) \<and> (bit (can_status old rx tx off) 9 \<longleftrightarrow> rx \<ge> 128)
      \<and> (bit (can_status old rx tx off) 1 \<longleftrightarrow> tx \<ge> 128) \<and> (bit (can_status old rx tx off) 0 \<longleftrightarrow> tx \<ge> 128 \<or> rx \<ge> 96)
      \<and> \<not> bit (can_status old rx tx off) 2 \<and> (bit (can_status old rx tx off) 3 \<longleftrightarrow> bit old 3 \<and> tx \<ge> 128))
    \<and> (tx = 0xFF \<longrightarrow> can_status old rx tx off = old OR CO_CAN_ERRTX_BUS_OFF OR (if off then CO_CAN_ERRRX_OVERFLOW else 0))
    \<and> (off \<longrightarrow> bit (can_status old rx tx off) 11)"
proof -
  have a: "w AND 2 = 0 \<longleftrightarrow> \<not> bit w 1" for w :: u16 using and_exp_eq_0_iff_not_bit [of w 1] by simp
  have le: "rx \<ge> 128 \<Longrightarrow> rx \<ge> 96" by (rule order.trans [of _ 128]) simp_all
  have f: ?thesis if "rx \<ge> 96"
    using that
    by (cases "rx \<ge> 128"; cases "tx \<ge> 128"; cases off; cases "tx = 0xFF")
      (simp_all add: can_status_def Let_def a bit_and_iff bit_or_iff or.assoc)
  have g: ?thesis if "\<not> rx \<ge> 96" "\<not> rx \<ge> 128"
    using that
    by (cases "tx \<ge> 128"; cases off; cases "tx = 0xFF")
      (simp_all add: can_status_def Let_def a bit_and_iff bit_or_iff or.assoc)
  from f g le show ?thesis by blast
qed

lemma can_status_flags_witness:
  "bit (can_status 0 100 50 False) 8 \<and> bit (can_status 0 100 50 False) 0 \<and> \<not> bit (can_status 0 100 50 False) 1"
  using can_status_flags [of 50 0 100 False] by simp

section \<open>Transmit buffers\<close>

lemma unat_u16_less: "unat (w :: u16) < 65536"
proof -
  have "unat w < 2 ^ LENGTH(16)" by (rule unsigned_less)
  then show ?thesis by simp
qed

definition nfull :: "co_tx list \<Rightarrow> nat" where
  "nfull tx = length (filter bufferFull tx)"

text \<open>What can happen to the transmit side of the module.\<close>

datatype can_op = Send nat | Tx_done u32 | Drop_sync

definition can_op_step :: "(can_dev \<Rightarrow> can_dev) \<Rightarrow> can_op \<Rightarrow> co_can \<Rightarrow> co_can option" where
  "can_op_step hw e m = (case e of Send i \<Rightarrow> if i < length (txArray m) then Some (snd (CO_CANsend hw i m)) else None
     | Tx_done msk \<Rightarrow> Some (can_interrupt_tx hw msk m)
     | Drop_sync \<Rightarrow> CO_CANclearPendingSyncPDOs hw m)"

fun can_op_run :: "(can_dev \<Rightarrow> can_dev) \<Rightarrow> can_op list \<Rightarrow> co_can \<Rightarrow> co_can option" where
  "can_op_run hw [] m = Some m"
| "can_op_run hw (e # es) m = (case can_op_step hw e m of None \<Rightarrow> None | Some m' \<Rightarrow> can_op_run hw es m')"

definition is_send :: "can_op \<Rightarrow> bool" where
  "is_send e = (case e of Send _ \<Rightarrow> True | _ \<Rightarrow> False)"

lemma nfull_simps [simp]: "nfull [] = 0" "nfull (b # bs) = (if bufferFull b then 1 else 0) + nfull bs"
  by (simp_all add: nfull_def)

lemma nfull_set: "i < length tx \<Longrightarrow> nfull (tx[i := (tx ! i)\<lparr>bufferFull := True\<rparr>]) \<le> nfull tx + 1"
proof (induction tx arbitrary: i)
  case (Cons b tx)
  then show ?case by (cases i) auto
qed simp

lemma take_full_nfull:
  "take_full tx = None \<longleftrightarrow> nfull tx = 0"
  "take_full tx = Some (b, tx') \<Longrightarrow> nfull tx = nfull tx' + 1 \<and> length tx' = length tx \<and> b \<in> set tx \<and> bufferFull b"
  by (induction tx arbitrary: tx') (auto split: if_splits)

lemma clear_sync_nfull:
  "clear_sync tx cnt del = (tx', cnt', del') \<Longrightarrow> nfull tx + k \<le> unat cnt \<Longrightarrow>
   nfull tx' + k \<le> unat cnt' \<and> unat cnt' \<le> unat cnt \<and> length tx' = length tx"
proof (induction tx arbitrary: cnt del tx' cnt' del' k)
  case (Cons b tx)
  show ?case
  proof (cases "bufferFull b \<and> syncFlag b")
    case True
    obtain tx1 cnt1 del1 where r: "clear_sync tx (cnt - 1) True = (tx1, cnt1, del1)" by (metis prod_cases3)
    have "cnt \<noteq> 0" using Cons.prems(2) True by auto
    then have p: "unat (cnt - 1) = unat cnt - 1" "0 < unat cnt" by (simp_all add: unat_gt_0 unat_minus_one)
    have "nfull tx + k \<le> unat (cnt - 1)" using Cons.prems(2) True p by simp
    with Cons.IH [OF r, of k] p have "nfull tx1 + k \<le> unat cnt1 \<and> unat cnt1 \<le> unat cnt \<and> length tx1 = length tx" by linarith
    with Cons.prems(1) True r show ?thesis by auto
  next
    case False
    obtain tx1 cnt1 del1 where r: "clear_sync tx cnt del = (tx1, cnt1, del1)" by (metis prod_cases3)
    with Cons.IH [OF r, of "k + (if bufferFull b then 1 else 0)"] Cons.prems False show ?thesis by auto
  qed
qed simp

lemma can_op_step_full:
  assumes "can_op_step hw e m = Some m'" "nfull (txArray m) \<le> unat (CANtxCount m)"
    and "unat (CANtxCount m) + (if is_send e then 1 else 0) < 65536"
  shows "nfull (txArray m') \<le> unat (CANtxCount m') \<and> length (txArray m') = length (txArray m)
    \<and> unat (CANtxCount m') \<le> unat (CANtxCount m) + (if is_send e then 1 else 0)"
proof (cases e)
  case (Send i)
  have "unat (CANtxCount m + 1) = unat (CANtxCount m) + 1"
    using assms(3) by (simp add: Send is_send_def unat_plus_if')
  with assms nfull_set [of i "txArray m"] show ?thesis
    by (auto simp: Send can_op_step_def CO_CANsend_def Let_def is_send_def split: if_splits prod.splits)
next
  case (Tx_done msk)
  show ?thesis
  proof (cases "CANtxCount m = 0")
    case True
    with assms show ?thesis by (auto simp: Tx_done can_op_step_def can_interrupt_tx_def Let_def is_send_def)
  next
    case False
    then have p: "unat (CANtxCount m - 1) = unat (CANtxCount m) - 1" "0 < unat (CANtxCount m)" by (simp_all add: unat_gt_0 unat_minus_one)
    show ?thesis
      using assms p False take_full_nfull
      by (fastforce simp: Tx_done can_op_step_def can_interrupt_tx_def Let_def is_send_def word_gt_0 split: option.splits)
  qed
next
  case Drop_sync
  show ?thesis
  proof (cases "CANtxCount m = 0")
    case True
    with assms show ?thesis
      by (auto simp: Drop_sync can_op_step_def CO_CANclearPendingSyncPDOs_def Let_def is_send_def split: option.splits if_splits)
  next
    case False
    define ab where "ab = (can_drv_is_transmitting (CANptr m) \<and> bufferInhibitFlag m)"
    obtain tx cnt del where c: "clear_sync (txArray m) (CANtxCount m) ab = (tx, cnt, del)" by (metis prod_cases3)
    have "txArray m' = tx \<and> CANtxCount m' = cnt"
      using assms(1) False c
      by (auto simp: Drop_sync can_op_step_def CO_CANclearPendingSyncPDOs_def Let_def ab_def split: option.splits if_splits)
    with clear_sync_nfull [OF c, of 0] assms(2) show ?thesis by (simp add: Drop_sync is_send_def)
  qed
qed

lemma can_op_run_full:
  "can_op_run hw es m = Some m' \<Longrightarrow> nfull (txArray m) \<le> unat (CANtxCount m) \<Longrightarrow>
   unat (CANtxCount m) + length (filter is_send es) < 65536 \<Longrightarrow>
   nfull (txArray m') \<le> unat (CANtxCount m') \<and> length (txArray m') = length (txArray m)"
proof (induction es arbitrary: m)
  case (Cons e es)
  then obtain m1 where m1: "can_op_step hw e m = Some m1" "can_op_run hw es m1 = Some m'" by (auto split: option.splits)
  have "unat (CANtxCount m) + (if is_send e then 1 else 0) < 65536" using Cons.prems(3) by (simp split: if_splits)
  note st = can_op_step_full [OF m1(1) Cons.prems(2) this]
  have "unat (CANtxCount m1) + length (filter is_send es) < 65536" using st Cons.prems(3) by (auto split: if_splits)
  with Cons.IH [OF m1(2)] st show ?case by simp
qed simp

lemma tx_done_drains:
  "nfull (txArray m) \<le> n \<Longrightarrow> nfull (txArray m) \<le> unat (CANtxCount m) \<Longrightarrow>
   nfull (txArray ((can_interrupt_tx hw msk ^^ n) m)) = 0"
proof (induction n arbitrary: m)
  case (Suc n)
  let ?m = "can_interrupt_tx hw msk m"
  have st: "nfull (txArray ?m) \<le> unat (CANtxCount ?m)"
    using can_op_step_full [of hw "Tx_done msk" m ?m] Suc.prems(2) unat_u16_less [of "CANtxCount m"] by (simp add: can_op_step_def is_send_def)
  have "nfull (txArray ?m) \<le> n"
  proof (cases "take_full (txArray m)")
    case None
    then have "nfull (txArray m) = 0" using take_full_nfull(1) by blast
    with None show ?thesis by (simp add: can_interrupt_tx_def Let_def)
  next
    case (Some p)
    obtain b tx' where p: "p = (b, tx')" by fastforce
    note t = take_full_nfull(2) [OF Some [unfolded p]]
    then have "CANtxCount m > 0" using Suc.prems(2) by (simp add: word_gt_0) auto
    with Some p t Suc.prems(1) show ?thesis by (simp add: can_interrupt_tx_def Let_def)
  qed
  from Suc.IH [OF this st] show ?case by (simp add: funpow_swap1)
qed simp



end
