(* ===== verification/C_Text.thy ===== *)
theory C_Text
  imports Gw_Prelude
begin

text \<open>
  The decimal numbers of the C library as the firmware uses them: \<open>%u\<close> and \<open>%d\<close> on output, \<open>atoi\<close> on
  input, and that what one writes the other reads back.
\<close>

section \<open>Writing and reading decimal numbers\<close>

function dec_digits :: "nat \<Rightarrow> bytes" where
  "dec_digits n = (if n < 10 then [of_nat (0x30 + n)] else dec_digits (n div 10) @ [of_nat (0x30 + n mod 10)])"
  by pat_completeness auto

termination by (relation "measure id") auto

declare dec_digits.simps [simp del]

definition is_space :: "u8 \<Rightarrow> bool" where
  "is_space b \<longleftrightarrow> b = 0x20 \<or> (0x09 \<le> b \<and> b \<le> 0x0D)"

definition is_dec :: "u8 \<Rightarrow> bool" where
  "is_dec b \<longleftrightarrow> 0x30 \<le> b \<and> b \<le> 0x39"

definition dec_value :: "bytes \<Rightarrow> int" where
  "dec_value ds = foldl (\<lambda>a d. a * 10 + (int (unat d) - 48)) 0 ds"

text \<open>\<open>atoi\<close> of the C library: newlib's is \<open>strtol\<close>, which stops at the limits of 32 bits.\<close>

definition clamp32 :: "int \<Rightarrow> int" where
  "clamp32 v = max (-2147483648) (min 2147483647 v)"

definition atoi :: "bytes \<Rightarrow> int" where
  "atoi s =
    (let s1 = dropWhile is_space s
     in case s1 of
          [] \<Rightarrow> 0
        | c # s2 \<Rightarrow>
            if c = 0x2D then clamp32 (- dec_value (takeWhile is_dec s2))
            else if c = 0x2B then clamp32 (dec_value (takeWhile is_dec s2))
            else clamp32 (dec_value (takeWhile is_dec s1)))"

section \<open>What is written is read back\<close>

lemma dec_digits_dec: "\<forall>d \<in> set (dec_digits n). is_dec d"
proof (induction n rule: dec_digits.induct)
  case (1 n)
  have d: "is_dec (of_nat (48 + k))" if "k < 10" for k
  proof -
    have u: "unat (of_nat (48 + k) :: u8) = 48 + k" using that by (subst unat_of_nat) (simp add: take_bit_nat_eq_self)
    show ?thesis unfolding is_dec_def word_le_nat_alt u using that by simp
  qed
  show ?case
    using 1 d [of n] d [of "n mod 10"] by (subst dec_digits.simps) auto
qed

lemma dec_value_snoc: "dec_value (ds @ [d]) = dec_value ds * 10 + (int (unat d) - 48)"
  by (simp add: dec_value_def)

lemma dec_value_digits: "dec_value (dec_digits n) = int n"
proof (induction n rule: dec_digits.induct)
  case (1 n)
  have u: "int (unat (of_nat (48 + k) :: u8)) - 48 = int k" if "k < 10" for k
    using that by (subst unat_of_nat) (simp add: take_bit_nat_eq_self)
  show ?case
  proof (cases "n < 10")
    case True
    then show ?thesis using u [OF True] by (subst dec_digits.simps) (simp add: dec_value_def)
  next
    case False
    have "int (n div 10) * 10 + int (n mod 10) = int n" by presburger
    then show ?thesis using False 1 u [of "n mod 10"] by (subst dec_digits.simps) (simp add: dec_value_snoc)
  qed
qed

lemma dec_digits_nonempty: "dec_digits n \<noteq> []"
  by (subst dec_digits.simps) simp

lemma length_dec_digits: "n < 10 ^ k \<Longrightarrow> 0 < k \<Longrightarrow> length (dec_digits n) \<le> k"
proof (induction k arbitrary: n)
  case (Suc k)
  show ?case
  proof (cases "n < 10")
    case True
    then show ?thesis by (subst dec_digits.simps) simp
  next
    case False
    then have "0 < k" using Suc.prems by (cases k) auto
    moreover have "n div 10 < 10 ^ k" using Suc.prems(1) by (simp add: div_less_iff_less_mult mult.commute)
    ultimately have "length (dec_digits (n div 10)) \<le> k" using Suc.IH by blast
    then show ?thesis using False by (subst dec_digits.simps) simp
  qed
qed simp

text \<open>A decimal number with an optional minus sign.\<close>

definition int_digits :: "int \<Rightarrow> bytes" where
  "int_digits v = (if v < 0 then 0x2D # dec_digits (nat (- v)) else dec_digits (nat v))"

lemma atoi_int_digits:
  assumes "- 2147483648 \<le> v" "v \<le> 2147483647"
  shows "atoi (int_digits v) = v"
proof -
  have tw: "takeWhile is_dec (dec_digits n) = dec_digits n" for n
    using dec_digits_dec by (simp add: takeWhile_eq_all_conv)
  have c: "clamp32 v = v" using assms by (simp add: clamp32_def)
  obtain d ds where dd: "dec_digits (nat v) = d # ds" using dec_digits_nonempty by (cases "dec_digits (nat v)") auto
  have "is_dec d" using dec_digits_dec [of "nat v"] dd by simp
  then have s: "\<not> is_space d" "d \<noteq> 0x2D" "d \<noteq> 0x2B"
    unfolding is_dec_def is_space_def word_le_nat_alt by auto
  show ?thesis
  proof (cases "v < 0")
    case True
    then show ?thesis using c by (simp add: atoi_def int_digits_def is_space_def tw dec_value_digits)
  next
    case False
    have "takeWhile is_dec (d # ds) = d # ds" "dec_value (d # ds) = v" using tw [of "nat v"] dec_value_digits [of "nat v"] False dd by simp_all
    then show ?thesis using c s False unfolding atoi_def int_digits_def dd Let_def by simp
  qed
qed

lemma int_digits_ok:
  assumes "- 2147483648 \<le> v" "v \<le> 2147483647"
  shows "int_digits v \<noteq> [] \<and> length (int_digits v) \<le> 63 \<and> 0x20 \<notin> set (int_digits v) \<and> 0 \<notin> set (int_digits v)"
proof -
  have d: "0x20 \<notin> set (dec_digits n)" "0 \<notin> set (dec_digits n)" for n
    using dec_digits_dec [of n] by (auto simp: is_dec_def)
  have l: "length (dec_digits n) \<le> 10" if "n < 10 ^ 10" for n using length_dec_digits [OF that] by simp
  have "nat (- v) < 10 ^ 10" "nat v < 10 ^ 10" using assms by (simp_all add: nat_less_iff)
  then show ?thesis using l [of "nat (- v)"] l [of "nat v"] d dec_digits_nonempty by (auto simp: int_digits_def)
qed

end
