(* ===== verification/Mqtt_Queue.thy ===== *)
theory Mqtt_Queue
  imports C_Text
begin

text \<open>
  The MQTT side of the gateway, app/comm/mqtt_app.c: the ring of 64 outgoing messages between the
  router and lwIP's MQTT client, and the connection state machine.

  lwIP is a parameter: \<open>pub\<close> gives, for a message handed to \<open>mqtt_publish\<close>, whether it was taken
  (\<open>ERR_OK\<close>) and the client's next state.  \<open>bounded_fifo\<close> is the contract of the ring the rest of
  the firmware relies on; the ring of mqtt_app.c is shown to provide it.
\<close>

section \<open>Definitions\<close>

abbreviation MQTT_QUEUE_SIZE :: nat where "MQTT_QUEUE_SIZE \<equiv> 64"
abbreviation MQTT_MAX_TOPIC_LEN :: nat where "MQTT_MAX_TOPIC_LEN \<equiv> 40"
abbreviation MQTT_MAX_PAYLOAD_LEN :: nat where "MQTT_MAX_PAYLOAD_LEN \<equiv> 16"

datatype mqtt_status = STATE_OFF | STATE_OUT_OF_MEM | STATE_CONN_RETRY | STATE_CONNECTED

record mqtt_msg =
  m_topic :: bytes
  m_payload :: bytes
  m_payload_len :: nat
  m_qos :: u8
  m_retain :: u8

record mqtt_queue =
  mq_storage :: "mqtt_msg list"
  mq_head :: nat
  mq_tail :: nat

text \<open>What is handed to \<open>mqtt_publish\<close>: topic, payload bytes, QoS, retain.\<close>

type_synonym published = "bytes \<times> bytes \<times> u8 \<times> u8"

record 'n mqtt_st =
  mq :: mqtt_queue
  is_sending :: bool
  tx_q_ovf :: u32
  err_publ :: u32
  mqtt_status :: mqtt_status
  conn_code :: int
  conn_cb_cnt :: int
  static_client :: bool
  reconnect_timers :: nat
  net :: 'n

definition msg_out :: "mqtt_msg \<Rightarrow> published" where
  "msg_out m = (m_topic m, take (m_payload_len m) (m_payload m), m_qos m, m_retain m)"

text \<open>\<open>strncpy\<close> of the topic and \<open>memcpy\<close> of at most 16 payload bytes over the old message.\<close>

definition fill_msg :: "bytes \<Rightarrow> bytes \<Rightarrow> u8 \<Rightarrow> u8 \<Rightarrow> mqtt_msg \<Rightarrow> mqtt_msg" where
  "fill_msg topic payload qos retain old =
    (let copy_len = (if length payload > MQTT_MAX_PAYLOAD_LEN then MQTT_MAX_PAYLOAD_LEN else length payload)
     in \<lparr>m_topic = take (MQTT_MAX_TOPIC_LEN - 1) (c_str topic),
         m_payload = take copy_len payload @ drop copy_len (m_payload old),
         m_payload_len = copy_len, m_qos = qos, m_retain = retain\<rparr>)"

definition mqtt_queue_send_next :: "(published \<Rightarrow> 'n \<Rightarrow> bool \<times> 'n) \<Rightarrow> 'n mqtt_st \<Rightarrow> int \<times> 'n mqtt_st" where
  "mqtt_queue_send_next pub s =
    (let msg = mq_storage (mq s) ! mq_tail (mq s)
     in case pub (msg_out msg) (net s) of (ok, n) \<Rightarrow>
          if ok then (0, s\<lparr>is_sending := True, net := n\<rparr>)
          else (-1, s\<lparr>is_sending := False, err_publ := err_publ s + 1, net := n\<rparr>))"

definition ring_drop :: "mqtt_queue \<Rightarrow> mqtt_queue" where
  "ring_drop q = q\<lparr>mq_tail := (mq_tail q + 1) mod MQTT_QUEUE_SIZE\<rparr>"

definition mqtt_pub_request_cb :: "(published \<Rightarrow> 'n \<Rightarrow> bool \<times> 'n) \<Rightarrow> 'n mqtt_st \<Rightarrow> 'n mqtt_st" where
  "mqtt_pub_request_cb pub s0 =
    (let s = s0\<lparr>is_sending := False, mq := ring_drop (mq s0)\<rparr>
     in if mq_head (mq s) \<noteq> mq_tail (mq s) then snd (mqtt_queue_send_next pub s) else s)"

definition ring_put :: "bytes \<times> bytes \<times> u8 \<times> u8 \<Rightarrow> mqtt_queue \<Rightarrow> mqtt_queue option" where
  "ring_put msg q =
    (case msg of (topic, payload, qos, retain) \<Rightarrow>
      (let next_head = (mq_head q + 1) mod MQTT_QUEUE_SIZE
       in if next_head = mq_tail q then None
          else Some (q\<lparr>mq_storage := (mq_storage q)[mq_head q := fill_msg topic payload qos retain (mq_storage q ! mq_head q)],
                       mq_head := next_head\<rparr>)))"

definition mqtt_queue_publish :: "(published \<Rightarrow> 'n \<Rightarrow> bool \<times> 'n) \<Rightarrow> bytes \<Rightarrow> bytes \<Rightarrow> u8 \<Rightarrow> u8 \<Rightarrow> 'n mqtt_st \<Rightarrow> int \<times> 'n mqtt_st" where
  "mqtt_queue_publish pub topic payload qos retain s =
    (case ring_put (topic, payload, qos, retain) (mq s) of
       None \<Rightarrow> (-1, s\<lparr>tx_q_ovf := tx_q_ovf s + 1\<rparr>)
     | Some q \<Rightarrow>
         (let s1 = s\<lparr>mq := q\<rparr>
          in if is_sending s1 then (1, s1)
             else case mqtt_queue_send_next pub s1 of (r, s2) \<Rightarrow> (if r \<noteq> 0 then 1 else 0, s2)))"

subsection \<open>Connection\<close>

text \<open>The callback of \<open>mqtt_client_connect\<close>; lwIP's \<open>sys_untimeout\<close> removes the first matching timer.\<close>

definition conn_cb :: "bool \<Rightarrow> 'n mqtt_st \<Rightarrow> 'n mqtt_st" where
  "conn_cb accepted s0 =
    (let s = s0\<lparr>conn_cb_cnt := conn_cb_cnt s0 + 1\<rparr>
     in if accepted then s\<lparr>mqtt_status := STATE_CONNECTED\<rparr>
        else s\<lparr>mqtt_status := STATE_CONN_RETRY, reconnect_timers := (reconnect_timers s - 1) + 1\<rparr>)"

text \<open>\<open>mqtt_client_id_buffer\<close>: \<open>"GW_%d.%d.%d.%d"\<close> cut to 29 characters.\<close>

definition mqtt_client_id :: "u8 \<Rightarrow> u8 \<Rightarrow> u8 \<Rightarrow> u8 \<Rightarrow> bytes" where
  "mqtt_client_id a b c d = take 29 (ascii ''GW_'' @ dec_digits (unat a) @ ascii ''.'' @ dec_digits (unat b)
     @ ascii ''.'' @ dec_digits (unat c) @ ascii ''.'' @ dec_digits (unat d))"

text \<open>\<open>new_ok\<close>: \<open>mqtt_client_new\<close> gave a client; \<open>sts\<close>: what \<open>mqtt_client_connect\<close> returned.\<close>

definition mqtt_app_init_client :: "bool \<Rightarrow> int \<Rightarrow> 'n mqtt_st \<Rightarrow> 'n mqtt_st" where
  "mqtt_app_init_client new_ok sts s =
    (if new_ok
     then s\<lparr>static_client := True, conn_code := sts,
            reconnect_timers := (if sts \<noteq> 0 then reconnect_timers s + 1 else reconnect_timers s)\<rparr>
     else s\<lparr>static_client := False, mqtt_status := STATE_OUT_OF_MEM, reconnect_timers := reconnect_timers s + 1\<rparr>)"

text \<open>A timer fires: lwIP removes it, then calls \<open>reconnect_cb\<close>.\<close>

definition reconnect_cb :: "bool \<Rightarrow> int \<Rightarrow> 'n mqtt_st \<Rightarrow> 'n mqtt_st" where
  "reconnect_cb new_ok sts s = mqtt_app_init_client new_ok sts (s\<lparr>reconnect_timers := reconnect_timers s - 1\<rparr>)"

definition mqtt_init :: "'n \<Rightarrow> 'n mqtt_st" where
  "mqtt_init n = \<lparr>mq = \<lparr>mq_storage = replicate MQTT_QUEUE_SIZE \<lparr>m_topic = [], m_payload = replicate MQTT_MAX_PAYLOAD_LEN 0,
       m_payload_len = 0, m_qos = 0, m_retain = 0\<rparr>, mq_head = 0, mq_tail = 0\<rparr>,
     is_sending = False, tx_q_ovf = 0, err_publ = 0, mqtt_status = STATE_OFF, conn_code = 0, conn_cb_cnt = 0,
     static_client = False, reconnect_timers = 0, net = n\<rparr>"

subsection \<open>Runs\<close>

text \<open>
  What happens to the module: a publish request, or lwIP completing the request it has (it calls back
  once for a request it took).
\<close>

datatype mqtt_event = Publish bytes bytes u8 u8 | Request_done

definition mqtt_event_ok :: "mqtt_event \<Rightarrow> 'n mqtt_st \<Rightarrow> bool" where
  "mqtt_event_ok e s = (case e of Request_done \<Rightarrow> is_sending s | _ \<Rightarrow> True)"

definition mqtt_step :: "(published \<Rightarrow> 'n \<Rightarrow> bool \<times> 'n) \<Rightarrow> mqtt_event \<Rightarrow> 'n mqtt_st \<Rightarrow> 'n mqtt_st" where
  "mqtt_step pub e s = (case e of
     Publish topic payload qos retain \<Rightarrow> snd (mqtt_queue_publish pub topic payload qos retain s)
   | Request_done \<Rightarrow> mqtt_pub_request_cb pub s)"

text \<open>The queue as a list, oldest message first, and the message a request becomes.\<close>

definition ring_count :: "mqtt_queue \<Rightarrow> nat" where
  "ring_count q = (mq_head q + MQTT_QUEUE_SIZE - mq_tail q) mod MQTT_QUEUE_SIZE"

definition ring_items :: "mqtt_queue \<Rightarrow> published list" where
  "ring_items q = map (\<lambda>i. msg_out (mq_storage q ! ((mq_tail q + i) mod MQTT_QUEUE_SIZE))) [0..<ring_count q]"

definition ring_ok :: "mqtt_queue \<Rightarrow> bool" where
  "ring_ok q \<longleftrightarrow> length (mq_storage q) = MQTT_QUEUE_SIZE \<and> mq_head q < MQTT_QUEUE_SIZE \<and> mq_tail q < MQTT_QUEUE_SIZE"

definition as_published :: "bytes \<times> bytes \<times> u8 \<times> u8 \<Rightarrow> published" where
  "as_published msg = (case msg of (topic, payload, qos, retain) \<Rightarrow>
     (take (MQTT_MAX_TOPIC_LEN - 1) (c_str topic), take MQTT_MAX_PAYLOAD_LEN payload, qos, retain))"

section \<open>The queue contract\<close>

locale bounded_fifo =
  fixes put :: "'a \<Rightarrow> 'q \<Rightarrow> 'q option" and drop1 :: "'q \<Rightarrow> 'q"
    and items :: "'q \<Rightarrow> 'b list" and stored_as :: "'a \<Rightarrow> 'b" and ok :: "'q \<Rightarrow> bool" and cap :: nat
  assumes put_room: "ok q \<Longrightarrow> length (items q) < cap \<Longrightarrow> \<exists>q'. put a q = Some q' \<and> ok q' \<and> items q' = items q @ [stored_as a]"
    and put_full: "ok q \<Longrightarrow> length (items q) = cap \<Longrightarrow> put a q = None"
    and drop_ok: "ok q \<Longrightarrow> items q \<noteq> [] \<Longrightarrow> ok (drop1 q) \<and> items (drop1 q) = tl (items q)"
    and items_bound: "ok q \<Longrightarrow> length (items q) \<le> cap"
begin

lemma put_iff: "ok q \<Longrightarrow> put a q = None \<longleftrightarrow> length (items q) = cap"
  using put_room [of q a] put_full [of q a] items_bound [of q] by fastforce

lemma put_SomeD: "ok q \<Longrightarrow> put a q = Some q' \<Longrightarrow> ok q' \<and> items q' = items q @ [stored_as a]"
  using put_room [of q a] put_full [of q a] items_bound [of q] by fastforce

text \<open>First in, first out over any sequence of accepted puts and drops.\<close>

fun fifo_run :: "('a option) list \<Rightarrow> 'q \<Rightarrow> 'b list \<Rightarrow> 'b list \<Rightarrow> 'q \<times> 'b list \<times> 'b list" where
  "fifo_run [] q inn outp = (q, inn, outp)"
| "fifo_run (Some a # ops) q inn outp =
     (case put a q of None \<Rightarrow> fifo_run ops q inn outp | Some q' \<Rightarrow> fifo_run ops q' (inn @ [stored_as a]) outp)"
| "fifo_run (None # ops) q inn outp =
     (if items q = [] then fifo_run ops q inn outp else fifo_run ops (drop1 q) inn (outp @ [hd (items q)]))"

lemma fifo_run_order:
  assumes "ok q" "inn = outp @ items q" "fifo_run ops q inn outp = (q', inn', outp')"
  shows "ok q' \<and> inn' = outp' @ items q'"
  using assms
proof (induction ops q inn outp rule: fifo_run.induct)
  case (2 a ops q inn outp)
  then show ?case using put_SomeD [of q a] by (auto split: option.splits)
next
  case (3 ops q inn outp)
  then show ?case using drop_ok [of q] by (auto split: if_splits)
qed simp

end

section \<open>Lemmas\<close>

lemma ring_count_eq:
  "ring_ok q \<Longrightarrow> ring_count q = (if mq_tail q \<le> mq_head q then mq_head q - mq_tail q else mq_head q + MQTT_QUEUE_SIZE - mq_tail q)"
  by (auto simp: ring_ok_def ring_count_def mod_if)

lemma ring_count_bound: "ring_ok q \<Longrightarrow> ring_count q < MQTT_QUEUE_SIZE"
  by (simp add: ring_count_def)

lemma length_ring_items [simp]: "length (ring_items q) = ring_count q"
  by (simp add: ring_items_def)

lemma mod_step: "a < 64 \<Longrightarrow> Suc a mod 64 = (if a = 63 then 0 else Suc a)"
  by auto

lemma ring_count_pos: "ring_items q \<noteq> [] \<longleftrightarrow> 0 < ring_count q"
  by (auto simp: ring_items_def)

lemma mod_two: "a < 64 \<Longrightarrow> b < 64 \<Longrightarrow> (a + b) mod 64 = (if a + b < 64 then a + b else a + b - 64 :: nat)"
  by (auto simp: mod_if)

lemma ring_slot_free:
  assumes "ring_ok q" "i < ring_count q"
  shows "(mq_tail q + i) mod MQTT_QUEUE_SIZE \<noteq> mq_head q"
  using assms ring_count_bound [OF assms(1)] mod_two [of "mq_tail q" i]
  by (auto simp: ring_count_eq ring_ok_def split: if_splits)

lemma msg_out_fill: "msg_out (fill_msg topic payload qos retain old) = as_published (topic, payload, qos, retain)"
  by (auto simp: msg_out_def fill_msg_def as_published_def Let_def)

lemma ring_put_full: "ring_ok q \<Longrightarrow> ring_put msg q = None \<longleftrightarrow> ring_count q = MQTT_QUEUE_SIZE - 1"
  by (auto simp: ring_put_def ring_count_eq ring_ok_def mod_step Let_def split: prod.split if_splits)

lemma ring_put_items:
  assumes "ring_ok q" "ring_put msg q = Some q'"
  shows "ring_ok q' \<and> ring_items q' = ring_items q @ [as_published msg]"
proof -
  obtain topic payload qos retain where msg: "msg = (topic, payload, qos, retain)" by (cases msg)
  let ?new = "fill_msg topic payload qos retain (mq_storage q ! mq_head q)"
  have q': "q' = q\<lparr>mq_storage := (mq_storage q)[mq_head q := ?new], mq_head := (mq_head q + 1) mod MQTT_QUEUE_SIZE\<rparr>"
    and nf: "(mq_head q + 1) mod MQTT_QUEUE_SIZE \<noteq> mq_tail q"
    using assms(2) by (auto simp: ring_put_def msg Let_def split: if_splits)
  have ok: "ring_ok q'" using assms(1) by (simp add: q' ring_ok_def)
  have cnt: "ring_count q' = ring_count q + 1"
    using assms(1) nf ring_count_eq [OF ok] ring_count_eq [OF assms(1)]
    by (auto simp: q' ring_ok_def mod_step split: if_splits)
  have t: "mq_tail q' = mq_tail q" by (simp add: q')
  have old: "msg_out (mq_storage q' ! ((mq_tail q + i) mod MQTT_QUEUE_SIZE)) = msg_out (mq_storage q ! ((mq_tail q + i) mod MQTT_QUEUE_SIZE))"
    if "i < ring_count q" for i
    using ring_slot_free [OF assms(1) that] by (simp add: q')
  have "(mq_tail q + ring_count q) mod MQTT_QUEUE_SIZE = mq_head q"
    using assms(1) ring_count_bound [OF assms(1)] mod_two [of "mq_tail q" "ring_count q"]
    by (auto simp: ring_count_eq ring_ok_def split: if_splits)
  then have new: "msg_out (mq_storage q' ! ((mq_tail q + ring_count q) mod MQTT_QUEUE_SIZE)) = as_published msg"
    using assms(1) by (simp add: q' ring_ok_def msg msg_out_fill)
  show ?thesis
    using ok old new by (simp add: ring_items_def cnt t)
qed

lemma ring_drop_items:
  assumes "ring_ok q" "ring_items q \<noteq> []"
  shows "ring_ok (ring_drop q) \<and> ring_items (ring_drop q) = tl (ring_items q)"
proof -
  let ?c = "ring_count q"
  have c: "0 < ?c" using assms(2) by (simp add: ring_count_pos)
  have ok: "ring_ok (ring_drop q)" using assms(1) by (simp add: ring_ok_def ring_drop_def)
  have cnt: "ring_count (ring_drop q) = ?c - 1"
    using assms(1) c ring_count_eq [OF ok] ring_count_eq [OF assms(1)]
    by (auto simp: ring_drop_def ring_ok_def mod_step split: if_splits)
  have "ring_items (ring_drop q) = map (\<lambda>i. msg_out (mq_storage q ! ((mq_tail q + Suc i) mod MQTT_QUEUE_SIZE))) [0..<?c - 1]"
    by (simp add: ring_items_def cnt) (simp add: ring_drop_def mod_add_left_eq)
  also have "... = tl (ring_items q)"
  proof -
    have "[0..<?c] = 0 # map Suc [0..<?c - 1]" using c by (simp add: upt_conv_Cons map_Suc_upt)
    then show ?thesis by (simp add: ring_items_def comp_def)
  qed
  finally show ?thesis using ok by blast
qed

interpretation ring: bounded_fifo ring_put ring_drop ring_items as_published ring_ok "MQTT_QUEUE_SIZE - 1"
proof unfold_locales
  fix q a assume ok: "ring_ok q"
  show "length (ring_items q) \<le> MQTT_QUEUE_SIZE - 1" using ring_count_bound [OF ok] by simp
  show "ring_put a q = None" if "length (ring_items q) = MQTT_QUEUE_SIZE - 1"
    using ring_put_full [OF ok] that by simp
  show "\<exists>q'. ring_put a q = Some q' \<and> ring_ok q' \<and> ring_items q' = ring_items q @ [as_published a]"
    if "length (ring_items q) < MQTT_QUEUE_SIZE - 1"
  proof -
    have "ring_put a q \<noteq> None" using that ring_put_full [OF ok, of a] by simp
    then show ?thesis using ring_put_items [OF ok, of a] by auto
  qed
qed (use ring_drop_items in blast)

lemma ring_front: "ring_items q \<noteq> [] \<Longrightarrow> ring_ok q \<Longrightarrow> hd (ring_items q) = msg_out (mq_storage q ! mq_tail q)"
proof -
  assume "ring_items q \<noteq> []" "ring_ok q"
  then have "0 < ring_count q" by (simp add: ring_count_pos)
  then have "[0..<ring_count q] = 0 # [1..<ring_count q]" by (simp add: upt_conv_Cons)
  with \<open>ring_ok q\<close> show ?thesis by (simp add: ring_items_def ring_ok_def)
qed

lemma ring_empty: "ring_ok q \<Longrightarrow> mq_head q = mq_tail q \<longleftrightarrow> ring_items q = []"
proof -
  assume ok: "ring_ok q"
  have "mq_head q = mq_tail q \<longleftrightarrow> ring_count q = 0" using ok by (auto simp: ring_count_eq ring_ok_def)
  also have "... \<longleftrightarrow> ring_items q = []" by (metis length_0_conv length_ring_items)
  finally show ?thesis .
qed

subsection \<open>The sender\<close>

definition mqtt_ok :: "'n mqtt_st \<Rightarrow> bool" where
  "mqtt_ok s \<longleftrightarrow> ring_ok (mq s) \<and> (is_sending s \<longrightarrow> ring_items (mq s) \<noteq> [])"

definition accepted :: "mqtt_event \<Rightarrow> 'n mqtt_st \<Rightarrow> published list" where
  "accepted e s = (case e of Publish topic payload qos retain \<Rightarrow>
       if ring_put (topic, payload, qos, retain) (mq s) = None then [] else [as_published (topic, payload, qos, retain)]
     | Request_done \<Rightarrow> [])"

definition completed :: "mqtt_event \<Rightarrow> 'n mqtt_st \<Rightarrow> published list" where
  "completed e s = (case e of Request_done \<Rightarrow> [hd (ring_items (mq s))] | _ \<Rightarrow> [])"

text \<open>A run, with what was accepted into the queue and what lwIP completed.\<close>

fun mqtt_run :: "(published \<Rightarrow> 'n \<Rightarrow> bool \<times> 'n) \<Rightarrow> mqtt_event list \<Rightarrow> 'n mqtt_st \<Rightarrow> ('n mqtt_st \<times> published list \<times> published list) option" where
  "mqtt_run pub [] s = Some (s, [], [])"
| "mqtt_run pub (e # es) s =
     (if mqtt_event_ok e s
      then (case mqtt_run pub es (mqtt_step pub e s) of
              None \<Rightarrow> None
            | Some (s', acc, cmp) \<Rightarrow> Some (s', accepted e s @ acc, completed e s @ cmp))
      else None)"

lemma send_next_mq [simp]: "mq (snd (mqtt_queue_send_next pub s)) = mq s"
  by (simp add: mqtt_queue_send_next_def Let_def split: prod.split)

lemma send_next_mqD: "mqtt_queue_send_next pub s = (r, s') \<Longrightarrow> mq s' = mq s"
  using send_next_mq [of pub s] by simp

lemma mqtt_step_ok:
  assumes "mqtt_ok s" "mqtt_event_ok e s"
  shows "mqtt_ok (mqtt_step pub e s)
    \<and> ring_items (mq s) @ accepted e s = completed e s @ ring_items (mq (mqtt_step pub e s))"
proof (cases e)
  case (Publish topic payload qos retain)
  let ?msg = "(topic, payload, qos, retain)"
  have ok: "ring_ok (mq s)" using assms(1) by (simp add: mqtt_ok_def)
  show ?thesis
  proof (cases "ring_put ?msg (mq s)")
    case None
    then show ?thesis using assms(1)
      by (simp add: Publish mqtt_step_def mqtt_queue_publish_def accepted_def completed_def mqtt_ok_def)
  next
    case (Some q)
    have q: "ring_ok q" "ring_items q = ring_items (mq s) @ [as_published ?msg]"
      using ring.put_SomeD [OF ok Some] by simp_all
    have m: "mq (mqtt_step pub e s) = q"
      using Some
      by (auto dest!: send_next_mqD simp: Publish mqtt_step_def mqtt_queue_publish_def Let_def split: prod.split)
    show ?thesis
      using q by (simp add: mqtt_ok_def m) (simp add: Publish accepted_def completed_def Some)
  qed
next
  case Request_done
  have ok: "ring_ok (mq s)" and ne: "ring_items (mq s) \<noteq> []"
    using assms by (simp_all add: mqtt_ok_def mqtt_event_ok_def Request_done)
  have d: "ring_ok (ring_drop (mq s))" "ring_items (ring_drop (mq s)) = tl (ring_items (mq s))"
    using ring.drop_ok [OF ok ne] by simp_all
  have m: "mq (mqtt_step pub e s) = ring_drop (mq s)"
    by (simp add: Request_done mqtt_step_def mqtt_pub_request_cb_def Let_def)
  have snd: "is_sending (mqtt_step pub e s) \<Longrightarrow> ring_items (ring_drop (mq s)) \<noteq> []"
    using ring_empty [OF d(1)]
    by (auto simp: Request_done mqtt_step_def mqtt_pub_request_cb_def Let_def split: if_splits)
  show ?thesis
    using d snd ne by (simp add: mqtt_ok_def m) (simp add: Request_done accepted_def completed_def)
qed

lemma mqtt_run_fifo:
  "mqtt_ok s \<Longrightarrow> mqtt_run pub es s = Some (s', acc, cmp) \<Longrightarrow>
   mqtt_ok s' \<and> ring_items (mq s) @ acc = cmp @ ring_items (mq s')"
proof (induction es arbitrary: s acc cmp)
  case (Cons e es)
  from Cons.prems(2) obtain acc1 cmp1 where r: "mqtt_event_ok e s" "mqtt_run pub es (mqtt_step pub e s) = Some (s', acc1, cmp1)"
    "acc = accepted e s @ acc1" "cmp = completed e s @ cmp1"
    by (auto split: if_splits option.splits)
  note st = mqtt_step_ok [OF Cons.prems(1) r(1), of pub]
  have "mqtt_ok s' \<and> ring_items (mq (mqtt_step pub e s)) @ acc1 = cmp1 @ ring_items (mq s')"
    using Cons.IH [OF _ r(2)] st by blast
  with st r(3,4) show ?case by (metis append.assoc)
qed simp

lemma mqtt_init_ok: "mqtt_ok (mqtt_init n)" "ring_items (mq (mqtt_init n)) = []"
  by (simp_all add: mqtt_ok_def ring_ok_def mqtt_init_def ring_items_def ring_count_def)

text \<open>The connection's timers.\<close>

datatype conn_event = Conn_cb bool | Reconnect bool int

definition conn_step :: "conn_event \<Rightarrow> 'n mqtt_st \<Rightarrow> 'n mqtt_st" where
  "conn_step e s = (case e of Conn_cb a \<Rightarrow> conn_cb a s
     | Reconnect new_ok sts \<Rightarrow> if reconnect_timers s = 0 then s else reconnect_cb new_ok sts s)"

interpretation conn: inv_machine conn_step "\<lambda>s. reconnect_timers s \<le> 1"
  by unfold_locales
    (auto simp: conn_step_def conn_cb_def reconnect_cb_def mqtt_app_init_client_def Let_def split: conn_event.split)

section \<open>Properties\<close>



text \<open>A publish request returns -1 exactly when 63 messages are queued, and then changes nothing but
  the overflow counter; otherwise the message, its topic cut to 39 and its payload to 16 bytes, is
  appended to the queue.\<close>

lemma mqtt_queue_publish_bounded:
  assumes "ring_ok (mq s)" "mqtt_queue_publish pub topic payload qos retain s = (r, s')"
  shows "(r = -1 \<longleftrightarrow> length (ring_items (mq s)) = 63)
    \<and> (r = -1 \<longrightarrow> s' = s\<lparr>tx_q_ovf := tx_q_ovf s + 1\<rparr>)
    \<and> (r \<noteq> -1 \<longrightarrow> ring_items (mq s') = ring_items (mq s) @
        [(take 39 (c_str topic), take 16 payload, qos, retain)])"
proof (cases "ring_put (topic, payload, qos, retain) (mq s)")
  case None
  with assms(2) ring.put_iff [OF assms(1)] show ?thesis by (auto simp: mqtt_queue_publish_def)
next
  case (Some q)
  have "mq s' = q" and r: "r \<noteq> -1"
    using assms(2)
    by (auto dest!: send_next_mqD simp: mqtt_queue_publish_def Some Let_def split: if_splits prod.splits)
  with ring.put_SomeD [OF assms(1) Some] ring.put_iff [OF assms(1), of "(topic, payload, qos, retain)"] Some
  show ?thesis by (simp add: as_published_def)
qed

lemma mqtt_queue_publish_bounded_witness:
  "ring_items (mq (snd (mqtt_queue_publish (\<lambda>m n. (True, n)) [0x74] [1, 2] 0 0 (mqtt_init ())))) = [([0x74], [1, 2], 0, 0)]"
proof -
  let ?p = "mqtt_queue_publish (\<lambda>m n. (True, n)) [0x74] [1, 2] 0 0 (mqtt_init ())"
  have "fst ?p = 0"
    by (simp add: mqtt_queue_publish_def mqtt_queue_send_next_def ring_put_def mqtt_init_def Let_def)
  then have "?p = (0, snd ?p)" by (metis prod.collapse)
  moreover have "ring_ok (mq (mqtt_init ()))" using mqtt_init_ok(1) [of "()"] by (simp add: mqtt_ok_def)
  ultimately show ?thesis
    using mqtt_queue_publish_bounded [of "mqtt_init ()" "\<lambda>m n. (True, n)" "[0x74]" "[1, 2]" 0 0 0 "snd ?p"] mqtt_init_ok(2) [of "()"]
    by (simp add: c_str_def)
qed

text \<open>At most one reconnect timer is ever pending, over any sequence of connection callbacks and
  timer expiries.\<close>

lemma mqtt_one_reconnect_timer:
  "reconnect_timers (fold conn_step es (mqtt_app_init_client new_ok sts (mqtt_init n))) \<le> 1"
  by (rule conn.inv_run) (simp add: mqtt_app_init_client_def mqtt_init_def)

end
