(* ===== verification/Router.thy ===== *)
theory Router
  imports Mqtt_Queue Can_Driver
begin

text \<open>
  The routing table from CAN to MQTT (app/comm/router.c): parsing of a route line, the table of at
  most 127 routes, and the publishing of received PDOs, at once, on change, or at most once per
  interval.  The router hands its messages to a parameter \<open>publish\<close>; the gateway's is
  \<open>mqtt_queue_publish\<close>.
\<close>

section \<open>Definitions\<close>

subsection \<open>Reading key=value pairs\<close>

text \<open>\<open>sscanf(ptr, " %31[^=]=%63[^ ]%n", key, val, &offset) == 2\<close>: key, value, and what is left.\<close>

definition scan_pair :: "bytes \<Rightarrow> (bytes \<times> bytes \<times> bytes) option" where
  "scan_pair s =
    (let s1 = dropWhile is_space s;
         key = take 31 (takeWhile (\<lambda>b. b \<noteq> 0x3D) s1)
     in if key = [] then None
        else case drop (length key) s1 of
               [] \<Rightarrow> None
             | c # s3 \<Rightarrow>
                 if c \<noteq> 0x3D then None
                 else let val = take 63 (takeWhile (\<lambda>b. b \<noteq> 0x20) s3)
                      in if val = [] then None else Some (key, val, drop (length val) s3))"

subsection \<open>Data types of the gateway\<close>

definition dataTypes :: "(bytes \<times> nat) list" where
  "dataTypes = map (\<lambda>(s, n). (ascii s, n))
    [(''hex'', 0), (''b'', 1), (''i8'', 1), (''i16'', 2), (''i32'', 4), (''i64'', 8), (''u8'', 1), (''u16'', 2),
     (''u32'', 4), (''u64'', 8), (''x8'', 1), (''x16'', 2), (''x32'', 4), (''x64'', 8), (''r32'', 4), (''r64'', 8),
     (''vs'', 0), (''os'', 0), (''us'', 0), (''d'', 0)]"

fun find_type :: "bytes \<Rightarrow> (bytes \<times> nat) list \<Rightarrow> nat \<Rightarrow> nat option" where
  "find_type token [] i = None"
| "find_type token ((s, n) # ts) i = (if token = s then Some i else find_type token ts (i + 1))"

definition CO_GTWA_getDataType :: "bytes \<Rightarrow> nat option" where
  "CO_GTWA_getDataType token = find_type token dataTypes 0"

definition type_len :: "u8 \<Rightarrow> nat" where
  "type_len t = snd (dataTypes ! unat t)"

subsection \<open>The table\<close>

abbreviation MAX_ROUTES :: nat where "MAX_ROUTES \<equiv> 128"

record route =
  is_mqtt_to_pdo :: bool
  rt_data :: bytes
  rt_data_prev :: bytes
  rt_type :: u8
  rt_topic :: bytes
  rt_can_id :: u8
  rt_pdo_n :: u8
  rt_offset :: u8
  publish_interval_ms :: int
  last_pub_td :: u32
  rt_qos :: u8
  rt_retain :: u8
  flag_new_msg :: bool

record router_t =
  routes :: "route list"
  entries_cnt :: nat
  pdo_rx_cnt :: u32

definition route_zero :: route where
  "route_zero = \<lparr>is_mqtt_to_pdo = False, rt_data = replicate 8 0, rt_data_prev = replicate 8 0, rt_type = 0, rt_topic = [],
     rt_can_id = 0, rt_pdo_n = 0, rt_offset = 0, publish_interval_ms = 0, last_pub_td = 0, rt_qos = 0, rt_retain = 0,
     flag_new_msg = False\<rparr>"

definition router_init :: router_t where
  "router_init = \<lparr>routes = replicate MAX_ROUTES route_zero, entries_cnt = 0, pdo_rx_cnt = 0\<rparr>"

text \<open>One key of a route line: 0 to go on, or the error that is returned.\<close>

definition route_key :: "bytes \<Rightarrow> bytes \<Rightarrow> route \<Rightarrow> int \<times> route" where
  "route_key key val r =
    (if key = ascii ''id'' then
       (let v = atoi val in (if v \<le> 1 \<or> v > 127 then -3 else 0, r\<lparr>rt_can_id := of_int v\<rparr>))
     else if key = ascii ''off'' then
       (let v = atoi val in (if v < 0 \<or> v > 7 then -4 else 0, r\<lparr>rt_offset := of_int v\<rparr>))
     else if key = ascii ''pdo'' then
       (let v = atoi val in (if v < 0 \<or> v > 3 then -5 else 0, r\<lparr>rt_pdo_n := of_int v\<rparr>))
     else if key = ascii ''retain'' then (0, r\<lparr>rt_retain := 1\<rparr>)
     else if key = ascii ''qos'' then
       (let v = atoi val in (if v < 0 \<or> v > 2 then -6 else 0, r\<lparr>rt_qos := of_int v\<rparr>))
     else if key = ascii ''interval'' then (0, r\<lparr>publish_interval_ms := atoi val\<rparr>)
     else if key = ascii ''topic'' then (0, r\<lparr>rt_topic := take 38 val\<rparr>)
     else if key = ascii ''type'' then
       (case CO_GTWA_getDataType val of None \<Rightarrow> (-7, r) | Some i \<Rightarrow> (0, r\<lparr>rt_type := of_nat i\<rparr>))
     else if key = ascii ''is_cmd'' then (0, r\<lparr>is_mqtt_to_pdo := True\<rparr>)
     else (-2, r))"

lemma scan_pair_shorter: "scan_pair s = Some (key, val, rest) \<Longrightarrow> length rest < length s"
proof -
  assume "scan_pair s = Some (key, val, rest)"
  then obtain c s3 where "drop (length key) (dropWhile is_space s) = c # s3" "rest = drop (length val) s3" "key \<noteq> []"
    by (auto simp: scan_pair_def Let_def split: if_splits list.splits)
  moreover have "length (drop (length key) (dropWhile is_space s)) = length (dropWhile is_space s) - length key" by simp
  moreover have "length (dropWhile is_space s) \<le> length s" by (rule length_dropWhile_le)
  ultimately show ?thesis by (cases key) auto
qed

function parse_route :: "bytes \<Rightarrow> route \<Rightarrow> int \<times> route" where
  "parse_route s r =
    (case scan_pair s of
       None \<Rightarrow> (0, r)
     | Some (key, val, rest) \<Rightarrow>
         (case route_key key val r of (c, r') \<Rightarrow> if c \<noteq> 0 then (c, r') else parse_route rest r'))"
  by pat_completeness auto

termination by (relation "measure (length \<circ> fst)") (auto dest: scan_pair_shorter)

declare parse_route.simps [simp del]

definition router_add_entry :: "bytes \<Rightarrow> router_t \<Rightarrow> int \<times> router_t" where
  "router_add_entry s g =
    (if entries_cnt g + 1 \<ge> MAX_ROUTES then (-1, g)
     else case parse_route (c_str s) route_zero of (c, r) \<Rightarrow>
       (let g1 = g\<lparr>routes := (routes g)[entries_cnt g := r]\<rparr>
        in if c \<noteq> 0 then (c, g1)
           else if rt_type r = 0 \<or> unat (rt_type r) \<ge> length dataTypes then (-7, g1)
           else if unat (rt_offset r) + type_len (rt_type r) > 8 then (-8, g1)
           else if \<exists>x \<in> set (take (entries_cnt g) (routes g)). rt_topic r = rt_topic x then (-9, g1)
           else (0, g1\<lparr>entries_cnt := entries_cnt g + 1\<rparr>)))"

subsection \<open>Publishing\<close>

type_synonym 'q publisher = "bytes \<Rightarrow> bytes \<Rightarrow> u8 \<Rightarrow> u8 \<Rightarrow> 'q \<Rightarrow> int \<times> 'q"

definition set_route :: "nat \<Rightarrow> route \<Rightarrow> router_t \<Rightarrow> router_t" where
  "set_route i r g = g\<lparr>routes := (routes g)[i := r]\<rparr>"

definition check_try_send :: "'q publisher \<Rightarrow> nat \<Rightarrow> router_t \<times> 'q \<Rightarrow> router_t \<times> 'q" where
  "check_try_send publish it s =
    (case s of (g, q) \<Rightarrow>
      (let r = routes g ! it
       in if publish_interval_ms r > 0 \<and> last_pub_td r < of_int (publish_interval_ms r) then (g, q)
          else case publish (rt_topic r) (take (type_len (rt_type r)) (rt_data r)) (rt_qos r) (rt_retain r) q of (sts, q') \<Rightarrow>
            if sts \<ge> 0 then (set_route it (r\<lparr>flag_new_msg := False, last_pub_td := 0\<rparr>) g, q') else (g, q')))"

text \<open>The body of the loop of \<open>router_add_pdo\<close> for entry \<open>i\<close>; \<open>memcpy\<close> byte by byte.\<close>

definition add_pdo_at :: "'q publisher \<Rightarrow> can_msg \<Rightarrow> u8 \<Rightarrow> nat \<Rightarrow> router_t \<times> 'q \<Rightarrow> router_t \<times> 'q" where
  "add_pdo_at publish msg rpdo_n i s =
    (case s of (g, q) \<Rightarrow>
      (let r = routes g ! i
       in if rt_pdo_n r = rpdo_n \<and> ucast (rt_can_id r) = msg_id msg AND 0x7F
          then let l = type_len (rt_type r);
                   new = map (\<lambda>k. msg_data msg ! (unat (rt_offset r) + k)) [0..<l];
                   r1 = r\<lparr>rt_data := new @ drop l (rt_data r)\<rparr>
               in if publish_interval_ms r1 < 0 \<and> take l (rt_data r1) = take l (rt_data_prev r1) then (set_route i r1 g, q)
                  else check_try_send publish i
                         (set_route i (r1\<lparr>rt_data_prev := new @ drop l (rt_data_prev r1), flag_new_msg := True\<rparr>) g, q)
          else (g, q)))"

definition router_add_pdo :: "'q publisher \<Rightarrow> can_msg \<Rightarrow> u8 \<Rightarrow> router_t \<times> 'q \<Rightarrow> router_t \<times> 'q" where
  "router_add_pdo publish msg rpdo_n s =
    (case s of (g, q) \<Rightarrow>
      fold (add_pdo_at publish msg rpdo_n) [0..<entries_cnt g] (g\<lparr>pdo_rx_cnt := pdo_rx_cnt g + 1\<rparr>, q))"

definition poll_at :: "'q publisher \<Rightarrow> u32 \<Rightarrow> nat \<Rightarrow> router_t \<times> 'q \<Rightarrow> router_t \<times> 'q" where
  "poll_at publish diff_ms i s =
    (case s of (g, q) \<Rightarrow>
      (let r = (routes g ! i)\<lparr>last_pub_td := last_pub_td (routes g ! i) + diff_ms\<rparr>;
           g1 = set_route i r g
       in if flag_new_msg r then check_try_send publish i (g1, q) else (g1, q)))"

definition router_poll :: "'q publisher \<Rightarrow> u32 \<Rightarrow> router_t \<times> 'q \<Rightarrow> router_t \<times> 'q" where
  "router_poll publish diff_ms s = (case s of (g, q) \<Rightarrow> fold (poll_at publish diff_ms) [0..<entries_cnt g] (g, q))"

text \<open>The frames the CAN interrupt reports: PDOs 1 to 4 of nodes, by their identifier.\<close>

definition in_range :: "u32 \<Rightarrow> u32 \<Rightarrow> u32 \<Rightarrow> bool" where
  "in_range v lo hi \<longleftrightarrow> v \<ge> lo \<and> v \<le> hi"

definition can_drv_rxed :: "'q publisher \<Rightarrow> can_msg \<Rightarrow> router_t \<times> 'q \<Rightarrow> router_t \<times> 'q" where
  "can_drv_rxed publish msg s =
    (if \<not> msg_IDE msg \<and> \<not> msg_RTR msg \<and> msg_DLC msg \<noteq> 0
     then let s1 = (if in_range (msg_id msg) 0x180 0x1FF then router_add_pdo publish msg 0 s else s);
              s2 = (if in_range (msg_id msg) 0x280 0x2FF then router_add_pdo publish msg 1 s1 else s1);
              s3 = (if in_range (msg_id msg) 0x380 0x3FF then router_add_pdo publish msg 2 s2 else s2)
          in if in_range (msg_id msg) 0x480 0x4FF then router_add_pdo publish msg 3 s3 else s3
     else s)"

subsection \<open>Runs\<close>

datatype router_event = Add_entry bytes | Frame can_msg | Poll u32

definition router_step :: "'q publisher \<Rightarrow> router_event \<Rightarrow> router_t \<times> 'q \<Rightarrow> router_t \<times> 'q" where
  "router_step publish e s = (case e of
     Add_entry line \<Rightarrow> (case s of (g, q) \<Rightarrow> (snd (router_add_entry line g), q))
   | Frame msg \<Rightarrow> can_drv_rxed publish msg s
   | Poll diff_ms \<Rightarrow> router_poll publish diff_ms s)"

section \<open>What the table keeps\<close>

definition route_ok :: "route \<Rightarrow> bool" where
  "route_ok r \<longleftrightarrow> 1 \<le> unat (rt_type r) \<and> unat (rt_type r) \<le> 19
     \<and> unat (rt_offset r) + type_len (rt_type r) \<le> 8
     \<and> (rt_can_id r = 0 \<or> 2 \<le> unat (rt_can_id r) \<and> unat (rt_can_id r) \<le> 127)
     \<and> unat (rt_pdo_n r) \<le> 3 \<and> unat (rt_qos r) \<le> 2
     \<and> length (rt_topic r) \<le> 38 \<and> 0 \<notin> set (rt_topic r)
     \<and> - 2147483648 \<le> publish_interval_ms r \<and> publish_interval_ms r \<le> 2147483647
     \<and> length (rt_data r) = 8 \<and> length (rt_data_prev r) = 8"

definition router_ok :: "router_t \<Rightarrow> bool" where
  "router_ok g \<longleftrightarrow> length (routes g) = MAX_ROUTES \<and> entries_cnt g < MAX_ROUTES
     \<and> (\<forall>i < entries_cnt g. route_ok (routes g ! i))
     \<and> distinct (map rt_topic (take (entries_cnt g) (routes g)))"

text \<open>The fields a route line sets.\<close>

definition route_cfg :: "route \<Rightarrow> route" where
  "route_cfg r = r\<lparr>rt_data := [], rt_data_prev := [], last_pub_td := 0, flag_new_msg := False\<rparr>"

text \<open>Publishing changes the entries' data, timers and flags only.\<close>

definition keeps :: "router_t \<Rightarrow> router_t \<Rightarrow> bool" where
  "keeps g g' \<longleftrightarrow> entries_cnt g' = entries_cnt g \<and> length (routes g') = length (routes g)
     \<and> (\<forall>i < entries_cnt g. route_cfg (routes g' ! i) = route_cfg (routes g ! i)
          \<and> (route_ok (routes g ! i) \<longrightarrow> route_ok (routes g' ! i)))"

lemma route_cfgD:
  assumes "route_cfg r = route_cfg r'"
  shows "rt_topic r = rt_topic r'" "rt_type r = rt_type r'" "publish_interval_ms r = publish_interval_ms r'"
    "rt_can_id r = rt_can_id r'" "rt_pdo_n r = rt_pdo_n r'" "rt_offset r = rt_offset r'" "rt_qos r = rt_qos r'" "rt_retain r = rt_retain r'"
  using assms by (cases r; cases r'; simp add: route_cfg_def)+

lemma keeps_refl [simp]: "keeps g g"
  by (simp add: keeps_def)

lemma keeps_trans: "keeps g g' \<Longrightarrow> keeps g' g'' \<Longrightarrow> keeps g g''"
  by (simp add: keeps_def)

lemma keeps_set_route:
  assumes "route_cfg r = route_cfg (routes g ! i)" "route_ok (routes g ! i) \<Longrightarrow> route_ok r"
  shows "keeps g (set_route i r g)"
proof (cases "i < length (routes g)")
  case True
  then have "(routes g)[i := r] ! j = (if j = i then r else routes g ! j)" for j by (simp add: nth_list_update)
  then show ?thesis using assms by (simp add: keeps_def set_route_def)
qed (simp add: set_route_def list_update_beyond)

lemma keeps_ok: "router_ok g \<Longrightarrow> keeps g g' \<Longrightarrow> router_ok g'"
proof -
  assume ok: "router_ok g" and k: "keeps g g'"
  have "map rt_topic (take (entries_cnt g') (routes g')) = map rt_topic (take (entries_cnt g) (routes g))"
  proof (rule nth_equalityI)
    have l: "length (routes g) = MAX_ROUTES" "length (routes g') = MAX_ROUTES" "entries_cnt g' = entries_cnt g" "entries_cnt g < MAX_ROUTES"
      using ok k by (simp_all add: router_ok_def keeps_def)
    then show "length (map rt_topic (take (entries_cnt g') (routes g'))) = length (map rt_topic (take (entries_cnt g) (routes g)))" by simp
    fix i assume "i < length (map rt_topic (take (entries_cnt g') (routes g')))"
    then have i: "i < entries_cnt g" using l by simp
    then have "route_cfg (routes g' ! i) = route_cfg (routes g ! i)" using k unfolding keeps_def by blast
    from route_cfgD(1) [OF this] i l
    show "map rt_topic (take (entries_cnt g') (routes g')) ! i = map rt_topic (take (entries_cnt g) (routes g)) ! i" by simp
  qed
  moreover have "\<forall>i < entries_cnt g. route_ok (routes g' ! i)" using ok k unfolding router_ok_def keeps_def by blast
  ultimately show ?thesis using ok k unfolding router_ok_def keeps_def by metis
qed

lemma check_try_send_keeps: "keeps g (fst (check_try_send publish i (g, q)))"
proof -
  have "keeps g (set_route i ((routes g ! i)\<lparr>flag_new_msg := False, last_pub_td := 0\<rparr>) g)"
    by (rule keeps_set_route) (simp_all add: route_cfg_def route_ok_def)
  then show ?thesis by (simp add: check_try_send_def Let_def case_prod_beta)
qed

lemma keeps_try: "keeps g g' \<Longrightarrow> keeps g (fst (check_try_send publish i (g', q)))"
  by (rule keeps_trans [OF _ check_try_send_keeps])

lemma keeps_if: "keeps g (fst a) \<Longrightarrow> keeps g (fst b) \<Longrightarrow> keeps g (fst (if c then a else b))"
  by simp

lemma add_pdo_at_keeps: "keeps g (fst (add_pdo_at publish msg n i (g, q)))"
proof -
  let ?r = "routes g ! i"
  let ?l = "type_len (rt_type ?r)"
  have a: "keeps g (set_route i (?r\<lparr>rt_data := map f [0..<?l] @ drop ?l (rt_data ?r)\<rparr>) g)" for f
    by (rule keeps_set_route) (auto simp: route_cfg_def route_ok_def)
  have b: "keeps g (set_route i (?r\<lparr>rt_data := map f [0..<?l] @ drop ?l (rt_data ?r),
        rt_data_prev := map f [0..<?l] @ drop ?l (rt_data_prev ?r), flag_new_msg := True\<rparr>) g)" for f
    by (rule keeps_set_route) (auto simp: route_cfg_def route_ok_def)
  show ?thesis unfolding add_pdo_at_def Let_def prod.case by (intro keeps_if) (simp_all add: a keeps_try [OF b])
qed

lemma poll_at_keeps: "keeps g (fst (poll_at publish d i (g, q)))"
proof -
  let ?r = "(routes g ! i)\<lparr>last_pub_td := last_pub_td (routes g ! i) + d\<rparr>"
  have "keeps g (set_route i ?r g)" by (rule keeps_set_route) (simp_all add: route_cfg_def route_ok_def)
  then show ?thesis by (simp add: poll_at_def Let_def keeps_try)
qed

lemma fold_keeps:
  "(\<And>i g q. keeps g (fst (f i (g, q)))) \<Longrightarrow> keeps g (fst (fold f xs (g, q)))"
proof (induction xs arbitrary: g q)
  case (Cons x xs)
  have "keeps (fst (f x (g, q))) (fst (fold f xs (f x (g, q))))"
    using Cons.IH [OF Cons.prems, of "fst (f x (g, q))" "snd (f x (g, q))"] by simp
  with keeps_trans [OF Cons.prems] show ?case by simp
qed simp

lemma router_add_pdo_keeps: "keeps g (fst (router_add_pdo publish msg n (g, q)))"
proof -
  have "keeps g (g\<lparr>pdo_rx_cnt := pdo_rx_cnt g + 1\<rparr>)" by (simp add: keeps_def)
  from keeps_trans [OF this fold_keeps [of "add_pdo_at publish msg n", OF add_pdo_at_keeps]]
  show ?thesis by (simp add: router_add_pdo_def)
qed

lemma router_poll_keeps: "keeps g (fst (router_poll publish d (g, q)))"
  using fold_keeps [of "poll_at publish d", OF poll_at_keeps] by (simp add: router_poll_def)

lemma can_drv_rxed_keeps: "keeps g (fst (can_drv_rxed publish msg (g, q)))"
proof -
  define st where "st b n s = (if b then router_add_pdo publish msg n s else s)" for b n s
  have st: "keeps g0 (fst s) \<Longrightarrow> keeps g0 (fst (st b n s))" for b n g0 s
    using router_add_pdo_keeps [of "fst s" publish msg n "snd s"] by (auto simp: st_def intro: keeps_trans)
  have "can_drv_rxed publish msg s = (if \<not> msg_IDE msg \<and> \<not> msg_RTR msg \<and> msg_DLC msg \<noteq> 0
    then st (in_range (msg_id msg) 0x480 0x4FF) 3 (st (in_range (msg_id msg) 0x380 0x3FF) 2
      (st (in_range (msg_id msg) 0x280 0x2FF) 1 (st (in_range (msg_id msg) 0x180 0x1FF) 0 s))) else s)" for s
    by (simp add: can_drv_rxed_def st_def Let_def)
  then show ?thesis by (auto intro!: st)
qed

section \<open>Adding an entry\<close>

lemma unat_of_int_u8: "0 \<le> v \<Longrightarrow> v < 256 \<Longrightarrow> unat (of_int v :: u8) = nat v"
  by (simp add: unsigned_of_int take_bit_int_eq_self)

lemma find_type_bounds: "find_type token ts i = Some j \<Longrightarrow> i \<le> j \<and> j < i + length ts"
  by (induction token ts i rule: find_type.induct) (fastforce split: if_splits)+

lemma length_dataTypes [simp]: "length dataTypes = 20"
  by (simp add: dataTypes_def)

lemma getDataType_bound: "CO_GTWA_getDataType val = Some i \<Longrightarrow> i < 20"
  using find_type_bounds [of val dataTypes 0 i] by (simp add: CO_GTWA_getDataType_def)

text \<open>What a line keeps of the entry being filled.\<close>

definition route_pre :: "route \<Rightarrow> bool" where
  "route_pre r \<longleftrightarrow> unat (rt_type r) < 20
     \<and> (rt_can_id r = 0 \<or> 2 \<le> unat (rt_can_id r) \<and> unat (rt_can_id r) \<le> 127)
     \<and> unat (rt_pdo_n r) \<le> 3 \<and> unat (rt_qos r) \<le> 2
     \<and> length (rt_topic r) \<le> 38 \<and> 0 \<notin> set (rt_topic r)
     \<and> - 2147483648 \<le> publish_interval_ms r \<and> publish_interval_ms r \<le> 2147483647
     \<and> length (rt_data r) = 8 \<and> length (rt_data_prev r) = 8"

lemma clamp32_range: "- 2147483648 \<le> clamp32 v" "clamp32 v \<le> 2147483647"
  by (simp_all add: clamp32_def)

lemma atoi_range: "- 2147483648 \<le> atoi s" "atoi s \<le> 2147483647"
  using clamp32_range by (auto simp: atoi_def Let_def split: list.split)

lemma if_pair_elim: "(if c then a else b) = x \<Longrightarrow> (c \<Longrightarrow> a = x \<Longrightarrow> P) \<Longrightarrow> (\<not> c \<Longrightarrow> b = x \<Longrightarrow> P) \<Longrightarrow> P"
  by (simp split: if_splits)

lemma route_key_pre:
  assumes "route_key key val r = (0, r')" "route_pre r" "0 \<notin> set val"
  shows "route_pre r'"
proof -
  have t: "0 \<notin> set (take 38 val)" using assms(3) by (meson in_set_takeD)
  have e: "unat (of_nat i :: u8) = i" if "i < 20" for i using that by (simp add: unat_of_nat take_bit_nat_eq_self)
  note facts = route_pre_def unat_of_int_u8 e
  show ?thesis
    using assms(1) unfolding route_key_def Let_def
    by (elim if_pair_elim)
      (use assms(2) t atoi_range [of val] getDataType_bound [of val] in \<open>auto simp: facts split: if_splits option.splits\<close>)
qed

lemma scan_pair_val: "scan_pair s = Some (key, val, rest) \<Longrightarrow> set val \<subseteq> set s \<and> set rest \<subseteq> set s"
proof -
  assume "scan_pair s = Some (key, val, rest)"
  then obtain c s3 where d: "drop (length key) (dropWhile is_space s) = c # s3" and v: "val = take 63 (takeWhile (\<lambda>b. b \<noteq> 0x20) s3)"
    and r: "rest = drop (length val) s3"
    by (auto simp: scan_pair_def Let_def split: if_splits list.splits)
  have "set s3 \<subseteq> set (dropWhile is_space s)" using set_drop_subset [of "length key" "dropWhile is_space s"] d by auto
  then have "set s3 \<subseteq> set s" using set_dropWhileD by fastforce
  moreover have "set val \<subseteq> set s3" unfolding v by (meson in_set_takeD set_takeWhileD subsetI)
  ultimately show ?thesis using r set_drop_subset by fastforce
qed

lemma parse_route_pre: "parse_route s r = (0, r') \<Longrightarrow> route_pre r \<Longrightarrow> 0 \<notin> set s \<Longrightarrow> route_pre r'"
proof (induction s r rule: parse_route.induct)
  case (1 s r)
  show ?case
  proof (cases "scan_pair s")
    case None
    with "1.prems" show ?thesis by (simp add: parse_route.simps)
  next
    case (Some p)
    obtain key val rest where p: "p = (key, val, rest)" by (cases p)
    obtain c r1 where k: "route_key key val r = (c, r1)" by fastforce
    note sub = scan_pair_val [OF Some [unfolded p]]
    from "1.prems"(1) have c: "c = 0" "parse_route rest r1 = (0, r')"
      by (auto simp: parse_route.simps [of s] Some p k split: if_splits)
    have "route_pre r1" using route_key_pre [OF k [unfolded c(1)] "1.prems"(2)] sub "1.prems"(3) by blast
    then show ?thesis using "1.IH" [OF Some p [symmetric] refl k [symmetric]] c sub "1.prems"(3) by blast
  qed
qed

lemma route_zero_pre: "route_pre route_zero"
  by (simp add: route_pre_def route_zero_def)

lemma router_add_ok:
  assumes "router_ok g"
  shows "router_ok (snd (router_add_entry s g))
    \<and> take (entries_cnt g) (routes (snd (router_add_entry s g))) = take (entries_cnt g) (routes g)
    \<and> entries_cnt (snd (router_add_entry s g)) = (if fst (router_add_entry s g) = 0 then entries_cnt g + 1 else entries_cnt g)"
proof (cases "entries_cnt g + 1 \<ge> MAX_ROUTES")
  case True
  with assms show ?thesis by (simp add: router_add_entry_def)
next
  case False
  obtain c r where pr: "parse_route (c_str s) route_zero = (c, r)" by fastforce
  let ?n = "entries_cnt g"
  let ?g1 = "g\<lparr>routes := (routes g)[?n := r]\<rparr>"
  have g1: "router_ok ?g1" "take ?n (routes ?g1) = take ?n (routes g)"
    using assms by (simp_all add: router_ok_def)
  show ?thesis
  proof (cases "fst (router_add_entry s g) = 0")
    case False': False
    have "snd (router_add_entry s g) = ?g1"
      using False False' by (auto simp: router_add_entry_def pr Let_def split: if_splits)
    with g1 False' show ?thesis by simp
  next
    case True
    then have c: "c = 0" "rt_type r \<noteq> 0" "unat (rt_type r) < 20" "unat (rt_offset r) + type_len (rt_type r) \<le> 8"
      "\<not> (\<exists>x \<in> set (take ?n (routes g)). rt_topic r = rt_topic x)"
      and s: "snd (router_add_entry s g) = ?g1\<lparr>entries_cnt := ?n + 1\<rparr>"
      using False by (auto simp: router_add_entry_def pr Let_def split: if_splits)
    have "route_pre r" using parse_route_pre [OF pr [unfolded c(1)] route_zero_pre c_str_no_zero] .
    then have r: "route_ok r" using c by (simp add: route_ok_def route_pre_def unat_gt_0 Suc_leI)
    have len: "?n < length (routes g)" using assms by (simp add: router_ok_def)
    have "take (Suc ?n) ((routes g)[?n := r]) = take ?n (routes g) @ [r]"
      using len by (simp add: take_Suc_conv_app_nth)
    moreover have "route_ok ((routes g)[?n := r] ! i)" if "i < Suc ?n" for i
      using that r assms by (cases "i = ?n") (simp_all add: router_ok_def)
    ultimately show ?thesis
      unfolding s using True assms False c(5) by (auto simp: router_ok_def)
  qed
qed

section \<open>The invariant\<close>

interpretation router: inv_machine "router_step publish" "\<lambda>s. router_ok (fst s)" for publish :: "'q publisher"
proof unfold_locales
  fix s :: "router_t \<times> 'q" and e assume ok: "router_ok (fst s)"
  obtain g q where s: "s = (g, q)" by fastforce
  show "router_ok (fst (router_step publish e s))"
    using ok router_add_ok keeps_ok [OF _ can_drv_rxed_keeps] keeps_ok [OF _ router_poll_keeps]
    by (cases e) (simp_all add: router_step_def s)
qed

lemma router_init_ok: "router_ok router_init"
  by (simp add: router_ok_def router_init_def)

section \<open>Writing a route line\<close>

definition render :: "(bytes \<times> bytes) list \<Rightarrow> bytes" where
  "render kvs = concat (map (\<lambda>(k, v). 0x20 # k @ 0x3D # v) kvs)"

definition kv_ok :: "bytes \<times> bytes \<Rightarrow> bool" where
  "kv_ok kv \<longleftrightarrow> (case kv of (k, v) \<Rightarrow>
     k \<noteq> [] \<and> length k \<le> 31 \<and> 0x3D \<notin> set k \<and> \<not> is_space (hd k) \<and> v \<noteq> [] \<and> length v \<le> 63 \<and> 0x20 \<notin> set v
     \<and> 0 \<notin> set k \<and> 0 \<notin> set v)"

fun set_keys :: "(bytes \<times> bytes) list \<Rightarrow> route \<Rightarrow> int \<times> route" where
  "set_keys [] r = (0, r)"
| "set_keys ((k, v) # kvs) r = (case route_key k v r of (c, r') \<Rightarrow> if c \<noteq> 0 then (c, r') else set_keys kvs r')"

lemma render_simps [simp]: "render [] = []" "render ((k, v) # kvs) = 0x20 # k @ 0x3D # v @ render kvs"
  by (simp_all add: render_def)

lemma render_start: "kvs \<noteq> [] \<Longrightarrow> hd (render kvs) = 0x20 \<and> render kvs \<noteq> []"
  by (cases kvs) auto

lemma takeWhile_stop: "x \<notin> set k \<Longrightarrow> takeWhile (\<lambda>b. b \<noteq> x) (k @ x # r) = k"
  by (subst takeWhile_append2) auto

lemma is_space_20: "is_space 0x20"
  by (simp add: is_space_def)

lemma scan_render:
  assumes "kv_ok (k, v)"
  shows "scan_pair (render ((k, v) # kvs)) = Some (k, v, render kvs)"
proof -
  have ok: "k \<noteq> []" "length k \<le> 31" "0x3D \<notin> set k" "\<not> is_space (hd k)" "v \<noteq> []" "length v \<le> 63" "0x20 \<notin> set v"
    using assms by (simp_all add: kv_ok_def)
  have s1: "dropWhile is_space (render ((k, v) # kvs)) = k @ 0x3D # v @ render kvs"
    using ok(1,4) is_space_20 by (cases k) simp_all
  have v: "takeWhile (\<lambda>b. b \<noteq> 0x20) (v @ render kvs) = v"
  proof (cases kvs)
    case Nil
    then show ?thesis using ok(7) by (auto simp: takeWhile_eq_all_conv)
  next
    case (Cons kv kvs')
    then obtain tl' where "render kvs = 0x20 # tl'" by (cases kv) auto
    then show ?thesis using takeWhile_stop [OF ok(7)] by simp
  qed
  show ?thesis
    unfolding scan_pair_def Let_def s1 takeWhile_stop [OF ok(3)]
    using ok v by simp
qed

lemma scan_pair_Nil: "scan_pair [] = None"
  by (simp add: scan_pair_def)

lemma parse_render: "\<forall>kv \<in> set kvs. kv_ok kv \<Longrightarrow> parse_route (render kvs) r = set_keys kvs r"
proof (induction kvs arbitrary: r)
  case Nil
  then show ?case by (simp add: parse_route.simps scan_pair_Nil)
next
  case (Cons kv kvs)
  obtain k v where kv: "kv = (k, v)" by (cases kv)
  have "scan_pair (render (kv # kvs)) = Some (k, v, render kvs)" using Cons.prems scan_render kv by simp
  then show ?case using Cons by (simp add: parse_route.simps [of "render ((k, v) # kvs)"] kv del: render_simps split: prod.split)
qed

lemma render_no_zero: "\<forall>kv \<in> set kvs. kv_ok kv \<Longrightarrow> 0 \<notin> set (render kvs)"
  by (induction kvs) (auto simp: kv_ok_def)

text \<open>The line of a route, as a user writes it.\<close>

definition route_line :: "bytes \<Rightarrow> int \<Rightarrow> int \<Rightarrow> int \<Rightarrow> nat \<Rightarrow> int \<Rightarrow> int \<Rightarrow> bytes" where
  "route_line topic node pdo off ty qos interval = render
    [(ascii ''topic'', topic), (ascii ''id'', int_digits node), (ascii ''pdo'', int_digits pdo), (ascii ''off'', int_digits off),
     (ascii ''type'', fst (dataTypes ! ty)), (ascii ''qos'', int_digits qos), (ascii ''interval'', int_digits interval)]"

lemma all_less_20: "(\<forall>i < (20::nat). P i) \<longleftrightarrow> P 0 \<and> P 1 \<and> P 2 \<and> P 3 \<and> P 4 \<and> P 5 \<and> P 6 \<and> P 7 \<and> P 8 \<and> P 9
    \<and> P 10 \<and> P 11 \<and> P 12 \<and> P 13 \<and> P 14 \<and> P 15 \<and> P 16 \<and> P 17 \<and> P 18 \<and> P 19"
  by (simp add: All_less_Suc2 numeral_eq_Suc)

lemma kv_ok_keys:
  "kv_ok (ascii ''topic'', v) \<longleftrightarrow> v \<noteq> [] \<and> length v \<le> 63 \<and> 0x20 \<notin> set v \<and> 0 \<notin> set v"
  "kv_ok (ascii ''id'', v) \<longleftrightarrow> v \<noteq> [] \<and> length v \<le> 63 \<and> 0x20 \<notin> set v \<and> 0 \<notin> set v"
  "kv_ok (ascii ''pdo'', v) \<longleftrightarrow> v \<noteq> [] \<and> length v \<le> 63 \<and> 0x20 \<notin> set v \<and> 0 \<notin> set v"
  "kv_ok (ascii ''off'', v) \<longleftrightarrow> v \<noteq> [] \<and> length v \<le> 63 \<and> 0x20 \<notin> set v \<and> 0 \<notin> set v"
  "kv_ok (ascii ''qos'', v) \<longleftrightarrow> v \<noteq> [] \<and> length v \<le> 63 \<and> 0x20 \<notin> set v \<and> 0 \<notin> set v"
  "kv_ok (ascii ''interval'', v) \<longleftrightarrow> v \<noteq> [] \<and> length v \<le> 63 \<and> 0x20 \<notin> set v \<and> 0 \<notin> set v"
  by (simp_all add: kv_ok_def ascii_def is_space_def)

lemma dataTypes_syntax: "i < 20 \<Longrightarrow> CO_GTWA_getDataType (fst (dataTypes ! i)) = Some i \<and> kv_ok (ascii ''type'', fst (dataTypes ! i))"
proof -
  have "\<forall>i < (20::nat). CO_GTWA_getDataType (fst (dataTypes ! i)) = Some i \<and> kv_ok (ascii ''type'', fst (dataTypes ! i))"
    unfolding all_less_20 by code_simp
  then show "i < 20 \<Longrightarrow> ?thesis" by blast
qed


lemma add_route_line:
  assumes "router_ok g" "entries_cnt g < 127"
    and "topic \<noteq> []" "length topic \<le> 38" "0x20 \<notin> set topic" "0 \<notin> set topic"
    and "\<forall>i < entries_cnt g. rt_topic (routes g ! i) \<noteq> topic"
    and "2 \<le> node" "node \<le> 127" "0 \<le> pdo" "pdo \<le> 3" "0 \<le> off" "off \<le> 7" "0 \<le> qos" "qos \<le> 2"
    and "1 \<le> ty" "ty \<le> 19" "nat off + type_len (of_nat ty) \<le> 8"
    and "- 2147483648 \<le> interval" "interval \<le> 2147483647"
  shows "router_add_entry (route_line topic node pdo off ty qos interval) g = (0, g\<lparr>entries_cnt := entries_cnt g + 1,
      routes := (routes g)[entries_cnt g := route_zero\<lparr>rt_topic := topic, rt_can_id := of_int node, rt_pdo_n := of_int pdo,
        rt_offset := of_int off, rt_type := of_nat ty, rt_qos := of_int qos, publish_interval_ms := interval\<rparr>]\<rparr>)"
proof -
  let ?r = "route_zero\<lparr>rt_topic := topic, rt_can_id := of_int node, rt_pdo_n := of_int pdo,
        rt_offset := of_int off, rt_type := of_nat ty, rt_qos := of_int qos, publish_interval_ms := interval\<rparr>"
  let ?kvs = "[(ascii ''topic'', topic), (ascii ''id'', int_digits node), (ascii ''pdo'', int_digits pdo), (ascii ''off'', int_digits off),
     (ascii ''type'', fst (dataTypes ! ty)), (ascii ''qos'', int_digits qos), (ascii ''interval'', int_digits interval)]"
  have at: "atoi (int_digits node) = node" "atoi (int_digits pdo) = pdo" "atoi (int_digits off) = off"
    "atoi (int_digits qos) = qos" "atoi (int_digits interval) = interval"
    using assms by (simp_all add: atoi_int_digits)
  have ty: "CO_GTWA_getDataType (fst (dataTypes ! ty)) = Some ty" using dataTypes_syntax assms by simp
  have keys: "set_keys ?kvs route_zero = (0, ?r)"
    using assms by (simp add: route_key_def ascii_def at ty Let_def del: ascii_length)
  have ok: "\<forall>kv \<in> set ?kvs. kv_ok kv"
    using assms int_digits_ok [of node] int_digits_ok [of pdo] int_digits_ok [of off] int_digits_ok [of qos]
      int_digits_ok [of interval] dataTypes_syntax [of ty] by (simp add: kv_ok_keys)
  have "c_str (route_line topic node pdo off ty qos interval) = render ?kvs"
    using render_no_zero [OF ok] by (auto simp: route_line_def c_str_def takeWhile_eq_all_conv simp del: render_simps)
  then have p: "parse_route (c_str (route_line topic node pdo off ty qos interval)) route_zero = (0, ?r)"
    using parse_render [OF ok] keys by simp
  have u: "unat (of_nat ty :: u8) = ty" "unat (of_int off :: u8) = nat off"
    using assms by (simp_all add: unat_of_int_u8 unat_of_nat take_bit_nat_eq_self)
  have "entries_cnt g < length (routes g)" using assms(1) by (simp add: router_ok_def)
  then have t: "\<not> (\<exists>x \<in> set (take (entries_cnt g) (routes g)). topic = rt_topic x)"
    by (auto simp: in_set_conv_nth) (use assms(7) in blast)
  have "(of_nat ty :: u8) \<noteq> 0" using u(1) assms by auto
  with assms u t show ?thesis by (simp add: router_add_entry_def p Let_def)
qed


text \<open>A node's reading of two bytes, published every time it comes.\<close>

definition ex_topic :: bytes where
  "ex_topic = ascii ''t/a''"

text \<open>C10: after any sequence of route lines, CAN frames and polls, whatever the publisher answers, every
  entry of the table has a type with a length, lies within the 8 bytes of a frame, has a valid node,
  PDO number and quality of service, and a topic of at most 38 characters that no other entry has; and
  there are at most 127 entries.\<close>

lemma router_table_ok: "router_ok (fst (fold (router_step publish) es (router_init, q)))"
  by (rule router.inv_run) (simp add: router_init_ok)

text \<open>C34: a refused line leaves every entry of the table and their number as they were; an accepted one adds one
  entry behind them.\<close>

lemma router_add_entry_atomic:
  assumes "router_ok g" "router_add_entry line g = (c, g')"
  shows "take (entries_cnt g) (routes g') = take (entries_cnt g) (routes g)
    \<and> entries_cnt g' = (if c = 0 then entries_cnt g + 1 else entries_cnt g) \<and> router_ok g'"
  using router_add_ok [OF assms(1), of line] assms(2) by simp

lemma router_add_entry_atomic_witness:
  "router_ok (snd (router_add_entry (ascii '' id=5 topic=x'') router_init))"
proof -
  let ?p = "router_add_entry (ascii '' id=5 topic=x'') router_init"
  have "?p = (fst ?p, snd ?p)" by simp
  from router_add_entry_atomic [OF router_init_ok this] show ?thesis by simp
qed

section \<open>How often a route publishes\<close>

text \<open>The publisher that also keeps the topics it accepted.\<close>

definition log_pub :: "'q publisher \<Rightarrow> ('q \<times> bytes list) publisher" where
  "log_pub publish topic data qos retain s =
    (case s of (q, log) \<Rightarrow> case publish topic data qos retain q of (sts, q') \<Rightarrow>
       (sts, (q', if sts \<ge> 0 then log @ [topic] else log)))"

definition budget :: "nat \<Rightarrow> nat \<Rightarrow> bytes \<Rightarrow> router_t \<times> 'q \<times> bytes list \<Rightarrow> nat" where
  "budget P i t s = (case s of (g, q, log) \<Rightarrow> count_list log t * P + unat (last_pub_td (routes g ! i)))"

definition tracked :: "nat \<Rightarrow> nat \<Rightarrow> bytes \<Rightarrow> router_t \<Rightarrow> bool" where
  "tracked P i t g \<longleftrightarrow> router_ok g \<and> i < entries_cnt g \<and> rt_topic (routes g ! i) = t \<and> publish_interval_ms (routes g ! i) = int P"

lemma tracked_keeps: "tracked P i t g \<Longrightarrow> keeps g g' \<Longrightarrow> tracked P i t g'"
  using keeps_ok [of g g'] route_cfgD(1,3) [of "routes g' ! i" "routes g ! i"]
  unfolding tracked_def keeps_def by metis

lemma tracked_other:
  assumes "tracked P i t g" "j < entries_cnt g" "j \<noteq> i"
  shows "rt_topic (routes g ! j) \<noteq> t"
proof -
  let ?ts = "map rt_topic (take (entries_cnt g) (routes g))"
  have "distinct ?ts" "i < length ?ts" "j < length ?ts" using assms by (auto simp: tracked_def router_ok_def)
  then have "?ts ! j \<noteq> ?ts ! i" using assms(3) nth_eq_iff_index_eq by blast
  then show ?thesis using assms by (simp add: tracked_def router_ok_def)
qed

lemma tracked_u32: "tracked P i t g \<Longrightarrow> unat (of_int (int P) :: u32) = P"
proof -
  assume "tracked P i t g"
  then have "route_ok (routes g ! i)" "publish_interval_ms (routes g ! i) = int P" by (simp_all add: tracked_def router_ok_def)
  then have "int P \<le> 2147483647" by (simp add: route_ok_def)
  then show ?thesis using unat_of_nat_u32 [of P] by simp
qed

lemma try_budget:
  assumes "tracked P i t g" "0 < P" "j < entries_cnt g"
  shows "budget P i t (check_try_send (log_pub publish) j (g, s)) \<le> budget P i t (g, s)"
proof -
  obtain q log where s: "s = (q, log)" by fastforce
  let ?r = "routes g ! j"
  obtain sts q' where p: "publish (rt_topic ?r) (take (type_len (rt_type ?r)) (rt_data ?r)) (rt_qos ?r) (rt_retain ?r) q = (sts, q')" by fastforce
  have len: "j < length (routes g)" "i < length (routes g)" using assms by (auto simp: tracked_def router_ok_def)
  have res: "check_try_send (log_pub publish) j (g, s) =
    (if publish_interval_ms ?r > 0 \<and> last_pub_td ?r < of_int (publish_interval_ms ?r) then (g, s)
     else if sts \<ge> 0 then (set_route j (?r\<lparr>flag_new_msg := False, last_pub_td := 0\<rparr>) g, (q', log @ [rt_topic ?r]))
     else (g, (q', log)))"
    by (simp add: s check_try_send_def Let_def log_pub_def p)
  show ?thesis
  proof (cases "j = i")
    case True
    have iv: "publish_interval_ms ?r = int P" "rt_topic ?r = t" using assms(1) True by (simp_all add: tracked_def)
    have "\<not> last_pub_td ?r < of_int (int P) \<Longrightarrow> P \<le> unat (last_pub_td ?r)"
      using tracked_u32 [OF assms(1)] by (simp add: not_less word_le_nat_alt)
    then show ?thesis
      unfolding res using len True assms(2) iv by (auto simp: s budget_def set_route_def)
  next
    case False
    then show ?thesis
      unfolding res using len tracked_other [OF assms(1,3)] by (auto simp: s budget_def set_route_def)
  qed
qed

lemma set_route_budget:
  "last_pub_td r = last_pub_td (routes g ! j) + d \<Longrightarrow>
   budget P i t (set_route j r g, s) \<le> budget P i t (g, s) + (if j = i then unat d else 0)"
proof -
  assume r: "last_pub_td r = last_pub_td (routes g ! j) + d"
  have "unat (last_pub_td (routes g ! j) + d) \<le> unat (last_pub_td (routes g ! j)) + unat d" by (metis unat_word_ariths(1) mod_less_eq_dividend)
  then show ?thesis
    using r by (cases "j < length (routes g)") (auto simp: budget_def set_route_def nth_list_update list_update_beyond split: prod.split)
qed

lemma add_at_budget:
  assumes "tracked P i t g" "0 < P" "j < entries_cnt g"
  shows "budget P i t (add_pdo_at (log_pub publish) msg n j (g, s)) \<le> budget P i t (g, s)"
proof -
  have b: "budget P i t (set_route j r g, s) \<le> budget P i t (g, s)" if "last_pub_td r = last_pub_td (routes g ! j)" for r
    using set_route_budget [of r g j 0 P i t s] that by (simp split: if_splits)
  have k: "budget P i t (check_try_send (log_pub publish) j (set_route j r g, s)) \<le> budget P i t (g, s)"
    if "keeps g (set_route j r g)" "last_pub_td r = last_pub_td (routes g ! j)" for r
    using try_budget [OF tracked_keeps [OF assms(1) that(1)] assms(2), of j publish s] b [OF that(2)] assms(3)
    by (simp add: set_route_def)
  show ?thesis
    unfolding add_pdo_at_def Let_def prod.case
    by (auto intro!: b k keeps_set_route simp: route_cfg_def route_ok_def)
qed

lemma poll_at_budget:
  assumes "tracked P i t g" "0 < P" "j < entries_cnt g"
  shows "budget P i t (poll_at (log_pub publish) d j (g, s)) \<le> budget P i t (g, s) + (if j = i then unat d else 0)"
proof -
  let ?r = "(routes g ! j)\<lparr>last_pub_td := last_pub_td (routes g ! j) + d\<rparr>"
  have b: "budget P i t (set_route j ?r g, s) \<le> budget P i t (g, s) + (if j = i then unat d else 0)"
    by (rule set_route_budget) simp
  have "keeps g (set_route j ?r g)" by (rule keeps_set_route) (simp_all add: route_cfg_def route_ok_def)
  from try_budget [OF tracked_keeps [OF assms(1) this] assms(2), of j publish s] assms(3)
  have "budget P i t (check_try_send (log_pub publish) j (set_route j ?r g, s)) \<le> budget P i t (set_route j ?r g, s)"
    by (simp add: set_route_def)
  from order_trans [OF this b] b show ?thesis
    by (cases "flag_new_msg (routes g ! j)") (simp_all add: poll_at_def Let_def split del: if_split)
qed

lemma fold_budget:
  fixes f :: "nat \<Rightarrow> router_t \<times> 'q \<times> bytes list \<Rightarrow> router_t \<times> 'q \<times> bytes list"
  assumes "\<And>g s j. keeps g (fst (f j (g, s)))"
    and "\<And>g s j. tracked P i t g \<Longrightarrow> j < entries_cnt g \<Longrightarrow> budget P i t (f j (g, s)) \<le> budget P i t (g, s) + c j"
  shows "tracked P i t g \<Longrightarrow> (\<forall>j \<in> set xs. j < entries_cnt g) \<Longrightarrow>
    budget P i t (fold f xs (g, s)) \<le> budget P i t (g, s) + sum_list (map c xs)"
proof (induction xs arbitrary: g s)
  case (Cons x xs)
  obtain g1 s1 where f: "f x (g, s) = (g1, s1)" by (metis surj_pair)
  have k: "keeps g g1" using assms(1) [of g x s] f by simp
  have "budget P i t (fold f xs (g1, s1)) \<le> budget P i t (g1, s1) + sum_list (map c xs)"
    using Cons.IH [OF tracked_keeps [OF Cons.prems(1) k]] Cons.prems(2) k by (simp add: keeps_def)
  moreover have "budget P i t (g1, s1) \<le> budget P i t (g, s) + c x"
    using assms(2) [OF Cons.prems(1), of x s] Cons.prems(2) f by simp
  ultimately show ?case by (simp add: f)
qed simp


lemma add_pdo_budget:
  assumes "tracked P i t g" "0 < P"
  shows "budget P i t (router_add_pdo (log_pub publish) msg n (g, s)) \<le> budget P i t (g, s)"
proof -
  let ?g = "g\<lparr>pdo_rx_cnt := pdo_rx_cnt g + 1\<rparr>"
  have k: "keeps g ?g" by (simp add: keeps_def)
  have "budget P i t (fold (add_pdo_at (log_pub publish) msg n) [0..<entries_cnt g] (?g, s))
      \<le> budget P i t (?g, s) + sum_list (map (\<lambda>_. 0) [0..<entries_cnt g])"
    by (rule fold_budget [where f = "add_pdo_at (log_pub publish) msg n", OF add_pdo_at_keeps _ tracked_keeps [OF assms(1) k]])
      (simp_all add: add_at_budget assms(2))
  then show ?thesis by (simp add: router_add_pdo_def budget_def split: prod.split)
qed

lemma poll_budget:
  assumes "tracked P i t g" "0 < P"
  shows "budget P i t (router_poll (log_pub publish) d (g, s)) \<le> budget P i t (g, s) + unat d"
proof -
  have "budget P i t (fold (poll_at (log_pub publish) d) [0..<entries_cnt g] (g, s))
      \<le> budget P i t (g, s) + sum_list (map (\<lambda>j. if j = i then unat d else 0) [0..<entries_cnt g])"
    by (rule fold_budget [where f = "poll_at (log_pub publish) d", OF poll_at_keeps poll_at_budget [OF _ assms(2)] assms(1)]) simp_all
  moreover have "sum_list (map (\<lambda>j. if j = i then unat d else 0) [0..<n]) \<le> unat d" for n
    by (induction n) auto
  ultimately show ?thesis by (fastforce simp: router_poll_def intro: le_trans)
qed

lemma rxed_budget:
  fixes publish :: "'q publisher"
  assumes "tracked P i t g" "0 < P"
  shows "budget P i t (can_drv_rxed (log_pub publish) msg (g, s)) \<le> budget P i t (g, s)"
proof -
  define st where "st b n x = (if b then router_add_pdo (log_pub publish) msg n x else x)" for b n x
  define ok where "ok x \<longleftrightarrow> tracked P i t (fst x) \<and> budget P i t x \<le> budget P i t (g, s)" for x :: "router_t \<times> 'q \<times> bytes list"
  have st: "ok x \<Longrightarrow> ok (st b n x)" for b n x
    using add_pdo_budget [of P i t "fst x" publish msg n "snd x"] tracked_keeps [OF _ router_add_pdo_keeps, of P i t "fst x" _ msg n "snd x"] assms(2)
    by (auto simp: st_def ok_def)
  have "can_drv_rxed (log_pub publish) msg x = (if \<not> msg_IDE msg \<and> \<not> msg_RTR msg \<and> msg_DLC msg \<noteq> 0
    then st (in_range (msg_id msg) 0x480 0x4FF) 3 (st (in_range (msg_id msg) 0x380 0x3FF) 2
      (st (in_range (msg_id msg) 0x280 0x2FF) 1 (st (in_range (msg_id msg) 0x180 0x1FF) 0 x))) else x)" for x
    by (simp add: can_drv_rxed_def st_def Let_def)
  moreover have "ok (g, s)" using assms(1) by (simp add: ok_def)
  then have "ok (st (in_range (msg_id msg) 0x480 0x4FF) 3 (st (in_range (msg_id msg) 0x380 0x3FF) 2
      (st (in_range (msg_id msg) 0x280 0x2FF) 1 (st (in_range (msg_id msg) 0x180 0x1FF) 0 (g, s)))))" by (intro st)
  ultimately show ?thesis by (simp add: ok_def)
qed

definition elapsed :: "router_event \<Rightarrow> nat" where
  "elapsed e = (case e of Poll d \<Rightarrow> unat d | _ \<Rightarrow> 0)"

lemma router_step_budget:
  assumes "tracked P i t g" "0 < P"
  shows "tracked P i t (fst (router_step (log_pub publish) e (g, s)))
    \<and> budget P i t (router_step (log_pub publish) e (g, s)) \<le> budget P i t (g, s) + elapsed e"
proof (cases e)
  case (Add_entry line)
  note a = router_add_ok [of g line]
  have "routes (snd (router_add_entry line g)) ! i = routes g ! i"
    using a assms(1) by (metis nth_take tracked_def)
  with a assms show ?thesis by (auto simp: Add_entry router_step_def elapsed_def tracked_def budget_def split: prod.split)
next
  case (Frame msg)
  then show ?thesis
    by (simp add: router_step_def elapsed_def rxed_budget [OF assms] tracked_keeps [OF assms(1) can_drv_rxed_keeps])
next
  case (Poll d)
  then show ?thesis
    by (simp add: router_step_def elapsed_def poll_budget [OF assms] tracked_keeps [OF assms(1) router_poll_keeps])
qed

lemma router_run_budget:
  "tracked P i t g \<Longrightarrow> 0 < P \<Longrightarrow>
   budget P i t (fold (router_step (log_pub publish)) es (g, s)) \<le> budget P i t (g, s) + sum_list (map elapsed es)"
proof (induction es arbitrary: g s)
  case (Cons e es)
  obtain g1 s1 where r: "router_step (log_pub publish) e (g, s) = (g1, s1)" by (metis surj_pair)
  from router_step_budget [OF Cons.prems, of publish e s] Cons.IH [of g1 s1] Cons.prems(2) r
  show ?case by simp
qed simp

text \<open>C6: an entry with a positive interval never publishes more often than its interval allows: over any
  sequence of route lines, CAN frames and polls, the number of its accepted messages times the interval
  is at most the time that has passed in polls, plus the time already on its timer.\<close>

lemma router_rate_limit:
  assumes "router_ok g" "i < entries_cnt g" "publish_interval_ms (routes g ! i) = int P" "0 < P"
  shows "count_list (snd (snd (fold (router_step (log_pub publish)) es (g, (q, []))))) (rt_topic (routes g ! i)) * P
    \<le> sum_list (map elapsed es) + unat (last_pub_td (routes g ! i))"
proof -
  have "tracked P i (rt_topic (routes g ! i)) g" using assms by (simp add: tracked_def)
  from router_run_budget [OF this assms(4), of publish es "(q, [])"]
  show ?thesis by (auto simp: budget_def split: prod.splits)
qed

definition ex_router :: "int \<Rightarrow> router_t" where
  "ex_router iv = snd (router_add_entry (route_line ex_topic 5 1 2 7 0 iv) router_init)"

lemma ex_router_eq:
  assumes "0 \<le> iv" "iv \<le> 1000"
  shows "ex_router iv = router_init\<lparr>entries_cnt := 1, routes := (routes router_init)[0 :=
    route_zero\<lparr>rt_topic := ex_topic, rt_can_id := 5, rt_pdo_n := 1, rt_offset := 2, rt_type := 7, rt_qos := 0, publish_interval_ms := iv\<rparr>]\<rparr>"
proof -
  have "type_len 7 = 2" by (simp add: type_len_def dataTypes_def)
  moreover have "entries_cnt router_init = 0" by (simp add: router_init_def)
  moreover have "ex_topic \<noteq> []" "length ex_topic \<le> 38" "0x20 \<notin> set ex_topic" "0 \<notin> set ex_topic"
    by (simp_all add: ex_topic_def ascii_def)
  ultimately show ?thesis
    using add_route_line [OF router_init_ok, of ex_topic 5 1 2 0 7 iv] assms by (simp add: ex_router_def)
qed

lemma ex_router_facts:
  assumes "0 \<le> iv" "iv \<le> 1000"
  shows "router_ok (ex_router iv)" "entries_cnt (ex_router iv) = 1" "publish_interval_ms (routes (ex_router iv) ! 0) = iv"
  "rt_topic (routes (ex_router iv) ! 0) = ex_topic" "last_pub_td (routes (ex_router iv) ! 0) = 0"
  "rt_can_id (routes (ex_router iv) ! 0) = 5" "rt_pdo_n (routes (ex_router iv) ! 0) = 1" "rt_type (routes (ex_router iv) ! 0) = 7"
  "rt_offset (routes (ex_router iv) ! 0) = 2"
  using router_add_ok [OF router_init_ok, of "route_line ex_topic 5 1 2 7 0 iv"]
  by (simp add: ex_router_def) (simp_all add: ex_router_eq [OF assms] router_init_def route_zero_def)

text \<open>The line written for a route that is in range is accepted by a table with room for it and no such
  topic yet, and the entry stored is that route, exactly; the entries already there are unchanged.\<close>

lemma router_entry_round_trip:
  assumes "router_ok g" "entries_cnt g < 127"
    and "topic \<noteq> []" "length topic \<le> 38" "0x20 \<notin> set topic" "0 \<notin> set topic"
    and "\<forall>i < entries_cnt g. rt_topic (routes g ! i) \<noteq> topic"
    and "2 \<le> node" "node \<le> 127" "0 \<le> pdo" "pdo \<le> 3" "0 \<le> off" "off \<le> 7" "0 \<le> qos" "qos \<le> 2"
    and "1 \<le> ty" "ty \<le> 19" "nat off + type_len (of_nat ty) \<le> 8"
    and "- 2147483648 \<le> interval" "interval \<le> 2147483647"
    and "router_add_entry (route_line topic node pdo off ty qos interval) g = (c, g')"
  shows "c = 0 \<and> entries_cnt g' = entries_cnt g + 1 \<and> take (entries_cnt g) (routes g') = take (entries_cnt g) (routes g)
    \<and> routes g' ! entries_cnt g = route_zero\<lparr>rt_topic := topic, rt_can_id := of_int node, rt_pdo_n := of_int pdo,
        rt_offset := of_int off, rt_type := of_nat ty, rt_qos := of_int qos, publish_interval_ms := interval\<rparr>"
proof -
  have "entries_cnt g < length (routes g)" using assms(1) by (simp add: router_ok_def)
  with add_route_line [OF assms(1-20)] assms(21) show ?thesis by auto
qed

lemma router_entry_round_trip_witness:
  "rt_can_id (routes (ex_router 1000) ! 0) = 5 \<and> rt_offset (routes (ex_router 1000) ! 0) = 2"
proof -
  have t: "type_len 7 = 2" by (simp add: type_len_def dataTypes_def)
  have e: "entries_cnt router_init = 0" by (simp add: router_init_def)
  have x: "ex_topic \<noteq> []" "length ex_topic \<le> 38" "0x20 \<notin> set ex_topic" "0 \<notin> set ex_topic"
    by (simp_all add: ex_topic_def ascii_def)
  let ?p = "router_add_entry (route_line ex_topic 5 1 2 7 0 1000) router_init"
  have p: "?p = (fst ?p, ex_router 1000)" by (simp add: ex_router_def)
  from router_entry_round_trip [OF router_init_ok _ x _ _ _ _ _ _ _ _ _ _ _ _ _ _ p] t e show ?thesis by simp
qed

lemma router_rate_limit_witness:
  "count_list (snd (snd (fold (router_step (log_pub (\<lambda>_ _ _ _ n. (0, n)))) [Poll 900, Poll 200] (ex_router 1000, (0 :: nat, []))))) ex_topic * 1000 \<le> 1100"
proof -
  have u: "elapsed (Poll 900) = 900" "elapsed (Poll 200) = 200" by (simp_all add: elapsed_def)
  show ?thesis
    using router_rate_limit [of "ex_router 1000" 0 1000 "\<lambda>_ _ _ _ n. (0, n)" "[Poll 900, Poll 200]" 0] u
    by (simp add: ex_router_facts del: fold_simps)
qed

section \<open>From the bus to the queue\<close>

lemma route_payload:
  assumes "route_ok r" "length d = 8"
  shows "map (\<lambda>k. d ! (unat (rt_offset r) + k)) [0..<type_len (rt_type r)] = take (type_len (rt_type r)) (drop (unat (rt_offset r)) d)"
  using assms by (intro nth_equalityI) (auto simp: route_ok_def)

lemma add_pdo_no_match:
  assumes "\<not> (rt_pdo_n (routes g ! j) = n \<and> ucast (rt_can_id (routes g ! j)) = msg_id msg AND 0x7F)"
  shows "add_pdo_at publish msg n j (g, q) = (g, q)"
  unfolding add_pdo_at_def prod.case Let_def by (rule if_not_P) (rule assms)

lemma fold_no_match:
  "\<forall>j \<in> set xs. \<not> (rt_pdo_n (routes g ! j) = n \<and> ucast (rt_can_id (routes g ! j)) = msg_id msg AND 0x7F) \<Longrightarrow>
   fold (add_pdo_at publish msg n) xs (g, q) = (g, q)"
  by (induction xs) (simp_all add: add_pdo_no_match)

lemma add_pdo_match:
  assumes ok: "router_ok g" and i: "i < entries_cnt g" and d: "length (msg_data msg) = 8"
    and r: "r = routes g ! i" and m: "rt_pdo_n r = n" "ucast (rt_can_id r) = msg_id msg AND 0x7F" "publish_interval_ms r = 0"
    and o: "\<forall>j < entries_cnt g. j \<noteq> i \<longrightarrow> \<not> (rt_pdo_n (routes g ! j) = n \<and> ucast (rt_can_id (routes g ! j)) = msg_id msg AND 0x7F)"
  shows "snd (router_add_pdo publish msg n (g, q)) =
    snd (publish (rt_topic r) (take (type_len (rt_type r)) (drop (unat (rt_offset r)) (msg_data msg))) (rt_qos r) (rt_retain r) q)"
proof -
  let ?g = "g\<lparr>pdo_rx_cnt := pdo_rx_cnt g + 1\<rparr>"
  let ?f = "add_pdo_at publish msg n"
  have xs: "[0..<entries_cnt g] = [0..<i] @ i # [Suc i..<entries_cnt g]"
    using i upt_add_eq_append [of 0 i "entries_cnt g - i"] by (simp add: upt_conv_Cons)
  have len: "i < length (routes g)" using ok i by (simp add: router_ok_def)
  have rok: "route_ok r" using ok i r by (simp add: router_ok_def)
  obtain g1 q1 where s: "?f i (?g, q) = (g1, q1)" by fastforce
  have k: "keeps ?g g1" using add_pdo_at_keeps [of ?g publish msg n i q] s by simp
  have "fold ?f [Suc i..<entries_cnt g] (g1, q1) = (g1, q1)"
  proof (rule fold_no_match, intro ballI)
    fix j assume "j \<in> set [Suc i..<entries_cnt g]"
    then have j: "j < entries_cnt g" "j \<noteq> i" by auto
    then have "route_cfg (routes g1 ! j) = route_cfg (routes g ! j)" using k by (simp add: keeps_def)
    with o j show "\<not> (rt_pdo_n (routes g1 ! j) = n \<and> ucast (rt_can_id (routes g1 ! j)) = msg_id msg AND 0x7F)"
      using route_cfgD(4,5) by metis
  qed
  moreover have "fold ?f [0..<i] (?g, q) = (?g, q)" by (rule fold_no_match) (use o i in auto)
  ultimately have "snd (router_add_pdo publish msg n (g, q)) = q1" by (simp add: router_add_pdo_def xs s)
  moreover have z: "type_len (rt_type r) - min (length (msg_data msg) - unat (rt_offset r)) (type_len (rt_type r)) = 0"
  proof -
    have "unat (rt_offset r) + type_len (rt_type r) \<le> 8" using rok by (simp add: route_ok_def)
    with d show ?thesis by simp
  qed
  have "q1 = snd (publish (rt_topic r) (take (type_len (rt_type r)) (drop (unat (rt_offset r)) (msg_data msg))) (rt_qos r) (rt_retain r) q)"
    using s m len route_payload [OF rok d] z
    by (simp add: add_pdo_at_def r [symmetric] Let_def check_try_send_def set_route_def case_prod_beta split: if_splits)
  ultimately show ?thesis by simp
qed

lemma unat_ucast_u8: "unat (ucast (a :: u8) :: u32) = unat a"
proof -
  have "unat a < 2 ^ LENGTH(8)" by (rule unsigned_less)
  then show ?thesis by (simp add: unsigned_ucast_eq take_bit_nat_eq_self)
qed

lemma ucast_eq_iff_u8: "(ucast (a :: u8) :: u32) = ucast b \<longleftrightarrow> a = b"
  by (metis word_unat_eq_iff unat_ucast_u8)

lemma queue_publish_items:
  assumes "ring_ok (mq q)" "length (ring_items (mq q)) < 63"
  shows "ring_items (mq (snd (mqtt_queue_publish pub topic payload qos retain q))) = ring_items (mq q) @ [as_published (topic, payload, qos, retain)]"
proof -
  obtain q' where q': "ring_put (topic, payload, qos, retain) (mq q) = Some q'" "ring_items q' = ring_items (mq q) @ [as_published (topic, payload, qos, retain)]"
    using ring.put_room [OF assms(1)] assms(2) by fastforce
  then show ?thesis
    using send_next_mq [of pub "q\<lparr>mq := q'\<rparr>"] by (auto simp: mqtt_queue_publish_def Let_def case_prod_beta)
qed

lemma pdo_id:
  assumes "unat (p :: u8) \<le> 3" "1 \<le> unat (c :: u8)" "unat c \<le> 127" "idn = 0x180 + push_bit 8 (ucast p) + ucast c"
  shows "unat (idn :: u32) = 384 + 256 * unat p + unat c" "idn AND 0x7F = ucast c"
proof -
  have c: "unat (ucast c :: u32) = unat c" by (rule unat_ucast_u8)
  have "p = of_nat (unat p)" by simp
  moreover consider "unat p = 0" | "unat p = 1" | "unat p = 2" | "unat p = 3" using assms(1) by linarith
  ultimately have p: "(0x180 + push_bit 8 (ucast p) :: u32) = of_nat (384 + 256 * unat p)"
    by cases (simp_all add: push_bit_eq_mult)
  have "unat (of_nat (384 + 256 * unat p) :: u32) = 384 + 256 * unat p"
    using assms(1) by (intro unat_of_nat_u32) simp
  then show u: "unat idn = 384 + 256 * unat p + unat c"
    unfolding assms(4) p using c assms by (subst unat_plus_if') simp
  have "unat (idn AND mask 7) = unat idn mod 128"
    unfolding take_bit_eq_mask [symmetric] by (subst unsigned_take_bit_eq) (simp add: take_bit_eq_mod)
  also have "unat idn = unat c + 128 * (3 + 2 * unat p)" using u by simp
  also have "... mod 128 = unat c" using assms(3) by (simp only: mod_mult_self2 mod_less)
  finally have "unat (idn AND mask 7) = unat c" .
  then have "idn AND mask 7 = ucast c" using c by (metis word_unat_eq_iff)
  then show "idn AND 0x7F = ucast c" by (simp add: mask_eq_exp_minus_1)
qed

lemma rxed_pdo:
  assumes "\<not> msg_IDE msg" "\<not> msg_RTR msg" "msg_DLC msg \<noteq> 0" "unat (p :: u8) \<le> 3" "unat (c :: u8) \<le> 127"
    and "unat (msg_id msg) = 384 + 256 * unat p + unat c"
  shows "can_drv_rxed publish msg s = router_add_pdo publish msg p s"
proof -
  have e: "p = of_nat (unat p)" by simp
  consider "unat p = 0" | "unat p = 1" | "unat p = 2" | "unat p = 3" using assms(4) by linarith
  then show ?thesis
  proof cases
    case 1 with e assms show ?thesis by (simp add: can_drv_rxed_def in_range_def word_le_nat_alt)
  next
    case 2 with e assms show ?thesis by (simp add: can_drv_rxed_def in_range_def word_le_nat_alt)
  next
    case 3 with e assms show ?thesis by (simp add: can_drv_rxed_def in_range_def word_le_nat_alt)
  next
    case 4 with e assms show ?thesis by (simp add: can_drv_rxed_def in_range_def word_le_nat_alt)
  qed
qed

text \<open>C22: a PDO that matches one entry which publishes every time is forwarded: the bytes of the frame the entry
  names, and no others, are appended to the MQTT queue under the entry's topic.\<close>

lemma router_forwards_pdo:
  assumes "router_ok g" "i < entries_cnt g" "publish_interval_ms (routes g ! i) = 0" "rt_can_id (routes g ! i) \<noteq> 0"
    and "\<forall>j < entries_cnt g. j \<noteq> i \<longrightarrow> (rt_can_id (routes g ! j), rt_pdo_n (routes g ! j)) \<noteq> (rt_can_id (routes g ! i), rt_pdo_n (routes g ! i))"
    and "ring_ok (mq q)" "length (ring_items (mq q)) < 63"
    and "\<not> msg_IDE msg" "\<not> msg_RTR msg" "msg_DLC msg \<noteq> 0" "length (msg_data msg) = 8"
    and "msg_id msg = 0x180 + push_bit 8 (ucast (rt_pdo_n (routes g ! i))) + ucast (rt_can_id (routes g ! i))"
  shows "ring_items (mq (snd (can_drv_rxed (mqtt_queue_publish pub) msg (g, q)))) = ring_items (mq q) @
    [(rt_topic (routes g ! i), take (type_len (rt_type (routes g ! i))) (drop (unat (rt_offset (routes g ! i))) (msg_data msg)),
      rt_qos (routes g ! i), rt_retain (routes g ! i))]"
proof -
  let ?r = "routes g ! i"
  have rok: "route_ok ?r" using assms by (simp add: router_ok_def)
  have n: "unat (rt_pdo_n ?r) \<le> 3" "1 \<le> unat (rt_can_id ?r)" "unat (rt_can_id ?r) \<le> 127"
    using rok assms(4) by (auto simp: route_ok_def)
  note idn = pdo_id [OF n assms(12)]
  have t: "c_str (rt_topic ?r) = rt_topic ?r" "length (rt_topic ?r) \<le> 38"
    using rok by (auto simp: route_ok_def c_str_def takeWhile_eq_all_conv)
  have "type_len (rt_type ?r) \<le> 8" using rok by (simp add: route_ok_def)
  then have "as_published (rt_topic ?r, take (type_len (rt_type ?r)) (drop (unat (rt_offset ?r)) (msg_data msg)), rt_qos ?r, rt_retain ?r)
    = (rt_topic ?r, take (type_len (rt_type ?r)) (drop (unat (rt_offset ?r)) (msg_data msg)), rt_qos ?r, rt_retain ?r)"
    using t by (simp add: as_published_def min_def)
  moreover have "\<forall>j < entries_cnt g. j \<noteq> i \<longrightarrow>
      \<not> (rt_pdo_n (routes g ! j) = rt_pdo_n ?r \<and> ucast (rt_can_id (routes g ! j)) = msg_id msg AND 0x7F)"
    using assms(5) unfolding idn(2) by (auto simp: ucast_eq_iff_u8)
  ultimately show ?thesis
    unfolding rxed_pdo [OF assms(8-10) n(1,3) idn(1)]
    by (subst add_pdo_match [OF assms(1,2,11) refl refl idn(2) [symmetric] assms(3)]) (simp_all add: queue_publish_items [OF assms(6,7)])
qed


lemma router_forwards_pdo_witness:
  "ring_items (mq (snd (can_drv_rxed (mqtt_queue_publish (\<lambda>_ n. (True, n)))
      \<lparr>msg_id = 0x285, msg_IDE = False, msg_RTR = False, msg_DLC = 8, msg_data = [0, 1, 2, 3, 4, 5, 6, 7]\<rparr> (ex_router 0, mqtt_init ()))))
    = [(ex_topic, [2, 3], rt_qos (routes (ex_router 0) ! 0), rt_retain (routes (ex_router 0) ! 0))]"
proof -
  have t: "type_len 7 = 2" by (simp add: type_len_def dataTypes_def)
  have q: "ring_ok (mq (mqtt_init ()))" "ring_items (mq (mqtt_init ())) = []"
    using mqtt_init_ok [of "()"] by (simp_all add: mqtt_ok_def)
  show ?thesis
    using router_forwards_pdo [of "ex_router 0" 0 "mqtt_init ()"
      "\<lparr>msg_id = 0x285, msg_IDE = False, msg_RTR = False, msg_DLC = 8, msg_data = [0, 1, 2, 3, 4, 5, 6, 7]\<rparr>" "\<lambda>_ n. (True, n)"]
    by (simp add: ex_router_facts t q)
qed

end
