(* ===== verification/Sensing.thy ===== *)
theory Sensing
  imports Gw_Prelude Complex_Main "HOL-Library.Multiset"
begin

text \<open>
  What the gateway senses: the debouncer (common/debounce.c), the electricity meter that counts the
  pulses of an infrared sensor (app/tasks/emeter.c), and the mains detectors (app/tasks/mains_sense.c).

  The converter's values are C floats; they are only compared with constants or truncated to 16 bits
  here, so they are modelled as reals.  C's \<open>int\<close> is \<open>int\<close>: its overflow is undefined behaviour and
  does not occur for time differences below \<open>2 ^ 30\<close>.
\<close>

section \<open>Debouncer\<close>

record debounce_t =
  db_state :: int
  int_state :: int
  int_state_prev :: int
  cnt_fltr :: int
  cnt_press :: int
  cfg_release_thrs :: int
  cfg_press_thrs :: int
  cfg_max_thrs :: int

abbreviation TRIG_SET :: int where "TRIG_SET \<equiv> 1"
abbreviation TRIG_CLR_SHOT :: int where "TRIG_CLR_SHOT \<equiv> 4"
abbreviation TRIG_SET_SHOT :: int where "TRIG_SET_SHOT \<equiv> 9"

definition clip :: "int \<Rightarrow> int \<Rightarrow> int \<Rightarrow> int" where
  "clip a l h = max (min a h) l"

text \<open>\<open>memset(b, 0, sizeof(b))\<close> clears the size of a pointer: four bytes, the field \<open>state\<close>.\<close>

definition debounce_init :: "debounce_t \<Rightarrow> debounce_t" where
  "debounce_init b = b\<lparr>db_state := 0, cfg_max_thrs := 30, cfg_release_thrs := 3, cfg_press_thrs := 27\<rparr>"

definition debounce_filter :: "bool \<Rightarrow> u32 \<Rightarrow> debounce_t \<Rightarrow> debounce_t" where
  "debounce_filter on time_diff b =
    (let d = sint time_diff;
         b1 = b\<lparr>cnt_fltr := clip (cnt_fltr b + (if on then 1 else -1) * d) 0 (cfg_max_thrs b)\<rparr>;
         b2 = (if cnt_fltr b1 > cfg_press_thrs b1
               then b1\<lparr>int_state := TRIG_SET, cnt_press := clip (cnt_press b1 + d) 0 (cfg_press_thrs b1)\<rparr> else b1)
     in if cnt_fltr b2 < cfg_release_thrs b2 then b2\<lparr>int_state := 0, cnt_press := 0\<rparr> else b2)"

definition debounce_update :: "bool \<Rightarrow> u32 \<Rightarrow> debounce_t \<Rightarrow> debounce_t" where
  "debounce_update on time_diff b =
    (let b1 = (if time_diff \<noteq> 0 then debounce_filter on time_diff b else b)
     in if int_state_prev b1 \<noteq> int_state b1
        then b1\<lparr>int_state_prev := int_state b1,
                db_state := (if int_state b1 = TRIG_SET then TRIG_SET_SHOT
                             else if int_state b1 = 0 then TRIG_CLR_SHOT else db_state b1)\<rparr>
        else b1\<lparr>db_state := int_state b1\<rparr>)"

section \<open>Electricity meter\<close>

abbreviation Q_SIZE :: nat where "Q_SIZE \<equiv> 64"

record emeter =
  pulse_acc :: u32
  last_pulse_timestamp :: u32
  history :: "u16 list"
  history_index :: nat
  deb_light_on :: debounce_t
  baseline_level :: u16
  light_enabled :: bool
  prev_on :: bool
  out_st :: bool
  prev_out_st :: bool
  pulse_deb_tim :: u32
  pulse_width_tim :: u32
  em_pulse_tim :: u32
  fram_emeter_cnt :: u32
  power_now :: real

text \<open>One pass of the inner loop: \<open>j\<close> runs over the first \<open>n\<close> pairs.\<close>

fun bubble_pass :: "nat \<Rightarrow> u16 list \<Rightarrow> u16 list" where
  "bubble_pass (Suc n) (x # y # zs) = (if x > y then y # bubble_pass n (x # zs) else x # bubble_pass n (y # zs))"
| "bubble_pass n xs = xs"

text \<open>\<open>for(i = 0; i < Q_SIZE - 1; i++)\<close>: \<open>k\<close> is \<open>Q_SIZE - i - 1\<close>, the length of the pass.\<close>

fun bubble_sort :: "nat \<Rightarrow> u16 list \<Rightarrow> u16 list" where
  "bubble_sort 0 xs = xs"
| "bubble_sort (Suc k) xs = bubble_sort k (bubble_pass (Suc k) xs)"

definition median_baseline :: "u16 list \<Rightarrow> u16" where
  "median_baseline hist = bubble_sort (Q_SIZE - 1) hist ! (Q_SIZE div 2)"

definition emeter_init :: "u32 \<Rightarrow> emeter \<Rightarrow> emeter" where
  "emeter_init pulse_acc_old m = m\<lparr>pulse_acc := pulse_acc_old,
     deb_light_on := \<lparr>db_state = 0, int_state = 0, int_state_prev = 0, cnt_fltr = 0, cnt_press = 0,
        cfg_release_thrs = 33, cfg_press_thrs = 297, cfg_max_thrs = 330\<rparr>,
     history := replicate Q_SIZE 2047\<rparr>"

text \<open>The state the program starts with.\<close>

definition emeter_start :: emeter where
  "emeter_start = \<lparr>pulse_acc = 0, last_pulse_timestamp = 0, history = replicate Q_SIZE 0, history_index = 0,
     deb_light_on = \<lparr>db_state = 0, int_state = 0, int_state_prev = 0, cnt_fltr = 0, cnt_press = 0,
        cfg_release_thrs = 0, cfg_press_thrs = 0, cfg_max_thrs = 0\<rparr>,
     baseline_level = 4095, light_enabled = False, prev_on = False, out_st = False, prev_out_st = False,
     pulse_deb_tim = 0, pulse_width_tim = 0, em_pulse_tim = 0, fram_emeter_cnt = 0, power_now = 0\<rparr>"

definition emeter_baseline :: "real \<Rightarrow> emeter \<Rightarrow> emeter" where
  "emeter_baseline ir m =
    (if prev_on m then m
     else let h = (history m)[history_index m := of_int \<lfloor>ir\<rfloor>]
          in m\<lparr>history := h, history_index := (history_index m + 1) mod Q_SIZE, baseline_level := median_baseline h\<rparr>)"

definition emeter_edge :: "real \<Rightarrow> emeter \<Rightarrow> emeter" where
  "emeter_edge ir m =
    (let on = (ir < of_int (int (unat (baseline_level m)) - 2048))
     in if on \<and> \<not> prev_on m then m\<lparr>prev_on := True, pulse_width_tim := 0\<rparr>
        else if \<not> on \<and> prev_on m
        then (if pulse_width_tim m \<ge> 11 \<and> pulse_width_tim m \<le> 120
              then m\<lparr>pulse_deb_tim := 0, out_st := True, prev_on := False\<rparr> else m\<lparr>prev_on := False\<rparr>)
        else m)"

text \<open>The power in kW is one pulse of 1600 per kWh over the time between two pulses, as a real number.\<close>

definition PWR_SCALE :: real where "PWR_SCALE = 1600"

definition emeter_count :: "emeter \<Rightarrow> emeter" where
  "emeter_count m0 =
    (let m = (if out_st m0 \<and> pulse_deb_tim m0 > 15 then m0\<lparr>out_st := False\<rparr> else m0);
         m1 = (if \<not> prev_out_st m \<and> out_st m
               then m\<lparr>pulse_acc := pulse_acc m + 1, fram_emeter_cnt := pulse_acc m + 1,
                      power_now := (if em_pulse_tim m = 0 then 0
                        else 1 / (PWR_SCALE * real (unat (em_pulse_tim m)) * 0.001 / 3600)), em_pulse_tim := 0\<rparr> else m)
     in m1\<lparr>prev_out_st := out_st m1\<rparr>)"

definition emeter_poll :: "real \<Rightarrow> u32 \<Rightarrow> emeter \<Rightarrow> emeter" where
  "emeter_poll ir diff_ms m =
    (if diff_ms = 0 then m
     else let m1 = emeter_count (emeter_edge ir (emeter_baseline ir (m\<lparr>last_pulse_timestamp := last_pulse_timestamp m + diff_ms\<rparr>)));
              m2 = m1\<lparr>pulse_width_tim := pulse_width_tim m1 + diff_ms, pulse_deb_tim := pulse_deb_tim m1 + diff_ms,
                      em_pulse_tim := em_pulse_tim m1 + diff_ms\<rparr>;
              d = debounce_update (baseline_level m2 < 2000) diff_ms (deb_light_on m2)
          in m2\<lparr>deb_light_on := d, light_enabled := (db_state d = TRIG_SET)\<rparr>)"

definition emeter_get_cnt :: "emeter \<Rightarrow> u32" where
  "emeter_get_cnt m = pulse_acc m"

definition emeter_get_power_kw :: "emeter \<Rightarrow> real" where
  "emeter_get_power_kw m = power_now m"

definition emeter_get_energy_kwh :: "emeter \<Rightarrow> real" where
  "emeter_get_energy_kwh m = real (unat (pulse_acc m)) / PWR_SCALE"

section \<open>Mains detectors\<close>

abbreviation NUM_CH :: nat where "NUM_CH \<equiv> 32"

record mains_ch =
  tmr_off :: u32
  tmr_on :: u32
  on_phase :: bool
  mains_on :: bool
  cnt_on :: u32
  cnt_hit :: u32
  cnt_on_max :: u32
  cnt_on_max_hit :: u32
  ctrl_pin :: bool

definition mains_stat_rst :: "nat \<Rightarrow> mains_ch list \<Rightarrow> mains_ch list" where
  "mains_stat_rst ch inst = (if ch \<ge> NUM_CH then inst else inst[ch := (inst ! ch)\<lparr>cnt_on_max := 0\<rparr>])"

definition mains_stat_get_cnt :: "nat \<Rightarrow> mains_ch list \<Rightarrow> u32" where
  "mains_stat_get_cnt ch inst = (if ch \<ge> NUM_CH then 0 else cnt_on_max (inst ! ch))"

definition mains_stat_get_hit :: "nat \<Rightarrow> mains_ch list \<Rightarrow> u32" where
  "mains_stat_get_hit ch inst = (if ch \<ge> NUM_CH then 0 else cnt_on_max_hit (inst ! ch))"

definition mains_sense_is_on :: "nat \<Rightarrow> mains_ch list \<Rightarrow> bool" where
  "mains_sense_is_on ch inst = (if ch \<ge> NUM_CH then False else mains_on (inst ! ch))"

text \<open>One channel's part of the poll; \<open>low\<close>: its sense pin reads 0.\<close>

definition mains_poll_ch :: "bool \<Rightarrow> u32 \<Rightarrow> mains_ch \<Rightarrow> mains_ch" where
  "mains_poll_ch low diff_ms c =
    (if on_phase c
     then let c1 = c\<lparr>tmr_on := tmr_on c + diff_ms, cnt_on := (if low then cnt_on c + 1 else cnt_on c), cnt_hit := cnt_hit c + 1\<rparr>
          in if tmr_on c1 \<ge> 25
             then let c2 = c1\<lparr>tmr_on := 0, mains_on := (cnt_on c1 > cnt_hit c1 div 2)\<rparr>;
                      c3 = (if cnt_on_max c2 < cnt_on c2 then c2\<lparr>cnt_on_max := cnt_on c2, cnt_on_max_hit := cnt_hit c2\<rparr> else c2)
                  in c3\<lparr>on_phase := False, ctrl_pin := False\<rparr>
             else c1
     else let c1 = c\<lparr>tmr_off := tmr_off c + diff_ms\<rparr>
          in if tmr_off c1 \<ge> 500
             then c1\<lparr>tmr_off := 0, on_phase := True, cnt_on := 0, cnt_hit := 0, ctrl_pin := True\<rparr>
             else c1)"

definition mains_sense_poll :: "u32 \<Rightarrow> (nat \<Rightarrow> bool) \<Rightarrow> u32 \<Rightarrow> mains_ch list \<Rightarrow> mains_ch list" where
  "mains_sense_poll chnl_bits low diff_ms inst =
    map (\<lambda>i. if bit chnl_bits i then mains_poll_ch (low i) diff_ms (inst ! i) else inst ! i) [0..<NUM_CH]"

section \<open>The debouncer filters\<close>

lemma sint_small:
  assumes "unat (d :: u32) < 2147483648"
  shows "sint d = int (unat d)"
proof -
  have "uint d < 2147483648" using assms by (metis of_nat_less_iff of_nat_numeral uint_nat)
  moreover have "- 2147483648 \<le> uint d" by (rule order_trans [OF _ uint_ge_0]) simp
  ultimately have "signed_take_bit 31 (uint d) = uint d" by (intro signed_take_bit_int_eq_self) simp_all
  then show ?thesis by (simp add: sint_uint)
qed

definition debounce_ok :: "debounce_t \<Rightarrow> bool" where
  "debounce_ok b \<longleftrightarrow> 0 < cfg_release_thrs b \<and> cfg_release_thrs b \<le> cfg_press_thrs b \<and> cfg_press_thrs b < cfg_max_thrs b
     \<and> 0 \<le> cnt_fltr b \<and> cnt_fltr b \<le> cfg_max_thrs b \<and> (int_state b = 0 \<or> int_state b = TRIG_SET)
     \<and> (cnt_fltr b > cfg_press_thrs b \<longrightarrow> int_state b = TRIG_SET)
     \<and> (cnt_fltr b < cfg_release_thrs b \<longrightarrow> int_state b = 0)"

lemma debounce_update_cfg [simp]:
  "cfg_release_thrs (debounce_update on d b) = cfg_release_thrs b"
  "cfg_press_thrs (debounce_update on d b) = cfg_press_thrs b"
  "cfg_max_thrs (debounce_update on d b) = cfg_max_thrs b"
  by (simp_all add: debounce_update_def debounce_filter_def Let_def)

lemma debounce_update_cnt:
  "cnt_fltr (debounce_update on d b) =
    (if d = 0 then cnt_fltr b else clip (cnt_fltr b + (if on then 1 else -1) * sint d) 0 (cfg_max_thrs b))"
  by (simp add: debounce_update_def debounce_filter_def Let_def)

lemma debounce_update_int:
  "cfg_release_thrs b \<le> cfg_press_thrs b \<Longrightarrow> int_state (debounce_update on d b) =
    (if d = 0 then int_state b
     else let c = clip (cnt_fltr b + (if on then 1 else -1) * sint d) 0 (cfg_max_thrs b)
          in if c > cfg_press_thrs b then TRIG_SET else if c < cfg_release_thrs b then 0 else int_state b)"
  by (auto simp: debounce_update_def debounce_filter_def Let_def)

lemma debounce_update_ok: "debounce_ok b \<Longrightarrow> debounce_ok (debounce_update on d b)"
  unfolding debounce_ok_def debounce_update_cfg debounce_update_cnt
  by (simp add: debounce_update_int Let_def) (auto simp: clip_def)

interpretation debounce: inv_machine "\<lambda>x. debounce_update (fst x) (snd x)" debounce_ok
  by unfold_locales (rule debounce_update_ok)

abbreviation debounce_run :: "(bool \<times> u32) list \<Rightarrow> debounce_t \<Rightarrow> debounce_t" where
  "debounce_run \<equiv> fold (\<lambda>x. debounce_update (fst x) (snd x))"

text \<open>The active time of a run.\<close>

definition on_time :: "(bool \<times> u32) list \<Rightarrow> int" where
  "on_time xs = sum_list (map (\<lambda>(on, d). if on then int (unat d) else 0) xs)"

lemma on_time_simps [simp]: "on_time [] = 0" "on_time ((on, d) # xs) = (if on then int (unat d) else 0) + on_time xs"
  by (simp_all add: on_time_def)

lemma on_time_nonneg: "0 \<le> on_time xs"
  by (induction xs) (auto simp: on_time_def)

lemma debounce_run_cfg:
  "cfg_release_thrs (debounce_run xs b) = cfg_release_thrs b \<and> cfg_press_thrs (debounce_run xs b) = cfg_press_thrs b
   \<and> cfg_max_thrs (debounce_run xs b) = cfg_max_thrs b"
  by (induction xs arbitrary: b) simp_all

lemma min_sub_le: "min (c - uint (d :: u32)) m \<le> c"
  by (rule order_trans [OF min.cobounded1]) simp

lemma debounce_run_low:
  "debounce_ok b \<Longrightarrow> int_state b = 0 \<Longrightarrow> \<forall>(on, d) \<in> set xs. unat d < 2147483648 \<Longrightarrow>
   cnt_fltr b + on_time xs \<le> cfg_press_thrs b \<Longrightarrow> int_state (debounce_run xs b) = 0"
proof (induction xs arbitrary: b)
  case (Cons x xs)
  obtain on d where x: "x = (on, d)" by fastforce
  let ?b = "debounce_update on d b"
  have d: "sint d = int (unat d)" using Cons.prems(3) sint_small x by simp
  have n: "0 \<le> on_time xs" by (rule on_time_nonneg)
  have c: "cnt_fltr ?b \<le> cnt_fltr b + (if on then int (unat d) else 0)"
    using Cons.prems(1) min_sub_le [of "cnt_fltr b" d] by (auto simp: debounce_update_cnt d clip_def debounce_ok_def)
  then have "int_state ?b = 0"
    using Cons.prems(1,2,4) n x by (auto simp: debounce_update_int debounce_ok_def Let_def debounce_update_cnt split: if_splits)
  moreover have "cnt_fltr ?b + on_time xs \<le> cfg_press_thrs ?b" using c Cons.prems(4) x by simp
  ultimately show ?case using Cons.IH [OF debounce_update_ok [OF Cons.prems(1)]] Cons.prems(3) x by simp
qed simp

lemma debounce_run_high:
  "debounce_ok b \<Longrightarrow> \<forall>(on, d) \<in> set xs. on \<and> unat d < 2147483648 \<Longrightarrow>
   min (cnt_fltr b + on_time xs) (cfg_max_thrs b) \<le> cnt_fltr (debounce_run xs b)"
proof (induction xs arbitrary: b)
  case (Cons x xs)
  obtain on d where x: "x = (on, d)" by fastforce
  have on: "on" "sint d = int (unat d)" using Cons.prems(2) sint_small x by simp_all
  have c: "cnt_fltr (debounce_update on d b) = min (cnt_fltr b + int (unat d)) (cfg_max_thrs b)"
    using Cons.prems(1) on by (auto simp: debounce_update_cnt clip_def debounce_ok_def)
  have "min (cnt_fltr (debounce_update on d b) + on_time xs) (cfg_max_thrs b) \<le> cnt_fltr (debounce_run xs (debounce_update on d b))"
    using Cons.IH [OF debounce_update_ok [OF Cons.prems(1)], of on d] Cons.prems(2) by simp
  with c on x on_time_nonneg [of xs] show ?case by simp
qed simp

text \<open>An input that is active for no more than the press threshold in total never sets a cleared
  debouncer, however it flickers; one that stays active for longer than the threshold sets it.\<close>

lemma debounce_filters:
  assumes "debounce_ok b" "\<forall>(on, d) \<in> set xs. unat d < 2147483648"
  shows "(int_state b = 0 \<and> cnt_fltr b + on_time xs \<le> cfg_press_thrs b \<longrightarrow> int_state (debounce_run xs b) = 0)
    \<and> ((\<forall>(on, d) \<in> set xs. on) \<and> on_time xs > cfg_press_thrs b \<longrightarrow> int_state (debounce_run xs b) = TRIG_SET)"
proof (intro conjI impI)
  assume "int_state b = 0 \<and> cnt_fltr b + on_time xs \<le> cfg_press_thrs b"
  then show "int_state (debounce_run xs b) = 0" using debounce_run_low assms by blast
next
  assume h: "(\<forall>(on, d) \<in> set xs. on) \<and> on_time xs > cfg_press_thrs b"
  have "min (cnt_fltr b + on_time xs) (cfg_max_thrs b) \<le> cnt_fltr (debounce_run xs b)"
    using debounce_run_high [OF assms(1)] h assms(2) by blast
  then have "cnt_fltr (debounce_run xs b) > cfg_press_thrs (debounce_run xs b)"
    using h assms(1) debounce_run_cfg [of xs b] by (auto simp: debounce_ok_def)
  moreover have "debounce_ok (debounce_run xs b)" by (rule debounce.inv_run) (rule assms(1))
  ultimately show "int_state (debounce_run xs b) = TRIG_SET" by (simp add: debounce_ok_def)
qed

definition ex_debounce :: debounce_t where
  "ex_debounce = debounce_init \<lparr>db_state = 0, int_state = 0, int_state_prev = 0, cnt_fltr = 0, cnt_press = 0,
     cfg_release_thrs = 0, cfg_press_thrs = 0, cfg_max_thrs = 0\<rparr>"

lemma debounce_filters_witness:
  "int_state (debounce_run [(True, 10), (False, 5), (True, 12)] ex_debounce) = 0
   \<and> int_state (debounce_run [(True, 10), (True, 18)] ex_debounce) = TRIG_SET"
proof -
  have ok: "debounce_ok ex_debounce" by (simp add: debounce_ok_def ex_debounce_def debounce_init_def)
  have e: "int_state ex_debounce = 0" "cnt_fltr ex_debounce = 0" "cfg_press_thrs ex_debounce = 27"
    by (simp_all add: ex_debounce_def debounce_init_def)
  show ?thesis
    using debounce_filters [OF ok, of "[(True, 10), (False, 5), (True, 12)]"] debounce_filters [OF ok, of "[(True, 10), (True, 18)]"] e
    by simp
qed

section \<open>The median\<close>

lemma bubble_pass_split:
  "k < length xs \<Longrightarrow> \<exists>ys m. bubble_pass k xs = ys @ m # drop (Suc k) xs \<and> length ys = k
     \<and> mset (ys @ [m]) = mset (take (Suc k) xs) \<and> (\<forall>y \<in> set ys. y \<le> m)"
proof (induction k xs rule: bubble_pass.induct)
  case (1 n x y zs)
  define a b where "a = min x y" and "b = max x y"
  have ab: "bubble_pass (Suc n) (x # y # zs) = a # bubble_pass n (b # zs)"
    by (cases "x > y") (auto simp: a_def b_def min_def max_def)
  have bx: "y < x \<Longrightarrow> b = x" "\<not> y < x \<Longrightarrow> b = y" by (auto simp: b_def max_def)
  have le: "a \<le> b" by (auto simp: a_def b_def min_def max_def)
  have "\<exists>ys m. bubble_pass n (b # zs) = ys @ m # drop (Suc n) (b # zs) \<and> length ys = n
     \<and> mset (ys @ [m]) = mset (take (Suc n) (b # zs)) \<and> (\<forall>y \<in> set ys. y \<le> m)"
    using 1 bx by (cases "y < x") simp_all
  then obtain ys m where r: "bubble_pass n (b # zs) = ys @ m # drop (Suc n) (b # zs)" "length ys = n"
     "mset (ys @ [m]) = mset (take (Suc n) (b # zs))" "\<forall>y \<in> set ys. y \<le> m" by blast
  have "b \<in> set (ys @ [m])" using r(3) by (metis list.set_intros(1) set_mset_mset take_Suc_Cons)
  then have "a \<le> m" using le r(4) by auto
  moreover have "mset ((a # ys) @ [m]) = mset (take (Suc (Suc n)) (x # y # zs))"
    using r(3) by (simp add: a_def b_def min_def max_def)
  ultimately show ?case
    using r(1,2,4) ab by (intro exI [of _ "a # ys"] exI [of _ m]) simp
qed (auto simp: neq_Nil_conv)

lemma bubble_sort_sorted:
  "k < length xs \<Longrightarrow> sorted (drop (Suc k) xs) \<Longrightarrow> (\<forall>x \<in> set (take (Suc k) xs). \<forall>y \<in> set (drop (Suc k) xs). x \<le> y) \<Longrightarrow>
   sorted (bubble_sort k xs) \<and> mset (bubble_sort k xs) = mset xs"
proof (induction k xs rule: bubble_sort.induct)
  case (1 xs)
  then show ?case by (cases xs) auto
next
  case (2 k xs)
  obtain ys m where r: "bubble_pass (Suc k) xs = ys @ m # drop (Suc (Suc k)) xs" "length ys = Suc k"
    "mset (ys @ [m]) = mset (take (Suc (Suc k)) xs)" "\<forall>y \<in> set ys. y \<le> m"
    using bubble_pass_split [OF "2.prems"(1)] by blast
  let ?p = "bubble_pass (Suc k) xs"
  have s: "set (ys @ [m]) = set (take (Suc (Suc k)) xs)" using r(3) by (metis set_mset_mset)
  have "mset ?p = mset (ys @ [m]) + mset (drop (Suc (Suc k)) xs)" by (simp add: r(1))
  also have "... = mset (take (Suc (Suc k)) xs) + mset (drop (Suc (Suc k)) xs)" by (simp only: r(3))
  also have "... = mset xs" by (metis append_take_drop_id mset_append)
  finally have ms: "mset ?p = mset xs" .
  have d: "drop (Suc k) ?p = m # drop (Suc (Suc k)) xs" "take (Suc k) ?p = ys" using r(1,2) by simp_all
  have m: "m \<in> set (take (Suc (Suc k)) xs)" using s by auto
  have "sorted (drop (Suc k) ?p)" unfolding d using "2.prems"(2,3) m by auto
  moreover have "\<forall>x \<in> set (take (Suc k) ?p). \<forall>y \<in> set (drop (Suc k) ?p). x \<le> y"
    unfolding d using r(4) s "2.prems"(3) by auto
  moreover have "k < length ?p" using "2.prems"(1) ms by (metis Suc_lessD size_mset)
  ultimately show ?case using "2.IH" ms by simp
qed

lemma bubble_sort_is_sort: "xs \<noteq> [] \<Longrightarrow> bubble_sort (length xs - 1) xs = sort xs"
  using bubble_sort_sorted [of "length xs - 1" xs] by (intro properties_for_sort [symmetric]) simp_all

section \<open>The meter's runs\<close>

abbreviation emeter_run :: "(real \<times> u32) list \<Rightarrow> emeter \<Rightarrow> emeter" where
  "emeter_run \<equiv> fold (\<lambda>x. emeter_poll (fst x) (snd x))"

lemma emeter_edge_cases:
  "(out_st (emeter_edge ir m) = out_st m \<and> pulse_deb_tim (emeter_edge ir m) = pulse_deb_tim m
     \<or> out_st (emeter_edge ir m) \<and> pulse_deb_tim (emeter_edge ir m) = 0
       \<and> prev_on m \<and> 11 \<le> pulse_width_tim m \<and> pulse_width_tim m \<le> 120)"
  by (simp add: emeter_edge_def Let_def)

lemma emeter_edge_same [simp]:
  "pulse_acc (emeter_edge ir m) = pulse_acc m" "prev_out_st (emeter_edge ir m) = prev_out_st m"
  "fram_emeter_cnt (emeter_edge ir m) = fram_emeter_cnt m" "history (emeter_edge ir m) = history m"
  "history_index (emeter_edge ir m) = history_index m" "baseline_level (emeter_edge ir m) = baseline_level m"
  by (simp_all add: emeter_edge_def Let_def)

lemma emeter_baseline_same [simp]:
  "pulse_acc (emeter_baseline ir m) = pulse_acc m" "prev_out_st (emeter_baseline ir m) = prev_out_st m"
  "fram_emeter_cnt (emeter_baseline ir m) = fram_emeter_cnt m" "out_st (emeter_baseline ir m) = out_st m"
  "pulse_deb_tim (emeter_baseline ir m) = pulse_deb_tim m" "prev_on (emeter_baseline ir m) = prev_on m"
  "pulse_width_tim (emeter_baseline ir m) = pulse_width_tim m"
  by (simp_all add: emeter_baseline_def Let_def)

lemma emeter_count_same [simp]:
  "history (emeter_count m) = history m" "history_index (emeter_count m) = history_index m"
  "baseline_level (emeter_count m) = baseline_level m" "pulse_deb_tim (emeter_count m) = pulse_deb_tim m"
  by (simp_all add: emeter_count_def Let_def)

text \<open>The window of the median.\<close>

definition window_ok :: "emeter \<Rightarrow> bool" where
  "window_ok m \<longleftrightarrow> length (history m) = Q_SIZE \<and> history_index m < Q_SIZE"

lemma emeter_poll_history:
  "history (emeter_poll ir d m) = (if d = 0 \<or> prev_on m then history m else (history m)[history_index m := of_int \<lfloor>ir\<rfloor>])"
  "history_index (emeter_poll ir d m) = (if d = 0 \<or> prev_on m then history_index m else (history_index m + 1) mod Q_SIZE)"
  "d \<noteq> 0 \<Longrightarrow> \<not> prev_on m \<Longrightarrow> baseline_level (emeter_poll ir d m) = median_baseline ((history m)[history_index m := of_int \<lfloor>ir\<rfloor>])"
  by (simp_all add: emeter_poll_def Let_def) (simp_all add: emeter_baseline_def Let_def)

interpretation window: inv_machine "\<lambda>x. emeter_poll (fst x) (snd x)" window_ok
  by unfold_locales (simp add: window_ok_def emeter_poll_history)

lemma emeter_init_window: "window_ok (emeter_init acc emeter_start)"
  by (simp add: window_ok_def emeter_init_def emeter_start_def)

text \<open>Outside a pulse every poll puts the sample into the window of the last 64 and sets the baseline to
  the upper median of the window: the hand-written bubble sort sorts.\<close>

lemma emeter_baseline_median:
  assumes "m = emeter_run xs (emeter_init acc emeter_start)" "\<not> prev_on m" "d \<noteq> 0"
  shows "history (emeter_poll ir d m) = (history m)[history_index m := of_int \<lfloor>ir\<rfloor>]
    \<and> baseline_level (emeter_poll ir d m) = sort (history (emeter_poll ir d m)) ! 32"
proof -
  have "window_ok m" unfolding assms(1) by (rule window.inv_run) (rule emeter_init_window)
  then have l: "length ((history m)[history_index m := of_int \<lfloor>ir\<rfloor>]) = 64" by (simp add: window_ok_def)
  then have "bubble_sort 63 ((history m)[history_index m := of_int \<lfloor>ir\<rfloor>]) = sort ((history m)[history_index m := of_int \<lfloor>ir\<rfloor>])"
    using bubble_sort_is_sort [of "(history m)[history_index m := of_int \<lfloor>ir\<rfloor>]"] by fastforce
  then show ?thesis using assms(2,3) by (simp add: emeter_poll_history median_baseline_def)
qed

lemma emeter_baseline_median_witness:
  "baseline_level (emeter_poll 1000 1 (emeter_run [] (emeter_init 0 emeter_start)))
     = sort (history (emeter_poll 1000 1 (emeter_run [] (emeter_init 0 emeter_start)))) ! 32"
proof -
  have "\<not> prev_on (emeter_run [] (emeter_init 0 emeter_start))" by (simp add: emeter_init_def emeter_start_def)
  from emeter_baseline_median [OF refl this, of 1 1000] show ?thesis by (simp del: fold_simps)
qed

text \<open>The count after \<open>T\<close> milliseconds: \<open>c\<close> pulses, with 16 ms between them.\<close>

definition meter_inv :: "u32 \<Rightarrow> nat \<Rightarrow> nat \<Rightarrow> emeter \<Rightarrow> bool" where
  "meter_inv acc c T m \<longleftrightarrow> pulse_acc m = acc + of_nat c \<and> prev_out_st m = out_st m
     \<and> (if out_st m then 1 \<le> c \<and> (c - 1) * 16 + unat (pulse_deb_tim m) \<le> T else c * 16 \<le> T)
     \<and> (c = 0 \<or> fram_emeter_cnt m = pulse_acc m)"

lemma emeter_count_inv:
  assumes "pulse_acc m = acc + of_nat c" "c = 0 \<or> fram_emeter_cnt m = pulse_acc m"
    and "if prev_out_st m then 1 \<le> c \<and> (c - 1) * 16 + unat (pulse_deb_tim m) \<le> T else c * 16 \<le> T"
    and "\<not> prev_out_st m \<Longrightarrow> out_st m \<Longrightarrow> pulse_deb_tim m = 0" "prev_out_st m \<Longrightarrow> out_st m"
  shows "\<exists>c'. meter_inv acc c' T (emeter_count m)"
proof (cases "prev_out_st m")
  case True
  then have o: "out_st m" using assms(5) by simp
  show ?thesis
  proof (cases "pulse_deb_tim m > 15")
    case True': True
    then have "16 \<le> unat (pulse_deb_tim m)" by (simp add: word_less_nat_alt)
    then have "c * 16 \<le> T" using assms(3) True by (cases c) simp_all
    then show ?thesis using assms(1,2) o True' by (intro exI [of _ c]) (simp add: emeter_count_def meter_inv_def Let_def)
  next
    case False
    then show ?thesis using assms(1-3) o True by (intro exI [of _ c]) (simp add: emeter_count_def meter_inv_def Let_def)
  qed
next
  case False
  show ?thesis
  proof (cases "out_st m")
    case True
    with False assms show ?thesis by (intro exI [of _ "c + 1"]) (simp add: emeter_count_def meter_inv_def Let_def)
  next
    case False': False
    with False assms show ?thesis by (intro exI [of _ c]) (simp add: emeter_count_def meter_inv_def Let_def)
  qed
qed

lemma emeter_poll_inv:
  assumes "meter_inv acc c T m"
  shows "\<exists>c'. meter_inv acc c' (T + unat d) (emeter_poll ir d m)"
proof (cases "d = 0")
  case True
  with assms show ?thesis by (intro exI [of _ c]) (simp add: emeter_poll_def)
next
  case False
  let ?e = "emeter_edge ir (emeter_baseline ir (m\<lparr>last_pulse_timestamp := last_pulse_timestamp m + d\<rparr>))"
  have e: "out_st ?e = out_st m \<and> pulse_deb_tim ?e = pulse_deb_tim m \<or> out_st ?e \<and> pulse_deb_tim ?e = 0"
    using emeter_edge_cases [of ir "emeter_baseline ir (m\<lparr>last_pulse_timestamp := last_pulse_timestamp m + d\<rparr>)"] by auto
  have "\<exists>c'. meter_inv acc c' T (emeter_count ?e)"
    using assms e by (intro emeter_count_inv [of _ _ c]) (auto simp: meter_inv_def split: if_splits)
  then obtain c' where c': "meter_inv acc c' T (emeter_count ?e)" by blast
  have "unat (pulse_deb_tim (emeter_count ?e) + d) \<le> unat (pulse_deb_tim (emeter_count ?e)) + unat d"
    by (metis unat_word_ariths(1) mod_less_eq_dividend)
  then show ?thesis
    using c' False by (intro exI [of _ c']) (auto simp: emeter_poll_def Let_def meter_inv_def)
qed

lemma emeter_run_inv: "meter_inv acc c T m \<Longrightarrow> \<exists>c'. meter_inv acc c' (T + sum_list (map (\<lambda>x. unat (snd x)) xs)) (emeter_run xs m)"
proof (induction xs arbitrary: c T m)
  case (Cons x xs)
  obtain c1 where "meter_inv acc c1 (T + unat (snd x)) (emeter_poll (fst x) (snd x) m)"
    using emeter_poll_inv [OF Cons.prems] by blast
  from Cons.IH [OF this] show ?case by (simp add: add.assoc)
qed auto

text \<open>Over any run, whatever the sensor shows, the count has grown by at most one pulse per 16 ms, and once a
  pulse has been counted the value in the FRAM is the count.\<close>

lemma emeter_counts_slowly:
  "\<exists>c. pulse_acc (emeter_run xs (emeter_init acc emeter_start)) = acc + of_nat c
     \<and> c * 16 \<le> sum_list (map (\<lambda>x. unat (snd x)) xs) + 16
     \<and> (c = 0 \<or> fram_emeter_cnt (emeter_run xs (emeter_init acc emeter_start)) = acc + of_nat c)"
proof -
  have "meter_inv acc 0 0 (emeter_init acc emeter_start)" by (simp add: meter_inv_def emeter_init_def emeter_start_def)
  from emeter_run_inv [OF this, of xs] obtain c
    where c: "meter_inv acc c (sum_list (map (\<lambda>x. unat (snd x)) xs)) (emeter_run xs (emeter_init acc emeter_start))" by auto
  then have "c * 16 \<le> sum_list (map (\<lambda>x. unat (snd x)) xs) + 16"
    by (cases c) (auto simp: meter_inv_def split: if_splits)
  with c show ?thesis by (intro exI [of _ c]) (auto simp: meter_inv_def)
qed

section \<open>The mains decision\<close>

abbreviation mains_run :: "(bool \<times> u32) list \<Rightarrow> mains_ch \<Rightarrow> mains_ch" where
  "mains_run \<equiv> fold (\<lambda>x. mains_poll_ch (fst x) (snd x))"

definition low_count :: "(bool \<times> u32) list \<Rightarrow> nat" where
  "low_count xs = length (filter fst xs)"

definition poll_time :: "(bool \<times> u32) list \<Rightarrow> nat" where
  "poll_time xs = sum_list (map (\<lambda>x. unat (snd x)) xs)"

lemma low_count_snoc: "low_count (xs @ [(low, d)]) = (if low then low_count xs + 1 else low_count xs)"
  by (simp add: low_count_def)

lemma mains_partial:
  "on_phase c \<Longrightarrow> unat (tmr_on c) + poll_time xs < 25 \<Longrightarrow>
   mains_run xs c = c\<lparr>tmr_on := tmr_on c + of_nat (poll_time xs), cnt_on := cnt_on c + of_nat (low_count xs),
     cnt_hit := cnt_hit c + of_nat (length xs)\<rparr>"
proof (induction xs arbitrary: c)
  case (Cons x xs)
  obtain low d where x: "x = (low, d)" by fastforce
  have t: "unat (tmr_on c) + unat d < 25" using Cons.prems(2) by (simp add: poll_time_def x)
  then have u: "unat (tmr_on c + d) = unat (tmr_on c) + unat d" by (subst unat_plus_if') simp
  then have "\<not> 25 \<le> tmr_on c + d" using t by (simp add: word_le_nat_alt)
  then have p: "mains_poll_ch low d c = c\<lparr>tmr_on := tmr_on c + d, cnt_on := (if low then cnt_on c + 1 else cnt_on c), cnt_hit := cnt_hit c + 1\<rparr>"
    using Cons.prems(1) by (simp add: mains_poll_ch_def Let_def)
  have "mains_run xs (mains_poll_ch low d c) = (mains_poll_ch low d c)\<lparr>tmr_on := tmr_on c + d + of_nat (poll_time xs),
      cnt_on := (if low then cnt_on c + 1 else cnt_on c) + of_nat (low_count xs), cnt_hit := cnt_hit c + 1 + of_nat (length xs)\<rparr>"
    using Cons.IH [of "mains_poll_ch low d c"] Cons.prems u by (simp add: p poll_time_def x)
  then show ?case by (simp add: x p poll_time_def low_count_def add.assoc)
qed (simp add: poll_time_def low_count_def)

text \<open>A measuring phase ends with the poll that reaches 25 ms, and the channel is then on exactly when more
  than half (rounded down) of the samples of the phase were low; the control pin is released.\<close>

lemma mains_majority:
  assumes "on_phase c" "tmr_on c = 0" "cnt_on c = 0" "cnt_hit c = 0"
    and "poll_time xs < 25" "25 \<le> poll_time (xs @ [x])" "unat (snd x) < 4294967000" "length xs < 4294967295"
  shows "mains_on (mains_run (xs @ [x]) c) = (low_count (xs @ [x]) > length (xs @ [x]) div 2)
    \<and> \<not> on_phase (mains_run (xs @ [x]) c) \<and> \<not> ctrl_pin (mains_run (xs @ [x]) c) \<and> tmr_on (mains_run (xs @ [x]) c) = 0"
proof -
  obtain low d where x: "x = (low, d)" by fastforce
  let ?c = "c\<lparr>tmr_on := of_nat (poll_time xs), cnt_on := of_nat (low_count xs), cnt_hit := of_nat (length xs)\<rparr>"
  have r: "mains_run xs c = ?c" using mains_partial [OF assms(1), of xs] assms by simp
  have "unat (of_nat (poll_time xs) + d) = poll_time xs + unat d"
    using assms(5,7) x by (subst unat_plus_if') (simp add: unat_of_nat_u32)
  then have t: "25 \<le> of_nat (poll_time xs) + d" using assms(6) x by (simp add: word_le_nat_alt poll_time_def)
  have lc: "low_count xs \<le> length xs" by (simp add: low_count_def)
  have ws: "(if low then of_nat (low_count xs) + 1 else of_nat (low_count xs) :: u32) = of_nat (low_count (xs @ [x]))"
    "of_nat (length xs) + 1 = (of_nat (length (xs @ [x])) :: u32)" by (simp_all add: low_count_def x)
  have l2: "low_count (xs @ [x]) \<le> length (xs @ [x])" unfolding low_count_def by (rule length_filter_le)
  have u: "unat (of_nat (low_count (xs @ [x])) :: u32) = low_count (xs @ [x])" "unat (of_nat (length (xs @ [x])) :: u32) = length (xs @ [x])"
    using l2 assms(8) by (intro unat_of_nat_u32; simp)+
  have "(of_nat (low_count (xs @ [x])) > (of_nat (length (xs @ [x])) :: u32) div 2) = (low_count (xs @ [x]) > length (xs @ [x]) div 2)"
    unfolding word_less_nat_alt unat_div u by simp
  then show ?thesis
    using t assms(1) by (cases low) (simp_all add: r x mains_poll_ch_def Let_def low_count_snoc add.commute)
qed

lemma mains_majority_witness:
  "mains_on (mains_run ([(True, 10), (True, 10)] @ [(False, 10)]) \<lparr>tmr_off = 0, tmr_on = 0, on_phase = True, mains_on = False,
     cnt_on = 0, cnt_hit = 0, cnt_on_max = 0, cnt_on_max_hit = 0, ctrl_pin = True\<rparr>)"
  using mains_majority [of "\<lparr>tmr_off = 0, tmr_on = 0, on_phase = True, mains_on = False,
     cnt_on = 0, cnt_hit = 0, cnt_on_max = 0, cnt_on_max_hit = 0, ctrl_pin = True\<rparr>" "[(True, 10), (True, 10)]" "(False, 10)"]
  by (simp add: low_count_def poll_time_def del: fold_simps)

end
