(* ===== verification/Switching.thy ===== *)
theory Switching
  imports Gw_Prelude Complex_Main
begin

text \<open>
  What the gateway switches: the load and its overcurrent protection (app/tasks/load_switcher.c), the
  power-over-Ethernet channels (app/tasks/poe_switcher.c), the power button of a PC (app/tasks/pc.c),
  the production of CAN PDOs (app/comm/pdo_router.c), the calendar (app/tasks/rtc.c), and the time
  base of the main loop (app/app.c).  Pins are booleans; currents, floats that are only compared, are reals.
\<close>

section \<open>Load switch\<close>

record load_sw =
  ld_enabled :: bool
  timeout_on_ms :: u32
  timeout_cur_longterm_ms :: u32
  ld_pin :: bool

definition load_switcher_on :: "load_sw \<Rightarrow> load_sw" where
  "load_switcher_on s = s\<lparr>timeout_on_ms := 200, ld_enabled := True, ld_pin := True\<rparr>"

definition load_switcher_off :: "load_sw \<Rightarrow> load_sw" where
  "load_switcher_off s = s\<lparr>ld_pin := False, ld_enabled := False\<rparr>"

definition load_switcher_init :: "load_sw \<Rightarrow> load_sw" where
  "load_switcher_init s = load_switcher_off s"

definition load_switcher_is_on :: "load_sw \<Rightarrow> bool" where
  "load_switcher_is_on s = ld_enabled s"

text \<open>\<open>fault_n\<close>: the fault pin reads 1; \<open>i_sns\<close>: the sensed current.\<close>

definition load_switcher_poll :: "bool \<Rightarrow> real \<Rightarrow> u32 \<Rightarrow> load_sw \<Rightarrow> int \<times> load_sw" where
  "load_switcher_poll fault_n i_sns diff_ms s0 =
    (let s = s0\<lparr>timeout_on_ms := (if timeout_on_ms s0 > diff_ms then timeout_on_ms s0 - diff_ms else 0)\<rparr>
     in if timeout_on_ms s = 0
        then let s1 = s\<lparr>timeout_cur_longterm_ms := (if \<bar>i_sns\<bar> \<ge> 1 / 4 then timeout_cur_longterm_ms s + diff_ms else 0)\<rparr>
             in if \<not> fault_n then (if ld_enabled s1 then 1 else 0, load_switcher_off s1)
                else if \<bar>i_sns\<bar> \<ge> 1 then (if ld_enabled s1 then 2 else 0, load_switcher_off s1)
                else if timeout_cur_longterm_ms s1 \<ge> 4000 then (if ld_enabled s1 then 3 else 0, load_switcher_off s1)
                else (0, s1)
        else (0, s))"

section \<open>Power over Ethernet\<close>

abbreviation POE_CH :: nat where "POE_CH \<equiv> 8"

record poe_sw =
  poe_inst :: "bool list"
  poe_pins :: "bool list"

definition poe_switcher_is_on :: "nat \<Rightarrow> poe_sw \<Rightarrow> bool" where
  "poe_switcher_is_on ch s = (if ch \<ge> POE_CH then False else poe_inst s ! ch)"

definition poe_switcher_on :: "nat \<Rightarrow> poe_sw \<Rightarrow> poe_sw" where
  "poe_switcher_on ch s = (if ch \<ge> POE_CH then s else s\<lparr>poe_inst := (poe_inst s)[ch := True], poe_pins := (poe_pins s)[ch := True]\<rparr>)"

definition poe_switcher_off :: "nat \<Rightarrow> poe_sw \<Rightarrow> poe_sw" where
  "poe_switcher_off ch s = (if ch \<ge> POE_CH then s else s\<lparr>poe_pins := (poe_pins s)[ch := False], poe_inst := (poe_inst s)[ch := False]\<rparr>)"

definition adc_idx :: "nat list" where
  "adc_idx = [0, 0, 1, 1, 1, 1, 1, 1]"

definition poe_switcher_init :: "u32 \<Rightarrow> poe_sw \<Rightarrow> poe_sw" where
  "poe_switcher_init chnl_bits s = fold (\<lambda>i s. if bit chnl_bits i then poe_switcher_off i s else s) [0..<POE_CH] s"

definition poe_poll_ch :: "u32 \<Rightarrow> (nat \<Rightarrow> real) \<Rightarrow> nat \<Rightarrow> poe_sw \<Rightarrow> poe_sw" where
  "poe_poll_ch chnl_bits poe_sns i s =
    (if bit chnl_bits i \<and> \<bar>poe_sns (adc_idx ! i)\<bar> \<ge> 1 then poe_switcher_off i s else s)"

definition poe_switcher_poll :: "u32 \<Rightarrow> (nat \<Rightarrow> real) \<Rightarrow> poe_sw \<Rightarrow> poe_sw" where
  "poe_switcher_poll chnl_bits poe_sns s = fold (poe_poll_ch chnl_bits poe_sns) [0..<POE_CH] s"

section \<open>PC button\<close>

record pc_sw =
  press_tmr :: u32
  pc_pressed :: bool

definition pc_init :: "pc_sw \<Rightarrow> pc_sw" where
  "pc_init s = s\<lparr>pc_pressed := False\<rparr>"

definition pc_switch :: "pc_sw \<Rightarrow> pc_sw" where
  "pc_switch s = s\<lparr>press_tmr := 600, pc_pressed := True\<rparr>"

definition pc_poll :: "u32 \<Rightarrow> pc_sw \<Rightarrow> pc_sw" where
  "pc_poll diff_ms s =
    (if press_tmr s \<noteq> 0
     then if press_tmr s > diff_ms then s\<lparr>press_tmr := press_tmr s - diff_ms\<rparr>
          else s\<lparr>press_tmr := 0, pc_pressed := False\<rparr>
     else s)"

section \<open>PDO production\<close>

text \<open>\<open>sync_1005\<close> is the last value written to object 1005, \<open>cycle_1006\<close> the period in object 1006.\<close>

record pdo_sw =
  pdo_permit :: bool
  pdo_en :: bool
  cycle_1006 :: u32
  sync_1005 :: u32

definition pdo_enable :: "bool \<Rightarrow> pdo_sw \<Rightarrow> pdo_sw" where
  "pdo_enable en s =
    (if en then s\<lparr>pdo_en := True, cycle_1006 := (1000 div 50) * 1000, sync_1005 := push_bit 30 1 OR 0x80\<rparr>
     else s\<lparr>pdo_en := False, cycle_1006 := 20000, sync_1005 := 0x80\<rparr>)"

definition pdo_switch_poll :: "load_sw \<Rightarrow> pdo_sw \<Rightarrow> pdo_sw" where
  "pdo_switch_poll ld s =
    (let s1 = (if pdo_permit s \<and> load_switcher_is_on ld \<and> \<not> pdo_en s then pdo_enable True s else s)
     in if pdo_en s1 \<and> (\<not> load_switcher_is_on ld \<or> \<not> pdo_permit s1) then pdo_enable False s1 else s1)"

definition pdo_switch_en_global :: "load_sw \<Rightarrow> bool \<Rightarrow> pdo_sw \<Rightarrow> pdo_sw" where
  "pdo_switch_en_global ld v s = pdo_switch_poll ld (s\<lparr>pdo_permit := v\<rparr>)"

definition pdo_switch_state :: "pdo_sw \<Rightarrow> bool" where
  "pdo_switch_state s = pdo_permit s"

section \<open>Calendar\<close>

text \<open>
  The peripheral is what it holds: the backup register, the time and the date; the vendor library's
  setters return 1 on success (parameter \<open>set_ok\<close>) and store the structure they are given.
\<close>

record rtc_time = rtc_hours :: u8  rtc_minutes :: u8  rtc_seconds :: u8
record rtc_date = rtc_weekday :: u8  rtc_month :: u8  rtc_day :: u8  rtc_year :: u8

record rtc_dev =
  bkp_dr2 :: u32
  rtc_now :: rtc_time
  rtc_today :: rtc_date

definition mcu_rtc_set_time :: "(rtc_dev \<Rightarrow> bool) \<Rightarrow> u8 \<Rightarrow> u8 \<Rightarrow> u8 \<Rightarrow> rtc_dev \<Rightarrow> int \<times> rtc_dev" where
  "mcu_rtc_set_time set_ok hours minutes seconds r =
    (let r' = r\<lparr>rtc_now := \<lparr>rtc_hours = hours, rtc_minutes = minutes, rtc_seconds = seconds\<rparr>\<rparr>
     in if set_ok r' then (1, r') else (0, r))"

definition mcu_rtc_set_date :: "(rtc_dev \<Rightarrow> bool) \<Rightarrow> u16 \<Rightarrow> u8 \<Rightarrow> u8 \<Rightarrow> u8 \<Rightarrow> rtc_dev \<Rightarrow> int \<times> rtc_dev" where
  "mcu_rtc_set_date set_ok year weekday month date r =
    (let r' = r\<lparr>rtc_today := \<lparr>rtc_weekday = weekday, rtc_month = month, rtc_day = date, rtc_year = ucast (year - 1970)\<rparr>\<rparr>
     in if set_ok r' then (1, r') else (0, r))"

text \<open>\<open>RTC_Year_True\<close> is computed from the two-digit year the peripheral holds.\<close>

definition mcu_rtc_get_date :: "rtc_dev \<Rightarrow> rtc_date \<times> u16" where
  "mcu_rtc_get_date r = (rtc_today r, 1970 + ucast (rtc_year (rtc_today r)))"

definition mcu_rtc_get_time :: "rtc_dev \<Rightarrow> rtc_time" where
  "mcu_rtc_get_time r = rtc_now r"

definition rtc_set_td :: "(rtc_dev \<Rightarrow> bool) \<Rightarrow> rtc_dev \<Rightarrow> rtc_dev" where
  "rtc_set_td set_ok r =
    snd (mcu_rtc_set_date set_ok 1970 4 1 1 (snd (mcu_rtc_set_time set_ok 0 0 0 r)))"

text \<open>The wait for the crystal: \<open>ready k\<close> is the flag at the \<open>k\<close>th look; at most 100001 looks.\<close>

function lse_wait :: "(nat \<Rightarrow> bool) \<Rightarrow> nat \<Rightarrow> bool" where
  "lse_wait ready cnt = (if ready cnt then True else if cnt + 1 > 100000 then False else lse_wait ready (cnt + 1))"
  by pat_completeness auto

termination by (relation "measure (\<lambda>(_, cnt). 100001 - cnt)") auto

declare lse_wait.simps [simp del]

definition rtc_init :: "(nat \<Rightarrow> bool) \<Rightarrow> (rtc_dev \<Rightarrow> bool) \<Rightarrow> rtc_dev \<Rightarrow> int \<times> rtc_dev" where
  "rtc_init ready set_ok r =
    (if bkp_dr2 r \<noteq> 0x55AA
     then if lse_wait ready 0 then (0, (rtc_set_td set_ok r)\<lparr>bkp_dr2 := 0x55AA\<rparr>) else (1, r)
     else (0, r))"

definition mcu_rtc_weekday :: "u8 \<Rightarrow> string" where
  "mcu_rtc_weekday weekday =
    (if weekday = 1 then ''MON'' else if weekday = 2 then ''TUE'' else if weekday = 3 then ''WED''
     else if weekday = 4 then ''THU'' else if weekday = 5 then ''FRI'' else if weekday = 6 then ''SAT''
     else if weekday = 7 then ''SUN'' else ''undef'')"

section \<open>The time base of the main loop\<close>

record timebase =
  remain_systick_us_prev :: u32
  remain_systick_ms_prev :: u32
  system_time :: u64
  sys_time_u32 :: u32

text \<open>One turn: the cycles since the last turn give whole microseconds and milliseconds; the rest is carried over.\<close>

definition time_turn :: "u32 \<Rightarrow> timebase \<Rightarrow> u32 \<times> u32 \<times> timebase" where
  "time_turn systick t =
    (let us = systick + remain_systick_us_prev t; ms = systick + remain_systick_ms_prev t;
         diff_us = us div 168; diff_ms = ms div 168000
     in (diff_us, diff_ms,
         t\<lparr>remain_systick_us_prev := us mod 168, remain_systick_ms_prev := ms mod 168000,
           system_time := system_time t + ucast diff_ms, sys_time_u32 := sys_time_u32 t + diff_ms\<rparr>))"

section \<open>Overcurrent\<close>

lemma u32_sub:
  assumes "(d :: u32) < t"
  shows "unat (t - d) = unat t - unat d" "unat d < unat t" "t - d \<noteq> 0"
proof -
  show "unat (t - d) = unat t - unat d" using assms by (intro unat_sub) simp
  show l: "unat d < unat t" using assms by (simp add: word_less_nat_alt)
  show "t - d \<noteq> 0" using assms by auto
qed

text \<open>A poll's inputs: fault pin, current, milliseconds.\<close>

type_synonym load_input = "bool \<times> real \<times> u32"

definition load_step :: "load_input \<Rightarrow> load_sw \<Rightarrow> load_sw" where
  "load_step x s = (case x of (fault_n, i_sns, d) \<Rightarrow> snd (load_switcher_poll fault_n i_sns d s))"

definition load_time :: "load_input list \<Rightarrow> nat" where
  "load_time xs = sum_list (map (\<lambda>(_, _, d). unat d) xs)"

text \<open>How long the load can still stay on under a lasting overcurrent.\<close>

definition load_slack :: "load_sw \<Rightarrow> nat" where
  "load_slack s = unat (timeout_on_ms s) + (4000 - unat (timeout_cur_longterm_ms s))"

lemma load_off_stays: "\<not> ld_enabled s \<Longrightarrow> \<not> ld_enabled (load_step x s)"
  by (cases x) (simp add: load_step_def load_switcher_poll_def load_switcher_off_def Let_def)

lemma load_run_off_stays: "\<not> ld_enabled s \<Longrightarrow> \<not> ld_enabled (fold load_step xs s)"
  by (induction xs arbitrary: s) (simp_all add: load_off_stays)

lemma load_step_slack:
  assumes "ld_enabled (load_step (f, i, d) s)" "\<bar>i\<bar> \<ge> 1 / 4" "unat d < 2147483648" "unat (timeout_cur_longterm_ms s) < 2147483648"
  shows "load_slack (load_step (f, i, d) s) + unat d \<le> load_slack s
    \<and> unat (timeout_cur_longterm_ms (load_step (f, i, d) s)) < 2147483648"
proof (cases "timeout_on_ms s > d")
  case True
  then have "unat (timeout_on_ms s - d) = unat (timeout_on_ms s) - unat d" "unat d < unat (timeout_on_ms s)" "timeout_on_ms s - d \<noteq> 0"
    by (rule u32_sub)+
  with True assms show ?thesis by (simp add: load_step_def load_switcher_poll_def load_slack_def Let_def)
next
  case False
  have u: "unat (timeout_cur_longterm_ms s + d) = unat (timeout_cur_longterm_ms s) + unat d"
    using assms(3,4) by (subst unat_plus_if') simp
  have ton: "unat (timeout_on_ms s) \<le> unat d" using False by (simp add: word_less_nat_alt)
  have c: "f" "\<not> \<bar>i\<bar> \<ge> 1" "\<not> 4000 \<le> timeout_cur_longterm_ms s + d"
    using assms(1,2) False by (auto simp: load_step_def load_switcher_poll_def load_switcher_off_def Let_def split: if_splits)
  then have l: "unat (timeout_cur_longterm_ms s) + unat d < 4000" using u by (simp add: word_le_nat_alt)
  have "load_step (f, i, d) s = s\<lparr>timeout_on_ms := 0, timeout_cur_longterm_ms := timeout_cur_longterm_ms s + d\<rparr>"
    using c False assms(2) by (simp add: load_step_def load_switcher_poll_def Let_def)
  then show ?thesis using l u by (simp add: load_slack_def)
qed

lemma load_run_slack:
  "ld_enabled (fold load_step xs s) \<Longrightarrow> \<forall>(f, i, d) \<in> set xs. \<bar>i\<bar> \<ge> 1 / 4 \<and> unat d < 2147483648 \<Longrightarrow>
   unat (timeout_cur_longterm_ms s) < 2147483648 \<Longrightarrow> load_time xs \<le> load_slack s"
proof (induction xs arbitrary: s)
  case (Cons x xs)
  obtain f i d where x: "x = (f, i, d)" by (cases x)
  have en: "ld_enabled (load_step x s)" using Cons.prems(1) load_run_off_stays by (metis fold_simps(2))
  have "\<bar>i\<bar> \<ge> 1 / 4" "unat d < 2147483648" using Cons.prems(2) by (auto simp: x)
  note st = load_step_slack [OF en [unfolded x] this Cons.prems(3)]
  have "load_time xs \<le> load_slack (load_step x s)"
    using Cons.IH [of "load_step x s"] Cons.prems(1,2) st x by simp
  then show ?case using st by (simp add: load_time_def x)
qed (simp add: load_time_def)

lemma load_step_quiet: "timeout_on_ms s \<le> 200 \<Longrightarrow> \<bar>i\<bar> < 1 / 4 \<Longrightarrow>
  ld_enabled (load_step (True, i, d) s) = ld_enabled s \<and> ld_pin (load_step (True, i, d) s) = ld_pin s
  \<and> timeout_on_ms (load_step (True, i, d) s) \<le> 200"
proof -
  assume a: "timeout_on_ms s \<le> 200" "\<bar>i\<bar> < 1 / 4"
  have "d < timeout_on_ms s \<Longrightarrow> timeout_on_ms s - d \<le> 200"
    using a(1) u32_sub [of d "timeout_on_ms s"] by (simp add: word_le_nat_alt)
  with a show ?thesis by (auto simp: load_step_def load_switcher_poll_def Let_def)
qed

lemma load_run_quiet:
  "timeout_on_ms s \<le> 200 \<Longrightarrow> \<forall>(f, i, d) \<in> set xs. f \<and> \<bar>i\<bar> < 1 / 4 \<Longrightarrow> ld_enabled (fold load_step xs s) = ld_enabled s"
proof (induction xs arbitrary: s)
  case (Cons x xs)
  obtain f i d where x: "x = (f, i, d)" by (cases x)
  with Cons.prems(2) have "f" "\<bar>i\<bar> < 1 / 4" by auto
  with load_step_quiet [OF Cons.prems(1), of i d] Cons x show ?case by simp
qed simp



section \<open>PDO production follows the load\<close>

datatype pdo_event = Permit bool | Load_on | Load_off | Pdo_poll

definition pdo_step :: "pdo_event \<Rightarrow> load_sw \<times> pdo_sw \<Rightarrow> load_sw \<times> pdo_sw" where
  "pdo_step e s = (case s of (ld, p) \<Rightarrow> case e of
     Permit v \<Rightarrow> (ld, pdo_switch_en_global ld v p)
   | Load_on \<Rightarrow> (load_switcher_on ld, p)
   | Load_off \<Rightarrow> (load_switcher_off ld, p)
   | Pdo_poll \<Rightarrow> (ld, pdo_switch_poll ld p))"

definition pdo_ok :: "pdo_sw \<Rightarrow> bool" where
  "pdo_ok p \<longleftrightarrow> sync_1005 p = (if pdo_en p then 0x40000080 else 0x80)"

lemma pdo_poll_en: "pdo_en (pdo_switch_poll ld p) = (pdo_permit p \<and> ld_enabled ld) \<and> pdo_permit (pdo_switch_poll ld p) = pdo_permit p"
  by (auto simp: pdo_switch_poll_def pdo_enable_def load_switcher_is_on_def Let_def)

lemma pdo_poll_ok: "pdo_ok p \<Longrightarrow> pdo_ok (pdo_switch_poll ld p)"
  by (auto simp: pdo_switch_poll_def pdo_enable_def pdo_ok_def push_bit_eq_mult Let_def)

lemma pdo_permit_ok: "pdo_ok (p\<lparr>pdo_permit := v\<rparr>) = pdo_ok p"
  by (simp add: pdo_ok_def)

interpretation pdo: inv_machine pdo_step "\<lambda>s. pdo_ok (snd s)"
proof unfold_locales
  fix s :: "load_sw \<times> pdo_sw" and e assume "pdo_ok (snd s)"
  then show "pdo_ok (snd (pdo_step e s))"
    by (cases s; cases e) (simp_all add: pdo_step_def pdo_switch_en_global_def pdo_poll_ok pdo_permit_ok)
qed

text \<open>After any sequence of load switching, permission changes and polls, one more poll leaves SYNC production
  (bit 30 of object 1005) on exactly when PDOs are permitted and the load is on.\<close>

lemma pdo_follows_load:
  assumes "pdo_ok p" "fold pdo_step es (ld, p) = (ld', p')"
  shows "pdo_en (pdo_switch_poll ld' p') = (pdo_permit p' \<and> ld_enabled ld')
    \<and> bit (sync_1005 (pdo_switch_poll ld' p')) 30 = (pdo_permit p' \<and> ld_enabled ld')"
proof -
  have "pdo_ok p'" using pdo.inv_run [of "(ld, p)" es] assms by simp
  from pdo_poll_ok [OF this, of ld'] pdo_poll_en [of ld' p'] show ?thesis by (simp add: pdo_ok_def)
qed

lemma pdo_follows_load_witness:
  "bit (sync_1005 (pdo_switch_poll (load_switcher_on \<lparr>ld_enabled = False, timeout_on_ms = 0, timeout_cur_longterm_ms = 0, ld_pin = False\<rparr>)
      \<lparr>pdo_permit = True, pdo_en = False, cycle_1006 = 0, sync_1005 = 0x80\<rparr>)) 30"
  using pdo_follows_load [of "\<lparr>pdo_permit = True, pdo_en = False, cycle_1006 = 0, sync_1005 = 0x80\<rparr>" "[Load_on]"
     "\<lparr>ld_enabled = False, timeout_on_ms = 0, timeout_cur_longterm_ms = 0, ld_pin = False\<rparr>"]
  by (simp add: pdo_ok_def pdo_step_def load_switcher_on_def)

section \<open>The button and the clock\<close>

lemma pc_run:
  "press_tmr s \<noteq> 0 \<Longrightarrow> pc_pressed s \<Longrightarrow> sum_list (map unat ds) < unat (press_tmr s) \<Longrightarrow>
   pc_pressed (fold pc_poll ds s) \<and> unat (press_tmr (fold pc_poll ds s)) = unat (press_tmr s) - sum_list (map unat ds)"
proof (induction ds arbitrary: s)
  case (Cons d ds)
  then have "d < press_tmr s" by (simp add: word_less_nat_alt)
  then have "pc_poll d s = s\<lparr>press_tmr := press_tmr s - d\<rparr>" "unat (press_tmr s - d) = unat (press_tmr s) - unat d" "press_tmr s - d \<noteq> 0"
    using Cons.prems(1) u32_sub [of d "press_tmr s"] by (auto simp: pc_poll_def)
  with Cons.IH [of "pc_poll d s"] Cons.prems show ?case by simp
qed simp

lemma pc_released: "press_tmr s = 0 \<Longrightarrow> \<not> pc_pressed s \<Longrightarrow> fold pc_poll ds s = s"
  by (induction ds) (simp_all add: pc_poll_def)

lemma pc_run_end:
  "pc_pressed s \<Longrightarrow> press_tmr s \<noteq> 0 \<Longrightarrow> unat (press_tmr s) \<le> sum_list (map unat ds) \<Longrightarrow> \<not> pc_pressed (fold pc_poll ds s)"
proof (induction ds arbitrary: s)
  case Nil
  then show ?case by (simp add: unat_eq_0)
next
  case (Cons d ds)
  show ?case
  proof (cases "press_tmr s > d")
    case True
    then have "pc_poll d s = s\<lparr>press_tmr := press_tmr s - d\<rparr>" "unat (press_tmr s - d) = unat (press_tmr s) - unat d" "press_tmr s - d \<noteq> 0"
      using Cons.prems(2) u32_sub [of d "press_tmr s"] by (auto simp: pc_poll_def)
    with Cons.IH [of "pc_poll d s"] Cons.prems show ?thesis by simp
  next
    case False
    then have "pc_poll d s = s\<lparr>press_tmr := 0, pc_pressed := False\<rparr>" using Cons.prems by (simp add: pc_poll_def)
    then show ?thesis using pc_released by simp
  qed
qed

text \<open>A press of the PC's button is held for exactly the polls before 600 ms have passed.\<close>

lemma pc_press_600:
  "pc_pressed (fold pc_poll ds (pc_switch s)) = (sum_list (map unat ds) < 600)"
proof -
  have p: "press_tmr (pc_switch s) = 600" "pc_pressed (pc_switch s)" by (simp_all add: pc_switch_def)
  then show ?thesis using pc_run [of "pc_switch s" ds] pc_run_end [of "pc_switch s" ds]
    by (cases "sum_list (map unat ds) < 600") auto
qed

lemma carry:
  assumes "0 < (m :: nat)"
  shows "(s + c) div m = s div m + (c + s mod m) div m" "(s + c) mod m = (c + s mod m) mod m"
proof -
  have e: "s + c = (c + s mod m) + (s div m) * m" by simp
  show "(s + c) div m = s div m + (c + s mod m) div m" using assms by (subst e) (simp only: div_mult_self1 add.commute)
  show "(s + c) mod m = (c + s mod m) mod m" by (subst e) (simp only: mod_mult_self1)
qed

definition time_run :: "u32 list \<Rightarrow> timebase \<Rightarrow> timebase" where
  "time_run cs t = fold (\<lambda>c t. snd (snd (time_turn c t))) cs t"

lemma word_of_nat_unat_id: "of_nat (unat w) = (w :: 'a :: len word)"
  by simp

lemma time_turn_step:
  assumes "unat c < 4294799296" "unat (remain_systick_ms_prev t) < 168000"
  shows "unat (remain_systick_ms_prev (snd (snd (time_turn c t)))) < 168000
    \<and> sys_time_u32 (snd (snd (time_turn c t))) = sys_time_u32 t + of_nat ((unat c + unat (remain_systick_ms_prev t)) div 168000)
    \<and> unat (remain_systick_ms_prev (snd (snd (time_turn c t)))) = (unat c + unat (remain_systick_ms_prev t)) mod 168000"
proof -
  have u: "unat (c + remain_systick_ms_prev t) = unat c + unat (remain_systick_ms_prev t)"
    using assms by (subst unat_plus_if') simp
  have m: "unat ((c + remain_systick_ms_prev t) mod 168000) = (unat c + unat (remain_systick_ms_prev t)) mod 168000"
    unfolding unat_mod u by simp
  have "unat ((c + remain_systick_ms_prev t) div 168000) = (unat c + unat (remain_systick_ms_prev t)) div 168000"
    unfolding unat_div u by simp
  then have d: "(c + remain_systick_ms_prev t) div 168000 = of_nat ((unat c + unat (remain_systick_ms_prev t)) div 168000)"
    by (metis word_of_nat_unat_id)
  show ?thesis using m d by (simp add: time_turn_def Let_def)
qed

text \<open>The clock does not drift: whatever the turns of the main loop, the milliseconds counted are the whole
  milliseconds in the total of the cycles, and the remainder is carried.\<close>

lemma time_no_drift:
  assumes "\<forall>c \<in> set cs. unat c < 4294799296" "unat (remain_systick_ms_prev t) = 0"
  shows "sys_time_u32 (time_run cs t) = sys_time_u32 t + of_nat (sum_list (map unat cs) div 168000)
    \<and> unat (remain_systick_ms_prev (time_run cs t)) = sum_list (map unat cs) mod 168000"
  using assms(1)
proof (induction cs rule: rev_induct)
  case Nil
  then show ?case using assms(2) by (simp add: time_run_def)
next
  case (snoc c cs)
  let ?t = "time_run cs t"
  let ?s = "sum_list (map unat cs)"
  have ih: "sys_time_u32 ?t = sys_time_u32 t + of_nat (?s div 168000)" "unat (remain_systick_ms_prev ?t) = ?s mod 168000"
    using snoc by simp_all
  have r: "time_run (cs @ [c]) t = snd (snd (time_turn c ?t))" by (simp add: time_run_def)
  note e = carry [of 168000 ?s "unat c"]
  have "unat (remain_systick_ms_prev ?t) < 168000" using ih(2) by simp
  from time_turn_step [OF _ this, of c] snoc.prems ih e show ?case by (simp add: r add.assoc)
qed

lemma time_no_drift_witness:
  "sys_time_u32 (time_run [100000, 100000, 200000] \<lparr>remain_systick_us_prev = 0, remain_systick_ms_prev = 0, system_time = 0, sys_time_u32 = 0\<rparr>) = 2"
  using time_no_drift [of "[100000, 100000, 200000]" "\<lparr>remain_systick_us_prev = 0, remain_systick_ms_prev = 0, system_time = 0, sys_time_u32 = 0\<rparr>"]
  by simp

end
