(* ===== verification/Tftp.thy ===== *)
theory Tftp
  imports C_Text
begin

text \<open>
  The TFTP server (common/eth/tftp_server.c, common/eth/tftp_utils.c): packets, the receive callbacks of
  one transfer, and the server that starts transfers.  What a transfer reads and writes is behind the
  callbacks of \<open>tftp_io\<close>; lwIP's allocation results are parameters.  The theory Fw_Transfer supplies
  the callbacks of the loader and of the gateway.
\<close>

section \<open>Packets\<close>

datatype tftp_opcode = TFTP_RRQ | TFTP_WRQ | TFTP_DATA | TFTP_ACK | TFTP_ERROR

definition opcode_val :: "tftp_opcode \<Rightarrow> u8" where
  "opcode_val op = (case op of TFTP_RRQ \<Rightarrow> 1 | TFTP_WRQ \<Rightarrow> 2 | TFTP_DATA \<Rightarrow> 3 | TFTP_ACK \<Rightarrow> 4 | TFTP_ERROR \<Rightarrow> 5)"

text \<open>
  A received packet: the memory src its payload on (the pool buffer may hold more than the packet),
  its length and the length of the whole chain.
\<close>

record pbuf =
  pb_mem :: bytes
  pb_len :: u16
  pb_tot_len :: u16

definition byte_at :: "bytes \<Rightarrow> nat \<Rightarrow> u8" where
  "byte_at buf i = (if i < length buf then buf ! i else 0)"

definition tftp_decode_op :: "bytes \<Rightarrow> u8" where
  "tftp_decode_op buf = byte_at buf 1"

text \<open>\<open>ntohs\<close> of the two bytes at offset 2.\<close>

definition tftp_extract_block :: "bytes \<Rightarrow> u16" where
  "tftp_extract_block buf = word16_of (byte_at buf 3) (byte_at buf 2)"

text \<open>The string \<open>strcpy\<close> copies; the caller has room for 32 bytes.\<close>

definition tftp_extract_filename :: "bytes \<Rightarrow> bytes" where
  "tftp_extract_filename buf = c_str (drop 2 buf)"

text \<open>A packet under construction is a list of bytes; each setter writes its bytes into it.\<close>

definition tftp_set_opcode :: "tftp_opcode \<Rightarrow> bytes \<Rightarrow> bytes" where
  "tftp_set_opcode op buf = buf[0 := 0, 1 := opcode_val op]"

definition tftp_set_errorcode :: "nat \<Rightarrow> bytes \<Rightarrow> bytes" where
  "tftp_set_errorcode err buf = buf[2 := 0, 3 := of_nat err]"

definition tftp_set_errormsg :: "bytes \<Rightarrow> bytes \<Rightarrow> bytes" where
  "tftp_set_errormsg msg buf = take 4 buf @ msg @ [0] @ drop (4 + length msg + 1) buf"

definition tftp_set_block :: "u16 \<Rightarrow> bytes \<Rightarrow> bytes" where
  "tftp_set_block blk buf = buf[2 := ucast (drop_bit 8 blk), 3 := ucast blk]"

definition tftp_set_data_message :: "bytes \<Rightarrow> bytes \<Rightarrow> bytes" where
  "tftp_set_data_message d buf = take 4 buf @ d @ drop (4 + length d) buf"

definition tftp_is_correct_ack :: "bytes \<Rightarrow> int \<Rightarrow> bool" where
  "tftp_is_correct_ack buf blk =
    (if tftp_decode_op buf \<noteq> opcode_val TFTP_ACK then False
     else if blk \<noteq> uint (tftp_extract_block buf) then False else True)"

definition tftp_errorcode_string :: "string list" where
  "tftp_errorcode_string =
    [''not defined'', ''file not found'', ''access violation'', ''disk full'', ''illegal operation'',
     ''unknown transfer id'', ''file already exists'', ''no such user'']"

text \<open>Error codes: 0 not defined, 1 file not found, 2 access violation, 4 illegal operation.\<close>

definition tftp_construct_error_message :: "nat \<Rightarrow> bytes \<Rightarrow> nat \<times> bytes" where
  "tftp_construct_error_message err buf =
    (let s = ascii (if err \<ge> length tftp_errorcode_string then ''unknown'' else tftp_errorcode_string ! err)
     in (4 + length s + 1, tftp_set_errormsg s (tftp_set_errorcode err (tftp_set_opcode TFTP_ERROR buf))))"

section \<open>A transfer\<close>

abbreviation TFTP_DATA_LEN_MAX :: nat where "TFTP_DATA_LEN_MAX \<equiv> 512"
abbreviation TFTP_HDR_LEN :: nat where "TFTP_HDR_LEN \<equiv> 4"
abbreviation TFTP_PKT_LEN_MAX :: nat where "TFTP_PKT_LEN_MAX \<equiv> 516"

type_synonym peer = "u32 \<times> u16"

record tftp_conn =
  conn_op :: tftp_opcode
  conn_data :: bytes
  data_len :: u32
  to_peer :: peer
  conn_block :: int
  tot_bytes :: u32

datatype tftp_handler = No_handler | Rrq_recv | Wrq_recv

text \<open>
  A transfer owns a control block and, src the heap, its \<open>tftp_connection_args\<close>.  \<open>args_live\<close> and
  \<open>pcb_live\<close> tell whether they are still allocated, \<open>uaf\<close> whether a freed one was used.
  The heap keeps the bytes of a freed block.
\<close>

record tftp_sess =
  s_args :: tftp_conn
  args_live :: bool
  pcb_live :: bool
  handler :: tftp_handler
  uaf :: bool
  sends :: nat
  sent :: "(peer \<times> bytes) list"

text \<open>
  The callbacks.  \<open>io_write\<close> gets an offset and the bytes (none for the final call) and returns a status;
  \<open>io_read\<close> gets an offset and the size of the buffer, and returns a status and, when it writes
  \<open>*size_read\<close>, the bytes it stored; \<open>io_check\<close> is \<open>tftp_server_check_file\<close>.
\<close>

record 'd tftp_io =
  io_write :: "u32 \<Rightarrow> bytes \<Rightarrow> 'd \<Rightarrow> nat \<times> 'd"
  io_read :: "u32 \<Rightarrow> nat \<Rightarrow> 'd \<Rightarrow> nat \<times> bytes option \<times> 'd"
  io_check :: "bool \<Rightarrow> bytes \<Rightarrow> 'd \<Rightarrow> nat \<times> 'd"

text \<open>An access to \<open>args\<close>; an access to the control block.\<close>

definition use_args :: "tftp_sess \<Rightarrow> tftp_sess" where
  "use_args s = (if args_live s then s else s\<lparr>uaf := True\<rparr>)"

definition upd_args :: "(tftp_conn \<Rightarrow> tftp_conn) \<Rightarrow> tftp_sess \<Rightarrow> tftp_sess" where
  "upd_args f s = (use_args s)\<lparr>s_args := f (s_args s)\<rparr>"

definition use_pcb :: "tftp_sess \<Rightarrow> tftp_sess" where
  "use_pcb s = (if pcb_live s then s else s\<lparr>uaf := True\<rparr>)"

text \<open>\<open>tftp_cleanup_rd\<close> and \<open>tftp_cleanup_wr\<close> are the same code: a second free is a use after free.\<close>

definition tftp_cleanup_rd :: "tftp_sess \<Rightarrow> tftp_sess" where
  "tftp_cleanup_rd s = (use_pcb (use_args s))\<lparr>args_live := False, pcb_live := False\<rparr>"

definition tftp_cleanup_wr :: "tftp_sess \<Rightarrow> tftp_sess" where
  "tftp_cleanup_wr s = (use_pcb (use_args s))\<lparr>args_live := False, pcb_live := False\<rparr>"

text \<open>\<open>net k\<close>: whether the \<open>k\<close>th packet of the transfer gets a buffer.\<close>

definition tftp_send_message :: "(nat \<Rightarrow> bool) \<Rightarrow> peer \<Rightarrow> bytes \<Rightarrow> nat \<Rightarrow> tftp_sess \<Rightarrow> tftp_sess" where
  "tftp_send_message net to buf buflen s0 =
    (let s = s0\<lparr>sends := sends s0 + 1\<rparr>
     in if net (sends s0) then (use_pcb s)\<lparr>sent := sent s @ [(to, take buflen buf)]\<rparr> else s)"

definition tftp_send_error_message :: "(nat \<Rightarrow> bool) \<Rightarrow> peer \<Rightarrow> nat \<Rightarrow> tftp_sess \<Rightarrow> tftp_sess" where
  "tftp_send_error_message net to err s =
    (case tftp_construct_error_message err (replicate 512 0) of (n, buf) \<Rightarrow> tftp_send_message net to buf n s)"

definition tftp_send_ack_packet :: "(nat \<Rightarrow> bool) \<Rightarrow> peer \<Rightarrow> u16 \<Rightarrow> tftp_sess \<Rightarrow> tftp_sess" where
  "tftp_send_ack_packet net to blk s =
    tftp_send_message net to (tftp_set_block blk (tftp_set_opcode TFTP_ACK (replicate 4 0))) 4 s"

text \<open>The handlers return how often they freed the packet, the transfer, and the device.\<close>

definition wrq_recv_callback :: "'d tftp_io \<Rightarrow> (nat \<Rightarrow> bool) \<Rightarrow> peer \<Rightarrow> pbuf \<Rightarrow> tftp_sess \<Rightarrow> 'd \<Rightarrow> nat \<times> tftp_sess \<times> 'd" where
  "wrq_recv_callback io net src p s d =
    (if pb_len p \<noteq> pb_tot_len p then (0, s, d)
     else
       let n = unat (pb_len p);
           fresh = (uint (tftp_extract_block (pb_mem p)) = conn_block (s_args s) + 1);
           (s1, d1) =
             (if n > TFTP_HDR_LEN \<and> fresh
              then case io_write io (tot_bytes (s_args s)) (take (n - TFTP_HDR_LEN) (drop TFTP_HDR_LEN (pb_mem p))) d of
                (sts, d') \<Rightarrow>
                  let s' = (if sts \<noteq> 0 then tftp_cleanup_wr (tftp_send_error_message net src (sts + 10) s) else s)
                  in (upd_args (\<lambda>a. a\<lparr>conn_block := conn_block a + 1, tot_bytes := tot_bytes a + of_nat (n - TFTP_HDR_LEN)\<rparr>) s', d')
              else if fresh then (upd_args (\<lambda>a. a\<lparr>conn_block := conn_block a + 1\<rparr>) s, d)
              else (s, d));
           s2 = tftp_send_ack_packet net src (word_of_int (conn_block (s_args s1))) (use_args s1)
       in if n < TFTP_PKT_LEN_MAX
          then case io_write io (tot_bytes (s_args s2)) [] d1 of (_, d2) \<Rightarrow> (1, tftp_cleanup_wr (use_args s2), d2)
          else (1, s2, d1))"

definition tftp_rd_send_next_block :: "'d tftp_io \<Rightarrow> (nat \<Rightarrow> bool) \<Rightarrow> peer \<Rightarrow> tftp_sess \<Rightarrow> 'd \<Rightarrow> tftp_sess \<times> 'd" where
  "tftp_rd_send_next_block io net to s d =
    (case io_read io (tot_bytes (s_args s)) TFTP_DATA_LEN_MAX d of (sts, got, d') \<Rightarrow>
      let s1 = (case got of None \<Rightarrow> use_args s
                | Some bs \<Rightarrow> upd_args (\<lambda>a. a\<lparr>conn_data := bs @ drop (length bs) (conn_data a), data_len := of_nat (length bs)\<rparr>) s);
          s2 = (if sts \<noteq> 0 then tftp_cleanup_rd (tftp_send_error_message net to 4 s1) else s1);
          s3 = upd_args (\<lambda>a. a\<lparr>tot_bytes := tot_bytes a + data_len a\<rparr>) s2;
          a = s_args s3; n = unat (data_len a);
          packet = tftp_set_data_message (take n (conn_data a))
            (tftp_set_block (word_of_int (conn_block a)) (tftp_set_opcode TFTP_DATA (replicate TFTP_PKT_LEN_MAX 0)))
      in (tftp_send_message net to packet (n + 4) s3, d'))"

definition rrq_recv_callback :: "'d tftp_io \<Rightarrow> (nat \<Rightarrow> bool) \<Rightarrow> peer \<Rightarrow> pbuf \<Rightarrow> tftp_sess \<Rightarrow> 'd \<Rightarrow> nat \<times> tftp_sess \<times> 'd" where
  "rrq_recv_callback io net src p s d =
    (let s1 = (if tftp_is_correct_ack (pb_mem p) (conn_block (s_args s))
               then upd_args (\<lambda>a. a\<lparr>conn_block := conn_block a + 1\<rparr>) s else use_args s);
         short = (data_len (s_args s1) < 512);
         s2 = (if short then tftp_cleanup_rd s1 else s1)
     in case tftp_rd_send_next_block io net src s2 d of
          (s3, d') \<Rightarrow> ((if short then 2 else 1), s3, d'))"

text \<open>\<open>mem\<close>: what \<open>mem_malloc\<close> gives, \<open>None\<close> when the heap is exhausted.\<close>

definition tftp_process_read :: "'d tftp_io \<Rightarrow> (nat \<Rightarrow> bool) \<Rightarrow> tftp_conn option \<Rightarrow> peer \<Rightarrow> bytes \<Rightarrow> tftp_sess \<Rightarrow> 'd \<Rightarrow> int \<times> tftp_sess \<times> 'd" where
  "tftp_process_read io net mem to file_name s d0 =
    (case io_check io False file_name d0 of (err, d) \<Rightarrow>
      if err \<noteq> 0 then (0, (use_pcb (tftp_send_error_message net to 1 s))\<lparr>pcb_live := False\<rparr>, d)
      else case mem of
        None \<Rightarrow> (0, (use_pcb (tftp_send_error_message net to 0 s))\<lparr>pcb_live := False\<rparr>, d)
      | Some junk \<Rightarrow>
          let s1 = s\<lparr>args_live := True, handler := Rrq_recv,
                     s_args := junk\<lparr>conn_op := TFTP_RRQ, to_peer := to, conn_block := 1, tot_bytes := 0\<rparr>\<rparr>
          in case tftp_rd_send_next_block io net to s1 d of (s2, d') \<Rightarrow> (1, s2, d'))"

definition tftp_process_write :: "'d tftp_io \<Rightarrow> (nat \<Rightarrow> bool) \<Rightarrow> tftp_conn option \<Rightarrow> peer \<Rightarrow> bytes \<Rightarrow> tftp_sess \<Rightarrow> 'd \<Rightarrow> int \<times> tftp_sess \<times> 'd" where
  "tftp_process_write io net mem to file_name s d0 =
    (case io_check io True file_name d0 of (err, d) \<Rightarrow>
      if err \<noteq> 0 then (0, (use_pcb (tftp_send_error_message net to 0 s))\<lparr>pcb_live := False\<rparr>, d)
      else case mem of
        None \<Rightarrow> (0, (use_pcb (tftp_send_error_message net to 0 s))\<lparr>pcb_live := False\<rparr>, d)
      | Some junk \<Rightarrow>
          let s1 = s\<lparr>args_live := True, handler := Wrq_recv,
                     s_args := junk\<lparr>conn_op := TFTP_WRQ, to_peer := to, conn_block := 0, tot_bytes := 0\<rparr>\<rparr>
          in (0, tftp_send_ack_packet net to 0 s1, d))"

section \<open>The server\<close>

text \<open>\<open>overrun\<close>: a file name overran its 32 bytes.  Transfers are numbered in the order they started.\<close>

record 'd tftp_srv =
  srv_dev :: 'd
  transfers :: "tftp_sess list"
  stay_in_boot :: bool
  overrun :: bool

text \<open>What lwIP gives a request: a control block, a port, memory.\<close>

record tftp_env =
  env_new :: bool
  env_bind :: bool
  env_mem :: "tftp_conn option"

definition blank_conn :: tftp_conn where
  "blank_conn = \<lparr>conn_op = TFTP_RRQ, conn_data = replicate 512 0, data_len = 0, to_peer = (0, 0), conn_block = 0, tot_bytes = 0\<rparr>"

definition new_sess :: tftp_sess where
  "new_sess = \<lparr>s_args = blank_conn, args_live = False, pcb_live = True, handler = No_handler, uaf = False, sends = 0, sent = []\<rparr>"

definition process_tftp_request :: "'d tftp_io \<Rightarrow> (nat \<Rightarrow> bool) \<Rightarrow> tftp_env \<Rightarrow> pbuf \<Rightarrow> peer \<Rightarrow> 'd tftp_srv \<Rightarrow> 'd tftp_srv" where
  "process_tftp_request io net env p src v =
    (let op = tftp_decode_op (pb_mem p); name = tftp_extract_filename (pb_mem p); v1 = v\<lparr>overrun := overrun v \<or> 32 \<le> length name\<rparr>
     in if \<not> env_new env then v
        else if \<not> env_bind env then v
        else if op = opcode_val TFTP_RRQ
        then case tftp_process_read io net (env_mem env) src name new_sess (srv_dev v) of
               (_, s, d) \<Rightarrow> v1\<lparr>srv_dev := d, transfers := transfers v @ [s]\<rparr>
        else if op = opcode_val TFTP_WRQ
        then case tftp_process_write io net (env_mem env) src name new_sess (srv_dev v) of
               (_, s, d) \<Rightarrow> v1\<lparr>srv_dev := d, transfers := transfers v @ [s]\<rparr>
        else v\<lparr>transfers := transfers v @ [(tftp_send_error_message net src 2 new_sess)\<lparr>pcb_live := False\<rparr>]\<rparr>)"

definition recv_callback_tftp :: "'d tftp_io \<Rightarrow> (nat \<Rightarrow> bool) \<Rightarrow> tftp_env \<Rightarrow> pbuf \<Rightarrow> peer \<Rightarrow> 'd tftp_srv \<Rightarrow> nat \<times> 'd tftp_srv" where
  "recv_callback_tftp io net env p src v = (1, process_tftp_request io net env p src (v\<lparr>stay_in_boot := True\<rparr>))"

definition tftpd_init :: "bool \<Rightarrow> bool \<Rightarrow> int" where
  "tftpd_init udp_ok bound = (if \<not> udp_ok then -1 else if \<not> bound then -2 else 0)"

text \<open>A datagram for transfer \<open>i\<close>: lwIP calls the handler of a control block that is still there.\<close>

definition tftp_dispatch :: "'d tftp_io \<Rightarrow> (nat \<Rightarrow> bool) \<Rightarrow> nat \<Rightarrow> pbuf \<Rightarrow> peer \<Rightarrow> 'd tftp_srv \<Rightarrow> 'd tftp_srv" where
  "tftp_dispatch io net i p src v =
    (if i < length (transfers v) \<and> pcb_live (transfers v ! i)
     then case handler (transfers v ! i) of
         No_handler \<Rightarrow> v
       | Rrq_recv \<Rightarrow> (case rrq_recv_callback io net src p (transfers v ! i) (srv_dev v) of
           (_, s, d) \<Rightarrow> v\<lparr>srv_dev := d, transfers := (transfers v)[i := s]\<rparr>)
       | Wrq_recv \<Rightarrow> (case wrq_recv_callback io net src p (transfers v ! i) (srv_dev v) of
           (_, s, d) \<Rightarrow> v\<lparr>srv_dev := d, transfers := (transfers v)[i := s]\<rparr>)
     else v)"


section \<open>Packets read back\<close>

lemma length_tftp_set [simp]:
  "length (tftp_set_opcode op buf) = length buf" "length (tftp_set_block k buf) = length buf"
  by (simp_all add: tftp_set_opcode_def tftp_set_block_def)

lemma extract_set_block: "4 \<le> length buf \<Longrightarrow> tftp_extract_block (tftp_set_block k buf @ r) = k"
  by (simp add: tftp_extract_block_def tftp_set_block_def byte_at_def nth_append word16_of_le16)

text \<open>Block \<open>k\<close> (src 1) of a file, and the packet that carries it.\<close>

definition file_block :: "bytes \<Rightarrow> nat \<Rightarrow> bytes" where
  "file_block f k = take 512 (drop (512 * (k - 1)) f)"

definition data_hdr :: "nat \<Rightarrow> bytes" where
  "data_hdr k = tftp_set_block (of_nat k) (tftp_set_opcode TFTP_DATA (replicate 4 0))"

definition data_pkt :: "bytes \<Rightarrow> bytes \<Rightarrow> nat \<Rightarrow> pbuf" where
  "data_pkt slack f k = \<lparr>pb_mem = data_hdr k @ file_block f k @ slack,
     pb_len = of_nat (4 + length (file_block f k)), pb_tot_len = of_nat (4 + length (file_block f k))\<rparr>"

definition ack_pkt :: "nat \<Rightarrow> bytes" where
  "ack_pkt k = tftp_set_block (of_nat k) (tftp_set_opcode TFTP_ACK (replicate 4 0))"

lemma length_data_hdr [simp]: "length (data_hdr k) = 4" "length (ack_pkt k) = 4"
  by (simp_all add: data_hdr_def ack_pkt_def)

lemma length_file_block: "length (file_block f k) = min 512 (length f - 512 * (k - 1))"
  by (simp add: file_block_def)

lemma data_pkt_block: "k < 65536 \<Longrightarrow> uint (tftp_extract_block (pb_mem (data_pkt slack f k))) = int k"
proof -
  assume "k < 65536"
  then have "unat (of_nat k :: u16) = k" by (simp add: unat_of_nat_u16)
  then have "uint (of_nat k :: u16) = int k" by (metis uint_nat)
  then show ?thesis by (simp add: data_pkt_def data_hdr_def extract_set_block)
qed

lemma data_pkt_len: "unat (pb_len (data_pkt slack f k)) = 4 + length (file_block f k)"
proof -
  have "4 + length (file_block f k) < 2 ^ 16" by (simp add: length_file_block)
  then show ?thesis unfolding data_pkt_def by (simp only: pbuf.simps unat_of_nat_u16)
qed

lemma data_pkt_sel [simp]: "pb_tot_len (data_pkt slack f k) = pb_len (data_pkt slack f k)"
  "take (length (file_block f k)) (drop 4 (pb_mem (data_pkt slack f k))) = file_block f k"
  by (simp_all add: data_pkt_def)

lemma file_block_next: "take (512 * m) f @ file_block f (Suc m) = take (512 * Suc m) f"
  by (simp add: file_block_def take_add [of "512 * m" 512, simplified add.commute] add.commute)

section \<open>Receiving a file\<close>

lemma use_live [simp]: "args_live s \<Longrightarrow> use_args s = s" "pcb_live s \<Longrightarrow> use_pcb s = s"
  by (simp_all add: use_args_def use_pcb_def)

lemma send_live: "pcb_live s \<Longrightarrow> tftp_send_message net to buf n s
   = s\<lparr>sends := sends s + 1, sent := (if net (sends s) then sent s @ [(to, take n buf)] else sent s)\<rparr>"
  by (simp add: tftp_send_message_def Let_def use_pcb_def)

text \<open>The datagrams of a transfer: any full blocks of the file, in any order and as often as the network likes.\<close>

definition recv_blocks :: "'d tftp_io \<Rightarrow> (nat \<Rightarrow> bool) \<Rightarrow> bytes \<Rightarrow> (nat \<times> peer) list \<Rightarrow> tftp_sess \<times> 'd \<Rightarrow> tftp_sess \<times> 'd" where
  "recv_blocks io net f es x = fold (\<lambda>(k, src) (s, d). snd (wrq_recv_callback io net src (data_pkt [] f k) s d)) es x"

text \<open>What a callback has to promise: it appends what it is given, up to a limit.\<close>

locale tftp_sink =
  fixes io :: "'d tftp_io" and stored :: "'d \<Rightarrow> bytes \<Rightarrow> bool" and limit :: nat
  assumes store_next: "stored d bs \<Longrightarrow> data \<noteq> [] \<Longrightarrow> length bs + length data \<le> limit \<Longrightarrow>
      fst (io_write io (of_nat (length bs)) data d) = 0 \<and> stored (snd (io_write io (of_nat (length bs)) data d)) (bs @ data)"
    and store_end: "stored d bs \<Longrightarrow> length bs \<le> limit \<Longrightarrow> stored (snd (io_write io (of_nat (length bs)) [] d)) bs"
    and limit_small: "limit < 512 * 65535"
begin

text \<open>After \<open>m\<close> full blocks.\<close>

definition receiving :: "bytes \<Rightarrow> nat \<Rightarrow> tftp_sess \<times> 'd \<Rightarrow> bool" where
  "receiving f m x \<longleftrightarrow> (case x of (s, d) \<Rightarrow> args_live s \<and> pcb_live s \<and> handler s = Wrq_recv \<and> \<not> uaf s
     \<and> conn_block (s_args s) = int m \<and> tot_bytes (s_args s) = of_nat (512 * m) \<and> stored d (take (512 * m) f) \<and> 512 * m \<le> length f)"

lemma recv_full:
  assumes r: "receiving f m (s, d)" and lim: "length f \<le> limit" and k: "1 \<le> k" "512 * k \<le> length f"
  shows "fst (wrq_recv_callback io net src (data_pkt slack f k) s d) = 1
    \<and> receiving f (if k = Suc m then k else m) (snd (wrq_recv_callback io net src (data_pkt slack f k) s d))"
proof -
  have k16: "k < 65536" using k lim limit_small by simp
  have len: "length (file_block f k) = 512" using k by (simp add: length_file_block)
  note pkt = data_pkt_block [OF k16, of slack f] data_pkt_len [of slack f k]
  show ?thesis
  proof (cases "k = Suc m")
    case True
    let ?w = "io_write io (of_nat (512 * m)) (file_block f k) d"
    have lm: "length (take (512 * m) f) = 512 * m" using r by (simp add: receiving_def)
    have ne: "file_block f (Suc m) \<noteq> []" using len True by force
    have w: "fst ?w = 0" "stored (snd ?w) (take (512 * k) f)"
      using store_next [of d "take (512 * m) f" "file_block f k"] r ne len lim k lm True file_block_next [of m f]
      by (auto simp: receiving_def)
    obtain d' where d': "?w = (0, d')" using w(1) by (metis prod.collapse)
    have t: "take 512 (drop 4 (pb_mem (data_pkt slack f k))) = file_block f k" using data_pkt_sel(2) [of f k slack] len by simp
    have "(of_nat (512 * m) :: u32) + 512 = of_nat (512 * k)" using True by simp
    then show ?thesis using r True pkt len d' w k t
      by (simp add: wrq_recv_callback_def receiving_def Let_def upd_args_def tftp_send_ack_packet_def send_live)
  next
    case False
    then show ?thesis using r pkt len
      by (simp add: wrq_recv_callback_def receiving_def Let_def tftp_send_ack_packet_def send_live)
  qed
qed


end

text \<open>The next block in order counts, every other is ignored.\<close>

definition in_order :: "nat list \<Rightarrow> nat \<Rightarrow> nat" where
  "in_order ks m = foldl (\<lambda>m k. if k = Suc m then k else m) m ks"

context tftp_sink begin

lemma recv_blocks_receiving:
  assumes "length f \<le> limit" "\<forall>(k, src) \<in> set es. 1 \<le> k \<and> 512 * k \<le> length f" "receiving f m x"
  shows "receiving f (in_order (map fst es) m) (recv_blocks io net f es x)"
  using assms(2,3)
proof (induction es arbitrary: m x)
  case Nil
  then show ?case by (simp add: recv_blocks_def in_order_def)
next
  case (Cons e es)
  obtain k src s d where e: "e = (k, src)" "x = (s, d)" by (metis surj_pair)
  then have "1 \<le> k" "512 * k \<le> length f" using Cons.prems(1) by auto
  from recv_full [OF _ assms(1) this, of m s d net src "[]"] Cons.prems(2) e
  have "receiving f (if k = Suc m then k else m) (snd (wrq_recv_callback io net src (data_pkt [] f k) s d))" by simp
  from Cons.IH [OF _ this] Cons.prems(1) show ?case by (simp add: recv_blocks_def in_order_def e)
qed

text \<open>The last block, which is short and may be empty.\<close>

lemma recv_last:
  fixes src :: peer
  assumes r: "receiving f m (s, d)" and lim: "length f \<le> limit" and m: "m = length f div 512" and net: "net (sends s)"
  defines "x \<equiv> snd (wrq_recv_callback io net src (data_pkt [] f (Suc m)) s d)"
  shows "stored (snd x) f \<and> \<not> args_live (fst x) \<and> \<not> pcb_live (fst x) \<and> \<not> uaf (fst x)
    \<and> sent (fst x) = sent s @ [(src, ack_pkt (Suc m))]"
proof -
  have k16: "Suc m < 65536" using m lim limit_small by simp
  have whole: "take (512 * m) f @ file_block f (Suc m) = f"
    using file_block_next [of m f] m by simp
  have lm: "length (take (512 * m) f) = 512 * m" using r by (simp add: receiving_def)
  have len: "length (file_block f (Suc m)) < 512" and len2: "length f = 512 * m + length (file_block f (Suc m))"
    using m by (simp_all add: length_file_block)
  note pkt = data_pkt_block [OF k16, of "[]" f] data_pkt_len [of "[]" f "Suc m"]
  have ack: "take 4 (ack_pkt (Suc m)) = ack_pkt (Suc m)" by simp
  show ?thesis
  proof (cases "file_block f (Suc m) = []")
    case True
    then have "stored (snd (io_write io (of_nat (512 * m)) [] d)) f" using store_end [of d "take (512 * m) f"] r lm lim whole len2
      by (auto simp: receiving_def)
    then show ?thesis using True r pkt net ack unfolding x_def ack_pkt_def
      by (auto simp: wrq_recv_callback_def receiving_def Let_def upd_args_def tftp_send_ack_packet_def send_live tftp_cleanup_wr_def add.commute split: prod.splits)
  next
    case False
    let ?w = "io_write io (of_nat (512 * m)) (file_block f (Suc m)) d"
    have w: "fst ?w = 0" "stored (snd ?w) f"
      using store_next [of d "take (512 * m) f" "file_block f (Suc m)"] r False lm lim whole len2 by (auto simp: receiving_def)
    obtain d' where d': "?w = (0, d')" using w(1) by (metis prod.collapse)
    have e: "(of_nat (512 * m) :: u32) + of_nat (length (file_block f (Suc m))) = of_nat (length f)" using len2 by simp
    have "stored (snd (io_write io (of_nat (length f)) [] d')) f" using store_end [of d' f] w(2) d' lim by simp
    then show ?thesis using False r pkt net ack d' len e unfolding x_def ack_pkt_def
      by (auto simp: wrq_recv_callback_def receiving_def Let_def upd_args_def tftp_send_ack_packet_def send_live tftp_cleanup_wr_def add.commute split: prod.splits)
  qed
qed

end

section \<open>Sending a file\<close>

definition ack_pbuf :: "nat \<Rightarrow> pbuf" where
  "ack_pbuf k = \<lparr>pb_mem = ack_pkt k, pb_len = 4, pb_tot_len = 4\<rparr>"

definition data_bytes :: "bytes \<Rightarrow> nat \<Rightarrow> bytes" where
  "data_bytes f k = data_hdr k @ file_block f k"

text \<open>The client acknowledges one block after the other.\<close>

definition send_acks :: "'d tftp_io \<Rightarrow> peer \<Rightarrow> nat list \<Rightarrow> tftp_sess \<times> 'd \<Rightarrow> tftp_sess \<times> 'd" where
  "send_acks io src ks x = fold (\<lambda>k (s, d). snd (rrq_recv_callback io (\<lambda>_. True) src (ack_pbuf k) s d)) ks x"

lemma ack_correct: "k < 65536 \<Longrightarrow> tftp_is_correct_ack (pb_mem (ack_pbuf k)) b = (b = int k)"
proof -
  assume "k < 65536"
  then have "unat (of_nat k :: u16) = k" by (simp add: unat_of_nat_u16)
  then have u: "uint (of_nat k :: u16) = int k" by (metis uint_nat)
  have "tftp_extract_block (ack_pkt k) = of_nat k"
    using extract_set_block [of "tftp_set_opcode TFTP_ACK (replicate 4 0)" "of_nat k" "[]"] by (simp add: ack_pkt_def)
  moreover have "tftp_decode_op (ack_pkt k) = 4"
    by (simp add: ack_pkt_def tftp_decode_op_def byte_at_def tftp_set_block_def tftp_set_opcode_def opcode_val_def)
  ultimately show ?thesis using u by (auto simp: tftp_is_correct_ack_def ack_pbuf_def opcode_val_def)
qed

lemma data_packet: "length bs \<le> 512 \<Longrightarrow>
  take (length bs + 4) (tftp_set_data_message bs (tftp_set_block (of_nat k) (tftp_set_opcode TFTP_DATA (replicate 516 0)))) = data_hdr k @ bs"
proof -
  have r: "replicate 516 0 = replicate 4 (0 :: u8) @ replicate 512 0" by (simp flip: replicate_add)
  have "take 4 (tftp_set_block (of_nat k) (tftp_set_opcode TFTP_DATA (replicate 516 0))) = data_hdr k"
    unfolding r by (simp add: data_hdr_def tftp_set_block_def tftp_set_opcode_def list_update_append)
  then show ?thesis by (simp add: tftp_set_data_message_def)
qed

text \<open>What a callback has to promise: it reads a fixed content.\<close>

locale tftp_source =
  fixes io :: "'d tftp_io" and good :: "'d \<Rightarrow> bool" and f :: bytes
  assumes read_next: "good d \<Longrightarrow> a \<le> length f \<Longrightarrow>
      \<exists>d'. io_read io (of_nat a) 512 d = (0, Some (take 512 (drop a f)), d') \<and> good d'"
    and source_small: "length f < 512 * 65535"
begin

text \<open>Block \<open>m\<close> has been sent and not yet acknowledged.\<close>

definition sending :: "peer \<Rightarrow> nat \<Rightarrow> tftp_sess \<times> 'd \<Rightarrow> bool" where
  "sending src m x \<longleftrightarrow> (case x of (s, d) \<Rightarrow> args_live s \<and> pcb_live s \<and> handler s = Rrq_recv \<and> \<not> uaf s \<and> good d
     \<and> conn_block (s_args s) = int m \<and> data_len (s_args s) = of_nat (length (file_block f m))
     \<and> tot_bytes (s_args s) = of_nat (512 * (m - 1) + length (file_block f m)) \<and> 1 \<le> m \<and> 512 * (m - 1) \<le> length f
     \<and> sent s = map (\<lambda>k. (src, data_bytes f k)) [1..<Suc m])"

lemma small_block: "unat (of_nat (length (file_block f k)) :: u32) = length (file_block f k)"
  by (rule unat_of_nat_u32) (simp add: length_file_block)

lemma send_next:
  assumes "good d" "args_live s" "pcb_live s" "tot_bytes (s_args s) = of_nat (512 * m)" "512 * m \<le> length f"
    "conn_block (s_args s) = int (Suc m)"
  shows "\<exists>d' c. tftp_rd_send_next_block io (\<lambda>_. True) src s d = (s\<lparr>s_args := (s_args s)\<lparr>conn_data := c,
      data_len := of_nat (length (file_block f (Suc m))), tot_bytes := of_nat (512 * m + length (file_block f (Suc m)))\<rparr>,
      sends := sends s + 1, sent := sent s @ [(src, data_bytes f (Suc m))]\<rparr>, d') \<and> good d'"
proof -
  obtain d' where d': "io_read io (of_nat (512 * m)) 512 d = (0, Some (file_block f (Suc m)), d')" "good d'"
    using read_next [OF assms(1,5)] by (auto simp: file_block_def)
  have l: "length (file_block f (Suc m)) \<le> 512" by (simp add: length_file_block)
  show ?thesis using assms d' data_packet [OF l, of "Suc m"] small_block [of "Suc m"]
    by (auto simp: tftp_rd_send_next_block_def Let_def upd_args_def send_live data_bytes_def)
qed

lemma sending_first:
  assumes "good d" "args_live s" "pcb_live s" "tot_bytes (s_args s) = 0" "conn_block (s_args s) = 1" "\<not> uaf s"
    "handler s = Rrq_recv" "sent s = []"
  shows "sending src 1 (tftp_rd_send_next_block io (\<lambda>_. True) src s d)"
  using send_next [of d s 0 src] assms by (auto simp: sending_def)

lemma sending_next:
  assumes "sending src m (s, d)" "512 * m \<le> length f"
  shows "sending src (Suc m) (snd (rrq_recv_callback io (\<lambda>_. True) src (ack_pbuf m) s d))"
proof -
  have len: "length (file_block f m) = 512" "512 * (m - 1) + 512 = 512 * m" "1 \<le> m"
    using assms by (cases m; simp add: length_file_block sending_def)+
  have m16: "m < 65536" using assms(2) source_small by simp
  let ?s = "s\<lparr>s_args := (s_args s)\<lparr>conn_block := int (Suc m)\<rparr>\<rparr>"
  have "good d" "args_live ?s" "pcb_live ?s" "tot_bytes (s_args ?s) = of_nat (512 * m)" "conn_block (s_args ?s) = int (Suc m)"
    using assms(1) len by (simp_all add: sending_def flip: len(2))
  from send_next [OF this(1-4) assms(2) this(5), of src] obtain d' c where
    n: "tftp_rd_send_next_block io (\<lambda>_. True) src ?s d = (?s\<lparr>s_args := (s_args ?s)\<lparr>conn_data := c,
      data_len := of_nat (length (file_block f (Suc m))), tot_bytes := of_nat (512 * m + length (file_block f (Suc m)))\<rparr>,
      sends := sends ?s + 1, sent := sent ?s @ [(src, data_bytes f (Suc m))]\<rparr>, d')" "good d'" by blast
  have "snd (rrq_recv_callback io (\<lambda>_. True) src (ack_pbuf m) s d) = tftp_rd_send_next_block io (\<lambda>_. True) src ?s d"
    using assms(1) len ack_correct [OF m16] by (simp add: rrq_recv_callback_def sending_def Let_def upd_args_def n(1) add.commute)
  then show ?thesis using n assms len by (simp add: sending_def)
qed

lemma sending_acks:
  "sending src 1 x \<Longrightarrow> 512 * n \<le> length f \<Longrightarrow> sending src (Suc n) (send_acks io src [1..<Suc n] x)"
proof (induction n)
  case 0
  then show ?case by (simp add: send_acks_def)
next
  case (Suc n)
  let ?x = "send_acks io src [1..<Suc n] x"
  obtain s d where x: "?x = (s, d)" by fastforce
  have "sending src (Suc n) (s, d)" using Suc x by simp
  from sending_next [OF this Suc.prems(2)] show ?case using x by (simp add: send_acks_def)
qed

text \<open>Reading at the end of the file, on a transfer that has been cleaned up.\<close>

lemma send_after_free:
  assumes "io_read io (tot_bytes (s_args s)) 512 d = (0, Some [], d')" "\<not> args_live s" "\<not> pcb_live s" "conn_block (s_args s) = int k"
  shows "tftp_rd_send_next_block io (\<lambda>_. True) src s d = (s\<lparr>uaf := True, s_args := (s_args s)\<lparr>data_len := 0\<rparr>,
      sends := sends s + 1, sent := sent s @ [(src, data_hdr k)]\<rparr>, d')"
  using assms data_packet [of "[]" k]
  by (simp add: tftp_rd_send_next_block_def Let_def upd_args_def use_args_def tftp_send_message_def use_pcb_def)

text \<open>The acknowledgement of the last block.\<close>

lemma sending_last:
  assumes "sending src m (s, d)" "m = length f div 512 + 1"
  defines "r \<equiv> rrq_recv_callback io (\<lambda>_. True) src (ack_pbuf m) s d"
  shows "fst r = 2 \<and> \<not> args_live (fst (snd r)) \<and> \<not> pcb_live (fst (snd r)) \<and> uaf (fst (snd r))
    \<and> sent (fst (snd r)) = sent s @ [(src, data_hdr (Suc m))]"
proof -
  have m16: "m < 65536" using assms(2) source_small by simp
  have len: "length (file_block f m) < 512" "512 * (m - 1) + length (file_block f m) = length f"
    using assms(2) by (simp_all add: length_file_block)
  have short: "data_len (s_args s) < 512" using assms(1) len(1) small_block [of m] by (simp add: sending_def word_less_nat_alt)
  have "tot_bytes (s_args s) = of_nat (length f)" using assms(1) unfolding sending_def len(2) by simp
  then obtain d' where rd: "io_read io (tot_bytes (s_args s)) 512 d = (0, Some [], d')"
    using read_next [of d "length f"] assms(1) by (auto simp: sending_def)
  let ?s = "s\<lparr>s_args := (s_args s)\<lparr>conn_block := int (Suc m)\<rparr>, args_live := False, pcb_live := False\<rparr>"
  have "r = (2, tftp_rd_send_next_block io (\<lambda>_. True) src ?s d)"
    using assms(1) short ack_correct [OF m16] unfolding r_def
    by (simp add: rrq_recv_callback_def sending_def Let_def upd_args_def tftp_cleanup_rd_def add.commute split: prod.split)
  moreover have "tftp_rd_send_next_block io (\<lambda>_. True) src ?s d = (?s\<lparr>uaf := True, s_args := (s_args ?s)\<lparr>data_len := 0\<rparr>,
      sends := sends ?s + 1, sent := sent ?s @ [(src, data_hdr (Suc m))]\<rparr>, d')"
    by (rule send_after_free) (simp_all add: rd)
  ultimately show ?thesis by simp
qed

end

end
