(* ===== verification/Sdo_Flasher.thy ===== *)
theory Sdo_Flasher
  imports Crc
begin

text \<open>
  Talking to the nodes of the CAN bus: the blocking SDO transfers (common/canopendriver/sdo.c), the LSS
  master's calls (common/canopendriver/lss_helper.c) and the update of a node's firmware over SDO
  (common/canopendriver/co_sdo_flasher.c).  CANopenNode's client and master and the nodes behind them
  are one parameter of type \<open>'n\<close> with its operations.
\<close>

section \<open>Polling loops\<close>

text \<open>\<open>do { r = step; if(r < 0) return; delay; } while(again r)\<close>; not ending is \<open>None\<close>.\<close>

partial_function (option) poll_while :: "(int \<Rightarrow> bool) \<Rightarrow> ('n \<Rightarrow> int \<times> 'x \<times> 'n) \<Rightarrow> ('n \<Rightarrow> 'n) \<Rightarrow> 'n \<Rightarrow> (int \<times> 'x \<times> 'n) option" where
  "poll_while again step delay n =
    (case step n of (r, x, n1) \<Rightarrow> if again r then poll_while again step delay (delay n1) else Some (r, x, n1))"

section \<open>SDO transfers\<close>

text \<open>CANopenNode's SDO client; a step is one millisecond and gives a return code and an abort code.\<close>

record 'n sdo_client =
  cl_setup :: "u8 \<Rightarrow> 'n \<Rightarrow> int \<times> 'n"
  cl_upload_init :: "u16 \<Rightarrow> u8 \<Rightarrow> u32 \<Rightarrow> 'n \<Rightarrow> int \<times> 'n"
  cl_upload :: "'n \<Rightarrow> int \<times> u32 \<times> 'n"
  cl_buf_read :: "nat \<Rightarrow> 'n \<Rightarrow> bytes \<times> 'n"
  cl_download_init :: "u16 \<Rightarrow> u8 \<Rightarrow> nat \<Rightarrow> u32 \<Rightarrow> 'n \<Rightarrow> int \<times> 'n"
  cl_buf_write :: "bytes \<Rightarrow> 'n \<Rightarrow> nat \<times> 'n"
  cl_download :: "bool \<Rightarrow> 'n \<Rightarrow> int \<times> u32 \<times> 'n"
  cl_delay :: "nat \<Rightarrow> 'n \<Rightarrow> 'n"

abbreviation CO_SDO_AB_NONE :: u32 where "CO_SDO_AB_NONE \<equiv> 0"
abbreviation CO_SDO_AB_GENERAL :: u32 where "CO_SDO_AB_GENERAL \<equiv> 0x08000000"

text \<open>The bytes are \<open>None\<close> when the buffer and \<open>*readSize\<close> are left alone.\<close>

definition read_SDO :: "'n sdo_client \<Rightarrow> u8 \<Rightarrow> u16 \<Rightarrow> u8 \<Rightarrow> nat \<Rightarrow> u32 \<Rightarrow> 'n \<Rightarrow> (u32 \<times> bytes option \<times> 'n) option" where
  "read_SDO c nodeId index subIndex bufSize timeout_ms n0 =
    (case cl_setup c nodeId n0 of (r, n1) \<Rightarrow>
      if r \<noteq> 0 then Some (CO_SDO_AB_GENERAL, None, n1)
      else case cl_upload_init c index subIndex timeout_ms n1 of (r, n2) \<Rightarrow>
        if r \<noteq> 0 then Some (CO_SDO_AB_GENERAL, None, n2)
        else Option.bind (poll_while (\<lambda>r. r > 0) (cl_upload c) (cl_delay c 1) n2) (\<lambda>(r, abort, n3).
          if r < 0 then Some (abort, None, n3)
          else case cl_buf_read c bufSize (cl_delay c 1 n3) of (bs, n4) \<Rightarrow> Some (CO_SDO_AB_NONE, Some bs, n4)))"

definition write_SDO :: "'n sdo_client \<Rightarrow> u8 \<Rightarrow> u16 \<Rightarrow> u8 \<Rightarrow> bytes \<Rightarrow> u32 \<Rightarrow> 'n \<Rightarrow> (u32 \<times> 'n) option" where
  "write_SDO c nodeId index subIndex data timeout_ms n0 =
    (case cl_setup c nodeId n0 of (r, n1) \<Rightarrow>
      if r \<noteq> 0 then Some (CO_SDO_AB_GENERAL, n1)
      else case cl_download_init c index subIndex (length data) timeout_ms n1 of (r, n2) \<Rightarrow>
        if r \<noteq> 0 then Some (CO_SDO_AB_GENERAL, n2)
        else case cl_buf_write c data n2 of (nWritten, n3) \<Rightarrow>
          Option.bind (poll_while (\<lambda>r. r > 0) (cl_download c (nWritten < length data)) (cl_delay c 1) n3) (\<lambda>(r, abort, n4).
            if r < 0 then Some (abort, n4) else Some (CO_SDO_AB_NONE, cl_delay c 1 n4)))"

section \<open>LSS master\<close>

text \<open>
  Every call of the helper repeats one function of CANopenNode's LSS master, first with interval 0 and
  then with 1000 us, while it says \<open>CO_LSSmaster_WAIT_SLAVE\<close>.  \<open>'x\<close> is what the function stores.
\<close>

abbreviation CO_LSSmaster_WAIT_SLAVE :: int where "CO_LSSmaster_WAIT_SLAVE \<equiv> 1"
abbreviation CO_LSSmaster_DEFAULT_TIMEOUT :: u16 where "CO_LSSmaster_DEFAULT_TIMEOUT \<equiv> 1000"

definition LSS_POLLING_FUNC :: "(u32 \<Rightarrow> 'n \<Rightarrow> int \<times> 'x \<times> 'n) \<Rightarrow> ('n \<Rightarrow> 'n) \<Rightarrow> 'n \<Rightarrow> (int \<times> 'x \<times> 'n) option" where
  "LSS_POLLING_FUNC f delay n0 =
    (case f 0 n0 of (r, x, n1) \<Rightarrow>
      if r \<noteq> CO_LSSmaster_WAIT_SLAVE then Some (r, x, delay n1)
      else Option.bind (poll_while (\<lambda>r. r = CO_LSSmaster_WAIT_SLAVE) (f 1000) delay (delay n1))
        (\<lambda>(r, x, n2). Some (r, x, delay n2)))"

datatype lss_req =
    Inquire u32
  | InquireLssAddress
  | ConfigureNodeId u8
  | ConfigureBitTiming u16
  | ConfigureStore
  | SwitchStateSelect "u32 list"
  | IdentifyFastscan "u32 option list"

record 'n lss_master =
  lm_poll :: "lss_req \<Rightarrow> u32 \<Rightarrow> 'n \<Rightarrow> int \<times> u32 list \<times> 'n"
  lm_activate :: "u16 \<Rightarrow> 'n \<Rightarrow> int \<times> 'n"
  lm_deselect :: "'n \<Rightarrow> 'n"
  lm_timeout :: "u16 \<Rightarrow> 'n \<Rightarrow> 'n"
  lm_delay :: "'n \<Rightarrow> 'n"

definition lss_helper_inquire :: "'n lss_master \<Rightarrow> u32 \<Rightarrow> 'n \<Rightarrow> (int \<times> u32 list \<times> 'n) option" where
  "lss_helper_inquire m field n = LSS_POLLING_FUNC (lm_poll m (Inquire field)) (lm_delay m) n"

definition lss_helper_inquire_lss_addr :: "'n lss_master \<Rightarrow> 'n \<Rightarrow> (int \<times> u32 list \<times> 'n) option" where
  "lss_helper_inquire_lss_addr m n = LSS_POLLING_FUNC (lm_poll m InquireLssAddress) (lm_delay m) n"

definition lss_helper_cfg_node_id :: "'n lss_master \<Rightarrow> u8 \<Rightarrow> 'n \<Rightarrow> (int \<times> u32 list \<times> 'n) option" where
  "lss_helper_cfg_node_id m node_id n = LSS_POLLING_FUNC (lm_poll m (ConfigureNodeId node_id)) (lm_delay m) n"

definition lss_helper_cfg_bit_timing :: "'n lss_master \<Rightarrow> u16 \<Rightarrow> 'n \<Rightarrow> (int \<times> u32 list \<times> 'n) option" where
  "lss_helper_cfg_bit_timing m kbit_s n = LSS_POLLING_FUNC (lm_poll m (ConfigureBitTiming kbit_s)) (lm_delay m) n"

definition lss_helper_activate_bit_timing :: "'n lss_master \<Rightarrow> u16 \<Rightarrow> 'n \<Rightarrow> int \<times> 'n" where
  "lss_helper_activate_bit_timing m switch_delay_ms n = lm_activate m switch_delay_ms n"

definition lss_helper_cfg_store :: "'n lss_master \<Rightarrow> 'n \<Rightarrow> (int \<times> u32 list \<times> 'n) option" where
  "lss_helper_cfg_store m n = LSS_POLLING_FUNC (lm_poll m ConfigureStore) (lm_delay m) n"

definition lss_helper_select :: "'n lss_master \<Rightarrow> u32 list \<Rightarrow> 'n \<Rightarrow> (int \<times> u32 list \<times> 'n) option" where
  "lss_helper_select m addr n = LSS_POLLING_FUNC (lm_poll m (SwitchStateSelect addr)) (lm_delay m) n"

definition lss_helper_deselect :: "'n lss_master \<Rightarrow> 'n \<Rightarrow> 'n" where
  "lss_helper_deselect m n = lm_deselect m n"

text \<open>\<open>Some v\<close> asks for a match (\<open>CO_LSSmaster_FS_MATCH\<close>), \<open>None\<close> for a scan.\<close>

definition lss_helper_fastscan_select ::
  "'n lss_master \<Rightarrow> u16 \<Rightarrow> u32 option \<Rightarrow> u32 option \<Rightarrow> u32 option \<Rightarrow> u32 option \<Rightarrow> 'n \<Rightarrow> (int \<times> 'n) option" where
  "lss_helper_fastscan_select m timeout vendor_id product revision serial n =
    Option.bind (LSS_POLLING_FUNC (lm_poll m (IdentifyFastscan [vendor_id, product, revision, serial])) (lm_delay m) (lm_timeout m timeout n))
      (\<lambda>(r, _, n1). Some (r, lm_timeout m CO_LSSmaster_DEFAULT_TIMEOUT n1))"

section \<open>The node flasher\<close>

text \<open>
  The flasher calls \<open>read_SDO\<close> and \<open>write_SDO\<close>; \<open>nd_read\<close>, \<open>nd_write\<close> are what they do to the bus when
  they return, \<open>nd_delay\<close> is \<open>delay_ms\<close>.
\<close>

record 'n node_if =
  nd_read :: "u8 \<Rightarrow> u16 \<Rightarrow> u8 \<Rightarrow> nat \<Rightarrow> u32 \<Rightarrow> 'n \<Rightarrow> u32 \<times> bytes option \<times> 'n"
  nd_write :: "u8 \<Rightarrow> u16 \<Rightarrow> u8 \<Rightarrow> bytes \<Rightarrow> u32 \<Rightarrow> 'n \<Rightarrow> u32 \<times> 'n"
  nd_delay :: "nat \<Rightarrow> 'n \<Rightarrow> 'n"

abbreviation BLOCK_SZ :: nat where "BLOCK_SZ \<equiv> 534"
abbreviation W_STOP :: u32 where "W_STOP \<equiv> 0"
abbreviation W_CLEAR :: u32 where "W_CLEAR \<equiv> 3"
abbreviation W_START_BOOTLOADER :: u32 where "W_START_BOOTLOADER \<equiv> 0x80"
abbreviation CHECK_SIGNATURE :: u32 where "CHECK_SIGNATURE \<equiv> 0x10"

datatype fl_err =
    STS_FL | WR_CMD | RD_IDENT | RD_IDENT2 | ID_SAME_SECOND_TIME | SIZE_BIGGER_THAN_BUFFER | WR_PAYLOAD

definition fl_err_code :: "fl_err \<Rightarrow> nat" where
  "fl_err_code e = (case e of STS_FL \<Rightarrow> 10 | WR_CMD \<Rightarrow> 11 | RD_IDENT \<Rightarrow> 12 | RD_IDENT2 \<Rightarrow> 13
     | ID_SAME_SECOND_TIME \<Rightarrow> 14 | SIZE_BIGGER_THAN_BUFFER \<Rightarrow> 15 | WR_PAYLOAD \<Rightarrow> 16)"

text \<open>
  The status loop over the remaining tries; the last status read is kept when a read fails.  Short
  answers fill the low bytes of \<open>flash_sts\<close>.
\<close>

definition put_low :: "bytes \<Rightarrow> u32 \<Rightarrow> u32" where
  "put_low bs w = rd32 (bs @ drop (length bs) (le32 w))"

fun sts_loop :: "'n node_if \<Rightarrow> u8 \<Rightarrow> nat \<Rightarrow> u32 \<Rightarrow> 'n \<Rightarrow> nat \<times> 'n" where
  "sts_loop nd node 0 flash_sts n = (fl_err_code STS_FL, n)"
| "sts_loop nd node (Suc k) flash_sts n =
    (case nd_read nd node 0x1F57 1 4 100 n of (err, got, n1) \<Rightarrow>
      let sts = (case got of None \<Rightarrow> flash_sts | Some bs \<Rightarrow> put_low bs flash_sts)
      in if err = 0 \<and> sts = 0 then (0, n1)
         else if err = 0 \<and> sts \<noteq> 1 then (fl_err_code STS_FL, n1)
         else sts_loop nd node k sts (nd_delay nd 100 n1))"

definition read_sts_flash :: "'n node_if \<Rightarrow> u8 \<Rightarrow> 'n \<Rightarrow> nat \<times> 'n" where
  "read_sts_flash nd node n = sts_loop nd node 20 0 n"

text \<open>The packed block: number, address, size, data, CRC of all that.\<close>

definition block_bytes :: "u32 \<Rightarrow> u32 \<Rightarrow> bytes \<Rightarrow> bytes" where
  "block_bytes number addr data = le32 number @ le32 addr @ le32 (of_nat (length data)) @ data"

definition block_packet :: "(u32 \<Rightarrow> u32 \<Rightarrow> u32) \<Rightarrow> u32 \<Rightarrow> u32 \<Rightarrow> bytes \<Rightarrow> bytes" where
  "block_packet dr number addr data =
    block_bytes number addr data @ le32 (crc32 dr (block_bytes number addr data))"

text \<open>\<open>dev_read\<close>: a negative result is \<open>Inl\<close> of its magnitude, otherwise the bytes stored.\<close>

definition dev_read :: "(u32 \<Rightarrow> u32 \<Rightarrow> u32) \<Rightarrow> 'n node_if \<Rightarrow> u8 \<Rightarrow> u8 \<Rightarrow> u32 \<Rightarrow> 'n \<Rightarrow> (nat + bytes) \<times> 'n" where
  "dev_read dr nd node fw_sel addr n =
    (case nd_write nd node 0x1F50 1 (block_packet dr (ucast fw_sel) addr []) 3000 n of (sts, n1) \<Rightarrow>
      if sts \<noteq> 0 then (Inl 1, n1)
      else case nd_read nd node 0x1F50 1 1024 100 n1 of (sts, got, n2) \<Rightarrow>
        if sts \<noteq> 0 then (Inl 4, n2)
        else case got of None \<Rightarrow> (Inl 4, n2)
        | Some pkt \<Rightarrow>
            if length pkt < 5 then (Inl 2, n2)
            else if hd pkt \<noteq> fw_sel \<or> rd32 (take 4 (drop 1 pkt)) \<noteq> addr then (Inl 3, n2)
            else (Inr (drop 5 pkt), n2))"

definition cb_nd_wr_preldr :: "u32 \<Rightarrow> bytes \<Rightarrow> 'n \<Rightarrow> nat \<times> 'n" where
  "cb_nd_wr_preldr addr data n = (1, n)"

text \<open>A command: write it, then wait for the node to have run it.\<close>

definition nd_command :: "'n node_if \<Rightarrow> u8 \<Rightarrow> u32 \<Rightarrow> 'n \<Rightarrow> nat \<times> 'n" where
  "nd_command nd node cmd n =
    (case nd_write nd node 0x1F51 1 (le32 cmd) 3000 n of (sts, n1) \<Rightarrow>
      if sts \<noteq> 0 then (fl_err_code WR_CMD, n1) else read_sts_flash nd node n1)"

text \<open>
  The callbacks also stop PDO production; \<open>x\<close> is the bus with the PDO switch.  \<open>cb_nd_rd\<close> gives the
  status, what it stored and the size it reported.
\<close>

definition cb_nd_rd :: "(u32 \<Rightarrow> u32 \<Rightarrow> u32) \<Rightarrow> 'n node_if \<Rightarrow> u8 \<Rightarrow> u8 \<Rightarrow> u32 \<Rightarrow> nat \<Rightarrow> 'n \<Rightarrow> nat \<times> (bytes \<times> nat) option \<times> 'n" where
  "cb_nd_rd dr nd node fw_type addr size_buffer n =
    (if size_buffer > BLOCK_SZ then (fl_err_code SIZE_BIGGER_THAN_BUFFER, None, n)
     else case (if addr = 0 then nd_command nd node W_STOP n else (0, n)) of (sts, n1) \<Rightarrow>
       if sts \<noteq> 0 then (sts, None, n1)
       else case dev_read dr nd node fw_type addr n1 of
           (Inl e, n2) \<Rightarrow> (e, None, n2)
         | (Inr bs, n2) \<Rightarrow> (0, Some (bs, if length bs > size_buffer then size_buffer else length bs), n2))"

text \<open>The device name at 0x1008, as a C string (the buffer of 64 bytes was zeroed).\<close>

definition read_ident :: "'n node_if \<Rightarrow> u8 \<Rightarrow> 'n \<Rightarrow> u32 \<times> bytes \<times> 'n" where
  "read_ident nd node n =
    (case nd_read nd node 0x1008 0 64 800 n of (sts, got, n1) \<Rightarrow>
      (sts, (case got of None \<Rightarrow> [] | Some bs \<Rightarrow> c_str (bs @ [0])), n1))"

text \<open>Before the first block: leave the firmware to be replaced, then stop and erase.\<close>

definition nd_restart :: "'n node_if \<Rightarrow> u8 \<Rightarrow> bytes \<Rightarrow> 'n \<Rightarrow> nat \<times> 'n" where
  "nd_restart nd node name n =
    (case read_ident nd node n of (sts, str, n1) \<Rightarrow>
      if sts \<noteq> 0 then (fl_err_code RD_IDENT, n1)
      else if str = name
      then case nd_write nd node 0x1F51 1 (le32 W_START_BOOTLOADER) 100 n1 of (_, n2) \<Rightarrow>
        (case read_ident nd node (nd_delay nd 150 n2) of (sts, str, n3) \<Rightarrow>
          if sts \<noteq> 0 then (fl_err_code RD_IDENT2, n3)
          else if str = name then (fl_err_code ID_SAME_SECOND_TIME, n3)
          else (0, n3))
      else (0, n1))"

definition nd_prepare :: "'n node_if \<Rightarrow> u8 \<Rightarrow> bytes \<Rightarrow> 'n \<Rightarrow> nat \<times> 'n" where
  "nd_prepare nd node name =
    and_then 0 (nd_restart nd node name) (and_then 0 (nd_command nd node W_STOP) (nd_command nd node W_CLEAR))"

definition nd_send_block :: "(u32 \<Rightarrow> u32 \<Rightarrow> u32) \<Rightarrow> 'n node_if \<Rightarrow> u8 \<Rightarrow> u32 \<Rightarrow> bytes \<Rightarrow> 'n \<Rightarrow> nat \<times> 'n" where
  "nd_send_block dr nd node addr data n =
    (if length data > BLOCK_SZ then (fl_err_code SIZE_BIGGER_THAN_BUFFER, n)
     else case nd_write nd node 0x1F50 1 (block_packet dr addr addr data) 3000 n of (sts, n1) \<Rightarrow>
       if sts \<noteq> 0 then (fl_err_code WR_PAYLOAD, n1) else read_sts_flash nd node n1)"

definition cb_nd_wr :: "(u32 \<Rightarrow> u32 \<Rightarrow> u32) \<Rightarrow> 'n node_if \<Rightarrow> u8 \<Rightarrow> bytes \<Rightarrow> u32 \<Rightarrow> bytes \<Rightarrow> 'n \<Rightarrow> nat \<times> 'n" where
  "cb_nd_wr dr nd node name addr data n =
    (if addr \<noteq> 0 \<and> data = [] then nd_command nd node CHECK_SIGNATURE n
     else and_then 0 (\<lambda>n. if addr = 0 then nd_prepare nd node name n else (0, n)) (nd_send_block dr nd node addr data) n)"


section \<open>When a transfer ends\<close>

text \<open>The state before the \<open>k\<close>th look.\<close>

definition look :: "('n \<Rightarrow> int \<times> 'x \<times> 'n) \<Rightarrow> ('n \<Rightarrow> 'n) \<Rightarrow> nat \<Rightarrow> 'n \<Rightarrow> 'n" where
  "look step delay k = (\<lambda>n. delay (snd (snd (step n)))) ^^ k"

lemma look_Suc: "look step delay (Suc k) n = look step delay k (delay (snd (snd (step n))))"
  unfolding look_def by (simp only: funpow_Suc_right o_apply)

lemma poll_while_ends:
  "\<not> again (fst (step (look step delay k n))) \<Longrightarrow> poll_while again step delay n \<noteq> None"
proof (induction k arbitrary: n)
  case 0
  obtain r x n1 where "step n = (r, x, n1)" by (metis surj_pair)
  with 0 show ?case by (subst poll_while.simps) (simp add: look_def)
next
  case (Suc k)
  obtain r x n1 where st: "step n = (r, x, n1)" by (metis surj_pair)
  have "poll_while again step delay (delay n1) \<noteq> None" using Suc.IH [of "delay n1"] Suc.prems st by (simp add: look_Suc)
  then show ?case using st by (subst poll_while.simps) simp
qed

lemma poll_while_result:
  assumes "poll_while again step delay n = Some y"
  shows "\<exists>k. step (look step delay k n) = y \<and> \<not> again (fst y) \<and> (\<forall>j < k. again (fst (step (look step delay j n))))"
proof (rule poll_while.raw_induct [OF _ assms, of "\<lambda>again step delay n y.
    \<exists>k. step (look step delay k n) = y \<and> \<not> again (fst y) \<and> (\<forall>j < k. again (fst (step (look step delay j n))))"])
  fix pw :: "(int \<Rightarrow> bool) \<Rightarrow> ('n \<Rightarrow> int \<times> 'x \<times> 'n) \<Rightarrow> ('n \<Rightarrow> 'n) \<Rightarrow> 'n \<Rightarrow> (int \<times> 'x \<times> 'n) option"
    and again step delay n y
  assume ih: "\<And>again step delay n y. pw again step delay n = Some y \<Longrightarrow>
      \<exists>k. step (look step delay k n) = y \<and> \<not> again (fst y) \<and> (\<forall>j < k. again (fst (step (look step delay j n))))"
    and eq: "(case step n of (r, x, n1) \<Rightarrow> if again r then pw again step delay (delay n1) else Some (r, x, n1)) = Some y"
  obtain r x n1 where st: "step n = (r, x, n1)" by (metis surj_pair)
  show "\<exists>k. step (look step delay k n) = y \<and> \<not> again (fst y) \<and> (\<forall>j < k. again (fst (step (look step delay j n))))"
  proof (cases "again r")
    case True
    with eq st have "pw again step delay (delay n1) = Some y" by simp
    from ih [OF this] obtain k where k: "step (look step delay k (delay n1)) = y" "\<not> again (fst y)"
      "\<forall>j < k. again (fst (step (look step delay j (delay n1))))" by blast
    have "again (fst (step (look step delay j n)))" if "j < Suc k" for j
      using that k(3) st True by (cases j) (auto simp: look_Suc, simp add: look_def)
    then show ?thesis using k st by (intro exI [of _ "Suc k"]) (simp add: look_Suc)
  next
    case False
    then show ?thesis using eq st by (intro exI [of _ 0]) (auto simp: look_def)
  qed
qed

lemma poll_while_None: "poll_while again step delay n \<noteq> None \<longleftrightarrow> (\<exists>k. \<not> again (fst (step (look step delay k n))))"
  using poll_while_ends poll_while_result by (metis option.exhaust)

text \<open>A blocking SDO read returns exactly when the client stops saying that it is still at work, and then with
  the abort code of that step or with success.\<close>

lemma read_SDO_returns:
  assumes "cl_setup c nodeId n0 = (0, n1)" "cl_upload_init c index subIndex timeout_ms n1 = (0, n2)"
  shows "read_SDO c nodeId index subIndex bufSize timeout_ms n0 \<noteq> None \<longleftrightarrow>
    (\<exists>k. fst (cl_upload c (look (cl_upload c) (cl_delay c 1) k n2)) \<le> 0)"
proof -
  have "read_SDO c nodeId index subIndex bufSize timeout_ms n0 \<noteq> None \<longleftrightarrow> poll_while (\<lambda>r. r > 0) (cl_upload c) (cl_delay c 1) n2 \<noteq> None"
    using assms by (auto simp: read_SDO_def split: bind_splits prod.splits if_splits)
  then show ?thesis using poll_while_None [of "\<lambda>r. r > 0" "cl_upload c" "cl_delay c 1" n2] by (simp add: not_less)
qed

text \<open>A client that answers after three steps.\<close>

definition ex_client :: "nat sdo_client" where
  "ex_client = \<lparr>cl_setup = \<lambda>_ n. (0, n), cl_upload_init = \<lambda>_ _ _ n. (0, 3), cl_upload = \<lambda>n. (int n, 0, n),
     cl_buf_read = \<lambda>_ n. ([7], n), cl_download_init = \<lambda>_ _ _ _ n. (0, 3), cl_buf_write = \<lambda>bs n. (length bs, n),
     cl_download = \<lambda>_ n. (int n, 0, n), cl_delay = \<lambda>_ n. n - 1\<rparr>"

lemma read_SDO_returns_witness: "read_SDO ex_client 5 0x1008 0 64 800 0 \<noteq> None"
proof -
  have "fst (cl_upload ex_client (look (cl_upload ex_client) (cl_delay ex_client 1) 3 3)) \<le> 0"
    by (simp add: ex_client_def look_def numeral_3_eq_3)
  then show ?thesis using read_SDO_returns [of ex_client 5 0 0 "0x1008" 0 800 3 64] by (auto simp: ex_client_def)
qed

section \<open>What the flasher writes\<close>

text \<open>The same bus with a log of the writes.\<close>

definition logged :: "'n node_if \<Rightarrow> ('n \<times> (u16 \<times> bytes) list) node_if" where
  "logged nd = \<lparr>nd_read = \<lambda>node ix sub sz tmo (n, l). (case nd_read nd node ix sub sz tmo n of (e, got, n1) \<Rightarrow> (e, got, (n1, l))),
     nd_write = \<lambda>node ix sub data tmo (n, l). (case nd_write nd node ix sub data tmo n of (e, n1) \<Rightarrow> (e, (n1, l @ [(ix, data)]))),
     nd_delay = \<lambda>ms (n, l). (nd_delay nd ms n, l)\<rparr>"

abbreviation (input) log_of :: "'r \<times> 'n \<times> 'l \<Rightarrow> 'l" where "log_of x \<equiv> snd (snd x)"

lemma sts_loop_log: "log_of (sts_loop (logged nd) node k sts x) = snd x"
proof (induction k arbitrary: sts x)
  case (Suc k)
  obtain n l where x: "x = (n, l)" by fastforce
  show ?case using Suc by (simp add: x logged_def Let_def split: prod.split)
qed (simp add: split: prod.split)

lemma nd_command_log: "log_of (nd_command (logged nd) node cmd x) = snd x @ [(0x1F51, le32 cmd)]"
proof -
  obtain n l where x: "x = (n, l)" by fastforce
  have "snd (nd_write (logged nd) node 0x1F51 1 (le32 cmd) 3000 x) = (fst (snd (nd_write (logged nd) node 0x1F51 1 (le32 cmd) 3000 x)), l @ [(0x1F51, le32 cmd)])"
    by (simp add: x logged_def split: prod.split)
  then show ?thesis using sts_loop_log [of nd node 20 0] by (simp add: nd_command_def read_sts_flash_def x split: prod.split) force
qed

lemma nd_send_block_log:
  "log_of (nd_send_block dr (logged nd) node addr data x) = snd x @ (if length data > BLOCK_SZ then [] else [(0x1F50, block_packet dr addr addr data)])"
proof -
  obtain n l where x: "x = (n, l)" by fastforce
  let ?d = "block_packet dr addr addr data"
  obtain e n1 l1 where w: "nd_write (logged nd) node 0x1F50 1 ?d 3000 x = (e, n1, l1)" by (metis surj_pair)
  then have "l1 = l @ [(0x1F50, ?d)]" by (simp add: x logged_def split: prod.splits)
  then show ?thesis using w sts_loop_log [of nd node 20 0] by (simp add: nd_send_block_def read_sts_flash_def x)
qed

lemma read_ident_log: "snd (snd (snd (read_ident (logged nd) node x))) = snd x"
  by (cases x) (simp add: read_ident_def logged_def split: prod.split)

lemma nd_restart_log:
  "\<exists>pre. log_of (nd_restart (logged nd) node name x) = snd x @ pre \<and> (pre = [] \<or> pre = [(0x1F51, le32 W_START_BOOTLOADER)])"
proof -
  obtain sts str n1 l1 where r: "read_ident (logged nd) node x = (sts, str, n1, l1)" by (metis surj_pair)
  have l1: "l1 = snd x" using read_ident_log [of nd node x] r by simp
  obtain e n2 l2 where w: "nd_write (logged nd) node 0x1F51 1 (le32 W_START_BOOTLOADER) 100 (n1, l1) = (e, n2, l2)" by (metis surj_pair)
  have l2: "l2 = l1 @ [(0x1F51, le32 W_START_BOOTLOADER)]" using w by (simp add: logged_def split: prod.splits)
  obtain sts3 str3 n3 l3 where r3: "read_ident (logged nd) node (nd_delay (logged nd) 150 (n2, l2)) = (sts3, str3, n3, l3)" by (metis surj_pair)
  have "l3 = l2" using read_ident_log [of nd node "nd_delay (logged nd) 150 (n2, l2)"] r3 by (simp add: logged_def)
  then show ?thesis using r w r3 l1 l2 by (simp add: nd_restart_def)
qed


lemma and_then_log:
  assumes "log_of (f x) = snd x @ a" "\<And>y. log_of (g y) = snd y @ b"
  shows "\<exists>k. log_of (and_then 0 f g x) = snd x @ take k (a @ b) \<and> (fst (and_then 0 f g x) = 0 \<longrightarrow> log_of (and_then 0 f g x) = snd x @ a @ b)"
proof (cases "fst (f x) = 0")
  case True
  then have "and_then 0 f g x = g (snd (f x))" by (rule and_then_ok)
  moreover have "log_of (g (snd (f x))) = (snd x @ a) @ b" using assms by metis
  ultimately show ?thesis by (intro exI [of _ "length (a @ b)"]) simp
next
  case False
  then have "and_then 0 f g x = f x" by (rule and_then_err)
  with False assms(1) show ?thesis by (intro exI [of _ "length a"]) simp
qed

text \<open>A longer chain: the second step's log is itself a prefix.\<close>

lemma and_then_log_prefix:
  assumes "log_of (f x) = snd x @ a"
    "\<And>y. \<exists>k. log_of (g y) = snd y @ take k b \<and> (fst (g y) = 0 \<longrightarrow> log_of (g y) = snd y @ b)"
  shows "\<exists>k. log_of (and_then 0 f g x) = snd x @ take k (a @ b) \<and> (fst (and_then 0 f g x) = 0 \<longrightarrow> log_of (and_then 0 f g x) = snd x @ a @ b)"
proof (cases "fst (f x) = 0")
  case True
  obtain k where k: "log_of (g (snd (f x))) = snd (snd (f x)) @ take k b"
    "fst (g (snd (f x))) = 0 \<longrightarrow> log_of (g (snd (f x))) = snd (snd (f x)) @ b" using assms(2) by blast
  have "and_then 0 f g x = g (snd (f x))" using True by (rule and_then_ok)
  then show ?thesis using k assms(1) by (intro exI [of _ "length a + k"]) simp
next
  case False
  then have "and_then 0 f g x = f x" by (rule and_then_err)
  with False assms(1) show ?thesis by (intro exI [of _ "length a"]) simp
qed

text \<open>C12: what the flasher writes to a node for the first block is, whatever the node answers, a prefix of: at most one
  jump to the bootloader, stop, erase, the block; and all of it when it reports success.\<close>

lemma nd_first_block_order:
  "\<exists>pre k. (pre = [] \<or> pre = [(0x1F51, le32 W_START_BOOTLOADER)])
    \<and> log_of (cb_nd_wr dr (logged nd) node name 0 data (n, []))
      = take k (pre @ [(0x1F51, le32 W_STOP), (0x1F51, le32 W_CLEAR), (0x1F50, block_packet dr 0 0 data)])
    \<and> (fst (cb_nd_wr dr (logged nd) node name 0 data (n, [])) = 0 \<longrightarrow> length data \<le> BLOCK_SZ \<and>
        log_of (cb_nd_wr dr (logged nd) node name 0 data (n, []))
        = pre @ [(0x1F51, le32 W_STOP), (0x1F51, le32 W_CLEAR), (0x1F50, block_packet dr 0 0 data)])"
proof -
  let ?nd = "logged nd" and ?b = "[(0x1F50, block_packet dr 0 0 data)]"
  let ?send = "nd_send_block dr ?nd node 0 data"
  let ?run = "cb_nd_wr dr ?nd node name 0 data (n, [])"
  have eq: "?run = and_then 0 (nd_restart ?nd node name)
      (and_then 0 (nd_command ?nd node W_STOP) (and_then 0 (nd_command ?nd node W_CLEAR) ?send)) (n, [])"
    by (simp add: cb_nd_wr_def nd_prepare_def and_then_assoc [symmetric])
  have send: "\<exists>k. log_of (?send y) = snd y @ take k ?b \<and> (fst (?send y) = 0 \<longrightarrow> log_of (?send y) = snd y @ ?b)" for y
  proof (cases "length data > BLOCK_SZ")
    case True
    then have "log_of (?send y) = snd y @ take 0 ?b \<and> fst (?send y) \<noteq> 0"
      using nd_send_block_log [of dr nd node 0 data y] by (simp add: nd_send_block_def fl_err_code_def)
    then show ?thesis by metis
  next
    case False
    then have "log_of (?send y) = snd y @ ?b" using nd_send_block_log [of dr nd node 0 data y] by simp
    then show ?thesis by (intro exI [of _ 1]) simp
  qed
  note clear = and_then_log_prefix [where f = "nd_command ?nd node W_CLEAR" and g = ?send, OF nd_command_log send]
  note stop = and_then_log_prefix [where f = "nd_command ?nd node W_STOP" and g = "and_then 0 (nd_command ?nd node W_CLEAR) ?send",
      OF nd_command_log clear]
  obtain pre where pre: "log_of (nd_restart ?nd node name (n, [])) = snd (n, []) @ pre" "pre = [] \<or> pre = [(0x1F51, le32 W_START_BOOTLOADER)]"
    using nd_restart_log by metis
  from and_then_log_prefix [where f = "nd_restart ?nd node name" and x = "(n, [])" and a = pre, OF pre(1) stop] obtain k where
    "log_of ?run = take k (pre @ [(0x1F51, le32 W_STOP)] @ [(0x1F51, le32 W_CLEAR)] @ ?b)"
    "fst ?run = 0 \<longrightarrow> log_of ?run = pre @ [(0x1F51, le32 W_STOP)] @ [(0x1F51, le32 W_CLEAR)] @ ?b"
    unfolding eq by auto
  moreover have "fst ?run = 0 \<longrightarrow> length data \<le> BLOCK_SZ"
    unfolding eq and_then_fst_ok by (auto simp: nd_send_block_def fl_err_code_def)
  ultimately show ?thesis using pre(2) by (intro exI [of _ pre] exI [of _ k]) simp
qed

text \<open>A node that accepts everything and reports status 0.\<close>

definition ex_node :: "unit node_if" where
  "ex_node = \<lparr>nd_read = \<lambda>_ _ _ _ _ n. (0, Some [0, 0, 0, 0], n), nd_write = \<lambda>_ _ _ _ _ n. (0, n), nd_delay = \<lambda>_ n. n\<rparr>"

lemma nd_first_block_order_witness:
  "length (log_of (cb_nd_wr sw_crc32_word (logged ex_node) 5 (ascii ''sh_nd_app'') 0 [1, 2, 3, 4] ((), []))) = 3"
proof -
  have ok: "fst (cb_nd_wr sw_crc32_word (logged ex_node) 5 (ascii ''sh_nd_app'') 0 [1, 2, 3, 4] ((), [])) = 0"
    by code_simp
  have "log_of (cb_nd_wr sw_crc32_word (logged ex_node) 5 (ascii ''sh_nd_app'') 0 [1, 2, 3, 4] ((), [])) ! 0 = (0x1F51, le32 W_STOP)"
    by code_simp
  with nd_first_block_order [of sw_crc32_word ex_node 5 "ascii ''sh_nd_app''" "[1, 2, 3, 4]" "()"] ok
  show ?thesis by auto
qed

text \<open>The checksum of a block leaves out what is behind the last whole word.\<close>

lemma words_of_tail: "length bs mod 4 = 0 \<Longrightarrow> words_of (bs @ [x]) = words_of bs"
proof (induction bs rule: words_of.induct)
  case (1 a b c d r)
  then show ?case by simp
qed auto

lemma block_crc_misses_tail:
  assumes "length data mod 4 = 0"
  shows "crc32 dr (block_bytes k a data @ [x]) = crc32 dr (block_bytes k a data @ [y])"
proof -
  have "length (block_bytes k a data) mod 4 = 0" using assms by (simp add: block_bytes_def) presburger
  then show ?thesis by (simp add: crc32_def words_of_tail)
qed

end
