(* ===== verification/Fw_Transfer.thy ===== *)
theory Fw_Transfer
  imports Tftp Sdo_Flasher Boot Switching
begin

text \<open>
  What the TFTP server reads and writes: the callbacks of the loader (ldr/tftp_server_callback.c) and of
  the gateway (app/comm/tftp_server_callback.c), on the flash, the firmware table and, in the gateway,
  PDO production and the nodes of the CAN bus.
\<close>

section \<open>The device\<close>

datatype wr_cb = Wr_gw | Wr_nd_preldr | Wr_nd
datatype rd_cb = Rd_preldr | Rd_ldr | Rd_app | Rd_nd

text \<open>\<open>dev_fault\<close>: a null callback was called, or a callback overran its buffer.\<close>

record gw_dev =
  dev_flash :: flash_st
  dev_info :: g_fw_info
  cb_write :: "wr_cb option"
  cb_read :: "rd_cb option"
  dev_fault :: bool

record 'n app_dev = gw_dev +
  dev_load :: load_sw
  dev_pdo :: pdo_sw
  sdo_flasher_id :: u8
  nd_sel :: nat
  dev_bus :: 'n

text \<open>The CRC unit and where the running firmware keeps its two names.\<close>

record gw_env =
  env_dr :: "u32 \<Rightarrow> u32 \<Rightarrow> u32"
  env_ldr_name :: u32
  env_app_name :: u32

definition lock_code :: "FW_HDR_LOCK \<Rightarrow> nat" where
  "lock_code l = (case l of LOCK_NONE \<Rightarrow> 0 | LOCK_BY_CRC \<Rightarrow> 1 | LOCK_BY_ADDR \<Rightarrow> 2 | LOCK_BY_SIZE_SMALL \<Rightarrow> 3
     | LOCK_BY_ZERO_FIELDS_COUNT \<Rightarrow> 4 | LOCK_NO_PROD_FIELD \<Rightarrow> 5 | LOCK_NO_PROD_NAME_FIELD \<Rightarrow> 6
     | LOCK_PROD_MISMATCH \<Rightarrow> 7 | LOCK_PROD_NAME_FAULT \<Rightarrow> 8)"

abbreviation PRELDR_END :: u32 where "PRELDR_END \<equiv> 0x08004000"
abbreviation LDR_END :: u32 where "LDR_END \<equiv> 0x08010000"
abbreviation APP_END :: u32 where "APP_END \<equiv> 0x08080000"

definition dev_check :: "gw_env \<Rightarrow> ('a) gw_dev_scheme \<Rightarrow> 'a gw_dev_scheme" where
  "dev_check e d = d\<lparr>dev_info := fw_header_check_all (env_dr e) (flash_mem (dev_flash d)) (env_ldr_name e) (env_app_name e) (dev_info d)\<rparr>"

section \<open>The gateway's own firmware\<close>

text \<open>
  \<open>cb_wr_gw_app\<close> and \<open>cb_wr_gw_ldr\<close> share this body: the region from \<open>start\<close> to \<open>end\<close>; the final call,
  without data, checks the images and gives the lock of the loader.
\<close>

definition gw_write :: "flash_dev \<Rightarrow> gw_env \<Rightarrow> u32 \<Rightarrow> u32 \<Rightarrow> u32 \<Rightarrow> bytes \<Rightarrow> 'a gw_dev_scheme \<Rightarrow> nat \<times> 'a gw_dev_scheme" where
  "gw_write dev e start fin addr data d =
    (if addr \<noteq> 0 \<and> data = [] then let d1 = dev_check e d in (lock_code (locked (FW_LDR (dev_info d1))), d1)
     else if addr + of_nat (length data) > fin - start then (6, d)
     else case platform_flash_write dev (start + addr) data (dev_flash d) of (sts, st) \<Rightarrow> (sts, d\<lparr>dev_flash := st\<rparr>))"

definition cb_wr_gw_app :: "flash_dev \<Rightarrow> gw_env \<Rightarrow> u32 \<Rightarrow> bytes \<Rightarrow> 'a gw_dev_scheme \<Rightarrow> nat \<times> 'a gw_dev_scheme" where
  "cb_wr_gw_app dev e addr data d = gw_write dev e APP_START APP_END addr data d"

definition gw_end :: "fw_info \<Rightarrow> u32 \<Rightarrow> u32 \<Rightarrow> u32" where
  "gw_end info start fin = (if locked info = LOCK_NONE then (if fin - start > fw_len info then start + fw_len info else fin) else fin)"

definition gw_read :: "fw_info \<Rightarrow> u32 \<Rightarrow> u32 \<Rightarrow> u32 \<Rightarrow> nat \<Rightarrow> 'a gw_dev_scheme \<Rightarrow> nat \<times> bytes option \<times> 'a gw_dev_scheme" where
  "gw_read info start fin addr size_buffer d =
    (let e = gw_end info start fin;
         len0 = (if e > addr + start then e - addr - start else 0);
         len = (if unat len0 > size_buffer then size_buffer else unat len0)
     in (0, Some (mem_bytes (flash_mem (dev_flash d)) (start + addr) len), d))"

definition cb_gw_rd_preldr :: "u32 \<Rightarrow> nat \<Rightarrow> 'a gw_dev_scheme \<Rightarrow> nat \<times> bytes option \<times> 'a gw_dev_scheme" where
  "cb_gw_rd_preldr addr size_buffer d = gw_read (FW_PRELDR (dev_info d)) PRELDR_START PRELDR_END addr size_buffer d"

definition cb_gw_rd_ldr :: "u32 \<Rightarrow> nat \<Rightarrow> 'a gw_dev_scheme \<Rightarrow> nat \<times> bytes option \<times> 'a gw_dev_scheme" where
  "cb_gw_rd_ldr addr size_buffer d = gw_read (FW_LDR (dev_info d)) LDR_START LDR_END addr size_buffer d"

definition cb_gw_rd_app :: "u32 \<Rightarrow> nat \<Rightarrow> 'a gw_dev_scheme \<Rightarrow> nat \<times> bytes option \<times> 'a gw_dev_scheme" where
  "cb_gw_rd_app addr size_buffer d = gw_read (FW_APP (dev_info d)) APP_START APP_END addr size_buffer d"

definition gw_rd :: "(bytes \<times> rd_cb) list" where
  "gw_rd = [(ascii ''sh_gw_preldr'', Rd_preldr), (ascii ''sh_gw_ldr'', Rd_ldr), (ascii ''sh_gw_app'', Rd_app)]"

text \<open>The loader's \<open>tftp_server_check_file\<close>.\<close>

definition ldr_check_file :: "gw_env \<Rightarrow> bool \<Rightarrow> bytes \<Rightarrow> gw_dev \<Rightarrow> nat \<times> gw_dev" where
  "ldr_check_file e is_write file_name d0 =
    (let d = dev_check e d0
     in if file_name = ascii ''sh_gw_app'' \<and> is_write
        then (0, d\<lparr>dev_flash := platform_flash_erase_flag_reset (dev_flash d), cb_write := Some Wr_gw\<rparr>)
        else case (if is_write then None else map_of gw_rd file_name) of
            Some p \<Rightarrow> (0, d\<lparr>cb_read := Some p\<rparr>)
          | None \<Rightarrow> (1, d))"

definition fault :: "'a gw_dev_scheme \<Rightarrow> 'a gw_dev_scheme" where
  "fault d = d\<lparr>dev_fault := True\<rparr>"

definition gw_read_sel :: "rd_cb option \<Rightarrow> u32 \<Rightarrow> nat \<Rightarrow> 'a gw_dev_scheme \<Rightarrow> nat \<times> bytes option \<times> 'a gw_dev_scheme" where
  "gw_read_sel sel addr size_buffer d =
    (case sel of Some Rd_preldr \<Rightarrow> cb_gw_rd_preldr addr size_buffer d
     | Some Rd_ldr \<Rightarrow> cb_gw_rd_ldr addr size_buffer d
     | Some Rd_app \<Rightarrow> cb_gw_rd_app addr size_buffer d
     | _ \<Rightarrow> (0, None, fault d))"

text \<open>\<open>tftp_cb\<close> of the loader and its \<open>tftp_server_check_file\<close>, as the server sees them.\<close>

definition ldr_io :: "flash_dev \<Rightarrow> gw_env \<Rightarrow> gw_dev tftp_io" where
  "ldr_io dev e = \<lparr>
     io_write = (\<lambda>addr data d. if cb_write d = Some Wr_gw then cb_wr_gw_app dev e addr data d else (0, fault d)),
     io_read = (\<lambda>addr sz d. gw_read_sel (cb_read d) addr sz d),
     io_check = ldr_check_file e\<rparr>"

section \<open>The gateway, and the nodes behind it\<close>

definition pdo_off :: "'n app_dev \<Rightarrow> 'n app_dev" where
  "pdo_off d = d\<lparr>dev_pdo := pdo_switch_en_global (dev_load d) False (dev_pdo d)\<rparr>"

definition cb_wr_gw_ldr :: "flash_dev \<Rightarrow> gw_env \<Rightarrow> u32 \<Rightarrow> bytes \<Rightarrow> 'n app_dev \<Rightarrow> nat \<times> 'n app_dev" where
  "cb_wr_gw_ldr dev e addr data d = gw_write dev e LDR_START LDR_END addr data (pdo_off d)"

text \<open>\<open>sscanf(s, "%u", &id)\<close>: newlib's \<open>strtoul\<close>, which stops at the largest value.\<close>

definition scan_u :: "bytes \<Rightarrow> u32 option" where
  "scan_u s =
    (let s1 = dropWhile is_space s;
         s2 = (if s1 \<noteq> [] \<and> (hd s1 = 0x2D \<or> hd s1 = 0x2B) then tl s1 else s1);
         ds = takeWhile is_dec s2
     in if ds = [] then None
        else let v = dec_value ds
             in Some (if v > 4294967295 then 0xFFFFFFFF else if hd s1 = 0x2D then - of_int v else of_int v))"

definition get_can_id :: "bytes \<Rightarrow> u8" where
  "get_can_id s = (if s = [] then 0 else case scan_u s of None \<Rightarrow> 0 | Some v \<Rightarrow> ucast v)"

definition nd :: "(bytes \<times> u8 \<times> wr_cb) list" where
  "nd = [(ascii ''sh_nd_preldr'', 0, Wr_nd_preldr), (ascii ''sh_nd_ldr'', 1, Wr_nd), (ascii ''sh_nd_app'', 2, Wr_nd)]"

text \<open>The loop over \<open>nd\<close> from index \<open>i\<close>.\<close>

fun nd_search :: "nat \<Rightarrow> (bytes \<times> u8 \<times> wr_cb) list \<Rightarrow> bytes \<Rightarrow> 'n app_dev \<Rightarrow> nat \<times> 'n app_dev" where
  "nd_search i [] file_name d = (1, d)"
| "nd_search i ((name, fw_type, wr) # xs) file_name d =
    (if take (length name) file_name = name
     then if drop (length name) file_name = [] then nd_search (Suc i) xs file_name d
          else let can_id = get_can_id (drop (length name) file_name)
               in if can_id = 0 then (1, d)
                  else (0, d\<lparr>sdo_flasher_id := can_id, cb_read := Some Rd_nd, cb_write := Some wr, nd_sel := i\<rparr>)
     else nd_search (Suc i) xs file_name d)"

definition app_check_file :: "gw_env \<Rightarrow> bool \<Rightarrow> bytes \<Rightarrow> 'n app_dev \<Rightarrow> nat \<times> 'n app_dev" where
  "app_check_file e is_write file_name d0 =
    (let d = dev_check e d0
     in if file_name = ascii ''sh_gw_ldr'' \<and> is_write
        then (0, d\<lparr>dev_flash := platform_flash_erase_flag_reset (dev_flash d), cb_write := Some Wr_gw\<rparr>)
        else case (if is_write then None else map_of gw_rd file_name) of
            Some p \<Rightarrow> (0, d\<lparr>cb_read := Some p\<rparr>)
          | None \<Rightarrow> nd_search 0 nd file_name d)"

text \<open>
  The node's callbacks on the device.  A node that answers with more than the buffer holds overruns
  it: the bytes reported are those that fit.
\<close>

definition app_nd_read :: "gw_env \<Rightarrow> 'n node_if \<Rightarrow> u32 \<Rightarrow> nat \<Rightarrow> 'n app_dev \<Rightarrow> nat \<times> bytes option \<times> 'n app_dev" where
  "app_nd_read e ndif addr size_buffer d0 =
    (let d = pdo_off d0
     in case cb_nd_rd (env_dr e) ndif (sdo_flasher_id d) (fst (snd (nd ! nd_sel d))) addr size_buffer (dev_bus d) of
          (sts, got, bus) \<Rightarrow>
            (case got of None \<Rightarrow> (sts, None, d\<lparr>dev_bus := bus\<rparr>)
             | Some (bs, n) \<Rightarrow> (sts, Some (take n bs), (if length bs > size_buffer then fault else id) (d\<lparr>dev_bus := bus\<rparr>))))"

definition app_nd_write :: "gw_env \<Rightarrow> 'n node_if \<Rightarrow> u32 \<Rightarrow> bytes \<Rightarrow> 'n app_dev \<Rightarrow> nat \<times> 'n app_dev" where
  "app_nd_write e ndif addr data d0 =
    (let d = pdo_off d0
     in case cb_nd_wr (env_dr e) ndif (sdo_flasher_id d) (fst (nd ! nd_sel d)) addr data (dev_bus d) of
          (sts, bus) \<Rightarrow> (sts, d\<lparr>dev_bus := bus\<rparr>))"

definition app_io :: "flash_dev \<Rightarrow> gw_env \<Rightarrow> 'n node_if \<Rightarrow> 'n app_dev tftp_io" where
  "app_io dev e ndif = \<lparr>
     io_write = (\<lambda>addr data d. case cb_write d of
        Some Wr_gw \<Rightarrow> cb_wr_gw_ldr dev e addr data d
      | Some Wr_nd_preldr \<Rightarrow> (case cb_nd_wr_preldr addr data (dev_bus d) of (sts, bus) \<Rightarrow> (sts, d\<lparr>dev_bus := bus\<rparr>))
      | Some Wr_nd \<Rightarrow> app_nd_write e ndif addr data d
      | None \<Rightarrow> (0, fault d)),
     io_read = (\<lambda>addr sz d. if cb_read d = Some Rd_nd then app_nd_read e ndif addr sz d
        else gw_read_sel (cb_read d) addr sz (pdo_off d)),
     io_check = app_check_file e\<rparr>"

section \<open>Regions of whole sectors\<close>

definition whole_sectors :: "u32 \<Rightarrow> nat \<Rightarrow> bool" where
  "whole_sectors start room \<longleftrightarrow> unat start + room < 2 ^ 32
    \<and> (\<forall>i < room. find_sector flash_desc_init (start + of_nat i) \<noteq> None)
    \<and> (\<forall>x i. i < room \<and> find_sector flash_desc_init x = find_sector flash_desc_init (start + of_nat i)
        \<longrightarrow> unat start \<le> unat x \<and> unat x < unat start + room)"

lemma sector_bounds:
  assumes "find_sector flash_desc_init a = Some j"
  shows "unat (sec_start (flash_desc_init ! j)) \<le> unat a \<and> unat a < unat (sec_start (flash_desc_init ! j)) + unat (sec_len (flash_desc_init ! j)) \<and> j < 8"
proof -
  have j: "j < 8" "in_sector (flash_desc_init ! j) a" using find_sector_Some [OF assms] by auto
  then have "j \<in> {0,1,2,3,4,5,6,7}" by auto
  then show ?thesis using j by (auto simp: flash_desc_init_def in_sector_def word_le_nat_alt word_less_nat_alt)
qed


lemma whole_sectorsI:
  assumes flash: "unat FLASH_START \<le> unat start" "unat start + room \<le> unat FLASH_FINISH"
    and cut: "\<And>j. j < 8 \<Longrightarrow> unat (sec_start (flash_desc_init ! j)) + unat (sec_len (flash_desc_init ! j)) \<le> unat start
        \<or> unat start + room \<le> unat (sec_start (flash_desc_init ! j))
        \<or> (unat start \<le> unat (sec_start (flash_desc_init ! j))
            \<and> unat (sec_start (flash_desc_init ! j)) + unat (sec_len (flash_desc_init ! j)) \<le> unat start + room)"
  shows "whole_sectors start room"
proof -
  have small: "unat start + room < 2 ^ 32" using flash(2) by simp
  have u: "unat (start + of_nat i) = unat start + i" if "i < room" for i
    using that small by (simp add: unat_add_of_nat)
  have some: "find_sector flash_desc_init (start + of_nat i) \<noteq> None" if "i < room" for i
    using find_sector_flash [of "start + of_nat i"] u [OF that] flash that by (auto simp: word_le_nat_alt word_less_nat_alt)
  have "unat start \<le> unat x \<and> unat x < unat start + room"
    if i: "i < room" and eq: "find_sector flash_desc_init x = find_sector flash_desc_init (start + of_nat i)" for x i
  proof -
    obtain j where j: "find_sector flash_desc_init (start + of_nat i) = Some j" using some [OF i] by auto
    note b = sector_bounds [OF j] sector_bounds [OF eq [unfolded j]]
    from cut [of j] b u [OF i] i show ?thesis by linarith
  qed
  with small some show ?thesis by (auto simp: whole_sectors_def)
qed

lemma sector_cases: "(j :: nat) < 8 \<Longrightarrow> j \<in> {0,1,2,3,4,5,6,7}"
  by auto

lemma app_sectors: "whole_sectors APP_START 0x60000"
proof (rule whole_sectorsI)
  fix j :: nat assume "j < 8"
  then have "j \<in> {0,1,2,3,4,5,6,7}" by (rule sector_cases)
  then show "unat (sec_start (flash_desc_init ! j)) + unat (sec_len (flash_desc_init ! j)) \<le> unat APP_START
        \<or> unat APP_START + 0x60000 \<le> unat (sec_start (flash_desc_init ! j))
        \<or> (unat APP_START \<le> unat (sec_start (flash_desc_init ! j))
            \<and> unat (sec_start (flash_desc_init ! j)) + unat (sec_len (flash_desc_init ! j)) \<le> unat APP_START + 0x60000)"
    by (auto simp: flash_desc_init_def)
qed simp_all

lemma ldr_sectors: "whole_sectors LDR_START 0xC000"
proof (rule whole_sectorsI)
  fix j :: nat assume "j < 8"
  then have "j \<in> {0,1,2,3,4,5,6,7}" by (rule sector_cases)
  then show "unat (sec_start (flash_desc_init ! j)) + unat (sec_len (flash_desc_init ! j)) \<le> unat LDR_START
        \<or> unat LDR_START + 0xC000 \<le> unat (sec_start (flash_desc_init ! j))
        \<or> (unat LDR_START \<le> unat (sec_start (flash_desc_init ! j))
            \<and> unat (sec_start (flash_desc_init ! j)) + unat (sec_len (flash_desc_init ! j)) \<le> unat LDR_START + 0xC000)"
    by (auto simp: flash_desc_init_def)
qed simp_all

section \<open>The flash as a sink\<close>

text \<open>\<open>bs\<close> is stored from \<open>start\<close> on, the rest of the region can be written, and the flash outside is as in \<open>m0\<close>.\<close>

definition region_holds :: "u32 \<Rightarrow> nat \<Rightarrow> memory \<Rightarrow> flash_st \<Rightarrow> bytes \<Rightarrow> bool" where
  "region_holds start room m0 st bs \<longleftrightarrow> desc_ok st \<and> mem_bytes (flash_mem st) start (length bs) = bs
    \<and> (\<forall>i < length bs. addr_erased st (start + of_nat i))
    \<and> (\<forall>i. length bs \<le> i \<and> i < room \<longrightarrow> writable st (start + of_nat i))
    \<and> (\<forall>x. find_sector flash_desc_init x \<noteq> None \<and> (unat x < unat start \<or> unat start + room \<le> unat x) \<longrightarrow> flash_mem st x = m0 x)"

lemma reset_not_erased: "desc_ok st \<Longrightarrow> \<not> addr_erased (platform_flash_erase_flag_reset st) a"
  using find_sector_Some [of a] desc_ok_length [of st]
  by (auto simp: addr_erased_def platform_flash_erase_flag_reset_def split: option.splits)

lemma region_holds_reset:
  assumes "desc_ok st" "whole_sectors start room"
  shows "region_holds start room (flash_mem st) (platform_flash_erase_flag_reset st) []"
proof -
  have "sec_geom (d\<lparr>sec_erased := b\<rparr>) = sec_geom d" for d :: sector_t and b by (simp add: sec_geom_def)
  then have "desc_ok (platform_flash_erase_flag_reset st)"
    using assms(1) by (simp add: desc_ok_def platform_flash_erase_flag_reset_def o_def)
  moreover have "flash_mem (platform_flash_erase_flag_reset st) = flash_mem st" by (simp add: platform_flash_erase_flag_reset_def)
  ultimately show ?thesis using assms reset_not_erased [OF assms(1)] by (simp add: region_holds_def whole_sectors_def writable_def)
qed

context reliable_flash begin

lemma region_write:
  assumes h: "region_holds start room m0 st bs" and w: "whole_sectors start room" and l: "length bs + length data \<le> room"
  defines "r \<equiv> platform_flash_write dev (start + of_nat (length bs)) data st"
  shows "fst r = 0 \<and> region_holds start room m0 (snd r) (bs @ data)"
proof -
  let ?a = "start + of_nat (length bs)"
  have ok: "desc_ok st" and small: "length data < 2 ^ 32" using h w l by (auto simp: region_holds_def whole_sectors_def)
  have at: "?a + of_nat i = start + of_nat (length bs + i)" for i by (simp add: add.assoc)
  have inj: "i = j" if "start + of_nat i = start + (of_nat j :: u32)" "i < room" "j < room" for i j
    using that w by (simp add: of_nat_u32_inj whole_sectors_def)
  have blank: "length bs \<le> i \<Longrightarrow> i < room \<Longrightarrow> writable st (start + of_nat i)" for i using h by (simp add: region_holds_def)
  have wr: "\<forall>i < length data. writable st (?a + of_nat i)" unfolding at by (intro allI impI blank) (use l in auto)
  from platform_write_done [OF ok wr small] have 1: "fst r = 0"
    and keep: "writable st x \<Longrightarrow> (\<forall>i < length data. x \<noteq> ?a + of_nat i) \<Longrightarrow> writable (snd r) x" for x
    unfolding r_def by blast+
  from platform_write_ok [OF ok small, of ?a] 1 have 2: "mem_bytes (flash_mem (snd r)) ?a (length data) = data" "desc_ok (snd r)"
    "\<forall>i < length data. addr_erased (snd r) (?a + of_nat i)"
    and old: "addr_erased st x \<Longrightarrow> addr_erased (snd r) x \<and> ((\<forall>i < length data. x \<noteq> ?a + of_nat i) \<longrightarrow> flash_mem (snd r) x = flash_mem st x)" for x
    unfolding r_def by blast+
  have new: "start + of_nat i \<noteq> ?a + of_nat j" if "i < length bs \<or> length bs + length data \<le> i" "i < room" "j < length data" for i j
    using inj [of i "length bs + j"] that l unfolding at by auto
  have "mem_bytes (flash_mem (snd r)) start (length bs) = mem_bytes (flash_mem st) start (length bs)"
    using h l old new by (intro mem_bytes_cong) (auto simp: region_holds_def)
  then have m: "mem_bytes (flash_mem (snd r)) start (length (bs @ data)) = bs @ data"
    using h 2(1) by (simp add: mem_bytes_add region_holds_def)
  have e: "addr_erased (snd r) (start + of_nat i)" if "i < length (bs @ data)" for i
  proof (cases "i < length bs")
    case True
    then show ?thesis using h old by (simp add: region_holds_def)
  next
    case False
    then show ?thesis using 2(3) that unfolding at by (metis add_diff_inverse_nat length_append nat_add_left_cancel_less)
  qed
  have k: "writable (snd r) (start + of_nat i)" if "length (bs @ data) \<le> i" "i < room" for i
    using keep [of "start + of_nat i"] h new [of i] that by (auto simp: region_holds_def)
  have f: "flash_mem (snd r) x = m0 x"
    if "find_sector flash_desc_init x \<noteq> None" "unat x < unat start \<or> unat start + room \<le> unat x" for x
  proof -
    have "\<forall>i < length data. find_sector flash_desc_init x \<noteq> find_sector flash_desc_init (?a + of_nat i)"
    proof (intro allI impI notI)
      fix i assume i: "i < length data" "find_sector flash_desc_init x = find_sector flash_desc_init (?a + of_nat i)"
      have "length bs + i < room" using i(1) l by simp
      with i(2) w have "unat start \<le> unat x \<and> unat x < unat start + room" unfolding at whole_sectors_def by blast
      with that(2) show False by simp
    qed
    from platform_write_frame [OF ok that(1) this] show ?thesis using h that by (simp add: r_def region_holds_def)
  qed
  show ?thesis using 1 2(2) m e k f by (simp add: region_holds_def)
qed


lemma gw_write_next:
  assumes "region_holds start room m0 (dev_flash d) bs" "whole_sectors start room" "fin - start = of_nat room"
    "data \<noteq> []" "length bs + length data \<le> room"
  shows "\<exists>st. gw_write dev e start fin (of_nat (length bs)) data d = (0, d\<lparr>dev_flash := st\<rparr>) \<and> region_holds start room m0 st (bs @ data)"
proof -
  have "room < 2 ^ 32" using assms(2) by (simp add: whole_sectors_def)
  then have "\<not> (of_nat (length bs) :: u32) + of_nat (length data) > fin - start"
    using assms(3,5) unfolding not_less word_le_nat_alt by (simp add: unat_of_nat_u32 flip: of_nat_add)
  with region_write [OF assms(1,2,5)] assms(4) show ?thesis
    by (auto simp: gw_write_def split: prod.split)
qed

lemma gw_write_end:
  "\<exists>sts d'. gw_write dev e start fin addr [] d = (sts, d') \<and> dev_flash d' = dev_flash d \<and> cb_write d' = cb_write d \<and> dev_fault d' = dev_fault d"
  by (auto simp: gw_write_def dev_check_def platform_flash_write_def Let_def)

end

definition ldr_stored :: "memory \<Rightarrow> gw_dev \<Rightarrow> bytes \<Rightarrow> bool" where
  "ldr_stored m0 d bs \<longleftrightarrow> cb_write d = Some Wr_gw \<and> \<not> dev_fault d \<and> region_holds APP_START 0x60000 m0 (dev_flash d) bs"

definition app_stored :: "memory \<Rightarrow> 'n app_dev \<Rightarrow> bytes \<Rightarrow> bool" where
  "app_stored m0 d bs \<longleftrightarrow> cb_write d = Some Wr_gw \<and> \<not> dev_fault d \<and> region_holds LDR_START 0xC000 m0 (dev_flash d) bs"

lemma pdo_off_dev [simp]:
  "dev_flash (pdo_off d) = dev_flash d" "cb_write (pdo_off d) = cb_write d" "cb_read (pdo_off d) = cb_read d"
  "dev_fault (pdo_off d) = dev_fault d" "dev_info (pdo_off d) = dev_info d" "pdo_permit (dev_pdo (pdo_off d)) = False"
  by (simp_all add: pdo_off_def pdo_switch_en_global_def pdo_poll_en)

sublocale reliable_flash < ldr_sink: tftp_sink "ldr_io dev e" "ldr_stored m0" "0x60000" for e m0
proof unfold_locales
  show "fst (io_write (ldr_io dev e) (of_nat (length bs)) data d) = 0
      \<and> ldr_stored m0 (snd (io_write (ldr_io dev e) (of_nat (length bs)) data d)) (bs @ data)"
    if h: "ldr_stored m0 d bs" "data \<noteq> []" "length bs + length data \<le> 0x60000" for e m0 d bs data
    using gw_write_next [OF _ app_sectors, of m0 d bs APP_END data e] h
    by (auto simp: ldr_io_def cb_wr_gw_app_def ldr_stored_def)
  show "ldr_stored m0 (snd (io_write (ldr_io dev e) (of_nat (length bs)) [] d)) bs" if "ldr_stored m0 d bs" for e m0 d bs
    using gw_write_end [of e APP_START APP_END "of_nat (length bs)" d] that
    by (auto simp: ldr_io_def cb_wr_gw_app_def ldr_stored_def)
qed simp

sublocale reliable_flash < app_sink: tftp_sink "app_io dev e ndi" "app_stored m0" "0xC000" for e ndi m0
proof unfold_locales
  show "fst (io_write (app_io dev e ndi) (of_nat (length bs)) data d) = 0
      \<and> app_stored m0 (snd (io_write (app_io dev e ndi) (of_nat (length bs)) data d)) (bs @ data)"
    if h: "app_stored m0 d bs" "data \<noteq> []" "length bs + length data \<le> 0xC000" for e ndi m0 d bs data
    using gw_write_next [OF _ ldr_sectors, of m0 "pdo_off d" bs LDR_END data e] h
    by (auto simp: app_io_def cb_wr_gw_ldr_def app_stored_def)
  show "app_stored m0 (snd (io_write (app_io dev e ndi) (of_nat (length bs)) [] d)) bs" if "app_stored m0 d bs" for e ndi m0 d bs
    using gw_write_end [of e LDR_START LDR_END "of_nat (length bs)" "pdo_off d"] that
    by (auto simp: app_io_def cb_wr_gw_ldr_def app_stored_def)
qed simp


context reliable_flash begin

lemma ldr_sink_law: "tftp_sink (ldr_io dev e) (ldr_stored m0) 0x60000"
  by unfold_locales

lemma app_sink_law: "tftp_sink (app_io dev e ndi) (app_stored m0) 0xC000"
  by unfold_locales

end

section \<open>Uploads\<close>

text \<open>A client asks to write, sends full blocks as the network delivers them, and then the short last one.\<close>

definition tftp_upload :: "'d tftp_io \<Rightarrow> (nat \<Rightarrow> bool) \<Rightarrow> tftp_conn \<Rightarrow> peer \<Rightarrow> bytes \<Rightarrow> bytes \<Rightarrow> (nat \<times> peer) list \<Rightarrow> 'd \<Rightarrow> tftp_sess \<times> 'd" where
  "tftp_upload io net junk to name f es d =
    (case tftp_process_write io net (Some junk) to name new_sess d of (_, x) \<Rightarrow>
     case recv_blocks io net f es x of (s, d2) \<Rightarrow>
       snd (wrq_recv_callback io net to (data_pkt [] f (Suc (length f div 512))) s d2))"

context tftp_sink begin

lemma upload_stores:
  assumes "io_check io True name d = (0, d1)" "stored d1 []" and lim: "length f \<le> limit"
    and es: "\<forall>(k, src) \<in> set es. 1 \<le> k \<and> 512 * k \<le> length f" "in_order (map fst es) 0 = length f div 512" and net: "\<forall>k. net k"
  shows "stored (snd (tftp_upload io net junk to name f es d)) f \<and> \<not> uaf (fst (tftp_upload io net junk to name f es d))
    \<and> \<not> args_live (fst (tftp_upload io net junk to name f es d))
    \<and> last (sent (fst (tftp_upload io net junk to name f es d))) = (to, ack_pkt (Suc (length f div 512)))"
proof -
  obtain r x where x: "tftp_process_write io net (Some junk) to name new_sess d = (r, x)" by (metis surj_pair)
  have "receiving f 0 x"
    using assms(1,2) x by (auto simp: tftp_process_write_def receiving_def new_sess_def tftp_send_ack_packet_def send_live Let_def)
  from recv_blocks_receiving [OF lim es(1) this, of net] have
    r: "receiving f (length f div 512) (recv_blocks io net f es x)" using es(2) by simp
  obtain s d2 where s: "recv_blocks io net f es x = (s, d2)" by fastforce
  have "net (sends s)" using net by simp
  from recv_last [of f "length f div 512" s d2 net to, OF r [unfolded s] lim refl this] show ?thesis
    by (simp add: tftp_upload_def x s)
qed

end

lemma ldr_open:
  assumes "desc_ok (dev_flash d)" "\<not> dev_fault d"
  shows "\<exists>d1. io_check (ldr_io dev e) True (ascii ''sh_gw_app'') d = (0, d1) \<and> ldr_stored (flash_mem (dev_flash d)) d1 []"
  using assms region_holds_reset [OF _ app_sectors, of "dev_flash d"]
  by (auto simp: ldr_io_def ldr_check_file_def ldr_stored_def dev_check_def Let_def)

lemma app_open:
  assumes "desc_ok (dev_flash d)" "\<not> dev_fault d"
  shows "\<exists>d1. io_check (app_io dev e ndi) True (ascii ''sh_gw_ldr'') d = (0, d1) \<and> app_stored (flash_mem (dev_flash d)) d1 []"
  using assms region_holds_reset [OF _ ldr_sectors, of "dev_flash d"]
  by (auto simp: app_io_def app_check_file_def app_stored_def dev_check_def Let_def)


text \<open>C31: uploading the loader to the gateway stores exactly the file in the loader's region, and keeps all the
  rest of the flash.\<close>

lemma app_upload_stores:
  assumes "reliable_flash dev" "desc_ok (dev_flash d)" "\<not> dev_fault d" "length f \<le> 0xC000" "\<forall>k. net k"
    and "\<forall>(k, src) \<in> set es. 1 \<le> k \<and> 512 * k \<le> length f" "in_order (map fst es) 0 = length f div 512"
  shows "mem_bytes (flash_mem (dev_flash (snd (tftp_upload (app_io dev e ndi) net junk to (ascii ''sh_gw_ldr'') f es d)))) LDR_START (length f) = f
    \<and> (\<forall>x. FLASH_START \<le> x \<and> x < FLASH_FINISH \<and> (x < LDR_START \<or> LDR_END \<le> x) \<longrightarrow>
        flash_mem (dev_flash (snd (tftp_upload (app_io dev e ndi) net junk to (ascii ''sh_gw_ldr'') f es d))) x = flash_mem (dev_flash d) x)
    \<and> \<not> uaf (fst (tftp_upload (app_io dev e ndi) net junk to (ascii ''sh_gw_ldr'') f es d))"
proof -
  obtain d1 where d1: "io_check (app_io dev e ndi) True (ascii ''sh_gw_ldr'') d = (0, d1)" "app_stored (flash_mem (dev_flash d)) d1 []"
    using app_open assms(2,3) by blast
  have sec: "find_sector flash_desc_init x \<noteq> None" if "FLASH_START \<le> x" "x < FLASH_FINISH" for x
    using find_sector_flash [of x] that by auto
  have out: "unat x < unat LDR_START \<or> unat LDR_START + 0xC000 \<le> unat x" if "x < LDR_START \<or> LDR_END \<le> x" for x
    using that by (auto simp: word_le_nat_alt word_less_nat_alt)
  from tftp_sink.upload_stores [OF reliable_flash.app_sink_law [OF assms(1)] d1 assms(4,6,7,5), of junk to] sec out
  show ?thesis by (auto simp: app_stored_def region_holds_def)
qed


text \<open>A loader that has just started, with blank flash.\<close>

definition ex_dev :: gw_dev where
  "ex_dev = \<lparr>dev_flash = flash_init, dev_info = ex_g, cb_write = None, cb_read = None, dev_fault = False\<rparr>"

definition ex_env :: gw_env where
  "ex_env = \<lparr>env_dr = sw_crc32_word, env_ldr_name = 0, env_app_name = 0\<rparr>"

definition ex_app :: "unit app_dev" where
  "ex_app = \<lparr>dev_flash = flash_init, dev_info = ex_g, cb_write = None, cb_read = None, dev_fault = False,
     dev_load = \<lparr>ld_enabled = True, timeout_on_ms = 0, timeout_cur_longterm_ms = 0, ld_pin = True\<rparr>,
     dev_pdo = \<lparr>pdo_permit = True, pdo_en = True, cycle_1006 = 20000, sync_1005 = 0x40000080\<rparr>,
     sdo_flasher_id = 0, nd_sel = 0, dev_bus = ()\<rparr>"

definition ex_file :: bytes where
  "ex_file = replicate 512 7 @ [9]"

lemma ex_file_length: "length ex_file = 513"
  by (simp add: ex_file_def)


lemma app_upload_stores_witness:
  "mem_bytes (flash_mem (dev_flash (snd (tftp_upload (app_io nor_dev ex_env ex_node) (\<lambda>_. True) blank_conn (0, 69) (ascii ''sh_gw_ldr'')
      ex_file [(1, (0, 69)), (1, (0, 69))] ex_app)))) LDR_START 513 = ex_file"
  using app_upload_stores [OF nor.reliable_flash_axioms, of ex_app ex_file "\<lambda>_. True" "[(1, (0, 69)), (1, (0, 69))]" ex_env ex_node blank_conn "(0, 69)"]
  by (simp add: ex_app_def desc_ok_flash_init ex_file_length in_order_def)

section \<open>Downloads\<close>

text \<open>What a client can read of a region: the image when it is good, otherwise the whole region.\<close>

definition gw_content :: "fw_info \<Rightarrow> u32 \<Rightarrow> u32 \<Rightarrow> memory \<Rightarrow> bytes" where
  "gw_content info start fin m = mem_bytes m start (unat (gw_end info start fin - start))"

lemma gw_end_range:
  assumes "start \<le> fin"
  shows "start \<le> gw_end info start fin \<and> gw_end info start fin \<le> fin"
proof (cases "locked info = LOCK_NONE \<and> fin - start > fw_len info")
  case True
  then have l: "unat start + unat (fw_len info) < unat fin"
    using assms by (auto simp: word_less_nat_alt word_le_nat_alt unat_sub)
  then have "unat start + unat (fw_len info) < 2 ^ LENGTH(32)" using unat_u32_less [of fin] by (simp del: unat_u32_less)
  then have "unat (start + fw_len info) = unat start + unat (fw_len info)" by (simp add: unat_plus_if')
  then show ?thesis using True l by (simp add: gw_end_def word_le_nat_alt)
next
  case False
  then show ?thesis using assms by (auto simp: gw_end_def)
qed

lemma gw_read_content:
  assumes "start \<le> fin" "a \<le> length (gw_content info start fin (flash_mem (dev_flash d)))"
  shows "gw_read info start fin (of_nat a) 512 d = (0, Some (take 512 (drop a (gw_content info start fin (flash_mem (dev_flash d))))), d)"
proof -
  let ?e = "gw_end info start fin"
  have e: "start \<le> ?e" using gw_end_range [OF assms(1)] by blast
  then have l: "unat (?e - start) = unat ?e - unat start" "unat start \<le> unat ?e" by (simp_all add: unat_sub word_le_nat_alt)
  have a: "a \<le> unat ?e - unat start" using assms(2) l by (simp add: gw_content_def)
  have a32: "unat (of_nat a :: u32) = a" using a unat_u32_less [of ?e] by (intro unat_of_nat_u32) (simp del: unat_u32_less)
  have s: "unat (of_nat a + start) = a + unat start" using a l(2) unat_u32_less [of ?e] by (simp add: unat_plus_if' a32 del: unat_u32_less)
  have r: "unat (if ?e > of_nat a + start then ?e - of_nat a - start else 0) = unat ?e - unat start - a"
  proof (cases "?e > of_nat a + start")
    case True
    have e1: "?e - of_nat a - start = ?e - (of_nat a + start)" by (rule diff_diff_eq)
    have e2: "unat (?e - (of_nat a + start)) = unat ?e - unat (of_nat a + start)" using True by (intro unat_sub) simp
    show ?thesis unfolding if_P [OF True] e1 e2 s by simp
  next
    case False
    then show ?thesis using s by (simp add: word_less_nat_alt)
  qed
  have "take 512 (drop a (gw_content info start fin (flash_mem (dev_flash d))))
      = mem_bytes (flash_mem (dev_flash d)) (start + of_nat a) (min 512 (unat ?e - unat start - a))"
    using a unfolding gw_content_def l(1) by (simp add: mem_bytes_drop) (cases "512 \<le> unat ?e - unat start - a"; simp add: mem_bytes_take)
  then show ?thesis unfolding gw_read_def Let_def r by (simp add: min_def)
qed

lemma gw_content_length: "length (gw_content info APP_START APP_END m) \<le> 0x60000"
proof -
  have "unat (gw_end info APP_START APP_END) \<le> unat APP_END" "unat APP_START \<le> unat (gw_end info APP_START APP_END)"
    using gw_end_range [of APP_START APP_END info] by (simp_all add: word_le_nat_alt)
  then show ?thesis by (simp add: gw_content_def unat_sub word_le_nat_alt)
qed

interpretation ldr_src: tftp_source "ldr_io dev e" "\<lambda>d. cb_read d = Some Rd_app \<and> dev_flash d = st \<and> dev_info d = g"
  "gw_content (FW_APP g) APP_START APP_END (flash_mem st)" for dev e st g
proof unfold_locales
  show "\<exists>d'. io_read (ldr_io dev e) (of_nat a) 512 d = (0, Some (take 512 (drop a (gw_content (FW_APP g) APP_START APP_END (flash_mem st)))), d')
      \<and> cb_read d' = Some Rd_app \<and> dev_flash d' = st \<and> dev_info d' = g"
    if "cb_read d = Some Rd_app \<and> dev_flash d = st \<and> dev_info d = g" "a \<le> length (gw_content (FW_APP g) APP_START APP_END (flash_mem st))" for dev e st g d a
    using gw_read_content [of APP_START APP_END a "FW_APP g" d] that
    by (simp add: ldr_io_def gw_read_sel_def cb_gw_rd_app_def)
  show "length (gw_content (FW_APP g) APP_START APP_END (flash_mem st)) < 512 * 65535" for g and st :: flash_st
    using gw_content_length [of "FW_APP g" "flash_mem st"] by simp
qed

text \<open>A client asks to read and acknowledges \<open>n\<close> blocks, one after the other.\<close>

definition tftp_download :: "'d tftp_io \<Rightarrow> tftp_conn \<Rightarrow> peer \<Rightarrow> bytes \<Rightarrow> nat \<Rightarrow> 'd \<Rightarrow> tftp_sess \<times> 'd" where
  "tftp_download io junk to name n d =
    (case tftp_process_read io (\<lambda>_. True) (Some junk) to name new_sess d of (_, x) \<Rightarrow> send_acks io to [1..<Suc n] x)"

lemma file_blocks_concat: "n \<le> length f div 512 \<Longrightarrow> concat (map (file_block f) [1..<Suc n]) = take (512 * n) f"
proof (induction n)
  case (Suc n)
  then show ?case using file_block_next [of n f] by simp
qed simp

context tftp_source begin

lemma download_sends:
  assumes "io_check io False name d = (0, d1)" "good d1" "512 * n \<le> length f"
  shows "sending to (Suc n) (tftp_download io junk to name n d)"
proof -
  obtain s2 d2 where x: "tftp_rd_send_next_block io (\<lambda>_. True) to
      (new_sess\<lparr>args_live := True, handler := Rrq_recv, s_args := junk\<lparr>conn_op := TFTP_RRQ, to_peer := to, conn_block := 1, tot_bytes := 0\<rparr>\<rparr>) d1 = (s2, d2)"
    by fastforce
  have "sending to 1 (s2, d2)" unfolding x [symmetric] by (rule sending_first) (simp_all add: assms(2) new_sess_def)
  from sending_acks [OF this assms(3)] show ?thesis
    by (simp add: tftp_download_def tftp_process_read_def assms(1) x)
qed

end


text \<open>C32: downloading the application from the loader sends, one block per acknowledgement, exactly what can be read of
  the region: the image when it is good, else the whole region; the last block is a short one.\<close>

lemma ldr_download_sends:
  "let f = gw_content (FW_APP (dev_info (dev_check e d))) APP_START APP_END (flash_mem (dev_flash d));
       n = length f div 512;
       s = fst (tftp_download (ldr_io dev e) junk to (ascii ''sh_gw_app'') n d)
   in sent s = map (\<lambda>k. (to, data_bytes f k)) [1..<Suc (Suc n)] \<and> concat (map (file_block f) [1..<Suc (Suc n)]) = f
      \<and> length (file_block f (Suc n)) < 512 \<and> \<not> uaf s"
proof -
  let ?d1 = "(dev_check e d)\<lparr>cb_read := Some Rd_app\<rparr>"
  let ?f = "gw_content (FW_APP (dev_info (dev_check e d))) APP_START APP_END (flash_mem (dev_flash d))"
  let ?n = "length ?f div 512"
  have fl: "dev_flash (dev_check e d) = dev_flash d" by (simp add: dev_check_def)
  have "io_check (ldr_io dev e) False (ascii ''sh_gw_app'') d = (0, ?d1)"
    by (simp add: ldr_io_def ldr_check_file_def gw_rd_def ascii_def Let_def)
  from ldr_src.download_sends [OF this, of "dev_flash d" "dev_info (dev_check e d)" ?n to junk] fl
  have "ldr_src.sending (dev_flash d) (dev_info (dev_check e d)) to (Suc ?n) (tftp_download (ldr_io dev e) junk to (ascii ''sh_gw_app'') ?n d)"
    by simp
  moreover have "concat (map (file_block ?f) [1..<Suc ?n]) @ file_block ?f (Suc ?n) = ?f"
    using file_blocks_concat [of ?n ?f] file_block_next [of ?n ?f] by simp
  ultimately show ?thesis by (auto simp: ldr_src.sending_def Let_def length_file_block split: prod.splits)
qed

section \<open>The loader's server\<close>

datatype srv_event = Request tftp_env pbuf peer | Datagram nat pbuf peer

definition ldr_srv_step :: "flash_dev \<Rightarrow> gw_env \<Rightarrow> (nat \<Rightarrow> bool) \<Rightarrow> srv_event \<Rightarrow> gw_dev tftp_srv \<Rightarrow> gw_dev tftp_srv" where
  "ldr_srv_step dev e net ev v = (case ev of
     Request env p src \<Rightarrow> snd (recv_callback_tftp (ldr_io dev e) net env p src v)
   | Datagram i p src \<Rightarrow> tftp_dispatch (ldr_io dev e) net i p src v)"

text \<open>What a step of a transfer keeps, whatever its callbacks do.\<close>

definition same_owner :: "tftp_sess \<Rightarrow> tftp_sess \<Rightarrow> bool" where
  "same_owner s s' \<longleftrightarrow> handler s' = handler s \<and> (args_live s = pcb_live s \<longrightarrow> args_live s' = pcb_live s')"

lemma owner_step:
  "same_owner s (use_args s)" "same_owner s (use_pcb s)" "same_owner s (upd_args g s)" "same_owner s (tftp_cleanup_rd s)"
  "same_owner s (tftp_cleanup_wr s)" "same_owner s (tftp_send_message net to buf n s)" "same_owner s s"
  by (simp_all add: same_owner_def use_args_def use_pcb_def upd_args_def tftp_cleanup_rd_def tftp_cleanup_wr_def tftp_send_message_def Let_def)

lemma owner_send: "same_owner s (tftp_send_error_message net to err s)" "same_owner s (tftp_send_ack_packet net to k s)"
  by (simp_all add: tftp_send_error_message_def tftp_send_ack_packet_def owner_step split: prod.split)

lemma owner_trans: "same_owner s s' \<Longrightarrow> same_owner s' s'' \<Longrightarrow> same_owner s s''"
  by (simp add: same_owner_def)

lemmas owner = owner_step owner_send owner_step(1-6) [THEN owner_trans [rotated]] owner_send [THEN owner_trans [rotated]]

lemma wrq_owner: "same_owner s (fst (snd (wrq_recv_callback io net src p s d)))"
  by (auto simp: wrq_recv_callback_def Let_def intro!: owner split: prod.split if_splits)


lemma send_block_owner: "same_owner s (fst (tftp_rd_send_next_block io net to s d))"
  by (auto simp: tftp_rd_send_next_block_def Let_def intro!: owner split: prod.split option.split if_splits)

lemma rrq_owner: "same_owner s (fst (snd (rrq_recv_callback io net src p s d)))"
proof -
  have "same_owner s (fst (tftp_rd_send_next_block io net src s' d))" if "same_owner s s'" for s'
    using that send_block_owner by (rule owner_trans)
  then show ?thesis by (auto simp: rrq_recv_callback_def Let_def split_beta intro!: owner)
qed

text \<open>A property of the device that every callback keeps.\<close>

lemma wrq_keeps:
  assumes "\<And>a bs d. P d \<Longrightarrow> P (snd (io_write io a bs d))" "P d"
  shows "P (snd (snd (wrq_recv_callback io net src p s d)))"
proof -
  have "P d'" if "io_write io a bs d0 = (sts, d')" "P d0" for a bs d0 sts d' using assms(1) [OF that(2), of a bs] that(1) by simp
  with assms(2) show ?thesis by (auto simp: wrq_recv_callback_def Let_def split: prod.split if_splits)
qed

lemma send_block_keeps:
  assumes "\<And>a n d. P d \<Longrightarrow> P (snd (snd (io_read io a n d)))" "P d"
  shows "P (snd (tftp_rd_send_next_block io net to s d))"
proof -
  have "P d'" if "io_read io a n d0 = (sts, got, d')" "P d0" for a n d0 sts got d' using assms(1) [OF that(2), of a n] that(1) by simp
  with assms(2) show ?thesis by (auto simp: tftp_rd_send_next_block_def Let_def split: prod.split)
qed

lemma rrq_keeps:
  assumes "\<And>a n d. P d \<Longrightarrow> P (snd (snd (io_read io a n d)))" "P d"
  shows "P (snd (snd (rrq_recv_callback io net src p s d)))"
  using send_block_keeps [of P io, OF assms] by (simp add: rrq_recv_callback_def Let_def split_beta)

text \<open>The server is sound: no fault, the callback of every transfer is there, and memory goes with the control block.\<close>

definition rd_gw :: "rd_cb option \<Rightarrow> bool" where
  "rd_gw r \<longleftrightarrow> r = Some Rd_preldr \<or> r = Some Rd_ldr \<or> r = Some Rd_app"

definition sess_ok :: "gw_dev \<Rightarrow> tftp_sess \<Rightarrow> bool" where
  "sess_ok d s \<longleftrightarrow> args_live s = pcb_live s \<and> (handler s = Wrq_recv \<longrightarrow> cb_write d = Some Wr_gw)
     \<and> (handler s = Rrq_recv \<longrightarrow> rd_gw (cb_read d))"

definition srv_ok :: "gw_dev tftp_srv \<Rightarrow> bool" where
  "srv_ok v \<longleftrightarrow> \<not> dev_fault (srv_dev v) \<and> list_all (sess_ok (srv_dev v)) (transfers v)"

lemma gw_write_keeps: "cb_write (snd (gw_write dev e st fin a bs d)) = cb_write d \<and> cb_read (snd (gw_write dev e st fin a bs d)) = cb_read d
    \<and> dev_fault (snd (gw_write dev e st fin a bs d)) = dev_fault d"
  by (simp add: gw_write_def dev_check_def Let_def split: prod.split)

lemma ldr_write_keeps: "cb_write d = Some Wr_gw \<Longrightarrow> cb_write (snd (io_write (ldr_io dev e) a bs d)) = Some Wr_gw
    \<and> cb_read (snd (io_write (ldr_io dev e) a bs d)) = cb_read d \<and> dev_fault (snd (io_write (ldr_io dev e) a bs d)) = dev_fault d"
  by (simp add: ldr_io_def cb_wr_gw_app_def gw_write_keeps)

lemma ldr_read_keeps: "rd_gw (cb_read d) \<Longrightarrow> snd (snd (io_read (ldr_io dev e) a n d)) = d"
  by (auto simp: rd_gw_def ldr_io_def gw_read_sel_def cb_gw_rd_preldr_def cb_gw_rd_ldr_def cb_gw_rd_app_def gw_read_def Let_def)

lemma list_all_update: "list_all P xs \<Longrightarrow> P x \<Longrightarrow> list_all P (xs[i := x])"
  using set_update_subset_insert [of xs i x] by (auto simp: list_all_iff)

lemma dispatch_ok: "srv_ok v \<Longrightarrow> srv_ok (tftp_dispatch (ldr_io dev e) net i p src v)"
proof (cases "i < length (transfers v) \<and> pcb_live (transfers v ! i)")
  case True
  assume ok: "srv_ok v"
  let ?s = "transfers v ! i" and ?d = "srv_dev v"
  have s: "sess_ok ?d ?s" using ok True by (simp add: srv_ok_def list_all_length)
  show ?thesis
  proof (cases "handler ?s")
    case No_handler
    then show ?thesis using ok True by (simp add: tftp_dispatch_def)
  next
    case Rrq_recv
    obtain r s' d' where x: "rrq_recv_callback (ldr_io dev e) net src p ?s ?d = (r, s', d')" by (metis surj_pair)
    have "rd_gw (cb_read ?d)" using s Rrq_recv by (simp add: sess_ok_def)
    then have "d' = ?d" using rrq_keeps [of "\<lambda>d. d = ?d" "ldr_io dev e" ?d net src p ?s] ldr_read_keeps x by fastforce
    moreover have "sess_ok ?d s'" using rrq_owner [of ?s "ldr_io dev e" net src p ?d] s x by (auto simp: sess_ok_def same_owner_def)
    ultimately show ?thesis using ok True Rrq_recv x by (simp add: tftp_dispatch_def srv_ok_def list_all_update)
  next
    case Wrq_recv
    obtain r s' d' where x: "wrq_recv_callback (ldr_io dev e) net src p ?s ?d = (r, s', d')" by (metis surj_pair)
    let ?P = "\<lambda>d. cb_write d = Some Wr_gw \<and> cb_read d = cb_read ?d \<and> \<not> dev_fault d"
    have "?P ?d" using s ok Wrq_recv by (simp add: sess_ok_def srv_ok_def)
    then have d': "?P d'" using wrq_keeps [of ?P "ldr_io dev e" ?d net src p ?s] ldr_write_keeps x by fastforce
    then have all: "sess_ok ?d t \<Longrightarrow> sess_ok d' t" for t by (auto simp: sess_ok_def)
    have "sess_ok d' s'" using wrq_owner [of ?s "ldr_io dev e" net src p ?d] all [OF s] x by (auto simp: sess_ok_def same_owner_def)
    moreover have "list_all (sess_ok d') (transfers v)" using ok all by (auto simp: srv_ok_def list_all_length)
    ultimately show ?thesis using d' True Wrq_recv x by (simp add: tftp_dispatch_def srv_ok_def list_all_update)
  qed
qed (auto simp: tftp_dispatch_def)

lemma check_file_keeps:
  assumes "ldr_check_file e w name d = (r, d')"
  shows "dev_fault d' = dev_fault d \<and> (sess_ok d s \<longrightarrow> sess_ok d' s) \<and> (r = 0 \<longrightarrow> (if w then cb_write d' = Some Wr_gw else rd_gw (cb_read d')))"
proof -
  have "rd_gw (Some p)" if "map_of gw_rd name = Some p" for p
    using that by (auto simp: gw_rd_def rd_gw_def split: if_splits)
  with assms show ?thesis
    by (auto simp: ldr_check_file_def dev_check_def sess_ok_def Let_def split: if_splits option.splits)
qed


lemma send_sel [simp]:
  "handler (tftp_send_message net to buf n s) = handler s" "args_live (tftp_send_message net to buf n s) = args_live s"
  "pcb_live (tftp_send_message net to buf n s) = pcb_live s"
  "handler (tftp_send_error_message net to err s) = handler s" "args_live (tftp_send_error_message net to err s) = args_live s"
  "pcb_live (tftp_send_error_message net to err s) = pcb_live s"
  "handler (tftp_send_ack_packet net to k s) = handler s" "args_live (tftp_send_ack_packet net to k s) = args_live s"
  "pcb_live (tftp_send_ack_packet net to k s) = pcb_live s"
  "handler (use_pcb s) = handler s" "args_live (use_pcb s) = args_live s" "pcb_live (use_pcb s) = pcb_live s"
  by (simp_all add: tftp_send_message_def tftp_send_error_message_def tftp_send_ack_packet_def use_pcb_def Let_def split: prod.split)

lemma new_sess_sel [simp]: "handler new_sess = No_handler" "args_live new_sess = False" "pcb_live new_sess = True"
  by (simp_all add: new_sess_def)

lemma process_write_ok:
  assumes "tftp_process_write (ldr_io dev e) net mem to name new_sess d = (r, s', d')" "\<not> dev_fault d"
  shows "\<not> dev_fault d' \<and> (\<forall>s. sess_ok d s \<longrightarrow> sess_ok d' s) \<and> sess_ok d' s'"
proof -
  obtain c d1 where c: "ldr_check_file e True name d = (c, d1)" by fastforce
  note k = check_file_keeps [OF c]
  have d1: "d' = d1" using assms(1) c by (auto simp: tftp_process_write_def ldr_io_def Let_def split: if_splits option.splits)
  have "sess_ok d1 s'" using assms(1) c k
    by (auto simp: tftp_process_write_def ldr_io_def sess_ok_def Let_def split: if_splits option.splits)
  with d1 k assms(2) show ?thesis by blast
qed

lemma process_read_ok:
  assumes "tftp_process_read (ldr_io dev e) net mem to name new_sess d = (r, s', d')" "\<not> dev_fault d"
  shows "\<not> dev_fault d' \<and> (\<forall>s. sess_ok d s \<longrightarrow> sess_ok d' s) \<and> sess_ok d' s'"
proof -
  obtain c d1 where c: "ldr_check_file e False name d = (c, d1)" by fastforce
  note k = check_file_keeps [OF c]
  show ?thesis
  proof (cases "c = 0 \<and> mem \<noteq> None")
    case True
    then obtain junk where mem: "mem = Some junk" by blast
    let ?s = "new_sess\<lparr>args_live := True, handler := Rrq_recv, s_args := junk\<lparr>conn_op := TFTP_RRQ, to_peer := to, conn_block := 1, tot_bytes := 0\<rparr>\<rparr>"
    have x: "tftp_rd_send_next_block (ldr_io dev e) net to ?s d1 = (s', d')"
      using assms(1) c True by (auto simp: tftp_process_read_def ldr_io_def mem Let_def split: prod.splits)
    have rd: "rd_gw (cb_read d1)" using k True by simp
    have "d' = d1" using send_block_keeps [of "\<lambda>d. d = d1" "ldr_io dev e" d1 net to ?s] ldr_read_keeps [OF rd] x by fastforce
    moreover have "sess_ok d1 s'" using send_block_owner [of ?s "ldr_io dev e" net to d1] x rd by (auto simp: sess_ok_def same_owner_def)
    ultimately show ?thesis using k assms(2) by blast
  next
    case False
    then have "d' = d1 \<and> sess_ok d1 s'" using assms(1) c
      by (auto simp: tftp_process_read_def ldr_io_def sess_ok_def Let_def split: if_splits option.splits)
    with k assms(2) show ?thesis by blast
  qed
qed

lemma request_ok: "srv_ok v \<Longrightarrow> srv_ok (process_tftp_request (ldr_io dev e) net env p src v)"
proof -
  assume ok: "srv_ok v"
  then have d: "\<not> dev_fault (srv_dev v)" by (simp add: srv_ok_def)
  have new: "srv_ok (v'\<lparr>srv_dev := d', transfers := transfers v @ [s]\<rparr>)"
    if "\<not> dev_fault d' \<and> (\<forall>s. sess_ok (srv_dev v) s \<longrightarrow> sess_ok d' s) \<and> sess_ok d' s" for d' s and v' :: "gw_dev tftp_srv"
    using that ok by (auto simp: srv_ok_def list_all_iff)
  have "srv_ok (v\<lparr>transfers := transfers v @ [(tftp_send_error_message net src 2 new_sess)\<lparr>pcb_live := False\<rparr>]\<rparr>)"
    using ok by (simp add: srv_ok_def sess_ok_def)
  then show ?thesis using ok new [OF process_read_ok [OF _ d]] new [OF process_write_ok [OF _ d]]
    unfolding process_tftp_request_def Let_def by (auto split: prod.split)
qed

interpretation ldr_srv: inv_machine "ldr_srv_step dev e net" srv_ok for dev e net
proof unfold_locales
  fix dev e net and v :: "gw_dev tftp_srv" and ev assume "srv_ok v"
  then have "srv_ok (v\<lparr>stay_in_boot := True\<rparr>)" by (simp add: srv_ok_def)
  with \<open>srv_ok v\<close> show "srv_ok (ldr_srv_step dev e net ev v)"
    by (cases ev) (simp_all add: ldr_srv_step_def recv_callback_tftp_def request_ok dispatch_ok)
qed



end
