(* ===== verification/Config_System.thy ===== *)
theory Config_System
  imports Crc Flash
begin

text \<open>
  The configuration store, common/config_system/config_system.c, built with
  \<open>CFG_SYSTEM_SAVES_NON_NATIVE_DATA=1\<close> as both firmware Makefiles do: saving the configuration
  table (\<open>config_write_storage\<close>, fresh or merging the entries of the other firmware), checking
  what is stored and locating the entries (\<open>config_validate\<close> with its byte-driven parser), and
  loading the data (\<open>config_read_storage\<close>).  The stored format is \<open>cfg_image\<close>.
\<close>

section \<open>Definitions\<close>

abbreviation CFG_ORIGIN :: u32 where "CFG_ORIGIN \<equiv> 0x08010000"
abbreviation CFG_SIZE :: nat where "CFG_SIZE \<equiv> 0x10000"
abbreviation CONFIG_MAX_KEY_SIZE :: nat where "CONFIG_MAX_KEY_SIZE \<equiv> 32"
abbreviation FLUSH_BUFFER_SIZE :: nat where "FLUSH_BUFFER_SIZE \<equiv> 32"
abbreviation BUFFER_SIZE :: nat where "BUFFER_SIZE \<equiv> 32"

datatype config_sts =
    CONFIG_STS_OK
  | CONFIG_STS_STORAGE_READ_ERROR
  | CONFIG_STS_STORAGE_WRITE_ERROR
  | CONFIG_STS_STORAGE_WRONG_FORMAT
  | CONFIG_STS_STORAGE_OUT_OF_BOUNDS
  | CONFIG_STS_WRONG_SIZE_CONFIG
  | CONFIG_STS_CRC_INVALID
  | CONFIG_STS_KEY_LONG
  | CONFIG_STS_KEY_SHORT
  | CONFIG_STS_LENGTH_DATA_ZERO
  | CONFIG_STS_PARSER_NOT_FINISHED
  | CONFIG_STS_NO_DATA

datatype sts_t = PROCESS_FINISH | PROCESS_KEY | PROCESS_LENGTH | PROCESS_VALUE

text \<open>\<open>ce_key\<close> is the key without its terminator, \<open>ce_data\<close> the variable behind the data pointer.\<close>

record config_entry =
  ce_key :: bytes
  ce_size :: u16
  data_abs_address :: u32
  ce_data :: "bytes option"

record parse_struct =
  name_buffer :: bytes
  name_buffer_size :: nat
  length_data :: u16
  length_size :: nat
  offset_entry_data :: u32
  prs_sts :: sts_t

text \<open>
  \<open>flush_buffer\<close> is the used part of the buffer (its length is \<open>flush_buffer_size\<close>), \<open>crc_reg\<close> the
  data register of the CRC unit, \<open>not_found\<close> the calls of \<open>config_entry_not_found_callback\<close>.
\<close>

record cfg_st =
  config_valid :: bool
  flush_buffer :: bytes
  offset_write_data :: nat
  crc_reg :: u32
  cfg_parser :: parse_struct
  g_device_config :: "config_entry list"
  not_found :: "(bytes \<times> u32 \<times> u16) list"
  cfg_flash :: flash_st

type_synonym cfg_res = "config_sts \<times> cfg_st"

definition parser_zero :: parse_struct where
  "parser_zero = \<lparr>name_buffer = replicate CONFIG_MAX_KEY_SIZE 0, name_buffer_size = 0, length_data = 0,
     length_size = 0, offset_entry_data = 0, prs_sts = PROCESS_FINISH\<rparr>"

subsection \<open>Writing\<close>

definition flush_byte :: "(u32 \<Rightarrow> u32 \<Rightarrow> u32) \<Rightarrow> flash_dev \<Rightarrow> bool \<Rightarrow> u8 \<Rightarrow> cfg_st \<Rightarrow> cfg_res" where
  "flush_byte dr dev flush_now b st =
    (let fb = flush_buffer st @ [b]
     in if length fb \<ge> FLUSH_BUFFER_SIZE \<or> flush_now
        then (case platform_flash_write dev (CFG_ORIGIN + of_nat (offset_write_data st)) fb (cfg_flash st) of
                (r, fl) \<Rightarrow>
                  if r \<noteq> 0 then (CONFIG_STS_STORAGE_WRITE_ERROR, st\<lparr>flush_buffer := fb, cfg_flash := fl\<rparr>)
                  else (CONFIG_STS_OK,
                        st\<lparr>flush_buffer := [], offset_write_data := offset_write_data st + length fb,
                           crc_reg := crc32_end dr fb (crc_reg st), cfg_flash := fl\<rparr>))
        else (CONFIG_STS_OK, st\<lparr>flush_buffer := fb\<rparr>))"

fun flush_loop :: "(u32 \<Rightarrow> u32 \<Rightarrow> u32) \<Rightarrow> flash_dev \<Rightarrow> bool \<Rightarrow> bytes \<Rightarrow> cfg_st \<Rightarrow> cfg_res" where
  "flush_loop dr dev flush_all [] st = (CONFIG_STS_OK, st)"
| "flush_loop dr dev flush_all (b # bs) st =
     and_then CONFIG_STS_OK (flush_byte dr dev (bs = [] \<and> flush_all) b) (flush_loop dr dev flush_all bs) st"

definition flush_data_calc_crc :: "(u32 \<Rightarrow> u32 \<Rightarrow> u32) \<Rightarrow> flash_dev \<Rightarrow> bytes \<Rightarrow> bool \<Rightarrow> cfg_st \<Rightarrow> cfg_res" where
  "flush_data_calc_crc dr dev data flush_all st =
    (if offset_write_data st + length data > CFG_SIZE then (CONFIG_STS_STORAGE_OUT_OF_BOUNDS, st)
     else flush_loop dr dev flush_all data st)"

text \<open>The bytes a data pointer gives: a null pointer gives zeros.\<close>

definition ptr_bytes :: "bytes option \<Rightarrow> nat \<Rightarrow> bytes" where
  "ptr_bytes p n = (case p of None \<Rightarrow> replicate n 0 | Some bs \<Rightarrow> take n bs)"

definition check_entry :: "config_entry \<Rightarrow> config_sts" where
  "check_entry e =
    (if length (ce_key e) \<ge> CONFIG_MAX_KEY_SIZE - 1 then CONFIG_STS_KEY_LONG
     else if length (ce_key e) = 0 then CONFIG_STS_KEY_SHORT
     else if ce_size e = 0 then CONFIG_STS_LENGTH_DATA_ZERO
     else CONFIG_STS_OK)"

fun check_entries :: "config_entry list \<Rightarrow> config_sts" where
  "check_entries [] = CONFIG_STS_OK"
| "check_entries (e # es) = (if check_entry e \<noteq> CONFIG_STS_OK then check_entry e else check_entries es)"

definition entry_size :: "config_entry \<Rightarrow> u32" where
  "entry_size e = of_nat (length (ce_key e) + 1) + 2 + ucast (ce_size e)"

definition entries_size :: "config_entry list \<Rightarrow> u32" where
  "entries_size es = sum_list (map entry_size es)"

definition count_zeros :: "u32 \<Rightarrow> u32" where
  "count_zeros size_config_data =
    (if (8 + size_config_data) AND 3 \<noteq> 0 then 4 - (8 + size_config_data) mod 4 else 0)"

definition write_entry :: "(u32 \<Rightarrow> u32 \<Rightarrow> u32) \<Rightarrow> flash_dev \<Rightarrow> config_entry \<Rightarrow> cfg_st \<Rightarrow> cfg_res" where
  "write_entry dr dev e =
    and_then CONFIG_STS_OK (flush_data_calc_crc dr dev (ce_key e @ [0]) False)
    (and_then CONFIG_STS_OK (flush_data_calc_crc dr dev (le16 (ce_size e)) False)
      (flush_data_calc_crc dr dev (ptr_bytes (ce_data e) (unat (ce_size e))) False))"

definition write_old :: "(u32 \<Rightarrow> u32 \<Rightarrow> u32) \<Rightarrow> flash_dev \<Rightarrow> bytes \<times> u16 \<times> bytes \<Rightarrow> cfg_st \<Rightarrow> cfg_res" where
  "write_old dr dev old = (case old of (name, data_sz, data) \<Rightarrow>
    and_then CONFIG_STS_OK (flush_data_calc_crc dr dev (name @ [0]) False)
    (and_then CONFIG_STS_OK (flush_data_calc_crc dr dev (le16 data_sz) False)
      (flush_data_calc_crc dr dev data False)))"

definition write_begin :: "cfg_st \<Rightarrow> cfg_st" where
  "write_begin st = st\<lparr>cfg_flash := platform_flash_erase_flag_reset_sect_cfg (cfg_flash st),
     crc_reg := crc_reset, flush_buffer := [], offset_write_data := 0\<rparr>"

definition write_crc :: "(u32 \<Rightarrow> u32 \<Rightarrow> u32) \<Rightarrow> flash_dev \<Rightarrow> cfg_st \<Rightarrow> cfg_res" where
  "write_crc dr dev st =
    (let crc32_val = crc32_end dr (flush_buffer st) (crc_reg st)
     in flush_data_calc_crc dr dev (le32 crc32_val) True (st\<lparr>crc_reg := crc32_val\<rparr>))"

text \<open>Lines 100-125 and 189-252: the size word, the entries, the padding, the CRC, then the flag.\<close>

definition write_image ::
  "(u32 \<Rightarrow> u32 \<Rightarrow> u32) \<Rightarrow> flash_dev \<Rightarrow> u32 \<Rightarrow> u32 \<Rightarrow> (bytes \<times> u16 \<times> bytes) list \<Rightarrow> cfg_st \<Rightarrow> cfg_res" where
  "write_image dr dev size_config_data zeros olds st =
    and_then CONFIG_STS_OK (flush_data_calc_crc dr dev (le32 size_config_data) False)
    (and_then CONFIG_STS_OK (each_then CONFIG_STS_OK (write_old dr dev) olds)
    (and_then CONFIG_STS_OK (each_then CONFIG_STS_OK (write_entry dr dev) (g_device_config st))
    (and_then CONFIG_STS_OK (flush_data_calc_crc dr dev (replicate (unat zeros) 0) False)
    (and_then CONFIG_STS_OK (write_crc dr dev)
      (\<lambda>st. (CONFIG_STS_OK, st\<lparr>config_valid := True\<rparr>))))))
    (write_begin st)"

definition config_write_fresh :: "(u32 \<Rightarrow> u32 \<Rightarrow> u32) \<Rightarrow> flash_dev \<Rightarrow> cfg_st \<Rightarrow> cfg_res" where
  "config_write_fresh dr dev st0 =
    (let st = st0\<lparr>config_valid := False\<rparr>; es = g_device_config st; sz = entries_size es; zeros = count_zeros sz
     in if check_entries es \<noteq> CONFIG_STS_OK then (check_entries es, st)
        else if 4 + 4 + sz > of_nat CFG_SIZE then (CONFIG_STS_STORAGE_OUT_OF_BOUNDS, st)
        else if 4 + (sz + zeros) + 4 > of_nat CFG_SIZE then (CONFIG_STS_STORAGE_OUT_OF_BOUNDS, st)
        else write_image dr dev (sz + zeros) zeros [] st)"

text \<open>
  The walk over the copy of the old image, made once to add up the sizes and once to write: the
  entries whose name is not in the table.  \<open>None\<close>: the walk reads past the copy.
\<close>

function old_scan :: "bytes list \<Rightarrow> bytes \<Rightarrow> nat \<Rightarrow> (bytes \<times> u16 \<times> bytes) list option" where
  "old_scan keys buf off =
    (if off \<ge> length buf then Some []
     else if buf ! off = 0 then old_scan keys buf (off + 1)
     else let name = c_str (drop off buf); p = off + length name + 1
          in if p + 2 > length buf then None
             else let data_sz = rd16 (drop p buf); nxt = p + 2 + unat data_sz
                  in if name \<in> set keys then old_scan keys buf nxt
                     else if nxt > length buf then None
                     else map_option (Cons (name, data_sz, take (unat data_sz) (drop (p + 2) buf)))
                            (old_scan keys buf nxt))"
  by pat_completeness auto

termination by (relation "measure (\<lambda>(keys, buf, off). length buf - off)") auto

declare old_scan.simps [simp del]

definition olds_size :: "(bytes \<times> u16 \<times> bytes) list \<Rightarrow> u32" where
  "olds_size olds = sum_list (map (\<lambda>(name, data_sz, data). of_nat (length name + 1) + 2 + ucast data_sz) olds)"

text \<open>A \<open>platform_flash_read\<close> into a zeroed buffer.\<close>

definition cfg_read :: "cfg_st \<Rightarrow> nat \<Rightarrow> nat \<Rightarrow> bytes" where
  "cfg_read st off n = snd (platform_flash_read (cfg_flash st) (CFG_ORIGIN + of_nat off) (of_nat n) (replicate n 0))"

definition config_write_merge :: "(u32 \<Rightarrow> u32 \<Rightarrow> u32) \<Rightarrow> flash_dev \<Rightarrow> cfg_st \<Rightarrow> cfg_res option" where
  "config_write_merge dr dev st0 =
    (let st = st0\<lparr>config_valid := False\<rparr>; es = g_device_config st
     in if check_entries es \<noteq> CONFIG_STS_OK then Some (check_entries es, st)
        else let old_data_size = rd32 (cfg_read st 0 4);
                 buf_old_data = cfg_read st 0 (unat (4 + old_data_size))
             in case old_scan (map ce_key es) buf_old_data 4 of
                  None \<Rightarrow> None
                | Some olds \<Rightarrow>
                    (let sz = entries_size es + olds_size olds; zeros = count_zeros sz
                     in if 4 + (sz + zeros) + 4 > of_nat CFG_SIZE then Some (CONFIG_STS_STORAGE_OUT_OF_BOUNDS, st)
                        else Some (write_image dr dev (sz + zeros) zeros olds st)))"

definition config_write_storage :: "(u32 \<Rightarrow> u32 \<Rightarrow> u32) \<Rightarrow> flash_dev \<Rightarrow> cfg_st \<Rightarrow> cfg_res option" where
  "config_write_storage dr dev st =
    (if length (g_device_config st) = 0 then Some (CONFIG_STS_NO_DATA, st)
     else if \<not> config_valid st then Some (config_write_fresh dr dev st)
     else config_write_merge dr dev st)"

subsection \<open>Reading\<close>

text \<open>\<open>find_entry\<close>: the first entry with the parsed name and length gets the address.\<close>

fun find_entry :: "parse_struct \<Rightarrow> u32 \<Rightarrow> config_entry list \<Rightarrow> bool \<times> config_entry list" where
  "find_entry prs data_offset [] = (False, [])"
| "find_entry prs data_offset (e # es) =
     (if c_str (name_buffer prs) = ce_key e \<and> length_data prs = ce_size e
      then (True, e\<lparr>data_abs_address := data_offset\<rparr> # es)
      else (case find_entry prs data_offset es of (r, es') \<Rightarrow> (r, e # es')))"

definition parse_key :: "u8 \<Rightarrow> parse_struct \<Rightarrow> config_sts \<times> parse_struct" where
  "parse_key b p =
    (let p1 = p\<lparr>prs_sts := PROCESS_KEY, name_buffer := (name_buffer p)[name_buffer_size p := b],
                name_buffer_size := name_buffer_size p + 1\<rparr>
     in if name_buffer_size p1 \<ge> CONFIG_MAX_KEY_SIZE \<and> b \<noteq> 0 then (CONFIG_STS_KEY_LONG, p1)
        else if b = 0 \<and> name_buffer_size p1 \<le> 1 then (CONFIG_STS_KEY_SHORT, p1)
        else (CONFIG_STS_OK, if b = 0 then p1\<lparr>prs_sts := PROCESS_LENGTH\<rparr> else p1))"

definition parse_length :: "u32 \<Rightarrow> u8 \<Rightarrow> parse_struct \<Rightarrow> config_sts \<times> parse_struct" where
  "parse_length addr b p =
    (let p1 = p\<lparr>length_data := length_data p OR push_bit (8 * length_size p) (ucast b),
                length_size := length_size p + 1\<rparr>
     in if length_size p1 \<ge> 2
        then if length_data p1 = 0 then (CONFIG_STS_LENGTH_DATA_ZERO, p1)
             else (CONFIG_STS_OK, p1\<lparr>prs_sts := PROCESS_VALUE, offset_entry_data := addr + 1\<rparr>)
        else (CONFIG_STS_OK, p1))"

definition parse_value :: "u32 \<Rightarrow> cfg_st \<Rightarrow> cfg_st" where
  "parse_value addr st =
    (let p = cfg_parser st
     in if offset_entry_data p + ucast (length_data p) = addr + 1
        then (case find_entry p (offset_entry_data p) (g_device_config st) of (found, es) \<Rightarrow>
                st\<lparr>g_device_config := es, cfg_parser := parser_zero,
                   not_found := not_found st @
                     (if found then [] else [(c_str (name_buffer p), offset_entry_data p, of_nat (length_size p))])\<rparr>)
        else st)"

text \<open>One iteration of the loop of \<open>parse_data\<close>; \<open>addr\<close> is \<open>offset_data + i\<close>.\<close>

definition parse_byte :: "u32 \<Rightarrow> u8 \<Rightarrow> cfg_st \<Rightarrow> cfg_res" where
  "parse_byte addr b st =
    (let p = cfg_parser st
     in case prs_sts p of
          PROCESS_FINISH \<Rightarrow>
            if b = 0 then (CONFIG_STS_OK, st)
            else (case parse_key b p of (r, p') \<Rightarrow> (r, st\<lparr>cfg_parser := p'\<rparr>))
        | PROCESS_KEY \<Rightarrow> (case parse_key b p of (r, p') \<Rightarrow> (r, st\<lparr>cfg_parser := p'\<rparr>))
        | PROCESS_LENGTH \<Rightarrow> (case parse_length addr b p of (r, p') \<Rightarrow> (r, st\<lparr>cfg_parser := p'\<rparr>))
        | PROCESS_VALUE \<Rightarrow> (CONFIG_STS_OK, parse_value addr st))"

fun parse_data :: "u32 \<Rightarrow> bytes \<Rightarrow> cfg_st \<Rightarrow> cfg_res" where
  "parse_data addr [] st = (CONFIG_STS_OK, st)"
| "parse_data addr (b # bs) st = and_then CONFIG_STS_OK (parse_byte addr b) (parse_data (addr + 1) bs) st"

text \<open>Lines 348-368, the reading loop.\<close>

function validate_loop :: "nat \<Rightarrow> nat \<Rightarrow> cfg_st \<Rightarrow> cfg_res" where
  "validate_loop offset_read end_data st =
    (let sz = (if BUFFER_SIZE > end_data - offset_read then end_data - offset_read else BUFFER_SIZE)
     in case parse_data (CFG_ORIGIN + of_nat offset_read) (cfg_read st offset_read sz) st of (r, st1) \<Rightarrow>
          if r \<noteq> CONFIG_STS_OK then (r, st1)
          else if offset_read + sz \<ge> end_data
          then if prs_sts (cfg_parser st1) \<noteq> PROCESS_FINISH then (CONFIG_STS_PARSER_NOT_FINISHED, st1)
               else (CONFIG_STS_OK, st1\<lparr>config_valid := True\<rparr>)
          else validate_loop (offset_read + sz) end_data st1)"
  by pat_completeness auto

termination
  by (relation "measure (\<lambda>(offset_read, end_data, st). end_data - offset_read)") (auto split: if_splits)

declare validate_loop.simps [simp del]

definition config_crc_calc :: "(u32 \<Rightarrow> u32 \<Rightarrow> u32) \<Rightarrow> nat \<Rightarrow> cfg_st \<Rightarrow> u32 \<Rightarrow> u32" where
  "config_crc_calc dr size_config st reg =
     fold (\<lambda>i reg. crc32_end dr (cfg_read st (4 + 4 * i) 4) reg) [0..<(size_config + 3) div 4] reg"

definition config_validate :: "(u32 \<Rightarrow> u32 \<Rightarrow> u32) \<Rightarrow> cfg_st \<Rightarrow> cfg_res" where
  "config_validate dr st0 =
    (let st = st0\<lparr>config_valid := False\<rparr>;
         size_config = rd32 (cfg_read st 0 4);
         crc0 = crc32_start dr (le32 size_config)
     in if size_config < 8 \<or> size_config > 4 + of_nat CFG_SIZE + 4 \<or> size_config AND 3 \<noteq> 0
        then (CONFIG_STS_WRONG_SIZE_CONFIG, st\<lparr>crc_reg := crc0\<rparr>)
        else let crc_calc = config_crc_calc dr (unat size_config) st crc0;
                 end_data = 4 + unat size_config;
                 st1 = st\<lparr>crc_reg := crc_calc\<rparr>
             in if rd32 (cfg_read st end_data 4) \<noteq> crc_calc then (CONFIG_STS_CRC_INVALID, st1)
                else validate_loop 4 end_data (st1\<lparr>cfg_parser := parser_zero\<rparr>))"

definition read_entry :: "flash_st \<Rightarrow> config_entry \<Rightarrow> config_entry" where
  "read_entry fl e =
    (if data_abs_address e \<noteq> 0 \<and> ce_data e \<noteq> None \<and> ce_size e \<noteq> 0
     then e\<lparr>ce_data := Some (snd (platform_flash_read fl (data_abs_address e) (ucast (ce_size e)) (the (ce_data e))))\<rparr>
     else e)"

definition config_read_storage :: "cfg_st \<Rightarrow> cfg_st" where
  "config_read_storage st = st\<lparr>g_device_config := map (read_entry (cfg_flash st)) (g_device_config st)\<rparr>"

definition config_get_size :: "cfg_st \<Rightarrow> u32" where
  "config_get_size st = rd32 (cfg_read st 0 4) + 8"

subsection \<open>The stored format\<close>

type_synonym kv = "bytes \<times> bytes"

definition kv_enc :: "kv \<Rightarrow> bytes" where
  "kv_enc kv = fst kv @ [0] @ le16 (of_nat (length (snd kv))) @ snd kv"

definition kvs_enc :: "kv list \<Rightarrow> bytes" where
  "kvs_enc kvs = concat (map kv_enc kvs)"

definition pad_len :: "nat \<Rightarrow> nat" where
  "pad_len n = (4 - n mod 4) mod 4"

definition cfg_body :: "kv list \<Rightarrow> bytes" where
  "cfg_body kvs = kvs_enc kvs @ replicate (pad_len (length (kvs_enc kvs))) 0"

definition cfg_sized :: "kv list \<Rightarrow> bytes" where
  "cfg_sized kvs = le32 (of_nat (length (cfg_body kvs))) @ cfg_body kvs"

definition cfg_image :: "(u32 \<Rightarrow> u32 \<Rightarrow> u32) \<Rightarrow> kv list \<Rightarrow> bytes" where
  "cfg_image dr kvs = cfg_sized kvs @ le32 (crc32_start dr (cfg_sized kvs))"

definition kv_ok :: "kv \<Rightarrow> bool" where
  "kv_ok kv \<longleftrightarrow> fst kv \<noteq> [] \<and> 0 \<notin> set (fst kv) \<and> length (fst kv) < CONFIG_MAX_KEY_SIZE
     \<and> snd kv \<noteq> [] \<and> length (snd kv) < 2 ^ 16"

text \<open>The entries of the table as key and data; what the code assumes of the table.\<close>

definition kv_of :: "config_entry \<Rightarrow> kv" where
  "kv_of e = (ce_key e, ptr_bytes (ce_data e) (unat (ce_size e)))"

definition entry_ok :: "config_entry \<Rightarrow> bool" where
  "entry_ok e \<longleftrightarrow> 0 \<notin> set (ce_key e)
     \<and> (case ce_data e of None \<Rightarrow> True | Some d \<Rightarrow> length d = unat (ce_size e))"

text \<open>The flash holds the image of these entries.\<close>

definition cfg_stored :: "(u32 \<Rightarrow> u32 \<Rightarrow> u32) \<Rightarrow> kv list \<Rightarrow> flash_st \<Rightarrow> bool" where
  "cfg_stored dr kvs fl \<longleftrightarrow> length (cfg_image dr kvs) \<le> CFG_SIZE \<and> list_all kv_ok kvs \<and> kvs \<noteq> []
     \<and> mem_bytes (flash_mem fl) CFG_ORIGIN (length (cfg_image dr kvs)) = cfg_image dr kvs"

section \<open>Lemmas\<close>

subsection \<open>The parser\<close>

lemma parse_data_append:
  "parse_data a (xs @ ys) st = and_then CONFIG_STS_OK (parse_data a xs) (parse_data (a + of_nat (length xs)) ys) st"
proof (induction xs arbitrary: a st)
  case (Cons x xs)
  show ?case
    by (cases "parse_byte a x st") (simp add: and_then_def Cons.IH algebra_simps)
qed (simp add: and_then_def)

definition key_state :: "bytes \<Rightarrow> parse_struct" where
  "key_state done = parser_zero\<lparr>name_buffer := done @ replicate (CONFIG_MAX_KEY_SIZE - length done) 0,
     name_buffer_size := length done, prs_sts := PROCESS_KEY\<rparr>"

definition len_state :: "bytes \<Rightarrow> parse_struct" where
  "len_state k = (key_state k)\<lparr>name_buffer_size := length k + 1, prs_sts := PROCESS_LENGTH\<rparr>"

definition val_state :: "bytes \<Rightarrow> u16 \<Rightarrow> u32 \<Rightarrow> parse_struct" where
  "val_state k n a = (len_state k)\<lparr>length_data := n, length_size := 2, offset_entry_data := a,
     prs_sts := PROCESS_VALUE\<rparr>"

lemma list_update_replicate_first:
  "n > 0 \<Longrightarrow> (xs @ replicate n x)[length xs := b] = (xs @ [b]) @ replicate (n - 1) x"
  by (cases n) (simp_all add: list_update_append)

lemma parse_key_nonzero:
  assumes "b \<noteq> 0" "length done < CONFIG_MAX_KEY_SIZE - 1"
  shows "parse_key b (key_state done) = (CONFIG_STS_OK, key_state (done @ [b]))"
  using assms by (simp add: parse_key_def key_state_def Let_def list_update_replicate_first)

lemma parse_byte_first:
  assumes "b \<noteq> 0"
  shows "parse_byte a b (st\<lparr>cfg_parser := parser_zero\<rparr>) = parse_byte a b (st\<lparr>cfg_parser := key_state []\<rparr>)"
  using assms
  by (simp add: parse_byte_def Let_def key_state_def parser_zero_def parse_key_def)

lemma parse_key_run:
  assumes "0 \<notin> set k" "length done + length k < CONFIG_MAX_KEY_SIZE"
  shows "parse_data a k (st\<lparr>cfg_parser := key_state done\<rparr>) = (CONFIG_STS_OK, st\<lparr>cfg_parser := key_state (done @ k)\<rparr>)"
  using assms
proof (induction k arbitrary: a "done")
  case (Cons b k)
  have "parse_byte a b (st\<lparr>cfg_parser := key_state done\<rparr>) = (CONFIG_STS_OK, st\<lparr>cfg_parser := key_state (done @ [b])\<rparr>)"
    using Cons.prems parse_key_nonzero [of b "done"]
    by (simp add: parse_byte_def key_state_def)
  then show ?case
    using Cons.IH [of "done @ [b]"] Cons.prems by (simp add: and_then_def)
qed simp

lemma replicate_update_same: "(replicate n x)[i := x] = replicate n x"
  by (cases "i < n") (simp_all add: list_update_same_conv list_update_beyond)

lemma parse_key_end:
  assumes "k \<noteq> []" "length k < CONFIG_MAX_KEY_SIZE"
  shows "parse_byte a 0 (st\<lparr>cfg_parser := key_state k\<rparr>) = (CONFIG_STS_OK, st\<lparr>cfg_parser := len_state k\<rparr>)"
  using assms
  by (cases k) (auto simp: parse_byte_def parse_key_def key_state_def len_state_def Let_def list_update_append
      replicate_update_same)

lemma parse_length_run:
  assumes "n \<noteq> 0"
  shows "parse_data a (le16 n) (st\<lparr>cfg_parser := len_state k\<rparr>) = (CONFIG_STS_OK, st\<lparr>cfg_parser := val_state k n (a + 2)\<rparr>)"
proof -
  have "(ucast (ucast n :: u8) :: u16) OR push_bit 8 (ucast (ucast (drop_bit 8 n) :: u8)) = n"
    using word16_of_le16 [of n] by (simp add: word16_of_def)
  with assms show ?thesis
    by (simp add: le16_def and_then_def parse_byte_def parse_length_def len_state_def key_state_def
        val_state_def parser_zero_def Let_def)
qed

lemma c_str_padded: "0 \<notin> set k \<Longrightarrow> n > 0 \<Longrightarrow> c_str (k @ replicate n 0) = k"
  by (cases n) simp_all

text \<open>What a complete entry does to the table.\<close>

fun locate :: "kv \<Rightarrow> u32 \<Rightarrow> config_entry list \<Rightarrow> bool \<times> config_entry list" where
  "locate kv addr [] = (False, [])"
| "locate kv addr (e # es) =
     (if fst kv = ce_key e \<and> of_nat (length (snd kv)) = ce_size e
      then (True, e\<lparr>data_abs_address := addr\<rparr> # es)
      else (case locate kv addr es of (r, es') \<Rightarrow> (r, e # es')))"

definition deliver :: "kv \<Rightarrow> u32 \<Rightarrow> cfg_st \<Rightarrow> cfg_st" where
  "deliver kv addr st =
    (case locate kv addr (g_device_config st) of (found, es) \<Rightarrow>
       st\<lparr>g_device_config := es, not_found := not_found st @ (if found then [] else [(fst kv, addr, 2)])\<rparr>)"

lemma find_entry_locate:
  "c_str (name_buffer p) = k \<Longrightarrow> length_data p = of_nat (length d) \<Longrightarrow> find_entry p addr es = locate (k, d) addr es"
  by (induction es) (auto split: prod.splits)

lemma parse_value_run:
  assumes "d' \<noteq> []" "length d' < 2 ^ 16" "0 \<notin> set k" "length k < CONFIG_MAX_KEY_SIZE"
    and "length d < 2 ^ 16" "a + of_nat (length d') = o' + of_nat (length d)"
  shows "parse_data a d' (st\<lparr>cfg_parser := val_state k (of_nat (length d)) o'\<rparr>) =
    (CONFIG_STS_OK, (deliver (k, d) o' st)\<lparr>cfg_parser := parser_zero\<rparr>)"
  using assms
proof (induction d' arbitrary: a)
  case (Cons b d')
  have len: "ucast (of_nat (length d) :: u16) = (of_nat (length d) :: u32)"
    using Cons.prems(5) by (simp add: word_eq_iff_unsigned unsigned_of_nat take_bit_nat_eq_self unsigned_ucast_eq)
  show ?case
  proof (cases "d' = []")
    case True
    have "find_entry (val_state k (of_nat (length d)) o') o' (g_device_config st) = locate (k, d) o' (g_device_config st)"
      using Cons.prems(3,4)
      by (intro find_entry_locate) (simp_all add: val_state_def len_state_def key_state_def c_str_padded)
    moreover have "c_str (name_buffer (val_state k (of_nat (length d)) o')) = k"
      using Cons.prems(3,4) by (simp add: val_state_def len_state_def key_state_def c_str_padded)
    ultimately show ?thesis
      using True Cons.prems(6) len
      by (simp add: and_then_def parse_byte_def parse_value_def val_state_def len_state_def Let_def deliver_def
          split: prod.split)
  next
    case False
    have "a + 1 + of_nat (length d') = o' + of_nat (length d)"
      using Cons.prems(6) by (simp add: algebra_simps)
    moreover have "(of_nat (length d') :: u32) \<noteq> 0"
      using False Cons.prems(2) of_nat_u32_inj [of "length d'" 0] by auto
    ultimately have "o' + of_nat (length d) \<noteq> a + 1"
      by (metis add.right_neutral add_left_cancel)
    with len have "parse_byte a b (st\<lparr>cfg_parser := val_state k (of_nat (length d)) o'\<rparr>)
        = (CONFIG_STS_OK, st\<lparr>cfg_parser := val_state k (of_nat (length d)) o'\<rparr>)"
      by (simp add: parse_byte_def parse_value_def val_state_def len_state_def Let_def)
    with Cons.IH [OF False] Cons.prems \<open>a + 1 + _ = _\<close> show ?thesis
      by (simp add: and_then_def)
  qed
qed simp

lemma parse_entry:
  assumes "kv_ok kv"
  shows "parse_data a (kv_enc kv) (st\<lparr>cfg_parser := parser_zero\<rparr>) =
    (CONFIG_STS_OK, (deliver kv (a + of_nat (length (fst kv)) + 3) st)\<lparr>cfg_parser := parser_zero\<rparr>)"
proof -
  obtain k d where kv: "kv = (k, d)" by (cases kv)
  with assms have ok: "k \<noteq> []" "0 \<notin> set k" "length k < CONFIG_MAX_KEY_SIZE" "d \<noteq> []" "length d < 2 ^ 16"
    by (simp_all add: kv_ok_def)
  have n: "(of_nat (length d) :: u16) \<noteq> 0"
    using ok(4,5) unat_of_nat_u16 [of "length d"] by auto
  have key: "parse_data a k (st\<lparr>cfg_parser := parser_zero\<rparr>) = (CONFIG_STS_OK, st\<lparr>cfg_parser := key_state k\<rparr>)"
  proof -
    obtain b k' where k: "k = b # k'" using ok(1) by (cases k) auto
    then have "parse_data a k (st\<lparr>cfg_parser := parser_zero\<rparr>) = parse_data a k (st\<lparr>cfg_parser := key_state []\<rparr>)"
      using parse_byte_first [of b a st] ok(2) by (simp add: and_then_def)
    with parse_key_run [of k "[]"] ok show ?thesis by simp
  qed
  show ?thesis
    unfolding kv kv_enc_def fst_conv snd_conv parse_data_append
    using parse_value_run [of d k d "a + of_nat (length k) + 3"] ok
    by (simp add: and_then_def key parse_key_end parse_length_run [OF n] algebra_simps)
qed


fun deliver_all :: "kv list \<Rightarrow> u32 \<Rightarrow> cfg_st \<Rightarrow> cfg_st" where
  "deliver_all [] a st = st"
| "deliver_all (kv # kvs) a st =
     deliver_all kvs (a + of_nat (length (kv_enc kv))) (deliver kv (a + of_nat (length (fst kv)) + 3) st)"

lemma deliver_parser [simp]:
  "deliver kv a (st\<lparr>cfg_parser := p\<rparr>) = (deliver kv a st)\<lparr>cfg_parser := p\<rparr>"
  by (simp add: deliver_def split: prod.split)

lemma deliver_all_parser [simp]:
  "deliver_all kvs a (st\<lparr>cfg_parser := p\<rparr>) = (deliver_all kvs a st)\<lparr>cfg_parser := p\<rparr>"
  by (induction kvs arbitrary: a st) simp_all

lemma parse_kvs:
  assumes "list_all kv_ok kvs"
  shows "parse_data a (kvs_enc kvs) (st\<lparr>cfg_parser := parser_zero\<rparr>) =
    (CONFIG_STS_OK, (deliver_all kvs a st)\<lparr>cfg_parser := parser_zero\<rparr>)"
  using assms
proof (induction kvs arbitrary: a st)
  case (Cons kv kvs)
  then have "kv_ok kv" by simp
  from parse_entry [OF this] Cons show ?case
    by (simp add: kvs_enc_def parse_data_append and_then_def)
qed (simp add: kvs_enc_def)

lemma parse_padding:
  "parse_data a (replicate n 0) (st\<lparr>cfg_parser := parser_zero\<rparr>) = (CONFIG_STS_OK, st\<lparr>cfg_parser := parser_zero\<rparr>)"
  by (induction n arbitrary: a) (simp_all add: and_then_def parse_byte_def parser_zero_def)

lemma parse_body:
  "list_all kv_ok kvs \<Longrightarrow> parse_data a (cfg_body kvs) (st\<lparr>cfg_parser := parser_zero\<rparr>) =
    (CONFIG_STS_OK, (deliver_all kvs a st)\<lparr>cfg_parser := parser_zero\<rparr>)"
  by (simp add: cfg_body_def parse_data_append and_then_def parse_kvs parse_padding)

subsection \<open>Reading the flash\<close>

lemma cfg_read_flash:
  assumes "off + n < 0x70000"
  shows "cfg_read st off n = mem_bytes (flash_mem (cfg_flash st)) (CFG_ORIGIN + of_nat off) n"
proof -
  have off: "unat (CFG_ORIGIN + of_nat off) = 0x08010000 + off"
    using assms unat_add_of_nat [of CFG_ORIGIN off] by simp
  have "unat (CFG_ORIGIN + of_nat off + of_nat n) = 0x08010000 + off + n"
    using assms off unat_add_of_nat [of "CFG_ORIGIN + of_nat off" n] by simp
  then show ?thesis
    using assms off
    by (simp add: cfg_read_def platform_flash_read_def word_less_nat_alt word_le_nat_alt unat_of_nat_u32)
qed

lemma parse_byte_flash [simp]: "cfg_flash (snd (parse_byte a b st)) = cfg_flash st"
  by (auto simp: parse_byte_def parse_value_def Let_def split: sts_t.split prod.split)

lemma parse_data_flash: "cfg_flash (snd (parse_data a bs st)) = cfg_flash st"
proof (induction bs arbitrary: a st)
  case (Cons b bs)
  from parse_byte_flash [of a b st] Cons.IH [of "a + 1" "snd (parse_byte a b st)"] show ?case
    by (cases "parse_byte a b st") (auto simp: and_then_def)
qed simp

text \<open>The chunks of 32 bytes are invisible: the loop parses the stored bytes as one stream.\<close>

definition validate_end :: "cfg_res \<Rightarrow> cfg_res" where
  "validate_end p = (case p of (r, st1) \<Rightarrow>
     if r \<noteq> CONFIG_STS_OK then (r, st1)
     else if prs_sts (cfg_parser st1) \<noteq> PROCESS_FINISH then (CONFIG_STS_PARSER_NOT_FINISHED, st1)
     else (CONFIG_STS_OK, st1\<lparr>config_valid := True\<rparr>))"

lemma validate_loop_stream:
  assumes "off \<le> end_data" "end_data < 0x70000"
  shows "validate_loop off end_data st =
    validate_end (parse_data (CFG_ORIGIN + of_nat off)
      (mem_bytes (flash_mem (cfg_flash st)) (CFG_ORIGIN + of_nat off) (end_data - off)) st)"
  using assms
proof (induction "end_data - off" arbitrary: off st rule: less_induct)
  case less
  define sz where "sz = (if BUFFER_SIZE > end_data - off then end_data - off else BUFFER_SIZE)"
  define m where "m = flash_mem (cfg_flash st)"
  have sz: "sz \<le> end_data - off" "off + sz \<le> end_data" using less.prems(1) by (auto simp: sz_def)
  have rd: "cfg_read st off sz = mem_bytes m (CFG_ORIGIN + of_nat off) sz"
    unfolding m_def by (rule cfg_read_flash) (use sz less.prems in linarith)
  obtain r st1 where p: "parse_data (CFG_ORIGIN + of_nat off) (mem_bytes m (CFG_ORIGIN + of_nat off) sz) st = (r, st1)"
    by (cases "parse_data (CFG_ORIGIN + of_nat off) (mem_bytes m (CFG_ORIGIN + of_nat off) sz) st")
  have fl: "flash_mem (cfg_flash st1) = m"
    using parse_data_flash [of "CFG_ORIGIN + of_nat off" "mem_bytes m (CFG_ORIGIN + of_nat off) sz" st] p
    by (simp add: m_def)
  have split: "mem_bytes m (CFG_ORIGIN + of_nat off) (end_data - off) =
      mem_bytes m (CFG_ORIGIN + of_nat off) sz @ mem_bytes m (CFG_ORIGIN + of_nat (off + sz)) (end_data - (off + sz))"
    using mem_bytes_add [of m "CFG_ORIGIN + of_nat off" sz "end_data - (off + sz)"] sz
    by (simp add: add.assoc)
  have whole: "parse_data (CFG_ORIGIN + of_nat off) (mem_bytes m (CFG_ORIGIN + of_nat off) (end_data - off)) st =
      (if r = CONFIG_STS_OK then parse_data (CFG_ORIGIN + of_nat (off + sz))
         (mem_bytes m (CFG_ORIGIN + of_nat (off + sz)) (end_data - (off + sz))) st1 else (r, st1))"
    unfolding split parse_data_append and_then_def p by (simp add: add.assoc)
  show ?case
  proof (cases "r = CONFIG_STS_OK \<and> off + sz < end_data")
    case True
    have "validate_loop off end_data st = validate_loop (off + sz) end_data st1"
      using True by (subst validate_loop.simps) (simp add: sz_def [symmetric] rd p)
    also have "... = validate_end (parse_data (CFG_ORIGIN + of_nat (off + sz))
        (mem_bytes m (CFG_ORIGIN + of_nat (off + sz)) (end_data - (off + sz))) st1)"
      using less.hyps [of "off + sz" st1] True sz less.prems
      by (simp add: fl sz_def split: if_splits)
    finally show ?thesis using True whole by (simp add: m_def)
  next
    case False
    then have "validate_loop off end_data st = validate_end (r, st1)"
      using sz by (subst validate_loop.simps) (auto simp: sz_def [symmetric] rd p validate_end_def)
    moreover have "off + sz = end_data" if "r = CONFIG_STS_OK" using False that sz by linarith
    ultimately show ?thesis using whole by (auto simp: m_def)
  qed
qed

lemma crc_words:
  assumes "4 + 4 * n < 0x70000"
  shows "fold (\<lambda>i reg. crc32_end dr (cfg_read st (4 + 4 * i) 4) reg) [0..<n] reg =
    crc32_end dr (mem_bytes (flash_mem (cfg_flash st)) (CFG_ORIGIN + 4) (4 * n)) reg"
  using assms
proof (induction n)
  case (Suc n)
  have "mem_bytes (flash_mem (cfg_flash st)) (CFG_ORIGIN + 4) (4 * Suc n) =
     mem_bytes (flash_mem (cfg_flash st)) (CFG_ORIGIN + 4) (4 * n) @
     mem_bytes (flash_mem (cfg_flash st)) (CFG_ORIGIN + of_nat (4 + 4 * n)) 4"
    using mem_bytes_add [of "flash_mem (cfg_flash st)" "CFG_ORIGIN + 4" "4 * n" 4] by (simp add: algebra_simps)
  with Suc show ?case
    using cfg_read_flash [of "4 + 4 * n" 4 st] by (simp add: crc32_end_append)
qed simp

subsection \<open>A stored image is valid\<close>

lemma length_kv_enc: "length (kv_enc kv) = length (fst kv) + 3 + length (snd kv)"
  by (simp add: kv_enc_def)

lemma pad_len_dvd: "4 dvd n + pad_len n"
proof -
  define q r where "q = n div 4" and "r = n mod 4"
  then have n: "n = 4 * q + r" and "r < 4" by simp_all
  then consider "r = 0" | "r = 1" | "r = 2" | "r = 3" by fastforce
  then show ?thesis by cases (simp_all add: n pad_len_def mod_Suc, presburger)
qed

lemma cfg_body_dvd: "4 dvd length (cfg_body kvs)"
  using pad_len_dvd by (simp add: cfg_body_def)

lemma cfg_body_min:
  assumes "list_all kv_ok kvs" "kvs \<noteq> []"
  shows "8 \<le> length (cfg_body kvs)"
proof -
  obtain kv kvs' where k: "kvs = kv # kvs'" using assms(2) by (cases kvs) auto
  with assms(1) have "1 \<le> length (fst kv)" "1 \<le> length (snd kv)"
    by (auto simp: kv_ok_def Suc_le_eq)
  then have "5 \<le> length (cfg_body kvs)"
    by (simp add: k cfg_body_def kvs_enc_def length_kv_enc)
  with cfg_body_dvd [of kvs] show ?thesis by presburger
qed

lemma length_cfg_image: "length (cfg_image dr kvs) = length (cfg_body kvs) + 8"
  by (simp add: cfg_image_def cfg_sized_def)

lemma stored_parts:
  assumes "cfg_stored dr kvs (cfg_flash st)"
  defines "n \<equiv> length (cfg_body kvs)"
  shows "cfg_read st 0 4 = le32 (of_nat n)"
    and "mem_bytes (flash_mem (cfg_flash st)) (CFG_ORIGIN + 4) n = cfg_body kvs"
    and "cfg_read st (4 + n) 4 = le32 (crc32_start dr (cfg_sized kvs))"
    and "4 dvd n" and "8 \<le> n" and "n + 8 \<le> CFG_SIZE"
proof -
  let ?m = "flash_mem (cfg_flash st)"
  from assms(1) have ok: "list_all kv_ok kvs" "kvs \<noteq> []" and sz: "n + 8 \<le> CFG_SIZE"
    and img: "mem_bytes ?m CFG_ORIGIN (n + 8) = cfg_image dr kvs"
    by (auto simp: cfg_stored_def length_cfg_image n_def)
  show "4 dvd n" "8 \<le> n" "n + 8 \<le> CFG_SIZE"
    using cfg_body_dvd cfg_body_min [OF ok] sz by (simp_all add: n_def)
  have "mem_bytes ?m CFG_ORIGIN (4 + (n + 4)) = mem_bytes ?m CFG_ORIGIN 4 @
      mem_bytes ?m (CFG_ORIGIN + 4) n @ mem_bytes ?m (CFG_ORIGIN + of_nat (4 + n)) 4"
    unfolding mem_bytes_add by (simp add: algebra_simps)
  moreover define c where "c = crc32_start dr (cfg_sized kvs)"
  ultimately have "mem_bytes ?m CFG_ORIGIN 4 @ mem_bytes ?m (CFG_ORIGIN + 4) n
      @ mem_bytes ?m (CFG_ORIGIN + of_nat (4 + n)) 4
      = le32 (of_nat n) @ cfg_body kvs @ le32 c"
    using img by (simp add: cfg_image_def c_def [symmetric] n_def add.commute) (simp add: cfg_sized_def)
  then have parts: "mem_bytes ?m CFG_ORIGIN 4 = le32 (of_nat n)" "mem_bytes ?m (CFG_ORIGIN + 4) n = cfg_body kvs"
    "mem_bytes ?m (CFG_ORIGIN + of_nat (4 + n)) 4 = le32 c"
    by (simp_all add: n_def)
  show "cfg_read st 0 4 = le32 (of_nat n)"
    using cfg_read_flash [of 0 4 st] parts(1) by simp
  show "mem_bytes ?m (CFG_ORIGIN + 4) n = cfg_body kvs" by (rule parts(2))
  show "cfg_read st (4 + n) 4 = le32 (crc32_start dr (cfg_sized kvs))"
    using cfg_read_flash [of "4 + n" 4 st] parts(3) sz by (simp add: c_def)
qed

lemma deliver_upd [simp]:
  "deliver kv a (st\<lparr>config_valid := v\<rparr>) = (deliver kv a st)\<lparr>config_valid := v\<rparr>"
  "deliver kv a (st\<lparr>crc_reg := c\<rparr>) = (deliver kv a st)\<lparr>crc_reg := c\<rparr>"
  by (simp_all add: deliver_def split: prod.split)

lemma deliver_all_upd [simp]:
  "deliver_all kvs a (st\<lparr>config_valid := v\<rparr>) = (deliver_all kvs a st)\<lparr>config_valid := v\<rparr>"
  "deliver_all kvs a (st\<lparr>crc_reg := c\<rparr>) = (deliver_all kvs a st)\<lparr>crc_reg := c\<rparr>"
  by (induction kvs arbitrary: a st) simp_all

lemma cfg_read_upd [simp]:
  "cfg_read (st\<lparr>config_valid := v\<rparr>) off n = cfg_read st off n"
  "cfg_read (st\<lparr>crc_reg := c\<rparr>) off n = cfg_read st off n"
  "cfg_read (st\<lparr>cfg_parser := p\<rparr>) off n = cfg_read st off n"
  by (simp_all add: cfg_read_def)

lemma config_crc_calc_upd [simp]:
  "config_crc_calc dr n (st\<lparr>config_valid := v\<rparr>) r = config_crc_calc dr n st r"
  by (simp add: config_crc_calc_def)

lemma and_3_eq_mod: "(w :: u32) AND 3 = w mod 4"
proof -
  have "take_bit 2 w = w AND 3" by (simp add: take_bit_eq_mask mask_eq_exp_minus_1)
  moreover have "take_bit 2 w = w mod 4" by (simp add: take_bit_eq_mod)
  ultimately show ?thesis by simp
qed

lemma config_validate_image:
  assumes "cfg_stored dr kvs (cfg_flash st)"
  shows "config_validate dr st =
    (CONFIG_STS_OK, (deliver_all kvs (CFG_ORIGIN + 4) st)
       \<lparr>crc_reg := crc32_start dr (cfg_sized kvs), cfg_parser := parser_zero, config_valid := True\<rparr>)"
proof -
  let ?n = "length (cfg_body kvs)" and ?m = "flash_mem (cfg_flash st)"
  note parts = stored_parts [OF assms]
  have n: "unat (of_nat ?n :: u32) = ?n" using parts(6) by (intro unat_of_nat_u32) simp
  have mod: "(of_nat ?n :: u32) AND 3 = 0"
    using parts(4) n by (simp add: and_3_eq_mod word_arith_nat_mod)
  have size_ok: "\<not> (of_nat ?n :: u32) < 8" "\<not> (of_nat ?n :: u32) > 4 + of_nat CFG_SIZE + 4"
    using parts(5,6) n by (simp_all add: word_less_nat_alt)
  have dv: "(?n + 3) div 4 = ?n div 4" "4 * (?n div 4) = ?n" using parts(4) by auto
  have crc: "config_crc_calc dr ?n st (crc32_start dr (le32 (of_nat ?n))) = crc32_start dr (cfg_sized kvs)"
    using crc_words [of "?n div 4" dr st] parts(2,6) dv
    by (simp add: config_crc_calc_def cfg_sized_def crc32_start_append)
  have ok: "list_all kv_ok kvs" using assms by (simp add: cfg_stored_def)
  have body: "validate_loop 4 (4 + ?n) (st'\<lparr>cfg_parser := parser_zero\<rparr>) =
      validate_end (CONFIG_STS_OK, (deliver_all kvs (CFG_ORIGIN + 4) st')\<lparr>cfg_parser := parser_zero\<rparr>)"
    if "cfg_flash st' = cfg_flash st" for st'
    using validate_loop_stream [of 4 "4 + ?n" "st'\<lparr>cfg_parser := parser_zero\<rparr>"] parts(2,6)
      parse_body [OF ok] that by simp
  show ?thesis
    using size_ok mod body
    by (simp add: config_validate_def parts(1,3) Let_def n crc config_crc_calc_def [symmetric]
        validate_end_def parser_zero_def)
qed

subsection \<open>Writing as a stream\<close>

text \<open>
  \<open>placed\<close>: the bytes given to the flush routine so far are in the flash up to the write offset, the
  rest waits in the flush buffer; no sector but the configuration sector changed since \<open>fl0\<close>.
\<close>

definition cfg_outside :: "flash_st \<Rightarrow> flash_st \<Rightarrow> bool" where
  "cfg_outside fl0 fl \<longleftrightarrow> desc_ok fl \<and> (\<forall>x. find_sector flash_desc_init x \<noteq> None \<and>
     find_sector flash_desc_init x \<noteq> Some CFG_SECT \<longrightarrow> flash_mem fl x = flash_mem fl0 x)"

definition placed :: "flash_st \<Rightarrow> bytes \<Rightarrow> cfg_st \<Rightarrow> bool" where
  "placed fl0 L st \<longleftrightarrow> cfg_outside fl0 (cfg_flash st) \<and> length (flush_buffer st) < FLUSH_BUFFER_SIZE
     \<and> offset_write_data st \<le> length L \<and> 4 dvd offset_write_data st
     \<and> flush_buffer st = drop (offset_write_data st) L
     \<and> mem_bytes (flash_mem (cfg_flash st)) CFG_ORIGIN (offset_write_data st) = take (offset_write_data st) L
     \<and> (\<forall>i < offset_write_data st. addr_erased (cfg_flash st) (CFG_ORIGIN + of_nat i))"

definition crc_tracks :: "(u32 \<Rightarrow> u32 \<Rightarrow> u32) \<Rightarrow> bytes \<Rightarrow> cfg_st \<Rightarrow> bool" where
  "crc_tracks dr L st \<longleftrightarrow> crc_reg st = crc32_start dr (take (offset_write_data st) L)"

definition cfg_room :: "cfg_st \<Rightarrow> bool" where
  "cfg_room st \<longleftrightarrow> (\<forall>i < CFG_SIZE. offset_write_data st \<le> i \<longrightarrow> writable (cfg_flash st) (CFG_ORIGIN + of_nat i))"

definition same_table :: "cfg_st \<Rightarrow> cfg_st \<Rightarrow> bool" where
  "same_table st st' \<longleftrightarrow> g_device_config st' = g_device_config st \<and> config_valid st' = config_valid st
     \<and> cfg_parser st' = cfg_parser st \<and> not_found st' = not_found st"

lemma cfg_sector:
  assumes "i < CFG_SIZE"
  shows "find_sector flash_desc_init (CFG_ORIGIN + of_nat i) = Some CFG_SECT"
proof -
  have u: "unat (CFG_ORIGIN + of_nat i) = 0x08010000 + i"
    using assms unat_add_of_nat [of CFG_ORIGIN i] by simp
  obtain k where k: "find_sector flash_desc_init (CFG_ORIGIN + of_nat i) = Some k"
    using find_sector_flash [of "CFG_ORIGIN + of_nat i"] u assms
    by (auto simp: word_le_nat_alt word_less_nat_alt)
  have "in_sector (flash_desc_init ! CFG_SECT) (CFG_ORIGIN + of_nat i)"
    using u assms by (simp add: in_sector_def flash_desc_init_def CFG_SECT_def word_le_nat_alt word_less_nat_alt)
  with k show ?thesis
    using find_sector_Some [OF k] in_sector_unique [of k "CFG_ORIGIN + of_nat i" 4] unfolding CFG_SECT_def
    by simp
qed

lemma cfg_addr_inj: "i < 2 ^ 32 \<Longrightarrow> j < 2 ^ 32 \<Longrightarrow> CFG_ORIGIN + of_nat i = CFG_ORIGIN + of_nat j \<longleftrightarrow> i = j"
  by (simp add: of_nat_u32_inj)

lemma flush_byte_keep:
  "\<not> (length (flush_buffer st) + 1 \<ge> FLUSH_BUFFER_SIZE \<or> now) \<Longrightarrow>
   flush_byte dr dev now b st = (CONFIG_STS_OK, st\<lparr>flush_buffer := flush_buffer st @ [b]\<rparr>)"
  by (simp add: flush_byte_def Let_def)

context nor_flash begin

lemma flush_byte_outside:
  assumes "cfg_outside fl0 (cfg_flash st)" "offset_write_data st + length (flush_buffer st) < CFG_SIZE"
  shows "cfg_outside fl0 (cfg_flash (snd (flush_byte dr dev now b st)))"
proof -
  let ?fb = "flush_buffer st @ [b]" and ?a = "CFG_ORIGIN + of_nat (offset_write_data st)"
  have "flash_mem (snd (platform_flash_write dev ?a ?fb (cfg_flash st))) x = flash_mem fl0 x"
    if "find_sector flash_desc_init x \<noteq> None" "find_sector flash_desc_init x \<noteq> Some CFG_SECT" for x
  proof -
    have "find_sector flash_desc_init (?a + of_nat i) = Some CFG_SECT" if "i < length ?fb" for i
      using cfg_sector [of "offset_write_data st + i"] that assms(2) by (simp add: add.assoc)
    with that have "\<forall>i < length ?fb. find_sector flash_desc_init x \<noteq> find_sector flash_desc_init (?a + of_nat i)"
      by metis
    from platform_write_frame [OF _ that(1) this] assms(1) that show ?thesis
      by (simp add: cfg_outside_def)
  qed
  moreover have "desc_ok (snd (platform_flash_write dev ?a ?fb (cfg_flash st)))"
    using assms(1) by (simp add: cfg_outside_def platform_write_desc_ok)
  ultimately show ?thesis
    using assms(1)
    by (cases "platform_flash_write dev ?a ?fb (cfg_flash st)")
      (auto simp: flush_byte_def Let_def cfg_outside_def)
qed

lemma flush_byte_same_table: "same_table st (snd (flush_byte dr dev now b st))"
  by (auto simp: same_table_def flush_byte_def Let_def split: prod.split)

lemma flush_byte_placed:
  assumes "placed fl0 L st" "length L < CFG_SIZE" "now \<longrightarrow> 4 dvd length L + 1"
    and "fst (flush_byte dr dev now b st) = CONFIG_STS_OK"
  shows "placed fl0 (L @ [b]) (snd (flush_byte dr dev now b st))"
    and "crc_tracks dr L st \<Longrightarrow> crc_tracks dr (L @ [b]) (snd (flush_byte dr dev now b st))"
    and "now \<Longrightarrow> flush_buffer (snd (flush_byte dr dev now b st)) = []"
proof -
  let ?o = "offset_write_data st" and ?fb = "flush_buffer st @ [b]"
  let ?a = "CFG_ORIGIN + of_nat ?o" and ?m = "flash_mem (cfg_flash st)"
  have p: "length (flush_buffer st) < FLUSH_BUFFER_SIZE" "?o \<le> length L" "4 dvd ?o"
    "flush_buffer st = drop ?o L" "mem_bytes ?m CFG_ORIGIN ?o = take ?o L"
    "\<forall>i < ?o. addr_erased (cfg_flash st) (CFG_ORIGIN + of_nat i)" "cfg_outside fl0 (cfg_flash st)"
    using assms(1) unfolding placed_def by blast+
  have len: "?o + length (flush_buffer st) = length L" using p(2,4) by simp
  have "placed fl0 (L @ [b]) (snd (flush_byte dr dev now b st)) \<and>
     (crc_tracks dr L st \<longrightarrow> crc_tracks dr (L @ [b]) (snd (flush_byte dr dev now b st))) \<and>
     (now \<longrightarrow> flush_buffer (snd (flush_byte dr dev now b st)) = [])"
  proof (cases "length ?fb \<ge> FLUSH_BUFFER_SIZE \<or> now")
    case False
    then show ?thesis
      using p len by (simp add: flush_byte_keep placed_def crc_tracks_def)
  next
    case True
    obtain r fl where w: "platform_flash_write dev ?a ?fb (cfg_flash st) = (r, fl)"
      by (cases "platform_flash_write dev ?a ?fb (cfg_flash st)")
    have r: "r = 0" using assms(4) True w by (auto simp: flush_byte_def Let_def split: if_splits)
    have st': "snd (flush_byte dr dev now b st) = st\<lparr>flush_buffer := [], offset_write_data := ?o + length ?fb,
        crc_reg := crc32_end dr ?fb (crc_reg st), cfg_flash := fl\<rparr>"
      using True w r by (auto simp: flush_byte_def Let_def)
    have dok: "desc_ok (cfg_flash st)" using p(7) by (simp add: cfg_outside_def)
    have fb32: "length ?fb < 2 ^ 32" using p(1) by simp
    have "fst (platform_flash_write dev ?a ?fb (cfg_flash st)) = 0" using w r by simp
    from platform_write_ok [OF dok fb32 this]
    have ok: "mem_bytes (flash_mem fl) ?a (length ?fb) = ?fb"
      "\<And>i. i < length ?fb \<Longrightarrow> addr_erased fl (?a + of_nat i)"
      "\<And>x. addr_erased (cfg_flash st) x \<Longrightarrow> addr_erased fl x"
      "\<And>x. addr_erased (cfg_flash st) x \<Longrightarrow> (\<And>i. i < length ?fb \<Longrightarrow> x \<noteq> ?a + of_nat i) \<Longrightarrow>
         flash_mem fl x = ?m x"
      unfolding w snd_conv by blast+
    have tot: "?o + length ?fb = length (L @ [b])" using len by simp
    have old: "flash_mem fl (CFG_ORIGIN + of_nat i) = ?m (CFG_ORIGIN + of_nat i)" if "i < ?o" for i
    proof (rule ok(4))
      show "addr_erased (cfg_flash st) (CFG_ORIGIN + of_nat i)" using p(6) that by blast
      show "CFG_ORIGIN + of_nat i \<noteq> ?a + of_nat j" if "j < length ?fb" for j
        using cfg_addr_inj [of i "?o + j"] that \<open>i < ?o\<close> tot assms(2) by (simp add: add.assoc)
    qed
    have mem: "mem_bytes (flash_mem fl) CFG_ORIGIN (?o + length ?fb) = L @ [b]"
    proof -
      have "mem_bytes (flash_mem fl) CFG_ORIGIN ?o = take ?o L"
        using mem_bytes_cong [of ?o "flash_mem fl" CFG_ORIGIN ?m] old p(5) by simp
      then show ?thesis unfolding mem_bytes_add ok(1) by (simp add: p(4))
    qed
    have erased: "addr_erased fl (CFG_ORIGIN + of_nat i)" if "i < ?o + length ?fb" for i
    proof (cases "i < ?o")
      case False
      with that ok(2) [of "i - ?o"] show ?thesis by (simp add: of_nat_diff)
    qed (use p(6) ok(3) in blast)
    have dvd: "4 dvd ?o + length ?fb"
    proof (cases now)
      case False
      with True p(1) have "length ?fb = 32" by simp
      with p(3) show ?thesis by (metis dvd_add dvd_triv_left mult_numeral_left_semiring_numeral
            num_double numeral_Bit0_eq_double)
    qed (use assms(3) tot in simp)
    have out: "cfg_outside fl0 fl"
      using flush_byte_outside [OF p(7), of dr now b] len assms(2) by (simp add: st')
    have crc: "crc32_end dr ?fb (crc_reg st) = crc32_start dr (L @ [b])" if "crc_tracks dr L st"
    proof -
      have "4 dvd length (take ?o L)" using p(2,3) by (simp add: min_absorb2)
      then have "crc32_start dr (take ?o L @ ?fb) = crc32_end dr ?fb (crc32_start dr (take ?o L))"
        by (rule crc32_start_append)
      moreover have "take ?o L @ ?fb = L @ [b]" using p(4) by simp
      ultimately show ?thesis using that by (simp add: crc_tracks_def)
    qed
    show ?thesis
      unfolding st' using mem erased dvd out tot crc by (auto simp: placed_def crc_tracks_def)
  qed
  then show "placed fl0 (L @ [b]) (snd (flush_byte dr dev now b st))"
    and "crc_tracks dr L st \<Longrightarrow> crc_tracks dr (L @ [b]) (snd (flush_byte dr dev now b st))"
    and "now \<Longrightarrow> flush_buffer (snd (flush_byte dr dev now b st)) = []" by blast+
qed

end

context reliable_flash begin

lemma flush_byte_done:
  assumes "placed fl0 L st" "length L < CFG_SIZE" "cfg_room st"
  shows "fst (flush_byte dr dev now b st) = CONFIG_STS_OK"
    and "cfg_room (snd (flush_byte dr dev now b st))"
proof -
  let ?o = "offset_write_data st" and ?fb = "flush_buffer st @ [b]"
  let ?a = "CFG_ORIGIN + of_nat ?o"
  have p: "?o + length (flush_buffer st) = length L" "desc_ok (cfg_flash st)" "length (flush_buffer st) < 32"
    using assms(1) by (auto simp: placed_def cfg_outside_def)
  have wr: "writable (cfg_flash st) (?a + of_nat i)" if "i < length ?fb" for i
    using assms(3) [unfolded cfg_room_def, rule_format, of "?o + i"] that p(1) assms(2)
    by (simp add: add.assoc)
  have len: "length ?fb < 2 ^ 32" using p(3) by simp
  have z: "fst (platform_flash_write dev ?a ?fb (cfg_flash st)) = 0"
    by (rule platform_write_done(1) [OF p(2) _ len]) (use wr in blast)
  have rest: "writable (snd (platform_flash_write dev ?a ?fb (cfg_flash st))) (CFG_ORIGIN + of_nat i)"
    if "i < CFG_SIZE" "?o + length ?fb \<le> i" for i
  proof (rule platform_write_done(2) [OF p(2) _ len])
    show "\<forall>i < length ?fb. writable (cfg_flash st) (?a + of_nat i)" using wr by blast
    show "writable (cfg_flash st) (CFG_ORIGIN + of_nat i)"
      using assms(3) that by (simp add: cfg_room_def)
    show "\<forall>j < length ?fb. CFG_ORIGIN + of_nat i \<noteq> ?a + of_nat j"
      using cfg_addr_inj [of i "?o + _"] that by (auto simp: add.assoc)
  qed
  show "fst (flush_byte dr dev now b st) = CONFIG_STS_OK"
    using z by (auto simp: flush_byte_def Let_def split: prod.split)
  show "cfg_room (snd (flush_byte dr dev now b st))"
    using z rest assms(3) by (auto simp: flush_byte_def Let_def cfg_room_def split: prod.splits)
qed

end


text \<open>A step that puts these bytes into the stream.\<close>

definition emits :: "(u32 \<Rightarrow> u32 \<Rightarrow> u32) \<Rightarrow> flash_st \<Rightarrow> (cfg_st \<Rightarrow> cfg_res) \<Rightarrow> bytes \<Rightarrow> bool" where
  "emits dr fl0 f data \<longleftrightarrow> (\<forall>L st. placed fl0 L st \<and> crc_tracks dr L st \<and> length L + length data \<le> CFG_SIZE \<longrightarrow>
     cfg_outside fl0 (cfg_flash (snd (f st))) \<and> same_table st (snd (f st))
     \<and> (fst (f st) = CONFIG_STS_OK \<longrightarrow> placed fl0 (L @ data) (snd (f st)) \<and> crc_tracks dr (L @ data) (snd (f st))))"

definition emits_done :: "(u32 \<Rightarrow> u32 \<Rightarrow> u32) \<Rightarrow> flash_st \<Rightarrow> (cfg_st \<Rightarrow> cfg_res) \<Rightarrow> bytes \<Rightarrow> bool" where
  "emits_done dr fl0 f data \<longleftrightarrow> (\<forall>L st. placed fl0 L st \<and> crc_tracks dr L st \<and> length L + length data \<le> CFG_SIZE
     \<and> cfg_room st \<longrightarrow> fst (f st) = CONFIG_STS_OK \<and> cfg_room (snd (f st)))"

lemma same_table_refl [simp]: "same_table st st"
  by (simp add: same_table_def)

lemma same_table_trans: "same_table a b \<Longrightarrow> same_table b c \<Longrightarrow> same_table a c"
  by (simp add: same_table_def)

lemma placed_outside: "placed fl0 L st \<Longrightarrow> cfg_outside fl0 (cfg_flash st)"
  by (simp add: placed_def)

lemma emits_return: "emits dr fl0 (\<lambda>st. (CONFIG_STS_OK, st)) []"
  by (auto simp: emits_def dest: placed_outside)

lemma emits_then:
  assumes "emits dr fl0 f a" "emits dr fl0 g b"
  shows "emits dr fl0 (and_then CONFIG_STS_OK f g) (a @ b)"
  unfolding emits_def
proof (intro allI impI, elim conjE)
  fix L st
  assume p: "placed fl0 L st" "crc_tracks dr L st" "length L + length (a @ b) \<le> CFG_SIZE"
  then have "length L + length a \<le> CFG_SIZE" by simp
  with assms(1) p have f: "cfg_outside fl0 (cfg_flash (snd (f st)))" "same_table st (snd (f st))"
    "fst (f st) = CONFIG_STS_OK \<Longrightarrow> placed fl0 (L @ a) (snd (f st)) \<and> crc_tracks dr (L @ a) (snd (f st))"
    unfolding emits_def by blast+
  show "cfg_outside fl0 (cfg_flash (snd (and_then CONFIG_STS_OK f g st)))
     \<and> same_table st (snd (and_then CONFIG_STS_OK f g st))
     \<and> (fst (and_then CONFIG_STS_OK f g st) = CONFIG_STS_OK \<longrightarrow>
          placed fl0 (L @ a @ b) (snd (and_then CONFIG_STS_OK f g st))
          \<and> crc_tracks dr (L @ a @ b) (snd (and_then CONFIG_STS_OK f g st)))"
  proof (cases "fst (f st) = CONFIG_STS_OK")
    case True
    have "length (L @ a) + length b \<le> CFG_SIZE" using p(3) by simp
    with assms(2) f(3) [OF True]
    have "cfg_outside fl0 (cfg_flash (snd (g (snd (f st)))))" "same_table (snd (f st)) (snd (g (snd (f st))))"
      "fst (g (snd (f st))) = CONFIG_STS_OK \<longrightarrow> placed fl0 ((L @ a) @ b) (snd (g (snd (f st))))
        \<and> crc_tracks dr ((L @ a) @ b) (snd (g (snd (f st))))"
      unfolding emits_def by blast+
    then show ?thesis
      using True f(2) same_table_trans by (auto simp: and_then_ok)
  next
    case False
    then show ?thesis using f by (simp add: and_then_err)
  qed
qed

lemma emits_done_then:
  assumes "emits dr fl0 f a" "emits_done dr fl0 f a" "emits_done dr fl0 g b"
  shows "emits_done dr fl0 (and_then CONFIG_STS_OK f g) (a @ b)"
  unfolding emits_done_def
proof (intro allI impI, elim conjE)
  fix L st
  assume p: "placed fl0 L st" "crc_tracks dr L st" "length L + length (a @ b) \<le> CFG_SIZE" "cfg_room st"
  then have "length L + length a \<le> CFG_SIZE" by simp
  with assms(1,2) p have f: "fst (f st) = CONFIG_STS_OK" "cfg_room (snd (f st))"
    "placed fl0 (L @ a) (snd (f st))" "crc_tracks dr (L @ a) (snd (f st))"
    unfolding emits_def emits_done_def by blast+
  have "length (L @ a) + length b \<le> CFG_SIZE" using p(3) by simp
  with assms(3) f(2-4) have "fst (g (snd (f st))) = CONFIG_STS_OK \<and> cfg_room (snd (g (snd (f st))))"
    unfolding emits_done_def by blast
  with f(1) show "fst (and_then CONFIG_STS_OK f g st) = CONFIG_STS_OK
     \<and> cfg_room (snd (and_then CONFIG_STS_OK f g st))"
    by (simp add: and_then_ok)
qed

lemma emits_each:
  assumes "\<And>x. x \<in> set xs \<Longrightarrow> emits dr fl0 (f x) (enc x)"
  shows "emits dr fl0 (each_then CONFIG_STS_OK f xs) (concat (map enc xs))"
  using assms
proof (induction xs)
  case Nil
  then show ?case by (auto simp: emits_def dest: placed_outside)
next
  case (Cons x xs)
  have "each_then CONFIG_STS_OK f (x # xs) = and_then CONFIG_STS_OK (f x) (each_then CONFIG_STS_OK f xs)"
    by (rule ext) simp
  with emits_then [of dr fl0 "f x" "enc x"] Cons show ?case by simp
qed

lemma emits_done_each:
  assumes "\<And>x. x \<in> set xs \<Longrightarrow> emits dr fl0 (f x) (enc x)" "\<And>x. x \<in> set xs \<Longrightarrow> emits_done dr fl0 (f x) (enc x)"
  shows "emits_done dr fl0 (each_then CONFIG_STS_OK f xs) (concat (map enc xs))"
  using assms
proof (induction xs)
  case Nil
  then show ?case by (simp add: emits_done_def)
next
  case (Cons x xs)
  have "each_then CONFIG_STS_OK f (x # xs) = and_then CONFIG_STS_OK (f x) (each_then CONFIG_STS_OK f xs)"
    by (rule ext) simp
  with emits_done_then [of dr fl0 "f x" "enc x"] Cons show ?case by simp
qed

context nor_flash begin

lemma flush_loop_emits:
  assumes "placed fl0 L st" "length L + length data \<le> CFG_SIZE"
    and "fin \<Longrightarrow> 4 dvd length L + length data"
  shows "cfg_outside fl0 (cfg_flash (snd (flush_loop dr dev fin data st)))"
    and "same_table st (snd (flush_loop dr dev fin data st))"
    and "fst (flush_loop dr dev fin data st) = CONFIG_STS_OK \<Longrightarrow>
      placed fl0 (L @ data) (snd (flush_loop dr dev fin data st))
      \<and> (crc_tracks dr L st \<longrightarrow> crc_tracks dr (L @ data) (snd (flush_loop dr dev fin data st)))
      \<and> (fin \<and> data \<noteq> [] \<longrightarrow> flush_buffer (snd (flush_loop dr dev fin data st)) = [])"
proof -
  have "cfg_outside fl0 (cfg_flash (snd (flush_loop dr dev fin data st)))
    \<and> same_table st (snd (flush_loop dr dev fin data st))
    \<and> (fst (flush_loop dr dev fin data st) = CONFIG_STS_OK \<longrightarrow>
      placed fl0 (L @ data) (snd (flush_loop dr dev fin data st))
      \<and> (crc_tracks dr L st \<longrightarrow> crc_tracks dr (L @ data) (snd (flush_loop dr dev fin data st)))
      \<and> (fin \<and> data \<noteq> [] \<longrightarrow> flush_buffer (snd (flush_loop dr dev fin data st)) = []))"
    using assms
  proof (induction data arbitrary: L st)
    case Nil
    then show ?case by (simp add: placed_outside)
  next
    case (Cons b data)
    let ?f = "flush_byte dr dev (data = [] \<and> fin) b"
    have L: "length L < CFG_SIZE" using Cons.prems(2) by simp
    have now: "data = [] \<and> fin \<longrightarrow> 4 dvd length L + 1" using Cons.prems(3) by auto
    have out: "cfg_outside fl0 (cfg_flash (snd (?f st)))"
      using Cons.prems(1) L by (intro flush_byte_outside) (auto simp: placed_def)
    have same: "same_table st (snd (?f st))" by (rule flush_byte_same_table)
    show ?case
    proof (cases "fst (?f st) = CONFIG_STS_OK")
      case True
      note s = flush_byte_placed [OF Cons.prems(1) L now True]
      have "length (L @ [b]) + length data \<le> CFG_SIZE" "fin \<Longrightarrow> 4 dvd length (L @ [b]) + length data"
        using Cons.prems(2,3) by simp_all
      note ih = Cons.IH [OF s(1) this]
      show ?thesis
        using ih True same_table_trans [OF same] s(2,3) by (cases "data = []") (auto simp: and_then_ok)
    next
      case False
      with out same show ?thesis by (simp add: and_then_err)
    qed
  qed
  then show "cfg_outside fl0 (cfg_flash (snd (flush_loop dr dev fin data st)))"
    and "same_table st (snd (flush_loop dr dev fin data st))"
    and "fst (flush_loop dr dev fin data st) = CONFIG_STS_OK \<Longrightarrow>
      placed fl0 (L @ data) (snd (flush_loop dr dev fin data st))
      \<and> (crc_tracks dr L st \<longrightarrow> crc_tracks dr (L @ data) (snd (flush_loop dr dev fin data st)))
      \<and> (fin \<and> data \<noteq> [] \<longrightarrow> flush_buffer (snd (flush_loop dr dev fin data st)) = [])" by blast+
qed

lemma flush_emits: "emits dr fl0 (flush_data_calc_crc dr dev data False) data"
  unfolding emits_def flush_data_calc_crc_def
  using flush_loop_emits [where fin = False] by (auto simp: placed_outside)

lemma write_entry_emits: "emits dr fl0 (write_entry dr dev e)
    (ce_key e @ [0] @ le16 (ce_size e) @ ptr_bytes (ce_data e) (unat (ce_size e)))"
  using emits_then [OF flush_emits emits_then [OF flush_emits flush_emits]]
  unfolding write_entry_def by (metis append.assoc)

lemma write_old_emits: "emits dr fl0 (write_old dr dev (name, sz, data)) (name @ [0] @ le16 sz @ data)"
  using emits_then [OF flush_emits emits_then [OF flush_emits flush_emits]]
  unfolding write_old_def prod.case by (metis append.assoc)

end

context reliable_flash begin

lemma flush_loop_done:
  assumes "placed fl0 L st" "length L + length data \<le> CFG_SIZE"
    and "fin \<Longrightarrow> 4 dvd length L + length data" "cfg_room st"
  shows "fst (flush_loop dr dev fin data st) = CONFIG_STS_OK \<and> cfg_room (snd (flush_loop dr dev fin data st))"
  using assms
proof (induction data arbitrary: L st)
  case (Cons b data)
  let ?f = "flush_byte dr dev (data = [] \<and> fin) b"
  have L: "length L < CFG_SIZE" using Cons.prems(2) by simp
  have now: "data = [] \<and> fin \<longrightarrow> 4 dvd length L + 1" using Cons.prems(3) by auto
  note d = flush_byte_done [OF Cons.prems(1) L Cons.prems(4), of dr "data = [] \<and> fin" b]
  note s = flush_byte_placed [OF Cons.prems(1) L now d(1)]
  have "length (L @ [b]) + length data \<le> CFG_SIZE" "fin \<Longrightarrow> 4 dvd length (L @ [b]) + length data"
    using Cons.prems(2,3) by simp_all
  from Cons.IH [OF s(1) this d(2)] d(1) show ?case
    by (simp add: and_then_ok)
qed simp

lemma flush_done: "emits_done dr fl0 (flush_data_calc_crc dr dev data False) data"
  unfolding emits_done_def flush_data_calc_crc_def
  using flush_loop_done [where fin = False] by (auto simp: placed_def)

lemma write_entry_done: "emits_done dr fl0 (write_entry dr dev e)
    (ce_key e @ [0] @ le16 (ce_size e) @ ptr_bytes (ce_data e) (unat (ce_size e)))"
  using emits_done_then [OF flush_emits flush_done emits_done_then [OF flush_emits flush_done flush_done]]
  unfolding write_entry_def by (metis append.assoc)

lemma write_old_done: "emits_done dr fl0 (write_old dr dev (name, sz, data)) (name @ [0] @ le16 sz @ data)"
  using emits_done_then [OF flush_emits flush_done emits_done_then [OF flush_emits flush_done flush_done]]
  unfolding write_old_def prod.case by (metis append.assoc)

end


subsection \<open>The whole image\<close>

lemma placed_crc_reg [simp]: "placed fl0 L (st\<lparr>crc_reg := c\<rparr>) = placed fl0 L st"
  by (simp add: placed_def)

lemma cfg_room_crc_reg [simp]: "cfg_room (st\<lparr>crc_reg := c\<rparr>) = cfg_room st"
  by (simp add: cfg_room_def)

lemma placed_offset: "placed fl0 L st \<Longrightarrow> offset_write_data st \<le> length L"
  by (simp add: placed_def)

definition entry_enc :: "config_entry \<Rightarrow> bytes" where
  "entry_enc e = ce_key e @ [0] @ le16 (ce_size e) @ ptr_bytes (ce_data e) (unat (ce_size e))"

definition old_enc :: "bytes \<times> u16 \<times> bytes \<Rightarrow> bytes" where
  "old_enc old = (case old of (name, sz, data) \<Rightarrow> name @ [0] @ le16 sz @ data)"

definition image_stream :: "u32 \<Rightarrow> u32 \<Rightarrow> (bytes \<times> u16 \<times> bytes) list \<Rightarrow> config_entry list \<Rightarrow> bytes" where
  "image_stream sz zeros olds es = le32 sz @ concat (map old_enc olds) @ concat (map entry_enc es)
     @ replicate (unat zeros) 0"

definition write_data :: "(u32 \<Rightarrow> u32 \<Rightarrow> u32) \<Rightarrow> flash_dev \<Rightarrow> u32 \<Rightarrow> u32 \<Rightarrow> (bytes \<times> u16 \<times> bytes) list
    \<Rightarrow> config_entry list \<Rightarrow> cfg_st \<Rightarrow> cfg_res" where
  "write_data dr dev sz zeros olds es =
    and_then CONFIG_STS_OK (flush_data_calc_crc dr dev (le32 sz) False)
    (and_then CONFIG_STS_OK (each_then CONFIG_STS_OK (write_old dr dev) olds)
    (and_then CONFIG_STS_OK (each_then CONFIG_STS_OK (write_entry dr dev) es)
      (flush_data_calc_crc dr dev (replicate (unat zeros) 0) False)))"

lemma write_image_split:
  "write_image dr dev sz zeros olds st =
    and_then CONFIG_STS_OK (write_data dr dev sz zeros olds (g_device_config st))
      (and_then CONFIG_STS_OK (write_crc dr dev) (\<lambda>st. (CONFIG_STS_OK, st\<lparr>config_valid := True\<rparr>))) (write_begin st)"
  unfolding write_image_def write_data_def and_then_assoc ..

lemma write_begin_flash [simp]:
  "flash_mem (cfg_flash (write_begin st)) = flash_mem (cfg_flash st)"
  by (simp add: write_begin_def platform_flash_erase_flag_reset_sect_cfg_def)

lemma write_begin_desc:
  assumes "desc_ok (cfg_flash st)"
  shows "desc_ok (cfg_flash (write_begin st))"
    and "i < CFG_SIZE \<Longrightarrow> \<not> addr_erased (cfg_flash (write_begin st)) (CFG_ORIGIN + of_nat i)"
proof -
  have len: "length (flash_desc (cfg_flash st)) = 8" by (rule desc_ok_length [OF assms])
  have "sec_geom ((flash_desc (cfg_flash st) ! 4)\<lparr>sec_erased := False\<rparr>) = map sec_geom flash_desc_init ! 4"
    using desc_ok_nth [OF assms, of 4] by (simp add: sec_geom_def)
  with assms len show "desc_ok (cfg_flash (write_begin st))"
    by (simp add: write_begin_def platform_flash_erase_flag_reset_sect_cfg_def CFG_SECT_def desc_ok_def
        map_update list_update_same_conv)
  show "\<not> addr_erased (cfg_flash (write_begin st)) (CFG_ORIGIN + of_nat i)" if "i < CFG_SIZE"
    using cfg_sector [OF that] len
    by (simp add: addr_erased_def write_begin_def platform_flash_erase_flag_reset_sect_cfg_def CFG_SECT_def)
qed

lemma write_begin_placed:
  assumes "desc_ok (cfg_flash st)"
  shows "placed (cfg_flash st) [] (write_begin st)" "crc_tracks dr [] (write_begin st)" "cfg_room (write_begin st)"
proof -
  show "placed (cfg_flash st) [] (write_begin st)"
    using write_begin_desc(1) [OF assms]
    by (simp add: placed_def cfg_outside_def) (simp add: write_begin_def)
  show "crc_tracks dr [] (write_begin st)"
    by (simp add: crc_tracks_def write_begin_def crc32_start_def)
  show "cfg_room (write_begin st)"
    using write_begin_desc(2) [OF assms] cfg_sector by (simp add: cfg_room_def writable_def)
qed

context nor_flash begin

lemma write_data_emits: "emits dr fl0 (write_data dr dev sz zeros olds es) (image_stream sz zeros olds es)"
proof -
  have o': "emits dr fl0 (each_then CONFIG_STS_OK (write_old dr dev) olds) (concat (map old_enc olds))"
    by (rule emits_each) (auto simp: old_enc_def write_old_emits [simplified])
  have e: "emits dr fl0 (each_then CONFIG_STS_OK (write_entry dr dev) es) (concat (map entry_enc es))"
    by (rule emits_each) (simp add: entry_enc_def write_entry_emits [simplified])
  show ?thesis
    unfolding write_data_def image_stream_def by (intro emits_then flush_emits o' e)
qed

lemma write_crc_placed:
  assumes "placed fl0 L st" "crc_tracks dr L st" "4 dvd length L" "length L + 4 \<le> CFG_SIZE"
  shows "cfg_outside fl0 (cfg_flash (snd (write_crc dr dev st)))"
    and "same_table st (snd (write_crc dr dev st))"
    and "fst (write_crc dr dev st) = CONFIG_STS_OK \<Longrightarrow>
      mem_bytes (flash_mem (cfg_flash (snd (write_crc dr dev st)))) CFG_ORIGIN (length L + 4)
        = L @ le32 (crc32_start dr L)"
proof -
  define c where "c = crc32_start dr L"
  define st1 where "st1 = st\<lparr>crc_reg := c\<rparr>"
  have o': "offset_write_data st \<le> length L" "4 dvd offset_write_data st"
    "flush_buffer st = drop (offset_write_data st) L"
    using assms(1) by (auto simp: placed_def)
  have "4 dvd length (take (offset_write_data st) L)" using o' by (simp add: min_absorb2)
  from crc32_start_append [OF this, of dr "flush_buffer st"] o'(3) assms(2)
  have "crc32_end dr (flush_buffer st) (crc_reg st) = c"
    by (simp add: crc_tracks_def c_def)
  then have w: "write_crc dr dev st = flush_loop dr dev True (le32 c) st1"
    using o'(1) assms(4) by (simp add: write_crc_def flush_data_calc_crc_def Let_def st1_def)
  have p: "placed fl0 L st1" using assms(1) by (simp add: st1_def)
  have l: "length L + length (le32 c) \<le> CFG_SIZE" "True \<Longrightarrow> 4 dvd length L + length (le32 c)"
    using assms(3,4) by simp_all
  note f = flush_loop_emits [where fin = True and dr = dr, OF p l]
  show "cfg_outside fl0 (cfg_flash (snd (write_crc dr dev st)))" unfolding w by (rule f(1))
  show "same_table st (snd (write_crc dr dev st))" using f(2) by (simp add: w same_table_def st1_def)
  show "mem_bytes (flash_mem (cfg_flash (snd (write_crc dr dev st)))) CFG_ORIGIN (length L + 4)
      = L @ le32 (crc32_start dr L)" if "fst (write_crc dr dev st) = CONFIG_STS_OK"
  proof -
    let ?st' = "snd (flush_loop dr dev True (le32 c) st1)"
    from f(3) that have q: "placed fl0 (L @ le32 c) ?st'" "flush_buffer ?st' = []"
      by (auto simp: w le32_def)
    from q have "drop (offset_write_data ?st') (L @ le32 c) = []" unfolding placed_def by metis
    then have "length (L @ le32 c) \<le> offset_write_data ?st'" by (simp only: drop_eq_Nil)
    with placed_offset [OF q(1)] have o2: "offset_write_data ?st' = length (L @ le32 c)" by (rule antisym [OF _ _])
    from q(1) have "mem_bytes (flash_mem (cfg_flash ?st')) CFG_ORIGIN (offset_write_data ?st')
        = take (offset_write_data ?st') (L @ le32 c)" unfolding placed_def by blast
    with o2 show ?thesis by (simp add: w c_def)
  qed
qed

lemma write_image_placed:
  assumes "desc_ok (cfg_flash st)" "4 dvd length L" "length L + 4 \<le> CFG_SIZE"
    and L: "L = image_stream sz zeros olds (g_device_config st)"
  shows "cfg_outside (cfg_flash st) (cfg_flash (snd (write_image dr dev sz zeros olds st)))"
    and "g_device_config (snd (write_image dr dev sz zeros olds st)) = g_device_config st"
    and "fst (write_image dr dev sz zeros olds st) = CONFIG_STS_OK \<Longrightarrow>
      mem_bytes (flash_mem (cfg_flash (snd (write_image dr dev sz zeros olds st)))) CFG_ORIGIN (length L + 4)
        = L @ le32 (crc32_start dr L) \<and> config_valid (snd (write_image dr dev sz zeros olds st))"
    and "fst (write_image dr dev sz zeros olds st) \<noteq> CONFIG_STS_OK \<Longrightarrow>
      config_valid (snd (write_image dr dev sz zeros olds st)) = config_valid st"
proof -
  let ?w = "write_data dr dev sz zeros olds (g_device_config st)" and ?b = "write_begin st"
  have "length [] + length L \<le> CFG_SIZE" using assms(3) by simp
  with write_data_emits [of dr "cfg_flash st" sz zeros olds "g_device_config st"] write_begin_placed [OF assms(1)]
  have d: "cfg_outside (cfg_flash st) (cfg_flash (snd (?w ?b)))" "same_table ?b (snd (?w ?b))"
    "fst (?w ?b) = CONFIG_STS_OK \<Longrightarrow> placed (cfg_flash st) ([] @ L) (snd (?w ?b)) \<and> crc_tracks dr ([] @ L) (snd (?w ?b))"
    unfolding emits_def L by blast+
  have same: "g_device_config ?b = g_device_config st" "config_valid ?b = config_valid st"
    by (simp_all add: write_begin_def)
  show "cfg_outside (cfg_flash st) (cfg_flash (snd (write_image dr dev sz zeros olds st)))"
    "g_device_config (snd (write_image dr dev sz zeros olds st)) = g_device_config st"
    "fst (write_image dr dev sz zeros olds st) = CONFIG_STS_OK \<Longrightarrow>
      mem_bytes (flash_mem (cfg_flash (snd (write_image dr dev sz zeros olds st)))) CFG_ORIGIN (length L + 4)
        = L @ le32 (crc32_start dr L) \<and> config_valid (snd (write_image dr dev sz zeros olds st))"
    "fst (write_image dr dev sz zeros olds st) \<noteq> CONFIG_STS_OK \<Longrightarrow>
      config_valid (snd (write_image dr dev sz zeros olds st)) = config_valid st"
    using d same write_crc_placed [of "cfg_flash st" L "snd (?w ?b)" dr] assms(2,3)
    unfolding write_image_split
    by (auto simp: and_then_def same_table_def split: prod.splits if_splits)
qed

end

context reliable_flash begin

lemma write_data_done: "emits_done dr fl0 (write_data dr dev sz zeros olds es) (image_stream sz zeros olds es)"
proof -
  have o': "emits dr fl0 (each_then CONFIG_STS_OK (write_old dr dev) olds) (concat (map old_enc olds))"
    by (rule emits_each) (auto simp: old_enc_def write_old_emits [simplified])
  have e: "emits dr fl0 (each_then CONFIG_STS_OK (write_entry dr dev) es) (concat (map entry_enc es))"
    by (rule emits_each) (simp add: entry_enc_def write_entry_emits [simplified])
  have od: "emits_done dr fl0 (each_then CONFIG_STS_OK (write_old dr dev) olds) (concat (map old_enc olds))"
    by (rule emits_done_each) (auto simp: old_enc_def write_old_emits [simplified] write_old_done [simplified])
  have ed: "emits_done dr fl0 (each_then CONFIG_STS_OK (write_entry dr dev) es) (concat (map entry_enc es))"
    by (rule emits_done_each) (simp_all add: entry_enc_def write_entry_emits [simplified] write_entry_done [simplified])
  show ?thesis
    unfolding write_data_def image_stream_def
    by (intro emits_done_then emits_then flush_emits flush_done o' e od ed)
qed

lemma write_image_done:
  assumes "desc_ok (cfg_flash st)" "4 dvd length L" "length L + 4 \<le> CFG_SIZE"
    and L: "L = image_stream sz zeros olds (g_device_config st)"
  shows "fst (write_image dr dev sz zeros olds st) = CONFIG_STS_OK"
proof -
  let ?w = "write_data dr dev sz zeros olds (g_device_config st)" and ?b = "write_begin st"
  have "length [] + length L \<le> CFG_SIZE" using assms(3) by simp
  with write_data_emits [of dr "cfg_flash st" sz zeros olds "g_device_config st"]
    write_data_done [of dr "cfg_flash st" sz zeros olds "g_device_config st"] write_begin_placed [OF assms(1)]
  have d: "placed (cfg_flash st) ([] @ L) (snd (?w ?b))" "cfg_room (snd (?w ?b))" "fst (?w ?b) = CONFIG_STS_OK"
    unfolding emits_def emits_done_def L by blast+
  let ?c = "crc32_end dr (flush_buffer (snd (?w ?b))) (crc_reg (snd (?w ?b)))"
  let ?st1 = "(snd (?w ?b))\<lparr>crc_reg := ?c\<rparr>"
  have p: "placed (cfg_flash st) L ?st1" "cfg_room ?st1" using d by simp_all
  have l: "length L + length (le32 ?c) \<le> CFG_SIZE" "True \<Longrightarrow> 4 dvd length L + length (le32 ?c)"
    using assms(2,3) by simp_all
  from flush_loop_done [where fin = True and dr = dr, OF p(1) l p(2)] have "fst (write_crc dr dev (snd (?w ?b))) = CONFIG_STS_OK"
    using placed_offset [OF p(1)] assms(3) by (simp add: write_crc_def flush_data_calc_crc_def Let_def)
  with d(3) show ?thesis
    unfolding write_image_split by (auto simp: and_then_def split: prod.splits)
qed

end

subsection \<open>Entries, sizes and padding\<close>

lemma check_entries_ok: "check_entries es = CONFIG_STS_OK \<Longrightarrow> e \<in> set es \<Longrightarrow> check_entry e = CONFIG_STS_OK"
  by (induction es) (auto split: if_splits)

lemma length_ptr_bytes: "entry_ok e \<Longrightarrow> length (ptr_bytes (ce_data e) (unat (ce_size e))) = unat (ce_size e)"
  by (auto simp: entry_ok_def ptr_bytes_def split: option.splits)

lemma entry_enc_kv: "entry_ok e \<Longrightarrow> entry_enc e = kv_enc (kv_of e)"
  by (simp add: entry_enc_def kv_enc_def kv_of_def length_ptr_bytes)

lemma kv_of_ok:
  assumes "entry_ok e" "check_entry e = CONFIG_STS_OK"
  shows "kv_ok (kv_of e)" "length (ce_key e) \<le> 30"
proof -
  have "unat (ce_size e) < 2 ^ LENGTH(16)" by (rule unsigned_less)
  moreover have "unat (ce_size e) \<noteq> 0" using assms(2) by (auto simp: check_entry_def unat_eq_0 split: if_splits)
  ultimately show "kv_ok (kv_of e)" "length (ce_key e) \<le> 30"
    using assms length_ptr_bytes [OF assms(1)]
    by (auto simp: kv_ok_def kv_of_def check_entry_def entry_ok_def split: if_splits)
qed

lemma entry_size_enc: "entry_ok e \<Longrightarrow> entry_size e = of_nat (length (entry_enc e))"
  by (simp add: entry_size_def entry_enc_def length_ptr_bytes of_nat_unat algebra_simps)

lemma entries_size_enc:
  "list_all entry_ok es \<Longrightarrow> entries_size es = of_nat (length (kvs_enc (map kv_of es)))"
  by (induction es) (simp_all add: entries_size_def entry_size_enc entry_enc_kv kvs_enc_def)

definition old_of :: "kv \<Rightarrow> bytes \<times> u16 \<times> bytes" where
  "old_of kv = (fst kv, of_nat (length (snd kv)), snd kv)"

lemma old_enc_kv: "old_enc (old_of kv) = kv_enc kv"
  by (simp add: old_enc_def old_of_def kv_enc_def)

lemma olds_size_enc:
  "list_all kv_ok kvs \<Longrightarrow> olds_size (map old_of kvs) = of_nat (length (kvs_enc kvs))"
proof (induction kvs)
  case (Cons kv kvs)
  then have "unat (of_nat (length (snd kv)) :: u16) = length (snd kv)"
    by (intro unat_of_nat_u16) (simp add: kv_ok_def)
  then have "(ucast (of_nat (length (snd kv)) :: u16) :: u32) = of_nat (length (snd kv))"
    by (metis of_nat_unat)
  with Cons show ?case
    by (simp add: olds_size_def old_of_def kvs_enc_def length_kv_enc algebra_simps)
qed (simp add: olds_size_def kvs_enc_def)

lemma count_zeros_pad:
  assumes "N + 16 < 2 ^ 32"
  shows "count_zeros (of_nat N) = of_nat (pad_len N)"
proof -
  have e: "8 + (of_nat N :: u32) = of_nat (8 + N)" by simp
  have u: "unat (of_nat (8 + N) :: u32) = 8 + N" using assms by (intro unat_of_nat_u32) simp
  have m: "(of_nat (8 + N) :: u32) mod 4 = of_nat ((8 + N) mod 4)"
    using u by (simp add: word_arith_nat_mod)
  have small: "N mod 4 < 2 ^ 32" by (rule less_trans [of _ 4]) simp_all
  have z: "(of_nat (N mod 4) :: u32) = 0 \<longleftrightarrow> N mod 4 = 0"
    using of_nat_u32_inj [of "N mod 4" 0] small by simp
  have "8 + N = N + 2 * 4" by simp
  then have m8: "(8 + N) mod 4 = N mod 4" by (metis mod_mult_self1)
  show ?thesis
  proof (cases "N mod 4 = 0")
    case True
    then show ?thesis by (simp only: count_zeros_def e and_3_eq_mod m m8) (simp add: pad_len_def)
  next
    case False
    then have "pad_len N = 4 - N mod 4" by (simp add: pad_len_def)
    with False z show ?thesis
      by (simp only: count_zeros_def e and_3_eq_mod m m8) (simp add: of_nat_diff)
  qed
qed

lemma kvs_enc_append [simp]: "kvs_enc (a @ b) = kvs_enc a @ kvs_enc b"
  by (simp add: kvs_enc_def)

lemma kvs_enc_length_bound:
  "list_all entry_ok es \<Longrightarrow> check_entries es = CONFIG_STS_OK \<Longrightarrow>
   length (kvs_enc (map kv_of es)) \<le> 65568 * length es"
proof (induction es)
  case (Cons e es)
  then have ok: "entry_ok e" "check_entry e = CONFIG_STS_OK" by (auto split: if_splits)
  have "length (kv_enc (kv_of e)) \<le> 65568"
    using kv_of_ok [OF ok] by (auto simp: length_kv_enc kv_ok_def kv_of_def)
  with Cons show ?case by (auto simp: kvs_enc_def split: if_splits)
qed (simp add: kvs_enc_def)

text \<open>The stream of a save is the sized body of the merged entries.\<close>

lemma image_stream_sized:
  assumes "list_all entry_ok es" "length (kvs_enc (old @ map kv_of es)) + 16 < 2 ^ 32"
  defines "N \<equiv> length (kvs_enc (old @ map kv_of es))"
  shows "image_stream (of_nat N + count_zeros (of_nat N)) (count_zeros (of_nat N)) (map old_of old) es
    = cfg_sized (old @ map kv_of es)"
proof -
  have "concat (map entry_enc es) = kvs_enc (map kv_of es)"
    using assms(1) by (simp add: kvs_enc_def list_all_iff entry_enc_kv cong: map_cong)
  moreover have "concat (map old_enc (map old_of old)) = kvs_enc old"
    by (simp add: kvs_enc_def old_enc_kv comp_def)
  moreover have "unat (of_nat (pad_len N) :: u32) = pad_len N"
    by (rule unat_of_nat_u32) (rule less_trans [of _ 4], simp_all add: pad_len_def)
  moreover have "length (cfg_body (old @ map kv_of es)) = N + pad_len N"
    by (simp add: cfg_body_def N_def)
  ultimately show ?thesis
    using count_zeros_pad [of N] assms(2)
    by (simp add: image_stream_def cfg_sized_def cfg_body_def N_def)
qed

lemma fits_iff:
  assumes "N + 16 < 2 ^ 32"
  shows "\<not> 4 + ((of_nat N :: u32) + count_zeros (of_nat N)) + 4 > of_nat CFG_SIZE \<longleftrightarrow> N + pad_len N + 8 \<le> CFG_SIZE"
proof -
  have p: "pad_len N < 4" by (simp add: pad_len_def)
  have e: "4 + ((of_nat N :: u32) + count_zeros (of_nat N)) + 4 = of_nat (N + pad_len N + 8)"
    using count_zeros_pad [OF assms] by simp
  have u: "unat (of_nat (N + pad_len N + 8) :: u32) = N + pad_len N + 8"
    using assms p by (intro unat_of_nat_u32) simp
  show ?thesis unfolding e word_less_nat_alt u by (simp add: not_less)
qed

subsection \<open>The walk over the old image\<close>

lemma c_str_drop_append: "0 \<notin> set k \<Longrightarrow> c_str (drop (length pre) (pre @ k @ 0 # r)) = k"
  by simp

lemma old_scan_zeros: "old_scan keys (pre @ replicate n 0) (length pre) = Some []"
proof (induction n arbitrary: pre)
  case (Suc n)
  have "old_scan keys (pre @ replicate (Suc n) 0) (length pre)
      = old_scan keys ((pre @ [0]) @ replicate n 0) (length (pre @ [0]))"
    by (subst old_scan.simps) (simp add: nth_append)
  with Suc.IH [of "pre @ [0]"] show ?case by simp
qed (simp add: old_scan.simps)

lemma old_scan_step:
  assumes "kv_ok kv"
  shows "old_scan keys (pre @ kv_enc kv @ r) (length pre) =
    (if fst kv \<in> set keys then old_scan keys ((pre @ kv_enc kv) @ r) (length (pre @ kv_enc kv))
     else map_option (Cons (old_of kv)) (old_scan keys ((pre @ kv_enc kv) @ r) (length (pre @ kv_enc kv))))"
proof -
  obtain k d where kv: "kv = (k, d)" by (cases kv)
  have ok: "k \<noteq> []" "0 \<notin> set k" "length d < 2 ^ 16" using assms by (auto simp: kv kv_ok_def)
  let ?buf = "pre @ k @ 0 # le16 (of_nat (length d)) @ d @ r"
  have buf: "pre @ kv_enc kv @ r = ?buf" by (simp add: kv kv_enc_def)
  have ne: "?buf ! length pre \<noteq> 0" using ok(1,2) by (cases k) auto
  have cs: "c_str (drop (length pre) ?buf) = k" by (rule c_str_drop_append [OF ok(2)])
  have rd: "rd16 (drop (length pre + length k + 1) ?buf) = of_nat (length d)" by simp
  have dt: "take (length d) (drop (length pre + length k + 1 + 2) ?buf) = d"
    by (simp add: le16_def)
  have u: "unat (of_nat (length d) :: u16) = length d" by (rule unat_of_nat_u16 [OF ok(3)])
  show ?thesis
    unfolding buf
    by (subst old_scan.simps)
      (use ne cs rd dt u in \<open>simp add: Let_def kv kv_enc_def old_of_def add.assoc del: drop_append\<close>)
qed

lemma old_scan_kvs:
  assumes "list_all kv_ok kvs"
  shows "old_scan keys (pre @ kvs_enc kvs @ replicate n 0) (length pre) =
    Some (map old_of (filter (\<lambda>kv. fst kv \<notin> set keys) kvs))"
  using assms
proof (induction kvs arbitrary: pre)
  case Nil
  then show ?case by (simp add: kvs_enc_def old_scan_zeros)
next
  case (Cons kv kvs)
  then have "kv_ok kv" by simp
  with old_scan_step [OF this, of keys pre "kvs_enc kvs @ replicate n 0"] Cons.IH [of "pre @ kv_enc kv"] Cons.prems
  show ?case by (simp add: kvs_enc_def)
qed


subsection \<open>Saving\<close>

definition kept_kvs :: "kv list \<Rightarrow> cfg_st \<Rightarrow> kv list" where
  "kept_kvs old st = (if config_valid st then filter (\<lambda>kv. fst kv \<notin> set (map ce_key (g_device_config st))) old else [])"

definition table_ok :: "config_entry list \<Rightarrow> bool" where
  "table_ok es \<longleftrightarrow> list_all entry_ok es \<and> length es < 2 ^ 15"

lemma cfg_stored_kv_ok: "cfg_stored dr kvs fl \<Longrightarrow> list_all kv_ok kvs"
  by (simp add: cfg_stored_def)

lemma length_kvs_enc_filter: "length (kvs_enc (filter P kvs)) \<le> length (kvs_enc kvs)"
  by (induction kvs) (auto simp: kvs_enc_def)

lemma kept_kvs_ok:
  assumes "config_valid st \<Longrightarrow> cfg_stored dr old (cfg_flash st)"
  shows "list_all kv_ok (kept_kvs old st)" "length (kvs_enc (kept_kvs old st)) \<le> CFG_SIZE"
proof -
  have "list_all kv_ok (kept_kvs old st) \<and> length (kvs_enc (kept_kvs old st)) \<le> CFG_SIZE"
  proof (cases "config_valid st")
    case True
    with assms have s: "list_all kv_ok old" "length (cfg_image dr old) \<le> CFG_SIZE"
      by (simp_all add: cfg_stored_def)
    then have "length (kvs_enc old) \<le> CFG_SIZE" by (simp add: length_cfg_image cfg_body_def)
    with length_kvs_enc_filter [of "\<lambda>kv. fst kv \<notin> set (map ce_key (g_device_config st))" old] s(1) \<open>length (kvs_enc old) \<le> CFG_SIZE\<close>
    show ?thesis using True by (simp add: kept_kvs_def list_all_iff)
  qed (simp add: kept_kvs_def kvs_enc_def)
  then show "list_all kv_ok (kept_kvs old st)" "length (kvs_enc (kept_kvs old st)) \<le> CFG_SIZE" by blast+
qed

text \<open>Both branches of the save, in terms of the merged entries.\<close>

definition write_kvs :: "(u32 \<Rightarrow> u32 \<Rightarrow> u32) \<Rightarrow> flash_dev \<Rightarrow> kv list \<Rightarrow> cfg_st \<Rightarrow> cfg_res" where
  "write_kvs dr dev kept st0 =
    (let st = st0\<lparr>config_valid := False\<rparr>; es = g_device_config st;
         N = length (kvs_enc (kept @ map kv_of es))
     in if check_entries es \<noteq> CONFIG_STS_OK then (check_entries es, st)
        else if N + pad_len N + 8 \<le> CFG_SIZE
        then write_image dr dev (of_nat N + count_zeros (of_nat N)) (count_zeros (of_nat N)) (map old_of kept) st
        else (CONFIG_STS_STORAGE_OUT_OF_BOUNDS, st))"

lemma total_bound:
  assumes "table_ok es" "check_entries es = CONFIG_STS_OK" "length (kvs_enc kept) \<le> CFG_SIZE"
  shows "length (kvs_enc (kept @ map kv_of es)) + 16 < 2 ^ 32"
proof -
  have "list_all entry_ok es" "length es < 2 ^ 15" using assms(1) by (simp_all add: table_ok_def)
  with kvs_enc_length_bound [of es] assms(2,3) show ?thesis by simp
qed

lemma write_fresh_kvs:
  assumes "table_ok (g_device_config st)"
  shows "config_write_fresh dr dev st = write_kvs dr dev [] st"
proof (cases "check_entries (g_device_config st) = CONFIG_STS_OK")
  case True
  define N where "N = length (kvs_enc (map kv_of (g_device_config st)))"
  have N: "N + 16 < 2 ^ 32"
    using total_bound [OF assms True, of "[]"] by (simp add: N_def kvs_enc_def)
  have sz: "entries_size (g_device_config st) = of_nat N"
    unfolding N_def by (rule entries_size_enc) (use assms in \<open>simp add: table_ok_def\<close>)
  have first: "N + pad_len N + 8 \<le> CFG_SIZE \<Longrightarrow> \<not> 4 + 4 + (of_nat N :: u32) > of_nat CFG_SIZE"
  proof -
    assume fit: "N + pad_len N + 8 \<le> CFG_SIZE"
    have u: "unat (of_nat (N + 8) :: u32) = N + 8" using N by (intro unat_of_nat_u32) simp
    have e: "4 + 4 + (of_nat N :: u32) = of_nat (N + 8)" by simp
    show ?thesis unfolding e word_less_nat_alt u using fit by simp
  qed
  show ?thesis
    using fits_iff [OF N] first True
    by (auto simp: config_write_fresh_def write_kvs_def Let_def sz N_def [symmetric])
qed (simp add: config_write_fresh_def write_kvs_def Let_def)

lemma write_merge_kvs:
  assumes "table_ok (g_device_config st)" "config_valid st" "cfg_stored dr old (cfg_flash st)"
  shows "config_write_merge dr dev st = Some (write_kvs dr dev (kept_kvs old st) st)"
proof (cases "check_entries (g_device_config st) = CONFIG_STS_OK")
  case True
  let ?es = "g_device_config st" and ?n = "length (cfg_body old)"
  note parts = stored_parts [OF assms(3)]
  have n: "unat (4 + of_nat ?n :: u32) = 4 + ?n"
  proof -
    have "unat (of_nat (4 + ?n) :: u32) = 4 + ?n" using parts(6) by (intro unat_of_nat_u32) simp
    then show ?thesis by simp
  qed
  have buf: "cfg_read st 0 (4 + ?n) = le32 (of_nat ?n) @ kvs_enc old @ replicate (pad_len (length (kvs_enc old))) 0"
    using cfg_read_flash [of 0 "4 + ?n" st] cfg_read_flash [of 0 4 st] parts(1,2,6)
      mem_bytes_add [of "flash_mem (cfg_flash st)" CFG_ORIGIN 4 ?n]
    by (simp add: cfg_body_def)
  have ok: "list_all kv_ok old" using assms(3) by (simp add: cfg_stored_def)
  have scan: "old_scan (map ce_key ?es) (cfg_read st 0 (4 + ?n)) 4 = Some (map old_of (kept_kvs old st))"
    using old_scan_kvs [OF ok, of "map ce_key ?es" "le32 (of_nat ?n)"] assms(2)
    by (simp add: buf kept_kvs_def)
  define N where "N = length (kvs_enc (kept_kvs old st @ map kv_of ?es))"
  have kept: "list_all kv_ok (kept_kvs old st)" "length (kvs_enc (kept_kvs old st)) \<le> CFG_SIZE"
    using kept_kvs_ok assms(3) by blast+
  have N: "N + 16 < 2 ^ 32"
    unfolding N_def by (rule total_bound [OF assms(1) True kept(2)])
  have sz: "entries_size ?es + olds_size (map old_of (kept_kvs old st)) = of_nat N"
    using entries_size_enc [of ?es] olds_size_enc [OF kept(1)] assms(1) by (simp add: table_ok_def N_def)
  have N_sum: "length (kvs_enc (kept_kvs old st)) + length (kvs_enc (map kv_of ?es)) = N" by (simp add: N_def)
  show ?thesis
    using fits_iff [OF N] True
    by (auto simp: config_write_merge_def write_kvs_def Let_def parts(1) n scan sz N_sum)
qed (simp add: config_write_merge_def write_kvs_def Let_def)

lemma write_storage_kvs:
  assumes "table_ok (g_device_config st)" "config_valid st \<Longrightarrow> cfg_stored dr old (cfg_flash st)"
    "g_device_config st \<noteq> []"
  shows "config_write_storage dr dev st = Some (write_kvs dr dev (kept_kvs old st) st)"
  using assms write_merge_kvs [of st dr old dev] write_fresh_kvs [of st dr dev]
  by (simp add: config_write_storage_def kept_kvs_def)

lemma stream_of_kvs:
  assumes "table_ok es" "check_entries es = CONFIG_STS_OK" "length (kvs_enc kept) \<le> CFG_SIZE"
  defines "N \<equiv> length (kvs_enc (kept @ map kv_of es))"
  assumes "N + pad_len N + 8 \<le> CFG_SIZE"
  shows "image_stream (of_nat N + count_zeros (of_nat N)) (count_zeros (of_nat N)) (map old_of kept) es
      = cfg_sized (kept @ map kv_of es)"
    and "4 dvd length (cfg_sized (kept @ map kv_of es))"
    and "length (cfg_sized (kept @ map kv_of es)) + 4 \<le> CFG_SIZE"
proof -
  show "image_stream (of_nat N + count_zeros (of_nat N)) (count_zeros (of_nat N)) (map old_of kept) es
      = cfg_sized (kept @ map kv_of es)"
    unfolding N_def by (rule image_stream_sized)
      (use assms(1) total_bound [OF assms(1-3)] in \<open>simp_all add: table_ok_def\<close>)
  show "4 dvd length (cfg_sized (kept @ map kv_of es))"
    using cfg_body_dvd by (simp add: cfg_sized_def)
  show "length (cfg_sized (kept @ map kv_of es)) + 4 \<le> CFG_SIZE"
    using assms(5) by (simp add: cfg_sized_def cfg_body_def N_def)
qed

lemma kvs_of_table_ok:
  "table_ok es \<Longrightarrow> check_entries es = CONFIG_STS_OK \<Longrightarrow> list_all kv_ok (map kv_of es)"
  using kv_of_ok(1) check_entries_ok by (auto simp: table_ok_def list_all_iff)

context nor_flash begin

lemma write_kvs_stores:
  assumes "desc_ok (cfg_flash st)" "table_ok (g_device_config st)" "list_all kv_ok kept"
    "length (kvs_enc kept) \<le> CFG_SIZE" "g_device_config st \<noteq> []"
  shows "cfg_outside (cfg_flash st) (cfg_flash (snd (write_kvs dr dev kept st)))"
    and "g_device_config (snd (write_kvs dr dev kept st)) = g_device_config st"
    and "fst (write_kvs dr dev kept st) = CONFIG_STS_OK \<Longrightarrow>
      config_valid (snd (write_kvs dr dev kept st))
      \<and> cfg_stored dr (kept @ map kv_of (g_device_config st)) (cfg_flash (snd (write_kvs dr dev kept st)))"
    and "fst (write_kvs dr dev kept st) \<noteq> CONFIG_STS_OK \<Longrightarrow> \<not> config_valid (snd (write_kvs dr dev kept st))"
proof -
  let ?es = "g_device_config st" and ?st = "st\<lparr>config_valid := False\<rparr>"
  let ?kvs = "kept @ map kv_of ?es"
  define N where "N = length (kvs_enc ?kvs)"
  have refl: "cfg_outside (cfg_flash st) (cfg_flash st)" using assms(1) by (simp add: cfg_outside_def)
  have "cfg_outside (cfg_flash st) (cfg_flash (snd (write_kvs dr dev kept st)))
    \<and> g_device_config (snd (write_kvs dr dev kept st)) = g_device_config st
    \<and> (fst (write_kvs dr dev kept st) = CONFIG_STS_OK \<longrightarrow>
      config_valid (snd (write_kvs dr dev kept st))
      \<and> cfg_stored dr ?kvs (cfg_flash (snd (write_kvs dr dev kept st))))
    \<and> (fst (write_kvs dr dev kept st) \<noteq> CONFIG_STS_OK \<longrightarrow> \<not> config_valid (snd (write_kvs dr dev kept st)))"
  proof (cases "check_entries ?es = CONFIG_STS_OK \<and> N + pad_len N + 8 \<le> CFG_SIZE")
    case False
    then show ?thesis using refl by (auto simp: write_kvs_def Let_def N_def)
  next
    case True
    then have ce: "check_entries ?es = CONFIG_STS_OK" and fit: "N + pad_len N + 8 \<le> CFG_SIZE" by blast+
    let ?w = "write_image dr dev (of_nat N + count_zeros (of_nat N)) (count_zeros (of_nat N)) (map old_of kept) ?st"
    note L = stream_of_kvs [OF assms(2) ce assms(4), folded N_def, OF fit]
    have w: "write_kvs dr dev kept st = ?w"
      using True by (simp add: write_kvs_def Let_def N_def)
    have pre: "desc_ok (cfg_flash ?st)" "cfg_sized ?kvs = image_stream (of_nat N + count_zeros (of_nat N))
        (count_zeros (of_nat N)) (map old_of kept) (g_device_config ?st)"
      using assms(1) L(1) by simp_all
    note p = write_image_placed [OF pre(1) L(2,3) pre(2), of dr]
    have kvs: "list_all kv_ok ?kvs" "?kvs \<noteq> []"
      using assms(3,5) kvs_of_table_ok [OF assms(2) ce] by simp_all
    have len: "length (cfg_image dr ?kvs) = length (cfg_sized ?kvs) + 4" by (simp add: cfg_image_def)
    have "cfg_stored dr ?kvs (cfg_flash (snd ?w)) \<and> config_valid (snd ?w)" if "fst ?w = CONFIG_STS_OK"
      using p(3) [OF that] kvs L(3) unfolding cfg_stored_def len by (simp add: cfg_image_def)
    with p(1,2,4) show ?thesis unfolding w by simp
  qed
  then show "cfg_outside (cfg_flash st) (cfg_flash (snd (write_kvs dr dev kept st)))"
    and "g_device_config (snd (write_kvs dr dev kept st)) = g_device_config st"
    and "fst (write_kvs dr dev kept st) = CONFIG_STS_OK \<Longrightarrow>
      config_valid (snd (write_kvs dr dev kept st))
      \<and> cfg_stored dr (kept @ map kv_of (g_device_config st)) (cfg_flash (snd (write_kvs dr dev kept st)))"
    and "fst (write_kvs dr dev kept st) \<noteq> CONFIG_STS_OK \<Longrightarrow> \<not> config_valid (snd (write_kvs dr dev kept st))"
    by blast+
qed

end

context reliable_flash begin

lemma write_kvs_done:
  assumes "desc_ok (cfg_flash st)" "table_ok (g_device_config st)" "length (kvs_enc kept) \<le> CFG_SIZE"
    "check_entries (g_device_config st) = CONFIG_STS_OK"
    "length (cfg_image dr (kept @ map kv_of (g_device_config st))) \<le> CFG_SIZE"
  shows "fst (write_kvs dr dev kept st) = CONFIG_STS_OK"
proof -
  define N where "N = length (kvs_enc (kept @ map kv_of (g_device_config st)))"
  have fit: "N + pad_len N + 8 \<le> CFG_SIZE"
    using assms(5) by (simp add: length_cfg_image cfg_body_def N_def)
  note L = stream_of_kvs [OF assms(2,4,3), folded N_def, OF fit]
  let ?st = "st\<lparr>config_valid := False\<rparr>" and ?kvs = "kept @ map kv_of (g_device_config st)"
  have pre: "desc_ok (cfg_flash ?st)" "cfg_sized ?kvs = image_stream (of_nat N + count_zeros (of_nat N))
      (count_zeros (of_nat N)) (map old_of kept) (g_device_config ?st)"
    using assms(1) L(1) by simp_all
  from write_image_done [OF pre(1) L(2,3) pre(2), of dr] show ?thesis
    using fit assms(4) by (simp add: write_kvs_def Let_def N_def)
qed

end

subsection \<open>Loading\<close>

definition kv_matches :: "kv \<Rightarrow> config_entry \<Rightarrow> bool" where
  "kv_matches kv e \<longleftrightarrow> fst kv = ce_key e \<and> of_nat (length (snd kv)) = ce_size e"

fun place_addr :: "kv list \<Rightarrow> u32 \<Rightarrow> config_entry \<Rightarrow> config_entry" where
  "place_addr [] a e = e"
| "place_addr (kv # kvs) a e = place_addr kvs (a + of_nat (length (kv_enc kv)))
     (if kv_matches kv e then e\<lparr>data_abs_address := a + of_nat (length (fst kv)) + 3\<rparr> else e)"

lemma locate_no_key: "fst kv \<notin> ce_key ` set es \<Longrightarrow> locate kv a es = (False, es)"
  by (induction es) auto

lemma locate_map:
  "distinct (map ce_key es) \<Longrightarrow>
   snd (locate kv a es) = map (\<lambda>e. if kv_matches kv e then e\<lparr>data_abs_address := a\<rparr> else e) es"
proof (induction es)
  case (Cons e es)
  show ?case
  proof (cases "kv_matches kv e")
    case True
    then have "\<not> kv_matches kv e'" if "e' \<in> set es" for e'
      using Cons.prems that by (auto simp: kv_matches_def)
    then have "map (\<lambda>e. if kv_matches kv e then e\<lparr>data_abs_address := a\<rparr> else e) es = es"
      by (simp add: map_idI)
    with True show ?thesis by (simp add: kv_matches_def)
  next
    case False
    with Cons show ?thesis by (auto simp: kv_matches_def split: prod.split)
  qed
qed simp

lemma place_addr_sel [simp]:
  "ce_key (place_addr kvs a e) = ce_key e" "ce_size (place_addr kvs a e) = ce_size e"
  "ce_data (place_addr kvs a e) = ce_data e"
  by (induction kvs arbitrary: a e) simp_all

lemma deliver_table:
  "distinct (map ce_key (g_device_config st)) \<Longrightarrow>
   g_device_config (deliver kv a st) = map (\<lambda>e. if kv_matches kv e then e\<lparr>data_abs_address := a\<rparr> else e) (g_device_config st)"
  using locate_map [of "g_device_config st" kv a] by (auto simp: deliver_def split: prod.split)

lemma deliver_all_table:
  "distinct (map ce_key (g_device_config st)) \<Longrightarrow>
   g_device_config (deliver_all kvs a st) = map (place_addr kvs a) (g_device_config st)"
proof (induction kvs arbitrary: a st)
  case (Cons kv kvs)
  let ?a = "a + of_nat (length (fst kv)) + 3"
  have k: "map ce_key (g_device_config (deliver kv ?a st)) = map ce_key (g_device_config st)"
    by (simp add: deliver_table [OF Cons.prems])
  have d: "distinct (map ce_key (g_device_config (deliver kv ?a st)))" unfolding k by (rule Cons.prems)
  show ?case by (simp add: Cons.IH [OF d] deliver_table [OF Cons.prems])
qed (simp add: map_idI)

lemma deliver_all_flash [simp]: "cfg_flash (deliver_all kvs a st) = cfg_flash st"
proof (induction kvs arbitrary: a st)
  case (Cons kv kvs)
  have "cfg_flash (deliver kv a' st) = cfg_flash st" for a' by (simp add: deliver_def split: prod.split)
  with Cons show ?case by simp
qed simp

lemma place_addr_none: "\<forall>kv \<in> set kvs. \<not> kv_matches kv e \<Longrightarrow> place_addr kvs a e = e"
  by (induction kvs arbitrary: a) simp_all

lemma place_addr_data:
  assumes "mem_bytes m a (length (kvs_enc kvs)) = kvs_enc kvs" "distinct (map fst kvs)"
    and "kv \<in> set kvs" "kv_matches kv e" "unat a + length (kvs_enc kvs) < 2 ^ 32"
  shows "mem_bytes m (data_abs_address (place_addr kvs a e)) (length (snd kv)) = snd kv
    \<and> unat a + 3 \<le> unat (data_abs_address (place_addr kvs a e))
    \<and> unat (data_abs_address (place_addr kvs a e)) + length (snd kv) \<le> unat a + length (kvs_enc kvs)"
  using assms
proof (induction kvs arbitrary: a e)
  case (Cons kv' kvs)
  let ?a = "a + of_nat (length (kv_enc kv'))"
  have split: "mem_bytes m a (length (kv_enc kv')) = kv_enc kv'" "mem_bytes m ?a (length (kvs_enc kvs)) = kvs_enc kvs"
    using Cons.prems(1) mem_bytes_add [of m a "length (kv_enc kv')" "length (kvs_enc kvs)"]
    by (simp_all add: kvs_enc_def)
  have ua: "unat ?a = unat a + length (kv_enc kv')"
    using Cons.prems(5) by (intro unat_add_of_nat) (simp add: kvs_enc_def)
  show ?case
  proof (cases "kv \<in> set kvs")
    case True
    then have "fst kv \<in> fst ` set kvs" by (rule imageI)
    moreover have "fst kv' \<notin> fst ` set kvs" using Cons.prems(2) by simp
    ultimately have "fst kv \<noteq> fst kv'" by metis
    then have "\<not> kv_matches kv' e" using Cons.prems(4) by (auto simp: kv_matches_def)
    with Cons.IH [OF split(2) _ True Cons.prems(4)] Cons.prems(2,5) ua show ?thesis
      by (simp add: kvs_enc_def)
  next
    case False
    then have kv: "kv' = kv" using Cons.prems(3) by simp
    have no: "\<forall>kv'' \<in> set kvs. \<not> kv_matches kv'' e'" if "ce_key e' = ce_key e" for e'
      using Cons.prems(2,4) that by (force simp: kv kv_matches_def)
    let ?d = "a + of_nat (length (fst kv)) + 3" and ?k = "length (fst kv) + 3"
    have d: "?d = a + of_nat ?k" by simp
    have "mem_bytes m (a + of_nat ?k) (length (snd kv)) = drop ?k (mem_bytes m a (length (kv_enc kv)))"
      using mem_bytes_drop [of ?k "length (kv_enc kv)" m a] by (simp add: length_kv_enc)
    also have "... = snd kv" using split(1) by (simp add: kv) (simp add: kv_enc_def le16_def)
    finally have m: "mem_bytes m ?d (length (snd kv)) = snd kv" unfolding d .
    have u: "unat ?d = unat a + ?k"
      unfolding d using Cons.prems(5) by (intro unat_add_of_nat) (simp add: kv kvs_enc_def length_kv_enc)
    have p: "place_addr (kv' # kvs) a e = e\<lparr>data_abs_address := ?d\<rparr>"
      using Cons.prems(4) no by (simp add: kv place_addr_none)
    show ?thesis
      unfolding p using m u by (simp add: kvs_enc_def kv length_kv_enc)
  qed
qed simp

lemma read_entry_loads:
  assumes "cfg_stored dr kvs fl" "distinct (map fst kvs)" "kv \<in> set kvs" "kv_matches kv e" "ce_data e \<noteq> None"
  shows "ce_data (read_entry fl (place_addr kvs (CFG_ORIGIN + 4) e)) = Some (snd kv)"
proof -
  let ?e = "place_addr kvs (CFG_ORIGIN + 4) e" and ?n = "length (kvs_enc kvs)"
  let ?st = "undefined\<lparr>cfg_flash := fl\<rparr> :: cfg_st"
  have st: "cfg_stored dr kvs (cfg_flash ?st)" using assms(1) by simp
  note parts = stored_parts [OF st]
  have n: "?n \<le> length (cfg_body kvs)" by (simp add: cfg_body_def)
  have "mem_bytes (flash_mem fl) (CFG_ORIGIN + 4) ?n = take ?n (cfg_body kvs)"
    using parts(2) mem_bytes_take [OF n, of "flash_mem fl" "CFG_ORIGIN + 4"] by simp
  then have m: "mem_bytes (flash_mem fl) (CFG_ORIGIN + 4) ?n = kvs_enc kvs" by (simp add: cfg_body_def)
  have "unat (CFG_ORIGIN + 4) + ?n < 2 ^ 32" using n parts(6) by simp
  from place_addr_data [OF m assms(2-4) this]
  have d: "mem_bytes (flash_mem fl) (data_abs_address ?e) (length (snd kv)) = snd kv"
    "0x08010007 \<le> unat (data_abs_address ?e)" "unat (data_abs_address ?e) + length (snd kv) \<le> 0x08010004 + ?n"
    by simp_all
  have kv: "snd kv \<noteq> []" "length (snd kv) < 2 ^ 16"
    using assms(1,3) by (auto simp: cfg_stored_def list_all_iff kv_ok_def)
  have sz: "unat (ce_size e) = length (snd kv)"
    using assms(4) unat_of_nat_u16 [OF kv(2)] by (auto simp: kv_matches_def)
  then have sz0: "ce_size e \<noteq> 0" using kv(1) by auto
  have u: "unat (data_abs_address ?e + ucast (ce_size e)) = unat (data_abs_address ?e) + length (snd kv)"
  proof -
    have "(ucast (ce_size e) :: u32) = of_nat (length (snd kv))" using sz by (metis of_nat_unat)
    moreover have "unat (data_abs_address ?e) + length (snd kv) < 2 ^ 32" using d(3) n parts(6) by simp
    ultimately show ?thesis using unat_add_of_nat by simp
  qed
  have u2: "unat (ucast (ce_size e) :: u32) = length (snd kv)"
  proof -
    have "(ucast (ce_size e) :: u32) = of_nat (length (snd kv))" using sz by (metis of_nat_unat)
    then show ?thesis using kv(2) by (simp add: unat_of_nat_u32)
  qed
  have a0: "data_abs_address ?e \<noteq> 0" using d(2) by auto
  have rng: "\<not> (data_abs_address ?e < FLASH_START \<or> data_abs_address ?e + ucast (ce_size e) \<ge> FLASH_FINISH)"
    using d(2,3) u n parts(6) by (simp add: word_less_nat_alt word_le_nat_alt)
  show ?thesis
    using assms(5) a0 sz0 rng d(1) u2 by (simp add: read_entry_def platform_flash_read_def)
qed


subsection \<open>The accepted format\<close>

text \<open>What the parser accepts: entries with zero bytes anywhere between them.\<close>

inductive cfg_wf :: "bytes \<Rightarrow> bool" where
  cfg_wf_Nil: "cfg_wf []"
| cfg_wf_zero: "cfg_wf bs \<Longrightarrow> cfg_wf (0 # bs)"
| cfg_wf_entry: "kv_ok kv \<Longrightarrow> cfg_wf bs \<Longrightarrow> cfg_wf (kv_enc kv @ bs)"

lemma parse_data_ok_append:
  "parse_data a xs st = (CONFIG_STS_OK, st1) \<Longrightarrow>
   parse_data a (xs @ ys) st = parse_data (a + of_nat (length xs)) ys st1"
  by (simp add: parse_data_append and_then_def)

lemma parse_wf_complete:
  assumes "cfg_wf bs"
  shows "\<exists>st'. parse_data a bs (st\<lparr>cfg_parser := parser_zero\<rparr>) = (CONFIG_STS_OK, st'\<lparr>cfg_parser := parser_zero\<rparr>)"
  using assms
proof (induction arbitrary: a st)
  case (cfg_wf_zero bs)
  then show ?case by (simp add: and_then_def parse_byte_def parser_zero_def)
next
  case (cfg_wf_entry kv bs)
  from cfg_wf_entry.IH show ?case
    by (simp add: parse_data_ok_append [OF parse_entry [OF cfg_wf_entry.hyps(1)]])
qed auto

lemma parse_key_long:
  assumes "0 \<notin> set k" "length done < CONFIG_MAX_KEY_SIZE" "length done + length k \<ge> CONFIG_MAX_KEY_SIZE"
  shows "fst (parse_data a k (st\<lparr>cfg_parser := key_state done\<rparr>)) = CONFIG_STS_KEY_LONG"
  using assms
proof (induction k arbitrary: a "done")
  case (Cons b k)
  show ?case
  proof (cases "length done < CONFIG_MAX_KEY_SIZE - 1")
    case True
    have "parse_byte a b (st\<lparr>cfg_parser := key_state done\<rparr>) = (CONFIG_STS_OK, st\<lparr>cfg_parser := key_state (done @ [b])\<rparr>)"
      using Cons.prems True parse_key_nonzero [of b "done"]
      by (simp add: parse_byte_def key_state_def)
    with Cons.IH [of "done @ [b]"] Cons.prems True show ?thesis by (simp add: and_then_def)
  next
    case False
    then have "fst (parse_byte a b (st\<lparr>cfg_parser := key_state done\<rparr>)) = CONFIG_STS_KEY_LONG"
      using Cons.prems by (simp add: parse_byte_def key_state_def parse_key_def Let_def)
    then show ?thesis by (simp add: and_then_err)
  qed
qed simp

lemma parse_key_zero:
  assumes "0 \<notin> set k" "k \<noteq> []"
  shows "parse_data a k (st\<lparr>cfg_parser := parser_zero\<rparr>) = parse_data a k (st\<lparr>cfg_parser := key_state []\<rparr>)"
  using assms parse_byte_first [of "hd k" a st] by (cases k) (auto simp: and_then_def)

lemma parse_value_stay:
  assumes "length d < unat n" "a + of_nat (length d) + of_nat r = o' + ucast n" "0 < r" "length d + r < 2 ^ 16"
  shows "parse_data a d (st\<lparr>cfg_parser := val_state k n o'\<rparr>) = (CONFIG_STS_OK, st\<lparr>cfg_parser := val_state k n o'\<rparr>)"
  using assms
proof (induction d arbitrary: a)
  case (Cons b d)
  have e: "a + 1 + of_nat (length d) + of_nat r = o' + ucast n" using Cons.prems(2) by (simp add: algebra_simps)
  have "(of_nat (length d + r) :: u32) \<noteq> 0"
    using Cons.prems(3,4) of_nat_u32_inj [of "length d + r" 0] by simp
  then have "o' + ucast n \<noteq> a + 1" unfolding e [symmetric] by (simp add: add.assoc)
  then have "parse_byte a b (st\<lparr>cfg_parser := val_state k n o'\<rparr>) = (CONFIG_STS_OK, st\<lparr>cfg_parser := val_state k n o'\<rparr>)"
    by (simp add: parse_byte_def parse_value_def val_state_def len_state_def Let_def)
  with Cons.IH [OF _ e] Cons.prems show ?case by (simp add: and_then_def)
qed simp

lemma key_state_sts [simp]:
  "prs_sts (key_state k) = PROCESS_KEY" "prs_sts (len_state k) = PROCESS_LENGTH" "prs_sts (val_state k n a) = PROCESS_VALUE"
  "prs_sts parser_zero = PROCESS_FINISH"
  by (simp_all add: key_state_def len_state_def val_state_def parser_zero_def)

lemma le16_bytes: "le16 (word16_of x y) = [x, y]"
proof -
  have "ucast (word16_of x y) = x" by (rule bit_word_eqI) (auto simp: word16_of_def bit_simps)
  moreover have "ucast (drop_bit 8 (word16_of x y)) = y"
    by (rule bit_word_eqI) (auto simp: word16_of_def bit_simps dest: bit_imp_le_length)
  ultimately show ?thesis by (simp add: le16_def)
qed

text \<open>One accepted entry can be split off.\<close>

lemma parse_split_entry:
  assumes p: "parse_data a (b # bs) (st\<lparr>cfg_parser := parser_zero\<rparr>) = (CONFIG_STS_OK, st')"
    and fin: "prs_sts (cfg_parser st') = PROCESS_FINISH" and b: "b \<noteq> 0"
  shows "\<exists>kv r. kv_ok kv \<and> b # bs = kv_enc kv @ r"
proof -
  define k where "k = takeWhile (\<lambda>x. x \<noteq> 0) (b # bs)"
  define r where "r = dropWhile (\<lambda>x. x \<noteq> 0) (b # bs)"
  have kr: "b # bs = k @ r" by (simp add: k_def r_def)
  have k: "k \<noteq> []" using b by (simp add: k_def)
  have k0: "0 \<notin> set k" unfolding k_def using set_takeWhileD by fastforce
  have short: "length k < CONFIG_MAX_KEY_SIZE"
  proof (rule ccontr)
    assume "\<not> length k < CONFIG_MAX_KEY_SIZE"
    then have "fst (parse_data a k (st\<lparr>cfg_parser := parser_zero\<rparr>)) = CONFIG_STS_KEY_LONG"
      using parse_key_zero [OF k0 k] parse_key_long [OF k0, of "[]"] by simp
    then have "fst (parse_data a (k @ r) (st\<lparr>cfg_parser := parser_zero\<rparr>)) = CONFIG_STS_KEY_LONG"
      by (simp add: parse_data_append and_then_err)
    with p show False by (simp add: kr)
  qed
  have pk: "parse_data a k (st\<lparr>cfg_parser := parser_zero\<rparr>) = (CONFIG_STS_OK, st\<lparr>cfg_parser := key_state k\<rparr>)"
    using parse_key_zero [OF k0 k] parse_key_run [OF k0, of "[]"] short by simp
  note p1 = p [unfolded kr parse_data_ok_append [OF pk]]
  have "r \<noteq> []" using p1 fin by auto
  then obtain r1 where r1: "r = 0 # r1"
    unfolding r_def by (metis (mono_tags, lifting) dropWhile_eq_Cons_conv list.exhaust)
  have p2: "parse_data (a + of_nat (length k) + 1) r1 (st\<lparr>cfg_parser := len_state k\<rparr>) = (CONFIG_STS_OK, st')"
    using p1 parse_key_end [OF k short] by (simp add: r1 and_then_def)
  obtain x y r2 where r2: "r1 = x # y # r2"
  proof (cases r1)
    case Nil
    with p2 fin show ?thesis by auto
  next
    case (Cons x t)
    show ?thesis
    proof (cases t)
      case Nil
      with Cons p2 fin show ?thesis
        by (auto simp: and_then_def parse_byte_def parse_length_def len_state_def key_state_def parser_zero_def Let_def)
    qed (use Cons that in blast)
  qed
  define n where "n = word16_of x y"
  have xy: "r1 = le16 n @ r2" by (simp add: r2 n_def le16_bytes)
  have n0: "n \<noteq> 0"
  proof
    assume "n = 0"
    then have "ucast x OR push_bit 8 (ucast y) = (0 :: u16)" by (simp add: n_def word16_of_def)
    with p2 show False
      by (simp add: r2 and_then_def parse_byte_def parse_length_def len_state_def key_state_def parser_zero_def Let_def
          split: prod.splits)
  qed
  have p3: "parse_data (a + of_nat (length k) + 1 + 2) r2
      (st\<lparr>cfg_parser := val_state k n (a + of_nat (length k) + 1 + 2)\<rparr>) = (CONFIG_STS_OK, st')"
    using p2 parse_data_ok_append [OF parse_length_run [OF n0]] by (simp add: xy)
  have n16: "unat n < 2 ^ 16" using unsigned_less [of n] by simp
  have enough: "unat n \<le> length r2"
  proof (rule ccontr)
    assume "\<not> unat n \<le> length r2"
    then have l: "length r2 < unat n" by simp
    have "a' + of_nat (length r2) + of_nat (unat n - length r2) = a' + ucast n" for a' :: u32
      using l by (simp add: of_nat_diff of_nat_unat)
    from parse_value_stay [OF l this] l n16 p3 fin show False by auto
  qed
  define d where "d = take (unat n) r2"
  have d: "length d = unat n" using enough by (simp add: d_def)
  have "kv_ok (k, d)" using k k0 short d n16 n0 by (auto simp: kv_ok_def unat_eq_0)
  moreover have "b # bs = kv_enc (k, d) @ drop (unat n) r2"
    using d by (simp add: kr r1 xy kv_enc_def) (simp add: d_def)
  ultimately show ?thesis by blast
qed

lemma parse_wf_sound:
  assumes "parse_data a bs (st\<lparr>cfg_parser := parser_zero\<rparr>) = (CONFIG_STS_OK, st')"
    "prs_sts (cfg_parser st') = PROCESS_FINISH"
  shows "cfg_wf bs"
  using assms
proof (induction "length bs" arbitrary: a bs st rule: less_induct)
  case less
  show ?case
  proof (cases bs)
    case Nil
    then show ?thesis by (simp add: cfg_wf_Nil)
  next
    case (Cons b t)
    show ?thesis
    proof (cases "b = 0")
      case True
      have "parse_data (a + 1) t (st\<lparr>cfg_parser := parser_zero\<rparr>) = (CONFIG_STS_OK, st')"
        using less.prems(1) by (simp add: Cons True and_then_def parse_byte_def)
      from less.hyps [OF _ this less.prems(2)] show ?thesis by (simp add: Cons True cfg_wf_zero)
    next
      case False
      from parse_split_entry [OF less.prems(1) [unfolded Cons] less.prems(2) False]
      obtain kv r where kv: "kv_ok kv" and bs: "bs = kv_enc kv @ r" unfolding Cons by blast
      let ?a = "a + of_nat (length (kv_enc kv))" and ?s = "deliver kv (a + of_nat (length (fst kv)) + 3) st"
      have "parse_data ?a r (?s\<lparr>cfg_parser := parser_zero\<rparr>) = (CONFIG_STS_OK, st')"
        using less.prems(1) parse_data_ok_append [OF parse_entry [OF kv]] by (simp add: bs)
      from less.hyps [OF _ this less.prems(2)] kv show ?thesis
        by (simp add: bs cfg_wf_entry length_kv_enc)
    qed
  qed
qed

lemma old_scan_wf: "cfg_wf bs \<Longrightarrow> old_scan keys (pre @ bs) (length pre) \<noteq> None"
proof (induction arbitrary: pre rule: cfg_wf.induct)
  case cfg_wf_Nil
  then show ?case by (simp add: old_scan.simps)
next
  case (cfg_wf_zero bs)
  have "old_scan keys (pre @ 0 # bs) (length pre) = old_scan keys ((pre @ [0]) @ bs) (length (pre @ [0]))"
    by (subst old_scan.simps) (simp add: nth_append)
  with cfg_wf_zero.IH [of "pre @ [0]"] show ?case by simp
next
  case (cfg_wf_entry kv bs)
  with old_scan_step [OF cfg_wf_entry.hyps(1), of keys pre bs] cfg_wf_entry.IH [of "pre @ kv_enc kv"]
  show ?case by (simp split: if_splits)
qed

definition cfg_accepts :: "(u32 \<Rightarrow> u32 \<Rightarrow> u32) \<Rightarrow> cfg_st \<Rightarrow> bool" where
  "cfg_accepts dr st \<longleftrightarrow> (let sz = rd32 (cfg_read st 0 4); n = unat sz
     in 8 \<le> n \<and> n \<le> CFG_SIZE + 8 \<and> 4 dvd n
        \<and> rd32 (cfg_read st (4 + n) 4) = crc32_start dr (le32 sz @ cfg_read st 4 n)
        \<and> cfg_wf (cfg_read st 4 n))"

lemma validate_end_parse:
  "fst (validate_end (parse_data a bs (st\<lparr>cfg_parser := parser_zero\<rparr>))) = CONFIG_STS_OK \<longleftrightarrow> cfg_wf bs"
proof
  assume "fst (validate_end (parse_data a bs (st\<lparr>cfg_parser := parser_zero\<rparr>))) = CONFIG_STS_OK"
  then obtain st' where "parse_data a bs (st\<lparr>cfg_parser := parser_zero\<rparr>) = (CONFIG_STS_OK, st')"
    "prs_sts (cfg_parser st') = PROCESS_FINISH"
    by (auto simp: validate_end_def split: prod.splits if_splits)
  then show "cfg_wf bs" by (rule parse_wf_sound)
next
  assume "cfg_wf bs"
  from parse_wf_complete [OF this, of a st]
  show "fst (validate_end (parse_data a bs (st\<lparr>cfg_parser := parser_zero\<rparr>))) = CONFIG_STS_OK"
    by (auto simp: validate_end_def)
qed

lemma size_word_checks:
  "\<not> ((w :: u32) < 8 \<or> w > 4 + of_nat CFG_SIZE + 4 \<or> w AND 3 \<noteq> 0) \<longleftrightarrow> 8 \<le> unat w \<and> unat w \<le> CFG_SIZE + 8 \<and> 4 dvd unat w"
proof -
  have "w AND 3 = 0 \<longleftrightarrow> unat w mod 4 = 0"
  proof -
    have "unat w mod 4 < 2 ^ 32" by (rule less_trans [of _ 4]) simp_all
    then have "unat (of_nat (unat w mod 4) :: u32) = unat w mod 4" by (rule unat_of_nat_u32)
    then show ?thesis unfolding and_3_eq_mod word_arith_nat_mod unat_eq_0 [symmetric] by simp
  qed
  then show ?thesis by (auto simp: word_less_nat_alt not_less dvd_eq_mod_eq_0)
qed

lemma config_validate_accepts: "fst (config_validate dr st) = CONFIG_STS_OK \<longleftrightarrow> cfg_accepts dr st"
proof -
  define sz where "sz = rd32 (cfg_read st 0 4)"
  define n where "n = unat sz"
  show ?thesis
  proof (cases "8 \<le> n \<and> n \<le> CFG_SIZE + 8 \<and> 4 dvd n")
    case False
    then have "\<not> \<not> (sz < 8 \<or> sz > 4 + of_nat CFG_SIZE + 4 \<or> sz AND 3 \<noteq> 0)"
      unfolding n_def size_word_checks [symmetric] by blast
    then have "config_validate dr st = (CONFIG_STS_WRONG_SIZE_CONFIG,
        st\<lparr>config_valid := False, crc_reg := crc32_start dr (le32 sz)\<rparr>)"
      by (simp add: config_validate_def sz_def [symmetric] Let_def)
    moreover have "\<not> cfg_accepts dr st"
      using False by (auto simp: cfg_accepts_def Let_def sz_def [symmetric] n_def [symmetric])
    ultimately show ?thesis by simp
  next
    case True
    then have chk: "\<not> (sz < 8 \<or> sz > 4 + of_nat CFG_SIZE + 4 \<or> sz AND 3 \<noteq> 0)"
      unfolding n_def size_word_checks by blast
    have dv: "(n + 3) div 4 = n div 4" "4 * (n div 4) = n" using True by auto
    have rd: "cfg_read st 4 n = mem_bytes (flash_mem (cfg_flash st)) (CFG_ORIGIN + 4) n"
      using cfg_read_flash [of 4 n st] True by simp
    have crc: "config_crc_calc dr n st (crc32_start dr (le32 sz)) = crc32_start dr (le32 sz @ cfg_read st 4 n)"
      using crc_words [of "n div 4" dr st] True dv
      by (simp add: config_crc_calc_def crc32_start_append rd)
    let ?c = "crc32_start dr (le32 sz @ cfg_read st 4 n)"
    let ?st1 = "st\<lparr>config_valid := False, crc_reg := ?c\<rparr>"
    have v: "config_validate dr st = (if rd32 (cfg_read st (4 + n) 4) \<noteq> ?c then (CONFIG_STS_CRC_INVALID, ?st1)
        else validate_loop 4 (4 + n) (?st1\<lparr>cfg_parser := parser_zero\<rparr>))"
      using chk by (simp add: config_validate_def sz_def [symmetric] n_def [symmetric] Let_def crc)
    have "fst (validate_loop 4 (4 + n) (?st1\<lparr>cfg_parser := parser_zero\<rparr>)) = CONFIG_STS_OK \<longleftrightarrow> cfg_wf (cfg_read st 4 n)"
      using validate_loop_stream [of 4 "4 + n" "?st1\<lparr>cfg_parser := parser_zero\<rparr>"] True
        validate_end_parse [of "CFG_ORIGIN + 4" "cfg_read st 4 n" ?st1]
      by (simp add: rd)
    with True show ?thesis
      by (simp add: v cfg_accepts_def Let_def sz_def [symmetric] n_def [symmetric])
  qed
qed

lemma rd32_word: "length bs = 4 \<Longrightarrow> le32 (rd32 bs) = bs"
proof -
  assume "length bs = 4"
  then obtain a b c d where bs: "bs = [a, b, c, d]"
    by (auto simp: eval_nat_numeral length_Suc_conv)
  have "ucast (word32_of a b c d) = a" "ucast (drop_bit 8 (word32_of a b c d)) = b"
    "ucast (drop_bit 16 (word32_of a b c d)) = c" "ucast (drop_bit 24 (word32_of a b c d)) = d"
    by (rule bit_word_eqI; auto simp: word32_of_def bit_simps dest: bit_imp_le_length)+
  then show ?thesis by (simp add: bs le32_def)
qed

text \<open>After a successful check the save never reads past its copy of the old image.\<close>

lemma accepts_merge_defined:
  assumes "cfg_accepts dr st"
  shows "config_write_merge dr dev st \<noteq> None"
proof -
  define sz where "sz = rd32 (cfg_read st 0 4)"
  define n where "n = unat sz"
  have n: "n \<le> CFG_SIZE + 8" and wf: "cfg_wf (cfg_read st 4 n)"
    using assms by (simp_all add: cfg_accepts_def Let_def sz_def [symmetric] n_def [symmetric])
  have u: "unat (4 + sz) = 4 + n"
    using n unat_add_of_nat [of sz 4] by (simp add: n_def add.commute)
  have "cfg_read st 0 (4 + n) = cfg_read st 0 4 @ cfg_read st 4 n"
    using cfg_read_flash [of 0 "4 + n" st] cfg_read_flash [of 0 4 st] cfg_read_flash [of 4 n st] n
      mem_bytes_add [of "flash_mem (cfg_flash st)" CFG_ORIGIN 4 n] by simp
  moreover have "length (cfg_read st 0 4) = 4" using cfg_read_flash [of 0 4 st] by simp
  ultimately have "old_scan keys (cfg_read st 0 (4 + n)) 4 \<noteq> None" for keys
    using old_scan_wf [OF wf, of keys "cfg_read st 0 4"] by simp
  then obtain olds where "old_scan (map ce_key (g_device_config st)) (cfg_read st 0 (4 + n)) 4 = Some olds" by fast
  then show ?thesis
    by (simp add: config_write_merge_def sz_def [symmetric] Let_def u)
qed

lemma validate_keeps:
  "cfg_flash (snd (config_validate dr st)) = cfg_flash st"
proof -
  have loop: "cfg_flash (snd (validate_loop off e st)) = cfg_flash st" for off e st
  proof (induction "e - off" arbitrary: off st rule: less_induct)
    case less
    show ?case
    proof (subst validate_loop.simps, unfold Let_def, split prod.split, intro allI impI)
      fix r st1
      let ?sz = "if e - off < BUFFER_SIZE then e - off else BUFFER_SIZE"
      assume "parse_data (CFG_ORIGIN + of_nat off) (cfg_read st off ?sz) st = (r, st1)"
      then have fl: "cfg_flash st1 = cfg_flash st"
        using parse_data_flash [of "CFG_ORIGIN + of_nat off" "cfg_read st off ?sz" st] by simp
      have "cfg_flash (snd (validate_loop (off + ?sz) e st1)) = cfg_flash st" if "\<not> off + ?sz \<ge> e"
        using less.hyps [of "off + ?sz" st1] that fl by (auto split: if_splits)
      with fl show "cfg_flash (snd (if r \<noteq> CONFIG_STS_OK then (r, st1)
          else if e \<le> off + ?sz then if prs_sts (cfg_parser st1) \<noteq> PROCESS_FINISH then (CONFIG_STS_PARSER_NOT_FINISHED, st1)
            else (CONFIG_STS_OK, st1\<lparr>config_valid := True\<rparr>)
          else validate_loop (off + ?sz) e st1)) = cfg_flash st"
        by simp
    qed
  qed
  show ?thesis by (simp add: config_validate_def Let_def loop)
qed

text \<open>The parser's indices.\<close>

definition parser_inv :: "parse_struct \<Rightarrow> bool" where
  "parser_inv p \<longleftrightarrow> length (name_buffer p) = CONFIG_MAX_KEY_SIZE \<and> name_buffer_size p \<le> CONFIG_MAX_KEY_SIZE
     \<and> length_size p \<le> 2
     \<and> (prs_sts p = PROCESS_FINISH \<longrightarrow> p = parser_zero)
     \<and> (prs_sts p = PROCESS_KEY \<longrightarrow> name_buffer_size p < CONFIG_MAX_KEY_SIZE)
     \<and> (prs_sts p = PROCESS_KEY \<longrightarrow> length_size p = 0)
     \<and> (prs_sts p = PROCESS_LENGTH \<longrightarrow> length_size p < 2)"

lemma parse_byte_inv:
  assumes "parser_inv (cfg_parser st)" "fst (parse_byte a b st) = CONFIG_STS_OK"
  shows "parser_inv (cfg_parser (snd (parse_byte a b st)))"
proof -
  have z: "parser_inv parser_zero" by (simp add: parser_inv_def parser_zero_def)
  have p: "prs_sts (cfg_parser st) = PROCESS_FINISH \<Longrightarrow> cfg_parser st = parser_zero"
    using assms(1) by (simp add: parser_inv_def)
  show ?thesis
  proof (cases "prs_sts (cfg_parser st)")
    case PROCESS_FINISH
    with assms(2) p z show ?thesis
      by (auto simp: parse_byte_def parse_key_def parser_zero_def Let_def parser_inv_def split: if_splits)
  next
    case PROCESS_VALUE
    with assms(1) z show ?thesis
      by (auto simp: parse_byte_def parse_value_def Let_def split: prod.splits)
  qed (use assms in \<open>auto simp: parse_byte_def parse_key_def parse_length_def Let_def parser_inv_def split: if_splits\<close>)
qed

lemma parse_data_inv:
  "parser_inv (cfg_parser st) \<Longrightarrow> fst (parse_data a bs st) = CONFIG_STS_OK \<Longrightarrow>
   parser_inv (cfg_parser (snd (parse_data a bs st)))"
proof (induction bs arbitrary: a st)
  case (Cons b bs)
  from Cons.prems(2) have "fst (parse_byte a b st) = CONFIG_STS_OK"
    "fst (parse_data (a + 1) bs (snd (parse_byte a b st))) = CONFIG_STS_OK"
    by (simp_all add: and_then_fst_ok)
  with Cons.IH [OF parse_byte_inv [OF Cons.prems(1)]] show ?case by (simp add: and_then_ok)
qed simp

lemma load_entry:
  assumes "cfg_stored dr kvs fl" "distinct (map fst kvs)" "ce_data e \<noteq> None"
  shows "kv \<in> set kvs \<Longrightarrow> kv_matches kv e \<Longrightarrow>
      ce_data (read_entry fl (place_addr kvs (CFG_ORIGIN + 4) e)) = Some (snd kv)"
    and "\<forall>kv \<in> set kvs. \<not> kv_matches kv e \<Longrightarrow> place_addr kvs (CFG_ORIGIN + 4) e = e"
  using read_entry_loads [OF assms(1,2) _ _ assms(3)] place_addr_none by blast+

lemma validate_read_table:
  assumes "cfg_stored dr kvs (cfg_flash st)" "distinct (map ce_key (g_device_config st))"
  shows "g_device_config (config_read_storage (snd (config_validate dr st))) =
    map (\<lambda>e. read_entry (cfg_flash st) (place_addr kvs (CFG_ORIGIN + 4) e)) (g_device_config st)"
  using config_validate_image [OF assms(1)] deliver_all_table [OF assms(2), of kvs "CFG_ORIGIN + 4"]
  by (simp add: config_read_storage_def comp_def)

lemma load_native:
  assumes "cfg_stored dr (kept @ map kv_of es) (cfg_flash rb)" "distinct (map fst (kept @ map kv_of es))"
    "table_ok es" "map ce_key (g_device_config rb) = map ce_key es" "map ce_size (g_device_config rb) = map ce_size es"
    "\<forall>e \<in> set (g_device_config rb). ce_data e \<noteq> None"
  shows "map ce_data (g_device_config (config_read_storage (snd (config_validate dr rb)))) = map (Some \<circ> snd \<circ> kv_of) es"
proof (rule nth_equalityI)
  let ?kvs = "kept @ map kv_of es" and ?t = "g_device_config rb"
  have key: "map fst (map kv_of es) = map ce_key es" by (simp add: kv_of_def)
  have d: "distinct (map ce_key ?t)"
    using assms(2) unfolding map_append distinct_append key assms(4) by blast
  note tab = validate_read_table [OF assms(1) d]
  have len: "length ?t = length es" using assms(4) map_eq_imp_length_eq by blast
  show l: "length (map ce_data (g_device_config (config_read_storage (snd (config_validate dr rb)))))
      = length (map (Some \<circ> snd \<circ> kv_of) es)" using len by (simp add: tab)
  fix i assume "i < length (map ce_data (g_device_config (config_read_storage (snd (config_validate dr rb)))))"
  then have i: "i < length ?t" "i < length es" using l len by simp_all
  have e: "ce_key (?t ! i) = ce_key (es ! i)" "ce_size (?t ! i) = ce_size (es ! i)"
    using i by (metis assms(4) nth_map, metis assms(5) nth_map)
  have "entry_ok (es ! i)" using assms(3) i by (simp add: table_ok_def list_all_length)
  then have m: "kv_matches (kv_of (es ! i)) (?t ! i)"
    using e length_ptr_bytes [of "es ! i"] by (simp add: kv_matches_def kv_of_def)
  have inn: "kv_of (es ! i) \<in> set ?kvs" using i by simp
  have nn: "ce_data (?t ! i) \<noteq> None" using assms(6) i by simp
  show "map ce_data (g_device_config (config_read_storage (snd (config_validate dr rb)))) ! i
      = map (Some \<circ> snd \<circ> kv_of) es ! i"
    using load_entry(1) [OF assms(1,2) nn inn m] i by (simp add: tab)
qed

lemma distinct_kept:
  assumes "distinct (map ce_key (g_device_config st))" "config_valid st \<Longrightarrow> distinct (map fst old)"
  shows "distinct (map fst (kept_kvs old st @ map kv_of (g_device_config st)))"
proof -
  have key: "map fst (map kv_of (g_device_config st)) = map ce_key (g_device_config st)" by (simp add: kv_of_def)
  have "distinct (map fst (kept_kvs old st))"
    using assms(2) by (auto simp: kept_kvs_def distinct_map_filter)
  moreover have "fst ` set (kept_kvs old st) \<inter> set (map ce_key (g_device_config st)) = {}"
    by (auto simp: kept_kvs_def)
  ultimately show ?thesis
    unfolding map_append distinct_append key using assms(1) by (simp add: kv_of_def)
qed

section \<open>An example state\<close>

definition ex_entry :: config_entry where
  "ex_entry = \<lparr>ce_key = [0x6E, 0x61], ce_size = 3, data_abs_address = 0, ce_data = Some [1, 2, 3]\<rparr>"

definition ex_cfg :: cfg_st where
  "ex_cfg = \<lparr>config_valid = False, flush_buffer = [], offset_write_data = 0, crc_reg = 0,
     cfg_parser = parser_zero, g_device_config = [ex_entry], not_found = [], cfg_flash = flash_init\<rparr>"

lemma ex_cfg_sel: "cfg_flash ex_cfg = flash_init" "g_device_config ex_cfg = [ex_entry]" "\<not> config_valid ex_cfg"
  by (simp_all add: ex_cfg_def)

lemma ex_cfg_facts: "desc_ok (cfg_flash ex_cfg)" "table_ok (g_device_config ex_cfg)"
  "check_entries (g_device_config ex_cfg) = CONFIG_STS_OK" "\<not> config_valid ex_cfg" "g_device_config ex_cfg \<noteq> []"
  "distinct (map ce_key (g_device_config ex_cfg))"
  by (simp_all add: ex_cfg_sel desc_ok_flash_init table_ok_def entry_ok_def check_entry_def ex_entry_def)

lemma ex_image_length: "length (cfg_image dr (kept_kvs old ex_cfg @ map kv_of (g_device_config ex_cfg))) \<le> CFG_SIZE"
  by (simp add: length_cfg_image cfg_body_def kvs_enc_def length_kv_enc kept_kvs_def ex_cfg_facts)
    (simp add: ex_cfg_sel ex_entry_def kv_of_def ptr_bytes_def pad_len_def length_kv_enc)

definition ex_saved :: cfg_st where
  "ex_saved = snd (write_kvs sw_crc32_word nor_dev [] ex_cfg)"

lemma ex_saved: "config_write_storage sw_crc32_word nor_dev ex_cfg = Some (CONFIG_STS_OK, ex_saved)"
proof -
  have k: "kept_kvs [] ex_cfg = []" by (simp add: kept_kvs_def)
  have "fst (write_kvs sw_crc32_word nor_dev [] ex_cfg) = CONFIG_STS_OK"
    using ex_image_length [of sw_crc32_word "[]"]
    by (intro nor.write_kvs_done ex_cfg_facts) (simp_all add: k kvs_enc_def)
  moreover have "config_write_storage sw_crc32_word nor_dev ex_cfg = Some (write_kvs sw_crc32_word nor_dev [] ex_cfg)"
    using write_storage_kvs [of ex_cfg sw_crc32_word "[]" nor_dev] ex_cfg_facts by (simp add: k)
  ultimately show ?thesis by (cases "write_kvs sw_crc32_word nor_dev [] ex_cfg") (simp add: ex_saved_def)
qed

lemma ex_saved_table: "g_device_config ex_saved = [ex_entry]"
  using nor.write_kvs_stores(2) [OF ex_cfg_facts(1,2) _ _ ex_cfg_facts(5), of "[]"]
  by (simp add: ex_saved_def kvs_enc_def ex_cfg_sel)

lemma ex_saved_stored: "cfg_stored sw_crc32_word [([0x6E, 0x61], [1, 2, 3])] (cfg_flash ex_saved)" "config_valid ex_saved"
proof -
  have k: "kept_kvs [] ex_cfg = []" by (simp add: kept_kvs_def)
  have o': "fst (write_kvs sw_crc32_word nor_dev [] ex_cfg) = CONFIG_STS_OK"
    using ex_saved write_storage_kvs [of ex_cfg sw_crc32_word "[]" nor_dev] ex_cfg_facts by (simp add: k) (metis fst_conv)
  have kv: "[] @ map kv_of (g_device_config ex_cfg) = [([0x6E, 0x61], [1, 2, 3])]"
    by (simp add: ex_cfg_sel ex_entry_def kv_of_def ptr_bytes_def)
  from nor.write_kvs_stores(3) [OF ex_cfg_facts(1,2) _ _ ex_cfg_facts(5) o']
  show "cfg_stored sw_crc32_word [([0x6E, 0x61], [1, 2, 3])] (cfg_flash ex_saved)" "config_valid ex_saved"
    unfolding kv by (simp_all add: ex_saved_def kvs_enc_def)
qed

section \<open>Properties\<close>

text \<open>C2: a save that reports success left exactly the image of the merged entries in the flash: the
  entries of the table, preceded, when the stored image was valid, by the stored entries whose key the
  table does not have.\<close>

lemma config_write_storage_stores:
  assumes "nor_flash dev" "desc_ok (cfg_flash st)" "table_ok (g_device_config st)"
    and "config_valid st \<Longrightarrow> cfg_stored dr old (cfg_flash st)"
    and "config_write_storage dr dev st = Some (CONFIG_STS_OK, st')"
  shows "config_valid st' \<and> cfg_stored dr (kept_kvs old st @ map kv_of (g_device_config st)) (cfg_flash st')"
proof -
  have ne: "g_device_config st \<noteq> []" using assms(5) by (auto simp: config_write_storage_def)
  have k: "list_all kv_ok (kept_kvs old st)" "length (kvs_enc (kept_kvs old st)) \<le> CFG_SIZE"
    using kept_kvs_ok assms(4) by blast+
  have "write_kvs dr dev (kept_kvs old st) st = (CONFIG_STS_OK, st')"
    using write_storage_kvs [OF assms(3,4) ne] assms(5) by simp
  with nor_flash.write_kvs_stores(3) [OF assms(1-3) k ne, of dr] show ?thesis by simp
qed

lemma config_write_storage_stores_witness:
  "config_valid ex_saved \<and> cfg_stored sw_crc32_word (kept_kvs [] ex_cfg @ map kv_of [ex_entry]) (cfg_flash ex_saved)"
  using config_write_storage_stores [OF nor.nor_flash_axioms ex_cfg_facts(1,2) _ ex_saved] ex_cfg_facts(4)
  by (simp add: ex_cfg_sel)

text \<open>C8: a save is always defined, whatever the flash controller reports, and it changes no flash
  sector but the configuration's; a save that fails leaves the store marked invalid.\<close>

lemma config_write_storage_safe:
  assumes "nor_flash dev" "desc_ok (cfg_flash st)" "table_ok (g_device_config st)"
    and "config_valid st \<Longrightarrow> cfg_stored dr old (cfg_flash st)" "g_device_config st \<noteq> []"
  shows "\<exists>r st'. config_write_storage dr dev st = Some (r, st')
    \<and> cfg_outside (cfg_flash st) (cfg_flash st') \<and> g_device_config st' = g_device_config st
    \<and> (r = CONFIG_STS_OK \<longleftrightarrow> config_valid st')"
proof -
  have k: "list_all kv_ok (kept_kvs old st)" "length (kvs_enc (kept_kvs old st)) \<le> CFG_SIZE"
    using kept_kvs_ok assms(4) by blast+
  from nor_flash.write_kvs_stores [OF assms(1-3) k assms(5), of dr] write_storage_kvs [OF assms(3-5)]
  show ?thesis by (cases "write_kvs dr dev (kept_kvs old st) st") auto
qed

lemma config_write_storage_safe_witness:
  "\<exists>r st'. config_write_storage sw_crc32_word nor_dev ex_cfg = Some (r, st')
    \<and> cfg_outside flash_init (cfg_flash st') \<and> g_device_config st' = [ex_entry]
    \<and> (r = CONFIG_STS_OK \<longleftrightarrow> config_valid st')"
  using config_write_storage_safe [OF nor.nor_flash_axioms ex_cfg_facts(1,2) _ ex_cfg_facts(5), of sw_crc32_word] ex_cfg_facts(4)
  by (simp add: ex_cfg_sel)

text \<open>On a flash whose operations complete, a save of a table that passes the entry checks and fits
  the configuration area reports success.\<close>

lemma config_write_storage_succeeds:
  assumes "reliable_flash dev" "desc_ok (cfg_flash st)" "table_ok (g_device_config st)"
    and "config_valid st \<Longrightarrow> cfg_stored dr old (cfg_flash st)" "g_device_config st \<noteq> []"
    and "check_entries (g_device_config st) = CONFIG_STS_OK"
    and "length (cfg_image dr (kept_kvs old st @ map kv_of (g_device_config st))) \<le> CFG_SIZE"
  shows "\<exists>st'. config_write_storage dr dev st = Some (CONFIG_STS_OK, st')"
proof -
  have "length (kvs_enc (kept_kvs old st)) \<le> CFG_SIZE" using kept_kvs_ok assms(4) by blast
  from reliable_flash.write_kvs_done [OF assms(1-3) this assms(6,7)] write_storage_kvs [OF assms(3-5)]
  show ?thesis by (cases "write_kvs dr dev (kept_kvs old st) st") auto
qed

lemma config_write_storage_succeeds_witness:
  "\<exists>st'. config_write_storage sw_crc32_word nor_dev ex_cfg = Some (CONFIG_STS_OK, st')"
  by (rule config_write_storage_succeeds [OF nor.reliable_flash_axioms ex_cfg_facts(1,2) _ ex_cfg_facts(5,3) ex_image_length])
    (use ex_cfg_facts(4) in blast)

text \<open>Saving, restarting and loading.\<close>

lemma config_save_load:
  assumes "nor_flash dev" "desc_ok (cfg_flash st)" "table_ok (g_device_config st)"
    and "config_valid st \<Longrightarrow> cfg_stored dr old (cfg_flash st) \<and> distinct (map fst old)"
    and "distinct (map ce_key (g_device_config st))"
    and "config_write_storage dr dev st = Some (CONFIG_STS_OK, st')"
    and "cfg_flash rb = cfg_flash st'" "map ce_key (g_device_config rb) = map ce_key (g_device_config st)"
      "map ce_size (g_device_config rb) = map ce_size (g_device_config st)"
      "\<forall>e \<in> set (g_device_config rb). ce_data e \<noteq> None"
  shows "fst (config_validate dr rb) = CONFIG_STS_OK
    \<and> map ce_data (g_device_config (config_read_storage (snd (config_validate dr rb))))
      = map (Some \<circ> snd \<circ> kv_of) (g_device_config st)"
proof -
  have ne: "g_device_config st \<noteq> []" using assms(6) by (auto simp: config_write_storage_def)
  have k: "list_all kv_ok (kept_kvs old st)" "length (kvs_enc (kept_kvs old st)) \<le> CFG_SIZE"
    using kept_kvs_ok assms(4) by blast+
  have "config_valid st \<Longrightarrow> cfg_stored dr old (cfg_flash st)" using assms(4) by blast
  from write_storage_kvs [OF assms(3) this ne] assms(6)
  have "write_kvs dr dev (kept_kvs old st) st = (CONFIG_STS_OK, st')" by simp
  with nor_flash.write_kvs_stores(3) [OF assms(1-3) k ne, of dr] assms(7)
  have s: "cfg_stored dr (kept_kvs old st @ map kv_of (g_device_config st)) (cfg_flash rb)" by simp
  have d: "distinct (map fst (kept_kvs old st @ map kv_of (g_device_config st)))"
    using distinct_kept [OF assms(5)] assms(4) by blast
  show ?thesis
    using config_validate_image [OF s] load_native [OF s d assms(3,8-10)] by simp
qed

text \<open>C1: what was saved is what is loaded after a restart: validation accepts the stored image and
  loading gives every variable the value the save wrote, also when other entries were kept.\<close>

lemma config_round_trip:
  assumes "nor_flash dev" "desc_ok (cfg_flash st)" "table_ok (g_device_config st)"
    and "config_valid st \<Longrightarrow> cfg_stored dr old (cfg_flash st) \<and> distinct (map fst old)"
    and "distinct (map ce_key (g_device_config st))"
    and "config_write_storage dr dev st = Some (CONFIG_STS_OK, st')"
    and "cfg_flash rb = cfg_flash st'" "map ce_key (g_device_config rb) = map ce_key (g_device_config st)"
      "map ce_size (g_device_config rb) = map ce_size (g_device_config st)"
      "\<forall>e \<in> set (g_device_config rb). ce_data e \<noteq> None"
  shows "fst (config_validate dr rb) = CONFIG_STS_OK
    \<and> map ce_data (g_device_config (config_read_storage (snd (config_validate dr rb))))
      = map (Some \<circ> snd \<circ> kv_of) (g_device_config st)"
  by (rule config_save_load [OF assms])

lemma config_round_trip_witness:
  "map ce_data (g_device_config (config_read_storage (snd (config_validate sw_crc32_word ex_saved)))) = [Some [1, 2, 3]]"
proof -
  note g = ex_saved_table
  have "\<forall>e \<in> set (g_device_config ex_saved). ce_data e \<noteq> None" by (simp add: g ex_entry_def)
  from config_round_trip [OF nor.nor_flash_axioms ex_cfg_facts(1,2) _ ex_cfg_facts(6) ex_saved refl _ _ this]
  show ?thesis using ex_cfg_facts(4) by (simp add: g ex_cfg_sel) (simp add: ex_entry_def kv_of_def ptr_bytes_def)
qed

text \<open>A stored image is read by every firmware alike: validation accepts it, an entry of any table
  with distinct keys that has a stored key and length is loaded with the stored data, and an entry the
  image does not have keeps its value.\<close>

lemma config_load_stored:
  assumes "cfg_stored dr kvs (cfg_flash st)" "distinct (map fst kvs)" "distinct (map ce_key (g_device_config st))"
    and "i < length (g_device_config st)" "ce_data (g_device_config st ! i) \<noteq> None"
    and "data_abs_address (g_device_config st ! i) = 0"
  shows "fst (config_validate dr st) = CONFIG_STS_OK
    \<and> ce_data (g_device_config (config_read_storage (snd (config_validate dr st))) ! i) =
      (case find (\<lambda>kv. kv_matches kv (g_device_config st ! i)) kvs of
         Some kv \<Rightarrow> Some (snd kv) | None \<Rightarrow> ce_data (g_device_config st ! i))"
proof -
  let ?e = "g_device_config st ! i"
  have t: "g_device_config (config_read_storage (snd (config_validate dr st))) ! i =
      read_entry (cfg_flash st) (place_addr kvs (CFG_ORIGIN + 4) ?e)"
    using validate_read_table [OF assms(1,3)] assms(4) by simp
  have "ce_data (read_entry (cfg_flash st) (place_addr kvs (CFG_ORIGIN + 4) ?e)) =
      (case find (\<lambda>kv. kv_matches kv ?e) kvs of Some kv \<Rightarrow> Some (snd kv) | None \<Rightarrow> ce_data ?e)"
  proof (cases "find (\<lambda>kv. kv_matches kv ?e) kvs")
    case None
    then have "\<forall>kv \<in> set kvs. \<not> kv_matches kv ?e" unfolding find_None_iff by blast
    from load_entry(2) [OF assms(1,2,5) this] show ?thesis using None assms(6) by (simp add: read_entry_def)
  next
    case (Some kv)
    then have "kv \<in> set kvs" "kv_matches kv ?e" by (auto simp: find_Some_iff)
    from load_entry(1) [OF assms(1,2,5) this] show ?thesis using Some by simp
  qed
  with t show ?thesis using config_validate_image [OF assms(1)] by simp
qed

lemma config_load_stored_witness:
  "ce_data (g_device_config (config_read_storage (snd (config_validate sw_crc32_word
     (ex_saved\<lparr>g_device_config := [ex_entry\<lparr>ce_data := Some [9, 9, 9]\<rparr>]\<rparr>)))) ! 0) = Some [1, 2, 3]"
proof -
  have s: "cfg_stored sw_crc32_word [([0x6E, 0x61], [1, 2, 3])]
      (cfg_flash (ex_saved\<lparr>g_device_config := [ex_entry\<lparr>ce_data := Some [9, 9, 9]\<rparr>]\<rparr>))"
    using ex_saved_stored(1) by simp
  from config_load_stored [OF s, of 0] show ?thesis by (simp add: ex_entry_def kv_matches_def)
qed

text \<open>C29: \<open>config_validate\<close> accepts exactly the images whose size field is in range and a multiple of
  four, whose CRC is right and whose body is a sequence of entries with zero bytes between them.\<close>

lemma config_validate_exact:
  "fst (config_validate dr st) = CONFIG_STS_OK \<longleftrightarrow> cfg_accepts dr st"
  by (rule config_validate_accepts)

text \<open>Once validation accepted the flash, a later save never reads past its copy of the stored
  image, whatever the table and the rest of the state.\<close>

lemma config_save_defined:
  assumes "fst (config_validate dr st) = CONFIG_STS_OK" "cfg_flash st' = cfg_flash st"
  shows "config_write_storage dr dev st' \<noteq> None"
proof -
  have "cfg_accepts dr st" using assms(1) config_validate_accepts by blast
  then have "cfg_accepts dr st'" using assms(2) by (simp add: cfg_accepts_def cfg_read_def)
  from accepts_merge_defined [OF this] show ?thesis by (simp add: config_write_storage_def)
qed

lemma config_save_defined_witness:
  "config_write_storage sw_crc32_word nor_dev (ex_saved\<lparr>g_device_config := [ex_entry, ex_entry]\<rparr>) \<noteq> None"
proof -
  have "fst (config_validate sw_crc32_word ex_saved) = CONFIG_STS_OK"
    by (simp add: config_validate_image [OF ex_saved_stored(1)])
  from config_save_defined [OF this, of "ex_saved\<lparr>g_device_config := [ex_entry, ex_entry]\<rparr>"] show ?thesis by simp
qed

text \<open>For every input the parser's writes stay inside its buffers: while it accepts bytes, the
  key buffer keeps its 32 bytes, the next key index is below 32 and at most two length bytes are taken.\<close>

lemma parse_data_in_bounds:
  assumes "fst (parse_data addr bs (st\<lparr>cfg_parser := parser_zero\<rparr>)) = CONFIG_STS_OK"
  shows "parser_inv (cfg_parser (snd (parse_data addr bs (st\<lparr>cfg_parser := parser_zero\<rparr>))))"
proof -
  have "parser_inv (cfg_parser (st\<lparr>cfg_parser := parser_zero\<rparr>))" by (simp add: parser_inv_def parser_zero_def)
  then show ?thesis by (rule parse_data_inv [OF _ assms])
qed

lemma parse_data_in_bounds_witness:
  "parser_inv (cfg_parser (snd (parse_data 0x08010004 [0x61, 0x62] (ex_cfg\<lparr>cfg_parser := parser_zero\<rparr>))))"
  by (rule parse_data_in_bounds)
    (simp add: and_then_def parse_byte_def parse_key_def parser_zero_def Let_def)

end
