(* ===== verification/Co_App.thy ===== *)
theory Co_App
  imports Fw_Header Config_System Can_Driver C_Text
begin

text \<open>
  What the gateway hangs into CANopenNode: the LSS callbacks (common/canopendriver/lss_cb.c), storing and
  restoring the parameters through objects 0x1010 and 0x1011 (common/canopendriver/CO_driver_storage.c),
  the identity strings and the history of emergency messages (common/canopendriver/CO_driver_app.c).
\<close>

section \<open>LSS callbacks\<close>

text \<open>Times are in microseconds; \<open>None\<close> is a wait for the peripheral that does not end.\<close>

record lss_cb_obj =
  lss_br_set_delay_counter :: u32
  lss_can :: can_dev
  pendingBitRate :: u16
  lss_stay_in_boot :: bool

definition set_br :: "(can_dev \<Rightarrow> can_dev) \<Rightarrow> lss_cb_obj \<Rightarrow> lss_cb_obj option" where
  "set_br hw ob =
    Option.bind (can_drv_enter_init_mode hw (lss_can ob)) (\<lambda>d1.
    case can_drv_check_set_bitrate (uint (pendingBitRate ob) * 1000) True d1 of (_, d2) \<Rightarrow>
    Option.bind (can_drv_leave_init_mode hw d2) (\<lambda>d3. Some (ob\<lparr>lss_can := d3\<rparr>)))"

definition lss_check_br :: "u16 \<Rightarrow> lss_cb_obj \<Rightarrow> bool \<times> lss_cb_obj" where
  "lss_check_br bitRate ob =
    (let ob1 = ob\<lparr>lss_stay_in_boot := True\<rparr>
     in if bitRate = 0 then (False, ob1)
        else case can_drv_check_set_bitrate (uint bitRate * 1000) False (lss_can ob1) of
          (r, d) \<Rightarrow> (r = uint bitRate * 1000, ob1\<lparr>lss_can := d\<rparr>))"

definition lss_activate_br :: "(can_dev \<Rightarrow> can_dev) \<Rightarrow> u16 \<Rightarrow> lss_cb_obj \<Rightarrow> lss_cb_obj option" where
  "lss_activate_br hw switch_delay_ms ob =
    (let ob1 = ob\<lparr>lss_stay_in_boot := True\<rparr>
     in if switch_delay_ms \<noteq> 0 then set_br hw ob1
        else Some (ob1\<lparr>lss_br_set_delay_counter := ucast switch_delay_ms * 1000\<rparr>))"

text \<open>The table is the configuration store's; the outer \<open>None\<close> is its undefined behaviour.\<close>

definition lss_store_cfg :: "(u32 \<Rightarrow> u32 \<Rightarrow> u32) \<Rightarrow> flash_dev \<Rightarrow> lss_cb_obj \<Rightarrow> cfg_st \<Rightarrow> (bool \<times> lss_cb_obj \<times> cfg_st) option" where
  "lss_store_cfg dr dev ob cfg =
    Option.bind (config_write_storage dr dev cfg) (\<lambda>(err, cfg').
      Some (err = CONFIG_STS_OK, ob\<lparr>lss_stay_in_boot := True\<rparr>, cfg'))"

definition lss_cb_poll :: "(can_dev \<Rightarrow> can_dev) \<Rightarrow> u32 \<Rightarrow> lss_cb_obj \<Rightarrow> lss_cb_obj option" where
  "lss_cb_poll hw diff_us ob =
    (if lss_br_set_delay_counter ob \<noteq> 0
     then if lss_br_set_delay_counter ob \<le> diff_us then set_br hw (ob\<lparr>lss_br_set_delay_counter := 0\<rparr>)
          else Some (ob\<lparr>lss_br_set_delay_counter := lss_br_set_delay_counter ob - diff_us\<rparr>)
     else Some ob)"

section \<open>Parameter storage\<close>

datatype odr = ODR_OK | ODR_DEV_INCOMPAT | ODR_READONLY | ODR_NO_DATA | ODR_GENERAL

record co_store =
  cs_cfg :: cfg_st
  cfg_init_err_code :: config_sts

abbreviation PARAM_STORE_PASSWORD :: u32 where "PARAM_STORE_PASSWORD \<equiv> 0x73617665"
abbreviation PARAM_RESTORE_PASSWORD :: u32 where "PARAM_RESTORE_PASSWORD \<equiv> 0x6C6F6164"

definition cfg_read_all :: "(u32 \<Rightarrow> u32 \<Rightarrow> u32) \<Rightarrow> cfg_st \<Rightarrow> config_sts \<times> cfg_st" where
  "cfg_read_all dr cfg =
    (case config_validate dr cfg of (err, c) \<Rightarrow> (err, if err = CONFIG_STS_OK then config_read_storage c else c))"

text \<open>A write access: the stream's sub-index, the bytes, and whether \<open>countWritten\<close> is there; \<open>None\<close> is a null pointer.\<close>

record od_access =
  od_sub :: "u8 option"
  od_buf :: "bytes option"
  od_count :: nat
  od_written :: bool

definition od_refused :: "od_access \<Rightarrow> bool" where
  "od_refused a \<longleftrightarrow> od_sub a = None \<or> od_sub a = Some 0 \<or> od_buf a = None \<or> od_count a \<noteq> 4 \<or> \<not> od_written a"

definition drv_store :: "(u32 \<Rightarrow> u32 \<Rightarrow> u32) \<Rightarrow> flash_dev \<Rightarrow> od_access \<Rightarrow> co_store \<Rightarrow> (odr \<times> co_store) option" where
  "drv_store dr dev a s =
    (if od_refused a then Some (ODR_DEV_INCOMPAT, s)
     else if od_sub a = Some 0 then Some (ODR_READONLY, s)
     else if rd32 (the (od_buf a)) \<noteq> PARAM_STORE_PASSWORD then Some (ODR_NO_DATA, s)
     else Option.bind (config_write_storage dr dev (cs_cfg s)) (\<lambda>(err, cfg).
       Some (if err \<noteq> CONFIG_STS_OK then ODR_GENERAL else ODR_OK, s\<lparr>cs_cfg := cfg\<rparr>)))"

definition drv_restore :: "(u32 \<Rightarrow> u32 \<Rightarrow> u32) \<Rightarrow> od_access \<Rightarrow> co_store \<Rightarrow> odr \<times> co_store" where
  "drv_restore dr a s =
    (if od_refused a then (ODR_DEV_INCOMPAT, s)
     else if od_sub a = Some 0 then (ODR_READONLY, s)
     else if rd32 (the (od_buf a)) \<noteq> PARAM_RESTORE_PASSWORD then (ODR_NO_DATA, s)
     else case cfg_read_all dr (cs_cfg s) of (err, cfg) \<Rightarrow>
       (if err \<noteq> CONFIG_STS_OK then ODR_GENERAL else ODR_OK, s\<lparr>cs_cfg := cfg, cfg_init_err_code := err\<rparr>))"

text \<open>The emergency that is reported, if any; and the initialisation.\<close>

definition CO_driver_storage_error_report :: "co_store \<Rightarrow> config_sts option" where
  "CO_driver_storage_error_report s = (if cfg_init_err_code s \<noteq> CONFIG_STS_OK then Some (cfg_init_err_code s) else None)"

definition CO_driver_storage_init :: "(u32 \<Rightarrow> u32 \<Rightarrow> u32) \<Rightarrow> co_store \<Rightarrow> co_store" where
  "CO_driver_storage_init dr s =
    (case cfg_read_all dr (cs_cfg s) of (err, cfg) \<Rightarrow> s\<lparr>cs_cfg := cfg, cfg_init_err_code := err\<rparr>)"

section \<open>Identity strings\<close>

function count_digits_loop :: "nat \<Rightarrow> nat \<Rightarrow> nat" where
  "count_digits_loop v result = (if v \<noteq> 0 then count_digits_loop (v div 10) (result + 1) else result)"
  by pat_completeness auto

termination by (relation "measure fst") auto

declare count_digits_loop.simps [simp del]

definition count_digits :: "u32 \<Rightarrow> nat" where
  "count_digits v = (let result = count_digits_loop (unat v) 0 in if result = 0 then 1 else result)"

text \<open>The digits are put from the last one on.\<close>

fun put_digits :: "nat \<Rightarrow> nat \<Rightarrow> nat \<Rightarrow> bytes \<Rightarrow> bytes" where
  "put_digits 0 p n buf = buf"
| "put_digits (Suc c) p n buf = put_digits c p (n div 10) (buf[p + c := of_nat (n mod 10) + 0x30])"

text \<open>The buffer and the position in it.\<close>

definition print_num :: "nat \<Rightarrow> u32 \<Rightarrow> bytes \<times> nat \<Rightarrow> bytes \<times> nat" where
  "print_num sz num s =
    (case s of (buf, p) \<Rightarrow> let cnt = count_digits num
     in if int p > int sz - 1 - int cnt then s else (put_digits cnt p (unat num) buf, p + cnt))"

definition print_dot :: "nat \<Rightarrow> bytes \<times> nat \<Rightarrow> bytes \<times> nat" where
  "print_dot sz s = (case s of (buf, p) \<Rightarrow> if int p < int sz - 1 then (buf[p := 0x2E], p + 1) else s)"

abbreviation OD_STR :: nat where "OD_STR \<equiv> 33"

record od_strings =
  x1008_name :: bytes
  x1009_hw :: bytes
  x100A_sw :: bytes

definition od_copy :: "memory \<Rightarrow> u32 \<Rightarrow> int \<Rightarrow> bytes" where
  "od_copy m p len =
    (if p \<noteq> 0 \<and> len > 0
     then (let n = min (nat len) (OD_STR - 1) in mem_bytes m p n @ replicate (OD_STR - n) 0)
     else replicate OD_STR 0)"

definition co_od_init_headers :: "memory \<Rightarrow> fw_info \<Rightarrow> od_strings" where
  "co_od_init_headers m fw =
    \<lparr>x1008_name = od_copy m (field_product_name_ptr fw) (field_product_name_len fw),
     x1009_hw = od_copy m (field_product_ptr fw) (field_product_len fw),
     x100A_sw = fst (print_num OD_STR (ver_patch fw) (print_dot OD_STR (print_num OD_STR (ver_minor fw)
       (print_dot OD_STR (print_num OD_STR (ver_major fw) (replicate OD_STR 0, 0))))))\<rparr>"

section \<open>Emergency history\<close>

record emcy_rec =
  em_timestamp :: u64
  em_ident :: u16
  em_errorCode :: u16
  em_errorRegister :: u8
  em_errorBit :: u8
  em_infoCode :: u32
  em_valid :: bool

abbreviation EMCY_HIST_COUNT :: nat where "EMCY_HIST_COUNT \<equiv> 64"

record emcy_hist =
  emcy_stat_buffer :: "emcy_rec list"
  emcy_stat_buffer_ptr :: nat

definition emcy_none :: emcy_rec where
  "emcy_none = \<lparr>em_timestamp = 0, em_ident = 0, em_errorCode = 0, em_errorRegister = 0, em_errorBit = 0, em_infoCode = 0, em_valid = False\<rparr>"

definition emcy_start :: emcy_hist where
  "emcy_start = \<lparr>emcy_stat_buffer = replicate EMCY_HIST_COUNT emcy_none, emcy_stat_buffer_ptr = 0\<rparr>"

definition co_emcy_rcv_cb :: "u64 \<Rightarrow> u16 \<Rightarrow> u16 \<Rightarrow> u8 \<Rightarrow> u8 \<Rightarrow> u32 \<Rightarrow> emcy_hist \<Rightarrow> emcy_hist" where
  "co_emcy_rcv_cb now ident errorCode errorRegister errorBit infoCode h =
    (let p = emcy_stat_buffer_ptr h
     in h\<lparr>emcy_stat_buffer := (emcy_stat_buffer h)[p := \<lparr>em_timestamp = now, em_ident = ident, em_errorCode = errorCode,
            em_errorRegister = errorRegister, em_errorBit = errorBit, em_infoCode = infoCode, em_valid = True\<rparr>],
          emcy_stat_buffer_ptr := (if p + 1 \<ge> EMCY_HIST_COUNT then 0 else p + 1)\<rparr>)"

text \<open>A printed line: time, identifier, code, register, bit, and the code once more.\<close>

definition emcy_line :: "emcy_rec \<Rightarrow> u64 \<times> u16 \<times> u16 \<times> u8 \<times> u8 \<times> u16" where
  "emcy_line r = (em_timestamp r, em_ident r, em_errorCode r, em_errorRegister r, em_errorBit r, em_errorCode r)"

fun emcy_print :: "nat \<Rightarrow> nat \<Rightarrow> emcy_rec list \<Rightarrow> (u64 \<times> u16 \<times> u16 \<times> u8 \<times> u8 \<times> u16) list" where
  "emcy_print 0 p buf = []"
| "emcy_print (Suc i) p buf =
    (if em_valid (buf ! p) then [emcy_line (buf ! p)] else [])
    @ emcy_print i (if p + 1 \<ge> EMCY_HIST_COUNT then 0 else p + 1) buf"

definition co_emcy_print_hist :: "emcy_hist \<Rightarrow> (u64 \<times> u16 \<times> u16 \<times> u8 \<times> u8 \<times> u16) list" where
  "co_emcy_print_hist h =
    emcy_print EMCY_HIST_COUNT (if emcy_stat_buffer_ptr h + 1 \<ge> EMCY_HIST_COUNT then 0 else emcy_stat_buffer_ptr h + 1) (emcy_stat_buffer h)"


section \<open>The version string\<close>

lemma count_digits_loop_length: "count_digits_loop n r = (if n = 0 then r else r + length (dec_digits n))"
proof (induction n r rule: count_digits_loop.induct)
  case (1 n r)
  show ?case
  proof (cases "n < 10")
    case True
    then have "n div 10 = 0" by simp
    then show ?thesis using True by (simp add: count_digits_loop.simps [of n] count_digits_loop.simps [of 0] dec_digits.simps [of n])
  next
    case False
    then have "n div 10 \<noteq> 0" by simp
    with 1 False show ?thesis by (simp add: count_digits_loop.simps [of n] dec_digits.simps [of n])
  qed
qed

lemma count_digits_length: "count_digits v = length (dec_digits (unat v))"
  using dec_digits_nonempty [of "unat v"]
  by (simp add: count_digits_def count_digits_loop_length dec_digits.simps [of 0] Let_def unat_eq_0)

lemma put_digits_dec:
  "p + length (dec_digits n) \<le> length buf \<Longrightarrow>
   put_digits (length (dec_digits n)) p n buf = take p buf @ dec_digits n @ drop (p + length (dec_digits n)) buf"
proof (induction n arbitrary: buf rule: dec_digits.induct)
  case (1 n)
  show ?case
  proof (cases "n < 10")
    case True
    then show ?thesis using 1(2) by (simp add: dec_digits.simps [of n] upd_conv_take_nth_drop add.commute)
  next
    case False
    let ?q = "dec_digits (n div 10)"
    let ?buf = "buf[p + length ?q := of_nat (n mod 10) + 0x30]"
    have e: "dec_digits n = ?q @ [of_nat (n mod 10) + 0x30]" using False by (simp add: dec_digits.simps [of n] add.commute)
    have len: "p + length ?q < length buf" using 1(2) e by simp
    have "drop (p + length ?q) ?buf = (of_nat (n mod 10) + 0x30) # drop (p + length ?q + 1) buf"
      using len by (simp add: upd_conv_take_nth_drop)
    moreover have "put_digits (length ?q) p (n div 10) ?buf = take p ?buf @ ?q @ drop (p + length ?q) ?buf"
      using 1(1) [OF False, of ?buf] len by simp
    ultimately show ?thesis by (simp add: e)
  qed
qed

text \<open>A buffer that holds a string so far.\<close>

definition str_buf :: "bytes \<Rightarrow> bytes \<times> nat" where
  "str_buf s = (s @ replicate (OD_STR - length s) 0, length s)"

lemma print_num_buf: "length s + length (dec_digits (unat v)) \<le> 32 \<Longrightarrow> print_num OD_STR v (str_buf s) = str_buf (s @ dec_digits (unat v))"
proof -
  assume l: "length s + length (dec_digits (unat v)) \<le> 32"
  have "put_digits (length (dec_digits (unat v))) (length s) (unat v) (s @ replicate (OD_STR - length s) 0)
      = s @ dec_digits (unat v) @ replicate (OD_STR - length s - length (dec_digits (unat v))) 0"
    using l by (subst put_digits_dec) simp_all
  then show ?thesis using l by (simp add: print_num_def str_buf_def count_digits_length Let_def diff_diff_left)
qed

lemma print_dot_buf: "length s < 32 \<Longrightarrow> print_dot OD_STR (str_buf s) = str_buf (s @ [0x2E])"
proof -
  assume l: "length s < 32"
  then have "OD_STR - length s = Suc (32 - length s)" by simp
  then show ?thesis using l by (simp add: print_dot_def str_buf_def list_update_append)
qed

lemma dec_u32_length: "length (dec_digits (unat (v :: u32))) \<le> 10"
proof (rule length_dec_digits)
  have "unat v < 4294967296" by (rule unat_u32_less)
  then show "unat v < 10 ^ 10" by (simp del: unat_u32_less)
qed simp

text \<open>Object 0x100A is always the three version numbers in decimal with dots, complete and terminated, and
  objects 0x1008 and 0x1009 are terminated too.\<close>

lemma version_string:
  "\<exists>n. x100A_sw (co_od_init_headers m fw) = dec_digits (unat (ver_major fw)) @ [0x2E] @ dec_digits (unat (ver_minor fw)) @ [0x2E]
      @ dec_digits (unat (ver_patch fw)) @ replicate (Suc n) 0
    \<and> length (x100A_sw (co_od_init_headers m fw)) = OD_STR \<and> length (x1008_name (co_od_init_headers m fw)) = OD_STR
    \<and> last (x1008_name (co_od_init_headers m fw)) = 0 \<and> last (x1009_hw (co_od_init_headers m fw)) = 0"
proof -
  let ?a = "dec_digits (unat (ver_major fw))" and ?b = "dec_digits (unat (ver_minor fw))" and ?c = "dec_digits (unat (ver_patch fw))"
  let ?s = "?a @ [0x2E] @ ?b @ [0x2E] @ ?c"
  note l = dec_u32_length [of "ver_major fw"] dec_u32_length [of "ver_minor fw"] dec_u32_length [of "ver_patch fw"]
  have "(replicate OD_STR 0, 0) = str_buf []" by (simp add: str_buf_def)
  then have e: "x100A_sw (co_od_init_headers m fw) = fst (str_buf ?s)"
    using l by (simp add: co_od_init_headers_def print_num_buf print_dot_buf)
  have tot: "length ?s \<le> 32" using l by simp
  then obtain n where n: "OD_STR - length ?s = Suc n" by (cases "OD_STR - length ?s") auto
  have c: "length (od_copy m p k) = OD_STR \<and> last (od_copy m p k) = 0" for p k
  proof -
    have "OD_STR - min (nat k) (OD_STR - 1) = Suc (OD_STR - 1 - min (nat k) (OD_STR - 1))" by simp
    then show ?thesis by (simp add: od_copy_def Let_def last_append)
  qed
  show ?thesis using e n tot c by (intro exI [of _ n]) (simp add: str_buf_def co_od_init_headers_def)
qed

section \<open>The history is the last 64 messages\<close>

text \<open>The ring, oldest slot first.\<close>

definition ring_list :: "emcy_hist \<Rightarrow> emcy_rec list" where
  "ring_list h = drop (emcy_stat_buffer_ptr h) (emcy_stat_buffer h) @ take (emcy_stat_buffer_ptr h) (emcy_stat_buffer h)"

definition hist_ok :: "emcy_hist \<Rightarrow> bool" where
  "hist_ok h \<longleftrightarrow> length (emcy_stat_buffer h) = EMCY_HIST_COUNT \<and> emcy_stat_buffer_ptr h < EMCY_HIST_COUNT"

text \<open>A received message is a record with the valid mark.\<close>

definition emcy_recv :: "emcy_rec \<Rightarrow> emcy_hist \<Rightarrow> emcy_hist" where
  "emcy_recv r h = co_emcy_rcv_cb (em_timestamp r) (em_ident r) (em_errorCode r) (em_errorRegister r) (em_errorBit r) (em_infoCode r) h"

lemma emcy_recv_ring:
  assumes "hist_ok h" "em_valid r"
  shows "hist_ok (emcy_recv r h) \<and> ring_list (emcy_recv r h) = tl (ring_list h) @ [r]"
proof -
  let ?p = "emcy_stat_buffer_ptr h" and ?b = "emcy_stat_buffer h"
  have r: "\<lparr>em_timestamp = em_timestamp r, em_ident = em_ident r, em_errorCode = em_errorCode r, em_errorRegister = em_errorRegister r,
      em_errorBit = em_errorBit r, em_infoCode = em_infoCode r, em_valid = True\<rparr> = r" using assms(2) by simp
  have b: "length ?b = 64" "?p < 64" using assms(1) by (simp_all add: hist_ok_def)
  have u: "?b[?p := r] = take ?p ?b @ r # drop (Suc ?p) ?b" using b by (simp add: upd_conv_take_nth_drop)
  have "drop ?p ?b = ?b ! ?p # drop (Suc ?p) ?b" using b by (simp add: Cons_nth_drop_Suc)
  then have t: "tl (ring_list h) = drop (Suc ?p) ?b @ take ?p ?b" by (simp add: ring_list_def)
  have e: "emcy_recv r h = h\<lparr>emcy_stat_buffer := ?b[?p := r], emcy_stat_buffer_ptr := (if ?p + 1 \<ge> 64 then 0 else ?p + 1)\<rparr>"
    by (simp add: emcy_recv_def co_emcy_rcv_cb_def Let_def r)
  show ?thesis using b t by (auto simp: e hist_ok_def ring_list_def u)
qed

lemma ring_after:
  "hist_ok h \<Longrightarrow> \<forall>r \<in> set es. em_valid r \<Longrightarrow>
   hist_ok (fold emcy_recv es h) \<and> ring_list (fold emcy_recv es h) = drop (length es) (ring_list h @ es)"
proof (induction es rule: rev_induct)
  case Nil
  then show ?case by simp
next
  case (snoc r es)
  have l: "length (ring_list h) = 64" using snoc.prems(1) by (simp add: hist_ok_def ring_list_def)
  let ?h = "fold emcy_recv es h"
  have ih: "hist_ok ?h" "ring_list ?h = drop (length es) (ring_list h @ es)" using snoc by simp_all
  let ?x = "ring_list h @ es"
  have "tl (drop (length es) ?x) = drop (Suc (length es)) ?x" by (simp only: drop_Suc tl_drop)
  moreover have "drop (Suc (length es)) ?x @ [r] = drop (Suc (length es)) (?x @ [r])" using l by simp
  ultimately have "tl (drop (length es) ?x) @ [r] = drop (Suc (length es)) (ring_list h @ es @ [r])" by simp
  with emcy_recv_ring [OF ih(1), of r] ih(2) snoc.prems(2) show ?case by simp
qed


text \<open>Printing starts one slot behind the oldest one.\<close>

lemma emcy_print_list:
  "length buf = 64 \<Longrightarrow> p < 64 \<Longrightarrow> i \<le> 64 \<Longrightarrow>
   emcy_print i p buf = map emcy_line (filter em_valid (take i (drop p buf @ take p buf)))"
proof (induction i arbitrary: p)
  case (Suc i)
  let ?q = "if p + 1 \<ge> 64 then 0 else p + 1"
  have d: "drop p buf @ take p buf = buf ! p # (drop (Suc p) buf @ take p buf)" using Suc.prems by (simp add: Cons_nth_drop_Suc)
  have "take i (drop (Suc p) buf @ take p buf) = take i (drop ?q buf @ take ?q buf)"
  proof (cases "p + 1 \<ge> 64")
    case True
    then have "p = 63" using Suc.prems by simp
    then show ?thesis using Suc.prems by simp
  next
    case False
    have "take (Suc p) buf = take p buf @ [buf ! p]" using Suc.prems by (simp add: take_Suc_conv_app_nth)
    then show ?thesis using False Suc.prems by simp
  qed
  moreover have "emcy_print i ?q buf = map emcy_line (filter em_valid (take i (drop ?q buf @ take ?q buf)))"
    using Suc by (intro Suc.IH) auto
  ultimately show ?case by (simp add: d)
qed simp

lemma print_hist_rotate:
  assumes "hist_ok h"
  shows "co_emcy_print_hist h = map emcy_line (filter em_valid (rotate1 (ring_list h)))"
proof -
  let ?p = "emcy_stat_buffer_ptr h" and ?b = "emcy_stat_buffer h"
  let ?q = "if ?p + 1 \<ge> 64 then 0 else ?p + 1"
  have b: "length ?b = 64" "?p < 64" using assms by (simp_all add: hist_ok_def)
  have "drop ?p ?b = ?b ! ?p # drop (Suc ?p) ?b" using b by (simp add: Cons_nth_drop_Suc)
  then have r: "rotate1 (ring_list h) = drop (Suc ?p) ?b @ take ?p ?b @ [?b ! ?p]" by (simp add: ring_list_def)
  have t: "take (Suc ?p) ?b = take ?p ?b @ [?b ! ?p]" using b by (simp add: take_Suc_conv_app_nth)
  have "drop ?q ?b @ take ?q ?b = drop (Suc ?p) ?b @ take (Suc ?p) ?b" using b by auto
  then show ?thesis using emcy_print_list [of ?b ?q 64] b r t by (simp add: co_emcy_print_hist_def)
qed

text \<open>The history prints the last 64 emergency messages, in the order they came, except that once 64 have come
  the oldest of them is printed last.\<close>

lemma emcy_history_prints:
  assumes "\<forall>r \<in> set es. em_valid r"
  shows "co_emcy_print_hist (fold emcy_recv es emcy_start)
    = map emcy_line (if length es < 64 then es else rotate1 (drop (length es - 64) es))"
proof -
  have h: "hist_ok emcy_start" "ring_list emcy_start = replicate 64 emcy_none"
    by (simp_all add: hist_ok_def emcy_start_def ring_list_def)
  note r = ring_after [OF h(1) assms]
  have f: "filter em_valid es = es" using assms by (simp add: filter_id_conv)
  have n: "\<not> em_valid emcy_none" by (simp add: emcy_none_def)
  show ?thesis
  proof (cases "length es < 64")
    case True
    then have "ring_list (fold emcy_recv es emcy_start) = emcy_none # replicate (63 - length es) emcy_none @ es"
    proof -
      have "64 - length es = Suc (63 - length es)" using True by simp
      then have "replicate (64 - length es) emcy_none = emcy_none # replicate (63 - length es) emcy_none" by simp
      moreover have "ring_list (fold emcy_recv es emcy_start) = replicate (64 - length es) emcy_none @ es" using r h(2) True by simp
      ultimately show ?thesis by simp
    qed
    then show ?thesis using True r f n by (simp add: print_hist_rotate)
  next
    case False
    then have "ring_list (fold emcy_recv es emcy_start) = drop (length es - 64) es" using r h(2) by simp
    moreover have "filter em_valid (rotate1 (drop (length es - 64) es)) = rotate1 (drop (length es - 64) es)"
      using assms by (simp add: filter_id_conv) (meson in_set_dropD)
    ultimately show ?thesis using False r by (simp add: print_hist_rotate)
  qed
qed


definition ex_emcy :: "nat \<Rightarrow> emcy_rec" where
  "ex_emcy n = emcy_none\<lparr>em_errorCode := of_nat n, em_valid := True\<rparr>"

lemma emcy_history_prints_witness:
  "co_emcy_print_hist (fold emcy_recv [ex_emcy 7, ex_emcy 9] emcy_start) = [(0, 0, 7, 0, 0, 7), (0, 0, 9, 0, 0, 9)]"
  using emcy_history_prints [of "[ex_emcy 7, ex_emcy 9]"] by (simp add: ex_emcy_def emcy_none_def emcy_line_def)

section \<open>Saving and loading over CAN\<close>

lemma drv_store_ok:
  "drv_store dr dev a s = Some (ODR_OK, s') \<Longrightarrow> config_write_storage dr dev (cs_cfg s) = Some (CONFIG_STS_OK, cs_cfg s')
    \<and> od_buf a \<noteq> None \<and> rd32 (the (od_buf a)) = PARAM_STORE_PASSWORD"
  by (auto simp: drv_store_def od_refused_def split: if_splits bind_splits)

text \<open>C30: after a store through object 0x1010 that returned success, the next start reports no storage error and
  loads every value that was saved; and the store had the right password.\<close>

lemma co_store_restart:
  assumes "nor_flash dev" "desc_ok (cfg_flash (cs_cfg s))" "table_ok (g_device_config (cs_cfg s))"
    and "config_valid (cs_cfg s) \<Longrightarrow> cfg_stored dr old (cfg_flash (cs_cfg s)) \<and> distinct (map fst old)"
    and "distinct (map ce_key (g_device_config (cs_cfg s)))"
    and "drv_store dr dev a s = Some (ODR_OK, s')"
    and "cfg_flash (cs_cfg rb) = cfg_flash (cs_cfg s')" "map ce_key (g_device_config (cs_cfg rb)) = map ce_key (g_device_config (cs_cfg s))"
      "map ce_size (g_device_config (cs_cfg rb)) = map ce_size (g_device_config (cs_cfg s))"
      "\<forall>e \<in> set (g_device_config (cs_cfg rb)). ce_data e \<noteq> None"
  shows "CO_driver_storage_error_report (CO_driver_storage_init dr rb) = None
    \<and> map ce_data (g_device_config (cs_cfg (CO_driver_storage_init dr rb))) = map (Some \<circ> snd \<circ> kv_of) (g_device_config (cs_cfg s))
    \<and> rd32 (the (od_buf a)) = PARAM_STORE_PASSWORD"
proof -
  note w = drv_store_ok [OF assms(6)]
  obtain err c where v: "config_validate dr (cs_cfg rb) = (err, c)" by fastforce
  from config_save_load [OF assms(1-5) w [THEN conjunct1] assms(7-10)] w v show ?thesis
    by (simp add: CO_driver_storage_init_def cfg_read_all_def CO_driver_storage_error_report_def)
qed

definition ex_store :: od_access where
  "ex_store = \<lparr>od_sub = Some 1, od_buf = Some (le32 PARAM_STORE_PASSWORD), od_count = 4, od_written = True\<rparr>"

lemma co_store_restart_witness:
  "map ce_data (g_device_config (cs_cfg (CO_driver_storage_init sw_crc32_word \<lparr>cs_cfg = ex_saved, cfg_init_err_code = CONFIG_STS_OK\<rparr>))) = [Some [1, 2, 3]]"
proof -
  let ?s = "\<lparr>cs_cfg = ex_cfg, cfg_init_err_code = CONFIG_STS_OK\<rparr>" and ?r = "\<lparr>cs_cfg = ex_saved, cfg_init_err_code = CONFIG_STS_OK\<rparr>"
  have d: "drv_store sw_crc32_word nor_dev ex_store ?s = Some (ODR_OK, ?r)"
    by (simp add: drv_store_def od_refused_def ex_store_def ex_saved)
  have "\<forall>e \<in> set (g_device_config ex_saved). ce_data e \<noteq> None" by (simp add: ex_saved_table ex_entry_def)
  with co_store_restart [OF nor.nor_flash_axioms _ _ _ _ d, of "[]" ?r] show ?thesis
    using ex_cfg_facts by (simp add: ex_saved_table ex_cfg_sel) (simp add: ex_entry_def kv_of_def ptr_bytes_def)
qed

text \<open>The condition of \<open>lss_activate_br\<close> is the wrong way round: a delay is never counted.\<close>

lemma lss_activate_no_delay:
  "lss_activate_br hw d ob = Some ob' \<Longrightarrow> lss_br_set_delay_counter ob = 0 \<Longrightarrow> lss_br_set_delay_counter ob' = 0"
  by (auto simp: lss_activate_br_def set_br_def Let_def split: if_splits bind_splits prod.splits)

end
