(* ===== verification/Pbuf.thy ===== *)
theory Pbuf
  imports Gw_Prelude
begin

text \<open>
  The packet buffers of lwIP as the sockets of the gateway use them: the pool (common/lwip/src/core/memp.c)
  and reference counted chains taken from it (common/lwip/src/core/pbuf.c), with the sizes of
  common/eth/lwipopts.h: 20 buffers of 600 bytes.  A buffer is the number of its element; reading or
  writing an element that is not allocated is \<open>None\<close>, undefined behaviour, and so is a loop that does not end.
\<close>

section \<open>The pool\<close>

abbreviation PBUF_POOL_SIZE :: nat where "PBUF_POOL_SIZE \<equiv> 20"
abbreviation PBUF_POOL_BUFSIZE :: u16 where "PBUF_POOL_BUFSIZE \<equiv> 600"

text \<open>\<open>len\<close> is the length of the payload \<open>pb_data\<close>.\<close>

record pbuf =
  pb_next :: "nat option"
  pb_tot_len :: u16
  pb_data :: bytes
  pb_ref :: u8

record pool =
  pb_cells :: "pbuf option list"
  pb_free :: "nat list"

definition pb_get :: "nat \<Rightarrow> pool \<Rightarrow> pbuf option" where
  "pb_get i pl = (if i < length (pb_cells pl) then pb_cells pl ! i else None)"

definition pb_put :: "nat \<Rightarrow> pbuf \<Rightarrow> pool \<Rightarrow> pool" where
  "pb_put i b pl = pl\<lparr>pb_cells := (pb_cells pl)[i := Some b]\<rparr>"

text \<open>The free elements are linked; each is put in front of the list.\<close>

definition memp_init_pool :: pool where
  "memp_init_pool = \<lparr>pb_cells = replicate PBUF_POOL_SIZE None, pb_free = fold (#) [0..<PBUF_POOL_SIZE] []\<rparr>"

definition memp_malloc :: "pool \<Rightarrow> (nat \<times> pool) option" where
  "memp_malloc pl = (case pb_free pl of [] \<Rightarrow> None | i # is \<Rightarrow> Some (i, pl\<lparr>pb_free := is\<rparr>))"

definition memp_free :: "nat \<Rightarrow> pool \<Rightarrow> pool" where
  "memp_free i pl = pl\<lparr>pb_cells := (pb_cells pl)[i := None], pb_free := i # pb_free pl\<rparr>"

section \<open>Chains\<close>

definition n_used :: "pool \<Rightarrow> nat" where
  "n_used pl = length (filter (\<lambda>c. c \<noteq> None) (pb_cells pl))"

lemma n_used_free:
  assumes "pb_get i pl \<noteq> None"
  shows "n_used (memp_free i pl) < n_used pl"
proof -
  have i: "i < length (pb_cells pl)" "pb_cells pl ! i \<noteq> None" using assms by (auto simp: pb_get_def split: if_splits)
  have "pb_cells pl = take i (pb_cells pl) @ pb_cells pl ! i # drop (Suc i) (pb_cells pl)" using i(1) by (rule id_take_nth_drop)
  then have "n_used pl = length (filter (\<lambda>c. c \<noteq> None) (take i (pb_cells pl))) + 1 + length (filter (\<lambda>c. c \<noteq> None) (drop (Suc i) (pb_cells pl)))"
    using i(2) unfolding n_used_def by (metis (mono_tags, lifting) add.assoc filter.simps(2) filter_append length_Cons length_append plus_1_eq_Suc)
  moreover have "n_used (memp_free i pl) = length (filter (\<lambda>c. c \<noteq> None) (take i (pb_cells pl))) + length (filter (\<lambda>c. c \<noteq> None) (drop (Suc i) (pb_cells pl)))"
    using i(1) by (simp add: n_used_def memp_free_def upd_conv_take_nth_drop)
  ultimately show ?thesis by simp
qed

text \<open>The result is how many buffers went back to the pool.\<close>

function pbuf_free_loop :: "nat option \<Rightarrow> u8 \<Rightarrow> pool \<Rightarrow> (u8 \<times> pool) option" where
  "pbuf_free_loop p count pl =
    (case p of None \<Rightarrow> Some (count, pl)
     | Some i \<Rightarrow>
         (case pb_get i pl of None \<Rightarrow> None
          | Some b \<Rightarrow>
              (let r = pb_ref b - 1
               in if r = 0 then pbuf_free_loop (pb_next b) (count + 1) (memp_free i pl)
                  else Some (count, pb_put i (b\<lparr>pb_ref := r\<rparr>) pl))))"
  by pat_completeness auto

termination by (relation "measure (\<lambda>(p, count, pl). n_used pl)") (auto intro!: n_used_free)

declare pbuf_free_loop.simps [simp del]

definition pbuf_free :: "nat option \<Rightarrow> pool \<Rightarrow> (u8 \<times> pool) option" where
  "pbuf_free p pl = pbuf_free_loop p 0 pl"

definition pbuf_ref :: "nat option \<Rightarrow> pool \<Rightarrow> pool option" where
  "pbuf_ref p pl =
    (case p of None \<Rightarrow> Some pl
     | Some i \<Rightarrow> map_option (\<lambda>b. pb_put i (b\<lparr>pb_ref := pb_ref b + 1\<rparr>) pl) (pb_get i pl))"

text \<open>\<open>LWIP_MEM_ALIGN_SIZE\<close>: the next multiple of 4.\<close>

definition mem_align_size :: "u16 \<Rightarrow> u16" where
  "mem_align_size n = (n + 3) AND NOT 3"

definition pbuf_init_alloced_pbuf :: "u16 \<Rightarrow> u16 \<Rightarrow> pbuf" where
  "pbuf_init_alloced_pbuf tot_len len =
    \<lparr>pb_next = None, pb_tot_len = tot_len, pb_data = replicate (unat len) 0, pb_ref = 1\<rparr>"

lemma Some_eq_map_option: "Some x = map_option f y \<longleftrightarrow> (\<exists>z. y = Some z \<and> x = f z)"
  by (cases y) auto

text \<open>
  The loop of \<open>pbuf_alloc\<close> for \<open>PBUF_POOL\<close>: \<open>ends\<close> is the head and the last buffer of the chain so far.
  The payload's first content is whatever the memory held; every user in the gateway writes all of it.
\<close>

function pbuf_alloc_loop :: "u16 \<Rightarrow> u16 \<Rightarrow> (nat \<times> nat) option \<Rightarrow> pool \<Rightarrow> (nat option \<times> pool) option" where
  "pbuf_alloc_loop offset rem_len ends pl =
    (case memp_malloc pl of
       None \<Rightarrow> (case ends of None \<Rightarrow> Some (None, pl)
                | Some (p, _) \<Rightarrow> map_option (\<lambda>(_, pl'). (None, pl')) (pbuf_free (Some p) pl))
     | Some (q, pl1) \<Rightarrow>
         (let qlen = min rem_len (PBUF_POOL_BUFSIZE - mem_align_size offset);
              pl2 = pb_put q (pbuf_init_alloced_pbuf rem_len qlen) pl1;
              pl3 = (case ends of None \<Rightarrow> Some pl2
                     | Some (_, l) \<Rightarrow> map_option (\<lambda>b. pb_put l (b\<lparr>pb_next := Some q\<rparr>) pl2) (pb_get l pl2));
              p = (case ends of None \<Rightarrow> q | Some (p, _) \<Rightarrow> p)
          in case pl3 of None \<Rightarrow> None
             | Some pl4 \<Rightarrow> if rem_len - qlen > 0 then pbuf_alloc_loop 0 (rem_len - qlen) (Some (p, q)) pl4
                           else Some (Some p, pl4)))"
  by pat_completeness auto

termination
  by (relation "measure (\<lambda>(offset, rem_len, ends, pl). length (pb_free pl))")
    (auto simp: memp_malloc_def pb_put_def Some_eq_map_option split: list.splits option.splits prod.splits)

declare pbuf_alloc_loop.simps [simp del]

abbreviation PBUF_TRANSPORT :: u16 where "PBUF_TRANSPORT \<equiv> 54"

definition pbuf_alloc :: "u16 \<Rightarrow> u16 \<Rightarrow> pool \<Rightarrow> (nat option \<times> pool) option" where
  "pbuf_alloc layer len pl = pbuf_alloc_loop layer len None pl"

partial_function (option) pbuf_cat_loop :: "nat \<Rightarrow> nat \<Rightarrow> pool \<Rightarrow> pool option" where
  "pbuf_cat_loop p t pl =
    Option.bind (pb_get p pl) (\<lambda>b. Option.bind (pb_get t pl) (\<lambda>tb.
      (case pb_next b of
         None \<Rightarrow> Some (pb_put p (b\<lparr>pb_tot_len := pb_tot_len b + pb_tot_len tb, pb_next := Some t\<rparr>) pl)
       | Some n \<Rightarrow> pbuf_cat_loop n t (pb_put p (b\<lparr>pb_tot_len := pb_tot_len b + pb_tot_len tb\<rparr>) pl))))"

definition pbuf_cat :: "nat option \<Rightarrow> nat option \<Rightarrow> pool \<Rightarrow> pool option" where
  "pbuf_cat h t pl = (case (h, t) of (Some h', Some t') \<Rightarrow> pbuf_cat_loop h' t' pl | _ \<Rightarrow> Some pl)"

definition pbuf_chain :: "nat option \<Rightarrow> nat option \<Rightarrow> pool \<Rightarrow> pool option" where
  "pbuf_chain h t pl = Option.bind (pbuf_cat h t pl) (pbuf_ref t)"

text \<open>\<open>bs\<close> is what is left to copy.\<close>

partial_function (option) pbuf_take_loop :: "nat option \<Rightarrow> bytes \<Rightarrow> pool \<Rightarrow> pool option" where
  "pbuf_take_loop p bs pl =
    (if bs = [] then Some pl
     else case p of None \<Rightarrow> None
     | Some i \<Rightarrow> Option.bind (pb_get i pl) (\<lambda>b.
         (let n = min (length bs) (length (pb_data b))
          in pbuf_take_loop (pb_next b) (drop n bs)
               (pb_put i (b\<lparr>pb_data := take n bs @ drop n (pb_data b)\<rparr>) pl))))"

abbreviation ERR_OK :: int where "ERR_OK \<equiv> 0"
abbreviation ERR_MEM :: int where "ERR_MEM \<equiv> -1"
abbreviation ERR_ARG :: int where "ERR_ARG \<equiv> -16"

text \<open>Of the bytes at \<open>dataptr\<close> the first \<open>len\<close> are copied; reading past them is undefined.\<close>

definition pbuf_take :: "nat option \<Rightarrow> bytes \<Rightarrow> u16 \<Rightarrow> pool \<Rightarrow> (int \<times> pool) option" where
  "pbuf_take buf dataptr len pl =
    (case buf of None \<Rightarrow> Some (ERR_ARG, pl)
     | Some i \<Rightarrow> Option.bind (pb_get i pl) (\<lambda>b.
         if pb_tot_len b < len then Some (ERR_MEM, pl)
         else if length dataptr < unat len then None
         else map_option (\<lambda>pl'. (ERR_OK, pl')) (pbuf_take_loop buf (take (unat len) dataptr) pl)))"

section \<open>Lemmas\<close>

fun chain :: "pool \<Rightarrow> nat option \<Rightarrow> nat list \<Rightarrow> bool" where
  "chain pl p [] = (p = None)"
| "chain pl p (i # is) = (p = Some i \<and> (case pb_get i pl of None \<Rightarrow> False | Some b \<Rightarrow> chain pl (pb_next b) is))"

definition chain_data :: "pool \<Rightarrow> nat list \<Rightarrow> bytes" where
  "chain_data pl is = concat (map (\<lambda>i. case pb_get i pl of None \<Rightarrow> [] | Some b \<Rightarrow> pb_data b) is)"

definition refs :: "pool \<Rightarrow> nat \<Rightarrow> nat" where
  "refs pl i = (case pb_get i pl of None \<Rightarrow> 0 | Some b \<Rightarrow> unat (pb_ref b))"

definition pool_ok :: "pool \<Rightarrow> bool" where
  "pool_ok pl \<longleftrightarrow> length (pb_cells pl) = PBUF_POOL_SIZE \<and> distinct (pb_free pl)
    \<and> (\<forall>i < PBUF_POOL_SIZE. i \<in> set (pb_free pl) \<longleftrightarrow> pb_cells pl ! i = None) \<and> set (pb_free pl) \<subseteq> {..<PBUF_POOL_SIZE}"

lemma pb_get_bound: "pb_get i pl = Some b \<Longrightarrow> i < length (pb_cells pl)"
  by (auto simp: pb_get_def split: if_splits)

lemma pb_get_put [simp]: "pb_get i pl = Some b \<Longrightarrow> pb_get j (pb_put i b' pl) = (if j = i then Some b' else pb_get j pl)"
  by (auto simp: pb_get_def pb_put_def split: if_splits)

lemma pb_get_put_other [simp]: "j \<noteq> i \<Longrightarrow> pb_get j (pb_put i b' pl) = pb_get j pl"
  by (auto simp: pb_get_def pb_put_def)

lemma pb_get_free [simp]: "pb_get j (memp_free i pl) = (if j = i then None else pb_get j pl)"
  by (auto simp: pb_get_def memp_free_def)

lemma pb_free_put [simp]: "pb_free (pb_put i b pl) = pb_free pl"
  by (simp add: pb_put_def)

lemma pool_ok_free_iff: "pool_ok pl \<Longrightarrow> i \<in> set (pb_free pl) \<longleftrightarrow> i < PBUF_POOL_SIZE \<and> pb_get i pl = None"
  by (auto simp: pool_ok_def pb_get_def)

lemma pool_ok_put: "pool_ok pl \<Longrightarrow> pb_get i pl = Some b \<Longrightarrow> pool_ok (pb_put i b' pl)"
  by (auto simp: pool_ok_def pb_get_def pb_put_def nth_list_update split: if_splits)

lemma pool_ok_memp_free: "pool_ok pl \<Longrightarrow> pb_get i pl = Some b \<Longrightarrow> pool_ok (memp_free i pl)"
  by (auto simp: pool_ok_def pb_get_def memp_free_def nth_list_update split: if_splits)

lemma pool_ok_malloc:
  assumes "pool_ok pl" "memp_malloc pl = Some (q, pl1)"
  shows "pool_ok (pb_put q b pl1)" "pb_get q pl = None" "pb_get j (pb_put q b pl1) = (if j = q then Some b else pb_get j pl)"
    "Suc (length (pb_free (pb_put q b pl1))) = length (pb_free pl)"
proof -
  from assms(2) obtain fs where f: "pb_free pl = q # fs" "pl1 = pl\<lparr>pb_free := fs\<rparr>"
    by (auto simp: memp_malloc_def split: list.splits)
  have q: "q < PBUF_POOL_SIZE" "pb_cells pl ! q = None" using assms(1) f by (auto simp: pool_ok_def)
  then show "pb_get q pl = None" by (simp add: pb_get_def)
  show "pb_get j (pb_put q b pl1) = (if j = q then Some b else pb_get j pl)"
    using q assms(1) f(2) by (auto simp: pb_get_def pb_put_def pool_ok_def)
  show "pool_ok (pb_put q b pl1)"
    using assms(1) f q by (auto simp: pool_ok_def pb_put_def nth_list_update)
  show "Suc (length (pb_free (pb_put q b pl1))) = length (pb_free pl)" using f by simp
qed

lemma pool_ok_init: "pool_ok memp_init_pool"
proof -
  have e: "fold (#) xs (ys :: nat list) = rev xs @ ys" for xs ys by (induction xs arbitrary: ys) simp_all
  show ?thesis by (auto simp: pool_ok_def memp_init_pool_def e)
qed

lemma chain_cong: "(\<And>i. i \<in> set is \<Longrightarrow> pb_get i pl' = pb_get i pl) \<Longrightarrow> chain pl' p is = chain pl p is"
  by (induction "is" arbitrary: p) (auto split: option.splits)

lemma chain_data_cong: "(\<And>i. i \<in> set is \<Longrightarrow> pb_get i pl' = pb_get i pl) \<Longrightarrow> chain_data pl' is = chain_data pl is"
  by (simp add: chain_data_def cong: map_cong)

lemma chain_data_simps [simp]: "chain_data pl [] = []"
  "chain_data pl (i # is) = (case pb_get i pl of None \<Rightarrow> [] | Some b \<Rightarrow> pb_data b) @ chain_data pl is"
  "chain_data pl (is @ js) = chain_data pl is @ chain_data pl js"
  by (simp_all add: chain_data_def)

text \<open>Writes that keep the link keep the chain.\<close>

lemma chain_put_same:
  assumes "pb_get j pl = Some b" "pb_next b' = pb_next b"
  shows "chain (pb_put j b' pl) p is = chain pl p is"
  using assms by (induction "is" arbitrary: p) (auto split: option.splits)

lemma chain_data_put_same:
  assumes "pb_get j pl = Some b" "pb_data b' = pb_data b"
  shows "chain_data (pb_put j b' pl) is = chain_data pl is"
  using assms by (induction "is") (auto split: option.splits)

lemma chain_get: "chain pl p is \<Longrightarrow> i \<in> set is \<Longrightarrow> \<exists>b. pb_get i pl = Some b"
  by (induction "is" arbitrary: p) (auto split: option.splits)

lemma chain_append:
  "chain pl p (xs @ [l]) \<Longrightarrow> pb_get l pl = Some b \<Longrightarrow> pb_next b = None \<Longrightarrow> l \<notin> set xs \<Longrightarrow>
   chain pl (Some q) ys \<Longrightarrow> l \<notin> set ys \<Longrightarrow> pb_next b' = Some q \<Longrightarrow>
   chain (pb_put l b' pl) p (xs @ [l] @ ys)"
proof (induction xs arbitrary: p)
  case Nil
  have "chain (pb_put l b' pl) (Some q) ys" using Nil by (subst chain_cong [where pl = pl]) auto
  with Nil show ?case by simp
next
  case (Cons x xs)
  then show ?case by (auto split: option.splits)
qed

lemma chain_last: "chain pl p (xs @ [l]) \<Longrightarrow> \<exists>b. pb_get l pl = Some b \<and> pb_next b = None"
  by (induction xs arbitrary: p) (auto split: option.splits)

lemma refs_1: "pb_get i pl = Some b \<Longrightarrow> refs pl i = 1 \<Longrightarrow> pb_ref b = 1"
  by (simp add: refs_def word_unat_eq_iff)

lemma refs_put [simp]: "pb_get i pl = Some b \<Longrightarrow> refs (pb_put i b' pl) j = (if j = i then unat (pb_ref b') else refs pl j)"
  by (simp add: refs_def)

lemma refs_cong: "pb_get i pl' = pb_get i pl \<Longrightarrow> refs pl' i = refs pl i"
  by (simp add: refs_def)

lemma free_chain:
  "chain pl p xs \<Longrightarrow> distinct xs \<Longrightarrow> \<forall>i \<in> set xs. refs pl i = 1 \<Longrightarrow> pool_ok pl \<Longrightarrow>
   \<exists>n pl'. pbuf_free_loop p c pl = Some (n, pl') \<and> pool_ok pl' \<and> (\<forall>j. pb_get j pl' = (if j \<in> set xs then None else pb_get j pl))"
proof (induction xs arbitrary: p c pl)
  case Nil
  then show ?case by (simp add: pbuf_free_loop.simps)
next
  case (Cons x xs)
  then obtain b where b: "p = Some x" "pb_get x pl = Some b" "chain pl (pb_next b) xs" by (auto split: option.splits)
  have r: "pb_ref b = 1" using refs_1 [OF b(2)] Cons.prems(3) by simp
  have "chain (memp_free x pl) (pb_next b) xs" using b(3) Cons.prems(2) by (subst chain_cong [where pl = pl]) auto
  moreover have "\<forall>i \<in> set xs. refs (memp_free x pl) i = 1" using Cons.prems by (auto simp: refs_def)
  moreover have "pool_ok (memp_free x pl)" using Cons.prems(4) b(2) by (rule pool_ok_memp_free)
  ultimately obtain n pl' where "pbuf_free_loop (pb_next b) (c + 1) (memp_free x pl) = Some (n, pl')" "pool_ok pl'"
    "\<forall>j. pb_get j pl' = (if j \<in> set xs then None else pb_get j (memp_free x pl))"
    using Cons.IH [of "memp_free x pl" "pb_next b" "c + 1"] Cons.prems(2) by auto
  moreover have "pbuf_free_loop p c pl = pbuf_free_loop (pb_next b) (c + 1) (memp_free x pl)"
    using b r by (subst pbuf_free_loop.simps) simp
  ultimately show ?case by auto
qed

text \<open>What an allocation that started with the chain \<open>xs\<close> leaves.\<close>

definition alloc_post :: "nat list \<Rightarrow> u16 \<Rightarrow> pool \<Rightarrow> nat option \<Rightarrow> pool \<Rightarrow> bool" where
  "alloc_post xs rem pl r pl' \<longleftrightarrow> pool_ok pl'
    \<and> (\<forall>j. j \<notin> set xs \<longrightarrow> pb_get j pl \<noteq> None \<longrightarrow> pb_get j pl' = pb_get j pl)
    \<and> (r = None \<longrightarrow> (\<forall>j. j \<in> set xs \<or> pb_get j pl = None \<longrightarrow> pb_get j pl' = None))
    \<and> (r \<noteq> None \<longrightarrow> (\<exists>zs. zs \<noteq> [] \<and> chain pl' r (xs @ zs) \<and> distinct (xs @ zs) \<and> (\<forall>j \<in> set zs. pb_get j pl = None)
        \<and> (\<forall>j \<in> set (xs @ zs). refs pl' j = 1)
        \<and> length (chain_data pl' (xs @ zs)) = length (chain_data pl xs) + unat rem
        \<and> (\<forall>j. j \<notin> set (xs @ zs) \<longrightarrow> pb_get j pl' = pb_get j pl)
        \<and> map_option pb_tot_len (pb_get (hd (xs @ zs)) pl') = (if xs = [] then Some rem else map_option pb_tot_len (pb_get (hd xs) pl))))"

lemma alloc_link:
  assumes "pool_ok pl" "memp_malloc pl = Some (q, pl1)" "pb_next b0 = None" "pb_ref b0 = 1" "distinct xs"
    "\<forall>i \<in> set xs. refs pl i = 1"
    "case ends of None \<Rightarrow> xs = [] | Some (p, l) \<Rightarrow> xs \<noteq> [] \<and> last xs = l \<and> chain pl (Some p) xs"
  obtains pl4 where
    "(case ends of None \<Rightarrow> Some (pb_put q b0 pl1)
      | Some (_, l) \<Rightarrow> map_option (\<lambda>b. pb_put l (b\<lparr>pb_next := Some q\<rparr>) (pb_put q b0 pl1)) (pb_get l (pb_put q b0 pl1))) = Some pl4"
    "pool_ok pl4" "distinct (xs @ [q])" "\<forall>i \<in> set (xs @ [q]). refs pl4 i = 1"
    "chain pl4 (Some (case ends of None \<Rightarrow> q | Some (p, _) \<Rightarrow> p)) (xs @ [q])"
    "length (chain_data pl4 (xs @ [q])) = length (chain_data pl xs) + length (pb_data b0)"
    "\<forall>j. j \<notin> set (xs @ [q]) \<longrightarrow> pb_get j pl4 = pb_get j pl" "pb_get q pl = None"
    "map_option pb_tot_len (pb_get (hd (xs @ [q])) pl4) = (if xs = [] then Some (pb_tot_len b0) else map_option pb_tot_len (pb_get (hd xs) pl))"
proof -
  define pl2 where "pl2 = pb_put q b0 pl1"
  have P: "pool_ok pl2" "pb_get q pl = None" "\<And>j. pb_get j pl2 = (if j = q then Some b0 else pb_get j pl)"
    using pool_ok_malloc [OF assms(1,2)] by (simp_all add: pl2_def)
  have qx: "q \<notin> set xs" using P(2) assms(6) by (auto simp: refs_def)
  show thesis
  proof (cases ends)
    case None
    then have "xs = []" using assms(7) by simp
    then show thesis using None P assms(3,4) by (intro that [of pl2]) (simp_all add: pl2_def [symmetric] refs_def)
  next
    case (Some e)
    then obtain p l ys where e: "ends = Some (p, l)" "xs = ys @ [l]" "chain pl (Some p) xs"
      using assms(7) by (cases e) (auto, metis append_butlast_last_id)
    then obtain b where b: "pb_get l pl = Some b" "pb_next b = None" using chain_last by blast
    have l: "l \<noteq> q" "l \<notin> set ys" "q \<notin> set ys" using qx e(2) assms(5) by auto
    have g2: "pb_get l pl2 = Some b" using b l P(3) by simp
    define pl4 where "pl4 = pb_put l (b\<lparr>pb_next := Some q\<rparr>) pl2"
    have c2: "chain pl2 (Some p) (ys @ [l])" using e(2,3) qx P(3) by (subst chain_cong [where pl = pl]) auto
    have "chain pl4 (Some p) (ys @ [l] @ [q])" unfolding pl4_def
      using chain_append [OF c2 g2 b(2) l(2), of q "[q]"] P(3) assms(3) l by simp
    moreover have gets: "pb_get j pl4 = (if j = l then Some (b\<lparr>pb_next := Some q\<rparr>) else if j = q then Some b0 else pb_get j pl)" for j
      unfolding pl4_def using g2 P(3) by simp
    moreover have "chain_data pl4 ys = chain_data pl ys" by (rule chain_data_cong) (use gets l in auto)
    moreover have "map_option pb_tot_len (pb_get (hd (xs @ [q])) pl4) = map_option pb_tot_len (pb_get (hd xs) pl)"
    proof -
      have "hd (xs @ [q]) = hd xs" "hd xs \<noteq> q" using e(2) qx l by (cases ys; simp)+
      then show ?thesis using gets b by simp
    qed
    moreover have "pool_ok pl4" unfolding pl4_def using P(1) g2 by (rule pool_ok_put)
    ultimately show thesis
      using e(1,2) g2 P(2) assms(4-6) b qx
      by (intro that [of pl4]) (auto simp: pl2_def [symmetric] pl4_def [symmetric] refs_def)
  qed
qed

lemma alloc_cap: "offset = 0 \<or> offset = PBUF_TRANSPORT \<Longrightarrow> 0 < PBUF_POOL_BUFSIZE - mem_align_size offset"
  by (auto simp: mem_align_size_def)

lemma u16_sub: "(a :: u16) \<le> b \<Longrightarrow> unat a + unat (b - a) = unat b"
  by (simp add: unat_sub word_le_nat_alt)

lemma alloc_post_last:
  assumes "pool_ok pl4" "distinct (xs @ [q])" "\<forall>i \<in> set (xs @ [q]). refs pl4 i = 1" "chain pl4 (Some p) (xs @ [q])"
    "length (chain_data pl4 (xs @ [q])) = length (chain_data pl xs) + unat rem_len"
    "\<forall>j. j \<notin> set (xs @ [q]) \<longrightarrow> pb_get j pl4 = pb_get j pl" "pb_get q pl = None"
    "map_option pb_tot_len (pb_get (hd (xs @ [q])) pl4) = (if xs = [] then Some rem_len else map_option pb_tot_len (pb_get (hd xs) pl))"
  shows "alloc_post xs rem_len pl (Some p) pl4"
proof -
  have "\<forall>j. j \<notin> set xs \<longrightarrow> pb_get j pl \<noteq> None \<longrightarrow> pb_get j pl4 = pb_get j pl"
    using assms(6,7) by (metis Un_iff empty_iff empty_set list.simps(15) insert_iff set_append)
  then show ?thesis unfolding alloc_post_def using assms by (intro conjI impI exI [of _ "[q]"]) auto
qed

lemma alloc_post_more:
  assumes "alloc_post (xs @ [q]) rem' pl4 r pl'" "pb_get q pl = None" "refs pl4 q = 1"
    "\<forall>j. j \<notin> set (xs @ [q]) \<longrightarrow> pb_get j pl4 = pb_get j pl"
    "length (chain_data pl4 (xs @ [q])) + unat rem' = length (chain_data pl xs) + unat rem_len"
    "map_option pb_tot_len (pb_get (hd (xs @ [q])) pl4) = (if xs = [] then Some rem_len else map_option pb_tot_len (pb_get (hd xs) pl))"
  shows "alloc_post xs rem_len pl r pl'"
proof -
  have keep: "\<forall>j. j \<notin> set xs \<longrightarrow> pb_get j pl \<noteq> None \<longrightarrow> pb_get j pl' = pb_get j pl"
    using assms(1,2,4) unfolding alloc_post_def by (metis Un_iff empty_iff empty_set list.simps(15) insert_iff set_append)
  show ?thesis
  proof (cases r)
    case None
    have "j \<in> set xs \<or> pb_get j pl = None \<Longrightarrow> pb_get j pl' = None" for j
      using assms(1,4) None unfolding alloc_post_def by (cases "j \<in> set (xs @ [q])") auto
    then show ?thesis using None assms(1) keep unfolding alloc_post_def by auto
  next
    case (Some p)
    then obtain zs where z: "chain pl' r (xs @ q # zs)" "distinct (xs @ q # zs)" "\<forall>j \<in> set zs. pb_get j pl4 = None"
      "\<forall>j \<in> set (xs @ q # zs). refs pl' j = 1"
      "length (chain_data pl' (xs @ q # zs)) = length (chain_data pl4 (xs @ [q])) + unat rem'"
      "\<forall>j. j \<notin> set (xs @ q # zs) \<longrightarrow> pb_get j pl' = pb_get j pl4"
      "map_option pb_tot_len (pb_get (hd (xs @ q # zs)) pl') = map_option pb_tot_len (pb_get (hd (xs @ [q])) pl4)"
      using assms(1) unfolding alloc_post_def by (auto simp del: chain_data_simps)
    have "\<forall>j \<in> set (q # zs). pb_get j pl = None" using z(2,3) assms(2,4) by auto
    moreover have "\<forall>j. j \<notin> set (xs @ q # zs) \<longrightarrow> pb_get j pl' = pb_get j pl" using z(6) assms(4) by auto
    moreover have "length (chain_data pl' (xs @ q # zs)) = length (chain_data pl xs) + unat rem_len"
      using z(5) assms(5) by simp
    ultimately show ?thesis unfolding alloc_post_def using Some z assms(1,6) keep
      by (intro conjI impI exI [of _ "q # zs"]) (auto simp: alloc_post_def simp del: chain_data_simps)
  qed
qed

lemma alloc_loop_post:
  "pool_ok pl \<Longrightarrow> offset = 0 \<or> offset = PBUF_TRANSPORT \<Longrightarrow> distinct xs \<Longrightarrow> \<forall>i \<in> set xs. refs pl i = 1 \<Longrightarrow>
   (case ends of None \<Rightarrow> xs = [] | Some (p, l) \<Rightarrow> xs \<noteq> [] \<and> last xs = l \<and> chain pl (Some p) xs) \<Longrightarrow>
   \<exists>r pl'. pbuf_alloc_loop offset rem_len ends pl = Some (r, pl') \<and> alloc_post xs rem_len pl r pl'"
proof (induction offset rem_len ends pl arbitrary: xs rule: pbuf_alloc_loop.induct)
  case (1 offset rem_len ends pl)
  show ?case
  proof (cases "memp_malloc pl")
    case None
    show ?thesis
    proof (cases ends)
      case None
      then have "pbuf_alloc_loop offset rem_len ends pl = Some (None, pl)" "xs = []"
        using \<open>memp_malloc pl = None\<close> 1(6) by (simp_all add: pbuf_alloc_loop.simps)
      then show ?thesis using 1(2) by (auto simp: alloc_post_def)
    next
      case (Some e)
      then obtain p l where e: "ends = Some (p, l)" by (cases e) auto
      then obtain n pl' where "pbuf_free (Some p) pl = Some (n, pl')" "pool_ok pl'"
        "\<forall>j. pb_get j pl' = (if j \<in> set xs then None else pb_get j pl)"
        using free_chain [of pl "Some p" xs 0] 1(2,4,5,6) by (auto simp: pbuf_free_def)
      moreover from this have "pbuf_alloc_loop offset rem_len ends pl = Some (None, pl')"
        using None e by (subst pbuf_alloc_loop.simps) simp
      ultimately show ?thesis by (auto simp: alloc_post_def)
    qed
  next
    case (Some qp)
    then obtain q pl1 where m: "memp_malloc pl = Some (q, pl1)" by (cases qp) auto
    define qlen where "qlen = min rem_len (PBUF_POOL_BUFSIZE - mem_align_size offset)"
    define b0 where "b0 = pbuf_init_alloced_pbuf rem_len qlen"
    have b0: "pb_next b0 = None" "pb_ref b0 = 1" "length (pb_data b0) = unat qlen" "pb_tot_len b0 = rem_len"
      by (simp_all add: b0_def pbuf_init_alloced_pbuf_def)
    obtain pl4 where L: "(case ends of None \<Rightarrow> Some (pb_put q b0 pl1)
        | Some (_, l) \<Rightarrow> map_option (\<lambda>b. pb_put l (b\<lparr>pb_next := Some q\<rparr>) (pb_put q b0 pl1)) (pb_get l (pb_put q b0 pl1))) = Some pl4"
      "pool_ok pl4" "distinct (xs @ [q])" "\<forall>i \<in> set (xs @ [q]). refs pl4 i = 1"
      "chain pl4 (Some (case ends of None \<Rightarrow> q | Some (p, _) \<Rightarrow> p)) (xs @ [q])"
      "length (chain_data pl4 (xs @ [q])) = length (chain_data pl xs) + length (pb_data b0)"
      "\<forall>j. j \<notin> set (xs @ [q]) \<longrightarrow> pb_get j pl4 = pb_get j pl" "pb_get q pl = None"
      "map_option pb_tot_len (pb_get (hd (xs @ [q])) pl4) = (if xs = [] then Some (pb_tot_len b0) else map_option pb_tot_len (pb_get (hd xs) pl))"
      by (rule alloc_link [OF 1(2) m b0(1,2) 1(4,5,6)])
    let ?p = "case ends of None \<Rightarrow> q | Some (p, _) \<Rightarrow> p"
    have eq: "pbuf_alloc_loop offset rem_len ends pl =
      (if rem_len - qlen > 0 then pbuf_alloc_loop 0 (rem_len - qlen) (Some (?p, q)) pl4 else Some (Some ?p, pl4))"
      using m L(1) by (subst pbuf_alloc_loop.simps) (simp add: qlen_def [symmetric] b0_def [symmetric] Let_def cong: option.case_cong)
    have ql: "qlen \<le> rem_len" by (simp add: qlen_def)
    note len = u16_sub [OF ql]
    show ?thesis
    proof (cases "rem_len - qlen > 0")
      case False
      then have "alloc_post xs rem_len pl (Some ?p) pl4"
        using len by (intro alloc_post_last [OF L(2-5) _ L(7,8)]) (simp_all only: L(6,9) b0(3,4) word_gt_0 unat_0 add_0_right not_not)
      then show ?thesis using eq False by auto
    next
      case True
      have "\<exists>r pl'. pbuf_alloc_loop 0 (rem_len - qlen) (Some (?p, q)) pl4 = Some (r, pl') \<and> alloc_post (xs @ [q]) (rem_len - qlen) pl4 r pl'"
        by (rule 1(1) [OF m refl refl refl refl refl, folded qlen_def, folded b0_def, OF L(1) True]) (use L in \<open>simp_all del: chain_data_simps\<close>)
      then obtain r pl' where r: "pbuf_alloc_loop 0 (rem_len - qlen) (Some (?p, q)) pl4 = Some (r, pl')"
        and post: "alloc_post (xs @ [q]) (rem_len - qlen) pl4 r pl'" by blast
      have "alloc_post xs rem_len pl r pl'"
        by (rule alloc_post_more [OF post L(8)]) (use L(4,7) len in \<open>simp_all only: L(6,9) b0(3,4) set_append list.set Un_iff insert_iff empty_iff add.assoc simp_thms ball_Un ball_simps\<close>)
      then show ?thesis using eq True r by auto
    qed
  qed
qed

lemma pbuf_alloc_post:
  "pool_ok pl \<Longrightarrow> \<exists>r pl'. pbuf_alloc PBUF_TRANSPORT n pl = Some (r, pl') \<and> alloc_post [] n pl r pl'"
  unfolding pbuf_alloc_def by (rule alloc_loop_post) simp_all

text \<open>A change that keeps every buffer but its payload, and the payloads outside a chain.\<close>

definition same_links :: "nat set \<Rightarrow> pool \<Rightarrow> pool \<Rightarrow> bool" where
  "same_links S pl pl' \<longleftrightarrow> pb_free pl' = pb_free pl \<and> (pool_ok pl \<longrightarrow> pool_ok pl') \<and> (\<forall>j. refs pl' j = refs pl j)
    \<and> (\<forall>j. j \<notin> S \<longrightarrow> pb_get j pl' = pb_get j pl) \<and> (\<forall>j. pb_get j pl' = None \<longleftrightarrow> pb_get j pl = None)"

lemma same_links_refl [simp]: "same_links S pl pl"
  by (simp add: same_links_def)

lemma same_links_put:
  assumes "pb_get i pl = Some b" "pb_ref b' = pb_ref b" "i \<in> S"
  shows "same_links S pl (pb_put i b' pl)"
  using assms pool_ok_put [OF _ assms(1)] by (auto simp: same_links_def refs_def)

lemma same_links_trans: "same_links S pl pl1 \<Longrightarrow> same_links S pl1 pl2 \<Longrightarrow> same_links S pl pl2"
  by (auto simp: same_links_def)

lemma same_links_mono: "same_links S pl pl1 \<Longrightarrow> S \<subseteq> T \<Longrightarrow> same_links T pl pl1"
  by (auto simp: same_links_def)

lemma take_loop_chain:
  "chain pl p xs \<Longrightarrow> distinct xs \<Longrightarrow> length bs \<le> length (chain_data pl xs) \<Longrightarrow>
   \<exists>pl'. pbuf_take_loop p bs pl = Some pl' \<and> chain pl' p xs \<and> same_links (set xs) pl pl'
     \<and> chain_data pl' xs = bs @ drop (length bs) (chain_data pl xs)"
proof (induction xs arbitrary: p bs pl)
  case Nil
  then show ?case by (auto simp: pbuf_take_loop.simps)
next
  case (Cons x xs)
  show ?case
  proof (cases "bs = []")
    case True
    then show ?thesis using Cons.prems(1) by (auto simp: pbuf_take_loop.simps)
  next
    case False
    from Cons.prems(1) obtain b where b: "p = Some x" "pb_get x pl = Some b" "chain pl (pb_next b) xs" by (auto split: option.splits)
    define n where "n = min (length bs) (length (pb_data b))"
    define b' where "b' = b\<lparr>pb_data := take n bs @ drop n (pb_data b)\<rparr>"
    define pl1 where "pl1 = pb_put x b' pl"
    have x: "x \<notin> set xs" "distinct xs" using Cons.prems(2) by auto
    have same: "pb_get j pl1 = pb_get j pl" if "j \<in> set xs" for j using that b(2) x by (auto simp: pl1_def)
    have c: "chain pl1 (pb_next b) xs" "chain_data pl1 xs = chain_data pl xs"
      using b(3) same chain_cong [of xs pl1 pl] chain_data_cong [of xs pl1 pl] by auto
    have "length (drop n bs) \<le> length (chain_data pl1 xs)" using Cons.prems(3) b(2) by (simp add: c(2) n_def)
    from Cons.IH [OF c(1) x(2) this] obtain pl' where
      I: "pbuf_take_loop (pb_next b) (drop n bs) pl1 = Some pl'" "chain pl' (pb_next b) xs" "same_links (set xs) pl1 pl'"
        "chain_data pl' xs = drop n bs @ drop (length (drop n bs)) (chain_data pl xs)" unfolding c(2) by blast
    have run: "pbuf_take_loop p bs pl = Some pl'"
      using False b I(1) by (subst pbuf_take_loop.simps) (simp add: n_def b'_def pl1_def)
    have gx: "pb_get x pl' = Some b'" using I(3) x(1) b(2) by (simp add: same_links_def pl1_def)
    have "same_links (set (x # xs)) pl pl1" unfolding pl1_def by (rule same_links_put [OF b(2)]) (simp_all add: b'_def)
    moreover have "same_links (set (x # xs)) pl1 pl'" using I(3) by (rule same_links_mono) auto
    ultimately have sl: "same_links (set (x # xs)) pl pl'" by (rule same_links_trans)
    have "chain pl' p (x # xs)" using I(2) b(1) gx by (simp add: b'_def)
    moreover have "chain_data pl' (x # xs) = bs @ drop (length bs) (chain_data pl (x # xs))"
    proof (cases "length bs \<le> length (pb_data b)")
      case True
      then show ?thesis using gx I(4) b(2) by (simp add: b'_def n_def)
    next
      case False
      then have "take (length (pb_data b)) bs @ drop (length (pb_data b)) bs = bs" by simp
      then show ?thesis using False gx I(4) b(2) by (simp add: b'_def n_def flip: append_assoc)
    qed
    ultimately show ?thesis using run sl by blast
  qed
qed

lemma cat_loop_chain:
  "chain pl (Some p) xs \<Longrightarrow> xs \<noteq> [] \<Longrightarrow> distinct (xs @ ys) \<Longrightarrow> chain pl (Some t) ys \<Longrightarrow>
   \<exists>pl'. pbuf_cat_loop p t pl = Some pl' \<and> chain pl' (Some p) (xs @ ys) \<and> same_links (set xs) pl pl'
     \<and> chain_data pl' xs = chain_data pl xs"
proof (induction xs arbitrary: p pl)
  case Nil
  then show ?case by simp
next
  case (Cons x xs)
  from Cons.prems(1) obtain b where b: "p = x" "pb_get x pl = Some b" "chain pl (pb_next b) xs" by (auto split: option.splits)
  obtain tb where t: "pb_get t pl = Some tb" using Cons.prems(4) by (cases ys) (auto split: option.splits)
  have x: "x \<notin> set xs" "x \<notin> set ys" "distinct (xs @ ys)" using Cons.prems(3) by auto
  show ?case
  proof (cases xs)
    case Nil
    define pl' where "pl' = pb_put x (b\<lparr>pb_tot_len := pb_tot_len b + pb_tot_len tb, pb_next := Some t\<rparr>) pl"
    have "pbuf_cat_loop p t pl = Some pl'" using Nil b t by (subst pbuf_cat_loop.simps) (simp add: pl'_def)
    moreover have "chain pl' (Some t) ys" unfolding pl'_def using Cons.prems(4) x(2) b(2) by (subst chain_cong [where pl = pl]) auto
    then have "chain pl' (Some p) ((x # xs) @ ys)" using Nil b by (simp add: pl'_def)
    moreover have "same_links (set (x # xs)) pl pl'" unfolding pl'_def by (rule same_links_put [OF b(2)]) simp_all
    moreover have "chain_data pl' (x # xs) = chain_data pl (x # xs)" unfolding pl'_def by (rule chain_data_put_same [OF b(2)]) simp
    ultimately show ?thesis by blast
  next
    case (Cons y zs)
    then have n: "pb_next b = Some y" using b(3) by simp
    define b' where "b' = b\<lparr>pb_tot_len := pb_tot_len b + pb_tot_len tb\<rparr>"
    define pl1 where "pl1 = pb_put x b' pl"
    have same: "pb_get j pl1 = pb_get j pl" if "j \<in> set xs \<union> set ys" for j using that b(2) x by (auto simp: pl1_def)
    have c: "chain pl1 (Some y) xs" using b(3) n same chain_cong [of xs pl1 pl] by simp
    have ct: "chain pl1 (Some t) ys" using Cons.prems(4) same chain_cong [of ys pl1 pl] by simp
    from Cons.IH [OF c _ x(3) ct] \<open>xs = y # zs\<close> obtain pl' where
      I: "pbuf_cat_loop y t pl1 = Some pl'" "chain pl' (Some y) (xs @ ys)" "same_links (set xs) pl1 pl'" "chain_data pl' xs = chain_data pl1 xs"
      by blast
    have run: "pbuf_cat_loop p t pl = Some pl'"
      using b t n I(1) by (subst pbuf_cat_loop.simps) (simp add: b'_def pl1_def)
    have gx: "pb_get x pl' = Some b'" using I(3) x(1) b(2) by (simp add: same_links_def pl1_def)
    have "same_links (set (x # xs)) pl pl1" unfolding pl1_def by (rule same_links_put [OF b(2)]) (simp_all add: b'_def)
    moreover have "same_links (set (x # xs)) pl1 pl'" using I(3) by (rule same_links_mono) auto
    ultimately have sl: "same_links (set (x # xs)) pl pl'" by (rule same_links_trans)
    have "chain pl' (Some p) ((x # xs) @ ys)" using I(2) b(1) n gx by (simp add: b'_def)
    moreover have "chain_data pl' (x # xs) = chain_data pl (x # xs)"
      using gx I(4) b(2) chain_data_cong [of xs pl1 pl] same by (simp add: b'_def)
    ultimately show ?thesis using run sl by blast
  qed
qed

end
