(* ===== verification/Sock_Srv.thy ===== *)
theory Sock_Srv
  imports Pbuf
begin

text \<open>
  The TCP server behind which the gateway offers CANopenNode's ASCII commands (app/comm/sock_srv.c, and
  the two functions of app/app.c that connect it to the command interpreter).  Connection objects live
  on lwIP's heap and their queues in its buffer pool; touching a freed object is \<open>None\<close>.
\<close>

section \<open>Data\<close>

datatype srv_state = ES_NONE | ES_ACCEPTED | ES_RECEIVED | ES_CLOSING

record tcp_echoserver =
  es_state :: srv_state
  es_pcb :: nat
  es_p :: "nat option"

text \<open>What lwIP's TCP does with one connection, whose own state is of type \<open>'t\<close>.\<close>

record 't tcp =
  tcp_sndbuf :: "'t \<Rightarrow> u16"
  tcp_write :: "bytes \<Rightarrow> 't \<Rightarrow> int \<times> 't"
  tcp_output :: "'t \<Rightarrow> 't"
  tcp_recved :: "u16 \<Rightarrow> 't \<Rightarrow> 't"
  tcp_new_state :: 't

text \<open>Which callbacks a connection has.\<close>

record cbs =
  cb_recv :: bool
  cb_sent :: bool
  cb_err :: bool
  cb_poll :: bool

abbreviation no_cbs :: cbs where
  "no_cbs \<equiv> \<lparr>cb_recv = False, cb_sent = False, cb_err = False, cb_poll = False\<rparr>"

text \<open>
  \<open>sv_arg\<close> is the \<open>callback_arg\<close> of a control block, \<open>sv_open\<close> whether lwIP still has it, \<open>sv_gtwa\<close> what
  was handed to the command interpreter.
\<close>

record 't srv =
  sv_pool :: pool
  sv_es :: "nat \<Rightarrow> tcp_echoserver option"
  sv_open :: "nat \<Rightarrow> bool"
  sv_arg :: "nat \<Rightarrow> nat option"
  sv_cbs :: "nat \<Rightarrow> cbs"
  sv_tcp :: "nat \<Rightarrow> 't"
  last_gtwa_pcb :: "nat option"
  sv_gtwa :: "bytes list"

definition srv_start :: "'t tcp \<Rightarrow> pool \<Rightarrow> 't srv" where
  "srv_start T pl = \<lparr>sv_pool = pl, sv_es = (\<lambda>_. None), sv_open = (\<lambda>_. False), sv_arg = (\<lambda>_. None), sv_cbs = (\<lambda>_. no_cbs),
     sv_tcp = (\<lambda>_. tcp_new_state T), last_gtwa_pcb = None, sv_gtwa = []\<rparr>"

section \<open>Sending\<close>

text \<open>The loop of \<open>tcp_echoserver_send\<close> on the queue, the pool and the connection.\<close>

partial_function (option) srv_send_loop ::
    "'t tcp \<Rightarrow> nat option \<Rightarrow> pool \<Rightarrow> 't \<Rightarrow> (nat option \<times> pool \<times> 't) option" where
  "srv_send_loop T p pl t =
    (case p of None \<Rightarrow> Some (p, pl, t)
     | Some ptr \<Rightarrow>
         Option.bind (pb_get ptr pl) (\<lambda>b.
           if of_nat (length (pb_data b)) \<le> tcp_sndbuf T t
           then (case tcp_write T (pb_data b) t of (wr_err, t1) \<Rightarrow>
                   (let t2 = tcp_output T t1
                    in if wr_err = ERR_OK
                       then Option.bind (pbuf_ref (pb_next b) pl) (\<lambda>pl1.
                              Option.bind (pbuf_free (Some ptr) pl1) (\<lambda>(_, pl2). srv_send_loop T (pb_next b) pl2 t2))
                       else Some (p, pl, t2)))
           else Some (p, pl, t)))"

definition tcp_echoserver_send :: "'t tcp \<Rightarrow> nat \<Rightarrow> nat \<Rightarrow> 't srv \<Rightarrow> 't srv option" where
  "tcp_echoserver_send T tpcb es s =
    Option.bind (sv_es s es) (\<lambda>x.
      Option.bind (srv_send_loop T (es_p x) (sv_pool s) (sv_tcp s tpcb)) (\<lambda>(p, pl, t).
        Some (s\<lparr>sv_es := (sv_es s)(es \<mapsto> x\<lparr>es_p := p\<rparr>), sv_pool := pl, sv_tcp := (sv_tcp s)(tpcb := t)\<rparr>)))"

section \<open>Callbacks\<close>

text \<open>\<open>mem_free\<close> of an object that is not allocated is undefined.\<close>

definition tcp_echoserver_connection_close :: "nat \<Rightarrow> nat option \<Rightarrow> 't srv \<Rightarrow> 't srv option" where
  "tcp_echoserver_connection_close tpcb es s =
    (let s1 = s\<lparr>sv_arg := (sv_arg s)(tpcb := None), sv_cbs := (sv_cbs s)(tpcb := no_cbs)\<rparr>
     in Option.bind (case es of None \<Rightarrow> Some s1
                     | Some e \<Rightarrow> (case sv_es s1 e of None \<Rightarrow> None | Some _ \<Rightarrow> Some (s1\<lparr>sv_es := (sv_es s1)(e := None)\<rparr>)))
          (\<lambda>s2. Some (s2\<lparr>sv_open := (sv_open s2)(tpcb := False)\<rparr>)))"

definition tcp_echoserver_sent :: "'t tcp \<Rightarrow> nat \<Rightarrow> nat \<Rightarrow> 't srv \<Rightarrow> (int \<times> 't srv) option" where
  "tcp_echoserver_sent T arg tpcb s =
    Option.bind (sv_es s arg) (\<lambda>x.
      map_option (Pair ERR_OK)
        (if es_p x \<noteq> None then tcp_echoserver_send T tpcb arg s
         else if es_state x = ES_CLOSING then tcp_echoserver_connection_close tpcb (Some arg) s
         else Some s))"

text \<open>
  The bytes the interpreter gets are those of the first buffer of the received chain, and only their
  number is returned to the window.
\<close>

definition cb_srv_sock_rx :: "'t tcp \<Rightarrow> nat \<Rightarrow> bytes list \<Rightarrow> 't srv \<Rightarrow> 't srv" where
  "cb_srv_sock_rx T tpcb p s =
    s\<lparr>last_gtwa_pcb := Some tpcb, sv_gtwa := sv_gtwa s @ [hd p],
      sv_tcp := (sv_tcp s)(tpcb := tcp_recved T (of_nat (length (hd p))) (sv_tcp s tpcb))\<rparr>"

text \<open>
  \<open>p\<close>: no buffer, or the payloads of the received chain, which is lwIP's own and is freed once on every path.
\<close>

definition tcp_echoserver_recv :: "'t tcp \<Rightarrow> nat \<Rightarrow> nat \<Rightarrow> bytes list option \<Rightarrow> int \<Rightarrow> 't srv \<Rightarrow> (int \<times> 't srv) option" where
  "tcp_echoserver_recv T arg tpcb p err s =
    Option.bind (sv_es s arg) (\<lambda>x.
      (case p of
         None \<Rightarrow>
           (let s1 = s\<lparr>sv_es := (sv_es s)(arg \<mapsto> x\<lparr>es_state := ES_CLOSING\<rparr>)\<rparr>
            in map_option (Pair ERR_OK)
                 (if es_p x = None then tcp_echoserver_connection_close tpcb (Some arg) s1
                  else tcp_echoserver_send T tpcb arg (s1\<lparr>sv_cbs := (sv_cbs s1)(tpcb := (sv_cbs s1 tpcb)\<lparr>cb_sent := True\<rparr>)\<rparr>)))
       | Some segs \<Rightarrow>
           if err \<noteq> ERR_OK then Some (err, s\<lparr>sv_es := (sv_es s)(arg \<mapsto> x\<lparr>es_p := None\<rparr>)\<rparr>)
           else if es_state x = ES_ACCEPTED
           then Some (ERR_OK, cb_srv_sock_rx T tpcb segs
                  (s\<lparr>sv_es := (sv_es s)(arg \<mapsto> x\<lparr>es_state := ES_RECEIVED\<rparr>),
                     sv_cbs := (sv_cbs s)(tpcb := (sv_cbs s tpcb)\<lparr>cb_sent := True\<rparr>)\<rparr>))
           else if es_state x = ES_RECEIVED then Some (ERR_OK, cb_srv_sock_rx T tpcb segs s)
           else Some (ERR_OK, s\<lparr>sv_es := (sv_es s)(arg \<mapsto> x\<lparr>es_p := None\<rparr>),
                  sv_tcp := (sv_tcp s)(tpcb := tcp_recved T (of_nat (length (concat segs))) (sv_tcp s tpcb))\<rparr>)))"

definition tcp_echoserver_poll :: "'t tcp \<Rightarrow> nat option \<Rightarrow> nat \<Rightarrow> 't srv \<Rightarrow> (int \<times> 't srv) option" where
  "tcp_echoserver_poll T arg tpcb s =
    (case arg of
       None \<Rightarrow> Some (-13, s\<lparr>sv_open := (sv_open s)(tpcb := False), sv_cbs := (sv_cbs s)(tpcb := no_cbs)\<rparr>)
     | Some es \<Rightarrow>
         Option.bind (sv_es s es) (\<lambda>x.
           map_option (Pair ERR_OK)
             (if es_p x \<noteq> None then tcp_echoserver_send T tpcb es s
              else if es_state x = ES_CLOSING then tcp_echoserver_connection_close tpcb (Some es) s
              else Some s)))"

text \<open>lwIP calls this one after it has freed the control block.\<close>

definition tcp_echoserver_error :: "nat option \<Rightarrow> 't srv \<Rightarrow> 't srv option" where
  "tcp_echoserver_error arg s =
    (case arg of None \<Rightarrow> Some s
     | Some es \<Rightarrow> (case sv_es s es of None \<Rightarrow> None | Some _ \<Rightarrow> Some (s\<lparr>sv_es := (sv_es s)(es := None)\<rparr>)))"

text \<open>\<open>mem\<close> is the result of \<open>mem_malloc\<close>.\<close>

definition tcp_echoserver_accept :: "nat option \<Rightarrow> nat \<Rightarrow> 't srv \<Rightarrow> (int \<times> 't srv) option" where
  "tcp_echoserver_accept mem newpcb s =
    (case mem of
       Some es \<Rightarrow>
         Some (ERR_OK, s\<lparr>sv_es := (sv_es s)(es \<mapsto> \<lparr>es_state = ES_ACCEPTED, es_pcb = newpcb, es_p = None\<rparr>),
           sv_arg := (sv_arg s)(newpcb \<mapsto> es),
           sv_cbs := (sv_cbs s)(newpcb := \<lparr>cb_recv = True, cb_sent = False, cb_err = True, cb_poll = True\<rparr>)\<rparr>)
     | None \<Rightarrow> map_option (Pair ERR_MEM) (tcp_echoserver_connection_close newpcb None s))"

section \<open>Answers\<close>

text \<open>The queue of buffers grows at its end; the length is truncated to 16 bits by the calls.\<close>

definition sock_srv_send :: "'t tcp \<Rightarrow> nat option \<Rightarrow> bytes \<Rightarrow> 't srv \<Rightarrow> (int \<times> 't srv) option" where
  "sock_srv_send T pcb bs s =
    (case pcb of None \<Rightarrow> Some (-1, s)
     | Some c \<Rightarrow>
         if \<not> sv_open s c then None
         else (case sv_arg s c of None \<Rightarrow> Some (-2, s)
          | Some es \<Rightarrow>
              Option.bind (pbuf_alloc PBUF_TRANSPORT (of_nat (length bs)) (sv_pool s)) (\<lambda>(p, pl1).
                if p = None then Some (-3, s\<lparr>sv_pool := pl1\<rparr>)
                else Option.bind (pbuf_take p bs (of_nat (length bs)) pl1) (\<lambda>(sts, pl2).
                  if sts \<noteq> 0 then Some (sts, s\<lparr>sv_pool := pl2\<rparr>)
                  else Option.bind (sv_es s es) (\<lambda>x.
                    map_option (Pair 0)
                      (if es_p x = None
                       then tcp_echoserver_send T c es (s\<lparr>sv_pool := pl2, sv_es := (sv_es s)(es \<mapsto> x\<lparr>es_p := p\<rparr>)\<rparr>)
                       else map_option (\<lambda>pl3. s\<lparr>sv_pool := pl3\<rparr>) (pbuf_chain (es_p x) p pl2)))))))"

text \<open>The answer goes to the connection that sent last; without one it is printed.\<close>

definition gtwa_write_response :: "'t tcp \<Rightarrow> bytes \<Rightarrow> 't srv \<Rightarrow> (nat \<times> 't srv) option" where
  "gtwa_write_response T b s =
    (case last_gtwa_pcb s of
       Some c \<Rightarrow> map_option (\<lambda>(_, s'). (length b, s')) (sock_srv_send T (Some c) b s)
     | None \<Rightarrow> Some (length b, s))"

section \<open>The queue\<close>

definition queue_ok :: "pool \<Rightarrow> nat option \<Rightarrow> nat list \<Rightarrow> bool" where
  "queue_ok pl p xs \<longleftrightarrow> chain pl p xs \<and> distinct xs \<and> (\<forall>i \<in> set xs. 1 \<le> refs pl i)
    \<and> (case xs of [] \<Rightarrow> True | y # ys \<Rightarrow> refs pl y \<le> 3 \<and> (\<forall>i \<in> set ys. refs pl i \<le> 2))"

text \<open>Reading the bytes sent so far off the state of the connection.\<close>

definition sends_law :: "'t tcp \<Rightarrow> ('t \<Rightarrow> bytes) \<Rightarrow> bool" where
  "sends_law T f \<longleftrightarrow> (\<forall>d t. f (snd (tcp_write T d t)) = f t @ (if fst (tcp_write T d t) = ERR_OK then d else []))
    \<and> (\<forall>t. f (tcp_output T t) = f t) \<and> (\<forall>n t. f (tcp_recved T n t) = f t)"

lemma queue_ok_Cons:
  "queue_ok pl p (x # xs) \<longleftrightarrow> p = Some x \<and> x \<notin> set xs \<and> distinct xs \<and> 1 \<le> refs pl x \<and> refs pl x \<le> 3
    \<and> (\<forall>i \<in> set xs. 1 \<le> refs pl i \<and> refs pl i \<le> 2) \<and> (\<exists>b. pb_get x pl = Some b \<and> chain pl (pb_next b) xs)"
  by (auto simp: queue_ok_def split: option.splits)

lemma queue_ok_cong:
  assumes "\<And>i. i \<in> set xs \<Longrightarrow> pb_get i pl' = pb_get i pl"
  shows "queue_ok pl' p xs = queue_ok pl p xs"
proof -
  have "\<And>i. i \<in> set xs \<Longrightarrow> refs pl' i = refs pl i" by (rule refs_cong) (rule assms)
  then show ?thesis using chain_cong [OF assms, of xs p] by (cases xs) (simp_all add: queue_ok_def)
qed

lemma unat_u8_add1: "unat (r :: u8) \<le> 2 \<Longrightarrow> unat (r + 1) = Suc (unat r)"
  by (subst unat_plus_if') simp

lemma unat_u8_sub1: "1 \<le> unat (r :: u8) \<Longrightarrow> unat (r - 1) = unat r - 1"
  by (rule unat_minus_one) auto

definition same_data :: "nat set \<Rightarrow> pool \<Rightarrow> pool \<Rightarrow> bool" where
  "same_data S pl pl' \<longleftrightarrow> (\<forall>i \<in> S. map_option pb_data (pb_get i pl') = map_option pb_data (pb_get i pl))"

lemma same_data_chain:
  assumes "same_data S pl pl'" "set xs \<subseteq> S"
  shows "chain_data pl' xs = chain_data pl xs"
proof -
  have "(case pb_get i pl' of None \<Rightarrow> [] | Some b \<Rightarrow> pb_data b) = (case pb_get i pl of None \<Rightarrow> [] | Some b \<Rightarrow> pb_data b)" if "i \<in> set xs" for i
  proof -
    have "map_option pb_data (pb_get i pl') = map_option pb_data (pb_get i pl)" using assms that by (auto simp: same_data_def)
    then show ?thesis by (cases "pb_get i pl'"; cases "pb_get i pl") auto
  qed
  then show ?thesis by (simp add: chain_data_def cong: map_cong)
qed

text \<open>One buffer sent: its successor takes over, whether or not the buffer goes back to the pool.\<close>

lemma send_one:
  assumes "pool_ok pl" "queue_ok pl p (x # xs)" "pb_get x pl = Some b"
  obtains pl1 n pl2 where "pbuf_ref (pb_next b) pl = Some pl1" "pbuf_free (Some x) pl1 = Some (n, pl2)" "pool_ok pl2"
    "queue_ok pl2 (pb_next b) xs" "same_data (set xs) pl pl2" "\<forall>j. j \<notin> set (x # xs) \<longrightarrow> pb_get j pl2 = pb_get j pl"
proof -
  have q: "p = Some x" "x \<notin> set xs" "distinct xs" "1 \<le> unat (pb_ref b)" "unat (pb_ref b) \<le> 3"
    "\<forall>i \<in> set xs. 1 \<le> refs pl i \<and> refs pl i \<le> 2" "chain pl (pb_next b) xs"
    using assms(2,3) by (auto simp: queue_ok_Cons refs_def)
  have r0: "(pb_ref b - 1 = 0) = (pb_ref b = 1)" by simp
  show thesis
  proof (cases xs)
    case Nil
    then have n: "pb_next b = None" using q(7) by simp
    show thesis
    proof (cases "pb_ref b = 1")
      case True
      then have "pbuf_free (Some x) pl = Some (1, memp_free x pl)"
        using assms(3) n by (simp add: pbuf_free_def pbuf_free_loop.simps)
      then show thesis using n Nil assms by (intro that [of pl 1 "memp_free x pl"])
        (auto simp: pbuf_ref_def queue_ok_def same_data_def pool_ok_memp_free)
    next
      case False
      then have "pbuf_free (Some x) pl = Some (0, pb_put x (b\<lparr>pb_ref := pb_ref b - 1\<rparr>) pl)"
        using assms(3) by (simp add: pbuf_free_def pbuf_free_loop.simps)
      then show thesis using n Nil assms by (intro that [of pl 0 "pb_put x (b\<lparr>pb_ref := pb_ref b - 1\<rparr>) pl"])
        (auto simp: pbuf_ref_def queue_ok_def same_data_def pool_ok_put)
    qed
  next
    case (Cons y ys)
    then obtain c where c: "pb_next b = Some y" "pb_get y pl = Some c" "chain pl (pb_next c) ys"
      using q(7) by (auto split: option.splits)
    have y: "y \<noteq> x" "y \<notin> set ys" "x \<notin> set ys" "distinct ys" using q(2,3) Cons by auto
    have rc: "1 \<le> unat (pb_ref c)" "unat (pb_ref c) \<le> 2" using q(6) c(2) Cons by (auto simp: refs_def)
    define c1 where "c1 = c\<lparr>pb_ref := pb_ref c + 1\<rparr>"
    define pl1 where "pl1 = pb_put y c1 pl"
    have ref: "pbuf_ref (pb_next b) pl = Some pl1" using c by (simp add: pbuf_ref_def pl1_def c1_def)
    have ok1: "pool_ok pl1" unfolding pl1_def using assms(1) c(2) by (rule pool_ok_put)
    have rc1: "unat (pb_ref c1) = Suc (unat (pb_ref c))" using unat_u8_add1 [OF rc(2)] by (simp add: c1_def)
    have gx: "pb_get x pl1 = Some b" "pb_get y pl1 = Some c1" using assms(3) c(2) y(1) by (simp_all add: pl1_def)
    have fin: "queue_ok pl2 (pb_next b) xs \<and> same_data (set xs) pl pl2 \<and> (\<forall>j. j \<notin> set (x # xs) \<longrightarrow> pb_get j pl2 = pb_get j pl)"
      if a: "unat (pb_ref c2) \<in> {1, 2, 3}" "pb_next c2 = pb_next c" "pb_data c2 = pb_data c"
        "\<And>j. j \<noteq> x \<Longrightarrow> pb_get j pl2 = (if j = y then Some c2 else pb_get j pl)" for pl2 c2
    proof -
      have same: "pb_get j pl2 = pb_get j pl" if "j \<in> set ys" for j
      proof -
        have "j \<noteq> x" "j \<noteq> y" using that y by auto
        then show ?thesis using a(4) [of j] by simp
      qed
      have "chain pl2 (pb_next c2) ys" using c(3) a(2) same chain_cong [of ys pl2 pl] by simp
      moreover have "pb_get y pl2 = Some c2" using a(4) y(1) by simp
      moreover have "\<forall>i \<in> set ys. 1 \<le> refs pl2 i \<and> refs pl2 i \<le> 2" using q(6) Cons refs_cong [OF same] by auto
      ultimately show ?thesis using a y Cons c(1,2) same
        by (auto simp: queue_ok_Cons refs_def same_data_def)
    qed
    show thesis
    proof (cases "pb_ref b = 1")
      case True
      define c2 where "c2 = c1\<lparr>pb_ref := pb_ref c1 - 1\<rparr>"
      define pl2 where "pl2 = pb_put y c2 (memp_free x pl1)"
      have rc2: "pb_ref c1 - 1 = pb_ref c" by (simp add: c1_def)
      have "pb_ref c \<noteq> 0" using rc(1) by auto
      then have "pbuf_free_loop (Some y) 1 (memp_free x pl1) = Some (1, pl2)"
        using gx y(1) rc2 by (subst pbuf_free_loop.simps) (simp add: c2_def pl2_def)
      then have "pbuf_free (Some x) pl1 = Some (1, pl2)"
        using gx(1) True c(1) by (simp add: pbuf_free_def, subst pbuf_free_loop.simps) simp
      note free = this
      have g: "pb_get y (memp_free x pl1) = Some c1" using gx y(1) by simp
      have ok: "pool_ok pl2" unfolding pl2_def using pool_ok_put [OF pool_ok_memp_free [OF ok1 gx(1)] g] by simp
      have "j \<noteq> x \<Longrightarrow> pb_get j pl2 = (if j = y then Some c2 else pb_get j pl)" for j
        unfolding pl2_def using g c(2) by (simp add: pl1_def)
      moreover have "unat (pb_ref c2) \<in> {1, 2, 3}" using rc rc2 by (auto simp: c2_def)
      ultimately have "queue_ok pl2 (pb_next b) xs \<and> same_data (set xs) pl pl2 \<and> (\<forall>j. j \<notin> set (x # xs) \<longrightarrow> pb_get j pl2 = pb_get j pl)"
        by (intro fin) (simp_all add: c2_def c1_def)
      then show thesis by (intro that [OF ref free ok]) blast+
    next
      case False
      define pl2 where "pl2 = pb_put x (b\<lparr>pb_ref := pb_ref b - 1\<rparr>) pl1"
      have "pbuf_free (Some x) pl1 = Some (0, pl2)"
        using gx(1) False by (simp add: pbuf_free_def, subst pbuf_free_loop.simps) (simp add: pl2_def)
      note free = this
      have ok: "pool_ok pl2" unfolding pl2_def using ok1 gx(1) by (rule pool_ok_put)
      have "j \<noteq> x \<Longrightarrow> pb_get j pl2 = (if j = y then Some c1 else pb_get j pl)" for j
        unfolding pl2_def using c(2) by (simp add: pl1_def)
      moreover have "unat (pb_ref c1) \<in> {1, 2, 3}" using rc rc1 by auto
      ultimately have "queue_ok pl2 (pb_next b) xs \<and> same_data (set xs) pl pl2 \<and> (\<forall>j. j \<notin> set (x # xs) \<longrightarrow> pb_get j pl2 = pb_get j pl)"
        by (intro fin) (simp_all add: c1_def)
      then show thesis by (intro that [OF ref free ok]) blast+
    qed
  qed
qed

lemma srv_send_loop_queue:
  "pool_ok pl \<Longrightarrow> queue_ok pl p xs \<Longrightarrow>
   \<exists>p' pl' t' ss rs. srv_send_loop T p pl t = Some (p', pl', t') \<and> pool_ok pl' \<and> xs = ss @ rs \<and> queue_ok pl' p' rs
     \<and> chain_data pl' rs = chain_data pl rs \<and> (\<forall>j. j \<notin> set xs \<longrightarrow> pb_get j pl' = pb_get j pl)
     \<and> (sends_law T f \<longrightarrow> f t' = f t @ chain_data pl ss)"
proof (induction xs arbitrary: p pl t)
  case Nil
  then show ?case by (auto simp: srv_send_loop.simps queue_ok_def)
next
  case (Cons x xs)
  from Cons.prems(2) obtain b where b: "p = Some x" "pb_get x pl = Some b" by (auto simp: queue_ok_Cons)
  obtain e t1 where w: "tcp_write T (pb_data b) t = (e, t1)" by force
  have stop: ?case if "srv_send_loop T p pl t = Some (p, pl, t')" "sends_law T f \<Longrightarrow> f t' = f t" for t'
    using that Cons.prems by (intro exI [of _ p] exI [of _ pl] exI [of _ t'] exI [of _ "[]"] exI [of _ "x # xs"]) auto
  show ?case
  proof (cases "of_nat (length (pb_data b)) \<le> tcp_sndbuf T t")
    case False
    then show ?thesis using b by (intro stop [of t]) (simp_all add: srv_send_loop.simps)
  next
    case fits: True
    show ?thesis
    proof (cases "e = ERR_OK")
      case False
      then have "sends_law T f \<Longrightarrow> f (tcp_output T t1) = f t"
        using w by (auto simp: sends_law_def dest!: spec [of _ "pb_data b"] spec [of _ t])
      then show ?thesis using b fits w False by (intro stop [of "tcp_output T t1"]) (simp_all add: srv_send_loop.simps)
    next
      case True
      obtain pl1 n pl2 where s: "pbuf_ref (pb_next b) pl = Some pl1" "pbuf_free (Some x) pl1 = Some (n, pl2)" "pool_ok pl2"
        "queue_ok pl2 (pb_next b) xs" "same_data (set xs) pl pl2" "\<forall>j. j \<notin> set (x # xs) \<longrightarrow> pb_get j pl2 = pb_get j pl"
        by (rule send_one [OF Cons.prems b(2)])
      have run: "srv_send_loop T p pl t = srv_send_loop T (pb_next b) pl2 (tcp_output T t1)"
        using b fits w True s(1,2) by (subst srv_send_loop.simps) simp
      have f1: "sends_law T f \<Longrightarrow> f (tcp_output T t1) = f t @ pb_data b"
        using w True by (auto simp: sends_law_def dest!: spec [of _ "pb_data b"] spec [of _ t])
      from Cons.IH [OF s(3,4), of "tcp_output T t1"] obtain p' pl' t' ss rs where
        I: "srv_send_loop T (pb_next b) pl2 (tcp_output T t1) = Some (p', pl', t')" "pool_ok pl'" "xs = ss @ rs" "queue_ok pl' p' rs"
          "chain_data pl' rs = chain_data pl2 rs" "\<forall>j. j \<notin> set xs \<longrightarrow> pb_get j pl' = pb_get j pl2"
          "sends_law T f \<longrightarrow> f t' = f (tcp_output T t1) @ chain_data pl2 ss" by blast
      have e: "chain_data pl2 ss = chain_data pl ss \<and> chain_data pl2 rs = chain_data pl rs" using same_data_chain [OF s(5)] I(3) by simp
      show ?thesis
        using run I e b(2) f1 s(6)
        by (intro exI [of _ p'] exI [of _ pl'] exI [of _ t'] exI [of _ "x # ss"] exI [of _ rs]) auto
    qed
  qed
qed

section \<open>Runs\<close>

text \<open>
  What lwIP and the command interpreter do to the server.  \<open>srv_event_ok\<close> is lwIP's contract: a new
  control block and a new object are not in use, a callback is called for an open connection that has
  it; and the interpreter answers while the connection of the last request is open.
\<close>

datatype srv_event =
    Accept nat "nat option"
  | Recv nat "bytes list option" int
  | Sent nat
  | Poll nat
  | Error nat
  | Answer bytes

definition srv_event_ok :: "srv_event \<Rightarrow> 't srv \<Rightarrow> bool" where
  "srv_event_ok ev s = (case ev of
     Accept c m \<Rightarrow> \<not> sv_open s c \<and> (case m of None \<Rightarrow> True | Some e \<Rightarrow> sv_es s e = None)
   | Recv c p err \<Rightarrow> sv_open s c \<and> cb_recv (sv_cbs s c) \<and> p \<noteq> Some []
   | Sent c \<Rightarrow> sv_open s c \<and> cb_sent (sv_cbs s c)
   | Poll c \<Rightarrow> sv_open s c \<and> cb_poll (sv_cbs s c)
   | Error c \<Rightarrow> sv_open s c \<and> cb_err (sv_cbs s c)
   | Answer b \<Rightarrow> length b < 65536 \<and> (case last_gtwa_pcb s of None \<Rightarrow> True | Some c \<Rightarrow> sv_open s c))"

definition srv_step :: "'t tcp \<Rightarrow> srv_event \<Rightarrow> 't srv \<Rightarrow> 't srv option" where
  "srv_step T ev s = (case ev of
     Accept c m \<Rightarrow> map_option snd (tcp_echoserver_accept m c
       (s\<lparr>sv_open := (sv_open s)(c := True), sv_arg := (sv_arg s)(c := None), sv_tcp := (sv_tcp s)(c := tcp_new_state T)\<rparr>))
   | Recv c p err \<Rightarrow> Option.bind (sv_arg s c) (\<lambda>e. map_option snd (tcp_echoserver_recv T e c p err s))
   | Sent c \<Rightarrow> Option.bind (sv_arg s c) (\<lambda>e. map_option snd (tcp_echoserver_sent T e c s))
   | Poll c \<Rightarrow> map_option snd (tcp_echoserver_poll T (sv_arg s c) c s)
   | Error c \<Rightarrow> tcp_echoserver_error (sv_arg s c)
       (s\<lparr>sv_open := (sv_open s)(c := False), sv_arg := (sv_arg s)(c := None), sv_cbs := (sv_cbs s)(c := no_cbs)\<rparr>)
   | Answer b \<Rightarrow> map_option snd (gtwa_write_response T b s))"

fun srv_run :: "'t tcp \<Rightarrow> srv_event list \<Rightarrow> 't srv \<Rightarrow> 't srv option" where
  "srv_run T [] s = Some s"
| "srv_run T (ev # evs) s = Option.bind (srv_step T ev s) (srv_run T evs)"

fun srv_legal :: "'t tcp \<Rightarrow> srv_event list \<Rightarrow> 't srv \<Rightarrow> bool" where
  "srv_legal T [] s = True"
| "srv_legal T (ev # evs) s = (srv_event_ok ev s \<and> (case srv_step T ev s of None \<Rightarrow> True | Some s' \<Rightarrow> srv_legal T evs s'))"

section \<open>The invariant\<close>

text \<open>\<open>q\<close> gives the buffers each object's queue consists of.\<close>

definition srv_ok :: "(nat \<Rightarrow> nat list) \<Rightarrow> 't srv \<Rightarrow> bool" where
  "srv_ok q s \<longleftrightarrow> pool_ok (sv_pool s)
    \<and> (\<forall>c. sv_open s c \<longrightarrow> (\<exists>e x. sv_arg s c = Some e \<and> sv_es s e = Some x \<and> es_pcb x = c))
    \<and> (\<forall>e. sv_es s e = None \<longrightarrow> q e = [])
    \<and> (\<forall>e x. sv_es s e = Some x \<longrightarrow> sv_open s (es_pcb x) \<and> sv_arg s (es_pcb x) = Some e \<and> queue_ok (sv_pool s) (es_p x) (q e))
    \<and> (\<forall>e e'. e \<noteq> e' \<longrightarrow> set (q e) \<inter> set (q e') = {})"

lemma srv_okD:
  assumes "srv_ok q s"
  shows "pool_ok (sv_pool s)"
    "sv_open s c \<Longrightarrow> \<exists>e x. sv_arg s c = Some e \<and> sv_es s e = Some x \<and> es_pcb x = c"
    "sv_es s e = Some x \<Longrightarrow> sv_open s (es_pcb x) \<and> sv_arg s (es_pcb x) = Some e \<and> queue_ok (sv_pool s) (es_p x) (q e)"
    "sv_es s e = None \<Longrightarrow> q e = []"
    "e \<noteq> e' \<Longrightarrow> set (q e) \<inter> set (q e') = {}"
  using assms unfolding srv_ok_def by auto

lemma srv_queue_alloc: "srv_ok q s \<Longrightarrow> i \<in> set (q e) \<Longrightarrow> pb_get i (sv_pool s) \<noteq> None"
proof (cases "sv_es s e")
  case (Some x)
  assume "srv_ok q s" "i \<in> set (q e)"
  then have "chain (sv_pool s) (es_p x) (q e)" "i \<in> set (q e)" using srv_okD(3) [OF _ Some] by (auto simp: queue_ok_def)
  then show ?thesis using chain_get by fastforce
qed (auto dest: srv_okD(4))

text \<open>An object's queue is replaced by one from its own buffers and free ones.\<close>

lemma srv_ok_queue:
  assumes "srv_ok q s" "sv_es s e = Some x" "pool_ok pl" "queue_ok pl p ys"
    "\<forall>i \<in> set ys. i \<in> set (q e) \<or> pb_get i (sv_pool s) = None"
    "\<forall>i. i \<notin> set (q e) \<longrightarrow> pb_get i (sv_pool s) \<noteq> None \<longrightarrow> pb_get i pl = pb_get i (sv_pool s)"
    "sv_pool s' = pl" "sv_es s' = (sv_es s)(e \<mapsto> x')" "es_pcb x' = es_pcb x" "es_p x' = p" "sv_open s' = sv_open s" "sv_arg s' = sv_arg s"
  shows "srv_ok (q(e := ys)) s'" "e' \<noteq> e \<Longrightarrow> chain_data pl (q e') = chain_data (sv_pool s) (q e')"
proof -
  have same: "pb_get i pl = pb_get i (sv_pool s)" if "e' \<noteq> e" "i \<in> set (q e')" for e' i
    using assms(6) srv_queue_alloc [OF assms(1) that(2)] srv_okD(5) [OF assms(1) that(1)] that(2) by blast
  then show "e' \<noteq> e \<Longrightarrow> chain_data pl (q e') = chain_data (sv_pool s) (q e')" by (intro chain_data_cong) auto
  have q: "queue_ok pl p' (q e') = queue_ok (sv_pool s) p' (q e')" if "e' \<noteq> e" for e' p'
    using same [OF that] by (rule queue_ok_cong)
  have "set ys \<inter> set (q e') = {}" if "e' \<noteq> e" for e'
    using assms(5) srv_okD(5) [OF assms(1) that] srv_queue_alloc [OF assms(1), of _ e'] by blast
  moreover have "sv_open s c \<Longrightarrow> \<exists>e' x''. sv_arg s c = Some e' \<and> sv_es s' e' = Some x'' \<and> es_pcb x'' = c" for c
    using srv_okD(2) [OF assms(1), of c] assms(2,8,9) by (metis fun_upd_other fun_upd_same option.inject)
  ultimately show "srv_ok (q(e := ys)) s'"
    unfolding srv_ok_def using assms q srv_okD [OF assms(1)]
    by (auto split: if_splits)
qed

text \<open>A connection ends and its object with it.\<close>

lemma srv_ok_end:
  assumes "srv_ok q s" "sv_es s e = Some x" "sv_pool s' = sv_pool s" "sv_es s' = (sv_es s)(e := None)"
    "sv_open s' = (sv_open s)(es_pcb x := False)" "sv_arg s' = (sv_arg s)(es_pcb x := None)"
  shows "srv_ok (q(e := [])) s'"
proof -
  note D = srv_okD [OF assms(1)]
  have x: "sv_open s (es_pcb x)" "sv_arg s (es_pcb x) = Some e" using D(3) [OF assms(2)] by auto
  have "es_pcb y \<noteq> es_pcb x" if "sv_es s e' = Some y" "e' \<noteq> e" for e' y using D(3) [OF that(1)] x that(2) by auto
  moreover have "\<exists>e' y. sv_arg s' c = Some e' \<and> sv_es s' e' = Some y \<and> es_pcb y = c" if "sv_open s' c" for c
  proof -
    have c: "sv_open s c" "c \<noteq> es_pcb x" using that assms(5) by (auto split: if_splits)
    then obtain e' y where "sv_arg s c = Some e'" "sv_es s e' = Some y" "es_pcb y = c" using D(2) by blast
    moreover from this c(2) assms(2) have "e' \<noteq> e" by auto
    ultimately show ?thesis using c(2) assms(4,6) by simp
  qed
  ultimately show ?thesis unfolding srv_ok_def using assms D by (auto split: if_splits)
qed

definition es_up :: "tcp_echoserver \<Rightarrow> bool" where
  "es_up x \<longleftrightarrow> es_state x = ES_ACCEPTED \<or> es_state x = ES_RECEIVED"

text \<open>An open connection that is not closing, and its bytes: those sent followed by those queued.\<close>

definition alive :: "('t \<Rightarrow> bytes) \<Rightarrow> (nat \<Rightarrow> nat list) \<Rightarrow> 't srv \<Rightarrow> nat \<Rightarrow> nat \<Rightarrow> bytes \<Rightarrow> bool" where
  "alive f q s c e bs \<longleftrightarrow> sv_open s c \<and> sv_arg s c = Some e
    \<and> (case sv_es s e of None \<Rightarrow> False | Some x \<Rightarrow> es_up x)
    \<and> bs = f (sv_tcp s c) @ chain_data (sv_pool s) (q e)"

text \<open>The outcome of an operation: the invariant, and \<open>app c\<close> more bytes on the connections in \<open>P\<close>.\<close>

definition srv_post :: "'t tcp \<Rightarrow> ('t \<Rightarrow> bytes) \<Rightarrow> (nat \<Rightarrow> nat list) \<Rightarrow> 't srv \<Rightarrow> (nat \<Rightarrow> bool) \<Rightarrow> (nat \<Rightarrow> bytes) \<Rightarrow> 't srv option \<Rightarrow> bool" where
  "srv_post T f q s P app r \<longleftrightarrow> (\<exists>s' q'. r = Some s' \<and> srv_ok q' s'
    \<and> (\<forall>c e bs. P c \<longrightarrow> sends_law T f \<longrightarrow> alive f q s c e bs \<longrightarrow> alive f q' s' c e (bs @ app c)))"

lemma srv_postI:
  assumes "srv_ok q' s'" "\<And>c e bs. P c \<Longrightarrow> sends_law T f \<Longrightarrow> alive f q s c e bs \<Longrightarrow> alive f q' s' c e (bs @ app c)"
  shows "srv_post T f q s P app (Some s')"
  using assms unfolding srv_post_def by blast

lemma srv_post_weaken: "srv_post T f q s P app r \<Longrightarrow> (\<And>c. P' c \<Longrightarrow> P c) \<Longrightarrow> srv_post T f q s P' app r"
  unfolding srv_post_def by blast

text \<open>Only the pool, the objects, the control blocks and the connections matter.\<close>

lemma srv_ok_frame:
  "sv_pool s' = sv_pool s \<Longrightarrow> sv_es s' = sv_es s \<Longrightarrow> sv_open s' = sv_open s \<Longrightarrow> sv_arg s' = sv_arg s \<Longrightarrow> srv_ok q s' = srv_ok q s"
  by (simp add: srv_ok_def)

lemma alive_frame:
  "sv_pool s' = sv_pool s \<Longrightarrow> sv_es s' = sv_es s \<Longrightarrow> sv_open s' = sv_open s \<Longrightarrow> sv_arg s' = sv_arg s \<Longrightarrow>
   f (sv_tcp s' c) = f (sv_tcp s c) \<Longrightarrow> alive f q s' c e bs = alive f q s c e bs"
  by (simp add: alive_def)

lemma alive_inj: "srv_ok q s \<Longrightarrow> alive f q s c e bs \<Longrightarrow> sv_es s e' = Some x \<Longrightarrow> c = es_pcb x \<longleftrightarrow> e = e'"
  using srv_okD(2) [of q s c] srv_okD(3) [of q s e' x] by (auto simp: alive_def split: option.splits)

text \<open>Replacing one object's queue, with \<open>extra\<close> bytes more.\<close>

lemma srv_post_queue:
  assumes "srv_ok q s" "sv_es s e = Some x" "pool_ok pl" "queue_ok pl p ys"
    "\<forall>i \<in> set ys. i \<in> set (q e) \<or> pb_get i (sv_pool s) = None"
    "\<forall>i. i \<notin> set (q e) \<longrightarrow> pb_get i (sv_pool s) \<noteq> None \<longrightarrow> pb_get i pl = pb_get i (sv_pool s)"
    "sv_pool s' = pl" "sv_es s' = (sv_es s)(e \<mapsto> x')" "es_pcb x' = es_pcb x" "es_p x' = p" "sv_open s' = sv_open s" "sv_arg s' = sv_arg s"
    "\<And>c. c \<noteq> es_pcb x \<Longrightarrow> sv_tcp s' c = sv_tcp s c"
    "sends_law T f \<Longrightarrow> P (es_pcb x) \<Longrightarrow> es_up x \<Longrightarrow> es_up x'
      \<and> f (sv_tcp s' (es_pcb x)) @ chain_data pl ys = f (sv_tcp s (es_pcb x)) @ chain_data (sv_pool s) (q e) @ app (es_pcb x)"
    "\<And>c. c \<noteq> es_pcb x \<Longrightarrow> app c = []"
  shows "srv_post T f q s P app (Some s')"
proof (rule srv_postI)
  note Q = srv_ok_queue [OF assms(1-12)]
  show "srv_ok (q(e := ys)) s'" by (rule Q(1))
  fix c e' bs assume a: "P c" "sends_law T f" "alive f q s c e' bs"
  have i: "c = es_pcb x \<longleftrightarrow> e' = e" using alive_inj [OF assms(1) a(3) assms(2)] .
  show "alive f (q(e := ys)) s' c e' (bs @ app c)"
  proof (cases "e' = e")
    case True
    then show ?thesis using a assms(2,7-12,14) i by (auto simp: alive_def)
  next
    case False
    then show ?thesis using a assms(7,8,11,12,13,15) i Q(2) [of e'] by (auto simp: alive_def)
  qed
qed

lemma send_post:
  assumes "srv_ok q s" "sv_es s e = Some x" "c = es_pcb x"
  shows "srv_post T f q s (\<lambda>_. True) (\<lambda>_. []) (tcp_echoserver_send T c e s)"
proof -
  note D = srv_okD [OF assms(1)]
  obtain p' pl' t' ss rs where r: "srv_send_loop T (es_p x) (sv_pool s) (sv_tcp s c) = Some (p', pl', t')" "pool_ok pl'"
    "q e = ss @ rs" "queue_ok pl' p' rs" "chain_data pl' rs = chain_data (sv_pool s) rs"
    "\<forall>j. j \<notin> set (q e) \<longrightarrow> pb_get j pl' = pb_get j (sv_pool s)"
    "sends_law T f \<longrightarrow> f t' = f (sv_tcp s c) @ chain_data (sv_pool s) ss"
    using srv_send_loop_queue [OF D(1), of "es_p x" "q e" T "sv_tcp s c" f] D(3) [OF assms(2)] by blast
  have "tcp_echoserver_send T c e s = Some (s\<lparr>sv_es := (sv_es s)(e \<mapsto> x\<lparr>es_p := p'\<rparr>), sv_pool := pl', sv_tcp := (sv_tcp s)(c := t')\<rparr>)"
    using assms(2) r(1) by (simp add: tcp_echoserver_send_def)
  moreover have "srv_post T f q s (\<lambda>_. True) (\<lambda>_. []) (Some (s\<lparr>sv_es := (sv_es s)(e \<mapsto> x\<lparr>es_p := p'\<rparr>), sv_pool := pl', sv_tcp := (sv_tcp s)(c := t')\<rparr>))"
    by (rule srv_post_queue [OF assms(1,2) r(2,4), where x' = "x\<lparr>es_p := p'\<rparr>"]) (use r assms(3) in \<open>auto simp: es_up_def\<close>)
  ultimately show ?thesis by simp
qed

lemma close_post:
  assumes "srv_ok q s" "sv_es s e = Some x" "c = es_pcb x"
  shows "srv_post T f q s (\<lambda>d. d \<noteq> c) (\<lambda>_. []) (tcp_echoserver_connection_close c (Some e) s)"
proof -
  define s' where "s' = s\<lparr>sv_es := (sv_es s)(e := None), sv_open := (sv_open s)(c := False), sv_arg := (sv_arg s)(c := None),
    sv_cbs := (sv_cbs s)(c := no_cbs)\<rparr>"
  have "tcp_echoserver_connection_close c (Some e) s = Some s'"
    using assms(2) by (simp add: tcp_echoserver_connection_close_def Let_def s'_def)
  moreover have "srv_post T f q s (\<lambda>d. d \<noteq> c) (\<lambda>_. []) (Some s')"
  proof (rule srv_postI)
    show "srv_ok (q(e := [])) s'" by (rule srv_ok_end [OF assms(1,2)]) (simp_all add: s'_def assms(3))
    fix d e' bs assume "d \<noteq> c" "alive f q s d e' bs"
    then show "alive f (q(e := [])) s' d e' (bs @ [])"
      using alive_inj [OF assms(1) _ assms(2), of f d e' bs] assms(3) by (auto simp: alive_def s'_def)
  qed
  ultimately show ?thesis by simp
qed

lemma srv_post_trans:
  assumes "srv_post T f q s P app (Some s1)" "\<And>q1. srv_ok q1 s1 \<Longrightarrow> srv_post T f q1 s1 P app' r"
  shows "srv_post T f q s P (\<lambda>c. app c @ app' c) r"
proof -
  obtain q1 where q1: "srv_ok q1 s1" "\<forall>c e bs. P c \<longrightarrow> sends_law T f \<longrightarrow> alive f q s c e bs \<longrightarrow> alive f q1 s1 c e (bs @ app c)"
    using assms(1) unfolding srv_post_def by auto
  obtain s2 q2 where q2: "r = Some s2" "srv_ok q2 s2"
    "\<forall>c e bs. P c \<longrightarrow> sends_law T f \<longrightarrow> alive f q1 s1 c e bs \<longrightarrow> alive f q2 s2 c e (bs @ app' c)"
    using assms(2) [OF q1(1)] unfolding srv_post_def by blast
  have "alive f q2 s2 c e (bs @ app c @ app' c)" if "P c" "sends_law T f" "alive f q s c e bs" for c e bs
    using q1(2) q2(3) that by (metis append.assoc)
  then show ?thesis using q2(1,2) by (simp add: srv_postI)
qed

lemma srv_post_then:
  assumes "srv_post T f q s P (\<lambda>_. []) (Some s1)" "\<And>q1. srv_ok q1 s1 \<Longrightarrow> srv_post T f q1 s1 P app r"
  shows "srv_post T f q s P app r"
  using srv_post_trans [OF assms] by simp

lemma srv_post_frame:
  assumes "srv_ok q s" "sv_pool s' = sv_pool s" "sv_es s' = sv_es s" "sv_open s' = sv_open s" "sv_arg s' = sv_arg s"
    "\<And>c. sends_law T f \<Longrightarrow> f (sv_tcp s' c) = f (sv_tcp s c)"
  shows "srv_post T f q s (\<lambda>_. True) (\<lambda>_. []) (Some s')"
  using assms(1) srv_ok_frame [OF assms(2-5)] alive_frame [OF assms(2-5) assms(6)] by (intro srv_postI) auto

lemma srv_post_dead:
  assumes "srv_ok q s" "sv_es s e = Some x" "\<not> es_up x" "srv_post T f q s (\<lambda>d. d \<noteq> es_pcb x) app r"
  shows "srv_post T f q s (\<lambda>_. True) app r"
proof -
  have "\<not> alive f q s (es_pcb x) e' bs" for e' bs
    using alive_inj [OF assms(1) _ assms(2), of f "es_pcb x" e' bs] assms(2,3) by (auto simp: alive_def)
  then show ?thesis using assms(4) unfolding srv_post_def by metis
qed

lemma closing_post:
  assumes "srv_ok q s" "sv_es s e = Some x" "c = es_pcb x" "\<not> es_up x"
  shows "srv_post T f q s (\<lambda>_. True) (\<lambda>_. []) (tcp_echoserver_connection_close c (Some e) s)"
  using srv_post_dead [OF assms(1,2,4)] close_post [OF assms(1-3)] assms(3) by simp

lemma set_state_post:
  assumes "srv_ok q s" "sv_es s e = Some x" "sv_es s' = (sv_es s)(e \<mapsto> x\<lparr>es_state := st\<rparr>)"
    "sv_pool s' = sv_pool s" "sv_open s' = sv_open s" "sv_arg s' = sv_arg s" "\<And>c. sends_law T f \<Longrightarrow> f (sv_tcp s' c) = f (sv_tcp s c)"
  shows "srv_post T f q s (\<lambda>c. c = es_pcb x \<longrightarrow> es_up (x\<lparr>es_state := st\<rparr>)) (\<lambda>_. []) (Some s')"
proof (rule srv_postI)
  note D = srv_okD [OF assms(1)]
  show "srv_ok (q(e := q e)) s'"
    by (rule srv_ok_queue [OF assms(1,2), where x' = "x\<lparr>es_state := st\<rparr>" and p = "es_p x" and pl = "sv_pool s"])
      (use D(1) D(3) [OF assms(2)] assms in auto)
  fix c e' bs assume "c = es_pcb x \<longrightarrow> es_up (x\<lparr>es_state := st\<rparr>)" "sends_law T f" "alive f q s c e' bs"
  then show "alive f (q(e := q e)) s' c e' (bs @ [])"
    using alive_inj [OF assms(1) _ assms(2), of f c e' bs] assms(3-7) by (auto simp: alive_def)
qed

text \<open>The queue is forgotten.\<close>

lemma drop_queue_post:
  assumes "srv_ok q s" "sv_es s e = Some x" "sv_es s' = (sv_es s)(e \<mapsto> x\<lparr>es_p := None\<rparr>)"
    "sv_pool s' = sv_pool s" "sv_open s' = sv_open s" "sv_arg s' = sv_arg s" "\<And>c. c \<noteq> es_pcb x \<Longrightarrow> sv_tcp s' c = sv_tcp s c"
  shows "srv_post T f q s (\<lambda>c. c \<noteq> es_pcb x) (\<lambda>_. []) (Some s')"
  by (rule srv_post_queue [OF assms(1,2) srv_okD(1) [OF assms(1)], where p = None and ys = "[]" and x' = "x\<lparr>es_p := None\<rparr>"])
    (use assms in \<open>auto simp: queue_ok_def\<close>)

definition gentle :: "srv_event \<Rightarrow> nat \<Rightarrow> bool" where
  "gentle ev c = (case ev of Recv d p err \<Rightarrow> d = c \<longrightarrow> p \<noteq> None \<and> err = ERR_OK | Error d \<Rightarrow> d \<noteq> c | _ \<Rightarrow> True)"

lemma recv_post:
  assumes "srv_ok q s" "sv_open s c" "sv_arg s c = Some e"
  shows "srv_post T f q s (gentle (Recv c p err)) (\<lambda>_. []) (map_option snd (tcp_echoserver_recv T e c p err s))"
proof -
  obtain x where x: "sv_es s e = Some x" "c = es_pcb x" using srv_okD(2) [OF assms(1,2)] assms(3) by auto
  show ?thesis
  proof (cases p)
    case None
    define s1 where "s1 = s\<lparr>sv_es := (sv_es s)(e \<mapsto> x\<lparr>es_state := ES_CLOSING\<rparr>)\<rparr>"
    define s2 where "s2 = s1\<lparr>sv_cbs := (sv_cbs s1)(c := (sv_cbs s1 c)\<lparr>cb_sent := True\<rparr>)\<rparr>"
    have st: "srv_post T f q s (gentle (Recv c p err)) (\<lambda>_. []) (Some s')" if "s' = s1 \<or> s' = s2" for s'
      by (rule srv_post_weaken [OF set_state_post [OF assms(1) x(1), where st = ES_CLOSING]])
        (use that x in \<open>auto simp: es_up_def s1_def s2_def gentle_def None\<close>)
    have eq: "map_option snd (tcp_echoserver_recv T e c p err s) =
      (if es_p x = None then tcp_echoserver_connection_close c (Some e) s1 else tcp_echoserver_send T c e s2)"
      using None x(1) by (simp add: tcp_echoserver_recv_def s1_def s2_def Let_def option.map_comp comp_def option.map_ident)
    have e1: "sv_es s1 e = Some (x\<lparr>es_state := ES_CLOSING\<rparr>)" "sv_es s2 e = Some (x\<lparr>es_state := ES_CLOSING\<rparr>)" by (simp_all add: s1_def s2_def)
    show ?thesis unfolding eq
    proof (cases "es_p x = None")
      case True
      show "srv_post T f q s (gentle (Recv c p err)) (\<lambda>_. []) (if es_p x = None then tcp_echoserver_connection_close c (Some e) s1 else tcp_echoserver_send T c e s2)"
        using srv_post_then [OF st [of s1]] srv_post_weaken [OF closing_post [OF _ e1(1)]] x(2) True by (simp add: es_up_def)
    next
      case False
      show "srv_post T f q s (gentle (Recv c p err)) (\<lambda>_. []) (if es_p x = None then tcp_echoserver_connection_close c (Some e) s1 else tcp_echoserver_send T c e s2)"
        using srv_post_then [OF st [of s2]] srv_post_weaken [OF send_post [OF _ e1(2)]] x(2) False by auto
    qed
  next
    case (Some segs)
    show ?thesis
    proof (cases "err = ERR_OK")
      case False
      show ?thesis using Some False x
        by (auto simp: tcp_echoserver_recv_def gentle_def intro!: srv_post_weaken [OF drop_queue_post [OF assms(1) x(1)]])
    next
      case err: True
      show ?thesis
      proof (cases "es_state x")
        case ES_ACCEPTED
        then show ?thesis using Some err x
          by (auto simp: es_up_def tcp_echoserver_recv_def cb_srv_sock_rx_def sends_law_def
              intro!: srv_post_weaken [OF set_state_post [OF assms(1) x(1), where st = ES_RECEIVED]])
      next
        case ES_RECEIVED
        then show ?thesis using Some err x
          by (auto simp: es_up_def tcp_echoserver_recv_def cb_srv_sock_rx_def sends_law_def
              intro!: srv_post_weaken [OF srv_post_frame [OF assms(1)]])
      next
        case ES_NONE
        then have "\<not> es_up x" by (simp add: es_up_def)
        then show ?thesis using Some err x \<open>es_state x = _\<close>
          by (auto simp: tcp_echoserver_recv_def intro!: srv_post_weaken [OF srv_post_dead [OF assms(1) x(1) _ drop_queue_post [OF assms(1) x(1)]]])
      next
        case ES_CLOSING
        then have "\<not> es_up x" by (simp add: es_up_def)
        then show ?thesis using Some err x \<open>es_state x = _\<close>
          by (auto simp: tcp_echoserver_recv_def intro!: srv_post_weaken [OF srv_post_dead [OF assms(1) x(1) _ drop_queue_post [OF assms(1) x(1)]]])
      qed
    qed
  qed
qed

text \<open>Another connection's end leaves the rest alone.\<close>

lemma error_post:
  assumes "srv_ok q s" "sv_open s c"
  shows "srv_post T f q s (gentle (Error c)) (\<lambda>_. []) (srv_step T (Error c) s)"
proof -
  obtain e x where x: "sv_arg s c = Some e" "sv_es s e = Some x" "es_pcb x = c" using srv_okD(2) [OF assms] by blast
  define s' where "s' = s\<lparr>sv_open := (sv_open s)(c := False), sv_arg := (sv_arg s)(c := None),
    sv_cbs := (sv_cbs s)(c := no_cbs), sv_es := (sv_es s)(e := None)\<rparr>"
  have "srv_step T (Error c) s = Some s'" using x by (simp add: srv_step_def tcp_echoserver_error_def s'_def)
  moreover have "srv_post T f q s (gentle (Error c)) (\<lambda>_. []) (Some s')"
  proof (rule srv_postI)
    show "srv_ok (q(e := [])) s'" by (rule srv_ok_end [OF assms(1) x(2)]) (simp_all add: s'_def x(3))
    fix d e' bs assume "gentle (Error c) d" "alive f q s d e' bs"
    then show "alive f (q(e := [])) s' d e' (bs @ [])"
      using alive_inj [OF assms(1) _ x(2), of f d e' bs] x(3) by (auto simp: alive_def s'_def gentle_def)
  qed
  ultimately show ?thesis by simp
qed

lemma accept_post:
  assumes "srv_ok q s" "srv_event_ok (Accept c m) s"
  shows "srv_post T f q s (\<lambda>_. True) (\<lambda>_. []) (srv_step T (Accept c m) s)"
proof -
  note D = srv_okD [OF assms(1)]
  have c: "\<not> sv_open s c" "\<And>e. m = Some e \<Longrightarrow> sv_es s e = None" using assms(2) by (auto simp: srv_event_ok_def)
  have nc: "es_pcb x \<noteq> c" if "sv_es s e = Some x" for e x using D(3) [OF that] c(1) by auto
  show ?thesis
  proof (cases m)
    case None
    then obtain s' where s': "srv_step T (Accept c m) s = Some s'" "sv_pool s' = sv_pool s" "sv_es s' = sv_es s"
      "sv_open s' = sv_open s" "sv_arg s' = (sv_arg s)(c := None)" "\<And>d. d \<noteq> c \<Longrightarrow> sv_tcp s' d = sv_tcp s d"
      using c(1) by (auto simp: srv_step_def tcp_echoserver_accept_def tcp_echoserver_connection_close_def Let_def fun_upd_idem_iff)
    have "srv_ok q s'" unfolding srv_ok_def using D s' c nc by auto
    then show ?thesis unfolding s'(1) using s' c(1) by (intro srv_postI) (auto simp: alive_def)
  next
    case (Some e)
    then have e: "sv_es s e = None" using c(2) by simp
    then have qe: "q e = []" by (rule D(4))
    obtain s' x where s': "srv_step T (Accept c m) s = Some s'" "sv_pool s' = sv_pool s" "sv_es s' = (sv_es s)(e \<mapsto> x)"
      "es_pcb x = c" "es_p x = None" "sv_open s' = (sv_open s)(c := True)" "sv_arg s' = (sv_arg s)(c \<mapsto> e)"
      "\<And>d. d \<noteq> c \<Longrightarrow> sv_tcp s' d = sv_tcp s d"
      using Some by (auto simp: srv_step_def tcp_echoserver_accept_def)
    have o: "\<exists>e' y. sv_arg s' d = Some e' \<and> sv_es s' e' = Some y \<and> es_pcb y = d" if "sv_open s' d" for d
    proof (cases "d = c")
      case False
      then have "sv_open s d" using that s'(6) by simp
      then obtain e' y where "sv_arg s d = Some e'" "sv_es s e' = Some y" "es_pcb y = d" using D(2) [of d] by auto
      moreover from this e have "e' \<noteq> e" by auto
      ultimately show ?thesis using False s'(3,7) by simp
    qed (use s' in auto)
    have "srv_ok q s'" unfolding srv_ok_def using D s'(2-7) o nc e qe by (auto simp: queue_ok_def)
    then show ?thesis unfolding s'(1) using s' c(1) e by (intro srv_postI) (auto simp: alive_def)
  qed
qed

lemma sent_poll_post:
  assumes "srv_ok q s" "sv_open s c"
  shows "srv_post T f q s (\<lambda>_. True) (\<lambda>_. []) (srv_step T (Sent c) s)" "srv_post T f q s (\<lambda>_. True) (\<lambda>_. []) (srv_step T (Poll c) s)"
proof -
  obtain e x where x: "sv_arg s c = Some e" "sv_es s e = Some x" "es_pcb x = c" using srv_okD(2) [OF assms] by blast
  let ?r = "if es_p x \<noteq> None then tcp_echoserver_send T c e s
    else if es_state x = ES_CLOSING then tcp_echoserver_connection_close c (Some e) s else Some s"
  have "srv_step T (Sent c) s = ?r" "srv_step T (Poll c) s = ?r"
    using x by (simp_all add: srv_step_def tcp_echoserver_sent_def tcp_echoserver_poll_def option.map_comp comp_def option.map_ident)
  moreover have "srv_post T f q s (\<lambda>_. True) (\<lambda>_. []) ?r"
    using send_post [OF assms(1) x(2)] closing_post [OF assms(1) x(2)] srv_post_frame [OF assms(1)] x(3)
    by (auto simp: es_up_def)
  ultimately show "srv_post T f q s (\<lambda>_. True) (\<lambda>_. []) (srv_step T (Sent c) s)" "srv_post T f q s (\<lambda>_. True) (\<lambda>_. []) (srv_step T (Poll c) s)"
    by simp_all
qed

text \<open>What connection \<open>c\<close> accepts in a step: an answer that is sent to it with success.\<close>

definition accepted :: "'t tcp \<Rightarrow> srv_event \<Rightarrow> 't srv \<Rightarrow> nat \<Rightarrow> bytes" where
  "accepted T ev s c = (case ev of
     Answer b \<Rightarrow> if last_gtwa_pcb s = Some c
       then (case sock_srv_send T (Some c) b s of Some (sts, _) \<Rightarrow> if sts = 0 then b else [] | None \<Rightarrow> []) else []
   | _ \<Rightarrow> [])"

text \<open>A buffer chain just filled.\<close>

lemma fresh_chain:
  assumes "pool_ok pl" "length b < 65536"
  obtains (fail) pl1 where "pbuf_alloc PBUF_TRANSPORT (of_nat (length b)) pl = Some (None, pl1)" "pool_ok pl1"
      "\<And>i. pb_get i pl \<noteq> None \<Longrightarrow> pb_get i pl1 = pb_get i pl"
  | (got) p pl1 pl2 zs where "pbuf_alloc PBUF_TRANSPORT (of_nat (length b)) pl = Some (Some p, pl1)"
      "pbuf_take (Some p) b (of_nat (length b)) pl1 = Some (ERR_OK, pl2)" "pool_ok pl2" "zs \<noteq> []" "chain pl2 (Some p) zs" "distinct zs"
      "\<forall>i \<in> set zs. pb_get i pl = None \<and> refs pl2 i = 1" "chain_data pl2 zs = b" "\<And>i. i \<notin> set zs \<Longrightarrow> pb_get i pl2 = pb_get i pl"
proof -
  let ?n = "of_nat (length b) :: u16"
  have n: "unat ?n = length b" using assms(2) by (simp add: unat_of_nat_u16)
  obtain r pl1 where r: "pbuf_alloc PBUF_TRANSPORT ?n pl = Some (r, pl1)" "alloc_post [] ?n pl r pl1"
    using pbuf_alloc_post [OF assms(1)] by blast
  show thesis
  proof (cases r)
    case None
    show thesis by (rule fail [of pl1]) (use r None in \<open>auto simp: alloc_post_def\<close>)
  next
    case (Some p)
    then obtain zs where z: "zs \<noteq> []" "chain pl1 (Some p) zs" "distinct zs" "\<forall>i \<in> set zs. pb_get i pl = None"
      "\<forall>i \<in> set zs. refs pl1 i = 1" "length (chain_data pl1 zs) = length b" "\<forall>i. i \<notin> set zs \<longrightarrow> pb_get i pl1 = pb_get i pl"
      "map_option pb_tot_len (pb_get (hd zs) pl1) = Some ?n" "pool_ok pl1"
      using r(2) n by (auto simp: alloc_post_def)
    have hd: "hd zs = p" using z(1,2) by (cases zs) auto
    then obtain h where h: "pb_get p pl1 = Some h" "pb_tot_len h = ?n" using z(8) by auto
    obtain pl2 where t: "pbuf_take_loop (Some p) b pl1 = Some pl2" "chain pl2 (Some p) zs" "same_links (set zs) pl1 pl2"
      "chain_data pl2 zs = b @ drop (length b) (chain_data pl1 zs)"
      using take_loop_chain [OF z(2,3), of b] z(6) by auto
    show thesis
      by (rule got [of p pl1 pl2 zs]) (use r z t h n Some in \<open>auto simp: pbuf_take_def same_links_def\<close>)
  qed
qed

lemma refs_used: "1 \<le> refs pl i \<Longrightarrow> pb_get i pl \<noteq> None"
  by (cases "pb_get i pl") (auto simp: refs_def)

lemma queue_ok_fresh:
  assumes "chain pl (Some p) zs" "distinct zs" "\<forall>i \<in> set zs. refs pl i = 1"
  shows "queue_ok pl (Some p) zs"
  using assms by (auto simp: queue_ok_def split: list.splits)

text \<open>The new chain is hung behind the queue; its first buffer has two references from then on.\<close>

lemma chain_queue:
  assumes "queue_ok pl (Some h) xs" "xs \<noteq> []" "chain pl (Some p) zs" "zs \<noteq> []" "distinct zs" "\<forall>i \<in> set zs. refs pl i = 1"
    "set xs \<inter> set zs = {}" "pool_ok pl"
  obtains pl' where "pbuf_chain (Some h) (Some p) pl = Some pl'" "pool_ok pl'" "queue_ok pl' (Some h) (xs @ zs)"
    "chain_data pl' (xs @ zs) = chain_data pl xs @ chain_data pl zs" "\<And>i. i \<notin> set (xs @ zs) \<Longrightarrow> pb_get i pl' = pb_get i pl"
proof -
  have d: "distinct (xs @ zs)" using assms by (auto simp: queue_ok_def)
  obtain pl1 where c: "pbuf_cat_loop h p pl = Some pl1" "chain pl1 (Some h) (xs @ zs)" "same_links (set xs) pl pl1"
    "chain_data pl1 xs = chain_data pl xs"
    using cat_loop_chain [of pl h xs zs p] assms d by (auto simp: queue_ok_def)
  obtain ws where z: "zs = p # ws" using assms(3,4) by (cases zs) auto
  obtain b where b: "pb_get p pl1 = Some b" using c(2) z chain_get [of pl1 "Some h" "xs @ zs" p] by auto
  have "refs pl1 p = 1" using c(3) assms(6) z by (simp add: same_links_def)
  then have rp: "unat (pb_ref b) = 1" using b by (simp add: refs_def)
  define pl' where "pl' = pb_put p (b\<lparr>pb_ref := pb_ref b + 1\<rparr>) pl1"
  have r2: "unat (pb_ref b + 1) = 2" using unat_u8_add1 [of "pb_ref b"] rp by simp
  have refs: "refs pl' i = (if i = p then 2 else refs pl i)" for i
    unfolding pl'_def using b r2 c(3) by (simp add: same_links_def)
  have "pbuf_chain (Some h) (Some p) pl = Some pl'" using c(1) b by (simp add: pbuf_chain_def pbuf_cat_def pbuf_ref_def pl'_def)
  moreover have "pool_ok pl'" unfolding pl'_def using c(3) assms(8) b by (simp add: same_links_def pool_ok_put)
  moreover have "queue_ok pl' (Some h) (xs @ zs)"
  proof -
    have "chain pl' (Some h) (xs @ zs)" unfolding pl'_def using c(2) chain_put_same [OF b] by simp
    moreover have "p \<notin> set xs" using d z by auto
    ultimately show ?thesis using assms(1,2,6) d refs z by (cases xs) (auto simp: queue_ok_def)
  qed
  moreover have "chain_data pl' (xs @ zs) = chain_data pl xs @ chain_data pl zs"
  proof -
    have "chain_data pl1 zs = chain_data pl zs" by (rule chain_data_cong) (use c(3) assms(7) in \<open>auto simp: same_links_def\<close>)
    then show ?thesis unfolding pl'_def using chain_data_put_same [OF b] c(4) by simp
  qed
  moreover have "\<And>i. i \<notin> set (xs @ zs) \<Longrightarrow> pb_get i pl' = pb_get i pl"
    unfolding pl'_def using c(3) z b by (auto simp: same_links_def)
  ultimately show thesis by (rule that)
qed


lemma answer_post:
  assumes "srv_ok q s" "srv_event_ok (Answer b) s"
  shows "srv_post T f q s (\<lambda>_. True) (accepted T (Answer b) s) (srv_step T (Answer b) s)"
proof (cases "last_gtwa_pcb s")
  case None
  then have "accepted T (Answer b) s = (\<lambda>_. [])" "srv_step T (Answer b) s = Some s"
    by (auto simp: accepted_def srv_step_def gtwa_write_response_def)
  then show ?thesis using srv_post_frame [OF assms(1)] by simp
next
  case (Some c)
  note D = srv_okD [OF assms(1)]
  have len: "length b < 65536" and o: "sv_open s c" using assms(2) Some by (auto simp: srv_event_ok_def)
  obtain e x where x: "sv_arg s c = Some e" "sv_es s e = Some x" "es_pcb x = c" using D(2) [OF o] by blast
  have qx: "queue_ok (sv_pool s) (es_p x) (q e)" using D(3) [OF x(2)] by simp
  have step: "srv_step T (Answer b) s = map_option snd (sock_srv_send T (Some c) b s)"
    using Some by (simp add: srv_step_def gtwa_write_response_def option.map_comp comp_def case_prod_beta')
  have acc: "accepted T (Answer b) s = (\<lambda>d. if d = c then (case sock_srv_send T (Some c) b s of Some (sts, _) \<Rightarrow> if sts = 0 then b else [] | None \<Rightarrow> []) else [])"
    using Some by (auto simp: accepted_def)
  show ?thesis
  proof (cases rule: fresh_chain [OF D(1) len])
    case (1 pl1)
    have "sock_srv_send T (Some c) b s = Some (-3, s\<lparr>sv_pool := pl1\<rparr>)"
      using o x 1(1) by (simp add: sock_srv_send_def)
    moreover have "srv_post T f q s (\<lambda>_. True) (\<lambda>_. []) (Some (s\<lparr>sv_pool := pl1\<rparr>))"
    proof -
      have keep: "pb_get i pl1 = pb_get i (sv_pool s)" if "i \<in> set (q e)" for i
        using 1(3) srv_queue_alloc [OF assms(1) that] by blast
      have q1: "queue_ok pl1 (es_p x) (q e)" using qx queue_ok_cong [OF keep] by simp
      show ?thesis
        using srv_post_queue [OF assms(1) x(2) 1(2) q1, of "s\<lparr>sv_pool := pl1\<rparr>" x] x 1(3) chain_data_cong [OF keep]
        by (auto simp: fun_upd_idem)
    qed
    ultimately show ?thesis unfolding step acc by (simp cong: if_cong)
  next
    case (2 p pl1 pl2 zs)
    have dj: "set (q e) \<inter> set zs = {}" using srv_queue_alloc [OF assms(1)] 2(7) by blast
    have keep: "pb_get i pl2 = pb_get i (sv_pool s)" if "i \<in> set (q e)" for i using that dj 2(9) by auto
    have used: "pb_get i pl2 = pb_get i (sv_pool s)" if "pb_get i (sv_pool s) \<noteq> None" for i
      using that 2(7) 2(9) [of i] by (cases "i \<in> set zs") auto
    show ?thesis
    proof (cases "es_p x")
      case None
      then have qe: "q e = []" using qx by (cases "q e") (auto simp: queue_ok_def)
      define s1 where "s1 = s\<lparr>sv_pool := pl2, sv_es := (sv_es s)(e \<mapsto> x\<lparr>es_p := Some p\<rparr>)\<rparr>"
      have send: "sock_srv_send T (Some c) b s = map_option (Pair 0) (tcp_echoserver_send T c e s1)"
        using o x None 2(1,2) by (simp add: sock_srv_send_def s1_def)
      have p1: "srv_post T f q s (\<lambda>_. True) (\<lambda>d. if d = c then b else []) (Some s1)"
        by (rule srv_post_queue [OF assms(1) x(2) 2(3) queue_ok_fresh [OF 2(5,6)], where x' = "x\<lparr>es_p := Some p\<rparr>"])
          (use 2 used x(3) qe in \<open>auto simp: s1_def es_up_def\<close>)
      have p2: "srv_post T f q1 s1 (\<lambda>_. True) (\<lambda>_. []) (tcp_echoserver_send T c e s1)" if "srv_ok q1 s1" for q1
        by (rule send_post [OF that, of e "x\<lparr>es_p := Some p\<rparr>"]) (simp_all add: s1_def x(3))
      have p: "srv_post T f q s (\<lambda>_. True) (\<lambda>d. if d = c then b else []) (tcp_echoserver_send T c e s1)"
        using srv_post_trans [OF p1 p2] by simp
      then obtain s2 where s2: "tcp_echoserver_send T c e s1 = Some s2" unfolding srv_post_def by blast
      have "accepted T (Answer b) s = (\<lambda>d. if d = c then b else [])" unfolding acc send s2 by auto
      then show ?thesis using p unfolding step send s2 by simp
    next
      case (Some h)
      then have ne: "q e \<noteq> []" using qx by (auto simp: queue_ok_def)
      have q2: "queue_ok pl2 (Some h) (q e)" using qx Some queue_ok_cong [OF keep] by simp
      have "\<forall>i \<in> set zs. refs pl2 i = 1" using 2(7) by blast
      then obtain pl3 where c3: "pbuf_chain (Some h) (Some p) pl2 = Some pl3" "pool_ok pl3" "queue_ok pl3 (Some h) (q e @ zs)"
        "chain_data pl3 (q e @ zs) = chain_data pl2 (q e) @ chain_data pl2 zs" "\<And>i. i \<notin> set (q e @ zs) \<Longrightarrow> pb_get i pl3 = pb_get i pl2"
        using chain_queue [OF q2 ne 2(5,4,6) _ dj 2(3)] by blast
      have send: "sock_srv_send T (Some c) b s = Some (0, s\<lparr>sv_pool := pl3\<rparr>)"
        using o x Some 2(1,2) c3(1) by (simp add: sock_srv_send_def)
      have "chain_data pl2 (q e) = chain_data (sv_pool s) (q e)" using keep by (rule chain_data_cong)
      moreover have "pb_get i pl3 = pb_get i (sv_pool s)" if "i \<notin> set (q e)" "pb_get i (sv_pool s) \<noteq> None" for i
      proof -
        have "i \<notin> set zs" using that(2) 2(7) by auto
        then show ?thesis using c3(5) [of i] 2(9) [of i] that(1) by simp
      qed
      ultimately have "srv_post T f q s (\<lambda>_. True) (\<lambda>d. if d = c then b else []) (Some (s\<lparr>sv_pool := pl3\<rparr>))"
        using 2 x c3(4) Some by (intro srv_post_queue [OF assms(1) x(2) c3(2,3), where x' = x]) (auto simp: fun_upd_idem)
      moreover have "accepted T (Answer b) s = (\<lambda>d. if d = c then b else [])" unfolding acc send by auto
      ultimately show ?thesis unfolding step send by simp
    qed
  qed
qed


lemma srv_step_post:
  assumes "srv_ok q s" "srv_event_ok ev s"
  shows "srv_post T f q s (gentle ev) (accepted T ev s) (srv_step T ev s)"
proof -
  have none: "accepted T ev s = (\<lambda>_. [])" if "\<And>b. ev \<noteq> Answer b" using that by (cases ev) (auto simp: accepted_def)
  show ?thesis
  proof (cases ev)
    case (Accept c m)
    then show ?thesis using srv_post_weaken [OF accept_post [OF assms(1)]] assms(2) none by simp
  next
    case (Recv c p err)
    then have o: "sv_open s c" using assms(2) by (simp add: srv_event_ok_def)
    then obtain e where e: "sv_arg s c = Some e" using srv_okD(2) [OF assms(1)] by blast
    then show ?thesis using recv_post [OF assms(1) o e, of T f p err] Recv none by (simp add: srv_step_def)
  next
    case (Sent c)
    then show ?thesis using srv_post_weaken [OF sent_poll_post(1) [OF assms(1)]] assms(2) none by (simp add: srv_event_ok_def)
  next
    case (Poll c)
    then show ?thesis using srv_post_weaken [OF sent_poll_post(2) [OF assms(1)]] assms(2) none by (simp add: srv_event_ok_def)
  next
    case (Error c)
    then show ?thesis using error_post [OF assms(1)] assms(2) none by (simp add: srv_event_ok_def)
  next
    case (Answer b)
    then show ?thesis using srv_post_weaken [OF answer_post [OF assms(1)]] assms(2) by simp
  qed
qed

text \<open>Over a run: all that connection \<open>c\<close> accepts.\<close>

fun accepted_run :: "'t tcp \<Rightarrow> srv_event list \<Rightarrow> 't srv \<Rightarrow> nat \<Rightarrow> bytes" where
  "accepted_run T [] s c = []"
| "accepted_run T (ev # evs) s c = accepted T ev s c @ (case srv_step T ev s of None \<Rightarrow> [] | Some s' \<Rightarrow> accepted_run T evs s' c)"

lemma srv_run_post:
  "srv_ok q s \<Longrightarrow> srv_legal T evs s \<Longrightarrow>
   \<exists>s' q'. srv_run T evs s = Some s' \<and> srv_ok q' s'
     \<and> (\<forall>c e bs. (\<forall>ev \<in> set evs. gentle ev c) \<longrightarrow> sends_law T f \<longrightarrow> alive f q s c e bs \<longrightarrow> alive f q' s' c e (bs @ accepted_run T evs s c))"
proof (induction evs arbitrary: q s)
  case Nil
  then show ?case by auto
next
  case (Cons ev evs)
  obtain s1 q1 where 1: "srv_step T ev s = Some s1" "srv_ok q1 s1"
    "\<forall>c e bs. gentle ev c \<longrightarrow> sends_law T f \<longrightarrow> alive f q s c e bs \<longrightarrow> alive f q1 s1 c e (bs @ accepted T ev s c)"
    using srv_step_post [OF Cons.prems(1), of ev T f] Cons.prems(2) unfolding srv_post_def by auto
  obtain s' q' where 2: "srv_run T evs s1 = Some s'" "srv_ok q' s'"
    "\<forall>c e bs. (\<forall>ev \<in> set evs. gentle ev c) \<longrightarrow> sends_law T f \<longrightarrow> alive f q1 s1 c e bs \<longrightarrow> alive f q' s' c e (bs @ accepted_run T evs s1 c)"
    using Cons.IH [OF 1(2)] Cons.prems(2) 1(1) by auto
  have "alive f q' s' c e (bs @ accepted_run T (ev # evs) s c)"
    if "\<forall>ev \<in> set (ev # evs). gentle ev c" "sends_law T f" "alive f q s c e bs" for c e bs
  proof -
    have "alive f q1 s1 c e (bs @ accepted T ev s c)" using 1(3) that by simp
    then have "alive f q' s' c e ((bs @ accepted T ev s c) @ accepted_run T evs s1 c)" using 2(3) that by (simp del: append_assoc)
    then show ?thesis using 1(1) by simp
  qed
  then show ?case using 1(1) 2(1,2) by auto
qed

lemma srv_start_ok: "pool_ok pl \<Longrightarrow> srv_ok (\<lambda>_. []) (srv_start T pl)"
  by (auto simp: srv_ok_def srv_start_def)

section \<open>What the server promises\<close>

lemma srv_legal_append:
  "srv_legal T (evs @ evs') s \<longleftrightarrow> srv_legal T evs s \<and> (case srv_run T evs s of None \<Rightarrow> True | Some s' \<Rightarrow> srv_legal T evs' s')"
  by (induction evs arbitrary: s) (auto split: option.splits)

lemma srv_run_append: "srv_run T (evs @ evs') s = Option.bind (srv_run T evs s) (srv_run T evs')"
  by (induction evs arbitrary: s) (auto split: option.splits bind_splits)

text \<open>A connection whose state tells the bytes written to it.\<close>

locale sending_tcp =
  fixes T :: "'t tcp" and f :: "'t \<Rightarrow> bytes"
  assumes law: "sends_law T f"
begin

lemma run_stream:
  assumes "srv_ok q s" "srv_legal T evs s" "alive f q s c e bs" "\<forall>ev \<in> set evs. gentle ev c"
  shows "\<exists>s' x xs. srv_run T evs s = Some s' \<and> sv_es s' e = Some x \<and> chain (sv_pool s') (es_p x) xs
    \<and> f (sv_tcp s' c) @ chain_data (sv_pool s') xs = bs @ accepted_run T evs s c"
proof -
  obtain s' q' where r: "srv_run T evs s = Some s'" "srv_ok q' s'" "alive f q' s' c e (bs @ accepted_run T evs s c)"
    using srv_run_post [OF assms(1,2), of f] assms(3,4) law by blast
  obtain x where x: "sv_es s' e = Some x" using r(3) by (auto simp: alive_def split: option.splits)
  have "chain (sv_pool s') (es_p x) (q' e)" using srv_okD(3) [OF r(2) x] by (simp add: queue_ok_def)
  then show ?thesis using r(1,3) x by (auto simp: alive_def)
qed

end

text \<open>Any TCP with a log of what it was given.\<close>

definition logged :: "'t tcp \<Rightarrow> ('t \<times> bytes) tcp" where
  "logged T =
    \<lparr>tcp_sndbuf = (\<lambda>(t, w). tcp_sndbuf T t),
     tcp_write = (\<lambda>d (t, w). case tcp_write T d t of (err, t') \<Rightarrow> (err, t', if err = ERR_OK then w @ d else w)),
     tcp_output = (\<lambda>(t, w). (tcp_output T t, w)), tcp_recved = (\<lambda>n (t, w). (tcp_recved T n t, w)),
     tcp_new_state = (tcp_new_state T, [])\<rparr>"

interpretation lg: sending_tcp "logged T" snd for T :: "'t tcp"
  by unfold_locales (auto simp: sends_law_def logged_def split: prod.splits)


text \<open>A TCP that takes everything.\<close>

definition ex_tcp :: "unit tcp" where
  "ex_tcp = \<lparr>tcp_sndbuf = (\<lambda>_. 1000), tcp_write = (\<lambda>_ t. (ERR_OK, t)), tcp_output = id, tcp_recved = (\<lambda>_. id), tcp_new_state = ()\<rparr>"


text \<open>C15: The byte stream: whatever happens on the other connections, what was written to an open connection
  followed by what waits in its queue is everything the server accepted for it, in order; nothing is
  lost, repeated or mixed up, however TCP refuses and retries.\<close>

lemma srv_stream_in_order:
  assumes "srv_legal (logged T) (before @ Accept c (Some e) # evs) (srv_start (logged T) memp_init_pool)"
    "srv_run (logged T) (before @ [Accept c (Some e)]) (srv_start (logged T) memp_init_pool) = Some s0"
    "\<forall>ev \<in> set evs. gentle ev c"
  shows "\<exists>s x xs. srv_run (logged T) evs s0 = Some s \<and> sv_es s e = Some x \<and> chain (sv_pool s) (es_p x) xs
    \<and> snd (sv_tcp s c) @ chain_data (sv_pool s) xs = accepted_run (logged T) evs s0 c"
proof -
  let ?i = "srv_start (logged T) memp_init_pool"
  obtain s1 where s1: "srv_run (logged T) before ?i = Some s1" "srv_step (logged T) (Accept c (Some e)) s1 = Some s0"
    using assms(2) by (auto simp: srv_run_append bind_eq_Some_conv)
  have l: "srv_legal (logged T) (before @ [Accept c (Some e)]) ?i" "srv_legal (logged T) evs s0"
    using assms(1) s1 by (simp_all add: srv_legal_append)
  obtain q0 where q0: "srv_ok q0 s0" using srv_run_post [OF srv_start_ok [OF pool_ok_init] l(1), of snd] assms(2) by auto
  have "sv_open s0 c \<and> sv_arg s0 c = Some e \<and> (\<exists>x. sv_es s0 e = Some x \<and> es_up x \<and> es_p x = None) \<and> snd (sv_tcp s0 c) = []"
    using s1(2) by (auto simp: srv_step_def tcp_echoserver_accept_def es_up_def logged_def)
  note u = this
  then obtain x where x: "sv_es s0 e = Some x" "es_p x = None" by blast
  have "q0 e = []" using srv_okD(3) [OF q0 x(1)] x(2) by (cases "q0 e") (auto simp: queue_ok_def)
  with u have "alive snd q0 s0 c e []" by (auto simp: alive_def)
  from lg.run_stream [OF q0 l(2) this assms(3)] show ?thesis by simp
qed


lemma srv_stream_in_order_witness:
  "\<exists>s0 s x xs. srv_run (logged ex_tcp) [Recv 3 (Some [[0x31]]) 0, Poll 3, Answer [0x32]] s0 = Some s \<and> sv_es s 0 = Some x
    \<and> chain (sv_pool s) (es_p x) xs
    \<and> snd (sv_tcp s 3) @ chain_data (sv_pool s) xs = accepted_run (logged ex_tcp) [Recv 3 (Some [[0x31]]) 0, Poll 3, Answer [0x32]] s0 3"
proof -
  obtain s0 where s0: "srv_run (logged ex_tcp) ([] @ [Accept 3 (Some 0)]) (srv_start (logged ex_tcp) memp_init_pool) = Some s0"
    by (simp add: srv_step_def tcp_echoserver_accept_def)
  have l: "srv_legal (logged ex_tcp) ([] @ Accept 3 (Some 0) # [Recv 3 (Some [[0x31]]) 0, Poll 3, Answer [0x32]])
      (srv_start (logged ex_tcp) memp_init_pool)"
    by (simp add: srv_event_ok_def srv_step_def srv_start_def tcp_echoserver_accept_def tcp_echoserver_recv_def
        tcp_echoserver_poll_def cb_srv_sock_rx_def split: option.split)
  have "\<forall>ev \<in> set [Recv 3 (Some [[0x31]]) 0, Poll 3, Answer [0x32]]. gentle ev 3" by (simp add: gentle_def)
  from srv_stream_in_order [OF l s0 this] show ?thesis by blast
qed

text \<open>Outside that contract: an answer after lwIP has reported an error on the connection reads a control block that is gone.\<close>

lemma srv_answer_dangling:
  "srv_run ex_tcp [Accept 3 (Some 0), Recv 3 (Some [[0x31]]) 0, Error 3, Answer [0x32]] (srv_start ex_tcp memp_init_pool) = None"
  by (simp add: srv_step_def srv_start_def tcp_echoserver_accept_def tcp_echoserver_recv_def cb_srv_sock_rx_def
      tcp_echoserver_error_def gtwa_write_response_def sock_srv_send_def)

end
