(* ===== verification/Sock_Cli.thy ===== *)
theory Sock_Cli
  imports Sock_Srv C_Text
begin

text \<open>
  The TCP clients that keep connections to the master and to other gateways (app/comm/sock_cli.c): a
  counter is sent on connecting and after every message received, and a connection that is not up is
  replaced every five seconds.  Objects and buffers as for the server; \<open>None\<close> is undefined behaviour.
\<close>

section \<open>Data\<close>

datatype cli_state = ESC_NOT_CONNECTED | ESC_CONNECTED | ESC_CLOSING | ESC_UNDEFINED

record echoclient =
  ec_state :: cli_state
  ec_pcb :: nat
  p_tx :: "nat option"

text \<open>
  One client and what of lwIP it uses.  \<open>cl_open\<close>: the control block is the client's; after \<open>tcp_close\<close>
  or when lwIP has dropped it, it is lwIP's.  \<open>cl_arg\<close> outlives the close, the source does not clear it.
  \<open>cl_connects\<close> are the calls of \<open>tcp_connect\<close>.
\<close>

record 't cli =
  cl_pool :: pool
  cl_es :: "nat \<Rightarrow> echoclient option"
  cl_open :: "nat \<Rightarrow> bool"
  cl_arg :: "nat \<Rightarrow> nat option"
  cl_cbs :: "nat \<Rightarrow> cbs"
  cl_tcp :: "nat \<Rightarrow> 't"
  message_count :: u32
  cl_inst :: "nat option"
  timeout_cnt :: u32
  DestIPaddr :: bytes
  cl_port :: int
  cl_connects :: "(nat \<times> bytes \<times> int) list"

abbreviation SOCK_CLI_TO_MS :: u32 where "SOCK_CLI_TO_MS \<equiv> 5000"

text \<open>\<open>sprintf\<close> with \<open>%ld\<close> of the counter.\<close>

definition cli_line :: "u32 \<Rightarrow> bytes" where
  "cli_line n = ascii ''=> '' @ (if sint n < 0 then 0x2D # dec_digits (nat (- sint n)) else dec_digits (nat (sint n)))
     @ ascii '' <='' @ [10]"

section \<open>Callbacks\<close>

text \<open>A control block may be null; the error callback is not touched.\<close>

definition tcp_echoclient_connection_close :: "nat option \<Rightarrow> nat option \<Rightarrow> 't cli \<Rightarrow> 't cli option" where
  "tcp_echoclient_connection_close tpcb es s =
    Option.bind (case tpcb of None \<Rightarrow> Some s
                 | Some c \<Rightarrow> if cl_open s c then Some (s\<lparr>cl_cbs := (cl_cbs s)(c := (cl_cbs s c)\<lparr>cb_recv := False, cb_sent := False, cb_poll := False\<rparr>)\<rparr>)
                             else None) (\<lambda>s1.
    Option.bind (case es of None \<Rightarrow> Some s1
                 | Some e \<Rightarrow> if cl_es s1 e = None then None else Some (s1\<lparr>cl_es := (cl_es s1)(e := None)\<rparr>)) (\<lambda>s2.
    Some (case tpcb of None \<Rightarrow> s2 | Some c \<Rightarrow> s2\<lparr>cl_open := (cl_open s2)(c := False)\<rparr>)))"

text \<open>The loop is the server's without the call of \<open>tcp_output\<close>.\<close>

definition tcp_echoclient_send :: "'t tcp \<Rightarrow> nat \<Rightarrow> nat \<Rightarrow> 't cli \<Rightarrow> 't cli option" where
  "tcp_echoclient_send T tpcb es s =
    Option.bind (cl_es s es) (\<lambda>x.
      Option.bind (srv_send_loop (T\<lparr>tcp_output := id\<rparr>) (p_tx x) (cl_pool s) (cl_tcp s tpcb)) (\<lambda>(p, pl, t).
        Some (s\<lparr>cl_es := (cl_es s)(es \<mapsto> x\<lparr>p_tx := p\<rparr>), cl_pool := pl, cl_tcp := (cl_tcp s)(tpcb := t)\<rparr>)))"

definition tcp_echoclient_sent :: "'t tcp \<Rightarrow> nat \<Rightarrow> nat \<Rightarrow> 't cli \<Rightarrow> (int \<times> 't cli) option" where
  "tcp_echoclient_sent T arg tpcb s =
    Option.bind (cl_es s arg) (\<lambda>x.
      map_option (Pair ERR_OK) (if p_tx x \<noteq> None then tcp_echoclient_send T tpcb arg s else Some s))"

text \<open>The line with the counter becomes the buffer to send; an earlier one is forgotten.  The flag: there was a buffer.\<close>

definition cli_queue_line :: "'t tcp \<Rightarrow> nat \<Rightarrow> nat \<Rightarrow> 't cli \<Rightarrow> (bool \<times> 't cli) option" where
  "cli_queue_line T tpcb es s =
    (let line = cli_line (message_count s)
     in Option.bind (cl_es s es) (\<lambda>x.
        Option.bind (pbuf_alloc PBUF_TRANSPORT (of_nat (length line)) (cl_pool s)) (\<lambda>(p, pl1).
          let s1 = s\<lparr>cl_es := (cl_es s)(es \<mapsto> x\<lparr>p_tx := p\<rparr>), cl_pool := pl1\<rparr>
          in if p = None then Some (False, s1)
             else Option.bind (pbuf_take p line (of_nat (length line)) pl1) (\<lambda>(_, pl2).
                    map_option (Pair True) (tcp_echoclient_send T tpcb es
                      (s1\<lparr>cl_pool := pl2, cl_arg := (cl_arg s1)(tpcb \<mapsto> es),
                          cl_cbs := (cl_cbs s1)(tpcb := (cl_cbs s1 tpcb)\<lparr>cb_recv := True, cb_sent := True, cb_poll := True\<rparr>)\<rparr>))))))"

text \<open>\<open>p\<close>: no buffer, or the payloads of the received chain, which is lwIP's own and is freed once on every path.\<close>

definition tcp_echoclient_recv :: "'t tcp \<Rightarrow> nat \<Rightarrow> nat \<Rightarrow> bytes list option \<Rightarrow> int \<Rightarrow> 't cli \<Rightarrow> (int \<times> 't cli) option" where
  "tcp_echoclient_recv T arg tpcb p err s =
    Option.bind (cl_es s arg) (\<lambda>x.
      (case p of
         None \<Rightarrow>
           (let s1 = s\<lparr>cl_es := (cl_es s)(arg \<mapsto> x\<lparr>ec_state := ESC_CLOSING\<rparr>)\<rparr>
            in map_option (Pair ERR_OK)
                 (if p_tx x = None then tcp_echoclient_connection_close (Some tpcb) (Some arg) s1
                  else tcp_echoclient_send T tpcb arg s1))
       | Some segs \<Rightarrow>
           if err \<noteq> ERR_OK then Some (err, s)
           else (let s1 = s\<lparr>cl_tcp := (cl_tcp s)(tpcb := tcp_recved T (of_nat (length (concat segs))) (cl_tcp s tpcb))\<rparr>
                 in if ec_state x = ESC_CONNECTED
                    then map_option (\<lambda>(_, s2). (ERR_OK, s2)) (cli_queue_line T tpcb arg (s1\<lparr>message_count := message_count s1 + 1\<rparr>))
                    else Some (ERR_OK, s1))))"

definition tcp_echoclient_poll :: "'t tcp \<Rightarrow> nat option \<Rightarrow> nat \<Rightarrow> 't cli \<Rightarrow> (int \<times> 't cli) option" where
  "tcp_echoclient_poll T arg tpcb s =
    (case arg of
       None \<Rightarrow> Some (-13, s\<lparr>cl_open := (cl_open s)(tpcb := False)\<rparr>)
     | Some es \<Rightarrow>
         Option.bind (cl_es s es) (\<lambda>x.
           map_option (Pair ERR_OK)
             (if p_tx x \<noteq> None then tcp_echoclient_send T tpcb es s
              else if ec_state x = ESC_CLOSING then tcp_echoclient_connection_close (Some tpcb) (Some es) s
              else Some s)))"

text \<open>\<open>mem\<close> is the result of \<open>mem_malloc\<close>.  Without a buffer the object is not registered and the result is \<open>err\<close>, no error.\<close>

definition tcp_echoclient_connected :: "'t tcp \<Rightarrow> nat option \<Rightarrow> nat \<Rightarrow> int \<Rightarrow> 't cli \<Rightarrow> (int \<times> 't cli) option" where
  "tcp_echoclient_connected T mem tpcb err s =
    (if err = ERR_OK
     then (case mem of
             Some es \<Rightarrow>
               map_option (\<lambda>(b, s'). (if b then ERR_OK else err, s'))
                 (cli_queue_line T tpcb es (s\<lparr>cl_es := (cl_es s)(es \<mapsto> \<lparr>ec_state = ESC_CONNECTED, ec_pcb = tpcb, p_tx = None\<rparr>)\<rparr>))
           | None \<Rightarrow> map_option (Pair ERR_MEM) (tcp_echoclient_connection_close (Some tpcb) None s))
     else map_option (Pair err) (tcp_echoclient_connection_close (Some tpcb) None s))"

section \<open>The client\<close>

text \<open>\<open>tcp_new\<close> gives a control block or none.\<close>

definition cli_new :: "'t tcp \<Rightarrow> nat option \<Rightarrow> 't cli \<Rightarrow> 't cli" where
  "cli_new T new s = (case new of None \<Rightarrow> s\<lparr>cl_inst := None\<rparr>
     | Some c \<Rightarrow> s\<lparr>cl_inst := Some c, cl_open := (cl_open s)(c := True), cl_arg := (cl_arg s)(c := None), cl_cbs := (cl_cbs s)(c := no_cbs),
         cl_tcp := (cl_tcp s)(c := tcp_new_state T)\<rparr>)"

definition cli_connect :: "'t cli \<Rightarrow> 't cli" where
  "cli_connect s = (case cl_inst s of None \<Rightarrow> s | Some c \<Rightarrow> s\<lparr>cl_connects := cl_connects s @ [(c, DestIPaddr s, cl_port s)]\<rparr>)"

definition sock_cli_init :: "'t tcp \<Rightarrow> nat option \<Rightarrow> bytes \<Rightarrow> int \<Rightarrow> 't cli \<Rightarrow> int \<times> 't cli" where
  "sock_cli_init T new ipaddr port s =
    (let s1 = (cli_new T new s)\<lparr>cl_port := port, timeout_cnt := 0\<rparr>
     in if new \<noteq> None then (0, cli_connect (s1\<lparr>DestIPaddr := take 4 ipaddr\<rparr>)) else (1, s1))"

text \<open>Reads the control block and the object its argument points to.\<close>

definition sock_cli_get_state :: "nat \<Rightarrow> 't cli \<Rightarrow> cli_state option" where
  "sock_cli_get_state c s =
    (if \<not> cl_open s c then None
     else (case cl_arg s c of None \<Rightarrow> Some ESC_UNDEFINED | Some e \<Rightarrow> map_option ec_state (cl_es s e)))"

definition sock_cli_poll :: "'t tcp \<Rightarrow> nat option \<Rightarrow> u32 \<Rightarrow> 't cli \<Rightarrow> 't cli option" where
  "sock_cli_poll T new diff_ms s =
    Option.bind (case cl_inst s of None \<Rightarrow> Some True | Some c \<Rightarrow> map_option (\<lambda>st. st \<noteq> ESC_CONNECTED) (sock_cli_get_state c s)) (\<lambda>nc.
      if nc
      then if timeout_cnt s \<ge> SOCK_CLI_TO_MS
           then map_option (\<lambda>s1. cli_connect (cli_new T new s1))
                  (tcp_echoclient_connection_close (cl_inst s) None (s\<lparr>timeout_cnt := 0\<rparr>))
           else Some (s\<lparr>timeout_cnt := timeout_cnt s + diff_ms\<rparr>)
      else Some s)"

section \<open>Runs\<close>

datatype cli_event =
    Connected nat "nat option" int
  | CRecv nat "bytes list option" int
  | CSent nat
  | CPoll nat
  | Tick "nat option" u32

definition cli_step :: "'t tcp \<Rightarrow> cli_event \<Rightarrow> 't cli \<Rightarrow> 't cli option" where
  "cli_step T ev s = (case ev of
     Connected c m err \<Rightarrow> map_option snd (tcp_echoclient_connected T m c err s)
   | CRecv c p err \<Rightarrow> Option.bind (cl_arg s c) (\<lambda>e. map_option snd (tcp_echoclient_recv T e c p err s))
   | CSent c \<Rightarrow> Option.bind (cl_arg s c) (\<lambda>e. map_option snd (tcp_echoclient_sent T e c s))
   | CPoll c \<Rightarrow> map_option snd (tcp_echoclient_poll T (cl_arg s c) c s)
   | Tick new diff_ms \<Rightarrow> sock_cli_poll T new diff_ms s)"

fun cli_run :: "'t tcp \<Rightarrow> cli_event list \<Rightarrow> 't cli \<Rightarrow> 't cli option" where
  "cli_run T [] s = Some s"
| "cli_run T (ev # evs) s = Option.bind (cli_step T ev s) (cli_run T evs)"

definition cli_elapsed :: "cli_event \<Rightarrow> nat" where
  "cli_elapsed ev = (case ev of Tick _ d \<Rightarrow> unat d | _ \<Rightarrow> 0)"

text \<open>The callbacks leave the reconnection's own state alone.\<close>

definition cli_same :: "'t cli \<Rightarrow> 't cli \<Rightarrow> bool" where
  "cli_same s s' \<longleftrightarrow> timeout_cnt s' = timeout_cnt s \<and> cl_connects s' = cl_connects s"

lemma cli_close_same: "tcp_echoclient_connection_close c e s = Some s' \<Longrightarrow> cli_same s s'"
  by (auto simp: tcp_echoclient_connection_close_def cli_same_def split: option.splits if_splits bind_splits)

lemma cli_send_same: "tcp_echoclient_send T c e s = Some s' \<Longrightarrow> cli_same s s'"
  by (auto simp: tcp_echoclient_send_def cli_same_def split: option.splits bind_splits)

lemma cli_queue_line_same: "cli_queue_line T c e s = Some (b, s') \<Longrightarrow> cli_same s s'"
  by (auto simp: cli_queue_line_def cli_same_def Let_def split: option.splits bind_splits if_splits dest!: cli_send_same)

lemmas cli_same_intros = cli_close_same cli_send_same cli_queue_line_same

lemma cli_callback_same:
  assumes "cli_step T ev s = Some s'" "\<And>new d. ev \<noteq> Tick new d"
  shows "cli_same s s'"
proof (cases ev)
  case (Connected c m err)
  then show ?thesis using assms(1)
    by (auto simp: cli_step_def tcp_echoclient_connected_def split: option.splits if_splits dest!: cli_same_intros)
      (simp_all add: cli_same_def)
next
  case (CRecv c p err)
  then show ?thesis using assms(1)
    by (auto simp: cli_step_def tcp_echoclient_recv_def Let_def split: option.splits if_splits bind_splits dest!: cli_same_intros)
      (simp_all add: cli_same_def)
next
  case (CSent c)
  then show ?thesis using assms(1)
    by (auto simp: cli_step_def tcp_echoclient_sent_def split: option.splits if_splits bind_splits dest!: cli_same_intros)
      (simp_all add: cli_same_def)
next
  case (CPoll c)
  then show ?thesis using assms(1)
    by (auto simp: cli_step_def tcp_echoclient_poll_def split: option.splits if_splits bind_splits dest!: cli_same_intros)
      (simp_all add: cli_same_def)
qed (use assms(2) in simp)

lemma cli_tick:
  assumes "sock_cli_poll T new d s = Some s'" "unat d < 4294962296"
  shows "5000 * length (cl_connects s') + unat (timeout_cnt s') \<le> 5000 * length (cl_connects s) + unat (timeout_cnt s) + unat d"
proof -
  obtain nc where nc: "(case cl_inst s of None \<Rightarrow> Some True | Some c \<Rightarrow> map_option (\<lambda>st. st \<noteq> ESC_CONNECTED) (sock_cli_get_state c s)) = Some nc"
    using assms(1) unfolding sock_cli_poll_def by (auto split: bind_splits)
  consider "\<not> nc" | "nc" "timeout_cnt s \<ge> SOCK_CLI_TO_MS" | "nc" "\<not> timeout_cnt s \<ge> SOCK_CLI_TO_MS" by blast
  then show ?thesis
  proof cases
    case 1
    then show ?thesis using assms(1) nc by (simp add: sock_cli_poll_def)
  next
    case 2
    then obtain s1 where s1: "tcp_echoclient_connection_close (cl_inst s) None (s\<lparr>timeout_cnt := 0\<rparr>) = Some s1" "s' = cli_connect (cli_new T new s1)"
      using assms(1) nc by (auto simp: sock_cli_poll_def)
    have "cli_same (s\<lparr>timeout_cnt := 0\<rparr>) s1" using s1(1) by (rule cli_close_same)
    moreover have "5000 \<le> unat (timeout_cnt s)" using 2(2) by (simp add: word_le_nat_alt)
    ultimately show ?thesis using s1(2) by (auto simp: cli_same_def cli_connect_def cli_new_def split: option.splits)
  next
    case 3
    then have "unat (timeout_cnt s + d) = unat (timeout_cnt s) + unat d" using assms(2) by (subst unat_plus_if') (simp add: word_le_nat_alt)
    then show ?thesis using assms(1) nc 3 by (auto simp: sock_cli_poll_def)
  qed
qed

text \<open>Over any run the client calls \<open>tcp_connect\<close> at most once per 5000 ms.\<close>

lemma cli_run_paced:
  "cli_run T evs s = Some s' \<Longrightarrow> \<forall>ev \<in> set evs. cli_elapsed ev < 4294962296 \<Longrightarrow>
   5000 * length (cl_connects s') + unat (timeout_cnt s') \<le> 5000 * length (cl_connects s) + unat (timeout_cnt s) + sum_list (map cli_elapsed evs)"
proof (induction evs arbitrary: s)
  case (Cons ev evs)
  then obtain s1 where s1: "cli_step T ev s = Some s1" "cli_run T evs s1 = Some s'" by (auto split: bind_splits)
  have "5000 * length (cl_connects s1) + unat (timeout_cnt s1) \<le> 5000 * length (cl_connects s) + unat (timeout_cnt s) + cli_elapsed ev"
  proof (cases "\<exists>new d. ev = Tick new d")
    case True
    then show ?thesis using s1(1) cli_tick Cons.prems(2) by (auto simp: cli_step_def cli_elapsed_def)
  next
    case False
    then show ?thesis using cli_callback_same [OF s1(1)] by (auto simp: cli_same_def)
  qed
  then show ?case using Cons.IH [OF s1(2)] Cons.prems(2) by simp
qed simp


section \<open>What the client promises\<close>

text \<open>Pacing: whatever lwIP reports and however often the main loop polls, the client opens one
  connection when it is initialised and then at most one per 5000 ms.\<close>

lemma cli_reconnect_paced:
  assumes "cli_run T evs (snd (sock_cli_init T new ip port s0)) = Some s'" "\<forall>ev \<in> set evs. cli_elapsed ev < 4294962296"
  shows "length (cl_connects s') \<le> length (cl_connects s0) + 1 + sum_list (map cli_elapsed evs) div 5000"
proof -
  let ?i = "snd (sock_cli_init T new ip port s0)"
  have i: "timeout_cnt ?i = 0" "length (cl_connects ?i) \<le> length (cl_connects s0) + 1"
    by (auto simp: sock_cli_init_def cli_new_def cli_connect_def Let_def split: option.splits)
  have "5000 * length (cl_connects s') \<le> 5000 * length (cl_connects ?i) + sum_list (map cli_elapsed evs)"
    using cli_run_paced [OF assms] i(1) by simp
  then show ?thesis using i(2) by linarith
qed

definition cli_zero :: "unit cli" where
  "cli_zero = \<lparr>cl_pool = memp_init_pool, cl_es = (\<lambda>_. None), cl_open = (\<lambda>_. False), cl_arg = (\<lambda>_. None), cl_cbs = (\<lambda>_. no_cbs),
     cl_tcp = (\<lambda>_. ()), message_count = 0, cl_inst = None, timeout_cnt = 0, DestIPaddr = [], cl_port = 0, cl_connects = []\<rparr>"

lemmas cli_eval = cli_step_def sock_cli_poll_def sock_cli_get_state_def sock_cli_init_def cli_new_def cli_connect_def cli_zero_def
  tcp_echoclient_connection_close_def

lemma cli_reconnect_paced_witness:
  "\<exists>s'. cli_run ex_tcp [Tick (Some 1) 3000, Tick (Some 1) 3000, Tick (Some 1) 3000] (snd (sock_cli_init ex_tcp (Some 0) [10, 0, 0, 7] 5000 cli_zero)) = Some s'
    \<and> length (cl_connects s') = 2 \<and> length (cl_connects s') \<le> 0 + 1 + 9000 div 5000"
proof -
  obtain s' where s': "cli_run ex_tcp [Tick (Some 1) 3000, Tick (Some 1) 3000, Tick (Some 1) 3000]
      (snd (sock_cli_init ex_tcp (Some 0) [10, 0, 0, 7] 5000 cli_zero)) = Some s'" "length (cl_connects s') = 2"
    by (simp add: cli_eval)
  have "length (cl_connects s') \<le> length (cl_connects cli_zero) + 1
      + sum_list (map cli_elapsed [Tick (Some 1) 3000, Tick (Some 1) 3000, Tick (Some 1) 3000]) div 5000"
    by (rule cli_reconnect_paced [OF s'(1)]) (simp add: cli_elapsed_def)
  then show ?thesis using s' by (simp add: cli_zero_def cli_elapsed_def)
qed

text \<open>A connection that never came up.\<close>

definition cli_waiting :: "'t cli \<Rightarrow> bool" where
  "cli_waiting s \<longleftrightarrow> (case cl_inst s of None \<Rightarrow> True | Some c \<Rightarrow> cl_open s c \<and> cl_arg s c = None)"

lemma cli_tick_waiting:
  assumes "cli_waiting s"
  obtains s' where "sock_cli_poll T (Some c) d s = Some s'" "cli_waiting s'" "DestIPaddr s' = DestIPaddr s" "cl_port s' = cl_port s"
    "if timeout_cnt s \<ge> SOCK_CLI_TO_MS then cl_connects s' = cl_connects s @ [(c, DestIPaddr s, cl_port s)]
     else cl_connects s' = cl_connects s \<and> timeout_cnt s' = timeout_cnt s + d"
proof (cases "timeout_cnt s \<ge> SOCK_CLI_TO_MS")
  case True
  show thesis
  proof (rule that)
    show "sock_cli_poll T (Some c) d s = Some (cli_connect (cli_new T (Some c) (case cl_inst s of None \<Rightarrow> s\<lparr>timeout_cnt := 0\<rparr>
        | Some k \<Rightarrow> s\<lparr>timeout_cnt := 0,
            cl_cbs := (cl_cbs s)(k := (cl_cbs s k)\<lparr>cb_recv := False, cb_sent := False, cb_poll := False\<rparr>), cl_open := (cl_open s)(k := False)\<rparr>)))"
      using True assms
      by (cases "cl_inst s") (simp_all add: cli_waiting_def sock_cli_poll_def sock_cli_get_state_def tcp_echoclient_connection_close_def)
  qed (use True in \<open>auto simp: cli_waiting_def cli_new_def cli_connect_def split: option.split\<close>)
next
  case False
  show thesis
  proof (rule that)
    show "sock_cli_poll T (Some c) d s = Some (s\<lparr>timeout_cnt := timeout_cnt s + d\<rparr>)"
      using False assms by (cases "cl_inst s") (simp_all add: cli_waiting_def sock_cli_poll_def sock_cli_get_state_def)
  qed (use False assms in \<open>auto simp: cli_waiting_def split: option.splits\<close>)
qed

lemma cli_waiting_run:
  "cli_waiting s \<Longrightarrow> \<forall>d \<in> set ds. unat d < 4294962296 \<Longrightarrow>
   \<exists>s'. cli_run T (map (Tick (Some c)) ds) s = Some s' \<and> cli_waiting s' \<and> DestIPaddr s' = DestIPaddr s \<and> cl_port s' = cl_port s
     \<and> (\<exists>n. cl_connects s' = cl_connects s @ replicate n (c, DestIPaddr s, cl_port s)
           \<and> (n > 0 \<or> unat (timeout_cnt s') = unat (timeout_cnt s) + sum_list (map unat ds)))"
proof (induction ds arbitrary: s)
  case Nil
  then show ?case by (auto intro: exI [of _ 0])
next
  case (Cons d ds)
  obtain s1 where s1: "sock_cli_poll T (Some c) d s = Some s1" "cli_waiting s1" "DestIPaddr s1 = DestIPaddr s" "cl_port s1 = cl_port s"
    "if timeout_cnt s \<ge> SOCK_CLI_TO_MS then cl_connects s1 = cl_connects s @ [(c, DestIPaddr s, cl_port s)]
     else cl_connects s1 = cl_connects s \<and> timeout_cnt s1 = timeout_cnt s + d"
    by (rule cli_tick_waiting [OF Cons.prems(1)])
  obtain s' n where I: "cli_run T (map (Tick (Some c)) ds) s1 = Some s'" "cli_waiting s'" "DestIPaddr s' = DestIPaddr s" "cl_port s' = cl_port s"
    "cl_connects s' = cl_connects s1 @ replicate n (c, DestIPaddr s, cl_port s)"
    "n > 0 \<or> unat (timeout_cnt s') = unat (timeout_cnt s1) + sum_list (map unat ds)"
    using Cons.IH [OF s1(2)] Cons.prems(2) s1(3,4) by auto
  have run: "cli_run T (map (Tick (Some c)) (d # ds)) s = Some s'" using s1(1) I(1) by (simp add: cli_step_def)
  show ?case
  proof (cases "timeout_cnt s \<ge> SOCK_CLI_TO_MS")
    case True
    then have "cl_connects s' = cl_connects s @ replicate (Suc n) (c, DestIPaddr s, cl_port s)" using s1(5) I(5) by simp
    then show ?thesis using run I(2-4) by (intro exI [of _ s'] conjI exI [of _ "Suc n"]) auto
  next
    case False
    then have "unat (timeout_cnt s1) = unat (timeout_cnt s) + unat d"
      using s1(5) Cons.prems(2) by (simp, subst unat_plus_if') (simp add: word_le_nat_alt)
    then show ?thesis using run I s1(5) False by (intro exI [of _ s'] conjI exI [of _ n]) auto
  qed
qed

text \<open>Persistence: while the peer cannot be reached the client tries again, with the configured
  address: once polls have covered 5000 ms the next poll has made at least one new connection attempt,
  and none went elsewhere.\<close>

lemma cli_retries:
  assumes "cli_waiting s" "\<forall>d \<in> set (ds @ [d]). unat d < 4294962296" "5000 \<le> sum_list (map unat ds)"
    "unat (timeout_cnt s) + sum_list (map unat ds) < 4294967296"
  shows "\<exists>s' n. cli_run T (map (Tick (Some c)) (ds @ [d])) s = Some s' \<and> 0 < n
    \<and> cl_connects s' = cl_connects s @ replicate n (c, DestIPaddr s, cl_port s)"
proof -
  obtain s1 n where r: "cli_run T (map (Tick (Some c)) ds) s = Some s1" "cli_waiting s1" "DestIPaddr s1 = DestIPaddr s" "cl_port s1 = cl_port s"
    "cl_connects s1 = cl_connects s @ replicate n (c, DestIPaddr s, cl_port s)"
    "n > 0 \<or> unat (timeout_cnt s1) = unat (timeout_cnt s) + sum_list (map unat ds)"
    using cli_waiting_run [OF assms(1), of ds T c] assms(2) by auto
  obtain s2 where s2: "sock_cli_poll T (Some c) d s1 = Some s2"
    "if timeout_cnt s1 \<ge> SOCK_CLI_TO_MS then cl_connects s2 = cl_connects s1 @ [(c, DestIPaddr s1, cl_port s1)]
     else cl_connects s2 = cl_connects s1 \<and> timeout_cnt s2 = timeout_cnt s1 + d"
    by (rule cli_tick_waiting [OF r(2)])
  have app: "cli_run T (evs @ evs') s = Option.bind (cli_run T evs s) (cli_run T evs')" for evs evs'
    by (induction evs arbitrary: s) (auto split: bind_splits)
  have run: "cli_run T (map (Tick (Some c)) (ds @ [d])) s = Some s2" using r(1) s2(1) by (simp add: app cli_step_def)
  show ?thesis
  proof (cases "timeout_cnt s1 \<ge> SOCK_CLI_TO_MS")
    case True
    then have "cl_connects s2 = cl_connects s @ replicate (Suc n) (c, DestIPaddr s, cl_port s)"
      using s2(2) r(3-5) by (simp flip: replicate_append_same)
    then show ?thesis using run by blast
  next
    case False
    then have "n > 0" using r(6) assms(3) by (auto simp: word_le_nat_alt)
    then show ?thesis using run s2(2) r(5) False by auto
  qed
qed

lemma cli_retries_witness:
  "\<exists>s' n. cli_run ex_tcp (map (Tick (Some 1)) ([2500, 2500] @ [1])) (snd (sock_cli_init ex_tcp (Some 0) [10, 0, 0, 7] 5000 cli_zero)) = Some s' \<and> 0 < n
    \<and> cl_connects s' = [(0, [10, 0, 0, 7], 5000)] @ replicate n (1, [10, 0, 0, 7], 5000)"
  using cli_retries [of "snd (sock_cli_init ex_tcp (Some 0) [10, 0, 0, 7] 5000 cli_zero)" "[2500, 2500]" 1 ex_tcp 1]
  by (simp add: cli_waiting_def sock_cli_init_def cli_new_def cli_connect_def cli_zero_def)


text \<open>Once the peer has closed and all is sent, the next poll of the main loop reads a control block that is lwIP's again.\<close>

lemma cli_poll_after_close:
  "cli_run ex_tcp [CRecv 0 None 0, Tick (Some 1) 1]
     (cli_zero\<lparr>cl_inst := Some 0, cl_open := (\<lambda>c. c = 0), cl_arg := (\<lambda>_. None)(0 \<mapsto> 0),
        cl_es := (\<lambda>_. None)(0 \<mapsto> \<lparr>ec_state = ESC_CONNECTED, ec_pcb = 0, p_tx = None\<rparr>)\<rparr>) = None"
  by (simp add: cli_eval tcp_echoclient_recv_def)

end
