(* ===== verification/Adc.thy ===== *)
theory Adc
  imports Gw_Prelude Complex_Main
begin

text \<open>
  The analog inputs (common/adc/adc.c): the converter fills one sample per channel by DMA, the main loop
  keeps the last 128 of each and computes the measured values from their means.  The means are the
  integers of the source; the values derived from them are floats there and exact reals here.
\<close>

abbreviation SAMPLE_ACC_COUNT :: nat where "SAMPLE_ACC_COUNT \<equiv> 128"
abbreviation ADC_CH :: nat where "ADC_CH \<equiv> 9"
abbreviation (input) ADC_CH_VOUT :: nat where "ADC_CH_VOUT \<equiv> 0"
abbreviation (input) ADC_CH_VIN :: nat where "ADC_CH_VIN \<equiv> 1"
abbreviation (input) ADC_CH_IR :: nat where "ADC_CH_IR \<equiv> 2"
abbreviation (input) ADC_CH_I_SNS :: nat where "ADC_CH_I_SNS \<equiv> 3"
abbreviation (input) ADC_CH_T_MCU :: nat where "ADC_CH_T_MCU \<equiv> 4"
abbreviation (input) ADC_CH_VREFINT :: nat where "ADC_CH_VREFINT \<equiv> 5"
abbreviation (input) ADC_CH_POE_0 :: nat where "ADC_CH_POE_0 \<equiv> 6"

record adc_val =
  adc_vin :: real
  adc_vout :: real
  adc_ir :: real
  adc_i_sns :: real
  adc_t_mcu :: real
  adc_poe_sns :: "real list"

text \<open>The calibration words in system memory: reference, and temperature sensor at 30 and 110 degrees.\<close>

record adc_cal = VREFINT_CAL :: u16  TS_CAL1 :: u16  TS_CAL2 :: u16

record adc_st =
  adc_buf_acc :: "u32 list list"
  adc_buf_ptr :: nat

definition adc_start :: adc_st where
  "adc_start = \<lparr>adc_buf_acc = replicate ADC_CH (replicate SAMPLE_ACC_COUNT 0), adc_buf_ptr = 0\<rparr>"

text \<open>One channel: the sample is stored and the mean of the row computed in 32 bits.\<close>

definition adc_row :: "nat \<Rightarrow> u16 \<Rightarrow> u32 list \<Rightarrow> u32 list" where
  "adc_row ptr sample row = row[ptr := ucast sample]"

definition adc_mean :: "u32 list \<Rightarrow> u32" where
  "adc_mean row = foldl (+) 0 row div 128"

definition adc_values :: "adc_cal \<Rightarrow> u16 list \<Rightarrow> u32 list \<Rightarrow> adc_val" where
  "adc_values cal adc_buf buf_acc =
    (let m = (\<lambda>ch. real (unat (buf_acc ! ch)));
         slope = (110 - 30) / (real (unat (TS_CAL2 cal)) - real (unat (TS_CAL1 cal)))
     in \<lparr>adc_vin = m ADC_CH_VIN / 4095 * (33 / 10) * (1 + 100 / 10),
         adc_vout = m ADC_CH_VOUT / 4095 * (33 / 10) * (1 + 100 / 10),
         adc_ir = real (unat (adc_buf ! ADC_CH_IR)),
         adc_i_sns = (2048 - m ADC_CH_I_SNS) / (2 / 100 * 20 / (33 / 10) * 4095),
         adc_t_mcu = (m ADC_CH_T_MCU * real (unat (VREFINT_CAL cal)) / m ADC_CH_VREFINT - real (unat (TS_CAL1 cal))) * slope + 30,
         adc_poe_sns = map (\<lambda>k. m (ADC_CH_POE_0 + k) / (2 / 100 * 50 / (33 / 10) * 4095)) [0, 1, 2]\<rparr>)"

definition adc_track :: "adc_cal \<Rightarrow> u16 list \<Rightarrow> adc_st \<Rightarrow> adc_val \<times> adc_st" where
  "adc_track cal adc_buf s =
    (let rows = map (\<lambda>i. adc_row (adc_buf_ptr s) (adc_buf ! i) (adc_buf_acc s ! i)) [0..<ADC_CH]
     in (adc_values cal adc_buf (map adc_mean rows),
         s\<lparr>adc_buf_acc := rows, adc_buf_ptr := (if adc_buf_ptr s + 1 \<ge> SAMPLE_ACC_COUNT then 0 else adc_buf_ptr s + 1)\<rparr>))"

section \<open>The mean of the last 128 samples\<close>

definition adc_run :: "adc_cal \<Rightarrow> u16 list list \<Rightarrow> adc_st \<Rightarrow> adc_st" where
  "adc_run cal bufs s = fold (\<lambda>b s. snd (adc_track cal b s)) bufs s"

definition adc_ok :: "adc_st \<Rightarrow> bool" where
  "adc_ok s \<longleftrightarrow> length (adc_buf_acc s) = ADC_CH \<and> (\<forall>row \<in> set (adc_buf_acc s). length row = SAMPLE_ACC_COUNT
    \<and> (\<forall>x \<in> set row. unat x < 65536)) \<and> adc_buf_ptr s < SAMPLE_ACC_COUNT"

text \<open>A ring read from its oldest entry: a write drops the oldest and appends.\<close>

lemma rotate_write:
  assumes "p < length row"
  shows "rotate (Suc p mod length row) (row[p := x]) = tl (rotate p row) @ [x]"
proof -
  have t: "take (Suc p) (row[p := x]) = take p row @ [x]" using assms by (simp add: take_Suc_conv_app_nth)
  have r: "tl (rotate p row) = drop (Suc p) row @ take p row"
    using assms by (simp add: rotate_drop_take drop_Suc tl_append drop_tl split: list.split)
  show ?thesis
  proof (cases "Suc p < length row")
    case True
    then show ?thesis unfolding r using t by (simp add: rotate_drop_take)
  next
    case False
    then have e: "length row = Suc p" using assms by simp
    then have "rotate (Suc p mod length row) (row[p := x]) = row[p := x]" by simp
    also have "... = take p row @ [x]" using t e by simp
    finally show ?thesis unfolding r using e by simp
  qed
qed

lemma unat_ucast_u16: "unat (ucast (a :: u16) :: u32) = unat a"
  by (simp add: unsigned_ucast_eq take_bit_nat_eq_self order.strict_trans2 [OF unsigned_less])

lemma adc_track_row:
  assumes "adc_ok s" "i < ADC_CH" "length b = ADC_CH"
  shows "adc_ok (snd (adc_track cal b s))"
    "rotate (adc_buf_ptr (snd (adc_track cal b s))) (adc_buf_acc (snd (adc_track cal b s)) ! i)
      = tl (rotate (adc_buf_ptr s) (adc_buf_acc s ! i)) @ [ucast (b ! i)]"
proof -
  have l: "length (adc_buf_acc s ! j) = SAMPLE_ACC_COUNT" "\<forall>x \<in> set (adc_buf_acc s ! j). unat x < 65536" if "j < ADC_CH" for j
    using assms(1) that unfolding adc_ok_def by (metis nth_mem)+
  have p: "adc_buf_ptr s < SAMPLE_ACC_COUNT" using assms(1) by (simp add: adc_ok_def)
  have u: "unat (ucast (v :: u16) :: u32) < 65536" for v using unsigned_less [of v, where 'a = nat] by (simp add: unat_ucast_u16)
  have "\<forall>x \<in> set (adc_row (adc_buf_ptr s) (b ! j) (adc_buf_acc s ! j)). unat x < 65536" if "j < ADC_CH" for j
    using l(2) [OF that] u set_update_subset_insert [of "adc_buf_acc s ! j"] by (fastforce simp: adc_row_def)
  then show "adc_ok (snd (adc_track cal b s))"
    using l(1) p by (auto simp: adc_ok_def adc_track_def adc_row_def Let_def)
  have "(if adc_buf_ptr s + 1 \<ge> SAMPLE_ACC_COUNT then 0 else adc_buf_ptr s + 1) = Suc (adc_buf_ptr s) mod SAMPLE_ACC_COUNT"
    using p by (cases "adc_buf_ptr s = 127") auto
  then show "rotate (adc_buf_ptr (snd (adc_track cal b s))) (adc_buf_acc (snd (adc_track cal b s)) ! i)
      = tl (rotate (adc_buf_ptr s) (adc_buf_acc s ! i)) @ [ucast (b ! i)]"
    using rotate_write [of "adc_buf_ptr s" "adc_buf_acc s ! i" "ucast (b ! i)"] l(1) [OF assms(2)] p assms(2)
    by (simp add: adc_track_def adc_row_def Let_def del: upt_Suc)
qed

lemma adc_start_ok: "adc_ok adc_start"
  by (simp add: adc_ok_def adc_start_def)

lemma adc_run_ring:
  assumes "i < ADC_CH"
  shows "\<forall>b \<in> set bufs. length b = ADC_CH \<Longrightarrow> adc_ok s \<Longrightarrow> adc_ok (adc_run cal bufs s)
    \<and> rotate (adc_buf_ptr (adc_run cal bufs s)) (adc_buf_acc (adc_run cal bufs s) ! i)
      = drop (length bufs) (rotate (adc_buf_ptr s) (adc_buf_acc s ! i) @ map (\<lambda>b. ucast (b ! i)) bufs)"
proof (induction bufs arbitrary: s)
  case Nil
  then show ?case by (simp add: adc_run_def)
next
  case (Cons b bufs)
  let ?s = "snd (adc_track cal b s)"
  have n: "rotate (adc_buf_ptr s) (adc_buf_acc s ! i) \<noteq> []"
    using Cons.prems(2) assms unfolding adc_ok_def by (metis length_greater_0_conv length_rotate nth_mem zero_less_numeral)
  have t: "adc_ok ?s" "rotate (adc_buf_ptr ?s) (adc_buf_acc ?s ! i) = tl (rotate (adc_buf_ptr s) (adc_buf_acc s ! i)) @ [ucast (b ! i)]"
    using adc_track_row [OF Cons.prems(2) assms, of b cal] Cons.prems(1) by simp_all
  have r: "adc_run cal (b # bufs) s = adc_run cal bufs ?s" by (simp add: adc_run_def)
  have "drop (length (b # bufs)) (rotate (adc_buf_ptr s) (adc_buf_acc s ! i) @ map (\<lambda>b. ucast (b ! i)) (b # bufs))
    = drop (length bufs) (rotate (adc_buf_ptr ?s) (adc_buf_acc ?s ! i) @ map (\<lambda>b. ucast (b ! i)) bufs)"
    unfolding t(2) using n by (cases "rotate (adc_buf_ptr s) (adc_buf_acc s ! i)") simp_all
  then show ?case unfolding r using Cons.IH [OF _ t(1)] Cons.prems(1) by simp
qed

lemma sum_list_unat_u32:
  "\<forall>x \<in> set xs. unat (x :: u32) < 65536 \<Longrightarrow> length xs \<le> 128 \<Longrightarrow> unat (sum_list xs) = sum_list (map unat xs) \<and> sum_list (map unat xs) \<le> 65536 * length xs"
proof (induction xs)
  case (Cons x xs)
  then have "unat (sum_list xs) = sum_list (map unat xs)" "sum_list (map unat xs) \<le> 65536 * length xs" "unat x < 65536" by auto
  moreover from this Cons.prems(2) have "unat (x + sum_list xs) = unat x + unat (sum_list xs)"
    by (subst unat_plus_if') simp
  ultimately show ?case by simp
qed simp

lemma sum_rotate: "sum_list (rotate n xs) = sum_list (xs :: nat list)"
proof -
  have "sum_list (rotate n xs) = sum_list (take (n mod length xs) xs) + sum_list (drop (n mod length xs) xs)"
    by (simp add: rotate_drop_take)
  then show ?thesis by (simp flip: sum_list_append)
qed

lemma foldl_sum: "foldl (+) (a :: u32) xs = a + sum_list xs"
  by (induction xs arbitrary: a) (simp_all add: add.assoc)

lemma adc_mean_nat:
  assumes "\<forall>x \<in> set row. unat x < 65536" "length row = SAMPLE_ACC_COUNT"
  shows "unat (adc_mean row) = sum_list (map unat row) div 128"
  using sum_list_unat_u32 [OF assms(1)] assms(2) by (simp add: adc_mean_def foldl_sum unat_div)

text \<open>After at least 128 turns of the main loop a channel's mean is that of its last 128 samples, rounded down.\<close>

lemma adc_means:
  assumes "i < ADC_CH" "\<forall>b \<in> set bufs. length b = ADC_CH" "SAMPLE_ACC_COUNT \<le> length bufs"
  shows "unat (adc_mean (adc_buf_acc (adc_run cal bufs adc_start) ! i))
    = sum_list (map (\<lambda>b. unat (b ! i)) (drop (length bufs - SAMPLE_ACC_COUNT) bufs)) div 128"
proof -
  let ?s = "adc_run cal bufs adc_start" and ?row = "adc_buf_acc (adc_run cal bufs adc_start) ! i"
  have r: "adc_ok ?s" "rotate (adc_buf_ptr ?s) ?row
      = drop (length bufs) (rotate (adc_buf_ptr adc_start) (adc_buf_acc adc_start ! i) @ map (\<lambda>b. ucast (b ! i)) bufs)"
    using adc_run_ring [OF assms(1,2) adc_start_ok] by blast+
  have "length (rotate (adc_buf_ptr adc_start) (adc_buf_acc adc_start ! i)) = SAMPLE_ACC_COUNT" using assms(1) by (simp add: adc_start_def)
  then have d: "rotate (adc_buf_ptr ?s) ?row = map (\<lambda>b. ucast (b ! i)) (drop (length bufs - SAMPLE_ACC_COUNT) bufs)"
    unfolding r(2) using assms(3) by (simp add: drop_map)
  have "\<forall>x \<in> set ?row. unat x < 65536" "length ?row = SAMPLE_ACC_COUNT" using r(1) assms(1) unfolding adc_ok_def by (metis nth_mem)+
  then have "unat (adc_mean ?row) = sum_list (map unat ?row) div 128" by (rule adc_mean_nat)
  also have "sum_list (map unat ?row) = sum_list (map unat (rotate (adc_buf_ptr ?s) ?row))"
    by (simp add: sum_rotate flip: rotate_map)
  finally show ?thesis unfolding d by (simp add: comp_def unat_ucast_u16)
qed


section \<open>Thresholds\<close>

lemma abs_div_1: "0 < c \<Longrightarrow> \<bar>x / c\<bar> \<ge> 1 \<longleftrightarrow> \<bar>x\<bar> \<ge> (c :: real)"
  by (simp add: abs_divide)

lemma ampere_load: "(\<bar>2048 - real n\<bar> \<ge> 2 / 100 * 20 / (33 / 10) * 4095) \<longleftrightarrow> n \<le> 1551 \<or> 2545 \<le> n"
proof -
  have k: "real j \<ge> 2 / 100 * 20 / (33 / 10) * 4095 \<longleftrightarrow> j \<ge> 497" for j
  proof
    assume "real j \<ge> 2 / 100 * 20 / (33 / 10) * 4095"
    then have "real j > real 496" by simp
    then show "j \<ge> 497" by linarith
  next
    assume "j \<ge> 497"
    then have "real j \<ge> real 497" by (simp only: of_nat_le_iff)
    then show "real j \<ge> 2 / 100 * 20 / (33 / 10) * 4095" by simp
  qed
  show ?thesis
  proof (cases "n \<le> 2048")
    case True
    then have a: "\<bar>2048 - real n\<bar> = real (2048 - n)" by simp
    show ?thesis unfolding a k using True by auto
  next
    case False
    then have a: "\<bar>2048 - real n\<bar> = real (n - 2048)" by simp
    show ?thesis unfolding a k using False by auto
  qed
qed

lemma ampere_poe: "(\<bar>real n / (2 / 100 * 50 / (33 / 10) * 4095)\<bar> \<ge> 1) \<longleftrightarrow> 1241 \<le> n"
proof
  assume "\<bar>real n / (2 / 100 * 50 / (33 / 10) * 4095)\<bar> \<ge> 1"
  then have "real n > real 1240" by (simp add: field_simps)
  then show "1241 \<le> n" by linarith
next
  assume "1241 \<le> n"
  then have "real n \<ge> real 1241" by (simp only: of_nat_le_iff)
  then show "\<bar>real n / (2 / 100 * 50 / (33 / 10) * 4095)\<bar> \<ge> 1" by (simp add: field_simps)
qed

text \<open>What the comparisons of the switches with one ampere mean for the means of the samples: the load
  current is at least 1 A in either direction exactly when the mean is at most 1551 or at least 2545, the
  current of a PoE group exactly when its mean is at least 1241; and the voltages stay within 36.3 V for 12-bit samples.\<close>

lemma adc_thresholds:
  shows "\<bar>adc_i_sns (adc_values cal b m)\<bar> \<ge> 1 \<longleftrightarrow> unat (m ! ADC_CH_I_SNS) \<le> 1551 \<or> 2545 \<le> unat (m ! ADC_CH_I_SNS)"
    and "k < 3 \<Longrightarrow> \<bar>adc_poe_sns (adc_values cal b m) ! k\<bar> \<ge> 1 \<longleftrightarrow> 1241 \<le> unat (m ! (ADC_CH_POE_0 + k))"
    and "unat (m ! ADC_CH_VIN) \<le> 4095 \<Longrightarrow> 0 \<le> adc_vin (adc_values cal b m) \<and> adc_vin (adc_values cal b m) \<le> 363 / 10"
proof -
  have e: "adc_i_sns (adc_values cal b m) = (2048 - real (unat (m ! ADC_CH_I_SNS))) / (2 / 100 * 20 / (33 / 10) * 4095)"
    by (simp add: adc_values_def Let_def)
  have "\<bar>adc_i_sns (adc_values cal b m)\<bar> \<ge> 1 \<longleftrightarrow> \<bar>2048 - real (unat (m ! ADC_CH_I_SNS))\<bar> \<ge> 2 / 100 * 20 / (33 / 10) * 4095"
    unfolding e by (rule abs_div_1) simp
  then show "\<bar>adc_i_sns (adc_values cal b m)\<bar> \<ge> 1 \<longleftrightarrow> unat (m ! ADC_CH_I_SNS) \<le> 1551 \<or> 2545 \<le> unat (m ! ADC_CH_I_SNS)"
    by (simp only: ampere_load)
next
  assume "k < 3"
  then have "k = 0 \<or> k = 1 \<or> k = 2" by auto
  then have "adc_poe_sns (adc_values cal b m) ! k = real (unat (m ! (ADC_CH_POE_0 + k))) / (2 / 100 * 50 / (33 / 10) * 4095)"
    by (elim disjE) (simp_all add: adc_values_def Let_def)
  then show "\<bar>adc_poe_sns (adc_values cal b m) ! k\<bar> \<ge> 1 \<longleftrightarrow> 1241 \<le> unat (m ! (ADC_CH_POE_0 + k))"
    by (simp only: ampere_poe)
next
  assume "unat (m ! ADC_CH_VIN) \<le> 4095"
  then have "real (unat (m ! ADC_CH_VIN)) \<le> 4095" by (metis of_nat_le_iff of_nat_numeral)
  moreover have "0 \<le> real (unat (m ! ADC_CH_VIN))" by (rule of_nat_0_le_iff)
  ultimately show "0 \<le> adc_vin (adc_values cal b m) \<and> adc_vin (adc_values cal b m) \<le> 363 / 10"
    by (simp add: adc_values_def Let_def)
qed


definition last_mean :: "u16 list list \<Rightarrow> nat \<Rightarrow> nat" where
  "last_mean bufs ch = sum_list (map (\<lambda>b. unat (b ! ch)) (drop (length bufs - SAMPLE_ACC_COUNT) bufs)) div 128"

text \<open>C36: Overcurrent in terms of the converter: once 128 turns have been made, the load current compares as one
  ampere or more exactly when the mean of the last 128 samples of its channel, rounded down, is at most 1551 or at
  least 2545, and that of the first PoE group exactly when its mean is at least 1241.\<close>

lemma adc_overcurrent:
  assumes "\<forall>b \<in> set (bufs @ [b]). length b = ADC_CH" "127 \<le> length bufs"
  shows "(\<bar>adc_i_sns (fst (adc_track cal b (adc_run cal bufs adc_start)))\<bar> \<ge> 1 \<longleftrightarrow> last_mean (bufs @ [b]) ADC_CH_I_SNS \<le> 1551 \<or> 2545 \<le> last_mean (bufs @ [b]) ADC_CH_I_SNS)
    \<and> (\<bar>adc_poe_sns (fst (adc_track cal b (adc_run cal bufs adc_start))) ! 0\<bar> \<ge> 1 \<longleftrightarrow> 1241 \<le> last_mean (bufs @ [b]) ADC_CH_POE_0)"
proof -
  let ?s = "adc_run cal bufs adc_start"
  let ?m = "map adc_mean (adc_buf_acc (snd (adc_track cal b ?s)))"
  have v: "fst (adc_track cal b ?s) = adc_values cal b ?m" by (simp add: adc_track_def Let_def)
  have r: "snd (adc_track cal b ?s) = adc_run cal (bufs @ [b]) adc_start" by (simp add: adc_run_def)
  have ok: "adc_ok (adc_run cal (bufs @ [b]) adc_start)" using adc_run_ring [of 0 "bufs @ [b]" adc_start cal] assms(1) adc_start_ok by simp
  have n: "Suc (length bufs) - 128 = length bufs - 127" by simp
  have m: "unat (?m ! ch) = last_mean (bufs @ [b]) ch" if "ch < ADC_CH" for ch
    unfolding last_mean_def r using adc_means [OF that assms(1), of cal] ok that assms(2) n by (simp add: adc_ok_def)
  show ?thesis unfolding v adc_thresholds(1) adc_thresholds(2) [where k = 0, simplified] using m [of 3] m [of 6] by simp
qed

definition ex_cal :: adc_cal where
  "ex_cal = \<lparr>VREFINT_CAL = 1500, TS_CAL1 = 940, TS_CAL2 = 1200\<rparr>"

lemma adc_overcurrent_witness:
  "\<bar>adc_i_sns (fst (adc_track ex_cal (replicate 9 1000) (adc_run ex_cal (replicate 127 (replicate 9 1000)) adc_start)))\<bar> \<ge> 1"
proof -
  have "\<forall>b \<in> set (replicate 127 (replicate 9 1000) @ [replicate 9 1000]). length (b :: u16 list) = ADC_CH" by simp
  moreover have "127 \<le> length (replicate 127 (replicate 9 (1000 :: u16)))" by simp
  ultimately show ?thesis
    using adc_overcurrent [of "replicate 127 (replicate 9 1000)" "replicate 9 1000" ex_cal]
    by (simp add: last_mean_def map_replicate_const sum_list_replicate)
qed

end
