(* ===== verification/Fram.thy ===== *)
theory Fram
  imports Sensing
begin

text \<open>
  The ferroelectric memory that keeps the pulse count of the electricity meter (common/spi/fram.c), on the
  byte transfers of common/spi/spi_common.c.  The bus with the chip on it is a parameter: one full-duplex
  byte exchange and the chip select line; the waits for the flags of the SPI unit belong to the exchange.
\<close>

section \<open>The bus\<close>

record 'h spi =
  spi_byte :: "u8 \<Rightarrow> 'h \<Rightarrow> u8 \<times> 'h"
  spi_cs :: "bool \<Rightarrow> 'h \<Rightarrow> 'h"

fun spi_trx :: "'h spi \<Rightarrow> bytes \<Rightarrow> 'h \<Rightarrow> bytes \<times> 'h" where
  "spi_trx sp [] h = ([], h)"
| "spi_trx sp (b # bs) h = (case spi_byte sp b h of (r, h1) \<Rightarrow> case spi_trx sp bs h1 of (rs, h2) \<Rightarrow> (r # rs, h2))"

definition spi_transmit :: "'h spi \<Rightarrow> bytes \<Rightarrow> 'h \<Rightarrow> 'h" where
  "spi_transmit sp bs h = snd (spi_trx sp bs h)"

definition spi_receive :: "'h spi \<Rightarrow> nat \<Rightarrow> 'h \<Rightarrow> bytes \<times> 'h" where
  "spi_receive sp sz h = spi_trx sp (replicate sz 0) h"

abbreviation CS_L :: "'h spi \<Rightarrow> 'h \<Rightarrow> 'h" where "CS_L sp \<equiv> spi_cs sp False"
abbreviation CS_H :: "'h spi \<Rightarrow> 'h \<Rightarrow> 'h" where "CS_H sp \<equiv> spi_cs sp True"

section \<open>The memory\<close>

abbreviation FRAM_SIZE :: u32 where "FRAM_SIZE \<equiv> 131072"
abbreviation FRAM_ERR_ADDR_OVF :: int where "FRAM_ERR_ADDR_OVF \<equiv> -100"
abbreviation FRAM_CMD_WR_EN :: u8 where "FRAM_CMD_WR_EN \<equiv> 0x06"
abbreviation FRAM_CMD_RD_SR :: u8 where "FRAM_CMD_RD_SR \<equiv> 0x05"
abbreviation FRAM_CMD_WR_SR :: u8 where "FRAM_CMD_WR_SR \<equiv> 0x01"
abbreviation FRAM_CMD_READ :: u8 where "FRAM_CMD_READ \<equiv> 0x03"
abbreviation FRAM_CMD_WRITE :: u8 where "FRAM_CMD_WRITE \<equiv> 0x02"
abbreviation FRAM_CMD_RDID :: u8 where "FRAM_CMD_RDID \<equiv> 0x9F"

record fram_entries =
  power_on_cnt :: u32
  emeter_cnt :: u32
  logger_start :: u32
  logger_end :: u32

definition fram_cmd :: "u8 \<Rightarrow> u32 \<Rightarrow> bytes" where
  "fram_cmd c addr = [c, ucast (drop_bit 16 addr), ucast (drop_bit 8 addr), ucast addr]"

definition fram_check_sn :: "'h spi \<Rightarrow> 'h \<Rightarrow> int \<times> 'h" where
  "fram_check_sn sp h =
    (case spi_trx sp (FRAM_CMD_RDID # replicate 9 0) (CS_L sp h) of (rx, h1) \<Rightarrow>
      (if drop 1 rx = [0x7f, 0x7f, 0x7f, 0x7f, 0x7f, 0x7f, 0xc2, 0x24, 0x00] then 0 else 1, CS_H sp h1))"

definition fram_read_sts :: "'h spi \<Rightarrow> 'h \<Rightarrow> u8 \<times> 'h" where
  "fram_read_sts sp h = (case spi_trx sp [FRAM_CMD_RD_SR, 0] (CS_L sp h) of (rx, h1) \<Rightarrow> (rx ! 1, CS_H sp h1))"

definition fram_init :: "'h spi \<Rightarrow> 'h \<Rightarrow> int \<times> 'h" where
  "fram_init sp h =
    (case fram_check_sn sp (CS_H sp h) of (sts, h1) \<Rightarrow>
      if sts \<noteq> 0 then (sts, h1)
      else let h2 = CS_H sp (snd (spi_trx sp [FRAM_CMD_WR_EN] (CS_L sp h1)));
               h3 = CS_H sp (snd (spi_trx sp [FRAM_CMD_WR_SR] (CS_L sp h2)))
           in (0, h3))"

text \<open>The size is that of the destination; the sum is computed in 32 bits.\<close>

definition fram_read :: "'h spi \<Rightarrow> u32 \<Rightarrow> u32 \<Rightarrow> 'h \<Rightarrow> int \<times> bytes \<times> 'h" where
  "fram_read sp addr sz h =
    (if addr + sz > FRAM_SIZE then (FRAM_ERR_ADDR_OVF, [], h)
     else case spi_receive sp (unat sz) (spi_transmit sp (fram_cmd FRAM_CMD_READ addr) (CS_L sp h)) of (bs, h1) \<Rightarrow>
       (0, bs, CS_H sp h1))"

definition fram_write :: "'h spi \<Rightarrow> u32 \<Rightarrow> bytes \<Rightarrow> 'h \<Rightarrow> int \<times> 'h" where
  "fram_write sp addr bs h =
    (if addr + of_nat (length bs) > FRAM_SIZE then (FRAM_ERR_ADDR_OVF, h)
     else let h1 = CS_H sp (spi_transmit sp [FRAM_CMD_WR_EN] (CS_L sp h))
          in (0, CS_H sp (spi_transmit sp bs (spi_transmit sp (fram_cmd FRAM_CMD_WRITE addr) (CS_L sp h1)))))"

text \<open>The structure as it lies in memory.\<close>

definition fram_entries_bytes :: "fram_entries \<Rightarrow> bytes" where
  "fram_entries_bytes d = le32 (power_on_cnt d) @ le32 (emeter_cnt d) @ le32 (logger_start d) @ le32 (logger_end d)"

definition fram_entries_of :: "bytes \<Rightarrow> fram_entries" where
  "fram_entries_of bs = \<lparr>power_on_cnt = rd32 bs, emeter_cnt = rd32 (drop 4 bs), logger_start = rd32 (drop 8 bs), logger_end = rd32 (drop 12 bs)\<rparr>"

definition fram_data_read :: "'h spi \<Rightarrow> fram_entries \<Rightarrow> 'h \<Rightarrow> fram_entries \<times> 'h" where
  "fram_data_read sp fram_data h =
    (case fram_read sp 0 16 h of (sts, bs, h1) \<Rightarrow> (if sts = 0 then fram_entries_of bs else fram_data, h1))"

definition fram_data_write :: "'h spi \<Rightarrow> fram_entries \<Rightarrow> 'h \<Rightarrow> 'h" where
  "fram_data_write sp fram_data h = snd (fram_write sp 0 (fram_entries_bytes fram_data) h)"

text \<open>What \<open>emeter_poll\<close> does to the memory when a pulse was counted (app/tasks/emeter.c).\<close>

definition emeter_poll_fram :: "'h spi \<Rightarrow> real \<Rightarrow> u32 \<Rightarrow> emeter \<times> 'h \<Rightarrow> emeter \<times> 'h" where
  "emeter_poll_fram sp ir diff_ms s =
    (case s of (m, h) \<Rightarrow>
      (let m' = emeter_poll ir diff_ms m
       in (m', if pulse_acc m' \<noteq> pulse_acc m then snd (fram_write sp 4 (le32 (pulse_acc m')) h) else h)))"

section \<open>What the chip does\<close>

text \<open>
  The behaviour of the FM25V10 the code relies on: a write enable followed by a write stores the bytes from
  the address on, a read returns the bytes from the address on and changes nothing.  \<open>ct\<close> is its content.
\<close>

definition fram_chip :: "'h spi \<Rightarrow> ('h \<Rightarrow> nat \<Rightarrow> u8) \<Rightarrow> bool" where
  "fram_chip sp ct \<longleftrightarrow>
    (\<forall>h addr n. unat addr + n \<le> 131072 \<longrightarrow>
       (case spi_trx sp (fram_cmd FRAM_CMD_READ addr @ replicate n 0) (CS_L sp h) of (rx, h1) \<Rightarrow>
          drop 4 rx = map (ct h) [unat addr..<unat addr + n] \<and> ct (CS_H sp h1) = ct h))
    \<and> (\<forall>h addr bs. unat addr + length bs \<le> 131072 \<longrightarrow>
         ct (CS_H sp (spi_transmit sp (fram_cmd FRAM_CMD_WRITE addr @ bs)
              (CS_L sp (CS_H sp (spi_transmit sp [FRAM_CMD_WR_EN] (CS_L sp h))))))
           = (\<lambda>i. if unat addr \<le> i \<and> i < unat addr + length bs then bs ! (i - unat addr) else ct h i))"

lemma spi_trx_append:
  "spi_trx sp (xs @ ys) h = (case spi_trx sp xs h of (rx, h1) \<Rightarrow> case spi_trx sp ys h1 of (ry, h2) \<Rightarrow> (rx @ ry, h2))"
  by (induction xs arbitrary: h) (auto split: prod.splits)

lemma spi_trx_length [simp]: "length (fst (spi_trx sp xs h)) = length xs"
  by (induction xs arbitrary: h) (simp_all add: case_prod_beta')

lemma u32_range: "unat (a :: u32) + n \<le> 131072 \<Longrightarrow> \<not> a + of_nat n > 131072"
  by (simp add: word_less_nat_alt unat_add_of_nat)

lemma fram_read_content:
  assumes "fram_chip sp ct" "unat addr + unat sz \<le> 131072"
  shows "fst (fram_read sp addr sz h) = 0"
    "fst (snd (fram_read sp addr sz h)) = map (ct h) [unat addr..<unat addr + unat sz]"
    "ct (snd (snd (fram_read sp addr sz h))) = ct h"
proof -
  obtain rx h1 where a: "spi_trx sp (fram_cmd FRAM_CMD_READ addr) (CS_L sp h) = (rx, h1)" by force
  obtain ry h2 where b: "spi_trx sp (replicate (unat sz) 0) h1 = (ry, h2)" by force
  have "length rx = 4" using spi_trx_length [of sp "fram_cmd FRAM_CMD_READ addr" "CS_L sp h"] a by (simp add: fram_cmd_def)
  then have "ry = map (ct h) [unat addr..<unat addr + unat sz] \<and> ct (CS_H sp h2) = ct h"
    using assms a b unfolding fram_chip_def
    by (elim conjE) (drule spec [of _ h], drule spec [of _ addr], drule spec [of _ "unat sz"], simp add: spi_trx_append)
  moreover have "fram_read sp addr sz h = (0, ry, CS_H sp h2)"
    using u32_range [of addr "unat sz"] assms(2) a b by (simp add: fram_read_def spi_transmit_def spi_receive_def)
  ultimately show "fst (fram_read sp addr sz h) = 0"
    "fst (snd (fram_read sp addr sz h)) = map (ct h) [unat addr..<unat addr + unat sz]"
    "ct (snd (snd (fram_read sp addr sz h))) = ct h" by simp_all
qed

lemma fram_write_content:
  assumes "fram_chip sp ct" "unat addr + length bs \<le> 131072"
  shows "fst (fram_write sp addr bs h) = 0"
    "ct (snd (fram_write sp addr bs h)) = (\<lambda>i. if unat addr \<le> i \<and> i < unat addr + length bs then bs ! (i - unat addr) else ct h i)"
proof -
  have "spi_transmit sp bs (spi_transmit sp xs h') = spi_transmit sp (xs @ bs) h'" for xs h'
    by (simp add: spi_transmit_def spi_trx_append split: prod.splits)
  then show "fst (fram_write sp addr bs h) = 0"
    "ct (snd (fram_write sp addr bs h)) = (\<lambda>i. if unat addr \<le> i \<and> i < unat addr + length bs then bs ! (i - unat addr) else ct h i)"
    using u32_range [OF assms(2)] assms unfolding fram_chip_def by (simp_all add: fram_write_def Let_def)
qed

section \<open>The count survives\<close>

lemma fram_read_back:
  assumes "fram_chip sp ct" "unat addr + length bs \<le> 131072"
  shows "fst (snd (fram_read sp addr (of_nat (length bs)) (snd (fram_write sp addr bs h)))) = bs"
proof -
  have n: "unat (of_nat (length bs) :: u32) = length bs" using assms(2) by (simp add: unat_of_nat_u32)
  show ?thesis unfolding fram_read_content(2) [OF assms(1), of addr "of_nat (length bs)", unfolded n, OF assms(2)] fram_write_content(2) [OF assms]
    by (rule nth_equalityI) simp_all
qed

text \<open>What was written is read back, for every range inside the memory, and nothing else has changed.\<close>

lemma fram_round_trip:
  assumes "fram_chip sp ct" "unat addr + length bs \<le> 131072"
  shows "fst (fram_write sp addr bs h) = 0
    \<and> fst (snd (fram_read sp addr (of_nat (length bs)) (snd (fram_write sp addr bs h)))) = bs
    \<and> (\<forall>i. i < unat addr \<or> unat addr + length bs \<le> i \<longrightarrow> ct (snd (fram_write sp addr bs h)) i = ct h i)"
  using fram_read_back [OF assms] fram_write_content [OF assms] by auto

definition stored_count :: "('h \<Rightarrow> nat \<Rightarrow> u8) \<Rightarrow> 'h \<Rightarrow> u32" where
  "stored_count ct h = rd32 (map (ct h) [4..<8])"

lemma data_read_count:
  assumes "fram_chip sp ct"
  shows "emeter_cnt (fst (fram_data_read sp d h)) = stored_count ct h"
proof -
  have u: "unat (16 :: u32) = 16" by simp
  have i: "[0..<16] = [0, 1, 2, 3, 4, 5, 6, 7, 8, 9, 10, 11, 12, 13, 14, 15 :: nat]" "[4..<8] = [4, 5, 6, 7 :: nat]" by (simp_all add: upt_rec)
  from fram_read_content(1,2) [OF assms, of 0 16 h] show ?thesis
    by (cases "fram_read sp 0 16 h") (auto simp: u fram_data_read_def fram_entries_of_def stored_count_def i)
qed

lemma emeter_poll_fram_count:
  assumes "fram_chip sp ct" "pulse_acc m = stored_count ct h" "emeter_poll_fram sp ir d (m, h) = (m', h')"
  shows "pulse_acc m' = stored_count ct h'"
proof (cases "pulse_acc m' = pulse_acc m")
  case True
  then show ?thesis using assms(2,3) by (auto simp: emeter_poll_fram_def Let_def)
next
  case False
  then have h: "h' = snd (fram_write sp 4 (le32 (pulse_acc m')) h)" using assms(3) by (auto simp: emeter_poll_fram_def Let_def)
  have u: "unat (4 :: u32) = 4" by simp
  have "ct h' = (\<lambda>i. if 4 \<le> i \<and> i < 8 then le32 (pulse_acc m') ! (i - 4) else ct h i)"
    unfolding h using fram_write_content(2) [OF assms(1), of 4 "le32 (pulse_acc m')" h, unfolded u] by simp
  then have "map (ct h') [4..<8] = map ((!) (le32 (pulse_acc m'))) [0..<4]" by (simp add: upt_rec numeral_2_eq_2 numeral_3_eq_3)
  also have "\<dots> = le32 (pulse_acc m')" using map_nth [of "le32 (pulse_acc m')"] by simp
  finally have "map (ct h') [4..<8] = le32 (pulse_acc m')" .
  then show ?thesis by (simp add: stored_count_def)
qed

definition meter_turns :: "'h spi \<Rightarrow> (real \<times> u32) list \<Rightarrow> emeter \<times> 'h \<Rightarrow> emeter \<times> 'h" where
  "meter_turns sp xs s = fold (\<lambda>(ir, d). emeter_poll_fram sp ir d) xs s"

lemma meter_turns_count:
  "fram_chip sp ct \<Longrightarrow> pulse_acc m = stored_count ct h \<Longrightarrow> meter_turns sp xs (m, h) = (m', h') \<Longrightarrow> pulse_acc m' = stored_count ct h'"
proof (induction xs arbitrary: m h)
  case (Cons x xs)
  obtain ir d where x: "x = (ir, d)" by (cases x)
  obtain m1 h1 where 1: "emeter_poll_fram sp ir d (m, h) = (m1, h1)" by force
  from emeter_poll_fram_count [OF Cons.prems(1,2) 1] Cons.IH [of m1 h1] Cons.prems 1 x show ?case
    by (simp add: meter_turns_def)
qed (simp add: meter_turns_def)

text \<open>C20: Restart: started from the memory, whatever the meter then measures, a restart at any turn finds the count it had.\<close>

lemma meter_survives_restart:
  assumes "fram_chip sp ct"
  shows "(case meter_turns sp xs (emeter_init (emeter_cnt (fst (fram_data_read sp d0 h0))) m0, h0) of (m, h) \<Rightarrow>
    emeter_get_cnt (emeter_init (emeter_cnt (fst (fram_data_read sp d h))) m1) = emeter_get_cnt m)"
proof -
  obtain m h where mh: "meter_turns sp xs (emeter_init (emeter_cnt (fst (fram_data_read sp d0 h0))) m0, h0) = (m, h)" by force
  have "pulse_acc m = stored_count ct h"
    by (rule meter_turns_count [OF assms _ mh]) (simp add: emeter_init_def data_read_count [OF assms])
  then show ?thesis unfolding mh by (simp add: emeter_get_cnt_def emeter_init_def data_read_count [OF assms])
qed

section \<open>A chip\<close>

text \<open>A chip that does what the data sheet says, to show that the hypothesis can hold.\<close>

record chip =
  c_mem :: "nat \<Rightarrow> u8"
  c_enabled :: bool
  c_in :: bytes

definition c_addr :: "bytes \<Rightarrow> nat" where
  "c_addr bs = unat (bs ! 1) * 65536 + unat (bs ! 2) * 256 + unat (bs ! 3)"

definition chip_byte :: "u8 \<Rightarrow> chip \<Rightarrow> u8 \<times> chip" where
  "chip_byte b c = (if 4 \<le> length (c_in c) \<and> hd (c_in c) = 3 then c_mem c (c_addr (c_in c) + (length (c_in c) - 4)) else 0,
     c\<lparr>c_in := c_in c @ [b]\<rparr>)"

definition chip_cs :: "bool \<Rightarrow> chip \<Rightarrow> chip" where
  "chip_cs high c =
    (if \<not> high then c\<lparr>c_in := []\<rparr>
     else if c_in c = [6] then c\<lparr>c_enabled := True\<rparr>
     else if 4 \<le> length (c_in c) \<and> hd (c_in c) = 2 \<and> c_enabled c
     then c\<lparr>c_enabled := False, c_mem := (\<lambda>i. if c_addr (c_in c) \<le> i \<and> i < c_addr (c_in c) + (length (c_in c) - 4)
              then c_in c ! (4 + (i - c_addr (c_in c))) else c_mem c i)\<rparr>
     else c)"

definition chip_spi :: "chip spi" where
  "chip_spi = \<lparr>spi_byte = chip_byte, spi_cs = chip_cs\<rparr>"

lemma u8_of_u32: "unat (ucast (w :: u32) :: u8) = unat w mod 256"
  by (simp add: unsigned_ucast_eq unsigned_take_bit_eq take_bit_eq_mod)

lemma fram_cmd_list [simp]: "length (fram_cmd k addr) = 4" "hd (fram_cmd k addr @ bs) = k" "fram_cmd k addr @ bs \<noteq> [c]"
  by (simp_all add: fram_cmd_def)

lemma nat_bytes3:
  assumes "(a :: nat) < 16777216"
  shows "a div 65536 mod 256 * 65536 + a div 256 mod 256 * 256 + a mod 256 = a"
proof -
  define q r s t where "q = a div 256" "r = q div 256" "s = q mod 256" "t = a mod 256"
  have "a div 65536 = r" "r < 256" unfolding q_r_s_t_def using assms div_mult2_eq [of a 256 256] less_mult_imp_div_less [of a 256 65536] by simp_all
  moreover have "q * 256 + t = a" "r * 256 + s = q" unfolding q_r_s_t_def by (simp_all only: div_mult_mod_eq)
  ultimately show ?thesis by (simp flip: q_r_s_t_def)
qed

lemma c_addr_cmd:
  assumes "unat addr < 16777216"
  shows "c_addr (fram_cmd k addr @ bs) = unat addr"
proof -
  have d: "unat (drop_bit n addr) = unat addr div 2 ^ n" for n
    using unat_drop_bit_eq [of n addr] by (simp only: drop_bit_eq_div)
  have "c_addr (fram_cmd k addr @ bs)
      = unat (drop_bit 16 addr) mod 256 * 65536 + unat (drop_bit 8 addr) mod 256 * 256 + unat addr mod 256"
    unfolding c_addr_def fram_cmd_def
    by (simp only: append_Cons nth_Cons_Suc nth_Cons_0 One_nat_def numeral_2_eq_2 numeral_3_eq_3 u8_of_u32)
  then show ?thesis by (simp only: d nat_bytes3 [OF assms] power_numeral Num.pow.simps Num.sqr.simps numeral_times_numeral)
qed

lemma chip_trx:
  "spi_trx chip_spi bs c = (map (\<lambda>j. fst (chip_byte 0 (c\<lparr>c_in := c_in c @ take j bs\<rparr>))) [0..<length bs], c\<lparr>c_in := c_in c @ bs\<rparr>)"
proof (induction bs arbitrary: c)
  case (Cons b bs)
  then show ?case by (simp add: chip_spi_def chip_byte_def map_upt_Suc split: prod.split del: upt_Suc)
qed simp

lemma chip_reads:
  assumes "unat addr + n \<le> 131072"
  shows "drop 4 (fst (spi_trx chip_spi (fram_cmd 3 addr @ replicate n 0) (chip_cs False h))) = map (c_mem h) [unat addr..<unat addr + n]"
proof (rule nth_equalityI)
  fix i assume "i < length (drop 4 (fst (spi_trx chip_spi (fram_cmd 3 addr @ replicate n 0) (chip_cs False h))))"
  then have i: "i < n" by simp
  have "take (4 + i) (fram_cmd 3 addr @ replicate n 0) = fram_cmd 3 addr @ replicate i 0" using i by simp
  then show "drop 4 (fst (spi_trx chip_spi (fram_cmd 3 addr @ replicate n 0) (chip_cs False h))) ! i = map (c_mem h) [unat addr..<unat addr + n] ! i"
    using i assms by (simp add: chip_trx chip_byte_def chip_cs_def c_addr_cmd)
qed simp

lemma chip_read_same: "c_mem (CS_H chip_spi (snd (spi_trx chip_spi (fram_cmd 3 addr @ bs) (CS_L chip_spi h)))) = c_mem h"
  by (simp add: chip_trx) (simp add: chip_spi_def chip_cs_def)

lemma chip_works: "fram_chip chip_spi c_mem"
proof -
  have "case spi_trx chip_spi (fram_cmd 3 addr @ replicate n 0) (CS_L chip_spi h) of (rx, h1) \<Rightarrow>
      drop 4 rx = map (c_mem h) [unat addr..<unat addr + n] \<and> c_mem (CS_H chip_spi h1) = c_mem h"
    if "unat addr + n \<le> 131072" for h addr n
    using chip_reads [OF that, of h] chip_read_same [of addr "replicate n 0" h]
    by (cases "spi_trx chip_spi (fram_cmd 3 addr @ replicate n 0) (CS_L chip_spi h)") (simp add: chip_spi_def)
  moreover have "c_mem (CS_H chip_spi (spi_transmit chip_spi (fram_cmd 2 addr @ bs)
      (CS_L chip_spi (CS_H chip_spi (spi_transmit chip_spi [6] (CS_L chip_spi h))))))
      = (\<lambda>i. if unat addr \<le> i \<and> i < unat addr + length bs then bs ! (i - unat addr) else c_mem h i)"
    if "unat addr + length bs \<le> 131072" for h addr bs
  proof -
    have "c_addr (fram_cmd 2 addr @ bs) = unat addr" using that by (simp add: c_addr_cmd)
    then show ?thesis by (simp add: spi_transmit_def chip_trx del: spi_trx.simps) (auto simp: chip_spi_def chip_cs_def nth_append fun_eq_iff)
  qed
  ultimately show ?thesis unfolding fram_chip_def by (intro conjI allI impI)
qed

text \<open>The chip with an empty memory, a counter of three and two pulses later.\<close>

definition ex_chip :: chip where
  "ex_chip = \<lparr>c_mem = (\<lambda>i. if i = 4 then 3 else 0), c_enabled = False, c_in = []\<rparr>"

lemma fram_round_trip_witness:
  "fst (snd (fram_read chip_spi 131070 2 (snd (fram_write chip_spi 131070 [7, 9] ex_chip)))) = [7, 9]"
  using fram_round_trip [OF chip_works, of 131070 "[7, 9]" ex_chip] by simp

lemma meter_survives_restart_witness:
  "(case meter_turns chip_spi [(4000, 1), (100, 20), (4000, 20)]
      (emeter_init (emeter_cnt (fst (fram_data_read chip_spi \<lparr>power_on_cnt = 0, emeter_cnt = 0, logger_start = 0, logger_end = 0\<rparr> ex_chip))) emeter_start, ex_chip) of
    (m, h) \<Rightarrow> emeter_get_cnt (emeter_init (emeter_cnt (fst (fram_data_read chip_spi
      \<lparr>power_on_cnt = 0, emeter_cnt = 0, logger_start = 0, logger_end = 0\<rparr> h))) emeter_start) = emeter_get_cnt m)"
  by (rule meter_survives_restart [OF chip_works])

end
