(* ===== verification/I2c.thy ===== *)
theory I2c
  imports Gw_Prelude Complex_Main "HOL-Library.Monad_Syntax"
begin

text \<open>
  The I2C master (common/i2c/i2c_common.c) and the temperature and humidity sensor on it
  (common/i2c/aht21.c).  The peripheral with everything on its bus is a parameter, read and written
  through its registers; a read may change it.  The waits poll a flag and count down from 4095, and
  when the count reaches zero while the flag has just changed they go on: they may not end, which is
  \<open>None\<close>.
\<close>

section \<open>Registers\<close>

datatype i2c_reg = CR1 | SR1 | SR2 | DR

record 'h i2c_hw =
  rd :: "i2c_reg \<Rightarrow> 'h \<Rightarrow> u32 \<times> 'h"
  wr :: "i2c_reg \<Rightarrow> u32 \<Rightarrow> 'h \<Rightarrow> 'h"
  recover :: "'h \<Rightarrow> 'h"
  i2c_delay :: "u32 \<Rightarrow> 'h \<Rightarrow> 'h"

text \<open>
  \<open>recover\<close>: the unit switched off, nine clock pulses and \<open>i2c_init\<close>; \<open>i2c_delay\<close>: time passes.  The state
  is that of the file and the peripheral.
\<close>

record 'h i2c =
  ErrorCode :: u32
  i2c_time :: u32
  i2c_err_restarts :: u32
  ihw :: 'h

abbreviation I2C_ERR_TIMEOUT :: int where "I2C_ERR_TIMEOUT \<equiv> -3"
abbreviation I2C_ERR_BUSY :: int where "I2C_ERR_BUSY \<equiv> -2"
abbreviation I2C_ERR_GENERAL :: int where "I2C_ERR_GENERAL \<equiv> -1"

abbreviation TIMEOUT :: u32 where "TIMEOUT \<equiv> 0xFFF"
abbreviation I2C_CR1_START :: u32 where "I2C_CR1_START \<equiv> 0x100"
abbreviation I2C_CR1_STOP :: u32 where "I2C_CR1_STOP \<equiv> 0x200"
abbreviation I2C_CR1_ACK :: u32 where "I2C_CR1_ACK \<equiv> 0x400"
abbreviation I2C_CR1_POS :: u32 where "I2C_CR1_POS \<equiv> 0x800"
abbreviation FLAG_AF :: u32 where "FLAG_AF \<equiv> 0x00010400"
abbreviation FLAG_TXE :: u32 where "FLAG_TXE \<equiv> 0x00010080"
abbreviation FLAG_RXNE :: u32 where "FLAG_RXNE \<equiv> 0x00010040"
abbreviation FLAG_STOPF :: u32 where "FLAG_STOPF \<equiv> 0x00010010"
abbreviation FLAG_BTF :: u32 where "FLAG_BTF \<equiv> 0x00010004"
abbreviation FLAG_ADDR :: u32 where "FLAG_ADDR \<equiv> 0x00010002"
abbreviation FLAG_SB :: u32 where "FLAG_SB \<equiv> 0x00010001"
abbreviation FLAG_BUSY :: u32 where "FLAG_BUSY \<equiv> 0x00100002"
abbreviation HAL_I2C_ERROR_AF :: u32 where "HAL_I2C_ERROR_AF \<equiv> 4"
abbreviation HAL_I2C_ERROR_TIMEOUT :: u32 where "HAL_I2C_ERROR_TIMEOUT \<equiv> 0x20"
abbreviation HAL_I2C_WRONG_START :: u32 where "HAL_I2C_WRONG_START \<equiv> 0x200"

definition get_reg :: "'h i2c_hw \<Rightarrow> i2c_reg \<Rightarrow> 'h i2c \<Rightarrow> u32 \<times> 'h i2c" where
  "get_reg H r s = (case rd H r (ihw s) of (v, h) \<Rightarrow> (v, s\<lparr>ihw := h\<rparr>))"

definition set_reg :: "'h i2c_hw \<Rightarrow> i2c_reg \<Rightarrow> u32 \<Rightarrow> 'h i2c \<Rightarrow> 'h i2c" where
  "set_reg H r v s = s\<lparr>ihw := wr H r v (ihw s)\<rparr>"

definition GET_FLAG :: "'h i2c_hw \<Rightarrow> u32 \<Rightarrow> 'h i2c \<Rightarrow> bool \<times> 'h i2c" where
  "GET_FLAG H f s =
    (case get_reg H (if (ucast (drop_bit 16 f) :: u8) = 1 then SR1 else SR2) s of (v, s1) \<Rightarrow>
      (v AND (f AND 0xFFFF) = f AND 0xFFFF, s1))"

definition CLEAR_FLAG :: "'h i2c_hw \<Rightarrow> u32 \<Rightarrow> 'h i2c \<Rightarrow> 'h i2c" where
  "CLEAR_FLAG H f s = set_reg H SR1 (NOT (f AND 0xFFFF)) s"

definition CLEAR_ADDRFLAG :: "'h i2c_hw \<Rightarrow> 'h i2c \<Rightarrow> 'h i2c" where
  "CLEAR_ADDRFLAG H s = snd (get_reg H SR2 (snd (get_reg H SR1 s)))"

definition SET_BIT :: "'h i2c_hw \<Rightarrow> u32 \<Rightarrow> 'h i2c \<Rightarrow> 'h i2c" where
  "SET_BIT H b s = (case get_reg H CR1 s of (v, s1) \<Rightarrow> set_reg H CR1 (v OR b) s1)"

definition CLEAR_BIT :: "'h i2c_hw \<Rightarrow> u32 \<Rightarrow> 'h i2c \<Rightarrow> 'h i2c" where
  "CLEAR_BIT H b s = (case get_reg H CR1 s of (v, s1) \<Rightarrow> set_reg H CR1 (v AND NOT b) s1)"

definition I2C_7BIT_ADD_WRITE :: "u16 \<Rightarrow> u8" where
  "I2C_7BIT_ADD_WRITE a = ucast (a AND 0xFE)"

definition I2C_7BIT_ADD_READ :: "u16 \<Rightarrow> u8" where
  "I2C_7BIT_ADD_READ a = ucast (a OR 1)"

definition I2C_MEM_ADD_MSB :: "u16 \<Rightarrow> u8" where
  "I2C_MEM_ADD_MSB a = ucast (drop_bit 8 (a AND 0xFF00))"

definition I2C_MEM_ADD_LSB :: "u16 \<Rightarrow> u8" where
  "I2C_MEM_ADD_LSB a = ucast (a AND 0x00FF)"

definition put_DR :: "'h i2c_hw \<Rightarrow> u8 \<Rightarrow> 'h i2c \<Rightarrow> 'h i2c" where
  "put_DR H b s = set_reg H DR (ucast b) s"

definition get_DR :: "'h i2c_hw \<Rightarrow> 'h i2c \<Rightarrow> u8 \<times> 'h i2c" where
  "get_DR H s = (case get_reg H DR s of (v, s1) \<Rightarrow> (ucast v, s1))"

section \<open>Waiting\<close>

text \<open>
  The loop the waits share: \<open>pending\<close> is the loop's condition, \<open>failed\<close> the check made before the count.
\<close>

partial_function (option) wait_loop ::
  "('h i2c \<Rightarrow> bool \<times> 'h i2c) \<Rightarrow> ('h i2c \<Rightarrow> bool \<times> 'h i2c) \<Rightarrow> 'h i2c \<Rightarrow> (int \<times> 'h i2c) option" where
  "wait_loop pending failed s =
    (case pending s of (p, s1) \<Rightarrow>
      if \<not> p then Some (0, s1)
      else case failed s1 of (f, s2) \<Rightarrow>
        if f then Some (-1, s2)
        else let s3 = s2\<lparr>i2c_time := i2c_time s2 - 1\<rparr> in
          if i2c_time s3 = 0
          then case pending s3 of (p', s4) \<Rightarrow>
            if p' then Some (-1, s4\<lparr>ErrorCode := ErrorCode s4 OR HAL_I2C_ERROR_TIMEOUT\<rparr>)
            else wait_loop pending failed s4
          else wait_loop pending failed s3)"

definition flag_is :: "'h i2c_hw \<Rightarrow> u32 \<Rightarrow> bool \<Rightarrow> 'h i2c \<Rightarrow> bool \<times> 'h i2c" where
  "flag_is H f v s = (case GET_FLAG H f s of (b, s1) \<Rightarrow> (b = v, s1))"

definition I2C_WaitOnFlagUntilTimeout :: "'h i2c_hw \<Rightarrow> u32 \<Rightarrow> bool \<Rightarrow> 'h i2c \<Rightarrow> (int \<times> 'h i2c) option" where
  "I2C_WaitOnFlagUntilTimeout H f v s = wait_loop (flag_is H f v) (Pair False) (s\<lparr>i2c_time := TIMEOUT\<rparr>)"

definition I2C_IsAcknowledgeFailed :: "'h i2c_hw \<Rightarrow> 'h i2c \<Rightarrow> bool \<times> 'h i2c" where
  "I2C_IsAcknowledgeFailed H s =
    (case GET_FLAG H FLAG_AF s of (af, s1) \<Rightarrow>
      if af then (let s2 = CLEAR_FLAG H FLAG_AF s1 in (True, s2\<lparr>ErrorCode := ErrorCode s2 OR HAL_I2C_ERROR_AF\<rparr>))
      else (False, s1))"

definition I2C_WaitOnTXEFlagUntilTimeout :: "'h i2c_hw \<Rightarrow> 'h i2c \<Rightarrow> (int \<times> 'h i2c) option" where
  "I2C_WaitOnTXEFlagUntilTimeout H s =
    wait_loop (flag_is H FLAG_TXE False) (I2C_IsAcknowledgeFailed H) (s\<lparr>i2c_time := TIMEOUT\<rparr>)"

definition I2C_WaitOnBTFFlagUntilTimeout :: "'h i2c_hw \<Rightarrow> 'h i2c \<Rightarrow> (int \<times> 'h i2c) option" where
  "I2C_WaitOnBTFFlagUntilTimeout H s =
    wait_loop (flag_is H FLAG_BTF False) (I2C_IsAcknowledgeFailed H) (s\<lparr>i2c_time := TIMEOUT\<rparr>)"

definition addr_failed :: "'h i2c_hw \<Rightarrow> 'h i2c \<Rightarrow> bool \<times> 'h i2c" where
  "addr_failed H s =
    (case GET_FLAG H FLAG_AF s of (af, s1) \<Rightarrow>
      if af then (let s2 = CLEAR_FLAG H FLAG_AF (SET_BIT H I2C_CR1_STOP s1)
                  in (True, s2\<lparr>ErrorCode := ErrorCode s2 OR HAL_I2C_ERROR_AF\<rparr>))
      else (False, s1))"

definition I2C_WaitOnMasterAddressFlagUntilTimeout :: "'h i2c_hw \<Rightarrow> u32 \<Rightarrow> 'h i2c \<Rightarrow> (int \<times> 'h i2c) option" where
  "I2C_WaitOnMasterAddressFlagUntilTimeout H f s =
    wait_loop (flag_is H f False) (addr_failed H) (s\<lparr>i2c_time := TIMEOUT\<rparr>)"

definition stop_seen :: "'h i2c_hw \<Rightarrow> 'h i2c \<Rightarrow> bool \<times> 'h i2c" where
  "stop_seen H s =
    (case GET_FLAG H FLAG_STOPF s of (st, s1) \<Rightarrow> if st then (True, CLEAR_FLAG H FLAG_STOPF s1) else (False, s1))"

definition I2C_WaitOnRXNEFlagUntilTimeout :: "'h i2c_hw \<Rightarrow> 'h i2c \<Rightarrow> (int \<times> 'h i2c) option" where
  "I2C_WaitOnRXNEFlagUntilTimeout H s =
    wait_loop (flag_is H FLAG_RXNE False) (stop_seen H) (s\<lparr>i2c_time := TIMEOUT\<rparr>)"

text \<open>The bus is busy: when the unit has seen an error, it is reset.\<close>

definition check_busy_once :: "'h i2c_hw \<Rightarrow> 'h i2c \<Rightarrow> bool \<times> 'h i2c" where
  "check_busy_once H s =
    (case GET_FLAG H FLAG_BUSY s of (b, s1) \<Rightarrow>
      if b then (case get_reg H SR1 s1 of (v, s2) \<Rightarrow>
        GET_FLAG H FLAG_BUSY
          (if v AND 0x0F00 \<noteq> 0 then s2\<lparr>i2c_err_restarts := i2c_err_restarts s2 + 1, ihw := recover H (ihw s2)\<rparr> else s2))
      else (False, s1))"

fun check_busy_loop :: "'h i2c_hw \<Rightarrow> nat \<Rightarrow> 'h i2c \<Rightarrow> int \<times> 'h i2c" where
  "check_busy_loop H 0 s = (-1, s)"
| "check_busy_loop H (Suc n) s =
    (case check_busy_once H s of (b, s1) \<Rightarrow>
      if b then (let s2 = s1\<lparr>i2c_time := of_nat n\<rparr> in if n = 0 then (-1, s2) else check_busy_loop H n s2)
      else (0, s1))"

definition check_busy :: "'h i2c_hw \<Rightarrow> 'h i2c \<Rightarrow> int \<times> 'h i2c" where
  "check_busy H s = check_busy_loop H (unat TIMEOUT) (s\<lparr>i2c_time := TIMEOUT\<rparr>)"

section \<open>Requests\<close>

definition gen_start :: "'h i2c_hw \<Rightarrow> int \<Rightarrow> 'h i2c \<Rightarrow> (int \<times> 'h i2c) option" where
  "gen_start H err s = do {
     (e, s1) \<leftarrow> I2C_WaitOnFlagUntilTimeout H FLAG_SB False (SET_BIT H I2C_CR1_START s);
     if e \<noteq> 0
     then (case get_reg H CR1 s1 of (v, s2) \<Rightarrow>
       Some (err, if v AND I2C_CR1_START = I2C_CR1_START then s2\<lparr>ErrorCode := HAL_I2C_WRONG_START\<rparr> else s2))
     else Some (0, s1) }"

definition send_addr :: "'h i2c_hw \<Rightarrow> u8 \<Rightarrow> 'h i2c \<Rightarrow> (int \<times> 'h i2c) option" where
  "send_addr H a s = I2C_WaitOnMasterAddressFlagUntilTimeout H FLAG_ADDR (put_DR H a s)"

definition wait_txe :: "'h i2c_hw \<Rightarrow> 'h i2c \<Rightarrow> (int \<times> 'h i2c) option" where
  "wait_txe H s = do {
     (e, s1) \<leftarrow> I2C_WaitOnTXEFlagUntilTimeout H s;
     Some (e, if e \<noteq> 0 \<and> ErrorCode s1 = HAL_I2C_ERROR_AF then SET_BIT H I2C_CR1_STOP s1 else s1) }"

definition wait_btf :: "'h i2c_hw \<Rightarrow> 'h i2c \<Rightarrow> (int \<times> 'h i2c) option" where
  "wait_btf H s = do {
     (e, s1) \<leftarrow> I2C_WaitOnBTFFlagUntilTimeout H s;
     Some (e, if e \<noteq> 0 \<and> ErrorCode s1 = HAL_I2C_ERROR_AF then SET_BIT H I2C_CR1_STOP s1 else s1) }"

definition I2C_RequestMemoryWrite :: "'h i2c_hw \<Rightarrow> u16 \<Rightarrow> u16 \<Rightarrow> bool \<Rightarrow> 'h i2c \<Rightarrow> (int \<times> 'h i2c) option" where
  "I2C_RequestMemoryWrite H addr mem is16 s = do {
     (e, s1) \<leftarrow> gen_start H (-3) s;
     if e \<noteq> 0 then Some (e, s1) else do {
     (e, s2) \<leftarrow> send_addr H (I2C_7BIT_ADD_WRITE addr) s1;
     if e \<noteq> 0 then Some (-1, s2) else do {
     (e, s3) \<leftarrow> wait_txe H (CLEAR_ADDRFLAG H s2);
     if e \<noteq> 0 then Some (-1, s3)
     else if \<not> is16 then Some (0, put_DR H (I2C_MEM_ADD_LSB mem) s3)
     else do {
       (e, s4) \<leftarrow> wait_txe H (put_DR H (I2C_MEM_ADD_MSB mem) s3);
       if e \<noteq> 0 then Some (-1, s4) else Some (0, put_DR H (I2C_MEM_ADD_LSB mem) s4) }}}}"

definition I2C_RequestMemoryRead :: "'h i2c_hw \<Rightarrow> u16 \<Rightarrow> u16 \<Rightarrow> bool \<Rightarrow> 'h i2c \<Rightarrow> (int \<times> 'h i2c) option" where
  "I2C_RequestMemoryRead H addr mem is16 s = do {
     (e, s1) \<leftarrow> I2C_RequestMemoryWrite H addr mem is16 (SET_BIT H I2C_CR1_ACK s);
     if e \<noteq> 0 then Some (e, s1) else do {
     (e, s2) \<leftarrow> wait_txe H s1;
     if e \<noteq> 0 then Some (-1, s2) else do {
     (e, s3) \<leftarrow> gen_start H (-3) s2;
     if e \<noteq> 0 then Some (e, s3) else do {
     (e, s4) \<leftarrow> send_addr H (I2C_7BIT_ADD_READ addr) s3;
     Some (if e \<noteq> 0 then -1 else 0, s4) }}}}"

definition I2C_MasterRequestWrite :: "'h i2c_hw \<Rightarrow> u16 \<Rightarrow> 'h i2c \<Rightarrow> (int \<times> 'h i2c) option" where
  "I2C_MasterRequestWrite H addr s = do {
     (e, s1) \<leftarrow> gen_start H (-2) s;
     if e \<noteq> 0 then Some (e, s1) else do {
     (e, s2) \<leftarrow> send_addr H (I2C_7BIT_ADD_WRITE addr) s1;
     Some (if e \<noteq> 0 then -1 else 0, s2) }}"

definition I2C_MasterRequestRead :: "'h i2c_hw \<Rightarrow> u16 \<Rightarrow> 'h i2c \<Rightarrow> (int \<times> 'h i2c) option" where
  "I2C_MasterRequestRead H addr s = do {
     (e, s1) \<leftarrow> gen_start H (-2) (SET_BIT H I2C_CR1_ACK s);
     if e \<noteq> 0 then Some (e, s1) else do {
     (e, s2) \<leftarrow> send_addr H (I2C_7BIT_ADD_READ addr) s1;
     Some (if e \<noteq> 0 then -1 else 0, s2) }}"

section \<open>Transfers\<close>

definition xfer_start :: "'h i2c_hw \<Rightarrow> 'h i2c \<Rightarrow> 'h i2c" where
  "xfer_start H s = (CLEAR_BIT H I2C_CR1_POS s)\<lparr>ErrorCode := 0\<rparr>"

text \<open>One byte, and the next one at once when the shift register is already empty.\<close>

definition put_one_or_two :: "'h i2c_hw \<Rightarrow> u8 \<Rightarrow> bytes \<Rightarrow> 'h i2c \<Rightarrow> bytes \<times> 'h i2c" where
  "put_one_or_two H b bs s =
    (case GET_FLAG H FLAG_BTF (put_DR H b s) of (btf, s1) \<Rightarrow>
      (case bs of [] \<Rightarrow> ([], s1) | b2 # bs2 \<Rightarrow> if btf then (bs2, put_DR H b2 s1) else (bs, s1)))"

lemma put_one_or_two_shorter: "length (fst (put_one_or_two H b bs s)) \<le> length bs"
  by (auto simp: put_one_or_two_def split: prod.splits list.splits)

function mem_write_loop :: "'h i2c_hw \<Rightarrow> bytes \<Rightarrow> 'h i2c \<Rightarrow> (int \<times> 'h i2c) option" where
  "mem_write_loop H [] s = Some (0, s)"
| "mem_write_loop H (b # bs) s = do {
     (e, s1) \<leftarrow> wait_txe H s;
     if e \<noteq> 0 then Some (I2C_ERR_GENERAL, s1)
     else mem_write_loop H (fst (put_one_or_two H b bs s1)) (snd (put_one_or_two H b bs s1)) }"
  by pat_completeness auto
termination
  by (relation "measure (\<lambda>x. length (fst (snd x)))") (simp_all add: less_Suc_eq_le put_one_or_two_shorter)

definition i2c_mem_write :: "'h i2c_hw \<Rightarrow> u16 \<Rightarrow> u16 \<Rightarrow> bool \<Rightarrow> bytes \<Rightarrow> 'h i2c \<Rightarrow> (int \<times> 'h i2c) option" where
  "i2c_mem_write H addr mem is16 bs s =
    (case check_busy H s of (b, s1) \<Rightarrow>
      if b \<noteq> 0 then Some (I2C_ERR_BUSY, s1) else do {
      (e, s2) \<leftarrow> I2C_RequestMemoryWrite H addr mem is16 (xfer_start H s1);
      if e \<noteq> 0 then Some (I2C_ERR_GENERAL, s2) else do {
      (e, s3) \<leftarrow> mem_write_loop H bs s2;
      if e \<noteq> 0 then Some (e, s3) else do {
      (e, s4) \<leftarrow> wait_btf H s3;
      if e \<noteq> 0 then Some (I2C_ERR_GENERAL, s4) else Some (0, SET_BIT H I2C_CR1_STOP s4) }}})"

function tx_loop :: "'h i2c_hw \<Rightarrow> bytes \<Rightarrow> 'h i2c \<Rightarrow> (int \<times> 'h i2c) option" where
  "tx_loop H [] s = Some (0, s)"
| "tx_loop H (b # bs) s = do {
     (e, s1) \<leftarrow> wait_txe H s;
     if e \<noteq> 0 then Some (I2C_ERR_GENERAL, s1) else do {
     (e, s2) \<leftarrow> wait_btf H (snd (put_one_or_two H b bs s1));
     if e \<noteq> 0 then Some (I2C_ERR_GENERAL, s2)
     else tx_loop H (fst (put_one_or_two H b bs s1)) s2 }}"
  by pat_completeness auto
termination
  by (relation "measure (\<lambda>x. length (fst (snd x)))") (simp_all add: less_Suc_eq_le put_one_or_two_shorter)

definition i2c_tx :: "'h i2c_hw \<Rightarrow> u16 \<Rightarrow> bytes \<Rightarrow> 'h i2c \<Rightarrow> (int \<times> 'h i2c) option" where
  "i2c_tx H addr bs s =
    (case check_busy H s of (b, s1) \<Rightarrow>
      if b \<noteq> 0 then Some (I2C_ERR_BUSY, s1) else do {
      (e, s2) \<leftarrow> I2C_MasterRequestWrite H addr (xfer_start H s1);
      if e \<noteq> 0 then Some (I2C_ERR_GENERAL, s2) else do {
      (e, s3) \<leftarrow> tx_loop H bs (CLEAR_ADDRFLAG H s2);
      if e \<noteq> 0 then Some (e, s3) else Some (0, SET_BIT H I2C_CR1_STOP s3) }})"

text \<open>
  Reading: \<open>n\<close> bytes are left, \<open>acc\<close> has been stored.  The last three bytes are taken with the shift
  register held, so that the acknowledge and the stop come at the right byte.
\<close>

fun rx_loop :: "'h i2c_hw \<Rightarrow> nat \<Rightarrow> bytes \<Rightarrow> 'h i2c \<Rightarrow> (int \<times> bytes \<times> 'h i2c) option" where
  "rx_loop H 0 acc s = Some (0, acc, s)"
| "rx_loop H (Suc 0) acc s = do {
     (e, s1) \<leftarrow> I2C_WaitOnRXNEFlagUntilTimeout H s;
     if e \<noteq> 0 then Some (I2C_ERR_GENERAL, acc, s1)
     else (case get_DR H s1 of (b, s2) \<Rightarrow> Some (0, acc @ [b], s2)) }"
| "rx_loop H (Suc (Suc 0)) acc s = do {
     (e, s1) \<leftarrow> I2C_WaitOnFlagUntilTimeout H FLAG_BTF False s;
     if e \<noteq> 0 then Some (I2C_ERR_GENERAL, acc, s1)
     else (case get_DR H (SET_BIT H I2C_CR1_STOP s1) of (b1, s2) \<Rightarrow>
           case get_DR H s2 of (b2, s3) \<Rightarrow> Some (0, acc @ [b1, b2], s3)) }"
| "rx_loop H (Suc (Suc (Suc 0))) acc s = do {
     (e, s1) \<leftarrow> I2C_WaitOnFlagUntilTimeout H FLAG_BTF False s;
     if e \<noteq> 0 then Some (I2C_ERR_GENERAL, acc, s1)
     else (case get_DR H (CLEAR_BIT H I2C_CR1_ACK s1) of (b1, s2) \<Rightarrow> do {
       (e, s3) \<leftarrow> I2C_WaitOnFlagUntilTimeout H FLAG_BTF False s2;
       if e \<noteq> 0 then Some (I2C_ERR_GENERAL, acc @ [b1], s3)
       else (case get_DR H (SET_BIT H I2C_CR1_STOP s3) of (b2, s4) \<Rightarrow>
             case get_DR H s4 of (b3, s5) \<Rightarrow> Some (0, acc @ [b1, b2, b3], s5)) }) }"
| "rx_loop H (Suc (Suc (Suc (Suc n)))) acc s = do {
     (e, s1) \<leftarrow> I2C_WaitOnRXNEFlagUntilTimeout H s;
     if e \<noteq> 0 then Some (I2C_ERR_GENERAL, acc, s1)
     else (case get_DR H s1 of (b1, s2) \<Rightarrow>
       case GET_FLAG H FLAG_BTF s2 of (btf, s3) \<Rightarrow>
         if btf
         then (case get_DR H (if n = 0 then CLEAR_BIT H I2C_CR1_ACK s3 else s3) of (b2, s4) \<Rightarrow>
           rx_loop H (Suc (Suc n)) (acc @ [b1, b2]) s4)
         else rx_loop H (Suc (Suc (Suc n))) (acc @ [b1]) s3) }"

definition rx_prepare :: "'h i2c_hw \<Rightarrow> bool \<Rightarrow> nat \<Rightarrow> 'h i2c \<Rightarrow> 'h i2c" where
  "rx_prepare H ack n s =
    (if n = 0 then SET_BIT H I2C_CR1_STOP (CLEAR_ADDRFLAG H s)
     else if n = 1 then SET_BIT H I2C_CR1_STOP (CLEAR_ADDRFLAG H (CLEAR_BIT H I2C_CR1_ACK s))
     else if n = 2 then CLEAR_ADDRFLAG H (SET_BIT H I2C_CR1_POS (CLEAR_BIT H I2C_CR1_ACK s))
     else CLEAR_ADDRFLAG H (if ack then SET_BIT H I2C_CR1_ACK s else s))"

text \<open>\<open>buf\<close> is the destination of \<open>Size\<close> bytes; on an error it keeps what had been stored.\<close>

definition stored :: "bytes \<Rightarrow> bytes \<Rightarrow> bytes" where
  "stored acc buf = acc @ drop (length acc) buf"

definition i2c_mem_read :: "'h i2c_hw \<Rightarrow> u16 \<Rightarrow> u16 \<Rightarrow> bool \<Rightarrow> bytes \<Rightarrow> 'h i2c \<Rightarrow> (int \<times> bytes \<times> 'h i2c) option" where
  "i2c_mem_read H addr mem is16 buf s =
    (case check_busy H s of (b, s1) \<Rightarrow>
      if b \<noteq> 0 then Some (I2C_ERR_BUSY, buf, s1) else do {
      (e, s2) \<leftarrow> I2C_RequestMemoryRead H addr mem is16 (xfer_start H s1);
      if e \<noteq> 0 then Some (I2C_ERR_GENERAL, buf, s2) else do {
      (e, acc, s3) \<leftarrow> rx_loop H (length buf) [] (rx_prepare H False (length buf) s2);
      Some (e, stored acc buf, s3) }})"

definition i2c_rx :: "'h i2c_hw \<Rightarrow> u16 \<Rightarrow> bytes \<Rightarrow> 'h i2c \<Rightarrow> (int \<times> bytes \<times> 'h i2c) option" where
  "i2c_rx H addr buf s =
    (case check_busy H s of (b, s1) \<Rightarrow>
      if b \<noteq> 0 then Some (I2C_ERR_BUSY, buf, s1) else do {
      (e, s2) \<leftarrow> I2C_MasterRequestRead H addr (xfer_start H s1);
      if e \<noteq> 0 then Some (I2C_ERR_GENERAL, buf, s2) else do {
      (e, acc, s3) \<leftarrow> rx_loop H (length buf) [] (rx_prepare H True (length buf) s2);
      Some (e, stored acc buf, s3) }})"

text \<open>The poll for a device: the count left by the wait for the start bit bounds the wait for the answer.\<close>

fun ready_wait :: "'h i2c_hw \<Rightarrow> nat \<Rightarrow> bool \<Rightarrow> bool \<Rightarrow> 'h i2c \<Rightarrow> 'h i2c" where
  "ready_wait H 0 t1 t2 s = s"
| "ready_wait H (Suc n) t1 t2 s =
    (if \<not> t1 \<and> \<not> t2
     then (case GET_FLAG H FLAG_ADDR (s\<lparr>i2c_time := of_nat n\<rparr>) of (t1', s1) \<Rightarrow>
           case GET_FLAG H FLAG_AF s1 of (t2', s2) \<Rightarrow> ready_wait H n t1' t2' s2)
     else s)"

definition ready_once :: "'h i2c_hw \<Rightarrow> u16 \<Rightarrow> 'h i2c \<Rightarrow> (int option \<times> 'h i2c) option" where
  "ready_once H addr s = do {
     (e, s1) \<leftarrow> gen_start H I2C_ERR_GENERAL (s\<lparr>i2c_time := 100\<rparr>);
     if e \<noteq> 0 then Some (Some I2C_ERR_GENERAL, s1)
     else (case GET_FLAG H FLAG_ADDR (put_DR H (I2C_7BIT_ADD_WRITE addr) s1) of (t1, s2) \<Rightarrow>
       case GET_FLAG H FLAG_AF s2 of (t2, s3) \<Rightarrow>
       case GET_FLAG H FLAG_ADDR (ready_wait H (unat (i2c_time s3)) t1 t2 s3) of (a, s4) \<Rightarrow>
         let s5 = SET_BIT H I2C_CR1_STOP s4 in do {
         (e, s6) \<leftarrow> I2C_WaitOnFlagUntilTimeout H FLAG_BUSY True (if a then CLEAR_ADDRFLAG H s5 else CLEAR_FLAG H FLAG_AF s5);
         Some (if e \<noteq> 0 then Some I2C_ERR_GENERAL else if a then Some 0 else None, s6) }) }"

text \<open>\<open>do \<dots> while(try < Trials)\<close>: \<open>n\<close> trials are left after this one.\<close>

fun ready_loop :: "'h i2c_hw \<Rightarrow> u16 \<Rightarrow> nat \<Rightarrow> 'h i2c \<Rightarrow> (int \<times> 'h i2c) option" where
  "ready_loop H addr n s = do {
     (r, s1) \<leftarrow> ready_once H addr s;
     (case r of Some e \<Rightarrow> Some (e, s1)
      | None \<Rightarrow> (case n of 0 \<Rightarrow> Some (I2C_ERR_TIMEOUT, s1) | Suc m \<Rightarrow> ready_loop H addr m s1)) }"

declare ready_loop.simps [simp del]

definition i2c_is_device_ready :: "'h i2c_hw \<Rightarrow> u16 \<Rightarrow> u32 \<Rightarrow> 'h i2c \<Rightarrow> (int \<times> 'h i2c) option" where
  "i2c_is_device_ready H addr Trials s =
    (case check_busy H s of (b, s1) \<Rightarrow>
      if b \<noteq> 0 then Some (I2C_ERR_BUSY, s1) else ready_loop H addr (unat Trials - 1) (xfer_start H s1))"

section \<open>The sensor\<close>

record aht21_t =
  aht_temp :: real
  aht_hum :: real
  aht_exist :: bool
  is_wait_conv :: bool
  tmr_poll :: u32

definition aht21_zero :: aht21_t where
  "aht21_zero = \<lparr>aht_temp = 0, aht_hum = 0, aht_exist = False, is_wait_conv = False, tmr_poll = 0\<rparr>"

abbreviation AHT21_ADDR :: u16 where "AHT21_ADDR \<equiv> 0x70"
abbreviation AHT21_CMD_TRIG_MEAS :: u16 where "AHT21_CMD_TRIG_MEAS \<equiv> 0xAC"
abbreviation AHT21_CMD_RESET :: u8 where "AHT21_CMD_RESET \<equiv> 0xBA"
abbreviation AHT21_CMD_INIT :: u16 where "AHT21_CMD_INIT \<equiv> 0xBE"
abbreviation POLL_HALF_INTERVAL :: u32 where "POLL_HALF_INTERVAL \<equiv> 100"

definition i2c_wait :: "'h i2c_hw \<Rightarrow> u32 \<Rightarrow> 'h i2c \<Rightarrow> 'h i2c" where
  "i2c_wait H ms s = s\<lparr>ihw := i2c_delay H ms (ihw s)\<rparr>"

definition aht21_read_status :: "'h i2c_hw \<Rightarrow> u8 \<Rightarrow> 'h i2c \<Rightarrow> (int \<times> u8 \<times> 'h i2c) option" where
  "aht21_read_status H status s = do {
     (e, buf, s1) \<leftarrow> i2c_rx H AHT21_ADDR [status] s;
     Some (e, hd buf, s1) }"

definition aht21_reset :: "'h i2c_hw \<Rightarrow> 'h i2c \<Rightarrow> (int \<times> 'h i2c) option" where
  "aht21_reset H s = i2c_tx H AHT21_ADDR [AHT21_CMD_RESET] s"

definition aht21_is_present :: "'h i2c_hw \<Rightarrow> u8 \<Rightarrow> 'h i2c \<Rightarrow> (int \<times> 'h i2c) option" where
  "aht21_is_present H sts s = do { (e, b, s1) \<leftarrow> aht21_read_status H sts s; Some (e, s1) }"

text \<open>\<open>data\<close>: what the buffer on the stack holds before it is read into.\<close>

definition reset_reg :: "'h i2c_hw \<Rightarrow> bytes \<Rightarrow> u16 \<Rightarrow> 'h i2c \<Rightarrow> 'h i2c option" where
  "reset_reg H data reg s = do {
     (e, s1) \<leftarrow> i2c_mem_write H AHT21_ADDR reg False [0, 0] s;
     (e, d, s2) \<leftarrow> i2c_rx H AHT21_ADDR data (i2c_wait H 5 s1);
     (e, s3) \<leftarrow> i2c_mem_write H AHT21_ADDR (0xB0 OR reg) False [d ! 1, d ! 2] (i2c_wait H 10 s2);
     Some s3 }"

definition aht21_init :: "'h i2c_hw \<Rightarrow> u8 \<Rightarrow> bytes \<Rightarrow> aht21_t \<Rightarrow> 'h i2c \<Rightarrow> (int \<times> aht21_t \<times> 'h i2c) option" where
  "aht21_init H st data a s = do {
     (p, s1) \<leftarrow> aht21_is_present H st (i2c_wait H 40 s);
     if p \<noteq> 0 then Some (1, a\<lparr>aht_exist := False\<rparr>, s1)
     else let a1 = a\<lparr>aht_exist := True\<rparr> in do {
     (r, s2) \<leftarrow> aht21_reset H s1;
     (e, status, s3) \<leftarrow> aht21_read_status H st (i2c_wait H 40 s2);
     if e \<noteq> 0 then Some (e, a1, s3) else do {
     s4 \<leftarrow> (if status AND 0x08 \<noteq> 0x08
            then do { (e1, t1) \<leftarrow> i2c_mem_write H AHT21_ADDR 0xA8 False [0x00, 0x00] s3;
                      (e2, t2) \<leftarrow> i2c_mem_write H AHT21_ADDR AHT21_CMD_INIT False [0x08, 0x00] t1;
                      Some (i2c_wait H 10 t2) }
            else Some s3);
     s5 \<leftarrow> (if status AND 0x18 \<noteq> 0x18
            then do { t1 \<leftarrow> reset_reg H data 0x1b s4; t2 \<leftarrow> reset_reg H data 0x1c t1; reset_reg H data 0x1e t2 }
            else Some s4);
     (e, b, s6) \<leftarrow> aht21_read_status H status s5;
     Some (e, a1, s6) }}}"

definition aht_raw_hum :: "bytes \<Rightarrow> u32" where
  "aht_raw_hum d = drop_bit 4 (push_bit 16 (ucast (d ! 1)) OR push_bit 8 (ucast (d ! 2)) OR ucast (d ! 3))"

definition aht_raw_temp :: "bytes \<Rightarrow> u32" where
  "aht_raw_temp d = push_bit 16 (ucast (d ! 3) AND 0x0F) OR push_bit 8 (ucast (d ! 4)) OR ucast (d ! 5)"

definition aht21_poll :: "'h i2c_hw \<Rightarrow> bytes \<Rightarrow> u32 \<Rightarrow> aht21_t \<Rightarrow> 'h i2c \<Rightarrow> (int \<times> aht21_t \<times> 'h i2c) option" where
  "aht21_poll H data diff_ms a0 s =
    (let a = a0\<lparr>tmr_poll := tmr_poll a0 + diff_ms\<rparr>
     in if tmr_poll a \<ge> POLL_HALF_INTERVAL
        then let a1 = a\<lparr>tmr_poll := 0\<rparr> in
          if \<not> is_wait_conv a1
          then do { (e, s1) \<leftarrow> i2c_mem_write H AHT21_ADDR AHT21_CMD_TRIG_MEAS False [0x33, 0x00] s;
                    Some (e, a1\<lparr>is_wait_conv := True\<rparr>, s1) }
          else do { (e, d, s1) \<leftarrow> i2c_rx H AHT21_ADDR data s;
                    Some (e, if e = 0 \<and> (d ! 0) AND 0x80 = 0
                             then a1\<lparr>is_wait_conv := False,
                                     aht_hum := real (unat (aht_raw_hum d)) * 100 / 1024 / 1024,
                                     aht_temp := real (unat (aht_raw_temp d)) * 200 / 1024 / 1024 - 50\<rparr>
                             else a1, s1) }
        else Some (0, a, s))"

section \<open>What crosses the bus\<close>

text \<open>
  The interface of the proofs: a view \<open>io\<close> of the peripheral that holds the bytes written to the data
  register and the bytes read from it, in order, and that nothing else changes.
\<close>

lemma u8_u32_u8: "(ucast (ucast (b :: u8) :: u32) :: u8) = b"
  by (simp add: unsigned_ucast_eq take_bit_word_eq_self)

locale i2c_bus =
  fixes H :: "'h i2c_hw" and io :: "'h \<Rightarrow> bytes \<times> bytes"
  assumes io_put: "io (wr H DR v h) = (fst (io h) @ [ucast v], snd (io h))"
    and io_wr: "r \<noteq> DR \<Longrightarrow> io (wr H r v h) = io h"
    and io_get: "io (snd (rd H DR h)) = (fst (io h), snd (io h) @ [ucast (fst (rd H DR h))])"
    and io_rd: "r \<noteq> DR \<Longrightarrow> io (snd (rd H r h)) = io h"
    and io_recover: "io (recover H h) = io h"
begin

lemma get_reg_io: "r \<noteq> DR \<Longrightarrow> io (ihw (snd (get_reg H r s))) = io (ihw s)"
  by (simp add: get_reg_def io_rd case_prod_beta')

lemma set_reg_io: "r \<noteq> DR \<Longrightarrow> io (ihw (set_reg H r v s)) = io (ihw s)"
  by (simp add: set_reg_def io_wr)

lemma flag_io: "io (ihw (snd (GET_FLAG H f s))) = io (ihw s)"
  using get_reg_io by (simp add: GET_FLAG_def case_prod_beta')

lemma keep_io:
  "io (ihw (CLEAR_FLAG H f s)) = io (ihw s)" "io (ihw (CLEAR_ADDRFLAG H s)) = io (ihw s)"
  "io (ihw (SET_BIT H b s)) = io (ihw s)" "io (ihw (CLEAR_BIT H b s)) = io (ihw s)"
  "io (ihw (xfer_start H s)) = io (ihw s)"
  by (simp_all add: CLEAR_FLAG_def CLEAR_ADDRFLAG_def SET_BIT_def CLEAR_BIT_def xfer_start_def get_reg_io set_reg_io case_prod_beta')

lemma put_DR_io: "io (ihw (put_DR H b s)) = (fst (io (ihw s)) @ [b], snd (io (ihw s)))"
  by (simp add: put_DR_def set_reg_def io_put u8_u32_u8)

lemma get_DR_io: "get_DR H s = (b, s1) \<Longrightarrow> io (ihw s1) = (fst (io (ihw s)), snd (io (ihw s)) @ [b])"
  by (auto simp: get_DR_def get_reg_def io_get case_prod_beta')

lemma check_io:
  "io (ihw (snd (flag_is H f v s))) = io (ihw s)" "io (ihw (snd (I2C_IsAcknowledgeFailed H s))) = io (ihw s)"
  "io (ihw (snd (addr_failed H s))) = io (ihw s)" "io (ihw (snd (stop_seen H s))) = io (ihw s)"
  by (simp_all add: flag_is_def I2C_IsAcknowledgeFailed_def addr_failed_def stop_seen_def Let_def flag_io keep_io case_prod_beta')

lemma wait_loop_io:
  assumes "wait_loop pending failed s = Some y"
    "\<And>s. io (ihw (snd (pending s))) = io (ihw s)" "\<And>s. io (ihw (snd (failed s))) = io (ihw s)"
  shows "io (ihw (snd y)) = io (ihw s)"
proof -
  let ?Q = "\<lambda>p f s y. (\<forall>s. io (ihw (snd (p s))) = io (ihw s)) \<longrightarrow> (\<forall>s. io (ihw (snd (f s))) = io (ihw s))
    \<longrightarrow> io (ihw (snd y)) = io (ihw (s :: 'h i2c))"
  have "?Q pending failed s y"
  proof (rule wait_loop.raw_induct [OF _ assms(1), of ?Q], intro impI)
    fix wl :: "('h i2c \<Rightarrow> bool \<times> 'h i2c) \<Rightarrow> ('h i2c \<Rightarrow> bool \<times> 'h i2c) \<Rightarrow> 'h i2c \<Rightarrow> (int \<times> 'h i2c) option"
      and p f s y
    assume ih: "\<And>p f s y. wl p f s = Some y \<Longrightarrow> ?Q p f s y"
      and eq: "(case p s of (pd, s1) \<Rightarrow> if \<not> pd then Some (0, s1)
        else case f s1 of (fl, s2) \<Rightarrow> if fl then Some (-1, s2)
        else let s3 = s2\<lparr>i2c_time := i2c_time s2 - 1\<rparr> in
          if i2c_time s3 = 0 then case p s3 of (p', s4) \<Rightarrow>
            if p' then Some (-1, s4\<lparr>ErrorCode := ErrorCode s4 OR HAL_I2C_ERROR_TIMEOUT\<rparr>) else wl p f s4
          else wl p f s3) = Some y"
      and pf: "\<forall>s. io (ihw (snd (p s))) = io (ihw s)" "\<forall>s. io (ihw (snd (f s))) = io (ihw s)"
    obtain pd s1 where p1: "p s = (pd, s1)" by force
    obtain fl s2 where f1: "f s1 = (fl, s2)" by force
    define s3 where "s3 = s2\<lparr>i2c_time := i2c_time s2 - 1\<rparr>"
    obtain p' s4 where p3: "p s3 = (p', s4)" by force
    have k: "io (ihw s1) = io (ihw s)" "io (ihw s2) = io (ihw s1)" "io (ihw s3) = io (ihw s2)" "io (ihw s4) = io (ihw s3)"
      using pf(1) [rule_format, of s] pf(2) [rule_format, of s1] pf(1) [rule_format, of s3] p1 f1 p3 by (simp_all add: s3_def)
    have "wl p f t = Some y \<Longrightarrow> io (ihw (snd y)) = io (ihw t)" for t using ih pf by blast
    then show "io (ihw (snd y)) = io (ihw s)"
      using eq k by (auto simp: p1 f1 p3 Let_def simp flip: s3_def split: if_splits)
  qed
  then show ?thesis using assms(2,3) by blast
qed

lemma waits_io:
  "I2C_WaitOnFlagUntilTimeout H f v s = Some (e, s') \<Longrightarrow> io (ihw s') = io (ihw s)"
  "I2C_WaitOnTXEFlagUntilTimeout H s = Some (e, s') \<Longrightarrow> io (ihw s') = io (ihw s)"
  "I2C_WaitOnBTFFlagUntilTimeout H s = Some (e, s') \<Longrightarrow> io (ihw s') = io (ihw s)"
  "I2C_WaitOnMasterAddressFlagUntilTimeout H f s = Some (e, s') \<Longrightarrow> io (ihw s') = io (ihw s)"
  "I2C_WaitOnRXNEFlagUntilTimeout H s = Some (e, s') \<Longrightarrow> io (ihw s') = io (ihw s)"
  unfolding I2C_WaitOnFlagUntilTimeout_def I2C_WaitOnTXEFlagUntilTimeout_def I2C_WaitOnBTFFlagUntilTimeout_def
    I2C_WaitOnMasterAddressFlagUntilTimeout_def I2C_WaitOnRXNEFlagUntilTimeout_def
  by (drule wait_loop_io; simp add: check_io)+

lemma check_busy_loop_io: "io (ihw (snd (check_busy_loop H n s))) = io (ihw s)"
proof (induction n arbitrary: s)
  case (Suc n)
  obtain b s1 where b: "check_busy_once H s = (b, s1)" by force
  obtain v s2 where v: "GET_FLAG H FLAG_BUSY s = (v, s2)" by force
  obtain w s3 where w: "get_reg H SR1 s2 = (w, s3)" by force
  have "io (ihw s2) = io (ihw s)" "io (ihw s3) = io (ihw s2)"
    using flag_io [of FLAG_BUSY s] get_reg_io [of SR1 s2] v w by simp_all
  then have "io (ihw (snd (check_busy_once H s))) = io (ihw s)"
    using v w by (simp add: check_busy_once_def flag_io io_recover)
  then have "io (ihw s1) = io (ihw s)" using b by simp
  then show ?case using Suc.IH b by (simp add: Let_def)
qed simp

lemma check_busy_io: "check_busy H s = (e, s') \<Longrightarrow> io (ihw s') = io (ihw s)"
  using check_busy_loop_io [of "unat TIMEOUT" "s\<lparr>i2c_time := TIMEOUT\<rparr>"] by (simp add: check_busy_def del: check_busy_loop.simps)

end

section \<open>Success means all of it\<close>

definition mem_addr :: "u16 \<Rightarrow> bool \<Rightarrow> bytes" where
  "mem_addr mem is16 = (if is16 then [I2C_MEM_ADD_MSB mem, I2C_MEM_ADD_LSB mem] else [I2C_MEM_ADD_LSB mem])"

text \<open>The transfers of the interface, and what they put on the bus.\<close>

datatype i2c_call =
    Mem_write u16 u16 bool bytes
  | Mem_read u16 u16 bool bytes
  | Tx u16 bytes
  | Rx u16 bytes

definition i2c_do :: "'h i2c_hw \<Rightarrow> i2c_call \<Rightarrow> 'h i2c \<Rightarrow> (int \<times> bytes \<times> 'h i2c) option" where
  "i2c_do H c s = (case c of
     Mem_write addr mem is16 bs \<Rightarrow> map_option (\<lambda>(e, s1). (e, [], s1)) (i2c_mem_write H addr mem is16 bs s)
   | Mem_read addr mem is16 buf \<Rightarrow> i2c_mem_read H addr mem is16 buf s
   | Tx addr bs \<Rightarrow> map_option (\<lambda>(e, s1). (e, [], s1)) (i2c_tx H addr bs s)
   | Rx addr buf \<Rightarrow> i2c_rx H addr buf s)"

definition bus_out :: "i2c_call \<Rightarrow> bytes" where
  "bus_out c = (case c of
     Mem_write addr mem is16 bs \<Rightarrow> I2C_7BIT_ADD_WRITE addr # mem_addr mem is16 @ bs
   | Mem_read addr mem is16 buf \<Rightarrow> I2C_7BIT_ADD_WRITE addr # mem_addr mem is16 @ [I2C_7BIT_ADD_READ addr]
   | Tx addr bs \<Rightarrow> I2C_7BIT_ADD_WRITE addr # bs
   | Rx addr buf \<Rightarrow> [I2C_7BIT_ADD_READ addr])"

definition bus_in :: "i2c_call \<Rightarrow> nat" where
  "bus_in c = (case c of Mem_read addr mem is16 buf \<Rightarrow> length buf | Rx addr buf \<Rightarrow> length buf | _ \<Rightarrow> 0)"

context i2c_bus
begin

abbreviation "outs s \<equiv> fst (io (ihw s))"
abbreviation "ins s \<equiv> snd (io (ihw s))"

lemma gen_start_io:
  assumes "gen_start H err s = Some (e, s')"
  shows "io (ihw s') = io (ihw s)"
proof -
  obtain e1 s1 where w: "I2C_WaitOnFlagUntilTimeout H FLAG_SB False (SET_BIT H I2C_CR1_START s) = Some (e1, s1)"
    using assms by (auto simp: gen_start_def bind_eq_Some_conv)
  obtain v s2 where v: "get_reg H CR1 s1 = (v, s2)" by force
  have "io (ihw s2) = io (ihw s1)" using get_reg_io [of CR1 s1] v by simp
  moreover have "io (ihw s1) = io (ihw s)" using waits_io(1) [OF w] by (simp add: keep_io)
  ultimately show ?thesis using assms w v by (auto simp: gen_start_def split: if_splits)
qed

lemma send_addr_io: "send_addr H a s = Some (e, s') \<Longrightarrow> io (ihw s') = (outs s @ [a], ins s)"
  unfolding send_addr_def by (drule waits_io(4)) (simp add: put_DR_io)

lemma wait_txe_io:
  assumes "wait_txe H s = Some (e, s')"
  shows "io (ihw s') = io (ihw s)"
proof -
  obtain e1 s1 where w: "I2C_WaitOnTXEFlagUntilTimeout H s = Some (e1, s1)" using assms by (auto simp: wait_txe_def bind_eq_Some_conv)
  then show ?thesis using assms waits_io(2) [OF w] by (auto simp: wait_txe_def keep_io)
qed

lemma wait_btf_io:
  assumes "wait_btf H s = Some (e, s')"
  shows "io (ihw s') = io (ihw s)"
proof -
  obtain e1 s1 where w: "I2C_WaitOnBTFFlagUntilTimeout H s = Some (e1, s1)" using assms by (auto simp: wait_btf_def bind_eq_Some_conv)
  then show ?thesis using assms waits_io(3) [OF w] by (auto simp: wait_btf_def keep_io)
qed

lemma req_mem_write_io:
  assumes "I2C_RequestMemoryWrite H addr mem is16 s = Some (0, s')"
  shows "io (ihw s') = (outs s @ I2C_7BIT_ADD_WRITE addr # mem_addr mem is16, ins s)"
proof -
  obtain s1 s2 s3 where c: "gen_start H (-3) s = Some (0, s1)" "send_addr H (I2C_7BIT_ADD_WRITE addr) s1 = Some (0, s2)"
    "wait_txe H (CLEAR_ADDRFLAG H s2) = Some (0, s3)"
    using assms by (auto simp: I2C_RequestMemoryWrite_def bind_eq_Some_conv split: if_splits)
  have s3: "io (ihw s3) = (outs s @ [I2C_7BIT_ADD_WRITE addr], ins s)"
    using gen_start_io [OF c(1)] send_addr_io [OF c(2)] wait_txe_io [OF c(3)] by (simp add: keep_io)
  show ?thesis
  proof (cases is16)
    case True
    then obtain s4 where s4: "wait_txe H (put_DR H (I2C_MEM_ADD_MSB mem) s3) = Some (0, s4)" "s' = put_DR H (I2C_MEM_ADD_LSB mem) s4"
      using assms c by (auto simp: I2C_RequestMemoryWrite_def bind_eq_Some_conv split: if_splits)
    from wait_txe_io [OF s4(1)] True s3 show ?thesis by (simp add: s4(2) put_DR_io mem_addr_def)
  next
    case False
    then have "s' = put_DR H (I2C_MEM_ADD_LSB mem) s3" using assms c by (simp add: I2C_RequestMemoryWrite_def)
    then show ?thesis using s3 False by (simp add: put_DR_io mem_addr_def)
  qed
qed

lemma req_mem_read_io:
  assumes "I2C_RequestMemoryRead H addr mem is16 s = Some (0, s')"
  shows "io (ihw s') = (outs s @ I2C_7BIT_ADD_WRITE addr # mem_addr mem is16 @ [I2C_7BIT_ADD_READ addr], ins s)"
proof -
  obtain s1 s2 s3 where c: "I2C_RequestMemoryWrite H addr mem is16 (SET_BIT H I2C_CR1_ACK s) = Some (0, s1)"
    "wait_txe H s1 = Some (0, s2)" "gen_start H (-3) s2 = Some (0, s3)" "send_addr H (I2C_7BIT_ADD_READ addr) s3 = Some (0, s')"
    using assms by (auto simp: I2C_RequestMemoryRead_def bind_eq_Some_conv split: if_splits)
  show ?thesis
    using req_mem_write_io [OF c(1)] wait_txe_io [OF c(2)] gen_start_io [OF c(3)] send_addr_io [OF c(4)] by (simp add: keep_io)
qed

lemma req_write_io:
  assumes "I2C_MasterRequestWrite H addr s = Some (0, s')"
  shows "io (ihw s') = (outs s @ [I2C_7BIT_ADD_WRITE addr], ins s)"
proof -
  obtain s1 where c: "gen_start H (-2) s = Some (0, s1)" "send_addr H (I2C_7BIT_ADD_WRITE addr) s1 = Some (0, s')"
    using assms by (auto simp: I2C_MasterRequestWrite_def bind_eq_Some_conv split: if_splits)
  show ?thesis using gen_start_io [OF c(1)] send_addr_io [OF c(2)] by simp
qed

lemma req_read_io:
  assumes "I2C_MasterRequestRead H addr s = Some (0, s')"
  shows "io (ihw s') = (outs s @ [I2C_7BIT_ADD_READ addr], ins s)"
proof -
  obtain s1 where c: "gen_start H (-2) (SET_BIT H I2C_CR1_ACK s) = Some (0, s1)" "send_addr H (I2C_7BIT_ADD_READ addr) s1 = Some (0, s')"
    using assms by (auto simp: I2C_MasterRequestRead_def bind_eq_Some_conv split: if_splits)
  show ?thesis using gen_start_io [OF c(1)] send_addr_io [OF c(2)] by (simp add: keep_io)
qed

lemma put_one_or_two_io:
  "outs (snd (put_one_or_two H b bs s)) @ fst (put_one_or_two H b bs s) = outs s @ b # bs \<and> ins (snd (put_one_or_two H b bs s)) = ins s"
proof -
  obtain f s1 where f: "GET_FLAG H FLAG_BTF (put_DR H b s) = (f, s1)" by force
  have "io (ihw s1) = (outs s @ [b], ins s)" using flag_io [of FLAG_BTF "put_DR H b s"] f by (simp add: put_DR_io)
  then show ?thesis using f by (cases bs) (simp_all add: put_one_or_two_def put_DR_io)
qed

lemma mem_write_loop_io: "mem_write_loop H bs s = Some (0, s') \<Longrightarrow> io (ihw s') = (outs s @ bs, ins s)"
proof (induction "length bs" arbitrary: bs s rule: less_induct)
  case less
  show ?case
  proof (cases bs)
    case (Cons b bs')
    obtain s1 where c: "wait_txe H s = Some (0, s1)"
      "mem_write_loop H (fst (put_one_or_two H b bs' s1)) (snd (put_one_or_two H b bs' s1)) = Some (0, s')"
      using less.prems Cons by (auto simp: bind_eq_Some_conv split: if_splits)
    have "length (fst (put_one_or_two H b bs' s1)) < length bs" using put_one_or_two_shorter [of H b bs' s1] Cons by simp
    from less.hyps [OF this c(2)] show ?thesis
      using put_one_or_two_io [of b bs' s1] wait_txe_io [OF c(1)] Cons by simp
  qed (use less.prems in simp)
qed

lemma tx_loop_io: "tx_loop H bs s = Some (0, s') \<Longrightarrow> io (ihw s') = (outs s @ bs, ins s)"
proof (induction "length bs" arbitrary: bs s rule: less_induct)
  case less
  show ?case
  proof (cases bs)
    case (Cons b bs')
    obtain s1 s2 where c: "wait_txe H s = Some (0, s1)" "wait_btf H (snd (put_one_or_two H b bs' s1)) = Some (0, s2)"
      "tx_loop H (fst (put_one_or_two H b bs' s1)) s2 = Some (0, s')"
      using less.prems Cons by (auto simp: bind_eq_Some_conv split: if_splits)
    have "length (fst (put_one_or_two H b bs' s1)) < length bs" using put_one_or_two_shorter [of H b bs' s1] Cons by simp
    from less.hyps [OF this c(3)] show ?thesis
      using put_one_or_two_io [of b bs' s1] wait_txe_io [OF c(1)] wait_btf_io [OF c(2)] Cons by simp
  qed (use less.prems in simp)
qed

lemma rx_prepare_io: "io (ihw (rx_prepare H ack n s)) = io (ihw s)"
  by (simp add: rx_prepare_def keep_io)

lemma rx_loop_io:
  "rx_loop H n acc s = Some (0, acc', s') \<Longrightarrow> \<exists>r. acc' = acc @ r \<and> length r = n \<and> io (ihw s') = (outs s, ins s @ r)"
proof (induction n arbitrary: acc s rule: less_induct)
  case (less n)
  consider "n = 0" | "n = 1" | "n = 2" | "n = 3" | m where "n = Suc (Suc (Suc (Suc m)))"
    by (metis One_nat_def numeral_2_eq_2 numeral_3_eq_3 not0_implies_Suc)
  then show ?case
  proof cases
    case 1
    then show ?thesis using less.prems by simp
  next
    case 2
    then obtain s1 b where c: "I2C_WaitOnRXNEFlagUntilTimeout H s = Some (0, s1)" "get_DR H s1 = (b, s')" "acc' = acc @ [b]"
      using less.prems by (auto simp: bind_eq_Some_conv split: if_splits prod.splits)
    from waits_io(5) [OF c(1)] get_DR_io [OF c(2)] c(3) 2 show ?thesis by simp
  next
    case 3
    then obtain s1 b1 s2 b2 where c: "I2C_WaitOnFlagUntilTimeout H FLAG_BTF False s = Some (0, s1)"
      "get_DR H (SET_BIT H I2C_CR1_STOP s1) = (b1, s2)" "get_DR H s2 = (b2, s')" "acc' = acc @ [b1, b2]"
      using less.prems by (auto simp: numeral_2_eq_2 bind_eq_Some_conv split: if_splits prod.splits)
    from waits_io(1) [OF c(1)] get_DR_io [OF c(2)] get_DR_io [OF c(3)] c(4) 3 show ?thesis by (simp add: keep_io)
  next
    case 4
    then obtain s1 b1 s2 s3 b2 s4 b3 where c: "I2C_WaitOnFlagUntilTimeout H FLAG_BTF False s = Some (0, s1)"
      "get_DR H (CLEAR_BIT H I2C_CR1_ACK s1) = (b1, s2)" "I2C_WaitOnFlagUntilTimeout H FLAG_BTF False s2 = Some (0, s3)"
      "get_DR H (SET_BIT H I2C_CR1_STOP s3) = (b2, s4)" "get_DR H s4 = (b3, s')" "acc' = acc @ [b1, b2, b3]"
      using less.prems by (auto simp: numeral_3_eq_3 bind_eq_Some_conv split: if_splits prod.splits)
    from waits_io(1) [OF c(1)] get_DR_io [OF c(2)] waits_io(1) [OF c(3)] get_DR_io [OF c(4)] get_DR_io [OF c(5)] c(6) 4
    show ?thesis by (simp add: keep_io)
  next
    case (5 m)
    then obtain s1 b1 s2 btf s3 where c: "I2C_WaitOnRXNEFlagUntilTimeout H s = Some (0, s1)" "get_DR H s1 = (b1, s2)"
      "GET_FLAG H FLAG_BTF s2 = (btf, s3)"
      using less.prems by (auto simp: bind_eq_Some_conv split: if_splits prod.splits)
    have s3: "io (ihw s3) = (outs s, ins s @ [b1])"
      using waits_io(5) [OF c(1)] get_DR_io [OF c(2)] flag_io [of FLAG_BTF s2] c(3) by simp
    show ?thesis
    proof (cases btf)
      case True
      obtain b2 s4 where d: "get_DR H (if m = 0 then CLEAR_BIT H I2C_CR1_ACK s3 else s3) = (b2, s4)" by force
      have "rx_loop H (Suc (Suc m)) (acc @ [b1, b2]) s4 = Some (0, acc', s')" using less.prems 5 c True d by simp
      from less.IH [OF _ this] 5 obtain r where
        "acc' = acc @ [b1, b2] @ r" "length r = Suc (Suc m)" "io (ihw s') = (outs s4, ins s4 @ r)" by auto
      then show ?thesis using s3 get_DR_io [OF d] 5 by (intro exI [of _ "[b1, b2] @ r"]) (simp add: keep_io split: if_splits)
    next
      case False
      have "rx_loop H (Suc (Suc (Suc m))) (acc @ [b1]) s3 = Some (0, acc', s')" using less.prems 5 c False by simp
      from less.IH [OF _ this] 5 obtain r where
        "acc' = acc @ [b1] @ r" "length r = Suc (Suc (Suc m))" "io (ihw s') = (outs s3, ins s3 @ r)" by auto
      then show ?thesis using s3 5 by (intro exI [of _ "[b1] @ r"]) simp
    qed
  qed
qed

lemma stored_full: "length r = length buf \<Longrightarrow> stored r buf = r"
  by (simp add: stored_def)

lemma i2c_mem_write_io:
  assumes "i2c_mem_write H addr mem is16 bs s = Some (0, s')"
  shows "io (ihw s') = (outs s @ I2C_7BIT_ADD_WRITE addr # mem_addr mem is16 @ bs, ins s)"
proof -
  obtain s1 s2 s3 s4 where c: "check_busy H s = (0, s1)" "I2C_RequestMemoryWrite H addr mem is16 (xfer_start H s1) = Some (0, s2)"
    "mem_write_loop H bs s2 = Some (0, s3)" "wait_btf H s3 = Some (0, s4)" "s' = SET_BIT H I2C_CR1_STOP s4"
    using assms by (auto simp: i2c_mem_write_def bind_eq_Some_conv split: if_splits prod.splits)
  show ?thesis
    using check_busy_io [OF c(1)] req_mem_write_io [OF c(2)] mem_write_loop_io [OF c(3)] wait_btf_io [OF c(4)] by (simp add: c(5) keep_io)
qed

lemma i2c_tx_io:
  assumes "i2c_tx H addr bs s = Some (0, s')"
  shows "io (ihw s') = (outs s @ I2C_7BIT_ADD_WRITE addr # bs, ins s)"
proof -
  obtain s1 s2 s3 where c: "check_busy H s = (0, s1)" "I2C_MasterRequestWrite H addr (xfer_start H s1) = Some (0, s2)"
    "tx_loop H bs (CLEAR_ADDRFLAG H s2) = Some (0, s3)" "s' = SET_BIT H I2C_CR1_STOP s3"
    using assms by (auto simp: i2c_tx_def bind_eq_Some_conv split: if_splits prod.splits)
  show ?thesis
    using check_busy_io [OF c(1)] req_write_io [OF c(2)] tx_loop_io [OF c(3)] by (simp add: c(4) keep_io)
qed

lemma i2c_mem_read_io:
  assumes "i2c_mem_read H addr mem is16 buf s = Some (0, res, s')"
  shows "length res = length buf \<and> io (ihw s') = (outs s @ I2C_7BIT_ADD_WRITE addr # mem_addr mem is16 @ [I2C_7BIT_ADD_READ addr], ins s @ res)"
proof -
  obtain s1 s2 acc where c: "check_busy H s = (0, s1)" "I2C_RequestMemoryRead H addr mem is16 (xfer_start H s1) = Some (0, s2)"
    "rx_loop H (length buf) [] (rx_prepare H False (length buf) s2) = Some (0, acc, s')" "res = stored acc buf"
    using assms by (auto simp: i2c_mem_read_def bind_eq_Some_conv split: if_splits prod.splits)
  show ?thesis
    using check_busy_io [OF c(1)] req_mem_read_io [OF c(2)] rx_loop_io [OF c(3)] by (auto simp: c(4) keep_io rx_prepare_io stored_full)
qed

lemma i2c_rx_io:
  assumes "i2c_rx H addr buf s = Some (0, res, s')"
  shows "length res = length buf \<and> io (ihw s') = (outs s @ [I2C_7BIT_ADD_READ addr], ins s @ res)"
proof -
  obtain s1 s2 acc where c: "check_busy H s = (0, s1)" "I2C_MasterRequestRead H addr (xfer_start H s1) = Some (0, s2)"
    "rx_loop H (length buf) [] (rx_prepare H True (length buf) s2) = Some (0, acc, s')" "res = stored acc buf"
    using assms by (auto simp: i2c_rx_def bind_eq_Some_conv split: if_splits prod.splits)
  show ?thesis
    using check_busy_io [OF c(1)] req_read_io [OF c(2)] rx_loop_io [OF c(3)] by (auto simp: c(4) keep_io rx_prepare_io stored_full)
qed

lemma i2c_do_io:
  assumes "i2c_do H c s = Some (0, res, s')"
  shows "length res = bus_in c \<and> io (ihw s') = (outs s @ bus_out c, ins s @ res)"
  using assms i2c_mem_write_io i2c_mem_read_io i2c_tx_io i2c_rx_io
  by (cases c) (auto simp: i2c_do_def bus_in_def bus_out_def split: option.splits)

end

text \<open>Any peripheral with a record of its data register.\<close>

definition watch :: "'h i2c_hw \<Rightarrow> ('h \<times> bytes \<times> bytes) i2c_hw" where
  "watch H = \<lparr>rd = (\<lambda>r (h, o1, i1). case rd H r h of (v, h1) \<Rightarrow> (v, h1, o1, if r = DR then i1 @ [ucast v] else i1)),
     wr = (\<lambda>r v (h, o1, i1). (wr H r v h, if r = DR then o1 @ [ucast v] else o1, i1)),
     recover = (\<lambda>(h, io). (recover H h, io)), i2c_delay = (\<lambda>ms (h, io). (i2c_delay H ms h, io))\<rparr>"

interpretation wb: i2c_bus "watch H" snd for H :: "'h i2c_hw"
  by unfold_locales (auto simp: watch_def split: prod.splits)

text \<open>C21: Success means all of it: whatever the peripheral does, a transfer that returns zero has put exactly the
  address, the memory address and the bytes given on the bus, once and in order, and the buffer it fills
  holds exactly the bytes read from the data register, as many as asked for.
\<close>

lemma i2c_exact:
  assumes "i2c_do (watch H) c s = Some (0, res, s')"
  shows "length res = bus_in c
    \<and> snd (ihw s') = (fst (snd (ihw s)) @ bus_out c, snd (snd (ihw s)) @ res)"
  by (rule wb.i2c_do_io [OF assms])

section \<open>Every transfer returns\<close>

text \<open>
  The waits end when a flag of the first status register that was read as set is still set when it is read
  again at once, and a bus that was free is still free.
\<close>

definition i2c_steady :: "'h i2c_hw \<Rightarrow> bool" where
  "i2c_steady H \<longleftrightarrow>
    (\<forall>h. fst (rd H SR1 h) AND fst (rd H SR1 (snd (rd H SR1 h))) = fst (rd H SR1 h))
    \<and> (\<forall>h. fst (rd H SR2 h) AND 2 = 0 \<longrightarrow> fst (rd H SR2 (snd (rd H SR2 h))) AND 2 = 0)"

lemma wait_loop_returns:
  assumes st: "\<And>s. \<not> fst (pending s) \<Longrightarrow> \<not> fst (pending (snd (pending s)))"
    and tm: "\<And>s. i2c_time (snd (pending s)) = i2c_time s" "\<And>s. i2c_time (snd (failed s)) = i2c_time s"
  shows "i2c_time s \<noteq> 0 \<Longrightarrow> \<exists>r. wait_loop pending failed s = Some r"
proof (induction "unat (i2c_time s)" arbitrary: s rule: less_induct)
  case less
  obtain p s1 where p: "pending s = (p, s1)" by force
  obtain f s2 where f: "failed s1 = (f, s2)" by force
  define s3 where "s3 = s2\<lparr>i2c_time := i2c_time s2 - 1\<rparr>"
  obtain p' s4 where p': "pending s3 = (p', s4)" by force
  have t: "i2c_time s3 = i2c_time s - 1" using tm(1) [of s] tm(2) [of s1] p f by (simp add: s3_def)
  have u: "wait_loop pending failed s = (if \<not> p then Some (0, s1) else if f then Some (-1, s2)
      else if i2c_time s3 = 0 then (if p' then Some (-1, s4\<lparr>ErrorCode := ErrorCode s4 OR HAL_I2C_ERROR_TIMEOUT\<rparr>)
        else wait_loop pending failed s4) else wait_loop pending failed s3)"
    by (subst wait_loop.simps) (simp add: p f p' Let_def flip: s3_def)
  have "\<exists>r. wait_loop pending failed s4 = Some r" if "\<not> p'"
  proof -
    have "\<not> fst (pending s4)" using st [of s3] p' that by simp
    then show ?thesis by (subst wait_loop.simps) (simp add: case_prod_beta')
  qed
  moreover have "\<exists>r. wait_loop pending failed s3 = Some r" if "i2c_time s3 \<noteq> 0"
    using less.hyps [of s3] less.prems that t unat_minus_one [of "i2c_time s"] by (simp add: unat_gt_0)
  ultimately show ?case by (auto simp: u)
qed

lemma get_reg_time: "i2c_time (snd (get_reg H r s)) = i2c_time s"
  by (simp add: get_reg_def case_prod_beta')

lemma keep_time:
  "i2c_time (snd (GET_FLAG H f s)) = i2c_time s" "i2c_time (CLEAR_FLAG H f s) = i2c_time s" "i2c_time (SET_BIT H b s) = i2c_time s"
  by (simp_all add: GET_FLAG_def CLEAR_FLAG_def SET_BIT_def set_reg_def get_reg_time case_prod_beta')

lemma check_time:
  "i2c_time (snd (flag_is H f v s)) = i2c_time s" "i2c_time (snd (I2C_IsAcknowledgeFailed H s)) = i2c_time s"
  "i2c_time (snd (addr_failed H s)) = i2c_time s" "i2c_time (snd (stop_seen H s)) = i2c_time s"
  by (simp_all add: flag_is_def I2C_IsAcknowledgeFailed_def addr_failed_def stop_seen_def Let_def keep_time case_prod_beta')

lemma sr1_steady:
  assumes "i2c_steady H" "ucast (drop_bit 16 f) = (1 :: u8)" "\<not> fst (flag_is H f False s)"
  shows "\<not> fst (flag_is H f False (snd (flag_is H f False s)))"
proof -
  define v w m where d: "v = fst (rd H SR1 (ihw s))" "w = fst (rd H SR1 (snd (rd H SR1 (ihw s))))" "m = f AND 0xFFFF"
  have m: "v AND m = m" using assms(2,3) by (simp add: flag_is_def GET_FLAG_def get_reg_def case_prod_beta' d)
  have v: "v AND w = v" using assms(1) by (simp add: i2c_steady_def d)
  have "w AND m = w AND (v AND m)" by (simp only: m)
  also have "\<dots> = (v AND w) AND m" by (simp only: ac_simps)
  finally have "w AND m = m" by (simp only: v m)
  then show ?thesis using assms(2) by (simp add: flag_is_def GET_FLAG_def get_reg_def case_prod_beta' d)
qed

lemma busy_steady:
  assumes "i2c_steady H" "\<not> fst (flag_is H FLAG_BUSY True s)"
  shows "\<not> fst (flag_is H FLAG_BUSY True (snd (flag_is H FLAG_BUSY True s)))"
proof -
  have two: "w AND 2 = 2 \<longleftrightarrow> w AND 2 \<noteq> 0" for w :: u32
  proof (cases "bit w 1")
    case True
    then have "w AND 2 = 2" by (intro bit_word_eqI) (auto simp: bit_simps bit_2_iff)
    then show ?thesis by simp
  next
    case False
    then have "w AND 2 = 0" by (intro bit_word_eqI) (auto simp: bit_simps bit_2_iff)
    then show ?thesis by simp
  qed
  show ?thesis using assms by (simp add: flag_is_def GET_FLAG_def get_reg_def i2c_steady_def two case_prod_beta')
qed

lemma waits_return:
  assumes "i2c_steady H"
  shows "\<exists>r. I2C_WaitOnFlagUntilTimeout H FLAG_SB False s = Some r" "\<exists>r. I2C_WaitOnFlagUntilTimeout H FLAG_BTF False s = Some r"
    "\<exists>r. I2C_WaitOnFlagUntilTimeout H FLAG_BUSY True s = Some r"
    "\<exists>r. I2C_WaitOnTXEFlagUntilTimeout H s = Some r" "\<exists>r. I2C_WaitOnBTFFlagUntilTimeout H s = Some r"
    "\<exists>r. I2C_WaitOnMasterAddressFlagUntilTimeout H FLAG_ADDR s = Some r" "\<exists>r. I2C_WaitOnRXNEFlagUntilTimeout H s = Some r"
  unfolding I2C_WaitOnFlagUntilTimeout_def I2C_WaitOnTXEFlagUntilTimeout_def I2C_WaitOnBTFFlagUntilTimeout_def
    I2C_WaitOnMasterAddressFlagUntilTimeout_def I2C_WaitOnRXNEFlagUntilTimeout_def
  by (rule wait_loop_returns; simp add: check_time sr1_steady [OF assms] busy_steady [OF assms])+

definition ends :: "'a option \<Rightarrow> bool" where
  "ends m \<longleftrightarrow> (\<exists>r. m = Some r)"

lemma bind_ends: "ends m \<Longrightarrow> (\<And>a b. ends (f (a, b))) \<Longrightarrow> ends (Option.bind m f)"
  by (auto simp: ends_def)

lemma ends_simps [simp]: "ends (Some r)" "ends (map_option g m) = ends m"
  by (auto simp: ends_def)

lemma waits_ends:
  assumes "i2c_steady H"
  shows "ends (I2C_WaitOnFlagUntilTimeout H FLAG_SB False s)" "ends (I2C_WaitOnFlagUntilTimeout H FLAG_BTF False s)"
    "ends (I2C_WaitOnFlagUntilTimeout H FLAG_BUSY True s)" "ends (I2C_WaitOnTXEFlagUntilTimeout H s)"
    "ends (I2C_WaitOnBTFFlagUntilTimeout H s)" "ends (I2C_WaitOnMasterAddressFlagUntilTimeout H FLAG_ADDR s)"
    "ends (I2C_WaitOnRXNEFlagUntilTimeout H s)"
  unfolding ends_def by (fact waits_return [OF assms])+

lemma steps_ends:
  assumes "i2c_steady H"
  shows "ends (gen_start H err s)" "ends (send_addr H a s)" "ends (wait_txe H s)" "ends (wait_btf H s)"
  unfolding gen_start_def send_addr_def wait_txe_def wait_btf_def
  by (auto intro!: bind_ends waits_ends [OF assms] split: prod.splits)

lemma requests_ends:
  assumes "i2c_steady H"
  shows "ends (I2C_RequestMemoryWrite H addr mem is16 s)" "ends (I2C_RequestMemoryRead H addr mem is16 s)"
    "ends (I2C_MasterRequestWrite H addr s)" "ends (I2C_MasterRequestRead H addr s)"
proof -
  have w: "ends (I2C_RequestMemoryWrite H addr mem is16 s)" for s
    unfolding I2C_RequestMemoryWrite_def by (auto intro!: bind_ends steps_ends [OF assms])
  then show "ends (I2C_RequestMemoryWrite H addr mem is16 s)" .
  show "ends (I2C_RequestMemoryRead H addr mem is16 s)" "ends (I2C_MasterRequestWrite H addr s)" "ends (I2C_MasterRequestRead H addr s)"
    unfolding I2C_RequestMemoryRead_def I2C_MasterRequestWrite_def I2C_MasterRequestRead_def
    by (auto intro!: bind_ends steps_ends [OF assms] w)
qed

lemma write_loops_ends:
  assumes "i2c_steady H"
  shows "ends (mem_write_loop H bs s)" "ends (tx_loop H bs s)"
proof -
  have "ends (mem_write_loop H bs s) \<and> ends (tx_loop H bs s)"
  proof (induction "length bs" arbitrary: bs s rule: less_induct)
    case less
    then show ?case
      using put_one_or_two_shorter [of H]
      by (cases bs) (auto intro!: bind_ends steps_ends [OF assms] simp: less_Suc_eq_le)
  qed
  then show "ends (mem_write_loop H bs s)" "ends (tx_loop H bs s)" by simp_all
qed

lemma rx_loop_ends:
  assumes "i2c_steady H"
  shows "ends (rx_loop H n acc s)"
proof (induction n arbitrary: acc s rule: less_induct)
  case (less n)
  consider "n = 0" | "n = 1" | "n = 2" | "n = 3" | m where "n = Suc (Suc (Suc (Suc m)))"
    by (metis One_nat_def numeral_2_eq_2 numeral_3_eq_3 not0_implies_Suc)
  then show ?case
  proof cases
    case (5 m)
    then have "ends (rx_loop H (Suc (Suc m)) a t)" "ends (rx_loop H (Suc (Suc (Suc m))) a t)" for a t
      using less by simp_all
    with 5 show ?thesis by (auto intro!: bind_ends waits_ends [OF assms] split: prod.splits)
  qed (auto simp: numeral_2_eq_2 numeral_3_eq_3 intro!: bind_ends waits_ends [OF assms] split: prod.splits)
qed

lemma bind3_ends: "ends m \<Longrightarrow> (\<And>a b c. ends (f (a, b, c))) \<Longrightarrow> ends (Option.bind m f)"
  by (auto simp: ends_def)

lemma i2c_do_ends:
  assumes "i2c_steady H"
  shows "ends (i2c_do H c s)"
proof (cases c)
  case (Mem_write addr mem is16 bs)
  then show ?thesis
    by (auto simp: i2c_do_def i2c_mem_write_def intro!: bind_ends requests_ends [OF assms] write_loops_ends [OF assms] steps_ends [OF assms]
        split: prod.splits)
next
  case (Mem_read addr mem is16 buf)
  then show ?thesis
    by (auto simp: i2c_do_def i2c_mem_read_def intro!: bind_ends requests_ends [OF assms] rx_loop_ends [OF assms] split: prod.splits)
next
  case (Tx addr bs)
  then show ?thesis
    by (auto simp: i2c_do_def i2c_tx_def intro!: bind_ends requests_ends [OF assms] write_loops_ends [OF assms] split: prod.splits)
next
  case (Rx addr buf)
  then show ?thesis
    by (auto simp: i2c_do_def i2c_rx_def intro!: bind_ends requests_ends [OF assms] rx_loop_ends [OF assms] split: prod.splits)
qed

lemma ready_once_ends: "i2c_steady H \<Longrightarrow> ends (ready_once H addr s)"
  unfolding ready_once_def by (auto simp: Let_def intro!: bind_ends steps_ends waits_ends split: prod.splits)

lemma ready_loop_ends:
  assumes "i2c_steady H"
  shows "ends (ready_loop H addr n s)"
proof (induction n arbitrary: s)
  case 0
  show ?case by (subst ready_loop.simps) (auto intro!: bind_ends ready_once_ends [OF assms] split: option.splits)
next
  case (Suc n)
  then show ?case by (subst ready_loop.simps) (auto intro!: bind_ends ready_once_ends [OF assms] split: option.splits)
qed

lemma ready_ends: "i2c_steady H \<Longrightarrow> ends (i2c_is_device_ready H addr n s)"
  unfolding i2c_is_device_ready_def by (auto simp: ready_loop_ends split: prod.splits)

text \<open>C35: On a peripheral whose flags are steady every transfer and every poll for a device returns; the counter
  that runs below zero when a flag comes at the last moment does not keep it waiting.
\<close>

lemma i2c_returns:
  assumes "i2c_steady H"
  shows "(\<exists>r. i2c_do H c s = Some r) \<and> (\<exists>r. i2c_is_device_ready H addr n s = Some r)"
  using i2c_do_ends [OF assms] ready_ends [OF assms] by (simp add: ends_def)

section \<open>What the sensor reports\<close>

lemma push_or_nat: "(y :: nat) < 2 ^ n \<Longrightarrow> push_bit n x OR y = x * 2 ^ n + y"
proof -
  assume "y < 2 ^ n"
  then have "push_bit n x AND take_bit n y = 0" by (auto simp: bit_eq_iff bit_simps)
  then have "push_bit n x OR take_bit n y = push_bit n x + take_bit n y" by (simp add: disjunctive_add_eq_or)
  with \<open>y < 2 ^ n\<close> show ?thesis by (simp add: push_bit_eq_mult take_bit_nat_eq_self)
qed

lemma u8_less: "unat (b :: u8) < 256"
proof -
  have "unat b < 2 ^ LENGTH(8)" by (rule unsigned_less)
  then show ?thesis by simp
qed

lemma u8_u32_nat: "unat (ucast (b :: u8) :: u32) = unat b"
proof -
  have "take_bit 32 (unat b) = unat b" by (rule take_bit_nat_eq_self) (use u8_less [of b] in simp)
  then show ?thesis by (simp add: unsigned_ucast_eq unsigned_take_bit_eq)
qed

lemma push_u8_nat: "n \<le> 24 \<Longrightarrow> unat (push_bit n (ucast (b :: u8)) :: u32) = push_bit n (unat b)"
proof -
  assume n: "n \<le> 24"
  have "unat b * 2 ^ n < 256 * 2 ^ n" using u8_less [of b] by simp
  also have "(256 :: nat) * 2 ^ n \<le> 256 * 2 ^ 24" using n by (intro mult_le_mono power_increasing) simp_all
  finally have "push_bit n (unat b) < 2 ^ LENGTH(32)" by (simp add: push_bit_eq_mult)
  then have "take_bit LENGTH(32) (push_bit n (unat b)) = push_bit n (unat b)" by (rule take_bit_nat_eq_self)
  then show ?thesis by (simp only: unsigned_push_bit_eq u8_u32_nat)
qed

lemma bytes3_nat:
  "unat (push_bit 16 (ucast (a :: u8)) OR push_bit 8 (ucast (b :: u8)) OR ucast (c :: u8) :: u32) = unat a * 65536 + unat b * 256 + unat c"
proof -
  have l: "unat a < 256" "unat b < 256" "unat c < 256" by (rule u8_less)+
  have "unat (push_bit 16 (ucast a) OR push_bit 8 (ucast b) OR ucast c :: u32)
      = push_bit 16 (unat a) OR (push_bit 8 (unat b) OR unat c)"
    by (simp only: unsigned_or_eq push_u8_nat u8_u32_nat or.assoc)
  also have "\<dots> = push_bit 16 (unat a) OR (unat b * 256 + unat c)" using push_or_nat [of "unat c" 8 "unat b"] l by simp
  also have "\<dots> = unat a * 65536 + (unat b * 256 + unat c)" using push_or_nat [of "unat b * 256 + unat c" 16 "unat a"] l by simp
  finally show ?thesis by simp
qed

lemma aht_raw_hum_nat: "unat (aht_raw_hum d) = unat (d ! 1) * 4096 + unat (d ! 2) * 16 + unat (d ! 3) div 16"
proof -
  have "unat (drop_bit 4 w) = unat w div 16" for w :: u32
    using unat_drop_bit_eq [of 4 w] by (simp only: drop_bit_eq_div) simp
  then have "unat (aht_raw_hum d) = (unat (d ! 1) * 65536 + unat (d ! 2) * 256 + unat (d ! 3)) div 16"
    unfolding aht_raw_hum_def by (simp only: bytes3_nat)
  then show ?thesis by simp
qed

lemma aht_raw_temp_nat: "unat (aht_raw_temp d) = unat (d ! 3) mod 16 * 65536 + unat (d ! 4) * 256 + unat (d ! 5)"
proof -
  have "(ucast (d ! 3) AND 0x0F :: u32) = ucast (d ! 3 AND 0x0F)" by (simp add: unsigned_and_eq)
  moreover have "unat (d ! 3 AND 0x0F) = unat (d ! 3) mod 16"
  proof -
    have "d ! 3 AND 0x0F = take_bit 4 (d ! 3)" by (simp add: take_bit_eq_mask mask_eq_exp_minus_1)
    moreover have "unat (take_bit 4 (d ! 3)) = take_bit 4 (unat (d ! 3))" by (rule unsigned_take_bit_eq)
    moreover have "take_bit 4 (unat (d ! 3)) = unat (d ! 3) mod 2 ^ 4" by (rule take_bit_eq_mod)
    ultimately have "unat (d ! 3 AND 0x0F) = unat (d ! 3) mod 2 ^ 4" by (simp only:)
    then show ?thesis by (simp only: power_numeral Num.pow.simps Num.sqr.simps)
  qed
  ultimately show ?thesis unfolding aht_raw_temp_def using bytes3_nat [of "d ! 3 AND 0x0F" "d ! 4" "d ! 5"] by simp
qed

lemma raw20: "n < 1048576 \<Longrightarrow> k < 1048576 \<Longrightarrow> h = 100 * real n / 2 ^ 20 \<Longrightarrow> t = 200 * real k / 2 ^ 20 - 50
    \<Longrightarrow> 0 \<le> h \<and> h < 100 \<and> -50 \<le> t \<and> t < 150"
  using of_nat_less_iff [of n 1048576, where 'a = real] of_nat_less_iff [of k 1048576, where 'a = real] by simp

text \<open>Whatever a poll of the sensor returns, the temperature and the humidity either stay as they are or become
  those of one answer of the sensor: seven bytes, the last ones read from the bus, with the busy bit clear,
  the humidity as a share of 100 percent and the temperature from -50 to 150 degrees in steps of a
  \<open>2 ^ 20\<close>th.
\<close>

lemma aht21_measures:
  assumes "aht21_poll (watch H) data d a s = Some (e, a', s')" "length data = 7"
  shows "(aht_hum a' = aht_hum a \<and> aht_temp a' = aht_temp a)
    \<or> (\<exists>bs. length bs = 7 \<and> snd (snd (ihw s')) = snd (snd (ihw s)) @ bs \<and> e = 0 \<and> bs ! 0 AND 0x80 = 0
        \<and> aht_hum a' = 100 * real (unat (bs ! 1) * 4096 + unat (bs ! 2) * 16 + unat (bs ! 3) div 16) / 2 ^ 20
        \<and> aht_temp a' = 200 * real (unat (bs ! 3) mod 16 * 65536 + unat (bs ! 4) * 256 + unat (bs ! 5)) / 2 ^ 20 - 50
        \<and> 0 \<le> aht_hum a' \<and> aht_hum a' < 100 \<and> -50 \<le> aht_temp a' \<and> aht_temp a' < 150)"
proof (cases "tmr_poll a + d \<ge> POLL_HALF_INTERVAL \<and> is_wait_conv a")
  case False
  then show ?thesis using assms(1) by (auto simp: aht21_poll_def Let_def bind_eq_Some_conv split: if_splits)
next
  case True
  then obtain bs where rx: "i2c_rx (watch H) AHT21_ADDR data s = Some (e, bs, s')"
    and a': "a' = (if e = 0 \<and> bs ! 0 AND 0x80 = 0
      then a\<lparr>tmr_poll := 0, is_wait_conv := False, aht_hum := real (unat (aht_raw_hum bs)) * 100 / 1024 / 1024,
             aht_temp := real (unat (aht_raw_temp bs)) * 200 / 1024 / 1024 - 50\<rparr> else a\<lparr>tmr_poll := 0\<rparr>)"
    using assms(1) by (auto simp: aht21_poll_def Let_def bind_eq_Some_conv)
  show ?thesis
  proof (cases "e = 0 \<and> bs ! 0 AND 0x80 = 0")
    case m: True
    have io: "length bs = 7 \<and> snd (snd (ihw s')) = snd (snd (ihw s)) @ bs"
      using wb.i2c_rx_io [of H AHT21_ADDR data s bs s'] rx m assms(2) by simp
    have l: "unat (bs ! i) < 256" for i by (rule u8_less)
    have "unat (bs ! 1) * 4096 + unat (bs ! 2) * 16 + unat (bs ! 3) div 16 < 1048576"
      "unat (bs ! 3) mod 16 * 65536 + unat (bs ! 4) * 256 + unat (bs ! 5) < 1048576"
      using l [of 1] l [of 2] l [of 3] l [of 4] l [of 5] by linarith+
    moreover have v: "aht_hum a' = 100 * real (unat (bs ! 1) * 4096 + unat (bs ! 2) * 16 + unat (bs ! 3) div 16) / 2 ^ 20"
      "aht_temp a' = 200 * real (unat (bs ! 3) mod 16 * 65536 + unat (bs ! 4) * 256 + unat (bs ! 5)) / 2 ^ 20 - 50"
      using m by (simp_all only: a' aht_raw_hum_nat aht_raw_temp_nat) simp_all
    ultimately have "0 \<le> aht_hum a' \<and> aht_hum a' < 100 \<and> -50 \<le> aht_temp a' \<and> aht_temp a' < 150"
      by (rule raw20)
    then show ?thesis using io m v by blast
  next
    case False
    then have "a' = a\<lparr>tmr_poll := 0\<rparr>" by (simp only: a' if_False)
    then show ?thesis by simp
  qed
qed

section \<open>A peripheral that answers at once\<close>

record ideal =
  id_cr1 :: u32
  id_in :: bytes

definition ideal_bus :: "ideal i2c_hw" where
  "ideal_bus = \<lparr>rd = (\<lambda>r h. case r of CR1 \<Rightarrow> (id_cr1 h, h) | SR1 \<Rightarrow> (0xC7, h) | SR2 \<Rightarrow> (0, h)
       | DR \<Rightarrow> (case id_in h of [] \<Rightarrow> (0, h) | b # bs \<Rightarrow> (ucast b, h\<lparr>id_in := bs\<rparr>))),
     wr = (\<lambda>r v h. case r of CR1 \<Rightarrow> h\<lparr>id_cr1 := v\<rparr> | _ \<Rightarrow> h), recover = id, i2c_delay = (\<lambda>ms h. h)\<rparr>"

definition ideal_start :: "bytes \<Rightarrow> (ideal \<times> bytes \<times> bytes) i2c" where
  "ideal_start bs = \<lparr>ErrorCode = 0, i2c_time = 0, i2c_err_restarts = 0, ihw = (\<lparr>id_cr1 = 0, id_in = bs\<rparr>, [], [])\<rparr>"

lemma ideal_steady: "i2c_steady ideal_bus"
  by (simp add: i2c_steady_def ideal_bus_def)

lemma i2c_returns_witness:
  "(\<exists>r. i2c_do ideal_bus (Tx 0x70 [0xBA]) (\<lparr>ErrorCode = 0, i2c_time = 0, i2c_err_restarts = 0, ihw = \<lparr>id_cr1 = 0, id_in = []\<rparr>\<rparr>) = Some r)
    \<and> (\<exists>r. i2c_is_device_ready ideal_bus 0x70 3 \<lparr>ErrorCode = 0, i2c_time = 0, i2c_err_restarts = 0, ihw = \<lparr>id_cr1 = 0, id_in = []\<rparr>\<rparr> = Some r)"
  by (rule i2c_returns [OF ideal_steady])

lemma wait_ready: "pending s = (False, s1) \<Longrightarrow> wait_loop pending failed s = Some (0, s1)"
  by (subst wait_loop.simps) simp

lemma ideal_flag: "GET_FLAG (watch ideal_bus) f s =
    ((if (ucast (drop_bit 16 f) :: u8) = 1 then 0xC7 AND (f AND 0xFFFF) = f AND 0xFFFF else 0 AND (f AND 0xFFFF) = f AND 0xFFFF), s)"
  by (simp add: GET_FLAG_def get_reg_def watch_def ideal_bus_def split: prod.splits)

lemma ideal_waits:
  "I2C_WaitOnFlagUntilTimeout (watch ideal_bus) FLAG_SB False s = Some (0, s\<lparr>i2c_time := TIMEOUT\<rparr>)"
  "I2C_WaitOnFlagUntilTimeout (watch ideal_bus) FLAG_BTF False s = Some (0, s\<lparr>i2c_time := TIMEOUT\<rparr>)"
  "I2C_WaitOnTXEFlagUntilTimeout (watch ideal_bus) s = Some (0, s\<lparr>i2c_time := TIMEOUT\<rparr>)"
  "I2C_WaitOnBTFFlagUntilTimeout (watch ideal_bus) s = Some (0, s\<lparr>i2c_time := TIMEOUT\<rparr>)"
  "I2C_WaitOnMasterAddressFlagUntilTimeout (watch ideal_bus) FLAG_ADDR s = Some (0, s\<lparr>i2c_time := TIMEOUT\<rparr>)"
  "I2C_WaitOnRXNEFlagUntilTimeout (watch ideal_bus) s = Some (0, s\<lparr>i2c_time := TIMEOUT\<rparr>)"
  unfolding I2C_WaitOnFlagUntilTimeout_def I2C_WaitOnTXEFlagUntilTimeout_def I2C_WaitOnBTFFlagUntilTimeout_def
    I2C_WaitOnMasterAddressFlagUntilTimeout_def I2C_WaitOnRXNEFlagUntilTimeout_def
  by (rule wait_ready; simp add: flag_is_def ideal_flag)+

lemma ideal_check: "check_busy (watch ideal_bus) s = (0, s\<lparr>i2c_time := TIMEOUT\<rparr>)"
proof -
  have "check_busy_loop (watch ideal_bus) (Suc n) s = (0, s)" for n s by (simp add: check_busy_once_def ideal_flag)
  from this [of "4094"] show ?thesis by (simp add: check_busy_def del: check_busy_loop.simps)
qed

lemma ideal_regs:
  "get_reg (watch ideal_bus) CR1 s = (id_cr1 (fst (ihw s)), s)" "get_reg (watch ideal_bus) SR1 s = (0xC7, s)"
  "get_reg (watch ideal_bus) SR2 s = (0, s)"
  "get_reg (watch ideal_bus) DR s = (case id_in (fst (ihw s)) of
      [] \<Rightarrow> (0, s\<lparr>ihw := (fst (ihw s), fst (snd (ihw s)), snd (snd (ihw s)) @ [0])\<rparr>)
    | b # bs \<Rightarrow> (ucast b, s\<lparr>ihw := ((fst (ihw s))\<lparr>id_in := bs\<rparr>, fst (snd (ihw s)), snd (snd (ihw s)) @ [b])\<rparr>))"
  "set_reg (watch ideal_bus) CR1 v s = s\<lparr>ihw := ((fst (ihw s))\<lparr>id_cr1 := v\<rparr>, snd (ihw s))\<rparr>"
  "set_reg (watch ideal_bus) DR v s = s\<lparr>ihw := (fst (ihw s), fst (snd (ihw s)) @ [ucast v], snd (snd (ihw s)))\<rparr>"
  by (cases "ihw s"; simp add: get_reg_def set_reg_def watch_def ideal_bus_def u8_u32_u8 split: list.splits)+

lemmas ideal_eval = ideal_waits ideal_check ideal_flag gen_start_def send_addr_def wait_txe_def wait_btf_def
  I2C_RequestMemoryWrite_def I2C_RequestMemoryRead_def I2C_MasterRequestWrite_def I2C_MasterRequestRead_def
  xfer_start_def put_one_or_two_def rx_prepare_def stored_def put_DR_def get_DR_def SET_BIT_def CLEAR_BIT_def CLEAR_ADDRFLAG_def
  ideal_regs ideal_start_def
  I2C_7BIT_ADD_WRITE_def I2C_7BIT_ADD_READ_def I2C_MEM_ADD_MSB_def I2C_MEM_ADD_LSB_def

lemma ideal_read: "\<exists>s'. i2c_do (watch ideal_bus) (Mem_read 0x50 0x1234 True [0, 0, 0]) (ideal_start [7, 8, 9]) = Some (0, [7, 8, 9], s')"
  by (simp add: i2c_do_def i2c_mem_read_def ideal_eval u8_u32_u8)

lemma i2c_exact_witness:
  "\<exists>s'. i2c_do (watch ideal_bus) (Mem_read 0x50 0x1234 True [0, 0, 0]) (ideal_start [7, 8, 9]) = Some (0, [7, 8, 9], s')
    \<and> snd (ihw s') = ([0x50, 0x12, 0x34, 0x51], [7, 8, 9])"
proof -
  obtain s' where r: "i2c_do (watch ideal_bus) (Mem_read 0x50 0x1234 True [0, 0, 0]) (ideal_start [7, 8, 9]) = Some (0, [7, 8, 9], s')"
    using ideal_read by blast
  from i2c_exact [OF r] have "snd (ihw s') = ([0x50, 0x12, 0x34, 0x51], [7, 8, 9])"
    by (simp add: bus_out_def mem_addr_def ideal_start_def I2C_7BIT_ADD_WRITE_def I2C_7BIT_ADD_READ_def I2C_MEM_ADD_MSB_def I2C_MEM_ADD_LSB_def)
  with r show ?thesis by blast
qed

definition ex_aht :: aht21_t where
  "ex_aht = aht21_zero\<lparr>is_wait_conv := True\<rparr>"

lemma ideal_rx: "\<exists>s'. i2c_rx (watch ideal_bus) AHT21_ADDR [0, 0, 0, 0, 0, 0, 0] (ideal_start [0x1C, 0x80, 0, 0x06, 0, 0, 0x55])
    = Some (0, [0x1C, 0x80, 0, 0x06, 0, 0, 0x55], s')"
  by (simp add: i2c_rx_def ideal_eval u8_u32_u8)

lemma ideal_poll:
  "\<exists>a' s'. aht21_poll (watch ideal_bus) [0, 0, 0, 0, 0, 0, 0] 100 ex_aht (ideal_start [0x1C, 0x80, 0, 0x06, 0, 0, 0x55]) = Some (0, a', s')
    \<and> aht_hum a' = 50"
proof -
  obtain s' where r: "i2c_rx (watch ideal_bus) AHT21_ADDR [0, 0, 0, 0, 0, 0, 0] (ideal_start [0x1C, 0x80, 0, 0x06, 0, 0, 0x55])
    = Some (0, [0x1C, 0x80, 0, 0x06, 0, 0, 0x55], s')" using ideal_rx by blast
  have "unat (aht_raw_hum [0x1C, 0x80, 0, 0x06, 0, 0, 0x55]) = 524288" by (simp add: aht_raw_hum_nat)
  then show ?thesis by (simp add: aht21_poll_def ex_aht_def aht21_zero_def r)
qed

lemma aht21_measures_witness:
  "\<exists>a' s'. aht21_poll (watch ideal_bus) [0, 0, 0, 0, 0, 0, 0] 100 ex_aht (ideal_start [0x1C, 0x80, 0, 0x06, 0, 0, 0x55]) = Some (0, a', s')
    \<and> aht_hum a' = 50 \<and> aht_temp a' < 150"
proof -
  obtain a' s' where r: "aht21_poll (watch ideal_bus) [0, 0, 0, 0, 0, 0, 0] 100 ex_aht (ideal_start [0x1C, 0x80, 0, 0x06, 0, 0, 0x55]) = Some (0, a', s')"
    "aht_hum a' = 50" using ideal_poll by blast
  from aht21_measures [OF r(1)] r(2) have "aht_temp a' < 150" by (auto simp: ex_aht_def aht21_zero_def)
  with r show ?thesis by blast
qed

end
