(* ===== verification/Settings.thy ===== *)
theory Settings
  imports Config_System
begin

text \<open>
  The settings of the gateway and the table through which the configuration store reads and writes them
  (app/app.c, \<open>g_device_config\<close>).  A variable in the table is its bytes in memory.
\<close>

abbreviation GW_COUNT :: nat where "GW_COUNT \<equiv> 5"

record settings =
  pending_can_node_id :: u8
  pending_can_baud :: u16
  producerHeartbeatTime :: u16
  cfg_ip_address :: bytes
  cfg_ip_addr_master :: bytes
  cfg_ip_addr_gw :: bytes
  mains_sns_chnl_bits :: u32
  poe_sw_chnl_bits :: u32
  cfg_i2c_remap :: bool

definition settings_default :: "u16 \<Rightarrow> settings" where
  "settings_default hb = \<lparr>pending_can_node_id = 1, pending_can_baud = 500, producerHeartbeatTime = hb,
     cfg_ip_address = [192, 168, 0, 200], cfg_ip_addr_master = replicate 4 0, cfg_ip_addr_gw = replicate (4 * GW_COUNT) 0,
     mains_sns_chnl_bits = 0, poe_sw_chnl_bits = 0, cfg_i2c_remap = False\<rparr>"

definition cfg_row :: "string \<Rightarrow> bytes \<Rightarrow> config_entry" where
  "cfg_row k d = \<lparr>ce_key = ascii k, ce_size = of_nat (length d), data_abs_address = 0, ce_data = Some d\<rparr>"

definition device_config :: "settings \<Rightarrow> config_entry list" where
  "device_config g =
    [cfg_row ''can_id'' [pending_can_node_id g],
     cfg_row ''can_baud'' (le16 (pending_can_baud g)),
     cfg_row ''hb_prod_ms'' (le16 (producerHeartbeatTime g)),
     cfg_row ''ip'' (cfg_ip_address g),
     cfg_row ''ip_mst'' (cfg_ip_addr_master g),
     cfg_row ''ip_gw'' (cfg_ip_addr_gw g),
     cfg_row ''mains_chnls'' (le32 (mains_sns_chnl_bits g)),
     cfg_row ''poe_sw'' (le32 (poe_sw_chnl_bits g)),
     cfg_row ''i2c_remap'' [if cfg_i2c_remap g then 1 else 0]]"

text \<open>The variables as the program reads them, from the data of the table.\<close>

definition settings_of :: "config_entry list \<Rightarrow> settings" where
  "settings_of es = (let d = (\<lambda>i. the (ce_data (es ! i))) in
     \<lparr>pending_can_node_id = d 0 ! 0, pending_can_baud = rd16 (d 1), producerHeartbeatTime = rd16 (d 2),
      cfg_ip_address = d 3, cfg_ip_addr_master = d 4, cfg_ip_addr_gw = d 5,
      mains_sns_chnl_bits = rd32 (d 6), poe_sw_chnl_bits = rd32 (d 7), cfg_i2c_remap = (d 8 ! 0 \<noteq> 0)\<rparr>)"

definition settings_ok :: "settings \<Rightarrow> bool" where
  "settings_ok g \<longleftrightarrow> length (cfg_ip_address g) = 4 \<and> length (cfg_ip_addr_master g) = 4 \<and> length (cfg_ip_addr_gw g) = 4 * GW_COUNT"

text \<open>What \<open>main\<close> does with the store at the start.\<close>

definition load_settings :: "(u32 \<Rightarrow> u32 \<Rightarrow> u32) \<Rightarrow> cfg_st \<Rightarrow> config_sts \<times> cfg_st" where
  "load_settings dr c = (case config_validate dr c of (sts, c1) \<Rightarrow> (sts, if sts = CONFIG_STS_OK then config_read_storage c1 else c1))"

lemma row_fields [simp]: "ce_key (cfg_row k d) = ascii k" "ce_data (cfg_row k d) = Some d" "ce_size (cfg_row k d) = of_nat (length d)"
  "data_abs_address (cfg_row k d) = 0"
  by (simp_all add: cfg_row_def)

lemma rd_le: "rd16 (le16 w) = w" "rd32 (le32 v) = v" "length (le16 w) = 2" "length (le32 v) = 4"
  using word16_of_le16 [of w] word32_of_le32 [of v] by (simp_all add: le16_def le32_def)

lemma settings_decode: "settings_of (device_config g) = g"
  by (cases g) (simp add: settings_of_def device_config_def Let_def rd_le)

lemma device_config_keys: "map ce_key (device_config g) = map ce_key (device_config h)"
  by (simp add: device_config_def)

lemma device_config_sizes: "settings_ok g \<Longrightarrow> settings_ok h \<Longrightarrow> map ce_size (device_config g) = map ce_size (device_config h)"
  by (simp add: device_config_def settings_ok_def rd_le)

lemma device_config_table:
  assumes "settings_ok g"
  shows "table_ok (device_config g)" "check_entries (device_config g) = CONFIG_STS_OK" "device_config g \<noteq> []"
    "distinct (map ce_key (device_config g))" "map (Some \<circ> snd \<circ> kv_of) (device_config g) = map ce_data (device_config g)"
  using assms
  by (simp_all add: settings_ok_def device_config_def table_ok_def entry_ok_def check_entry_def kv_of_def ptr_bytes_def ascii_def rd_le)

lemma settings_of_data: "length es = length (device_config g) \<Longrightarrow> map ce_data es = map ce_data (device_config g) \<Longrightarrow> settings_of es = g"
proof -
  assume l: "length es = length (device_config g)" and d: "map ce_data es = map ce_data (device_config g)"
  have n: "length (device_config g) = 9" by (simp add: device_config_def)
  have "ce_data (es ! i) = ce_data (device_config g ! i)" if "i < 9" for i using d l n that by (metis nth_map)
  then have "settings_of es = settings_of (device_config g)" by (simp add: settings_of_def)
  then show ?thesis by (simp add: settings_decode)
qed

text \<open>C19: The settings survive a restart: on a flash that works, saving reports success whatever the store held,
  provided what is kept of it fits, and the gateway that starts with any other settings in memory on that
  flash has the saved ones after loading.
\<close>

lemma gateway_settings_survive:
  assumes "reliable_flash dev" "desc_ok (cfg_flash st)" "g_device_config st = device_config g" "settings_ok g"
    and "config_valid st \<Longrightarrow> cfg_stored dr old (cfg_flash st) \<and> distinct (map fst old)"
    and "length (cfg_image dr (kept_kvs old st @ map kv_of (device_config g))) \<le> CFG_SIZE"
    and "settings_ok h"
  shows "\<exists>st'. config_write_storage dr dev st = Some (CONFIG_STS_OK, st')
    \<and> (\<forall>rb. cfg_flash rb = cfg_flash st' \<and> g_device_config rb = device_config h \<longrightarrow>
        fst (load_settings dr rb) = CONFIG_STS_OK \<and> settings_of (g_device_config (snd (load_settings dr rb))) = g)"
proof -
  note t = device_config_table [OF assms(4), folded assms(3)]
  have nf: "nor_flash dev" using assms(1) by (rule reliable_flash.axioms)
  have v: "config_valid st \<Longrightarrow> cfg_stored dr old (cfg_flash st)" using assms(5) by blast
  have "length (kvs_enc (kept_kvs old st)) \<le> CFG_SIZE" using kept_kvs_ok [OF v] by blast
  from reliable_flash.write_kvs_done [OF assms(1,2) t(1) this t(2), of dr] write_storage_kvs [OF t(1) v t(3), of dev] assms(3,6)
  obtain st' where st': "config_write_storage dr dev st = Some (CONFIG_STS_OK, st')"
    by (cases "write_kvs dr dev (kept_kvs old st) st") auto
  have "fst (load_settings dr rb) = CONFIG_STS_OK \<and> settings_of (g_device_config (snd (load_settings dr rb))) = g"
    if rb: "cfg_flash rb = cfg_flash st'" "g_device_config rb = device_config h" for rb
  proof -
    have "\<forall>e \<in> set (g_device_config rb). ce_data e \<noteq> None" by (simp add: rb device_config_def)
    from config_save_load [OF nf assms(2) t(1) assms(5) t(4) st' rb(1) _ _ this]
    have "fst (config_validate dr rb) = CONFIG_STS_OK"
      and d: "map ce_data (g_device_config (config_read_storage (snd (config_validate dr rb)))) = map ce_data (device_config g)"
      using device_config_keys device_config_sizes [OF assms(7,4)] t(5) by (simp_all add: rb assms(3))
    then have l: "load_settings dr rb = (CONFIG_STS_OK, config_read_storage (snd (config_validate dr rb)))"
      by (cases "config_validate dr rb") (simp add: load_settings_def)
    have "length (g_device_config (config_read_storage (snd (config_validate dr rb)))) = length (device_config g)"
      using d by (metis length_map)
    from settings_of_data [OF this d] l show ?thesis by simp
  qed
  with st' show ?thesis by blast
qed

definition ex_gateway :: settings where
  "ex_gateway = (settings_default 1000)\<lparr>pending_can_node_id := 7, cfg_i2c_remap := True\<rparr>"

definition ex_store_st :: cfg_st where
  "ex_store_st = ex_cfg\<lparr>g_device_config := device_config ex_gateway\<rparr>"

lemma ex_gateway_ok: "settings_ok ex_gateway" "settings_ok (settings_default 500)"
  by (simp_all add: settings_ok_def ex_gateway_def settings_default_def)

lemma ex_gateway_fits: "length (cfg_image dr (kept_kvs [] ex_store_st @ map kv_of (device_config ex_gateway))) \<le> CFG_SIZE"
  by (simp add: kept_kvs_def ex_store_st_def ex_cfg_def length_cfg_image cfg_body_def kvs_enc_def length_kv_enc)
    (simp add: device_config_def ex_gateway_def settings_default_def kv_of_def ptr_bytes_def pad_len_def length_kv_enc rd_le ascii_def)

lemma gateway_settings_survive_witness:
  "\<exists>st'. config_write_storage sw_crc32_word nor_dev ex_store_st = Some (CONFIG_STS_OK, st')
    \<and> (\<forall>rb. cfg_flash rb = cfg_flash st' \<and> g_device_config rb = device_config (settings_default 500) \<longrightarrow>
        fst (load_settings sw_crc32_word rb) = CONFIG_STS_OK
        \<and> settings_of (g_device_config (snd (load_settings sw_crc32_word rb))) = ex_gateway)"
proof -
  have "desc_ok (cfg_flash ex_store_st)" "g_device_config ex_store_st = device_config ex_gateway" "\<not> config_valid ex_store_st"
    using ex_cfg_facts(1,4) by (simp_all add: ex_store_st_def)
  with gateway_settings_survive [OF nor.reliable_flash_axioms this(1,2) ex_gateway_ok(1) _ ex_gateway_fits [of sw_crc32_word] ex_gateway_ok(2)]
  show ?thesis by blast
qed

end
