(* ===== verification/App.thy ===== *)
theory App
  imports Co_App Router Switching Sensing Sock_Cli Adc Fram I2c Settings
begin

text \<open>
  The program of the gateway (app/app.c): how one turn of the main loop composes the components, and the
  loops around it.  CANopenNode and lwIP are parameters that may do anything to the gateway's state when
  they are called; the static variables of \<open>main\<close> are apart, nothing else can reach them.
\<close>

section \<open>State\<close>

record sock_cli_t =
  sc_inst :: "nat option"
  sc_timeout :: u32
  sc_ip :: bytes
  sc_port :: int

record od_ram =
  od_energy :: real
  od_power :: real
  od_cnt :: u32
  od_temp_cpu :: real
  od_temp_aht :: real
  od_hum_aht :: real
  od_u_in :: real
  od_u_out :: real
  od_i_load :: real
  od_ir :: real

record ('q, 'h, 'i, 't) gateway =
  gw_can :: co_can
  gw_lss :: lss_cb_obj
  gw_adc :: adc_st
  gw_adc_val :: adc_val
  gw_pc :: pc_sw
  gw_meter :: emeter
  gw_fram :: 'h
  gw_mains :: "mains_ch list"
  gw_routes :: router_t
  gw_mqtt :: 'q
  gw_net :: "'t cli"
  gw_load :: load_sw
  gw_pdo :: pdo_sw
  gw_poe :: poe_sw
  gw_aht :: aht21_t
  gw_i2c :: "'i i2c"
  gw_od :: od_ram
  gw_set :: settings
  gw_ir_min :: u32
  gw_ir_max :: u32
  gw_led :: bool

text \<open>The static variables of \<open>main\<close> and of the file; the clients are the master's and the other gateways'.\<close>

record main_loc =
  ml_time :: timebase
  fq_tick :: u32
  fq_td_us :: u32
  sys_freq_1s :: real
  difff :: u32
  prev_mains_sw_0 :: bool
  prev_poe_sw_0 :: bool
  ml_ct :: u32
  test_v :: u32
  ml_cli :: "(bool \<times> sock_cli_t) list"

record ('q, 'h, 'i, 't) board =
  bd_can :: "can_dev \<Rightarrow> can_dev"
  bd_cal :: adc_cal
  bd_publish :: "'q publisher"
  bd_spi :: "'h spi"
  bd_i2c :: "'i i2c_hw"
  bd_tcp :: "'t tcp"

text \<open>What the world does during one turn.\<close>

record ('q, 'h, 'i, 't) turn_in =
  ti_systick :: u32
  ti_callback :: "nat \<Rightarrow> nat \<Rightarrow> u32 \<Rightarrow> u8 \<Rightarrow> bytes \<Rightarrow> ('q, 'h, 'i, 't) gateway \<Rightarrow> ('q, 'h, 'i, 't) gateway"
  ti_co :: "u32 \<Rightarrow> ('q, 'h, 'i, 't) gateway \<Rightarrow> nat \<times> ('q, 'h, 'i, 't) gateway"
  ti_lwip :: "u32 \<Rightarrow> ('q, 'h, 'i, 't) gateway \<Rightarrow> ('q, 'h, 'i, 't) gateway"
  ti_link :: bool
  ti_adc_buf :: "u16 list"
  ti_low :: "nat \<Rightarrow> bool"
  ti_new :: "nat \<Rightarrow> nat option"
  ti_fault_n :: bool
  ti_stack :: bytes

section \<open>The parts of a turn\<close>

text \<open>
  \<open>time_turn\<close> with the clock, which is advanced after CANopenNode has run.
\<close>

definition turn_time :: "u32 \<Rightarrow> main_loc \<Rightarrow> u32 \<times> u32 \<times> main_loc" where
  "turn_time c l =
    (case time_turn c (ml_time l) of (us, ms, t) \<Rightarrow>
      (us, ms, l\<lparr>ml_time := t\<lparr>system_time := system_time (ml_time l), sys_time_u32 := sys_time_u32 (ml_time l)\<rparr>\<rparr>))"

definition turn_clock :: "u32 \<Rightarrow> main_loc \<Rightarrow> main_loc" where
  "turn_clock ms l = l\<lparr>ml_time := (ml_time l)\<lparr>system_time := system_time (ml_time l) + ucast ms, sys_time_u32 := sys_time_u32 (ml_time l) + ms\<rparr>\<rparr>"

definition on_event :: "('q, 'h, 'i, 't) board \<Rightarrow> ('q, 'h, 'i, 't) turn_in \<Rightarrow> can_event \<Rightarrow> ('q, 'h, 'i, 't) gateway \<Rightarrow> ('q, 'h, 'i, 't) gateway" where
  "on_event B x e g = (case e of
     Rxed msg \<Rightarrow> (case can_drv_rxed (bd_publish B) msg (gw_routes g, gw_mqtt g) of (r, q) \<Rightarrow> g\<lparr>gw_routes := r, gw_mqtt := q\<rparr>)
   | Callback cb ob ident dlc data \<Rightarrow> ti_callback x cb ob ident dlc data g)"

definition turn_can :: "('q, 'h, 'i, 't) board \<Rightarrow> ('q, 'h, 'i, 't) turn_in \<Rightarrow> ('q, 'h, 'i, 't) gateway \<Rightarrow> ('q, 'h, 'i, 't) gateway" where
  "turn_can B x g = (case CO_CANinterrupt (bd_can B) (gw_can g) of (m, es) \<Rightarrow> fold (on_event B x) es (g\<lparr>gw_can := m\<rparr>))"

definition turn_lss :: "('q, 'h, 'i, 't) board \<Rightarrow> u32 \<Rightarrow> ('q, 'h, 'i, 't) gateway \<Rightarrow> ('q, 'h, 'i, 't) gateway option" where
  "turn_lss B us g =
    map_option (\<lambda>ob. g\<lparr>gw_lss := ob, gw_can := (gw_can g)\<lparr>CANptr := lss_can ob\<rparr>\<rparr>)
      (lss_cb_poll (bd_can B) us ((gw_lss g)\<lparr>lss_can := CANptr (gw_can g)\<rparr>))"

definition turn_freq :: "u32 \<Rightarrow> main_loc \<Rightarrow> main_loc" where
  "turn_freq us l0 =
    (let l = l0\<lparr>fq_tick := fq_tick l0 + 1, fq_td_us := fq_td_us l0 + us\<rparr>
     in if fq_td_us l > 1000000
        then l\<lparr>sys_freq_1s := real (unat (fq_tick l)) * 1000000 / real (unat (fq_td_us l)), fq_tick := 0, fq_td_us := 0\<rparr>
        else l)"

definition turn_led :: "bool \<Rightarrow> u32 \<Rightarrow> main_loc \<Rightarrow> main_loc \<times> bool" where
  "turn_led link ms l =
    (let d = difff l + ms; d' = (if d > 1500 then 0 else d)
     in (l\<lparr>difff := d'\<rparr>, d' < (if link then 150 else 7)))"

definition turn_sense :: "('q, 'h, 'i, 't) board \<Rightarrow> ('q, 'h, 'i, 't) turn_in \<Rightarrow> u32 \<Rightarrow> ('q, 'h, 'i, 't) gateway \<Rightarrow> ('q, 'h, 'i, 't) gateway" where
  "turn_sense B x ms g =
    (let ir = adc_ir (gw_adc_val g);
         g1 = (if real (unat (gw_ir_min g)) > ir then g\<lparr>gw_ir_min := of_int \<lfloor>ir\<rfloor>\<rparr> else g);
         g2 = (if real (unat (gw_ir_max g1)) < ir then g1\<lparr>gw_ir_max := of_int \<lfloor>ir\<rfloor>\<rparr> else g1)
     in case adc_track (bd_cal B) (ti_adc_buf x) (gw_adc g2) of (v, a) \<Rightarrow>
        case emeter_poll_fram (bd_spi B) (adc_ir v) ms (gw_meter g2, gw_fram g2) of (m, h) \<Rightarrow>
        case router_poll (bd_publish B) ms (gw_routes g2, gw_mqtt g2) of (r, q) \<Rightarrow>
          g2\<lparr>gw_adc := a, gw_adc_val := v, gw_pc := pc_poll ms (gw_pc g2), gw_meter := m, gw_fram := h,
             gw_mains := mains_sense_poll (mains_sns_chnl_bits (gw_set g2)) (ti_low x) ms (gw_mains g2),
             gw_routes := r, gw_mqtt := q\<rparr>)"

definition turn_poe_edge :: "main_loc \<Rightarrow> ('q, 'h, 'i, 't) gateway \<Rightarrow> main_loc \<times> ('q, 'h, 'i, 't) gateway" where
  "turn_poe_edge l g =
    (let on = mains_sense_is_on 0 (gw_mains g)
     in (l\<lparr>prev_mains_sw_0 := on\<rparr>,
         if prev_mains_sw_0 l \<noteq> on
         then g\<lparr>gw_poe := (if on then poe_switcher_on 0 (gw_poe g) else poe_switcher_off 0 (gw_poe g))\<rparr>
         else g))"

text \<open>A call of the client's functions on one of the clients.\<close>

definition on_cli :: "('t cli \<Rightarrow> 't cli option) \<Rightarrow> sock_cli_t \<times> 't cli \<Rightarrow> (sock_cli_t \<times> 't cli) option" where
  "on_cli f s = (case s of (c, n) \<Rightarrow>
     map_option (\<lambda>n1. (\<lparr>sc_inst = cl_inst n1, sc_timeout = timeout_cnt n1, sc_ip = DestIPaddr n1, sc_port = cl_port n1\<rparr>, n1))
       (f (n\<lparr>cl_inst := sc_inst c, timeout_cnt := sc_timeout c, DestIPaddr := sc_ip c, cl_port := sc_port c\<rparr>)))"

fun poll_clients :: "'t tcp \<Rightarrow> (nat \<Rightarrow> nat option) \<Rightarrow> u32 \<Rightarrow> nat \<Rightarrow> (bool \<times> sock_cli_t) list \<Rightarrow> 't cli
    \<Rightarrow> ((bool \<times> sock_cli_t) list \<times> 't cli) option" where
  "poll_clients T new ms i [] n = Some ([], n)"
| "poll_clients T new ms i ((ready, c) # cs) n =
    Option.bind (if ready then on_cli (sock_cli_poll T (new i) ms) (c, n) else Some (c, n)) (\<lambda>(c1, n1).
    map_option (\<lambda>(cs1, n2). ((ready, c1) # cs1, n2)) (poll_clients T new ms (i + 1) cs n1))"

definition turn_switch :: "('q, 'h, 'i, 't) turn_in \<Rightarrow> u32 \<Rightarrow> main_loc \<Rightarrow> ('q, 'h, 'i, 't) gateway \<Rightarrow> main_loc \<times> ('q, 'h, 'i, 't) gateway" where
  "turn_switch x ms l g =
    (let ld = snd (load_switcher_poll (ti_fault_n x) (adc_i_sns (gw_adc_val g)) ms (gw_load g));
         p = poe_switcher_poll (poe_sw_chnl_bits (gw_set g)) (\<lambda>k. adc_poe_sns (gw_adc_val g) ! k) (gw_poe g)
     in (l\<lparr>prev_poe_sw_0 := poe_switcher_is_on 0 p\<rparr>,
         g\<lparr>gw_load := ld, gw_pdo := pdo_switch_poll ld (gw_pdo g), gw_poe := p\<rparr>))"

definition turn_aht :: "('q, 'h, 'i, 't) board \<Rightarrow> ('q, 'h, 'i, 't) turn_in \<Rightarrow> u32 \<Rightarrow> ('q, 'h, 'i, 't) gateway \<Rightarrow> ('q, 'h, 'i, 't) gateway option" where
  "turn_aht B x ms g =
    (if aht_exist (gw_aht g)
     then map_option (\<lambda>(e, a, s). g\<lparr>gw_aht := a, gw_i2c := s\<rparr>) (aht21_poll (bd_i2c B) (ti_stack x) ms (gw_aht g) (gw_i2c g))
     else Some g)"

definition turn_publish :: "('q, 'h, 'i, 't) gateway \<Rightarrow> ('q, 'h, 'i, 't) gateway" where
  "turn_publish g = g\<lparr>gw_od := \<lparr>od_energy = emeter_get_energy_kwh (gw_meter g), od_power = emeter_get_power_kw (gw_meter g),
     od_cnt = emeter_get_cnt (gw_meter g), od_temp_cpu = adc_t_mcu (gw_adc_val g),
     od_temp_aht = aht_temp (gw_aht g), od_hum_aht = aht_hum (gw_aht g), od_u_in = adc_vin (gw_adc_val g),
     od_u_out = adc_vout (gw_adc_val g), od_i_load = adc_i_sns (gw_adc_val g), od_ir = adc_ir (gw_adc_val g)\<rparr>\<rparr>"

definition turn_count :: "u32 \<Rightarrow> main_loc \<Rightarrow> main_loc" where
  "turn_count ms l = (if ml_ct l + ms > 2000 then l\<lparr>ml_ct := 0, test_v := test_v l + 1\<rparr> else l\<lparr>ml_ct := ml_ct l + ms\<rparr>)"

section \<open>One turn\<close>

text \<open>The result is CANopenNode's reset command, 0 to go on.  \<open>None\<close> is a wait that does not end or undefined behaviour.\<close>

definition turn :: "('q, 'h, 'i, 't) board \<Rightarrow> ('q, 'h, 'i, 't) turn_in \<Rightarrow> main_loc \<times> ('q, 'h, 'i, 't) gateway
    \<Rightarrow> (nat \<times> main_loc \<times> ('q, 'h, 'i, 't) gateway) option" where
  "turn B x s = (case s of (l0, g0) \<Rightarrow>
     case turn_time (ti_systick x) l0 of (us, ms, l1) \<Rightarrow>
     case ti_co x us (turn_can B x g0) of (reset, g1) \<Rightarrow>
     Option.bind (turn_lss B us g1) (\<lambda>g2.
     let g3 = ti_lwip x ms g2 in
     case turn_led (ti_link x) ms (turn_freq us (turn_clock ms l1)) of (l2, led) \<Rightarrow>
     case turn_poe_edge l2 (turn_sense B x ms (g3\<lparr>gw_led := led\<rparr>)) of (l3, g4) \<Rightarrow>
     Option.bind (poll_clients (bd_tcp B) (ti_new x) ms 0 (ml_cli l3) (gw_net g4)) (\<lambda>(cs, n).
     case turn_switch x ms (l3\<lparr>ml_cli := cs\<rparr>) (g4\<lparr>gw_net := n\<rparr>) of (l4, g5) \<Rightarrow>
     Option.bind (turn_aht B x ms g5) (\<lambda>g6.
     Some (reset, turn_count ms l4, turn_publish g6)))))"

section \<open>The loops around it\<close>

text \<open>
  Bringing up communication: the driver is reset, CANopenNode is initialised; a failure of it ends in a
  restart of the controller.
\<close>

record ('q, 'h, 'i, 't) setup_in =
  si_CANinit :: "('q, 'h, 'i, 't) gateway \<Rightarrow> bool \<times> ('q, 'h, 'i, 't) gateway"
  si_LSSinit :: "('q, 'h, 'i, 't) gateway \<Rightarrow> bool \<times> ('q, 'h, 'i, 't) gateway"
  si_CANopenInit :: "('q, 'h, 'i, 't) gateway \<Rightarrow> bool \<times> ('q, 'h, 'i, 't) gateway"
  si_InitPDO :: "('q, 'h, 'i, 't) gateway \<Rightarrow> bool \<times> ('q, 'h, 'i, 't) gateway"

definition en_global :: "bool \<Rightarrow> ('q, 'h, 'i, 't) gateway \<Rightarrow> ('q, 'h, 'i, 't) gateway" where
  "en_global v g = g\<lparr>gw_pdo := pdo_switch_en_global (gw_load g) v (gw_pdo g)\<rparr>"

definition comm_setup :: "('q, 'h, 'i, 't) board \<Rightarrow> ('q, 'h, 'i, 't) setup_in \<Rightarrow> ('q, 'h, 'i, 't) gateway
    \<Rightarrow> (bool \<times> ('q, 'h, 'i, 't) gateway) option" where
  "comm_setup B x g0 =
    (let m = (gw_can g0)\<lparr>CANnormal := False\<rparr> in
     Option.bind (can_drv_enter_init_mode (bd_can B) (CANptr m)) (\<lambda>d.
     Option.bind (CO_CANmodule_disable (bd_can B) (m\<lparr>CANptr := d\<rparr>)) (\<lambda>m1.
     case si_CANinit x (g0\<lparr>gw_can := m1\<rparr>) of (ok1, g1) \<Rightarrow>
     if \<not> ok1 then Some (False, g1) else case si_LSSinit x g1 of (ok2, g2) \<Rightarrow>
     if \<not> ok2 then Some (False, g2) else case si_CANopenInit x g2 of (ok3, g3) \<Rightarrow>
     if \<not> ok3 then Some (False, g3) else case si_InitPDO x g3 of (ok4, g4) \<Rightarrow>
     if \<not> ok4 then Some (False, g4)
     else map_option (\<lambda>m2. (True, en_global True (g4\<lparr>gw_can := m2\<rparr>))) (CO_CANsetNormalMode (bd_can B) (gw_can g4)))))"

text \<open>The inner loop, over what the world does turn by turn; with no more of that it is still running.\<close>

fun turns :: "('q, 'h, 'i, 't) board \<Rightarrow> ('q, 'h, 'i, 't) turn_in list \<Rightarrow> main_loc \<times> ('q, 'h, 'i, 't) gateway
    \<Rightarrow> (nat \<times> main_loc \<times> ('q, 'h, 'i, 't) gateway) option" where
  "turns B [] s = Some (0, s)"
| "turns B (x # xs) s = Option.bind (turn B x s) (\<lambda>(r, s1). if r = 0 then turns B xs s1 else Some (r, s1))"

datatype outcome = Halted | Running | Reset nat

definition comm_round :: "('q, 'h, 'i, 't) board \<Rightarrow> ('q, 'h, 'i, 't) setup_in \<Rightarrow> ('q, 'h, 'i, 't) turn_in list
    \<Rightarrow> main_loc \<times> ('q, 'h, 'i, 't) gateway \<Rightarrow> (outcome \<times> main_loc \<times> ('q, 'h, 'i, 't) gateway) option" where
  "comm_round B x xs s = (case s of (l, g) \<Rightarrow>
     Option.bind (comm_setup B x g) (\<lambda>(ok, g1).
       if \<not> ok then Some (Halted, l, g1)
       else Option.bind (turns B xs (l, g1)) (\<lambda>(r, l1, g2).
         Some (if r = 0 then (Running, l1, g2) else (Reset r, l1, en_global False g2)))))"

text \<open>The rounds of a run; a reset of the application (2) starts the outer loop again.\<close>

fun app_rounds :: "('q, 'h, 'i, 't) board \<Rightarrow> bool \<Rightarrow> (('q, 'h, 'i, 't) setup_in \<times> ('q, 'h, 'i, 't) turn_in list) list
    \<Rightarrow> main_loc \<times> ('q, 'h, 'i, 't) gateway \<Rightarrow> (outcome \<times> main_loc \<times> ('q, 'h, 'i, 't) gateway) option" where
  "app_rounds B app [] s = Some (Reset (if app then 2 else 1), s)"
| "app_rounds B app ((x, xs) # rs) (l, g) =
    Option.bind (comm_round B x xs (l, if app then g\<lparr>gw_lss := (gw_lss g)\<lparr>lss_br_set_delay_counter := 0\<rparr>\<rparr> else g)) (\<lambda>(oc, s1).
      case oc of Reset r \<Rightarrow> app_rounds B (r = 2) rs s1 | _ \<Rightarrow> Some (oc, s1))"

section \<open>SYNC and the load\<close>

lemma turn_parts:
  assumes "turn B x (l0, g0) = Some (r, l', g')"
  obtains us ms l1 g1 g2 l2 led l3 g4 cs n l4 g5 g6 where
    "turn_time (ti_systick x) l0 = (us, ms, l1)" "ti_co x us (turn_can B x g0) = (r, g1)" "turn_lss B us g1 = Some g2"
    "turn_led (ti_link x) ms (turn_freq us (turn_clock ms l1)) = (l2, led)"
    "turn_poe_edge l2 (turn_sense B x ms ((ti_lwip x ms g2)\<lparr>gw_led := led\<rparr>)) = (l3, g4)"
    "poll_clients (bd_tcp B) (ti_new x) ms 0 (ml_cli l3) (gw_net g4) = Some (cs, n)"
    "turn_switch x ms (l3\<lparr>ml_cli := cs\<rparr>) (g4\<lparr>gw_net := n\<rparr>) = (l4, g5)" "turn_aht B x ms g5 = Some g6"
    "l' = turn_count ms l4" "g' = turn_publish g6"
proof -
  obtain us ms l1 where 1: "turn_time (ti_systick x) l0 = (us, ms, l1)" by (cases "turn_time (ti_systick x) l0")
  obtain r1 g1 where 2: "ti_co x us (turn_can B x g0) = (r1, g1)" by (cases "ti_co x us (turn_can B x g0)")
  obtain g2 where 3: "turn_lss B us g1 = Some g2" using assms 1 2 by (cases "turn_lss B us g1") (simp_all add: turn_def)
  obtain l2 led where 4: "turn_led (ti_link x) ms (turn_freq us (turn_clock ms l1)) = (l2, led)"
    by (cases "turn_led (ti_link x) ms (turn_freq us (turn_clock ms l1))")
  obtain l3 g4 where 5: "turn_poe_edge l2 (turn_sense B x ms ((ti_lwip x ms g2)\<lparr>gw_led := led\<rparr>)) = (l3, g4)"
    by (cases "turn_poe_edge l2 (turn_sense B x ms ((ti_lwip x ms g2)\<lparr>gw_led := led\<rparr>))")
  obtain cs n where 6: "poll_clients (bd_tcp B) (ti_new x) ms 0 (ml_cli l3) (gw_net g4) = Some (cs, n)"
    using assms 1 2 3 4 5 by (cases "poll_clients (bd_tcp B) (ti_new x) ms 0 (ml_cli l3) (gw_net g4)") (auto simp: turn_def)
  obtain l4 g5 where 7: "turn_switch x ms (l3\<lparr>ml_cli := cs\<rparr>) (g4\<lparr>gw_net := n\<rparr>) = (l4, g5)"
    by (cases "turn_switch x ms (l3\<lparr>ml_cli := cs\<rparr>) (g4\<lparr>gw_net := n\<rparr>)")
  obtain g6 where 8: "turn_aht B x ms g5 = Some g6"
    using assms 1 2 3 4 5 6 7 by (cases "turn_aht B x ms g5") (simp_all add: turn_def)
  have "r1 = r" "l' = turn_count ms l4" "g' = turn_publish g6" using assms 1 2 3 4 5 6 7 8 by (simp_all add: turn_def)
  with 1 2 3 4 5 6 7 8 show thesis by (intro that) simp_all
qed

lemma turn_aht_same:
  assumes "turn_aht B x ms g = Some g'"
  shows "gw_load g' = gw_load g" "gw_pdo g' = gw_pdo g" "gw_poe g' = gw_poe g" "gw_mains g' = gw_mains g" "gw_adc_val g' = gw_adc_val g"
    "gw_set g' = gw_set g"
  using assms by (auto simp: turn_aht_def split: if_splits)

lemma turn_ends_with_switches:
  assumes "turn B x (l, g) = Some (r, l', g')"
  shows "pdo_en (gw_pdo g') = (pdo_permit (gw_pdo g') \<and> ld_enabled (gw_load g'))"
    "timeout_on_ms (gw_load g') = 0 \<Longrightarrow> \<not> ti_fault_n x \<or> 1 \<le> \<bar>adc_i_sns (gw_adc_val g')\<bar> \<Longrightarrow>
      \<not> ld_enabled (gw_load g') \<and> \<not> ld_pin (gw_load g')"
proof -
  obtain ms l4 l5 g4 g5 g6 where p: "turn_switch x ms l4 g4 = (l5, g5)" "turn_aht B x ms g5 = Some g6" "g' = turn_publish g6"
    using turn_parts [OF assms] by metis
  note a = turn_aht_same [OF p(2)]
  have s: "gw_load g' = gw_load g5" "gw_pdo g' = gw_pdo g5" "gw_adc_val g' = gw_adc_val g5" by (simp_all add: p(3) turn_publish_def a)
  have sw: "gw_load g5 = snd (load_switcher_poll (ti_fault_n x) (adc_i_sns (gw_adc_val g5)) ms (gw_load g4))"
    "gw_pdo g5 = pdo_switch_poll (gw_load g5) (gw_pdo g4)"
    using p(1) by (auto simp: turn_switch_def Let_def)
  show "pdo_en (gw_pdo g') = (pdo_permit (gw_pdo g') \<and> ld_enabled (gw_load g'))"
    using pdo_poll_en [of "gw_load g5" "gw_pdo g4"] by (auto simp: s simp flip: sw(2))
  show "\<not> ld_enabled (gw_load g') \<and> \<not> ld_pin (gw_load g')"
    if "timeout_on_ms (gw_load g') = 0" "\<not> ti_fault_n x \<or> 1 \<le> \<bar>adc_i_sns (gw_adc_val g')\<bar>"
    using sw(1) that by (auto simp: s load_switcher_poll_def load_switcher_off_def Let_def split: if_splits)
qed


section \<open>PoE and the mains\<close>

text \<open>What CANopenNode and lwIP may do for the first channel to follow the mains: the detectors are theirs to read only,
  and they may switch the channel off but not on.\<close>

definition leaves_poe :: "(('q, 'h, 'i, 't) gateway \<Rightarrow> ('q, 'h, 'i, 't) gateway) \<Rightarrow> bool" where
  "leaves_poe f \<longleftrightarrow> (\<forall>g. gw_mains (f g) = gw_mains g \<and> length (poe_inst (gw_poe (f g))) = length (poe_inst (gw_poe g))
     \<and> length (poe_pins (gw_poe (f g))) = length (poe_pins (gw_poe g))
     \<and> (poe_inst (gw_poe (f g)) ! 0 \<longrightarrow> poe_inst (gw_poe g) ! 0) \<and> (poe_pins (gw_poe (f g)) ! 0 \<longrightarrow> poe_pins (gw_poe g) ! 0))"

definition poe_quiet :: "('q, 'h, 'i, 't) turn_in \<Rightarrow> bool" where
  "poe_quiet x \<longleftrightarrow> (\<forall>cb ob ident dlc data. leaves_poe (ti_callback x cb ob ident dlc data)) \<and> (\<forall>us. leaves_poe (\<lambda>g. snd (ti_co x us g)))
     \<and> (\<forall>ms. leaves_poe (ti_lwip x ms))"

definition poe_follows :: "main_loc \<Rightarrow> ('q, 'h, 'i, 't) gateway \<Rightarrow> bool" where
  "poe_follows l g \<longleftrightarrow> length (poe_inst (gw_poe g)) = POE_CH \<and> length (poe_pins (gw_poe g)) = POE_CH
     \<and> prev_mains_sw_0 l = mains_sense_is_on 0 (gw_mains g)
     \<and> (\<not> mains_sense_is_on 0 (gw_mains g) \<longrightarrow> \<not> poe_inst (gw_poe g) ! 0 \<and> \<not> poe_pins (gw_poe g) ! 0)"

lemma leaves_poe_follows: "leaves_poe f \<Longrightarrow> poe_follows l g \<Longrightarrow> poe_follows l (f g)"
  by (auto simp: leaves_poe_def poe_follows_def)

lemma follows_same: "gw_poe g' = gw_poe g \<Longrightarrow> gw_mains g' = gw_mains g \<Longrightarrow> prev_mains_sw_0 l' = prev_mains_sw_0 l \<Longrightarrow> poe_follows l' g' = poe_follows l g"
  by (simp add: poe_follows_def)

lemma turn_can_follows:
  assumes "poe_quiet x" "poe_follows l g"
  shows "poe_follows l (turn_can B x g)"
proof -
  have ev: "poe_follows l (on_event B x e g)" if "poe_follows l g" for e g
  proof (cases e)
    case (Rxed msg)
    then show ?thesis using that follows_same [of "on_event B x e g" g l l] by (simp add: on_event_def case_prod_beta')
  next
    case (Callback cb ob ident dlc data)
    then show ?thesis using assms(1) that by (simp add: on_event_def poe_quiet_def leaves_poe_follows)
  qed
  have "poe_follows l g \<Longrightarrow> poe_follows l (fold (on_event B x) es g)" for es g
    by (induction es arbitrary: g) (simp_all add: ev)
  then show ?thesis using assms(2) by (simp add: turn_can_def case_prod_beta' poe_follows_def)
qed

definition poe_less :: "poe_sw \<Rightarrow> poe_sw \<Rightarrow> bool" where
  "poe_less p q \<longleftrightarrow> length (poe_inst p) = length (poe_inst q) \<and> length (poe_pins p) = length (poe_pins q)
     \<and> (poe_inst p ! 0 \<longrightarrow> poe_inst q ! 0) \<and> (poe_pins p ! 0 \<longrightarrow> poe_pins q ! 0)"

lemma poe_off_less: "poe_less (poe_switcher_off k q) q"
proof -
  have h: "xs[k := False] ! 0 \<longrightarrow> xs ! 0" for xs :: "bool list"
  proof (cases "k = 0 \<and> xs \<noteq> []")
    case False
    then have "xs[k := False] ! 0 = xs ! 0" by (cases "k = 0") (auto simp only: list_update.simps nth_list_update_neq)
    then show ?thesis by simp
  qed simp
  show ?thesis using h [of "poe_inst q"] h [of "poe_pins q"] by (simp add: poe_less_def poe_switcher_off_def)
qed

lemma poe_poll_less: "poe_less (poe_switcher_poll b f p) p"
proof -
  have "poe_less (fold (poe_poll_ch b f) ns q) q" for ns q
  proof (induction ns arbitrary: q)
    case (Cons k ns)
    have "poe_less (poe_poll_ch b f k q) q" using poe_off_less [of k q] by (simp add: poe_poll_ch_def poe_less_def)
    with Cons [of "poe_poll_ch b f k q"] show ?case by (simp add: poe_less_def)
  qed (simp add: poe_less_def)
  then show ?thesis by (simp add: poe_switcher_poll_def)
qed

lemma turn_sense_mains: "gw_poe (turn_sense B x ms g) = gw_poe g"
  by (simp add: turn_sense_def Let_def case_prod_beta')

lemma turn_poe_edge_follows:
  assumes "length (poe_inst (gw_poe g)) = POE_CH" "length (poe_pins (gw_poe g)) = POE_CH"
    "\<not> prev_mains_sw_0 l \<longrightarrow> \<not> poe_inst (gw_poe g) ! 0 \<and> \<not> poe_pins (gw_poe g) ! 0"
    "turn_poe_edge l g = (l', g')"
  shows "poe_follows l' g'"
proof -
  let ?on = "mains_sense_is_on 0 (gw_mains g)"
  have n: "length (poe_inst (gw_poe g)) > 0" "length (poe_pins (gw_poe g)) > 0" using assms(1,2) by simp_all
  have l': "l' = l\<lparr>prev_mains_sw_0 := ?on\<rparr>" using assms(4) by (simp add: turn_poe_edge_def Let_def)
  show ?thesis
  proof (cases "prev_mains_sw_0 l = ?on")
    case True
    then have "g' = g" using assms(4) by (simp add: turn_poe_edge_def Let_def)
    then show ?thesis using assms(1-3) True by (simp add: poe_follows_def l')
  next
    case False
    then have "g' = g\<lparr>gw_poe := (if ?on then poe_switcher_on 0 (gw_poe g) else poe_switcher_off 0 (gw_poe g))\<rparr>"
      using assms(4) by (simp add: turn_poe_edge_def Let_def)
    then show ?thesis using assms(1,2) n
      by (cases ?on) (simp_all add: poe_follows_def l' poe_switcher_on_def poe_switcher_off_def)
  qed
qed

lemma turn_follows:
  assumes "poe_quiet x" "poe_follows l g" "turn B x (l, g) = Some (r, l', g')"
  shows "poe_follows l' g'"
proof -
  obtain us ms l1 g1 g2 l2 led l3 g4 cs n l4 g5 g6 where p:
    "turn_time (ti_systick x) l = (us, ms, l1)" "ti_co x us (turn_can B x g) = (r, g1)" "turn_lss B us g1 = Some g2"
    "turn_led (ti_link x) ms (turn_freq us (turn_clock ms l1)) = (l2, led)"
    "turn_poe_edge l2 (turn_sense B x ms ((ti_lwip x ms g2)\<lparr>gw_led := led\<rparr>)) = (l3, g4)"
    "turn_switch x ms (l3\<lparr>ml_cli := cs\<rparr>) (g4\<lparr>gw_net := n\<rparr>) = (l4, g5)" "turn_aht B x ms g5 = Some g6"
    "l' = turn_count ms l4" "g' = turn_publish g6"
    using turn_parts [OF assms(3)] by metis
  have "poe_follows l (snd (ti_co x us (turn_can B x g)))"
    using turn_can_follows [OF assms(1,2), of B] assms(1) by (auto simp: poe_quiet_def intro: leaves_poe_follows)
  then have "poe_follows l g1" using p(2) by simp
  moreover have "gw_poe g2 = gw_poe g1" "gw_mains g2 = gw_mains g1" using p(3) by (auto simp: turn_lss_def)
  ultimately have "poe_follows l (ti_lwip x ms g2)"
    using assms(1) follows_same [of g2 g1 l l] by (auto simp: poe_quiet_def intro: leaves_poe_follows)
  moreover have "prev_mains_sw_0 l2 = prev_mains_sw_0 l"
    using p(1,4) by (auto simp: turn_time_def turn_led_def turn_freq_def turn_clock_def Let_def split: prod.splits if_splits)
  ultimately have "poe_follows l3 g4"
    by (intro turn_poe_edge_follows [OF _ _ _ p(5)]) (auto simp: turn_sense_mains poe_follows_def)
  moreover have "prev_mains_sw_0 l4 = prev_mains_sw_0 l3" "gw_mains g5 = gw_mains g4" "poe_less (gw_poe g5) (gw_poe g4)"
    using p(6) poe_poll_less by (auto simp: turn_switch_def Let_def)
  ultimately have "poe_follows l4 g5" by (auto simp: poe_follows_def poe_less_def)
  moreover have "gw_poe g' = gw_poe g5" "gw_mains g' = gw_mains g5"
    using turn_aht_same [OF p(7)] by (simp_all add: p(9) turn_publish_def)
  moreover have "prev_mains_sw_0 l' = prev_mains_sw_0 l4" by (simp add: p(8) turn_count_def)
  ultimately show ?thesis using follows_same [of g' g5 l' l4] by simp
qed

text \<open>C17: The first PoE channel follows the mains: from a state where it does, over any number of turns in which
  nothing else switches it on, at the end of every turn the channel is off, and its pin too, unless the
  first mains detector reports mains.
\<close>

lemma poe_needs_mains:
  "list_all poe_quiet xs \<Longrightarrow> poe_follows l g \<Longrightarrow> turns B xs (l, g) = Some (r, l', g') \<Longrightarrow>
    poe_follows l' g' \<and> (poe_switcher_is_on 0 (gw_poe g') \<or> poe_pins (gw_poe g') ! 0 \<longrightarrow> mains_sense_is_on 0 (gw_mains g'))"
proof (induction xs arbitrary: l g)
  case Nil
  then show ?case by (auto simp: poe_follows_def poe_switcher_is_on_def)
next
  case (Cons x xs)
  then obtain r1 l1 g1 where t: "turn B x (l, g) = Some (r1, l1, g1)" by (auto simp: bind_eq_Some_conv)
  have f: "poe_follows l1 g1" using turn_follows [OF _ Cons.prems(2) t] Cons.prems(1) by simp
  show ?case
  proof (cases "r1 = 0")
    case True
    then show ?thesis using Cons.IH [OF _ f] Cons.prems(1,3) t by simp
  next
    case False
    then show ?thesis using Cons.prems(3) t f by (auto simp: poe_follows_def poe_switcher_is_on_def)
  qed
qed

section \<open>SYNC is produced in operation only\<close>

lemma en_global_pdo: "pdo_en (gw_pdo (en_global v g)) = (v \<and> ld_enabled (gw_load g))"
  "pdo_permit (gw_pdo (en_global v g)) = v" "gw_load (en_global v g) = gw_load g"
  using pdo_poll_en [of "gw_load g" "(gw_pdo g)\<lparr>pdo_permit := v\<rparr>"] by (simp_all add: en_global_def pdo_switch_en_global_def)

lemma turns_sync:
  "pdo_en (gw_pdo g) = (pdo_permit (gw_pdo g) \<and> ld_enabled (gw_load g)) \<Longrightarrow> turns B xs (l, g) = Some (r, l', g') \<Longrightarrow>
    pdo_en (gw_pdo g') = (pdo_permit (gw_pdo g') \<and> ld_enabled (gw_load g'))"
proof (induction xs arbitrary: l g)
  case (Cons x xs)
  then obtain r1 l1 g1 where t: "turn B x (l, g) = Some (r1, l1, g1)" by (auto simp: bind_eq_Some_conv)
  have "pdo_en (gw_pdo g1) = (pdo_permit (gw_pdo g1) \<and> ld_enabled (gw_load g1))" by (rule turn_ends_with_switches [OF t])
  with Cons t show ?case by (auto split: if_splits)
qed simp

lemma comm_setup_sync: "comm_setup B x g = Some (True, g1) \<Longrightarrow> \<exists>g0. g1 = en_global True g0"
  by (auto simp: comm_setup_def bind_eq_Some_conv Let_def case_prod_beta' split: if_splits)

text \<open>A round of communication, with anything CANopenNode and lwIP do in it: when it is left for a reset,
  SYNC is not produced, and as long as it runs SYNC is produced exactly when it is permitted and the load
  is on.
\<close>

lemma round_sync:
  "(case comm_round B x xs (l, g) of None \<Rightarrow> True | Some (oc, l', g') \<Rightarrow>
     (case oc of Reset r \<Rightarrow> r \<noteq> 0 \<and> \<not> pdo_en (gw_pdo g') \<and> \<not> pdo_permit (gw_pdo g')
      | Running \<Rightarrow> pdo_en (gw_pdo g') = (pdo_permit (gw_pdo g') \<and> ld_enabled (gw_load g'))
      | Halted \<Rightarrow> l' = l))"
proof (cases "comm_round B x xs (l, g)")
  case (Some y)
  then obtain ok g1 where st: "comm_setup B x g = Some (ok, g1)" by (auto simp: comm_round_def bind_eq_Some_conv)
  show ?thesis
  proof (cases ok)
    case True
    then obtain r l2 g2 where t: "turns B xs (l, g1) = Some (r, l2, g2)" and y: "y = (if r = 0 then (Running, l2, g2) else (Reset r, l2, en_global False g2))"
      using Some st by (auto simp: comm_round_def bind_eq_Some_conv)
    obtain g0 where "g1 = en_global True g0" using st True comm_setup_sync [of B x g g1] by auto
    then have "pdo_en (gw_pdo g1) = (pdo_permit (gw_pdo g1) \<and> ld_enabled (gw_load g1))" by (simp add: en_global_pdo)
    from turns_sync [OF this t] Some y show ?thesis by (simp add: en_global_pdo)
  qed (use Some st in \<open>auto simp: comm_round_def\<close>)
qed simp

section \<open>Starting\<close>

record start_in =
  st_status :: u8
  st_data :: bytes
  st_new :: "nat \<Rightarrow> nat option"

definition nonzero_ip :: "bytes \<Rightarrow> bool" where
  "nonzero_ip ip \<longleftrightarrow> ip ! 0 \<noteq> 0 \<or> ip ! 1 \<noteq> 0 \<or> ip ! 2 \<noteq> 0 \<or> ip ! 3 \<noteq> 0"

definition sock_cli_zero :: sock_cli_t where
  "sock_cli_zero = \<lparr>sc_inst = None, sc_timeout = 0, sc_ip = [0, 0, 0, 0], sc_port = 0\<rparr>"

definition start_client :: "'t tcp \<Rightarrow> nat option \<Rightarrow> bytes \<Rightarrow> 't cli \<Rightarrow> (bool \<times> sock_cli_t) \<times> 't cli" where
  "start_client T new ip n =
    (if nonzero_ip ip
     then (case sock_cli_init T new ip 5000
             (n\<lparr>cl_inst := sc_inst sock_cli_zero, timeout_cnt := sc_timeout sock_cli_zero, DestIPaddr := sc_ip sock_cli_zero,
                cl_port := sc_port sock_cli_zero\<rparr>) of
             (sts, n1) \<Rightarrow> ((sts = 0, \<lparr>sc_inst = cl_inst n1, sc_timeout = timeout_cnt n1, sc_ip = DestIPaddr n1, sc_port = cl_port n1\<rparr>), n1))
     else ((False, sock_cli_zero), n))"

fun start_clients :: "'t tcp \<Rightarrow> (nat \<Rightarrow> nat option) \<Rightarrow> nat \<Rightarrow> bytes list \<Rightarrow> 't cli \<Rightarrow> (bool \<times> sock_cli_t) list \<times> 't cli" where
  "start_clients T new i [] n = ([], n)"
| "start_clients T new i (ip # ips) n =
    (case start_client T (new i) ip n of (c, n1) \<Rightarrow> case start_clients T new (i + 1) ips n1 of (cs, n2) \<Rightarrow> (c # cs, n2))"

definition client_ips :: "settings \<Rightarrow> bytes list" where
  "client_ips g = cfg_ip_addr_master g # map (\<lambda>i. take 4 (drop (4 * i) (cfg_ip_addr_gw g))) [0..<GW_COUNT]"

definition fram_zero :: fram_entries where
  "fram_zero = \<lparr>power_on_cnt = 0, emeter_cnt = 0, logger_start = 0, logger_end = 0\<rparr>"

text \<open>The MAC address ends in three bytes of the checksum of the controller's identifier.\<close>

definition mac_tail :: "(u32 \<Rightarrow> u32 \<Rightarrow> u32) \<Rightarrow> u32 list \<Rightarrow> bytes" where
  "mac_tail dr uid = (let crc = crc32 dr (concat (map le32 uid)) in [ucast (drop_bit 16 crc), ucast (drop_bit 8 crc), ucast crc])"

text \<open>Every node is watched with five seconds.\<close>

definition consumer_heartbeats :: "u32 list" where
  "consumer_heartbeats = map (\<lambda>i. push_bit 16 (of_nat (i + 1)) OR 5000) [0..<127]"

text \<open>
  The initialisation of the components, from the load switch to switching the load on; the store \<open>c\<close> has
  the table of the settings.  The peripherals and protocol stacks that are only set up have no part in it.
\<close>

definition app_init :: "('q, 'h, 'i, 't) board \<Rightarrow> start_in \<Rightarrow> (u32 \<Rightarrow> u32 \<Rightarrow> u32) \<Rightarrow> cfg_st
    \<Rightarrow> main_loc \<times> ('q, 'h, 'i, 't) gateway \<Rightarrow> (main_loc \<times> ('q, 'h, 'i, 't) gateway \<times> cfg_st) option" where
  "app_init B x dr c s = (case s of (l, g0) \<Rightarrow>
     let g1 = g0\<lparr>gw_load := load_switcher_init (gw_load g0), gw_pc := pc_init (gw_pc g0)\<rparr> in
     Option.bind (aht21_init (bd_i2c B) (st_status x) (st_data x) (gw_aht g1) (gw_i2c g1)) (\<lambda>(aht_sts, a, i).
     case fram_init (bd_spi B) (gw_fram g1) of (fram_sts, h1) \<Rightarrow>
     case (if fram_sts = 0 then fram_data_read (bd_spi B) fram_zero h1 else (fram_zero, h1)) of (fram_data, h2) \<Rightarrow>
     case load_settings dr c of (cfg_sts, c1) \<Rightarrow>
     let st = settings_of (g_device_config c1) in
     case start_clients (bd_tcp B) (st_new x) 0 (client_ips st) (gw_net g1) of (cs, n) \<Rightarrow>
     Some (l\<lparr>ml_cli := cs\<rparr>,
       g1\<lparr>gw_aht := a, gw_i2c := i, gw_fram := h2, gw_set := st, gw_poe := poe_switcher_init (poe_sw_chnl_bits st) (gw_poe g1),
          gw_net := n, gw_meter := emeter_init (emeter_cnt fram_data) (gw_meter g1), gw_load := load_switcher_on (gw_load g1)\<rparr>, c1)))"

text \<open>The delay: \<open>mark k\<close> is the count of cycles \<open>prof_mark\<close> gives at the \<open>k\<close>th call.\<close>

partial_function (option) delay_loop :: "(nat \<Rightarrow> u32) \<Rightarrow> u32 \<Rightarrow> nat \<Rightarrow> u32 \<Rightarrow> nat option" where
  "delay_loop mark limit k start = (let s = start + mark k in if s \<ge> limit then Some k else delay_loop mark limit (k + 1) s)"

definition delay_ms :: "(nat \<Rightarrow> u32) \<Rightarrow> u32 \<Rightarrow> nat option" where
  "delay_ms mark ms = delay_loop mark (ms * 168000) 0 0"

section \<open>A gateway at work\<close>

definition ex_od :: od_ram where
  "ex_od = \<lparr>od_energy = 0, od_power = 0, od_cnt = 0, od_temp_cpu = 0, od_temp_aht = 0, od_hum_aht = 0, od_u_in = 0, od_u_out = 0, od_i_load = 0, od_ir = 0\<rparr>"

definition ex_mains :: mains_ch where
  "ex_mains = \<lparr>tmr_off = 0, tmr_on = 0, on_phase = False, mains_on = False, cnt_on = 0, cnt_hit = 0, cnt_on_max = 0, cnt_on_max_hit = 0, ctrl_pin = False\<rparr>"

definition ex_gw :: "(unit, chip, ideal, unit) gateway" where
  "ex_gw = \<lparr>gw_can = ex_can, gw_lss = \<lparr>lss_br_set_delay_counter = 0, lss_can = ex_dev, pendingBitRate = 500, lss_stay_in_boot = False\<rparr>,
     gw_adc = adc_start, gw_adc_val = fst (adc_track ex_cal (replicate ADC_CH 0) adc_start), gw_pc = \<lparr>press_tmr = 0, pc_pressed = False\<rparr>,
     gw_meter = emeter_start, gw_fram = ex_chip, gw_mains = replicate NUM_CH ex_mains, gw_routes = router_init, gw_mqtt = (), gw_net = cli_zero,
     gw_load = load_switcher_on \<lparr>ld_enabled = False, timeout_on_ms = 0, timeout_cur_longterm_ms = 0, ld_pin = False\<rparr>,
     gw_pdo = \<lparr>pdo_permit = True, pdo_en = False, cycle_1006 = 0, sync_1005 = 0x80\<rparr>,
     gw_poe = \<lparr>poe_inst = replicate POE_CH False, poe_pins = replicate POE_CH False\<rparr>, gw_aht = aht21_zero,
     gw_i2c = \<lparr>ErrorCode = 0, i2c_time = 0, i2c_err_restarts = 0, ihw = \<lparr>id_cr1 = 0, id_in = []\<rparr>\<rparr>,
     gw_od = ex_od, gw_set = settings_default 1000, gw_ir_min = 0, gw_ir_max = 0, gw_led = False\<rparr>"

definition ex_loc :: main_loc where
  "ex_loc = \<lparr>ml_time = \<lparr>remain_systick_us_prev = 0, remain_systick_ms_prev = 0, system_time = 0, sys_time_u32 = 0\<rparr>,
     fq_tick = 0, fq_td_us = 0, sys_freq_1s = 0, difff = 0, prev_mains_sw_0 = False, prev_poe_sw_0 = False, ml_ct = 0, test_v = 0,
     ml_cli = replicate (1 + GW_COUNT) (False, sock_cli_zero)\<rparr>"

definition ex_board :: "(unit, chip, ideal, unit) board" where
  "ex_board = \<lparr>bd_can = id, bd_cal = ex_cal, bd_publish = (\<lambda>t d q r s. (0, s)), bd_spi = chip_spi, bd_i2c = ideal_bus, bd_tcp = ex_tcp\<rparr>"

definition ex_turn_in :: "(unit, chip, ideal, unit) turn_in" where
  "ex_turn_in = \<lparr>ti_systick = 168000, ti_callback = (\<lambda>_ _ _ _ _ g. g), ti_co = (\<lambda>_ g. (0, g)), ti_lwip = (\<lambda>_ g. g), ti_link = True,
     ti_adc_buf = replicate ADC_CH 0, ti_low = (\<lambda>_. False), ti_new = (\<lambda>_. None), ti_fault_n = True, ti_stack = replicate 7 0\<rparr>"

text \<open>With nothing connected, a turn always comes to its end.\<close>

lemma poll_clients_idle: "list_all (\<lambda>c. \<not> fst c) cs \<Longrightarrow> poll_clients T new ms i cs n = Some (cs, n)"
  by (induction cs arbitrary: i) auto

lemma turn_returns:
  assumes "lss_br_set_delay_counter (gw_lss g) = 0" "\<not> aht_exist (gw_aht g)" "list_all (\<lambda>c. \<not> fst c) (ml_cli l)"
    and "\<And>us g. ti_co x us g = (0, g)" "\<And>ms g. ti_lwip x ms g = g" "\<And>cb ob i d b g. ti_callback x cb ob i d b g = g"
  shows "\<exists>l' g'. turn B x (l, g) = Some (0, l', g') \<and> lss_br_set_delay_counter (gw_lss g') = 0 \<and> \<not> aht_exist (gw_aht g')
    \<and> list_all (\<lambda>c. \<not> fst c) (ml_cli l')
    \<and> gw_load g' = snd (load_switcher_poll (ti_fault_n x) (adc_i_sns (gw_adc_val g')) (fst (snd (turn_time (ti_systick x) l))) (gw_load g))"
proof -
  have c: "gw_lss (fold (on_event B x) es g) = gw_lss g \<and> gw_aht (fold (on_event B x) es g) = gw_aht g
      \<and> gw_load (fold (on_event B x) es g) = gw_load g" for es g
    by (induction es arbitrary: g) (auto simp: on_event_def assms(6) case_prod_beta' split: can_event.splits)
  obtain us ms l1 where t: "turn_time (ti_systick x) l = (us, ms, l1)" by (cases "turn_time (ti_systick x) l")
  define g1 where "g1 = turn_can B x g"
  have g1: "gw_lss g1 = gw_lss g" "gw_aht g1 = gw_aht g" "gw_load g1 = gw_load g" using c by (simp_all add: g1_def turn_can_def case_prod_beta')
  obtain g2 where g2: "turn_lss B us g1 = Some g2" "gw_aht g2 = gw_aht g1" "lss_br_set_delay_counter (gw_lss g2) = 0" "gw_load g2 = gw_load g1"
    using assms(1) g1 by (auto simp: turn_lss_def lss_cb_poll_def)
  obtain l2 led where l2: "turn_led (ti_link x) ms (turn_freq us (turn_clock ms l1)) = (l2, led)"
    by (cases "turn_led (ti_link x) ms (turn_freq us (turn_clock ms l1))")
  define g3 where "g3 = turn_sense B x ms (g2\<lparr>gw_led := led\<rparr>)"
  have g3: "gw_aht g3 = gw_aht g2" "gw_lss g3 = gw_lss g2" "gw_load g3 = gw_load g2" by (simp_all add: g3_def turn_sense_def Let_def case_prod_beta')
  obtain l3 g4 where e: "turn_poe_edge l2 g3 = (l3, g4)" by (cases "turn_poe_edge l2 g3")
  have g4: "gw_aht g4 = gw_aht g3" "gw_lss g4 = gw_lss g3" "gw_load g4 = gw_load g3" using e by (auto simp: turn_poe_edge_def Let_def split: if_splits)
  have cli: "list_all (\<lambda>c. \<not> fst c) (ml_cli l3)"
    using assms(3) t l2 e
    by (auto simp: turn_time_def turn_led_def turn_freq_def turn_clock_def turn_poe_edge_def Let_def split: prod.splits if_splits)
  obtain l4 g5 where s: "turn_switch x ms (l3\<lparr>ml_cli := ml_cli l3\<rparr>) (g4\<lparr>gw_net := gw_net g4\<rparr>) = (l4, g5)"
    by (cases "turn_switch x ms (l3\<lparr>ml_cli := ml_cli l3\<rparr>) (g4\<lparr>gw_net := gw_net g4\<rparr>)")
  have g5: "gw_aht g5 = gw_aht g4" "gw_lss g5 = gw_lss g4" "ml_cli l4 = ml_cli l3"
    "gw_load g5 = snd (load_switcher_poll (ti_fault_n x) (adc_i_sns (gw_adc_val g5)) ms (gw_load g4))" using s by (auto simp: turn_switch_def Let_def)
  have "turn B x (l, g) = Some (0, turn_count ms l4, turn_publish g5)"
    using t g2(1) l2 e s assms(2) g1(2) g2(2) g3(1) g4(1) g5(1)
    by (simp add: turn_def assms(4,5) poll_clients_idle [OF cli] turn_aht_def flip: g1_def g3_def)
  moreover have "ml_cli (turn_count ms l4) = ml_cli l3" using g5 by (simp add: turn_count_def)
  moreover have "gw_load (turn_publish g5) = snd (load_switcher_poll (ti_fault_n x) (adc_i_sns (gw_adc_val (turn_publish g5))) ms (gw_load g))"
    using g1(3) g2(4) g3(3) g4(3) g5(4) by (simp add: turn_publish_def)
  ultimately show ?thesis using assms(2) g1 g2 g3 g4 g5 cli t by (simp add: turn_publish_def)
qed

lemma ex_turns: "\<exists>l' g'. turns ex_board (replicate n ex_turn_in) (ex_loc, ex_gw) = Some (0, l', g')"
proof -
  have h: "\<exists>l' g'. turns ex_board (replicate n ex_turn_in) (l, g) = Some (0, l', g')"
    if "lss_br_set_delay_counter (gw_lss g) = 0" "\<not> aht_exist (gw_aht g)" "list_all (\<lambda>c. \<not> fst c) (ml_cli l)" for l g
    using that
  proof (induction n arbitrary: l g)
    case (Suc n)
    from turn_returns [OF Suc.prems, of ex_turn_in ex_board] obtain l' g' where
      "turn ex_board ex_turn_in (l, g) = Some (0, l', g')" "lss_br_set_delay_counter (gw_lss g') = 0" "\<not> aht_exist (gw_aht g')"
      "list_all (\<lambda>c. \<not> fst c) (ml_cli l')" by (auto simp: ex_turn_in_def)
    with Suc.IH [of g' l'] show ?case by simp
  qed simp
  have "lss_br_set_delay_counter (gw_lss ex_gw) = 0" "\<not> aht_exist (gw_aht ex_gw)" "list_all (\<lambda>c. \<not> fst c) (ml_cli ex_loc)"
    by (simp_all add: ex_gw_def ex_loc_def aht21_zero_def list_all_iff)
  then show ?thesis by (rule h)
qed

lemma poe_needs_mains_witness:
  "\<exists>r l' g'. turns ex_board (replicate 30 ex_turn_in) (ex_loc, ex_gw) = Some (r, l', g') \<and> poe_follows l' g'"
proof -
  obtain l' g' where r: "turns ex_board (replicate 30 ex_turn_in) (ex_loc, ex_gw) = Some (0, l', g')" using ex_turns by blast
  have q: "list_all poe_quiet (replicate 30 ex_turn_in)"
    by (simp add: list_all_iff poe_quiet_def leaves_poe_def ex_turn_in_def)
  have f: "poe_follows ex_loc ex_gw"
    by (simp add: poe_follows_def ex_loc_def ex_gw_def mains_sense_is_on_def ex_mains_def)
  from poe_needs_mains [OF q f r] r show ?thesis by blast
qed


end
