(* ===== verification/Printf.thy ===== *)
theory Printf
  imports Complex_Main C_Text
begin

text \<open>
  Formatted output (common/eth_con/_printf.c): the directives of a format, the conversion of integers and
  doubles, and the outputs into a buffer, to nowhere and to a function.

  A format is the memory behind the \<open>format\<close> pointer: it ends with its zero byte, and reading past the last
  byte of the list is \<open>None\<close>, like every other undefined behaviour here: an argument of another type than the
  directive asks for, an unterminated string, a negated \<open>INT_MIN\<close>, an index below zero.  The flags are a record of
  booleans.  \<open>char\<close> is unsigned, as on every ARM, \<open>long\<close> and pointers have 32 bits.  The output function
  \<open>out\<close> changes the state \<open>'o\<close> of whatever it writes to; \<open>idx\<close> is a natural number, for an output under 2 GB.
  A double is a real number, so the rounding of the hardware is not modelled.
\<close>

section \<open>Output functions\<close>

type_synonym 'o out_fct = "u8 \<Rightarrow> nat \<Rightarrow> 'o \<Rightarrow> 'o"

text \<open>A buffer: \<open>None\<close> once it has been written out of its range.\<close>

fun out_buffer :: "nat \<Rightarrow> u8 \<Rightarrow> nat \<Rightarrow> bytes option \<Rightarrow> bytes option" where
  "out_buffer maxlen c idx None = None"
| "out_buffer maxlen c idx (Some buf) =
    (if idx < maxlen then (if idx < length buf then Some (buf[idx := c]) else None) else Some buf)"

definition out_null :: "nat \<Rightarrow> 'o out_fct" where
  "out_null maxlen c idx buf = buf"

definition out_fct :: "(u8 \<Rightarrow> 'a \<Rightarrow> 'a) \<Rightarrow> nat \<Rightarrow> 'a out_fct" where
  "out_fct fct maxlen c idx arg = fct c arg"

text \<open>\<open>out(c, buffer, idx++, maxlen)\<close>, and a loop of them.\<close>

fun emit :: "'o out_fct \<Rightarrow> u8 \<Rightarrow> nat \<times> 'o \<Rightarrow> nat \<times> 'o" where
  "emit out c (idx, buf) = (Suc idx, out c idx buf)"

definition emits :: "'o out_fct \<Rightarrow> bytes \<Rightarrow> nat \<times> 'o \<Rightarrow> nat \<times> 'o" where
  "emits out cs st = fold (emit out) cs st"

section \<open>Flags and arguments\<close>

record flags =
  fl_zeropad :: bool
  fl_left :: bool
  fl_plus :: bool
  fl_space :: bool
  fl_hash :: bool
  fl_uppercase :: bool
  fl_char :: bool
  fl_short :: bool
  fl_long :: bool
  fl_long_long :: bool
  fl_precision :: bool

definition no_flags :: flags where
  "no_flags = \<lparr>fl_zeropad = False, fl_left = False, fl_plus = False, fl_space = False, fl_hash = False,
    fl_uppercase = False, fl_char = False, fl_short = False, fl_long = False, fl_long_long = False, fl_precision = False\<rparr>"

text \<open>
  The variable arguments: 32-bit integers and pointers, 64-bit integers, doubles, and pointers to
  characters with the memory behind them.
\<close>

datatype va = W32 u32 | W64 u64 | Dbl real | Str bytes

fun va32 :: "va list \<Rightarrow> (u32 \<times> va list) option" where
  "va32 (W32 w # args) = Some (w, args)"
| "va32 _ = None"

fun va64 :: "va list \<Rightarrow> (u64 \<times> va list) option" where
  "va64 (W64 w # args) = Some (w, args)"
| "va64 _ = None"

fun va_double :: "va list \<Rightarrow> (real \<times> va list) option" where
  "va_double (Dbl r # args) = Some (r, args)"
| "va_double _ = None"

fun va_str :: "va list \<Rightarrow> (bytes \<times> va list) option" where
  "va_str (Str s # args) = Some (s, args)"
| "va_str _ = None"

definition printf_strlen :: "bytes \<Rightarrow> nat option" where
  "printf_strlen s = (if 0 \<in> set s then Some (length (c_str s)) else None)"

fun printf_atoi :: "u32 \<Rightarrow> bytes \<Rightarrow> u32 \<times> bytes" where
  "printf_atoi i [] = (i, [])"
| "printf_atoi i (c # f) = (if is_dec c then printf_atoi (i * 10 + (ucast c - 0x30)) f else (i, c # f))"

section \<open>Integers\<close>

abbreviation PRINTF_BUFFER_SIZE :: nat where "PRINTF_BUFFER_SIZE \<equiv> 32"

text \<open>
  The digits of a number, the least significant first, into what room is left of the buffer.  The buffers of
  \<open>_ntoa_long\<close>, \<open>_ntoa_long_long\<close> and \<open>_ftoa\<close> are lists: \<open>len\<close> is their length.
\<close>

definition ntoa_digit :: "bool \<Rightarrow> nat \<Rightarrow> u8" where
  "ntoa_digit upper digit =
    (if digit < 10 then of_nat (0x30 + digit) else of_nat ((if upper then 0x41 else 0x61) + digit - 10))"

fun ntoa_digits :: "nat \<Rightarrow> bool \<Rightarrow> nat \<Rightarrow> nat \<Rightarrow> bytes" where
  "ntoa_digits 0 upper base v = []"
| "ntoa_digits (Suc room) upper base v =
    ntoa_digit upper (v mod base) # (if v div base = 0 then [] else ntoa_digits room upper base (v div base))"

text \<open>\<open>while(len < n && len < SIZE) buf[len++] = '0'\<close>\<close>

definition pad_zeros :: "nat \<Rightarrow> bytes \<Rightarrow> bytes" where
  "pad_zeros n buf = buf @ replicate (min n PRINTF_BUFFER_SIZE - length buf) 0x30"

definition ntoa_hash :: "nat \<Rightarrow> nat \<Rightarrow> nat \<Rightarrow> flags \<Rightarrow> bytes \<Rightarrow> bytes" where
  "ntoa_hash base prec width fl buf =
    (let b1 = (if (length buf = prec \<or> length buf = width) \<and> 0 < length buf
               then (let b = butlast buf in if base = 16 \<and> 0 < length b then butlast b else b) else buf);
         b2 = (if base = 16 \<and> \<not> fl_uppercase fl \<and> length b1 < PRINTF_BUFFER_SIZE then b1 @ [0x78] else b1);
         b3 = (if base = 16 \<and> fl_uppercase fl \<and> length b2 < PRINTF_BUFFER_SIZE then b2 @ [0x58] else b2)
     in if length b3 < PRINTF_BUFFER_SIZE then b3 @ [0x30] else b3)"

text \<open>The sign, the same in \<open>_ntoa_format\<close> and \<open>_ftoa\<close>: \<open>len--\<close> at \<open>len = 0\<close> makes the later loops leave the buffer.\<close>

definition put_sign :: "bool \<Rightarrow> nat \<Rightarrow> flags \<Rightarrow> bytes \<Rightarrow> bytes option" where
  "put_sign negative width fl buf =
    (let shrink = (length buf = width \<and> (negative \<or> fl_plus fl \<or> fl_space fl))
     in if shrink \<and> buf = [] then None
        else (let b = (if shrink then butlast buf else buf)
              in Some (if length b < PRINTF_BUFFER_SIZE
                       then (if negative then b @ [0x2D] else if fl_plus fl then b @ [0x2B]
                             else if fl_space fl then b @ [0x20] else b)
                       else b)))"

text \<open>The last part of both: padding before, the buffer in reverse, padding after.\<close>

definition put_padded :: "'o out_fct \<Rightarrow> nat \<Rightarrow> flags \<Rightarrow> bytes \<Rightarrow> nat \<times> 'o \<Rightarrow> nat \<times> 'o" where
  "put_padded out width fl buf st =
    (let s1 = (if \<not> fl_left fl \<and> \<not> fl_zeropad fl then emits out (replicate (width - length buf) 0x20) st else st);
         s2 = emits out (rev buf) s1
     in if fl_left fl then emits out (replicate (width - fst s2) 0x20) s2 else s2)"

definition ntoa_format ::
  "'o out_fct \<Rightarrow> bytes \<Rightarrow> bool \<Rightarrow> nat \<Rightarrow> nat \<Rightarrow> nat \<Rightarrow> flags \<Rightarrow> nat \<times> 'o \<Rightarrow> (nat \<times> 'o) option" where
  "ntoa_format out buf negative base prec width fl st =
    (let b1 = (if \<not> fl_left fl then pad_zeros prec buf else buf);
         b2 = (if \<not> fl_left fl \<and> fl_zeropad fl then pad_zeros width b1 else b1);
         b3 = (if fl_hash fl then ntoa_hash base prec width fl b2 else b2)
     in map_option (\<lambda>b4. put_padded out width fl b4 st) (put_sign negative width fl b3))"

text \<open>\<open>_ntoa_long\<close> and \<open>_ntoa_long_long\<close> differ in the width of \<open>value\<close> only.\<close>

definition ntoa_long ::
  "'o out_fct \<Rightarrow> nat \<Rightarrow> bool \<Rightarrow> nat \<Rightarrow> nat \<Rightarrow> nat \<Rightarrow> flags \<Rightarrow> nat \<times> 'o \<Rightarrow> (nat \<times> 'o) option" where
  "ntoa_long out v negative base prec width fl st =
    ntoa_format out
      (if \<not> fl_precision fl \<or> v \<noteq> 0 then ntoa_digits PRINTF_BUFFER_SIZE (fl_uppercase fl) base v else [])
      negative base prec width fl st"

section \<open>Doubles\<close>

text \<open>
  The rounding of \<open>_ftoa\<close>: the whole part and the fraction, in units of \<open>10\<close> to the \<open>-prec\<close>.
\<close>

definition ftoa_round :: "real \<Rightarrow> nat \<Rightarrow> nat \<times> nat" where
  "ftoa_round v prec =
    (let whole = nat \<lfloor>v\<rfloor>; tmp = (v - of_nat whole) * 10 ^ prec; fr = nat \<lfloor>tmp\<rfloor>; diff = tmp - of_nat fr
     in if diff > 1 / 2 then (if 10 ^ prec \<le> Suc fr then (Suc whole, 0) else (whole, Suc fr))
        else if diff = 1 / 2 \<and> (fr = 0 \<or> odd fr) then (whole, Suc fr)
        else (whole, fr))"

definition ftoa_whole :: "real \<Rightarrow> nat \<Rightarrow> nat" where
  "ftoa_whole v whole =
    (let diff = v - of_nat whole
     in if diff > 1 / 2 then Suc whole else if diff = 1 / 2 \<and> odd whole then Suc whole else whole)"

text \<open>The fraction's digits, zeros for the rest of \<open>count\<close>, which is an \<open>unsigned int\<close> that may wrap, and the point.\<close>

definition ftoa_frac :: "nat \<Rightarrow> nat \<Rightarrow> bytes" where
  "ftoa_frac prec fr =
    (let ds = ntoa_digits PRINTF_BUFFER_SIZE False 10 fr;
         count = (of_nat prec - of_nat (length ds) :: u32);
         b = ds @ replicate (min (PRINTF_BUFFER_SIZE - length ds) (unat count)) 0x30
     in if length b < PRINTF_BUFFER_SIZE then b @ [0x2E] else b)"

definition ftoa :: "'o out_fct \<Rightarrow> real \<Rightarrow> nat \<Rightarrow> nat \<Rightarrow> flags \<Rightarrow> nat \<times> 'o \<Rightarrow> (nat \<times> 'o) option" where
  "ftoa out value0 prec0 width fl st =
    (let negative = value0 < 0; v = \<bar>value0\<bar>;
         prec = (if \<not> fl_precision fl then 6 else if prec0 > 9 then 9 else prec0);
         (whole, fr) = ftoa_round v prec
     in if v \<ge> 2147483648 \<or> whole > 2147483647 then None
        else if v > 2147483647 then Some (0, snd st)
        else (let (whole, buf) = (if prec = 0 then (ftoa_whole v whole, []) else (whole, ftoa_frac prec fr));
                  b1 = buf @ ntoa_digits (PRINTF_BUFFER_SIZE - length buf) False 10 whole;
                  b2 = (if \<not> fl_left fl \<and> fl_zeropad fl then pad_zeros width b1 else b1)
              in map_option (\<lambda>b3. put_padded out width fl b3 st) (put_sign negative width fl b2)))"

section \<open>Directives\<close>

fun eval_flags :: "bytes \<Rightarrow> flags \<Rightarrow> flags \<times> bytes" where
  "eval_flags [] fl = (fl, [])"
| "eval_flags (c # f) fl =
    (if c = 0x30 then eval_flags f (fl\<lparr>fl_zeropad := True\<rparr>)
     else if c = 0x2D then eval_flags f (fl\<lparr>fl_left := True\<rparr>)
     else if c = 0x2B then eval_flags f (fl\<lparr>fl_plus := True\<rparr>)
     else if c = 0x20 then eval_flags f (fl\<lparr>fl_space := True\<rparr>)
     else if c = 0x23 then eval_flags f (fl\<lparr>fl_hash := True\<rparr>)
     else (fl, c # f))"

fun eval_width :: "bytes \<Rightarrow> va list \<Rightarrow> flags \<Rightarrow> (u32 \<times> flags \<times> bytes \<times> va list) option" where
  "eval_width [] args fl = None"
| "eval_width (c # f) args fl =
    (if is_dec c then (let (w, f') = printf_atoi 0 (c # f) in Some (w, fl, f', args))
     else if c = 0x2A
     then Option.bind (va32 args) (\<lambda>(w, args').
            if sint w < 0 then (if w = 0x80000000 then None else Some (- w, fl\<lparr>fl_left := True\<rparr>, f, args'))
            else Some (w, fl, f, args'))
     else Some (0, fl, c # f, args))"

fun eval_precision :: "bytes \<Rightarrow> va list \<Rightarrow> flags \<Rightarrow> (u32 \<times> flags \<times> bytes \<times> va list) option" where
  "eval_precision [] args fl = None"
| "eval_precision (c # f) args fl =
    (if c = 0x2E
     then (case f of
             [] \<Rightarrow> None
           | d # f' \<Rightarrow>
               if is_dec d then (let (p, f'') = printf_atoi 0 f in Some (p, fl\<lparr>fl_precision := True\<rparr>, f'', args))
               else if d = 0x2A
               then map_option (\<lambda>(p, args'). (p, fl\<lparr>fl_precision := True\<rparr>, f', args')) (va32 args)
               else Some (0, fl\<lparr>fl_precision := True\<rparr>, f, args))
     else Some (0, fl, c # f, args))"

text \<open>\<open>ptrdiff_t\<close> and \<open>size_t\<close> are as wide as \<open>long\<close>, \<open>intmax_t\<close> is not.\<close>

fun eval_length :: "bytes \<Rightarrow> flags \<Rightarrow> (flags \<times> bytes) option" where
  "eval_length [] fl = None"
| "eval_length (c # f) fl =
    (if c = 0x6C
     then (case f of [] \<Rightarrow> None
           | d # f' \<Rightarrow> Some (if d = 0x6C then (fl\<lparr>fl_long := True, fl_long_long := True\<rparr>, f')
                            else (fl\<lparr>fl_long := True\<rparr>, f)))
     else if c = 0x68
     then (case f of [] \<Rightarrow> None
           | d # f' \<Rightarrow> Some (if d = 0x68 then (fl\<lparr>fl_short := True, fl_char := True\<rparr>, f')
                            else (fl\<lparr>fl_short := True\<rparr>, f)))
     else if c = 0x74 then Some (fl\<lparr>fl_long := True\<rparr>, f)
     else if c = 0x6A then Some (fl\<lparr>fl_long_long := True\<rparr>, f)
     else if c = 0x7A then Some (fl\<lparr>fl_long := True\<rparr>, f)
     else Some (fl, c # f))"

text \<open>\<open>value > 0 ? value : 0 - value\<close> for a signed integer of \<open>w\<close> bits.\<close>

definition abs_value :: "nat \<Rightarrow> int \<Rightarrow> nat option" where
  "abs_value w v = (if v = - (2 ^ (w - 1)) then None else Some (nat \<bar>v\<bar>))"

definition spec_signed ::
  "'o out_fct \<Rightarrow> nat \<Rightarrow> nat \<Rightarrow> flags \<Rightarrow> va list \<Rightarrow> nat \<times> 'o \<Rightarrow> (va list \<times> nat \<times> 'o) option" where
  "spec_signed out prec width fl args st =
    (let conv = (\<lambda>w v args'. Option.bind (abs_value w v) (\<lambda>a.
                   map_option (Pair args') (ntoa_long out a (v < 0) 10 prec width fl st)))
     in if fl_long_long fl then Option.bind (va64 args) (\<lambda>(v, args'). conv 64 (sint v) args')
        else if fl_long fl then Option.bind (va32 args) (\<lambda>(v, args'). conv 32 (sint v) args')
        else Option.bind (va32 args) (\<lambda>(v, args').
               conv 32 (if fl_char fl then uint (ucast v :: u8) else if fl_short fl then sint (ucast v :: u16) else sint v)
                 args'))"

definition spec_unsigned ::
  "'o out_fct \<Rightarrow> nat \<Rightarrow> nat \<Rightarrow> nat \<Rightarrow> flags \<Rightarrow> va list \<Rightarrow> nat \<times> 'o \<Rightarrow> (va list \<times> nat \<times> 'o) option" where
  "spec_unsigned out base prec width fl args st =
    (let conv = (\<lambda>v args'. map_option (Pair args') (ntoa_long out v False base prec width fl st))
     in if fl_long_long fl then Option.bind (va64 args) (\<lambda>(v, args'). conv (unat v) args')
        else if fl_long fl then Option.bind (va32 args) (\<lambda>(v, args'). conv (unat v) args')
        else Option.bind (va32 args) (\<lambda>(v, args').
               conv (if fl_char fl then unat (ucast v :: u8) else if fl_short fl then unat (ucast v :: u16) else unat v)
                 args'))"

definition spec_int ::
  "'o out_fct \<Rightarrow> u8 \<Rightarrow> nat \<Rightarrow> nat \<Rightarrow> flags \<Rightarrow> va list \<Rightarrow> nat \<times> 'o \<Rightarrow> (va list \<times> nat \<times> 'o) option" where
  "spec_int out c prec width fl args st =
    (let base = (if c = 0x78 \<or> c = 0x58 then 16 else if c = 0x6F then 8 else if c = 0x62 then 2 else 10);
         f1 = (if base = 2 \<or> base = 10 then fl\<lparr>fl_hash := False\<rparr> else fl);
         f2 = (if c = 0x58 then f1\<lparr>fl_uppercase := True\<rparr> else f1);
         f3 = (if c \<noteq> 0x69 \<and> c \<noteq> 0x64 then f2\<lparr>fl_plus := False, fl_space := False\<rparr> else f2)
     in if c = 0x69 \<or> c = 0x64 then spec_signed out prec width f3 args st
        else spec_unsigned out base prec width f3 args st)"

definition spec_char :: "'o out_fct \<Rightarrow> nat \<Rightarrow> flags \<Rightarrow> va list \<Rightarrow> nat \<times> 'o \<Rightarrow> (va list \<times> nat \<times> 'o) option" where
  "spec_char out width fl args st =
    Option.bind (va32 args) (\<lambda>(v, args').
      (let pad = replicate (width - 1) 0x20;
           s1 = (if \<not> fl_left fl then emits out pad st else st);
           s2 = emit out (ucast v) s1
       in Some (args', if fl_left fl then emits out pad s2 else s2)))"

definition spec_str :: "'o out_fct \<Rightarrow> nat \<Rightarrow> nat \<Rightarrow> flags \<Rightarrow> va list \<Rightarrow> nat \<times> 'o \<Rightarrow> (va list \<times> nat \<times> 'o) option" where
  "spec_str out prec width fl args st =
    Option.bind (va_str args) (\<lambda>(p, args'). Option.bind (printf_strlen p) (\<lambda>l0.
      (let l = (if fl_precision fl then min l0 prec else l0);
           pad = replicate (width - l) 0x20;
           s1 = (if \<not> fl_left fl then emits out pad st else st);
           s2 = emits out (if fl_precision fl then take prec (c_str p) else c_str p) s1
       in Some (args', if fl_left fl then emits out pad s2 else s2))))"

definition spec_ptr :: "'o out_fct \<Rightarrow> nat \<Rightarrow> flags \<Rightarrow> va list \<Rightarrow> nat \<times> 'o \<Rightarrow> (va list \<times> nat \<times> 'o) option" where
  "spec_ptr out prec fl args st =
    Option.bind (va32 args) (\<lambda>(v, args').
      map_option (Pair args') (ntoa_long out (unat v) False 16 prec 8 (fl\<lparr>fl_zeropad := True, fl_uppercase := True\<rparr>) st))"

definition specifier ::
  "'o out_fct \<Rightarrow> u8 \<Rightarrow> nat \<Rightarrow> nat \<Rightarrow> flags \<Rightarrow> va list \<Rightarrow> nat \<times> 'o \<Rightarrow> (va list \<times> nat \<times> 'o) option" where
  "specifier out c prec width fl args st =
    (if c \<in> {0x64, 0x69, 0x75, 0x78, 0x58, 0x6F, 0x62} then spec_int out c prec width fl args st
     else if c = 0x66 \<or> c = 0x46
     then Option.bind (va_double args) (\<lambda>(v, args'). map_option (Pair args') (ftoa out v prec width fl st))
     else if c = 0x63 then spec_char out width fl args st
     else if c = 0x73 then spec_str out prec width fl args st
     else if c = 0x70 then spec_ptr out prec fl args st
     else Some (args, emit out c st))"

text \<open>
  What stands after a percent sign up to its letter: the rest of the format, the letter, precision, width, flags
  and the arguments left; then the whole directive.
\<close>

definition read_directive :: "bytes \<Rightarrow> va list \<Rightarrow> (bytes \<times> u8 \<times> u32 \<times> u32 \<times> flags \<times> va list) option" where
  "read_directive f args =
    (let (fl1, f1) = eval_flags f no_flags
     in Option.bind (eval_width f1 args fl1) (\<lambda>(width, fl2, f2, args2).
        Option.bind (eval_precision f2 args2 fl2) (\<lambda>(prec, fl3, f3, args3).
        Option.bind (eval_length f3 fl3) (\<lambda>(fl4, f4).
          (case f4 of [] \<Rightarrow> None | c # f5 \<Rightarrow> Some (f5, c, prec, width, fl4, args3))))))"

definition directive :: "'o out_fct \<Rightarrow> bytes \<Rightarrow> va list \<Rightarrow> nat \<times> 'o \<Rightarrow> (bytes \<times> va list \<times> nat \<times> 'o) option" where
  "directive out f args st =
    Option.bind (read_directive f args) (\<lambda>(f', c, prec, width, fl, args').
      map_option (Pair f') (specifier out c (unat prec) (unat width) fl args' st))"

section \<open>The formats\<close>

lemma length_eval_flags: "length (snd (eval_flags f fl)) \<le> length f"
  by (induction f arbitrary: fl) (auto simp: le_SucI)

lemma length_printf_atoi: "length (snd (printf_atoi i f)) \<le> length f"
  by (induction f arbitrary: i) (auto simp: le_SucI)

lemma length_eval_width: "eval_width f args fl = Some (w, fl', f', args') \<Longrightarrow> length f' \<le> length f"
  using length_printf_atoi [of 0 f]
  by (cases f) (auto simp del: printf_atoi.simps split: if_splits prod.splits bind_splits)

lemma length_eval_precision: "eval_precision f args fl = Some (p, fl', f', args') \<Longrightarrow> length f' \<le> length f"
  using length_printf_atoi [of 0 "tl f"]
  by (cases f) (auto simp del: printf_atoi.simps split: if_splits prod.splits list.splits)

lemma length_eval_length: "eval_length f fl = Some (fl', f') \<Longrightarrow> length f' \<le> length f"
  by (cases f) (auto split: if_splits list.splits)

text \<open>A directive that is read has its parts one after the other.\<close>

lemma read_directive_parts:
  assumes "read_directive f args = Some (f', c, p, w, fl4, a3)"
  obtains fl1 f1 fl2 f2 a2 fl3 f3 where
    "eval_flags f no_flags = (fl1, f1)" "eval_width f1 args fl1 = Some (w, fl2, f2, a2)"
    "eval_precision f2 a2 fl2 = Some (p, fl3, f3, a3)" "eval_length f3 fl3 = Some (fl4, c # f')"
proof -
  obtain fl1 f1 where 1: "eval_flags f no_flags = (fl1, f1)" by fastforce
  obtain w' fl2 f2 a2 where 2: "eval_width f1 args fl1 = Some (w', fl2, f2, a2)"
    using assms 1 by (cases "eval_width f1 args fl1") (auto simp: read_directive_def)
  obtain p' fl3 f3 a3' where 3: "eval_precision f2 a2 fl2 = Some (p', fl3, f3, a3')"
    using assms 1 2 by (cases "eval_precision f2 a2 fl2") (auto simp: read_directive_def)
  obtain fl4' f4 where 4: "eval_length f3 fl3 = Some (fl4', f4)"
    using assms 1 2 3 by (cases "eval_length f3 fl3") (auto simp: read_directive_def)
  show ?thesis
    using that [of fl1 f1 fl2 f2 a2 fl3 f3] 1 2 3 4 assms by (cases f4) (auto simp: read_directive_def)
qed

lemma read_directive_shorter: "read_directive f args = Some (f', r) \<Longrightarrow> length f' < length f"
proof (cases r)
  fix c p w fl4 a3
  assume "read_directive f args = Some (f', r)" "r = (c, p, w, fl4, a3)"
  then obtain fl1 f1 fl2 f2 a2 fl3 f3 where
    "eval_flags f no_flags = (fl1, f1)" "eval_width f1 args fl1 = Some (w, fl2, f2, a2)"
    "eval_precision f2 a2 fl2 = Some (p, fl3, f3, a3)" "eval_length f3 fl3 = Some (fl4, c # f')"
    by (auto elim: read_directive_parts)
  then show ?thesis
    using length_eval_flags [of f no_flags] length_eval_width [of f1] length_eval_precision [of f2] length_eval_length [of f3]
    by fastforce
qed

lemma directive_shorter: "directive out f args st = Some (f', r) \<Longrightarrow> length f' < length f"
  by (cases "read_directive f args") (auto simp: directive_def dest: read_directive_shorter)

function vsnprintf_loop :: "'o out_fct \<Rightarrow> bytes \<Rightarrow> va list \<Rightarrow> nat \<times> 'o \<Rightarrow> (nat \<times> 'o) option" where
  "vsnprintf_loop out [] args st = None"
| "vsnprintf_loop out (c # f) args st =
    (if c = 0 then Some st
     else if c \<noteq> 0x25 then vsnprintf_loop out f args (emit out c st)
     else (case directive out f args st of
             None \<Rightarrow> None
           | Some (f', args', st') \<Rightarrow> vsnprintf_loop out f' args' st'))"
  by pat_completeness auto

termination
  by (relation "measure (\<lambda>(out, f, args, st). length f)") (auto dest: directive_shorter)

text \<open>\<open>null\<close> tells whether the buffer is a null pointer.\<close>

definition vsnprintf_core ::
  "bool \<Rightarrow> (nat \<Rightarrow> 'o out_fct) \<Rightarrow> nat \<Rightarrow> bytes \<Rightarrow> va list \<Rightarrow> 'o \<Rightarrow> (nat \<times> 'o) option" where
  "vsnprintf_core null out maxlen fmt args buf =
    (let out' = (if null then out_null maxlen else out maxlen)
     in Option.bind (vsnprintf_loop out' fmt args (0, buf)) (\<lambda>(idx, buf').
          if idx < 2147483648 then Some (idx, out' 0 (if idx < maxlen then idx else maxlen - 1) buf') else None))"

text \<open>The result is what is returned and the buffer.\<close>

definition printf_vsnprintf :: "bytes option \<Rightarrow> nat \<Rightarrow> bytes \<Rightarrow> va list \<Rightarrow> (nat \<times> bytes option) option" where
  "printf_vsnprintf buffer count fmt args =
    (case buffer of
       None \<Rightarrow> map_option (\<lambda>(n, _). (n, None)) (vsnprintf_core True out_buffer count fmt args None)
     | Some buf \<Rightarrow>
         Option.bind (vsnprintf_core False out_buffer count fmt args (Some buf)) (\<lambda>(n, r).
           map_option (\<lambda>buf'. (n, Some buf')) r))"

definition printf_snprintf :: "bytes option \<Rightarrow> nat \<Rightarrow> bytes \<Rightarrow> va list \<Rightarrow> (nat \<times> bytes option) option" where
  "printf_snprintf buffer count fmt args = printf_vsnprintf buffer count fmt args"

definition printf_sprintf :: "bytes option \<Rightarrow> bytes \<Rightarrow> va list \<Rightarrow> (nat \<times> bytes option) option" where
  "printf_sprintf buffer fmt args = printf_vsnprintf buffer 4294967295 fmt args"

definition fctprintf :: "(u8 \<Rightarrow> 'a \<Rightarrow> 'a) \<Rightarrow> 'a \<Rightarrow> bytes \<Rightarrow> va list \<Rightarrow> (nat \<times> 'a) option" where
  "fctprintf fct arg fmt args = vsnprintf_core False (out_fct fct) 4294967295 fmt args arg"

section \<open>What is written does not depend on where it goes\<close>

text \<open>
  The output that collects the text.  A conversion writes to any output what it collects from the same
  \<open>idx\<close>: by these equations the text of a format is computed once for all outputs.
\<close>

definition out_text :: "bytes out_fct" where
  "out_text c idx s = s @ [c]"

lemma emits_simps [simp]: "emits out [] st = st" "emits out (c # cs) st = emits out cs (emit out c st)"
  by (simp_all add: emits_def)

lemma emits_append: "emits out (xs @ ys) st = emits out ys (emits out xs st)"
  by (simp add: emits_def)

lemma fst_emits [simp]: "fst (emits out cs st) = fst st + length cs"
  by (induction cs arbitrary: st) (simp_all, case_tac st, simp)

lemma emits_out_text: "emits out_text cs (i, s) = (i + length cs, s @ cs)"
  by (induction cs arbitrary: i s) (simp_all add: out_text_def)

lemma emit_emits: "emit out c st = emits out [c] st"
  by simp

definition padded :: "nat \<Rightarrow> nat \<Rightarrow> flags \<Rightarrow> bytes \<Rightarrow> bytes" where
  "padded i width fl buf =
    (if \<not> fl_left fl \<and> \<not> fl_zeropad fl then replicate (width - length buf) 0x20 else []) @ rev buf
    @ (if fl_left fl then replicate (width - (i + length buf)) 0x20 else [])"

lemma put_padded_emits: "put_padded out width fl buf st = emits out (padded (fst st) width fl buf) st"
  by (auto simp: put_padded_def padded_def emits_append Let_def)

definition ntoa_buf :: "nat \<Rightarrow> bool \<Rightarrow> nat \<Rightarrow> nat \<Rightarrow> nat \<Rightarrow> flags \<Rightarrow> bytes option" where
  "ntoa_buf v negative base prec width fl =
    (let buf = (if \<not> fl_precision fl \<or> v \<noteq> 0 then ntoa_digits PRINTF_BUFFER_SIZE (fl_uppercase fl) base v else []);
         b1 = (if \<not> fl_left fl then pad_zeros prec buf else buf);
         b2 = (if \<not> fl_left fl \<and> fl_zeropad fl then pad_zeros width b1 else b1);
         b3 = (if fl_hash fl then ntoa_hash base prec width fl b2 else b2)
     in put_sign negative width fl b3)"

lemma ntoa_long_emits:
  "ntoa_long out v negative base prec width fl st =
    map_option (\<lambda>b. emits out (padded (fst st) width fl b) st) (ntoa_buf v negative base prec width fl)"
  by (simp add: ntoa_long_def ntoa_format_def ntoa_buf_def put_padded_emits Let_def)

text \<open>\<open>written out st r\<close>: the collected result \<open>r\<close>, written to \<open>out\<close>.\<close>

definition written :: "'o out_fct \<Rightarrow> nat \<times> 'o \<Rightarrow> ('a \<times> nat \<times> bytes) option \<Rightarrow> ('a \<times> nat \<times> 'o) option" where
  "written out st r = map_option (\<lambda>(a, st'). (a, emits out (snd st') st)) r"

lemma ntoa_long_written:
  "map_option (Pair a) (ntoa_long out v negative base prec width fl (i, o')) =
    written out (i, o') (map_option (Pair a) (ntoa_long out_text v negative base prec width fl (i, [])))"
  by (simp add: written_def ntoa_long_emits option.map_comp comp_def emits_out_text)

definition va_small :: "va \<Rightarrow> bool" where
  "va_small a = (case a of Dbl r \<Rightarrow> \<bar>r\<bar> \<le> 2147483647 | _ \<Rightarrow> True)"

lemma ftoa_written:
  "\<bar>v\<bar> \<le> 2147483647 \<Longrightarrow> map_option (Pair a) (ftoa out v prec width fl (i, o')) =
    written out (i, o') (map_option (Pair a) (ftoa out_text v prec width fl (i, [])))"
  by (auto simp: written_def ftoa_def Let_def put_padded_emits option.map_comp comp_def emits_out_text split: prod.splits)

lemma spec_signed_written:
  "spec_signed out prec width fl args (i, o') = written out (i, o') (spec_signed out_text prec width fl args (i, []))"
proof -
  have b: "Option.bind (abs_value n v) (\<lambda>a. map_option (Pair x) (ntoa_long out a b 10 prec width fl (i, o')))
      = written out (i, o') (Option.bind (abs_value n v) (\<lambda>a. map_option (Pair x) (ntoa_long out_text a b 10 prec width fl (i, []))))"
    for n v x b
    by (cases "abs_value n v") (simp_all add: ntoa_long_written [where out = out], simp add: written_def)
  have n: "written out (i, o') None = None" by (simp add: written_def)
  show ?thesis
    by (cases "va64 args"; cases "va32 args") (auto simp: spec_signed_def Let_def b n simp del: bind_map_option)
qed

lemma spec_unsigned_written:
  "spec_unsigned out base prec width fl args (i, o') =
    written out (i, o') (spec_unsigned out_text base prec width fl args (i, []))"
proof -
  have n: "written out (i, o') None = None" by (simp add: written_def)
  show ?thesis
    by (cases "va64 args"; cases "va32 args") (auto simp: spec_unsigned_def Let_def ntoa_long_written [where out = out] n)
qed

lemma specifier_written:
  assumes "list_all va_small args"
  shows "specifier out c prec width fl args (i, o') = written out (i, o') (specifier out_text c prec width fl args (i, []))"
proof -
  have n: "written out (i, o') None = None" by (simp add: written_def)
  have int: "spec_int out c prec width fl args (i, o') = written out (i, o') (spec_int out_text c prec width fl args (i, []))"
    unfolding spec_int_def Let_def by (simp only: spec_signed_written [where out = out] spec_unsigned_written [where out = out] split: if_split) simp
  have ptr: "spec_ptr out prec fl args (i, o') = written out (i, o') (spec_ptr out_text prec fl args (i, []))"
    by (cases "va32 args") (auto simp: spec_ptr_def n ntoa_long_written [where out = out])
  have chr: "spec_char out width fl args (i, o') = written out (i, o') (spec_char out_text width fl args (i, []))"
    by (cases "va32 args") (auto simp: spec_char_def n written_def Let_def emit_emits emits_append [symmetric] emits_out_text
      simp del: emits_simps)
  have str: "spec_str out prec width fl args (i, o') = written out (i, o') (spec_str out_text prec width fl args (i, []))"
    by (cases "va_str args"; cases "printf_strlen (fst (the (va_str args)))")
      (auto simp: spec_str_def n written_def Let_def emits_append [symmetric] emits_out_text simp del: emits_simps)
  have dbl: "Option.bind (va_double args) (\<lambda>(v, args'). map_option (Pair args') (ftoa out v prec width fl (i, o')))
      = written out (i, o') (Option.bind (va_double args) (\<lambda>(v, args'). map_option (Pair args') (ftoa out_text v prec width fl (i, []))))"
  proof (cases "va_double args")
    case (Some x)
    then have "\<bar>fst x\<bar> \<le> 2147483647" using assms by (cases args rule: va_double.cases) (auto simp: va_small_def)
    then show ?thesis using Some by (cases x) (simp add: ftoa_written [where out = out])
  qed (simp add: n)
  have oth: "Some (args, emit out c (i, o')) = written out (i, o') (Some (args, emit out_text c (i, [])))"
    by (simp add: written_def out_text_def)
  show ?thesis unfolding specifier_def by (simp only: int ptr chr str dbl oth split: if_split) simp
qed

lemma va_subset:
  "va32 args = Some (w, r) \<Longrightarrow> set r \<subseteq> set args" "va64 args = Some (v, r) \<Longrightarrow> set r \<subseteq> set args"
  "va_double args = Some (d, r) \<Longrightarrow> set r \<subseteq> set args" "va_str args = Some (s, r) \<Longrightarrow> set r \<subseteq> set args"
  subgoal by (cases args rule: va32.cases) auto
  subgoal by (cases args rule: va64.cases) auto
  subgoal by (cases args rule: va_double.cases) auto
  subgoal by (cases args rule: va_str.cases) auto
  done

lemma eval_width_args: "eval_width f args fl = Some (w, fl', f', args') \<Longrightarrow> set args' \<subseteq> set args"
  by (cases f; cases "va32 args") (auto simp del: printf_atoi.simps split: if_splits prod.splits dest: va_subset)

lemma eval_precision_args: "eval_precision f args fl = Some (w, fl', f', args') \<Longrightarrow> set args' \<subseteq> set args"
  by (cases f; cases "va32 args") (auto simp del: printf_atoi.simps split: if_splits prod.splits list.splits dest: va_subset)

lemma read_directive_args: "read_directive f args = Some (f', c, p, w, fl, args') \<Longrightarrow> set args' \<subseteq> set args"
  by (erule read_directive_parts) (blast dest: eval_width_args eval_precision_args)

lemma directive_written:
  assumes "list_all va_small args"
  shows "directive out f args (i, o') =
    map_option (\<lambda>(f', args', st). (f', args', emits out (snd st) (i, o'))) (directive out_text f args (i, []))"
proof (cases "read_directive f args")
  case (Some r)
  obtain f' c p w fl args' where r: "r = (f', c, p, w, fl, args')" by (cases r)
  have "list_all va_small args'" using assms read_directive_args [of f args] Some r by (auto simp: list_all_iff)
  then show ?thesis
    by (simp add: directive_def Some r specifier_written [where out = out] written_def option.map_comp comp_def case_prod_unfold)
qed (simp add: directive_def)


lemma specifier_args: "specifier out c prec width fl args st = Some (args', st') \<Longrightarrow> set args' \<subseteq> set args"
  unfolding specifier_def spec_int_def spec_signed_def spec_unsigned_def spec_ptr_def spec_char_def spec_str_def Let_def
  by (auto simp: bind_eq_Some_conv dest!: va_subset split: if_splits)

lemma directive_args: "directive out f args st = Some (f', args', st') \<Longrightarrow> set args' \<subseteq> set args"
  by (cases "read_directive f args") (auto simp: directive_def dest!: read_directive_args specifier_args)

text \<open>A whole format: first for collecting onto some text, then for every output.\<close>

lemma loop_step:
  assumes out: "\<And>f' args' j u. length f' < length f \<Longrightarrow> list_all va_small args' \<Longrightarrow>
      vsnprintf_loop out f' args' (j, u) = map_option (\<lambda>st. emits out (snd st) (j, u)) (vsnprintf_loop out_text f' args' (j, []))"
    and col: "\<And>f' args' j u. length f' < length f \<Longrightarrow> list_all va_small args' \<Longrightarrow>
      vsnprintf_loop out_text f' args' (j, u) = map_option (\<lambda>st. emits out_text (snd st) (j, u)) (vsnprintf_loop out_text f' args' (j, []))"
    and small: "list_all va_small args"
  shows "vsnprintf_loop out f args (i, o') = map_option (\<lambda>st. emits out (snd st) (i, o')) (vsnprintf_loop out_text f args (i, []))"
proof (cases f)
  case (Cons c g)
  consider "c = 0" | "c \<noteq> 0" "c \<noteq> 0x25" | "c \<noteq> 0" "c = 0x25" by blast
  then show ?thesis
  proof cases
    case 2
    have l: "length g < length f" using Cons by simp
    show ?thesis
      using 2 by (simp add: Cons out [OF l small] col [OF l small, where u = "[c]"] out_text_def [of c] option.map_comp comp_def
          emits_out_text)
  next
    case 3
    show ?thesis
    proof (cases "directive out_text g args (i, [])")
      case None
      then show ?thesis using 3 by (simp add: Cons directive_written [OF small, where out = out])
    next
      case (Some r)
      obtain f' args' j t where r: "r = (f', args', j, t)" by (cases r)
      have l: "length f' < length f" using directive_shorter Some r Cons by fastforce
      have s: "list_all va_small args'" using directive_args Some r small by (fastforce simp: list_all_iff)
      have j: "j = i + length t"
        using directive_written [OF small, where out = out_text and o' = "[]" and f = g and i = i] Some r by (simp add: emits_out_text)
      obtain u where u: "emits out t (i, o') = (j, u)" using fst_emits [of out t "(i, o')"] j by (cases "emits out t (i, o')") simp
      show ?thesis
        using 3 by (simp add: Cons directive_written [OF small, where out = out] Some r out [OF l s] col [OF l s, where u = t]
            option.map_comp comp_def emits_out_text emits_append u)
    qed
  qed (simp add: Cons)
qed simp

lemma loop_text:
  "list_all va_small args \<Longrightarrow> vsnprintf_loop out_text f args (i, u) =
    map_option (\<lambda>st. emits out_text (snd st) (i, u)) (vsnprintf_loop out_text f args (i, []))"
proof (induction "length f" arbitrary: f args i u rule: less_induct)
  case less
  show ?case by (rule loop_step [OF less(1) less(1) less(2)])
qed

lemma loop_written:
  "list_all va_small args \<Longrightarrow> vsnprintf_loop out f args (i, u) =
    map_option (\<lambda>st. emits out (snd st) (i, u)) (vsnprintf_loop out_text f args (i, []))"
proof (induction "length f" arbitrary: f args i u rule: less_induct)
  case less
  show ?case by (rule loop_step [OF less(1) loop_text less(2)])
qed

text \<open>The text of a format that starts at \<open>idx\<close>.\<close>

definition printf_text :: "nat \<Rightarrow> bytes \<Rightarrow> va list \<Rightarrow> bytes option" where
  "printf_text i fmt args = map_option snd (vsnprintf_loop out_text fmt args (i, []))"

lemma loop_emits:
  "list_all va_small args \<Longrightarrow>
    vsnprintf_loop out fmt args st = map_option (\<lambda>t. emits out t st) (printf_text (fst st) fmt args)"
  by (cases st) (simp add: loop_written [where out = out] printf_text_def option.map_comp comp_def)

lemma emits_out_buffer:
  "n \<le> length b \<Longrightarrow> emits (out_buffer n) t (0, Some b) = (length t, Some (take n t @ drop (min n (length t)) b))"
proof (induction t rule: rev_induct)
  case (snoc c t)
  show ?case
  proof (cases "length t < n")
    case True
    have "(t @ drop (length t) b)[length t := c] = t @ c # drop (Suc (length t)) b"
      using True snoc.prems by (simp add: list_update_append Cons_nth_drop_Suc [symmetric])
    then show ?thesis using True snoc by (simp add: emits_append min_def le_Suc_eq)
  qed (use snoc in \<open>auto simp: emits_append min_def\<close>)
qed simp


section \<open>Into a buffer\<close>

lemma vsnprintf_written:
  assumes "list_all va_small args" "printf_text 0 fmt args = Some t" "length t < 2147483648" "0 < n" "n \<le> length b"
  shows "printf_vsnprintf (Some b) n fmt args =
    Some (length t, Some (take (n - 1) t @ 0 # drop (Suc (min (n - 1) (length t))) b))"
proof -
  have e: "emits (out_buffer n) t (0, Some b) = (length t, Some (take n t @ drop (min n (length t)) b))"
    by (rule emits_out_buffer) (rule assms)
  have "(take n t @ drop (min n (length t)) b)[(if length t < n then length t else n - 1) := 0]
      = take (n - 1) t @ 0 # drop (Suc (min (n - 1) (length t))) b"
  proof (cases "length t < n")
    case True
    then have "drop (length t) b = b ! length t # drop (Suc (length t)) b" using assms(5) by (simp add: Cons_nth_drop_Suc)
    moreover have "min (n - 1) (length t) = length t" using True by simp
    ultimately show ?thesis using True by simp
  next
    case False
    then have "take n t = take (n - 1) t @ [t ! (n - 1)]" using assms(4) by (cases n) (simp_all add: take_Suc_conv_app_nth)
    moreover have "length (take (n - 1) t) = n - 1" "min n (length t) = n" "min (n - 1) (length t) = n - 1" using False by simp_all
    moreover have "Suc (n - 1) = n" using assms(4) by simp
    ultimately show ?thesis using False by (simp only: list_update_append append_assoc if_False) simp
  qed
  then show ?thesis
    using assms(3,4,5)
    by (auto simp: printf_vsnprintf_def vsnprintf_core_def loop_emits [OF assms(1)] assms(2) e)
qed


section \<open>Decimal numbers\<close>

lemma rev_ntoa_digits: "0 < room \<Longrightarrow> v < 10 ^ room \<Longrightarrow> rev (ntoa_digits room upper 10 v) = dec_digits v"
proof (induction room arbitrary: v)
  case (Suc room)
  show ?case
  proof (cases "v < 10")
    case True
    then show ?thesis by (simp add: ntoa_digit_def dec_digits.simps [of v])
  next
    case False
    then have "0 < room" using Suc.prems by (cases room) auto
    moreover have "v div 10 < 10 ^ room" using Suc.prems(2) by (simp add: div_less_iff_less_mult mult.commute)
    ultimately have "rev (ntoa_digits room upper 10 (v div 10)) = dec_digits (v div 10)" by (rule Suc.IH)
    then show ?thesis using False by (simp add: ntoa_digit_def dec_digits.simps [of v] div_eq_0_iff)
  qed
qed simp

lemma length_ntoa_digits_10: "v < 10 ^ 10 \<Longrightarrow> length (ntoa_digits 32 upper 10 v) \<le> 10"
  using rev_ntoa_digits [of 32 v upper] length_dec_digits [of v 10] length_rev [of "ntoa_digits 32 upper 10 v"] by simp

text \<open>A plain conversion: no flag but \<open>l\<close>, no width and no precision.\<close>

lemma plain_ntoa:
  assumes "v < 10 ^ 10"
  shows "ntoa_long out v neg 10 0 0 (no_flags\<lparr>fl_long := g\<rparr>) st = Some (emits out ((if neg then [0x2D] else []) @ dec_digits v) st)"
proof -
  define ds where "ds = ntoa_digits 32 False 10 v"
  have r: "rev ds = dec_digits v" unfolding ds_def using assms by (intro rev_ntoa_digits) simp_all
  have l: "length ds \<le> 10" unfolding ds_def using assms by (rule length_ntoa_digits_10)
  have n: "ds \<noteq> []" using r dec_digits_nonempty [of v] by auto
  have b: "ntoa_buf v neg 10 0 0 (no_flags\<lparr>fl_long := g\<rparr>) = Some (if neg then ds @ [0x2D] else ds)"
    using n l by (simp add: ntoa_buf_def ds_def [symmetric] no_flags_def pad_zeros_def put_sign_def Let_def)
  show ?thesis
    unfolding ntoa_long_emits b by (simp add: padded_def no_flags_def r)
qed

text \<open>A part of a message: some plain text and a number, signed or not, with or without \<open>l\<close>.\<close>

type_synonym msg_part = "bytes \<times> bool \<times> bool \<times> u32"

fun part_fmt :: "msg_part \<Rightarrow> bytes" where
  "part_fmt (l, sd, lng, w) = l @ 0x25 # (if lng then [0x6C] else []) @ [if sd then 0x64 else 0x75]"

fun part_arg :: "msg_part \<Rightarrow> va" where
  "part_arg (l, sd, lng, w) = W32 w"

fun part_text :: "msg_part \<Rightarrow> bytes" where
  "part_text (l, sd, lng, w) = l @ (if sd then int_digits (sint w) else dec_digits (unat w))"

fun part_ok :: "msg_part \<Rightarrow> bool" where
  "part_ok (l, sd, lng, w) \<longleftrightarrow> 0 \<notin> set l \<and> 0x25 \<notin> set l \<and> w \<noteq> 0x80000000"

lemma loop_plain:
  "0 \<notin> set l \<Longrightarrow> 0x25 \<notin> set l \<Longrightarrow> vsnprintf_loop out (l @ f) args st = vsnprintf_loop out f args (emits out l st)"
  by (induction l arbitrary: st) auto

lemma read_plain:
  "read_directive ((if lng then [0x6C] else []) @ (if sd then 0x64 else 0x75) # f) args
    = Some (f, (if sd then 0x64 else 0x75), 0, 0, no_flags\<lparr>fl_long := lng\<rparr>, args)"
  by (simp add: read_directive_def is_dec_def no_flags_def)

lemma abs_sint: "w \<noteq> (0x80000000 :: u32) \<Longrightarrow> abs_value 32 (sint w) = Some (nat \<bar>sint w\<bar>) \<and> nat \<bar>sint w\<bar> < 10 ^ 10"
proof -
  assume w: "w \<noteq> 0x80000000"
  have r: "- 2147483648 \<le> sint w" "sint w < 2147483648" using sint_greater_eq [of w] sint_less [of w] by simp_all
  have "sint w \<noteq> - 2147483648"
  proof
    assume "sint w = - 2147483648"
    then have "sint w = sint (0x80000000 :: u32)" by simp
    then show False using w word_eq_iff_signed by blast
  qed
  then show ?thesis using r by (simp add: abs_value_def nat_less_iff)
qed

lemma directive_number:
  assumes "w \<noteq> 0x80000000"
  shows "directive out ((if lng then [0x6C] else []) @ (if sd then 0x64 else 0x75) # f) (W32 w # args) st =
    Some (f, args, emits out (if sd then int_digits (sint w) else dec_digits (unat w)) st)"
proof -
  have u: "unat w < 10 ^ 10" using unat_u32_less [of w] by (rule less_trans) simp
  show ?thesis
    using abs_sint [OF assms] u
    by (auto simp: directive_def read_plain specifier_def spec_int_def spec_signed_def spec_unsigned_def Let_def no_flags_def
      plain_ntoa [unfolded no_flags_def, simplified] int_digits_def) (metis surj_pair)+
qed


lemma loop_parts:
  assumes "0 \<notin> set l" "0x25 \<notin> set l"
  shows "list_all part_ok ps \<Longrightarrow> vsnprintf_loop out (concat (map part_fmt ps) @ l @ [0]) (map part_arg ps) st
    = Some (emits out (concat (map part_text ps) @ l) st)"
proof (induction ps arbitrary: st)
  case (Cons p ps)
  obtain t sd lng w where p: "p = (t, sd, lng, w)" by (cases p)
  then show ?case
    using Cons directive_number [of w out lng sd]
    by (simp add: loop_plain emits_append del: if_split)
qed (use assms in \<open>simp add: loop_plain\<close>)

text \<open>A message of the firmware that is made of plain text and the conversions \<open>%d\<close>, \<open>%u\<close>, \<open>%ld\<close> and
  \<open>%lu\<close> is printed as that text with the decimal numbers in it, whatever the arguments (but for the least
  integer, whose negation is undefined).
\<close>

theorem printf_messages:
  assumes "list_all part_ok ps" "0 \<notin> set l" "0x25 \<notin> set l"
  shows "printf_text i (concat (map part_fmt ps) @ l @ [0]) (map part_arg ps) = Some (concat (map part_text ps) @ l)"
  using assms by (simp add: printf_text_def loop_parts emits_out_text)

section \<open>Two corner cases\<close>

lemma printf_text_example: "printf_text 0 (ascii ''%s=%d'' @ [0]) [Str (ascii ''ip'' @ [0]), W32 7] = Some (ascii ''ip=7'')"
  by code_simp

text \<open>The first digit of a negative number is lost when the width is as wide as its digits.\<close>

lemma printf_drops_digit: "printf_text 0 (ascii ''%4d'' @ [0]) [W32 (- 1234)] = Some (ascii ''-234'')"
  by code_simp

text \<open>
  A fraction that is rounded up from one half does not carry into the whole part: 0.95 with one decimal is
  printed as thirty zeros and a ten.
\<close>

lemma ftoa_round_half: "ftoa_round (19 / 20) (Suc 0) = (0, 10)"
  by (simp add: ftoa_round_def Let_def)

lemma ftoa_no_carry:
  "ftoa out_text (95 / 100) (Suc 0) 0 (no_flags\<lparr>fl_precision := True\<rparr>) (0, []) = Some (32, replicate 30 0x30 @ ascii ''10'')"
proof -
  have d: "ntoa_digits 32 False 10 10 = [0x30, 0x31]" by code_simp
  have f: "ftoa_frac (Suc 0) 10 = [0x30, 0x31] @ replicate 30 0x30" by (simp add: ftoa_frac_def d Let_def unsigned_minus_1_eq_mask mask_eq_exp_minus_1)
  show ?thesis
    by (simp add: ftoa_def ftoa_round_half f no_flags_def put_sign_def put_padded_emits padded_def emits_out_text Let_def ascii_def)
qed

section \<open>Witnesses\<close>


lemma printf_messages_witness:
  "printf_text 0 (ascii ''GW_%d.%lu|'' @ [0]) [W32 (- 10), W32 77] = Some (ascii ''GW_-10.77|'')"
proof -
  have "list_all part_ok [(ascii ''GW_'', True, False, - 10), (ascii ''.'', False, True, 77)]" by (simp add: ascii_def)
  note t = printf_messages [OF this, of "ascii ''|''" 0]
  show ?thesis using t by (simp add: ascii_def int_digits_def dec_digits.simps)
qed

end
