(* ===== verification/Console_Udp.thy ===== *)
theory Console_Udp
  imports Printf
begin

text \<open>
  The console over UDP (common/eth_con/console_udp.c): printing into datagrams, and the requests, each a
  command word with its arguments.  \<open>None\<close> is undefined behaviour: a write behind \<open>print_buf\<close> or behind the
  request's buffer, or a copy to the null pointer that lwIP returns when it is out of memory.

  What lwIP has memory for is a parameter: \<open>ram k n\<close>, a buffer of \<open>n\<close> bytes after \<open>k\<close> datagrams.  The commands'
  callbacks are parameters as well; they are given the memory behind \<open>param\<close>.
\<close>

section \<open>State\<close>

record con_udp =
  con_addr :: u32
  con_port :: u16
  print_buf :: bytes
  prev_request :: bytes
  prev_request_len :: nat
  prev_port :: u16
  con_stay_in_boot :: bool
  con_sent :: "(u32 \<times> u16 \<times> bytes) list"

definition con_boot :: con_udp where
  "con_boot = \<lparr>con_addr = 0, con_port = 0, print_buf = replicate 256 0, prev_request = replicate 256 0,
    prev_request_len = 0, prev_port = 0, con_stay_in_boot = False, con_sent = []\<rparr>"

text \<open>What the printing needs of the rest: lwIP's memory, the name of the program, the address and the clock.\<close>

record con_env =
  env_ram :: "nat \<Rightarrow> nat \<Rightarrow> bool"
  env_dev :: bytes
  env_ip :: "u8 \<times> u8 \<times> u8 \<times> u8"
  env_time :: u64

section \<open>Printing\<close>

text \<open>A format or a name in the program's memory, with its terminator.\<close>

definition lit :: "string \<Rightarrow> bytes" where
  "lit s = ascii s @ [0]"

definition con_print :: "con_env \<Rightarrow> bytes \<Rightarrow> va list \<Rightarrow> con_udp \<Rightarrow> con_udp option" where
  "con_print env fmt args s =
    (if con_port s = 0 then Some s
     else Option.bind (printf_vsnprintf (Some (print_buf s)) (256 - 1) fmt args) (\<lambda>(act_len, b). Option.bind b (\<lambda>buf.
       if act_len < 256 \<and> env_ram env (length (con_sent s)) (Suc act_len)
       then (let buf' = buf[act_len := 0]
             in Some (s\<lparr>print_buf := buf', con_sent := con_sent s @ [(con_addr s, con_port s, take (Suc act_len) buf')]\<rparr>))
       else None)))"

definition ip_args :: "u8 \<times> u8 \<times> u8 \<times> u8 \<Rightarrow> va list" where
  "ip_args ip = (case ip of (a, b, c, d) \<Rightarrow> [W32 (ucast a), W32 (ucast b), W32 (ucast c), W32 (ucast d)])"

text \<open>\<open>DT_DATA_MS\<close> without the days and with them.\<close>

definition dt_ms_simple :: "u64 \<Rightarrow> va list" where
  "dt_ms_simple x = [W32 (ucast ((x mod 86400000) div 3600000)), W32 (ucast ((x mod 3600000) div 60000)),
    W32 (ucast ((x mod 60000) div 1000)), W32 (ucast (x mod 1000))]"

definition dt_ms :: "u64 \<Rightarrow> va list" where
  "dt_ms x = W32 (ucast (x div 86400000)) # dt_ms_simple x"

definition print_prefix :: "con_env \<Rightarrow> con_udp \<Rightarrow> con_udp option" where
  "print_prefix env s =
    (if 86400000 \<le> env_time env
     then con_print env (ascii ''['' @ env_dev env @ lit '' %d.%d.%d.%d %ldd %02ld:%02ld:%02ld.%03ld]:'')
       (ip_args (env_ip env) @ dt_ms (env_time env)) s
     else con_print env (ascii ''['' @ env_dev env @ lit '' %d.%d.%d.%d %02ld:%02ld:%02ld.%03ld]:'')
       (ip_args (env_ip env) @ dt_ms_simple (env_time env)) s)"

definition con_PRINTF :: "con_env \<Rightarrow> bytes \<Rightarrow> va list \<Rightarrow> con_udp \<Rightarrow> con_udp option" where
  "con_PRINTF env fmt args s = Option.bind (print_prefix env s) (con_print env fmt args)"

section \<open>Requests\<close>

fun strncmp_eq :: "nat \<Rightarrow> bytes \<Rightarrow> bytes \<Rightarrow> bool" where
  "strncmp_eq 0 a b = True"
| "strncmp_eq (Suc n) (x # a) (y # b) = (x = y \<and> (x = 0 \<or> strncmp_eq n a b))"
| "strncmp_eq (Suc n) _ _ = False"

text \<open>
  A callback: \<open>param\<close>, the length, and the error code it may set, on the console and the rest \<open>'w\<close> of the
  program.  A name is its characters without the terminator.
\<close>

type_synonym 'w con_cb = "bytes option \<Rightarrow> int \<Rightarrow> int \<Rightarrow> con_udp \<times> 'w \<Rightarrow> (int \<times> con_udp \<times> 'w) option"
type_synonym 'w con_cmds = "(bytes \<times> 'w con_cb option) list"

abbreviation CON_CB_OK :: int where "CON_CB_OK \<equiv> 0"
abbreviation CON_CB_SILENT :: int where "CON_CB_SILENT \<equiv> 1"
abbreviation CON_CB_ERR_CUSTOM :: int where "CON_CB_ERR_CUSTOM \<equiv> 2"
abbreviation CON_CB_ERR_ARGS :: int where "CON_CB_ERR_ARGS \<equiv> 3"
abbreviation CON_CB_ERR_BAD_PARAM :: int where "CON_CB_ERR_BAD_PARAM \<equiv> 4"
abbreviation CON_CB_ERR_UNSAFE :: int where "CON_CB_ERR_UNSAFE \<equiv> 5"
abbreviation CON_CB_ERR_NO_SPACE :: int where "CON_CB_ERR_NO_SPACE \<equiv> 6"

definition con_report :: "con_env \<Rightarrow> int \<Rightarrow> con_udp \<Rightarrow> con_udp option" where
  "con_report env error_code s =
    (if error_code > CON_CB_SILENT
     then Option.bind (con_print env (lit ''Error: '') [] s) (\<lambda>s1.
       if error_code = CON_CB_ERR_CUSTOM then con_print env (ascii ''%s'' @ [0x0A, 0]) [Str [0]] s1
       else if error_code = CON_CB_ERR_UNSAFE then con_print env (ascii ''Unsafe operation'' @ [0x0A, 0]) [] s1
       else if error_code = CON_CB_ERR_NO_SPACE then con_print env (ascii ''No space left'' @ [0x0A, 0]) [] s1
       else if error_code = CON_CB_ERR_BAD_PARAM then con_print env (ascii ''Bad parameter'' @ [0x0A, 0]) [] s1
       else if error_code = CON_CB_ERR_ARGS then con_print env (ascii ''To few arguments'' @ [0x0A, 0]) [] s1
       else Some s1)
     else if error_code = 0 then con_print env (ascii ''Ok'' @ [0x0A, 0]) [] s
     else Some s)"

definition con_run :: "con_env \<Rightarrow> bytes \<Rightarrow> 'w con_cb \<Rightarrow> bytes \<Rightarrow> nat \<Rightarrow> con_udp \<times> 'w \<Rightarrow> (con_udp \<times> 'w) option" where
  "con_run env name cb data len_req st =
    (let l = length name; n = int len_req - int l
     in Option.bind (cb (if n > 0 then Some (drop l data) else None) n CON_CB_SILENT st) (\<lambda>(err, s, w).
          map_option (\<lambda>s'. (s', w)) (con_report env err s)))"

fun con_dispatch :: "con_env \<Rightarrow> 'w con_cmds \<Rightarrow> bytes \<Rightarrow> nat \<Rightarrow> con_udp \<times> 'w \<Rightarrow> (con_udp \<times> 'w) option" where
  "con_dispatch env [] data len_req st = Some st"
| "con_dispatch env ((name, cb) # cmds) data len_req st =
    (case (if cb \<noteq> None \<and> strncmp_eq (length name) data (name @ [0]) then cb else None) of
       Some f \<Rightarrow> con_run env name f data len_req st
     | None \<Rightarrow>
         if cmds = [] then map_option (\<lambda>s. (s, snd st)) (con_PRINTF env (ascii ''command not found'' @ [0x0A, 0]) [] (fst st))
         else con_dispatch env cmds data len_req st)"

fun con_help :: "con_env \<Rightarrow> bytes list \<Rightarrow> con_udp \<Rightarrow> con_udp option" where
  "con_help env [] s = Some s"
| "con_help env (name # names) s =
    Option.bind (con_print env ([0x09] @ ascii ''%s'' @ [0x0A, 0]) [Str (name @ [0])] s) (con_help env names)"

definition con_command :: "con_env \<Rightarrow> 'w con_cmds \<Rightarrow> bytes \<Rightarrow> nat \<Rightarrow> con_udp \<times> 'w \<Rightarrow> (con_udp \<times> 'w) option" where
  "con_command env cmds data len_req st =
    (if strncmp_eq 4 data (lit ''help'')
     then map_option (\<lambda>s. (s, snd st))
       (Option.bind (con_print env (ascii ''Available commands:'' @ [0x0A, 0]) [] (fst st)) (con_help env (map fst cmds)))
     else if c_str data \<noteq> [0x0A] \<and> data ! 0 \<noteq> 0x23 \<and> data ! 0 \<noteq> 0 then con_dispatch env cmds data len_req st
     else map_option (\<lambda>s. (s, snd st)) (con_PRINTF env [0x0A, 0] [] (fst st)))"

text \<open>
  \<open>mem\<close> is the memory from the payload of the first buffer to its end, \<open>len\<close> the bytes received in it.  The last
  part of the result tells whether the buffer was freed.
\<close>

definition cb_udp_console ::
  "con_env \<Rightarrow> 'w con_cmds \<Rightarrow> bytes \<Rightarrow> nat \<Rightarrow> u32 \<Rightarrow> u16 \<Rightarrow> con_udp \<times> 'w \<Rightarrow> ((con_udp \<times> 'w) \<times> bool) option" where
  "cb_udp_console env cmds mem len addr port st =
    (let s0 = (fst st)\<lparr>con_stay_in_boot := True, con_addr := addr, con_port := port\<rparr>;
         s1 = (if port \<noteq> prev_port s0 then s0\<lparr>prev_port := port, prev_request := (prev_request s0)[0 := 0]\<rparr> else s0);
         data = mem[len := 0]
     in if len \<ge> length mem then None
        else if len \<ge> 256 then Some ((s1, snd st), False)
        else Option.bind
          (if len = 1 \<and> data ! 0 = 0x0A
           then map_option (\<lambda>s. (s, prev_request s1, prev_request_len s1))
             (if prev_request s1 ! 0 \<noteq> 0x0A \<and> prev_request s1 ! 0 \<noteq> 0 then con_print env [0x3E, 0x0A, 0] [] s1 else Some s1)
           else Some (s1\<lparr>prev_request := take len data @ 0 # drop (Suc len) (prev_request s1), prev_request_len := len\<rparr>, data, len))
          (\<lambda>(s2, data', len_req). map_option (\<lambda>st'. (st', True)) (con_command env cmds data' len_req (s2, snd st))))"

text \<open>\<open>console_udp_init\<close>: what \<open>udp_new\<close> and \<open>udp_bind\<close> return; the second part tells whether requests will be received.\<close>

definition console_udp_init :: "bool \<Rightarrow> int \<Rightarrow> int \<times> bool" where
  "console_udp_init new_ok bind_sts = (if \<not> new_ok then (-1, False) else if bind_sts \<noteq> 0 then (-2, False) else (0, True))"

section \<open>Printing stays in its buffer, or not\<close>

text \<open>C38: what a call of \<open>_PRINTF\<close> does with its text, once a console is known: up to 254 characters go out as one
  datagram with their zero byte; 255 lose the last one; of a longer text the call writes a zero behind the 256
  bytes of \<open>print_buf\<close>, the length of the text away, and when lwIP has no buffer for the datagram it copies to the
  null pointer: in both cases the behaviour is undefined.
\<close>

theorem con_print_exact:
  assumes "con_port s \<noteq> 0" "length (print_buf s) = 256" "list_all va_small args" "printf_text 0 fmt args = Some t"
    "length t < 2147483648"
  shows "map_option con_sent (con_print env fmt args s) =
    (if length t < 256 \<and> env_ram env (length (con_sent s)) (Suc (length t))
     then Some (con_sent s @ [(con_addr s, con_port s, take 254 t @ (if length t = 255 then [0, 0] else [0]))]) else None)"
proof -
  let ?b = "take 254 t @ 0 # drop (Suc (min 254 (length t))) (print_buf s)"
  have v: "printf_vsnprintf (Some (print_buf s)) 255 fmt args = Some (length t, Some ?b)"
    using vsnprintf_written [of args fmt t 255 "print_buf s"] assms by simp
  have b: "take (Suc (length t)) (?b[length t := 0]) = take 254 t @ (if length t = 255 then [0, 0] else [0])"
    if "length t < 256"
  proof (cases "length t = 255")
    case True
    then have "?b[255 := 0] = take 254 t @ (0 # drop 255 (print_buf s))[1 := 0]" by (simp add: list_update_append)
    moreover obtain x where "drop 255 (print_buf s) = [x]" using assms(2) by (cases "drop 255 (print_buf s)") (auto dest: arg_cong [where f = length])
    ultimately show ?thesis using True by simp
  next
    case False
    then have "length t \<le> 254" using that by simp
    then show ?thesis using False by (simp add: list_update_append)
  qed
  show ?thesis using assms(1) b by (simp add: con_print_def v Let_def)
qed

definition ex_env :: con_env where
  "ex_env = \<lparr>env_ram = \<lambda>k n. n < 1000, env_dev = ascii ''GW'', env_ip = (10, 0, 0, 1), env_time = 5\<rparr>"

lemma con_print_exact_witness:
  "map_option con_sent (con_print ex_env
      (ascii ''%s=%d'' @ [0]) [Str (ascii ''ip'' @ [0]), W32 7] (con_boot\<lparr>con_port := 2000\<rparr>))
    = Some [(0, 2000, ascii ''ip=7'' @ [0])]"
  by (subst con_print_exact [OF _ _ _ printf_text_example]) (simp_all add: con_boot_def va_small_def ascii_def ex_env_def)

section \<open>Which command is called\<close>

definition app_con_names :: "bytes list" where
  "app_con_names = map ascii
    [''fw'', ''info'', ''can'', ''reset'', ''read'', ''save'', ''ip'', ''cfgstate'', ''lon'', ''loff'', ''adc'', ''pc'',
     ''time'', ''i2c_remap'', ''fram'', ''sock_mst_ip'', ''sock_gw_ip'', ''chb'', ''cfw'', ''csdor'', ''csdow'', ''csave'',
     ''crstcomm'', ''crstfrz'', ''crst'', ''cid'', ''cemcy'', ''cbaud'', ''crole'', ''cmeteo'', ''sli'', ''gtw'',
     ''cfg_mains_sns'', ''cfg_poe_sw'', ''poe_sw'', ''mg'', ''mr'', ''mqtt'', ''route'']"

definition ldr_con_names :: "bytes list" where
  "ldr_con_names = map ascii [''fw'', ''reset'', ''save'', ''cfgstate'']"

lemma strncmp_eq_prefix: "0 \<notin> set n \<Longrightarrow> strncmp_eq (length n) d (n @ r) \<longleftrightarrow> take (length n) d = n"
proof (induction n arbitrary: d)
  case (Cons x n)
  then show ?case by (cases d) auto
qed simp

text \<open>No name is the beginning of a later one.\<close>

fun no_shadow :: "bytes list \<Rightarrow> bool" where
  "no_shadow [] = True"
| "no_shadow (n # ns) = (list_all (\<lambda>m. take (length n) m \<noteq> n) ns \<and> no_shadow ns)"

lemma con_names_ok:
  "no_shadow app_con_names \<and> no_shadow ldr_con_names
    \<and> list_all (\<lambda>n. 0 \<notin> set n \<and> 0x20 \<notin> set n \<and> 0x0A \<notin> set n) (app_con_names @ ldr_con_names)"
  by code_simp

lemma con_dispatch_first:
  assumes "list_all (\<lambda>n. 0 \<notin> set n \<and> sep \<notin> set n) (map fst cmds)" "no_shadow (map fst cmds)" "(name, Some f) \<in> set cmds"
  shows "con_dispatch env cmds (name @ sep # rest) len st = con_run env name f (name @ sep # rest) len st"
  using assms
proof (induction cmds)
  case (Cons c cmds)
  obtain n cb where c: "c = (n, cb)" by (cases c)
  have z: "0 \<notin> set n" "sep \<notin> set n" "0 \<notin> set name" using Cons.prems c by (auto simp: list_all_iff)
  show ?case
  proof (cases "c = (name, Some f)")
    case True
    then show ?thesis using z by (simp add: strncmp_eq_prefix)
  next
    case False
    then have m: "(name, Some f) \<in> set cmds" using Cons.prems by simp
    then have "take (length n) name \<noteq> n" using Cons.prems(2) c by (force simp: list_all_iff)
    have "take (length n) (name @ sep # rest) \<noteq> n"
    proof (cases "length n \<le> length name")
      case False
      then have "sep \<in> set (take (length n) (name @ sep # rest))" by (simp add: take_Cons')
      then show ?thesis using z(2) by metis
    qed (use \<open>take (length n) name \<noteq> n\<close> in simp)
    then have "\<not> strncmp_eq (length n) (name @ sep # rest) (n @ [0])" using z(1) by (simp add: strncmp_eq_prefix)
    then show ?thesis using Cons m c by (auto simp: list_all_iff)
  qed
qed simp

text \<open>C39: a request of the console that begins with the word of a command of the gateway (or of the loader), followed
  by a space, a line end or nothing, runs that command, with what follows the word as its argument, and no other
  one, although the table is searched for the first name that the request only begins with.
\<close>

theorem console_dispatch:
  assumes "map fst cmds = app_con_names \<or> map fst cmds = ldr_con_names" "(name, Some f) \<in> set cmds"
    "sep = 0x20 \<or> sep = 0x0A \<or> sep = 0"
  shows "con_dispatch env cmds (name @ sep # rest) len st =
    Option.bind (f (if length name < len then Some (sep # rest) else None) (int len - int (length name)) CON_CB_SILENT st)
      (\<lambda>(err, s, w). map_option (\<lambda>s'. (s', w)) (con_report env err s))"
proof -
  let ?P = "list_all (\<lambda>n. 0 \<notin> set n \<and> sep \<notin> set n)"
  have P: "?P ns" if "list_all (\<lambda>n. 0 \<notin> set n \<and> 0x20 \<notin> set n \<and> 0x0A \<notin> set n) ns" for ns
    using that assms(3) by (auto simp: list_all_iff)
  have "?P (map fst cmds)" "no_shadow (map fst cmds)"
    using assms(1) con_names_ok P [of app_con_names] P [of ldr_con_names] unfolding list_all_append by presburger+
  from con_dispatch_first [OF this assms(2), of env rest len st] show ?thesis by (simp add: con_run_def Let_def)
qed

lemma console_dispatch_witness:
  "con_dispatch ex_env (map (\<lambda>n. (n, Some (\<lambda>p n err st. Some (if n = 4 then 0 else err, fst st, p)))) ldr_con_names)
      (ascii ''save'' @ 0x20 # ascii ''now'') 8 (con_boot, None)
    = Some (con_boot, Some (0x20 # ascii ''now''))"
proof -
  let ?f = "\<lambda>p n err st. Some (if n = (4 :: int) then 0 else err, fst st, p)"
  let ?c = "map (\<lambda>n. (n, Some ?f)) ldr_con_names"
  have "map fst ?c = ldr_con_names" by (simp add: comp_def)
  moreover have "(ascii ''save'', Some ?f) \<in> set ?c" by (simp add: ldr_con_names_def)
  ultimately show ?thesis
    by (subst console_dispatch [where f = ?f]) (simp_all add: con_report_def con_print_def con_boot_def comp_def)
qed

end
