(* ===== verification/C_Scan.thy ===== *)
theory C_Scan
  imports C_Text
begin

text \<open>
  \<open>sscanf\<close> of the C library as the consoles use it: \<open>%u\<close>, \<open>%x\<close>, \<open>%s\<close>, \<open>%n\<close>, characters that must match and
  blanks.  As in newlib a number is read by \<open>strtoul\<close>: a sign is allowed, and what exceeds 32 bits is the
  greatest number.  The library cuts a number at a length no line of the consoles needs; that is not modelled.
\<close>

section \<open>Conversions\<close>

datatype scan_item = S_u | S_x | S_s | S_lit u8 | S_blank | S_n

text \<open>What a conversion stores: a number, a word, or for \<open>%n\<close> the characters read.\<close>

datatype scan_val = V_int u32 | V_str bytes | V_pos nat

definition is_hex :: "u8 \<Rightarrow> bool" where
  "is_hex b \<longleftrightarrow> is_dec b \<or> (0x41 \<le> b \<and> b \<le> 0x46) \<or> (0x61 \<le> b \<and> b \<le> 0x66)"

definition hex_val :: "u8 \<Rightarrow> nat" where
  "hex_val b = (if is_dec b then unat b - 48 else if b \<le> 0x46 then unat b - 55 else unat b - 87)"

definition num_value :: "nat \<Rightarrow> bytes \<Rightarrow> nat" where
  "num_value base ds = foldl (\<lambda>a d. a * base + hex_val d) 0 ds"

definition strtoul_word :: "bool \<Rightarrow> nat \<Rightarrow> u32" where
  "strtoul_word neg v = (if v > 4294967295 then 4294967295 else if neg then - of_nat v else of_nat v)"

definition skip_sign :: "bytes \<Rightarrow> bool \<times> bytes" where
  "skip_sign s = (case s of c # r \<Rightarrow> if c = 0x2D then (True, r) else if c = 0x2B then (False, r) else (False, s) | [] \<Rightarrow> (False, []))"

definition skip_0x :: "bytes \<Rightarrow> bytes" where
  "skip_0x s = (case s of a # b # c # r \<Rightarrow> if a = 0x30 \<and> (b = 0x78 \<or> b = 0x58) \<and> is_hex c then c # r else s | _ \<Rightarrow> s)"

definition scan_num :: "bool \<Rightarrow> bytes \<Rightarrow> (u32 \<times> bytes) option" where
  "scan_num hex s =
    (let (neg, s1) = skip_sign s;
         s2 = (if hex then skip_0x s1 else s1);
         ok = (if hex then is_hex else is_dec);
         ds = takeWhile ok s2
     in if ds = [] then None else Some (strtoul_word neg (num_value (if hex then 16 else 10) ds), dropWhile ok s2))"

text \<open>
  The values stored, in order; whether the input ended before a conversion.  \<open>n\<close> is the length of the whole
  string, of which \<open>s\<close> is what is left.
\<close>

fun scan_items :: "nat \<Rightarrow> scan_item list \<Rightarrow> bytes \<Rightarrow> scan_val list \<times> bool" where
  "scan_items n [] s = ([], False)"
| "scan_items n (S_u # its) s =
    (let s1 = dropWhile is_space s
     in if s1 = [] then ([], True)
        else case scan_num False s1 of None \<Rightarrow> ([], False)
             | Some (v, s2) \<Rightarrow> (case scan_items n its s2 of (vs, e) \<Rightarrow> (V_int v # vs, e)))"
| "scan_items n (S_x # its) s =
    (let s1 = dropWhile is_space s
     in if s1 = [] then ([], True)
        else case scan_num True s1 of None \<Rightarrow> ([], False)
             | Some (v, s2) \<Rightarrow> (case scan_items n its s2 of (vs, e) \<Rightarrow> (V_int v # vs, e)))"
| "scan_items n (S_s # its) s =
    (let s1 = dropWhile is_space s
     in if s1 = [] then ([], True)
        else case scan_items n its (dropWhile (\<lambda>c. \<not> is_space c) s1) of (vs, e) \<Rightarrow> (V_str (takeWhile (\<lambda>c. \<not> is_space c) s1) # vs, e))"
| "scan_items n (S_lit c # its) s =
    (case s of [] \<Rightarrow> ([], True) | d # r \<Rightarrow> if d = c then scan_items n its r else ([], False))"
| "scan_items n (S_blank # its) s = scan_items n its (dropWhile is_space s)"
| "scan_items n (S_n # its) s = (case scan_items n its s of (vs, e) \<Rightarrow> (V_pos (n - length s) # vs, e))"

definition counted :: "scan_val \<Rightarrow> bool" where
  "counted v = (case v of V_pos _ \<Rightarrow> False | _ \<Rightarrow> True)"

text \<open>\<open>sscanf\<close> on the memory behind its argument: the result and the values stored.\<close>

definition sscanf :: "scan_item list \<Rightarrow> bytes \<Rightarrow> int \<times> scan_val list" where
  "sscanf its mem =
    (let s = c_str mem; (vs, e) = scan_items (length s) its s; k = length (filter counted vs)
     in (if k = 0 \<and> e then -1 else int k, vs))"

text \<open>A number that was stored, or the variable's value before.\<close>

definition int_or :: "u32 \<Rightarrow> nat \<Rightarrow> scan_val list \<Rightarrow> u32" where
  "int_or d i vs = (if i < length vs then (case vs ! i of V_int v \<Rightarrow> v | _ \<Rightarrow> d) else d)"

definition scan_us :: "nat \<Rightarrow> scan_item list" where
  "scan_us k = concat (replicate (k - 1) [S_u, S_blank]) @ [S_u]"

section \<open>A decimal number is read back\<close>

lemma num_value_dec: "list_all is_dec ds \<Longrightarrow> int (num_value 10 ds) = dec_value ds"
proof (induction ds rule: rev_induct)
  case (snoc d ds)
  then have "48 \<le> unat d" by (simp add: is_dec_def word_le_nat_alt)
  then show ?case using snoc by (simp add: num_value_def dec_value_def hex_val_def)
qed (simp add: num_value_def dec_value_def)

lemma scan_num_dec:
  assumes "n < 2 ^ 32" "r = [] \<or> \<not> is_dec (hd r)"
  shows "scan_num False (dec_digits n @ r) = Some (of_nat n, r)"
proof -
  have d: "list_all is_dec (dec_digits n)" using dec_digits_dec by (simp add: list_all_iff)
  obtain c ds where c: "dec_digits n = c # ds" using dec_digits_nonempty by (cases "dec_digits n") auto
  have "is_dec c" using d c by simp
  then have "c \<noteq> 0x2D" "c \<noteq> 0x2B" by (auto simp: is_dec_def word_le_nat_alt)
  then have s: "skip_sign (dec_digits n @ r) = (False, dec_digits n @ r)" by (simp add: skip_sign_def c)
  have t: "takeWhile is_dec (dec_digits n @ r) = dec_digits n" "dropWhile is_dec (dec_digits n @ r) = r"
    using d assms(2) by (cases r; auto simp: list_all_iff takeWhile_append2 dropWhile_append2)+
  have "num_value 10 (dec_digits n) = n" using num_value_dec [OF d] dec_value_digits [of n] by simp
  then show ?thesis using assms(1) by (simp add: scan_num_def s t dec_digits_nonempty strtoul_word_def)
qed

lemma dec_digits_no_space: "dropWhile is_space (dec_digits n @ r) = dec_digits n @ r"
proof -
  obtain c ds where c: "dec_digits n = c # ds" using dec_digits_nonempty by (cases "dec_digits n") auto
  then have "is_dec c" using dec_digits_dec [of n] by simp
  then have "\<not> is_space c" by (auto simp: is_dec_def is_space_def word_le_nat_alt)
  then show ?thesis by (simp add: c)
qed

lemma scan_items_dec:
  assumes "n < 2 ^ 32" "r = [] \<or> \<not> is_dec (hd r)"
  shows "scan_items k (S_u # its) (dec_digits n @ r) = (case scan_items k its r of (vs, e) \<Rightarrow> (V_int (of_nat n) # vs, e))"
  by (simp add: dec_digits_no_space scan_num_dec [OF assms] dec_digits_nonempty)

end
