(* ===== verification/Console.thy ===== *)
theory Console
  imports Console_Udp C_Scan Settings Switching Sensing Fram Router Adc Sdo_Flasher
begin

text \<open>
  The commands of the gateway's console (app/console.c) and of the loader's (ldr/console.c).  Each is a callback in
  the sense of Console_Udp: it reads its arguments with \<open>sscanf\<close>, calls operations of the components, and prints.
  \<open>None\<close> is undefined behaviour: of a print, or of a command that reads its argument when there is none.
\<close>

section \<open>State\<close>

text \<open>What the commands work on; \<open>'h\<close> is the state of the memory chip, \<open>'n\<close> that of CANopenNode and the bus.\<close>

record ('h, 'n) con_app =
  ca_set :: settings
  ca_cfg :: cfg_st
  ca_load :: load_sw
  ca_pc :: pc_sw
  ca_poe :: poe_sw
  ca_mains :: "mains_ch list"
  ca_routes :: router_t
  ca_fram :: 'h
  ca_rtc :: rtc_dev
  ca_ir_min :: u32
  ca_ir_max :: u32
  ca_adc :: adc_val
  ca_bus :: 'n
  ca_reset :: bool

record ('h, 'n) con_board =
  cb_env :: con_env
  cb_crc :: "u32 \<Rightarrow> u32 \<Rightarrow> u32"
  cb_flash :: flash_dev
  cb_spi :: "'h spi"
  cb_rtc_ok :: "rtc_dev \<Rightarrow> bool"
  cb_pc_on :: bool
  cb_gtw :: "bytes \<Rightarrow> 'n \<Rightarrow> nat \<times> 'n"

section \<open>Steps of a command\<close>

text \<open>The state of a running command: its error code, the console, the program.\<close>

type_synonym 'w con_st = "int \<times> con_udp \<times> 'w"

definition say :: "con_env \<Rightarrow> bytes \<Rightarrow> va list \<Rightarrow> 'w con_st \<Rightarrow> 'w con_st option" where
  "say env f args st = (case st of (e, s, w) \<Rightarrow> map_option (\<lambda>s'. (e, s', w)) (con_print env f args s))"

definition fails :: "int \<Rightarrow> 'w con_st \<Rightarrow> 'w con_st option" where
  "fails e' st = (case st of (e, s, w) \<Rightarrow> Some (e', s, w))"

definition upd :: "('w \<Rightarrow> 'w) \<Rightarrow> 'w con_st \<Rightarrow> 'w con_st option" where
  "upd f st = (case st of (e, s, w) \<Rightarrow> Some (e, s, f w))"

text \<open>A step that looks at the program's state first.\<close>

definition look :: "('w \<Rightarrow> 'w con_st \<Rightarrow> 'r) \<Rightarrow> 'w con_st \<Rightarrow> 'r" where
  "look f st = f (snd (snd st)) st"

fun steps :: "('s \<Rightarrow> 's option) list \<Rightarrow> 's \<Rightarrow> 's option" where
  "steps [] st = Some st"
| "steps (f # fs) st = Option.bind (f st) (steps fs)"

text \<open>A callback made of such steps, and one that reads its argument.\<close>

definition cmd :: "('w con_st \<Rightarrow> 'w con_st option) \<Rightarrow> 'w con_cb" where
  "cmd f param n e st = f (e, fst st, snd st)"

definition cmd_arg :: "(bytes \<Rightarrow> 'w con_st \<Rightarrow> 'w con_st option) \<Rightarrow> 'w con_cb" where
  "cmd_arg f param n e st = (case param of None \<Rightarrow> None | Some arg \<Rightarrow> f arg (e, fst st, snd st))"

text \<open>Formats: a line, and one without its end.\<close>

definition fmt_ln :: "string \<Rightarrow> bytes" where
  "fmt_ln s = ascii s @ [0x0A, 0]"

definition ip_va :: "bytes \<Rightarrow> va list" where
  "ip_va ip = map (\<lambda>b. W32 (ucast b)) ip"

definition config_sts_int :: "config_sts \<Rightarrow> u32" where
  "config_sts_int s = (case s of CONFIG_STS_OK \<Rightarrow> 0 | CONFIG_STS_STORAGE_READ_ERROR \<Rightarrow> 1 | CONFIG_STS_STORAGE_WRITE_ERROR \<Rightarrow> 2
    | CONFIG_STS_STORAGE_WRONG_FORMAT \<Rightarrow> 3 | CONFIG_STS_STORAGE_OUT_OF_BOUNDS \<Rightarrow> 4 | CONFIG_STS_WRONG_SIZE_CONFIG \<Rightarrow> 5
    | CONFIG_STS_CRC_INVALID \<Rightarrow> 6 | CONFIG_STS_KEY_LONG \<Rightarrow> 7 | CONFIG_STS_KEY_SHORT \<Rightarrow> 8 | CONFIG_STS_LENGTH_DATA_ZERO \<Rightarrow> 9
    | CONFIG_STS_PARSER_NOT_FINISHED \<Rightarrow> 10 | CONFIG_STS_NO_DATA \<Rightarrow> 11)"

section \<open>Addresses\<close>

definition no_args :: "bytes \<Rightarrow> bool" where
  "no_args arg \<longleftrightarrow> dropWhile is_space (c_str arg) = []"

definition scan_ip :: "scan_item list" where
  "scan_ip = [S_u, S_lit 0x2E, S_u, S_lit 0x2E, S_u, S_lit 0x2E, S_u]"

text \<open>\<open>ip_cb\<close> and \<open>sock_mst_ip_cb\<close> differ in the current address they print, their wording and the variable they set.\<close>

definition set_ip_cb :: "con_env \<Rightarrow> bytes \<Rightarrow> ('w \<Rightarrow> bytes) \<Rightarrow> (bytes \<Rightarrow> 'w \<Rightarrow> 'w) \<Rightarrow> bytes \<Rightarrow> 'w con_st \<Rightarrow> 'w con_st option" where
  "set_ip_cb env current cur_ip set_ip arg =
    (case sscanf scan_ip arg of (n, vs) \<Rightarrow>
      (let a = int_or 0 0 vs; b = int_or 0 1 vs; c = int_or 0 2 vs; d = int_or 0 3 vs
       in if no_args arg then look (\<lambda>w. say env current (ip_va (cur_ip w)))
          else if n \<noteq> 4 \<or> a > 255 \<or> b > 255 \<or> c > 255 \<or> d > 255 then steps [say env (fmt_ln ''Bad address'') [], fails CON_CB_ERR_BAD_PARAM]
          else steps [upd (set_ip [ucast a, ucast b, ucast c, ucast d]),
            say env (fmt_ln ''OK, New IP: %d.%d.%d.%d'') (ip_va [ucast a, ucast b, ucast c, ucast d])]))"

definition ip_cb :: "('h, 'n) con_board \<Rightarrow> ('h, 'n) con_app con_cb" where
  "ip_cb B = cmd_arg (set_ip_cb (cb_env B) (fmt_ln ''Current IP: %d.%d.%d.%d'')
    (\<lambda>w. case env_ip (cb_env B) of (a, b, c, d) \<Rightarrow> [a, b, c, d])
    (\<lambda>ip w. w\<lparr>ca_set := (ca_set w)\<lparr>cfg_ip_address := ip\<rparr>\<rparr>))"

definition sock_mst_ip_cb :: "('h, 'n) con_board \<Rightarrow> ('h, 'n) con_app con_cb" where
  "sock_mst_ip_cb B = cmd_arg (set_ip_cb (cb_env B) (fmt_ln ''Current MASTER slv IP: %d.%d.%d.%d'')
    (\<lambda>w. cfg_ip_addr_master (ca_set w))
    (\<lambda>ip w. w\<lparr>ca_set := (ca_set w)\<lparr>cfg_ip_addr_master := ip\<rparr>\<rparr>))"

definition show_gw :: "con_env \<Rightarrow> ('h, 'n) con_app con_st \<Rightarrow> ('h, 'n) con_app con_st option" where
  "show_gw env = look (\<lambda>w. steps (map (\<lambda>i. say env ([0x09] @ fmt_ln ''%d.%d.%d.%d'') (ip_va (take 4 (drop (4 * i) (cfg_ip_addr_gw (ca_set w))))))
    [0..<GW_COUNT]))"

text \<open>Without arguments it prints the addresses and then complains as well.\<close>

definition sock_gw_ip_cb :: "('h, 'n) con_board \<Rightarrow> ('h, 'n) con_app con_cb" where
  "sock_gw_ip_cb B = cmd_arg (\<lambda>arg.
    (case sscanf (S_u # S_lit 0x3A # scan_ip) arg of (n, vs) \<Rightarrow>
      (let env = cb_env B; ptr = int_or 0 0 vs; a = int_or 0 1 vs; b = int_or 0 2 vs; c = int_or 0 3 vs; d = int_or 0 4 vs;
           list = (if no_args arg then [say env (fmt_ln ''Current GW slv IP:'') [], show_gw env] else []);
           bad = (\<lambda>f args. [say env f args, fails CON_CB_ERR_BAD_PARAM])
       in steps (list @
         (if n \<noteq> 5 then bad (fmt_ln ''Bad args'') []
          else if unat ptr \<ge> GW_COUNT then bad (fmt_ln ''Bad selector, max is %d'') [W32 5]
          else if a > 255 \<or> b > 255 \<or> c > 255 \<or> d > 255 then bad (fmt_ln ''Bad address'') []
          else [upd (\<lambda>w. w\<lparr>ca_set := (ca_set w)\<lparr>cfg_ip_addr_gw := (let g = cfg_ip_addr_gw (ca_set w); i = 4 * unat ptr
                   in take i g @ [ucast a, ucast b, ucast c, ucast d] @ drop (i + 4) g)\<rparr>\<rparr>),
                say env (fmt_ln ''OK, New GW slv IP:'') [], show_gw env])))))"

section \<open>The store of settings\<close>

text \<open>The rows of the table point to the variables: before the store is used they have their values, after it they give them.\<close>

definition cfg_in :: "settings \<Rightarrow> cfg_st \<Rightarrow> cfg_st" where
  "cfg_in g c = c\<lparr>g_device_config := map2 (\<lambda>e r. e\<lparr>ce_data := ce_data r\<rparr>) (g_device_config c) (device_config g)\<rparr>"

definition cmd_validate :: "('h, 'n) con_board \<Rightarrow> ('h, 'n) con_app \<Rightarrow> config_sts \<times> ('h, 'n) con_app" where
  "cmd_validate B w = (case config_validate (cb_crc B) (cfg_in (ca_set w) (ca_cfg w)) of (sts, c) \<Rightarrow> (sts, w\<lparr>ca_cfg := c\<rparr>))"

definition say_row :: "con_env \<Rightarrow> config_entry \<Rightarrow> 'w con_st \<Rightarrow> 'w con_st option" where
  "say_row env e =
    steps ([say env (lit ''%s (%d) @ x%lx ['') [Str (ce_key e @ [0]), W32 (ucast (ce_size e)), W32 (data_abs_address e)]]
      @ map (\<lambda>b. say env (lit ''x%02x '') [W32 (ucast b)]) (case ce_data e of None \<Rightarrow> [] | Some d \<Rightarrow> take (unat (ce_size e)) d)
      @ [say env (fmt_ln '']'') []])"

definition read_cb :: "('h, 'n) con_board \<Rightarrow> ('h, 'n) con_app con_cb" where
  "read_cb B = (let env = cb_env B in cmd (look (\<lambda>w.
    (case cmd_validate B w of (sts, w1) \<Rightarrow>
      (let w2 = (if sts = CONFIG_STS_OK
                 then (let c = config_read_storage (ca_cfg w1) in w1\<lparr>ca_cfg := c, ca_set := settings_of (g_device_config c)\<rparr>) else w1);
           dump = cfg_read (ca_cfg w2) 0 256
       in steps ([upd (\<lambda>_. w2), say env (fmt_ln ''READ config status: %d'') [W32 (config_sts_int sts)]]
            @ map (\<lambda>i. say_row env (g_device_config (ca_cfg w2) ! i)) [0..<4]
            @ concat (map (\<lambda>i. say env (lit ''x%02x '') [W32 (ucast (dump ! i))] # (if i mod 16 = 15 then [say env [0x0A, 0] []] else []))
                [0..<256])))))))"

definition save_cb :: "('h, 'n) con_board \<Rightarrow> ('h, 'n) con_app con_cb" where
  "save_cb B = (let env = cb_env B in cmd (look (\<lambda>w st.
    Option.bind (config_write_storage (cb_crc B) (cb_flash B) (cfg_in (ca_set w) (ca_cfg w))) (\<lambda>(sts, c).
      (let w1 = w\<lparr>ca_cfg := c\<rparr>
       in if sts \<noteq> CONFIG_STS_OK then steps [upd (\<lambda>_. w1), say env (fmt_ln ''SAVE ERROR: %d'') [W32 (config_sts_int sts)]] st
          else case cmd_validate B w1 of (sts', w2) \<Rightarrow>
            steps [upd (\<lambda>_. w2), say env (fmt_ln ''SAVE config status: %d'') [W32 (config_sts_int sts')]] st)))))"

definition cfg_state_cb :: "('h, 'n) con_board \<Rightarrow> ('h, 'n) con_app con_cb" where
  "cfg_state_cb B = cmd (look (\<lambda>w. case cmd_validate B w of (sts, w1) \<Rightarrow>
    steps [upd (\<lambda>_. w1), say (cb_env B) (fmt_ln ''Config status: %d'') [W32 (config_sts_int sts)]]))"

text \<open>\<open>platform_reset\<close> does not return; what would follow is never sent.\<close>

definition reset_cb :: "('h, 'n) con_app con_cb" where
  "reset_cb = cmd (upd (\<lambda>w. w\<lparr>ca_reset := True\<rparr>))"

section \<open>Switches, clock and memory\<close>

definition lon_cb :: "('h, 'n) con_board \<Rightarrow> ('h, 'n) con_app con_cb" where
  "lon_cb B = cmd (steps [upd (\<lambda>w. w\<lparr>ca_load := load_switcher_on (ca_load w)\<rparr>), say (cb_env B) (fmt_ln ''on ok'') []])"

definition loff_cb :: "('h, 'n) con_board \<Rightarrow> ('h, 'n) con_app con_cb" where
  "loff_cb B = cmd (steps [upd (\<lambda>w. w\<lparr>ca_load := load_switcher_off (ca_load w)\<rparr>), say (cb_env B) (fmt_ln ''off ok'') []])"

definition adc_cb :: "('h, 'n) con_board \<Rightarrow> ('h, 'n) con_app con_cb" where
  "adc_cb B = (let env = cb_env B in cmd (look (\<lambda>w. let v = ca_adc w; p = adc_poe_sns v in
    steps [say env (fmt_ln ''VIN:   %.2f'') [Dbl (adc_vin v)], say env (fmt_ln ''VOUT:  %.2f'') [Dbl (adc_vout v)],
      say env (fmt_ln ''Is:    %.3f'') [Dbl (adc_i_sns v)], say env (fmt_ln ''IR:    %.0f'') [Dbl (adc_ir v)],
      say env (fmt_ln ''t MCU: %.0f'') [Dbl (adc_t_mcu v)], say env (fmt_ln ''I POE: %.3f %.3f %.3f'') [Dbl (p ! 0), Dbl (p ! 1), Dbl (p ! 2)]])))"

definition pc_cb :: "('h, 'n) con_board \<Rightarrow> ('h, 'n) con_app con_cb" where
  "pc_cb B = (let env = cb_env B in cmd_arg (\<lambda>arg.
    steps ((if fst (sscanf [S_u] arg) = 1
            then [upd (\<lambda>w. w\<lparr>ca_pc := pc_switch (ca_pc w)\<rparr>), say env (fmt_ln ''Switching PC'') []] else [])
      @ [say env (fmt_ln ''PC is %d'') [W32 (if cb_pc_on B then 1 else 0)]])))"

definition weekday_va :: "u8 \<Rightarrow> va" where
  "weekday_va d = Str (lit (mcu_rtc_weekday d))"

definition show_time :: "con_env \<Rightarrow> ('h, 'n) con_app con_st \<Rightarrow> ('h, 'n) con_app con_st option" where
  "show_time env = look (\<lambda>w. case mcu_rtc_get_date (ca_rtc w) of (d, year) \<Rightarrow> (let t = mcu_rtc_get_time (ca_rtc w) in
    say env (fmt_ln ''%04d/%02d/%02d (%s) - %02d:%02d:%02d'')
      [W32 (ucast year), W32 (ucast (rtc_month d)), W32 (ucast (rtc_day d)), weekday_va (rtc_weekday d),
       W32 (ucast (rtc_hours t)), W32 (ucast (rtc_minutes t)), W32 (ucast (rtc_seconds t))]))"

definition timedate_cb :: "('h, 'n) con_board \<Rightarrow> ('h, 'n) con_app con_cb" where
  "timedate_cb B req n e st =
    (let env = cb_env B; ok = cb_rtc_ok B
     in if n = 0 then cmd (show_time env) req n e st
        else cmd_arg (\<lambda>arg. (case sscanf (scan_us 7) arg of (k, vs) \<Rightarrow>
          (let v = (\<lambda>i. int_or 0 i vs)
           in if k = 7
              then look (\<lambda>w. case mcu_rtc_set_date ok (ucast (v 0)) (ucast (v 3)) (ucast (v 1)) (ucast (v 2)) (ca_rtc w) of (sts0, r0) \<Rightarrow>
                     case mcu_rtc_set_time ok (ucast (v 4)) (ucast (v 5)) (ucast (v 6)) r0 of (sts1, r1) \<Rightarrow>
                       steps [upd (\<lambda>w. w\<lparr>ca_rtc := r1\<rparr>),
                         say env (fmt_ln ''Set: %u/%u/%u (%u) - %u:%u:%u | status [%d %d]'')
                           (map (\<lambda>i. W32 (v i)) [0, 1, 2, 3, 4, 5, 6] @ [W32 (of_int sts0), W32 (of_int sts1)])])
              else show_time env))) req n e st)"

definition i2c_remap_cb :: "('h, 'n) con_board \<Rightarrow> ('h, 'n) con_app con_cb" where
  "i2c_remap_cb B = cmd_arg (\<lambda>arg. case sscanf [S_u] arg of (n, vs) \<Rightarrow>
    if n = 1 then upd (\<lambda>w. w\<lparr>ca_set := (ca_set w)\<lparr>cfg_i2c_remap := (int_or 0 0 vs \<noteq> 0)\<rparr>\<rparr>)
    else look (\<lambda>w. say (cb_env B) (fmt_ln ''I2C Remap: %d'') [W32 (if cfg_i2c_remap (ca_set w) then 1 else 0)]))"

text \<open>When the read is refused the sixteen bytes printed are whatever the buffer held; \<open>junk\<close> stands for them.\<close>

definition fram_cb :: "bytes \<Rightarrow> ('h, 'n) con_board \<Rightarrow> ('h, 'n) con_app con_cb" where
  "fram_cb junk B = (let env = cb_env B in cmd_arg (\<lambda>arg. case sscanf [S_u] arg of (n, vs) \<Rightarrow>
    if n = 1
    then look (\<lambda>w. case fram_read (cb_spi B) (int_or 0 0 vs) 16 (ca_fram w) of (sts, bs, h) \<Rightarrow>
      steps ([upd (\<lambda>w. w\<lparr>ca_fram := h\<rparr>), say env (lit ''FRAM (sts %d) @x%x: '') [W32 (of_int sts), W32 (int_or 0 0 vs)]]
        @ map (\<lambda>b. say env (lit ''%x '') [W32 (ucast b)]) (if sts = 0 then bs else take 16 junk) @ [say env [0x0A, 0] []]))
    else steps []))"

definition co_gtw_cb :: "('h, 'n) con_board \<Rightarrow> ('h, 'n) con_app con_cb" where
  "co_gtw_cb B = (let env = cb_env B in cmd_arg (\<lambda>arg0. let arg = dropWhile (\<lambda>b. b = 0x20) (c_str arg0) in
    steps ([say env (lit ''gtw(%d):'') [W32 (of_nat (length arg))]] @ map (\<lambda>b. say env (lit ''x%x '') [W32 (ucast b)]) arg
      @ [look (\<lambda>w. case cb_gtw B arg (ca_bus w) of (len, n) \<Rightarrow>
           steps [upd (\<lambda>w. w\<lparr>ca_bus := n\<rparr>), say env ([0x0A] @ fmt_ln ''gtw act (%d)'') [W32 (of_nat len)]])])))"

section \<open>Channels\<close>

definition BIT_WR :: "u32 \<Rightarrow> u32 \<Rightarrow> u32 \<Rightarrow> u32" where
  "BIT_WR reg b v = (if v \<noteq> 0 then reg OR push_bit (unat b) 1 else reg AND NOT (push_bit (unat b) 1))"

definition cfg_mask_cb :: "con_env \<Rightarrow> bytes \<Rightarrow> ('w \<Rightarrow> u32) \<Rightarrow> (u32 \<Rightarrow> 'w \<Rightarrow> 'w) \<Rightarrow> 'w con_cb" where
  "cfg_mask_cb env told get_mask set_mask = cmd_arg (\<lambda>arg. case sscanf (scan_us 2) arg of (n, vs) \<Rightarrow>
    (let ch = int_or 0 0 vs; en = int_or 0 1 vs
     in if n \<noteq> 2 then say env (fmt_ln ''Wrong format! \"chnl en\"'') []
        else steps [upd (\<lambda>w. if ch < 32 then set_mask (BIT_WR (get_mask w) ch en) w else w),
          look (\<lambda>w. say env told [W32 (get_mask w)])]))"

definition cfg_mains_sns_cb :: "('h, 'n) con_board \<Rightarrow> ('h, 'n) con_app con_cb" where
  "cfg_mains_sns_cb B = cfg_mask_cb (cb_env B) (fmt_ln ''New Mains Sense mask: x%lx'') (\<lambda>w. mains_sns_chnl_bits (ca_set w))
    (\<lambda>m w. w\<lparr>ca_set := (ca_set w)\<lparr>mains_sns_chnl_bits := m\<rparr>\<rparr>)"

definition cfg_poe_sw_cb :: "('h, 'n) con_board \<Rightarrow> ('h, 'n) con_app con_cb" where
  "cfg_poe_sw_cb B = cfg_mask_cb (cb_env B) (fmt_ln ''New POE Switch mask: x%lx'') (\<lambda>w. poe_sw_chnl_bits (ca_set w))
    (\<lambda>m w. w\<lparr>ca_set := (ca_set w)\<lparr>poe_sw_chnl_bits := m\<rparr>\<rparr>)"

definition poe_sw_cb :: "('h, 'n) con_board \<Rightarrow> ('h, 'n) con_app con_cb" where
  "poe_sw_cb B = (let env = cb_env B in cmd_arg (\<lambda>arg. case sscanf (scan_us 2) arg of (n, vs) \<Rightarrow>
    (let ch = unat (int_or 0 0 vs); en = int_or 0 1 vs
     in if n \<noteq> 2 then look (\<lambda>w. say env (fmt_ln ''POE #0: %d'') [W32 (if poe_switcher_is_on 0 (ca_poe w) then 1 else 0)])
        else if en \<noteq> 0 then steps [say env (fmt_ln ''POE ON'') [], upd (\<lambda>w. w\<lparr>ca_poe := poe_switcher_on ch (ca_poe w)\<rparr>)]
        else steps [say env (fmt_ln ''POE OFF'') [], upd (\<lambda>w. w\<lparr>ca_poe := poe_switcher_off ch (ca_poe w)\<rparr>)])))"

definition mains_get_cb :: "('h, 'n) con_board \<Rightarrow> ('h, 'n) con_app con_cb" where
  "mains_get_cb B = cmd (look (\<lambda>w. steps
    [say (cb_env B) (fmt_ln ''Mains: %ld %ld'') [W32 (mains_stat_get_cnt 0 (ca_mains w)), W32 (mains_stat_get_hit 0 (ca_mains w))],
     say (cb_env B) (fmt_ln ''IR: %ld %ld'') [W32 (ca_ir_min w), W32 (ca_ir_max w)]]))"

definition mains_rst_cb :: "('h, 'n) con_board \<Rightarrow> ('h, 'n) con_app con_cb" where
  "mains_rst_cb B = cmd (steps [upd (\<lambda>w. w\<lparr>ca_mains := mains_stat_rst 0 (ca_mains w)\<rparr>),
    say (cb_env B) (fmt_ln ''Mains resetted'') [], upd (\<lambda>w. w\<lparr>ca_ir_max := 0, ca_ir_min := 4095\<rparr>)])"

section \<open>Routes\<close>

definition say_route :: "con_env \<Rightarrow> nat \<Rightarrow> route \<Rightarrow> 'w con_st \<Rightarrow> 'w con_st option" where
  "say_route env i r =
    steps ([say env (lit ''%ld Route %s %s| ID %d | PDO %d(@%d) type %d | Time %ld | last data (pub %ld ms.): '')
        [W32 (of_nat i), Str (rt_topic r @ [0]), Str (if is_mqtt_to_pdo r then lit ''is_CMD'' else [0]), W32 (ucast (rt_can_id r)),
         W32 (ucast (rt_pdo_n r)), W32 (ucast (rt_offset r)), W32 (ucast (rt_type r)), W32 (of_int (publish_interval_ms r)), W32 (last_pub_td r)]]
      @ map (\<lambda>b. say env (lit ''%x '') [W32 (ucast b)]) (take (type_len (rt_type r)) (rt_data r)) @ [say env [0x0A, 0] []])"

definition router_print :: "con_env \<Rightarrow> router_t \<Rightarrow> 'w con_st \<Rightarrow> 'w con_st option" where
  "router_print env g = steps (say env (fmt_ln ''%ld routes'') [W32 (of_nat (entries_cnt g))]
    # map (\<lambda>i. say_route env i (routes g ! i)) [0..<entries_cnt g])"

definition route_cb :: "('h, 'n) con_board \<Rightarrow> ('h, 'n) con_app con_cb" where
  "route_cb B param n e st =
    (if n > 1
     then cmd_arg (\<lambda>arg. look (\<lambda>w. case router_add_entry arg (ca_routes w) of (sts, g) \<Rightarrow>
       steps [upd (\<lambda>w. w\<lparr>ca_routes := g\<rparr>), say (cb_env B) (fmt_ln ''sts: %d '') [W32 (of_int sts)]])) param n e st
     else cmd (look (\<lambda>w. router_print (cb_env B) (ca_routes w))) param n e st)"

end
