(* ===== verification/Console_Can.thy ===== *)
theory Console_Can
  imports Console Can_Driver
begin

text \<open>
  The commands of the gateway's console for the nodes on the CAN bus (app/console_can.h), and the table of all
  commands.  CANopenNode's SDO client, LSS master, NMT and heartbeat consumer are the parameters of Sdo_Flasher
  and of the board here, on the state \<open>'n\<close> of the bus.  \<open>None\<close> is undefined behaviour, or a command that never ends.
\<close>

section \<open>State and steps\<close>

record mon_node =
  nodeId :: u8
  HBstate :: u8
  NMTstate :: int

record 'n can_board =
  kb_sdo :: "'n sdo_client"
  kb_lss :: "'n lss_master"
  kb_nmt :: "u8 \<Rightarrow> u8 \<Rightarrow> 'n \<Rightarrow> 'n"
  kb_nodes :: "'n \<Rightarrow> mon_node list"
  kb_can :: can_dev
  kb_junk :: bytes

text \<open>A step that may leave the command: \<open>False\<close> when it does.\<close>

type_synonym 'w flow = "'w con_st \<Rightarrow> (bool \<times> 'w con_st) option"

definition go :: "('w con_st \<Rightarrow> 'w con_st option) \<Rightarrow> 'w flow" where
  "go f st = map_option (Pair True) (f st)"

definition leave :: "('w con_st \<Rightarrow> 'w con_st option) \<Rightarrow> 'w flow" where
  "leave f st = map_option (Pair False) (f st)"

fun flows :: "'w flow list \<Rightarrow> 'w flow" where
  "flows [] st = Some (True, st)"
| "flows (f # fs) st = Option.bind (f st) (\<lambda>(on, st'). if on then flows fs st' else Some (False, st'))"

definition run_flow :: "'w flow \<Rightarrow> 'w con_st \<Rightarrow> 'w con_st option" where
  "run_flow f st = map_option snd (f st)"

definition set_bus :: "'n \<Rightarrow> ('h, 'n) con_app con_st \<Rightarrow> ('h, 'n) con_app con_st" where
  "set_bus n st = (case st of (e, s, w) \<Rightarrow> (e, s, w\<lparr>ca_bus := n\<rparr>))"

definition bus :: "('h, 'n) con_app con_st \<Rightarrow> 'n" where
  "bus st = ca_bus (snd (snd st))"

definition sdo_read :: "'n can_board \<Rightarrow> u32 \<Rightarrow> u16 \<Rightarrow> u8 \<Rightarrow> nat \<Rightarrow> u32 \<Rightarrow> (u32 \<Rightarrow> bytes option \<Rightarrow> ('h, 'n) con_app flow) \<Rightarrow> ('h, 'n) con_app flow" where
  "sdo_read K nid idx sub sz tmo k st =
    Option.bind (read_SDO (kb_sdo K) (ucast nid) idx sub sz tmo (bus st)) (\<lambda>(sts, bs, n). k sts bs (set_bus n st))"

definition sdo_write :: "'n can_board \<Rightarrow> u32 \<Rightarrow> u16 \<Rightarrow> u8 \<Rightarrow> bytes \<Rightarrow> u32 \<Rightarrow> (u32 \<Rightarrow> ('h, 'n) con_app flow) \<Rightarrow> ('h, 'n) con_app flow" where
  "sdo_write K nid idx sub bs tmo k st =
    Option.bind (write_SDO (kb_sdo K) (ucast nid) idx sub bs tmo (bus st)) (\<lambda>(sts, n). k sts (set_bus n st))"

definition lss_call :: "('n \<Rightarrow> (int \<times> u32 list \<times> 'n) option) \<Rightarrow> (int \<Rightarrow> ('h, 'n) con_app flow) \<Rightarrow> ('h, 'n) con_app flow" where
  "lss_call f k st = Option.bind (f (bus st)) (\<lambda>(r, _, n). k r (set_bus n st))"

definition on_bus :: "('n \<Rightarrow> 'n) \<Rightarrow> ('h, 'n) con_app con_st \<Rightarrow> ('h, 'n) con_app con_st option" where
  "on_bus f st = Some (set_bus (f (bus st)) st)"

definition nodes_now :: "'n can_board \<Rightarrow> ('h, 'n) con_app con_st \<Rightarrow> mon_node list" where
  "nodes_now K st = kb_nodes K (bus st)"

text \<open>A loop over the monitored nodes; their number is fixed, their states are looked at when it is their turn.\<close>

definition each_node :: "'n can_board \<Rightarrow> (mon_node \<Rightarrow> ('h, 'n) con_app flow) \<Rightarrow> ('h, 'n) con_app flow" where
  "each_node K f st = flows (map (\<lambda>i st. f (nodes_now K st ! i) st) [0..<length (nodes_now K st)]) st"

definition abort_msg :: "con_env \<Rightarrow> bytes \<Rightarrow> u32 \<Rightarrow> u32 \<Rightarrow> 'w flow" where
  "abort_msg env f nid sts = leave (say env f [W32 nid, W32 sts])"

definition say_read_abort :: "con_env \<Rightarrow> u32 \<Rightarrow> u32 \<Rightarrow> 'w flow" where
  "say_read_abort env = abort_msg env (fmt_ln ''SDO read %d abort: x%x'')"

definition say_write_abort :: "con_env \<Rightarrow> u32 \<Rightarrow> u32 \<Rightarrow> 'w flow" where
  "say_write_abort env = abort_msg env (fmt_ln ''SDO write %d abort: x%x'')"

text \<open>What lies in a buffer of \<open>n\<close> bytes that held \<open>old\<close> after a read.\<close>

definition over :: "nat \<Rightarrow> bytes \<Rightarrow> bytes option \<Rightarrow> bytes" where
  "over n old r = (let bs = (case r of None \<Rightarrow> [] | Some bs \<Rightarrow> take n bs) in bs @ drop (length bs) (take n old))"

definition rd_len :: "nat \<Rightarrow> bytes option \<Rightarrow> nat" where
  "rd_len d r = (case r of None \<Rightarrow> d | Some bs \<Rightarrow> length bs)"

section \<open>Heartbeats and identities\<close>

abbreviation HB_UNKNOWN :: u8 where "HB_UNKNOWN \<equiv> 1"
abbreviation HB_ACTIVE :: u8 where "HB_ACTIVE \<equiv> 2"
abbreviation HB_TIMEOUT :: u8 where "HB_TIMEOUT \<equiv> 3"

definition nmt_state2str :: "int \<Rightarrow> string" where
  "nmt_state2str s = (if s = 0 then ''INIT'' else if s = 127 then ''PREOP'' else if s = 5 then ''OP'' else if s = 4 then ''STOP'' else ''?'')"

definition hb_state2str :: "u8 \<Rightarrow> string" where
  "hb_state2str s = (if s = HB_UNKNOWN then ''?'' else if s = HB_ACTIVE then ''OK'' else if s = HB_TIMEOUT then ''TO'' else ''-'')"

definition can_hb_cb :: "('h, 'n) con_board \<Rightarrow> 'n can_board \<Rightarrow> ('h, 'n) con_app con_cb" where
  "can_hb_cb B K = (let env = cb_env B in cmd (\<lambda>st.
    (let ns = nodes_now K st; cnt = (\<lambda>h. W32 (of_nat (length (filter (\<lambda>x. HBstate x = h) ns))))
     in steps (say env (fmt_ln ''Nodes: %ld online | %ld offline'') [cnt HB_ACTIVE, cnt HB_TIMEOUT]
          # map (\<lambda>x. say env ([0x09] @ fmt_ln ''%d: HB %d [%s] | NMT %d [%s]'')
              [W32 (ucast (nodeId x)), W32 (ucast (HBstate x)), Str (lit (hb_state2str (HBstate x))), W32 (of_int (NMTstate x)),
               Str (lit (nmt_state2str (NMTstate x)))])
            (filter (\<lambda>x. HBstate x \<noteq> HB_UNKNOWN) ns)) st)))"

text \<open>
  \<open>can_fw_cb\<close> and \<open>can_save_cb\<close> go over one given node or over all that were heard of: with a given node the
  loop ends after it.
\<close>

definition one_or_all :: "'n can_board \<Rightarrow> bytes \<Rightarrow> (u32 \<Rightarrow> ('h, 'n) con_app flow) \<Rightarrow> ('h, 'n) con_app flow" where
  "one_or_all K arg f =
    (case sscanf [S_u] arg of (n, vs) \<Rightarrow>
      (let nid = (if n \<noteq> 1 then 0 else int_or 0 0 vs)
       in each_node K (\<lambda>x. if HBstate x \<noteq> HB_UNKNOWN \<or> nid \<noteq> 0
            then flows ([f (if nid \<noteq> 0 then nid else ucast (nodeId x))] @ (if nid \<noteq> 0 then [leave (steps [])] else []))
            else go (steps []))))"

definition rd_str :: "'n can_board \<Rightarrow> con_env \<Rightarrow> u32 \<Rightarrow> u16 \<Rightarrow> u8 \<Rightarrow> (bytes \<Rightarrow> ('h, 'n) con_app flow) \<Rightarrow> ('h, 'n) con_app flow" where
  "rd_str K env nid idx sub k = sdo_read K nid idx sub 64 800 (\<lambda>sts bs.
    if sts \<noteq> 0 then say_read_abort env nid sts else k (over 64 (replicate 64 0) bs))"

fun rd_words :: "'n can_board \<Rightarrow> con_env \<Rightarrow> u32 \<Rightarrow> u8 list \<Rightarrow> u32 list \<Rightarrow> (u32 list \<Rightarrow> ('h, 'n) con_app flow) \<Rightarrow> ('h, 'n) con_app flow" where
  "rd_words K env nid [] acc k = k acc"
| "rd_words K env nid (sub # subs) acc k = sdo_read K nid 0x1018 sub 4 800 (\<lambda>sts bs.
    if sts \<noteq> 0 then say_read_abort env nid sts else rd_words K env nid subs (acc @ [rd32 (over 4 (kb_junk K) bs)]) k)"

definition fw_node :: "'n can_board \<Rightarrow> con_env \<Rightarrow> u32 \<Rightarrow> ('h, 'n) con_app flow" where
  "fw_node K env nid =
    rd_words K env nid [5, 6, 7] [] (\<lambda>uid. rd_str K env nid 0x1018 8 (\<lambda>str. flows
      [go (say env (lit ''Node %d UID: x%08lx.x%08lx.x%08lx %s |'') [W32 nid, W32 (uid ! 0), W32 (uid ! 1), W32 (uid ! 2), Str str]),
       sdo_read K nid 0x1000 0 4 800 (\<lambda>sts bs. if sts \<noteq> 0 then say_read_abort env nid sts
         else go (say env (lit '' x%lx |'') [W32 (rd32 (over 4 (replicate 4 0) bs))])),
       rd_str K env nid 0x1008 0 (\<lambda>str. go (say env (lit '' %s |'') [Str str])),
       rd_str K env nid 0x1009 0 (\<lambda>str. go (say env (lit '' %s |'') [Str str])),
       rd_str K env nid 0x100A 0 (\<lambda>str. go (say env (fmt_ln '' %s'') [Str str]))]))"

definition can_fw_cb :: "('h, 'n) con_board \<Rightarrow> 'n can_board \<Rightarrow> ('h, 'n) con_app con_cb" where
  "can_fw_cb B K = cmd_arg (\<lambda>arg. run_flow (one_or_all K arg (fw_node K (cb_env B))))"

definition can_save_cb :: "('h, 'n) con_board \<Rightarrow> 'n can_board \<Rightarrow> ('h, 'n) con_app con_cb" where
  "can_save_cb B K = (let env = cb_env B in cmd_arg (\<lambda>arg. run_flow (one_or_all K arg (\<lambda>nid.
    sdo_write K nid 0x1010 1 (le32 0x73617665) 800 (\<lambda>sts.
      if sts \<noteq> 0 then say_write_abort env nid sts else go (say env (fmt_ln ''Save ID %d OK'') [W32 nid]))))))"

section \<open>Reading and writing objects\<close>

text \<open>A word as a single precision number: whether it is finite, and its value.\<close>

definition f32_finite :: "u32 \<Rightarrow> bool" where
  "f32_finite w \<longleftrightarrow> drop_bit 23 w AND 0xFF \<noteq> 0xFF"

definition f32_val :: "u32 \<Rightarrow> real" where
  "f32_val w =
    (let m = real (unat (w AND 0x7FFFFF)); x = unat (drop_bit 23 w AND 0xFF);
         v = (if x = 0 then m / 2 ^ 149 else (m + 2 ^ 23) * 2 ^ x / 2 ^ 150)
     in if bit w 31 then - v else v)"

definition say_value :: "con_env \<Rightarrow> bytes \<Rightarrow> 'w con_st \<Rightarrow> 'w con_st option" where
  "say_value env d = steps
    ((if length d = 1 then [say env (lit '' | (u8:%u, i8:%d)'') [W32 (ucast (d ! 0)), W32 (scast (d ! 0))]]
      else if length d = 2 then [say env (lit '' | (u16:%u, i16:%d)'') [W32 (ucast (rd16 d)), W32 (scast (rd16 d))]]
      else if length d = 4
      then [say env (lit '' | (u32:%lu, i32:%ld'') [W32 (rd32 d), W32 (rd32 d)],
            if f32_finite (rd32 d) then say env (lit '', float:%f)'') [Dbl (f32_val (rd32 d))] else say env (lit '')'') []]
      else []) @ [say env [0x0A, 0] []])"

definition sdo_rd_one :: "con_env \<Rightarrow> 'n can_board \<Rightarrow> u32 \<Rightarrow> u32 \<Rightarrow> u8 \<Rightarrow> ('h, 'n) con_app con_st \<Rightarrow> ('h, 'n) con_app con_st option" where
  "sdo_rd_one env K nid idx sub =
    steps [say env (lit ''Read %d node x%x:%d'') [W32 nid, W32 idx, W32 (ucast sub)],
      run_flow (sdo_read K nid (ucast idx) sub 256 3000 (\<lambda>sts bs. go (steps
        ([say env (lit '' | Status: x%x (%zu): '') [W32 sts, W32 (of_nat (rd_len 256 bs))]]
         @ (if sts \<noteq> 0 then [] else map (\<lambda>b. say env (lit ''%02x '') [W32 (ucast b)]) (the bs) @ [say_value env (the bs)])))))]"

text \<open>\<open>for(uint8_t sub = start; sub <= end; sub++)\<close>; a loop without end is \<open>None\<close>.\<close>

partial_function (option) sub_loop :: "(u8 \<Rightarrow> 's \<Rightarrow> 's option) \<Rightarrow> u8 \<Rightarrow> u8 \<Rightarrow> 's \<Rightarrow> 's option" where
  "sub_loop f cur end_sub st = (if cur \<le> end_sub then Option.bind (f cur st) (sub_loop f (cur + 1) end_sub) else Some st)"

definition sdo_rd_cb :: "('h, 'n) con_board \<Rightarrow> 'n can_board \<Rightarrow> ('h, 'n) con_app con_cb" where
  "sdo_rd_cb B K = (let env = cb_env B in cmd_arg (\<lambda>arg. case sscanf [S_u, S_blank, S_x, S_blank, S_u] arg of (n, vs) \<Rightarrow>
    (let nid = int_or 0 0 vs; idx = int_or 0 1 vs; subidx = int_or 0 2 vs; loop = sub_loop (sdo_rd_one env K nid idx)
     in if n \<noteq> 3 \<and> n \<noteq> 2 then say env (fmt_ln ''Wrong format! d:id hex:idx [d:sub]'') []
        else if n = 2
        then run_flow (sdo_read K nid (ucast idx) 0 256 3000 (\<lambda>sts bs.
          if sts \<noteq> 0 \<or> rd_len 256 bs = 0 then leave (say env (fmt_ln ''Failed to read sub 0 count. Status: x%x'') [W32 sts])
          else go (loop 1 (the bs ! 0))))
        else loop (ucast subidx) (ucast subidx))))"

definition pos_or :: "nat \<Rightarrow> nat \<Rightarrow> scan_val list \<Rightarrow> nat" where
  "pos_or d i vs = (if i < length vs then (case vs ! i of V_pos p \<Rightarrow> p | _ \<Rightarrow> d) else d)"

text \<open>Up to 32 bytes in hexadecimal.\<close>

fun sdo_wr_data :: "nat \<Rightarrow> bytes \<Rightarrow> bytes" where
  "sdo_wr_data 0 arg = []"
| "sdo_wr_data (Suc k) arg = (case sscanf [S_x, S_n] arg of (res, vs) \<Rightarrow>
    if res \<noteq> 1 then [] else ucast (int_or 0 0 vs) # sdo_wr_data k (drop (pos_or 0 1 vs) arg))"

definition sdo_wr_cb :: "('h, 'n) con_board \<Rightarrow> 'n can_board \<Rightarrow> ('h, 'n) con_app con_cb" where
  "sdo_wr_cb B K = (let env = cb_env B in cmd_arg (\<lambda>arg. case sscanf [S_u, S_blank, S_x, S_blank, S_u, S_n] arg of (n, vs) \<Rightarrow>
    (let nid = int_or 0 0 vs; idx = int_or 0 1 vs; subidx = int_or 0 2 vs; d = sdo_wr_data 32 (drop (pos_or 0 3 vs) arg)
     in if n < 3 then say env (fmt_ln ''Wrong format! d:id hex:idx d:sub hex:data...'') []
        else steps ([say env (lit ''Writing %d: x%x:%d (%d): '') [W32 nid, W32 idx, W32 subidx, W32 (of_nat (length d))]]
          @ map (\<lambda>b. say env (lit ''%x '') [W32 (ucast b)]) d
          @ [run_flow (sdo_write K nid (ucast idx) (ucast subidx) d 3000 (\<lambda>sts. go (say env (fmt_ln ''| Status: x%x'') [W32 sts])))]))))"

section \<open>Roles\<close>

definition say_role :: "con_env \<Rightarrow> 'n can_board \<Rightarrow> bytes \<Rightarrow> u32 \<Rightarrow> bytes \<Rightarrow> (bytes \<Rightarrow> ('h, 'n) con_app flow) \<Rightarrow> ('h, 'n) con_app flow" where
  "say_role env K f nid prod_id k = sdo_read K nid 0x1F58 0 16 800 (\<lambda>sts bs.
    if sts \<noteq> 0 then say_read_abort env nid sts
    else (let p = over 16 prod_id bs in flows [go (say env f [W32 nid, W32 (of_nat (rd_len 4 bs)), Str p]), k p]))"

fun roles :: "con_env \<Rightarrow> 'n can_board \<Rightarrow> nat list \<Rightarrow> bytes \<Rightarrow> ('h, 'n) con_app flow" where
  "roles env K [] prod_id st = Some (True, st)"
| "roles env K (i # is) prod_id st =
    (let x = nodes_now K st ! i
     in if HBstate x \<noteq> HB_UNKNOWN then say_role env K (fmt_ln ''#%d prod_id: %.*s'') (ucast (nodeId x)) prod_id (roles env K is) st
        else roles env K is prod_id st)"

text \<open>\<open>char str[32]\<close> is filled by \<open>%s\<close> without a limit.\<close>

definition can_role_cb :: "('h, 'n) con_board \<Rightarrow> 'n can_board \<Rightarrow> ('h, 'n) con_app con_cb" where
  "can_role_cb B K = (let env = cb_env B in cmd_arg (\<lambda>arg st. case sscanf [S_u, S_blank, S_s] arg of (n, vs) \<Rightarrow>
    (let nid = int_or 0 0 vs; str = (case drop 1 vs of V_str s # _ \<Rightarrow> s | _ \<Rightarrow> []);
         zero = replicate 16 0; prod_id = take 16 (str @ zero);
         show = (\<lambda>p. say_role env K (fmt_ln ''Current (#%d) prod_id: %.*s'') nid p (\<lambda>_. go (steps [])))
     in if length str \<ge> 32 then None
        else if n \<le> 0 then run_flow (roles env K [0..<length (nodes_now K st)] zero) st
        else if n = 2 then run_flow (sdo_write K nid 0x1F58 0 prod_id 800 (\<lambda>sts.
          if sts \<noteq> 0 then say_write_abort env nid sts else show prod_id)) st
        else run_flow (show zero) st)))"

section \<open>Resets\<close>

abbreviation CO_NMT_RESET_NODE :: u8 where "CO_NMT_RESET_NODE \<equiv> 129"
abbreviation CO_NMT_RESET_COMMUNICATION :: u8 where "CO_NMT_RESET_COMMUNICATION \<equiv> 130"

definition rst_steps :: "con_env \<Rightarrow> 'n can_board \<Rightarrow> bytes \<Rightarrow> bytes \<Rightarrow> u8 \<Rightarrow> bytes \<Rightarrow> (('h, 'n) con_app con_st \<Rightarrow> ('h, 'n) con_app con_st option) list" where
  "rst_steps env K all one c arg = (case sscanf [S_u] arg of (n, vs) \<Rightarrow>
    (let nid = (if n \<noteq> 1 then 0 else int_or 0 0 vs)
     in [if nid = 0 then say env all [] else say env one [W32 nid], on_bus (kb_nmt K c (ucast nid))]))"

definition can_rst_comm_cb :: "('h, 'n) con_board \<Rightarrow> 'n can_board \<Rightarrow> ('h, 'n) con_app con_cb" where
  "can_rst_comm_cb B K = cmd_arg (\<lambda>arg. steps (rst_steps (cb_env B) K (fmt_ln ''Resetting communication ALL nodes'')
    (fmt_ln ''Resetting communication %d node'') CO_NMT_RESET_COMMUNICATION arg))"

definition can_rst_cb :: "('h, 'n) con_board \<Rightarrow> 'n can_board \<Rightarrow> ('h, 'n) con_app con_cb" where
  "can_rst_cb B K = cmd_arg (\<lambda>arg. steps (rst_steps (cb_env B) K (fmt_ln ''Resetting ALL nodes'') (fmt_ln ''Resetting %d node'')
    CO_NMT_RESET_NODE arg))"

text \<open>Three trials at most; the last failure is reported.\<close>

fun freeze_node :: "con_env \<Rightarrow> 'n can_board \<Rightarrow> u8 \<Rightarrow> nat \<Rightarrow> ('h, 'n) con_app flow" where
  "freeze_node env K nd 0 = go (steps [])"
| "freeze_node env K nd (Suc r) = sdo_write K (ucast nd) 0x1F51 1 (le32 0) 250 (\<lambda>sts.
    if sts = 0 then go (say env (fmt_ln ''Node %d freezed'') [W32 (ucast nd)])
    else flows [go (if r = 0 then say env (fmt_ln ''Node %d freeze fail: x%x'') [W32 (ucast nd), W32 sts] else steps []),
      freeze_node env K nd r])"

definition can_rst_freeze_cb :: "('h, 'n) con_board \<Rightarrow> 'n can_board \<Rightarrow> ('h, 'n) con_app con_cb" where
  "can_rst_freeze_cb B K = (let env = cb_env B in cmd_arg (\<lambda>arg. steps
    (rst_steps env K (fmt_ln ''Resetting ALL nodes'') (fmt_ln ''Resetting %d node'') CO_NMT_RESET_NODE arg
     @ [on_bus (cl_delay (kb_sdo K) 100),
        run_flow (each_node K (\<lambda>x. if HBstate x \<noteq> HB_UNKNOWN then freeze_node env K (nodeId x) 3 else go (steps [])))])))"

section \<open>Addresses and bit rate\<close>

text \<open>The LSS address of a node: four words, each read in full.\<close>

fun rd_addr :: "'n can_board \<Rightarrow> con_env \<Rightarrow> u32 \<Rightarrow> u8 list \<Rightarrow> u32 list \<Rightarrow> (u32 list \<Rightarrow> ('h, 'n) con_app flow) \<Rightarrow> ('h, 'n) con_app flow" where
  "rd_addr K env nid [] acc k = k acc"
| "rd_addr K env nid (sub # subs) acc k = sdo_read K nid 0x1018 sub 4 800 (\<lambda>sts bs.
    if sts \<noteq> 0 \<or> rd_len 4 bs \<noteq> 4 then say_read_abort env nid sts else rd_addr K env nid subs (acc @ [rd32 (the bs)]) k)"

text \<open>
  \<open>sts\<close> is of the enumeration of SDO abort codes, which has no negative values and is an unsigned word, so both
  comparisons never hold.
\<close>

definition can_id_cb :: "('h, 'n) con_board \<Rightarrow> 'n can_board \<Rightarrow> ('h, 'n) con_app con_cb" where
  "can_id_cb B K = (let env = cb_env B; m = kb_lss K in cmd_arg (\<lambda>arg. case sscanf (scan_us 2) arg of (n, vs) \<Rightarrow>
    (let nid = int_or 0 0 vs; new_id = int_or 0 1 vs
     in if n \<noteq> 2 then say env (fmt_ln ''Wrong format'') []
        else run_flow (rd_addr K env nid [4, 5, 6, 7] [] (\<lambda>addr.
          lss_call (lss_helper_select m addr) (\<lambda>r. let sts = of_int r :: u32 in
            if sts < 0 then leave (say env (fmt_ln ''Error, select: %d'') [W32 sts])
            else lss_call (lss_helper_cfg_node_id m (ucast new_id)) (\<lambda>r. let sts = of_int r :: u32 in
              if sts < 0 then leave (say env (fmt_ln ''Error, cfg. node id: %d'') [W32 sts])
              else go (steps [on_bus (lss_helper_deselect m), say env (fmt_ln ''OK'') []]))))))))"

definition baud_node :: "con_env \<Rightarrow> 'n can_board \<Rightarrow> u32 \<Rightarrow> mon_node \<Rightarrow> ('h, 'n) con_app flow" where
  "baud_node env K baud x = (let m = kb_lss K; nd = ucast (nodeId x) in
    if HBstate x = HB_UNKNOWN then go (steps [])
    else rd_addr K env nd [4, 5, 6, 7] [] (\<lambda>addr. lss_call (lss_helper_select m addr) (\<lambda>sts.
      if sts < 0 then leave (say env (fmt_ln ''Error select node %d: (%d)'') [W32 nd, W32 (of_int sts)])
      else lss_call (lss_helper_cfg_bit_timing m (ucast baud)) (\<lambda>sts.
        if sts < 0 then leave (steps [on_bus (lss_helper_deselect m), say env (fmt_ln ''Error cfg. bit timing node %d: (%d)'') [W32 nd, W32 (of_int sts)]])
        else go (steps [on_bus (lss_helper_deselect m), say env (fmt_ln ''activate %d ok'') [W32 nd]])))))"

definition lss_activate :: "'n lss_master \<Rightarrow> u16 \<Rightarrow> 'n \<Rightarrow> (int \<times> u32 list \<times> 'n) option" where
  "lss_activate m ms n = (case lss_helper_activate_bit_timing m ms n of (r, n') \<Rightarrow> Some (r, [], n'))"

definition can_baud_cb :: "('h, 'n) con_board \<Rightarrow> 'n can_board \<Rightarrow> ('h, 'n) con_app con_cb" where
  "can_baud_cb B K = (let env = cb_env B; m = kb_lss K in cmd_arg (\<lambda>arg. case sscanf [S_u] arg of (n, vs) \<Rightarrow>
    (let baud = int_or 0 0 vs; bps = baud * 1000
     in if n \<noteq> 1 \<or> baud = 0 then look (\<lambda>w. say env (fmt_ln ''Wrong format, current baud: %d'') [W32 (ucast (pending_can_baud (ca_set w)) * 1000)])
        else if fst (can_drv_check_set_bitrate (sint bps) False (kb_can K)) \<noteq> sint bps
        then say env (fmt_ln ''Error! Baud %d not supported'') [W32 bps]
        else run_flow (flows
          [each_node K (baud_node env K baud),
           go (steps [upd (\<lambda>w. w\<lparr>ca_set := (ca_set w)\<lparr>pending_can_baud := ucast baud\<rparr>\<rparr>), say env (fmt_ln ''activate self ok'') []]),
           lss_call (lss_helper_select m []) (\<lambda>sts. if sts < 0
             then leave (steps [on_bus (lss_helper_deselect m), say env (fmt_ln ''Error global select: (%d)'') [W32 (of_int sts)]])
             else lss_call (lss_activate m 1000) (\<lambda>sts. if sts < 0
               then leave (steps [on_bus (lss_helper_deselect m), say env (fmt_ln ''Error activate bit timing: (%d)'') [W32 (of_int sts)]])
               else go (steps [on_bus (lss_helper_deselect m), say env (fmt_ln ''OK'') []])))]))))"

section \<open>The weather station\<close>

datatype met_type = M_u8 | M_i16 | M_u16 | M_32

definition met_size :: "met_type \<Rightarrow> nat" where
  "met_size t = (case t of M_u8 \<Rightarrow> 1 | M_i16 \<Rightarrow> 2 | M_u16 \<Rightarrow> 2 | M_32 \<Rightarrow> 4)"

definition met_va :: "met_type \<Rightarrow> bytes \<Rightarrow> va" where
  "met_va t d = W32 (case t of M_u8 \<Rightarrow> ucast (d ! 0) | M_i16 \<Rightarrow> scast (rd16 d) | M_u16 \<Rightarrow> ucast (rd16 d) | M_32 \<Rightarrow> rd32 d)"

text \<open>One line of the command: a text, or objects that are read (\<open>RSDO\<close>) and then printed together.\<close>

datatype met_step = M_say bytes | M_read "(u16 \<times> u8) list" met_type bytes

fun met_read :: "con_env \<Rightarrow> 'n can_board \<Rightarrow> u32 \<Rightarrow> (u16 \<times> u8) list \<Rightarrow> met_type \<Rightarrow> va list \<Rightarrow> (va list \<Rightarrow> ('h, 'n) con_app flow) \<Rightarrow> ('h, 'n) con_app flow" where
  "met_read env K nid [] t acc k = k acc"
| "met_read env K nid ((idx, sub) # os) t acc k = sdo_read K nid idx sub (met_size t) 800 (\<lambda>sts bs.
    if sts \<noteq> 0 \<or> rd_len (met_size t) bs \<noteq> met_size t
    then flows [go (say env (fmt_ln ''SDO read %d abort: x%x'') [W32 nid, W32 sts]), leave (fails CON_CB_SILENT)]
    else met_read env K nid os t (acc @ [met_va t (the bs)]) k)"

definition met_flow :: "con_env \<Rightarrow> 'n can_board \<Rightarrow> u32 \<Rightarrow> met_step \<Rightarrow> ('h, 'n) con_app flow" where
  "met_flow env K nid m = (case m of M_say f \<Rightarrow> go (say env f []) | M_read os t f \<Rightarrow> met_read env K nid os t [] (\<lambda>vs. go (say env f vs)))"

definition met_steps :: "met_step list" where
  "met_steps =
    [M_say (lit ''ADC: '')] @ map (\<lambda>i. M_read [(0x6000, of_nat i)] M_i16 (lit ''%04d '')) [1..<10]
    @ [M_say ([0x0A] @ lit ''GPS: ''),
       M_read [(0x6100, 1)] M_u16 (lit ''%d/''), M_read [(0x6100, 2)] M_u8 (lit ''%d/''), M_read [(0x6100, 3)] M_u8 (lit ''%d ''),
       M_read [(0x6100, 4)] M_u8 (lit ''%d:''), M_read [(0x6100, 5)] M_u8 (lit ''%d:''), M_read [(0x6100, 6)] M_u8 (lit ''%d | ''),
       M_read [(0x6100, 12)] M_32 (lit ''h %ld | ''), M_read [(0x6100, 13)] M_32 (lit ''hMSL %ld | ''),
       M_read [(0x6100, 18)] M_u8 (fmt_ln ''numSV %d''),
       M_read [(0x6100, 7)] M_32 (lit ''nano %ld | ''), M_read [(0x6100, 8)] M_32 (lit ''iTOW %ld | ''),
       M_read [(0x6100, 9)] M_32 (lit ''tAcc %ld | ''), M_read [(0x6100, 10)] M_32 (lit ''lon %ld | ''),
       M_read [(0x6100, 11)] M_32 (lit ''lat %ld | ''), M_read [(0x6100, 14)] M_32 (lit ''hAcc %ld | ''),
       M_read [(0x6100, 15)] M_32 (lit ''vAcc %ld | ''), M_read [(0x6100, 16)] M_32 (fmt_ln ''sAcc %ld''),
       M_read [(0x6100, 17)] M_32 (lit ''headAcc %ld | ''), M_read [(0x6100, 19)] M_32 (lit ''headMot %ld | ''),
       M_read [(0x6100, 20)] M_32 (lit ''velN %ld | ''), M_read [(0x6100, 21)] M_32 (lit ''velE %ld | ''),
       M_read [(0x6100, 22)] M_32 (lit ''velD %ld | ''), M_read [(0x6100, 23)] M_32 (lit ''gSpd %ld | ''),
       M_read [(0x6100, 24)] M_u16 (lit ''pDOP %d | ''), M_read [(0x6100, 25)] M_32 (fmt_ln ''flags x%lx''),
       M_say (lit ''Baro: ''), M_read [(0x6101, 1)] M_32 (lit ''%ld | Temp: ''), M_read [(0x6101, 2)] M_i16 (fmt_ln ''%d''),
       M_say (lit ''AHT21: Temp: ''), M_read [(0x6103, 1)] M_i16 (lit ''%d | Hum: ''), M_read [(0x6103, 2)] M_i16 (fmt_ln ''%d''),
       M_say (lit ''Meteo: WindA ''), M_read [(0x6102, 1)] M_32 (lit ''%ld | Head: ''), M_read [(0x6102, 10)] M_u16 (fmt_ln ''%d''),
       M_read (map (\<lambda>i. (0x6102, of_nat i)) [2..<10]) M_32 (fmt_ln ''E %ld NE %ld N %ld NW %ld W %ld SW %ld S %ld SE %ld''),
       M_say (lit ''RainA: ''), M_read [(0x6102, 11)] M_32 (lit ''%ld Temp: ''), M_read [(0x6102, 12)] M_i16 (lit ''%d Solar: ''),
       M_read [(0x6102, 14)] M_i16 (fmt_ln ''%d'')]"

definition can_meteo_cb :: "('h, 'n) con_board \<Rightarrow> 'n can_board \<Rightarrow> ('h, 'n) con_app con_cb" where
  "can_meteo_cb B K = cmd_arg (\<lambda>arg. case sscanf [S_u] arg of (n, vs) \<Rightarrow>
    if n \<noteq> 1 then say (cb_env B) (fmt_ln ''Wrong format!'') []
    else run_flow (flows (map (met_flow (cb_env B) K (int_or 0 0 vs)) met_steps)))"

section \<open>The table of commands\<close>

text \<open>\<open>other\<close> are the commands that only print states of CANopenNode, lwIP, the image headers and the MQTT client.\<close>

definition app_con_cmds :: "('h, 'n) con_board \<Rightarrow> 'n can_board \<Rightarrow> (string \<Rightarrow> ('h, 'n) con_app con_cb) \<Rightarrow> ('h, 'n) con_app con_cmds" where
  "app_con_cmds B K other = map (\<lambda>(name, f). (ascii name, Some f))
    [(''fw'', other ''fw''), (''info'', other ''info''), (''can'', other ''can''), (''reset'', reset_cb), (''read'', read_cb B),
     (''save'', save_cb B), (''ip'', ip_cb B), (''cfgstate'', cfg_state_cb B), (''lon'', lon_cb B), (''loff'', loff_cb B),
     (''adc'', adc_cb B), (''pc'', pc_cb B), (''time'', timedate_cb B), (''i2c_remap'', i2c_remap_cb B), (''fram'', fram_cb (kb_junk K) B),
     (''sock_mst_ip'', sock_mst_ip_cb B), (''sock_gw_ip'', sock_gw_ip_cb B), (''chb'', can_hb_cb B K), (''cfw'', can_fw_cb B K),
     (''csdor'', sdo_rd_cb B K), (''csdow'', sdo_wr_cb B K), (''csave'', can_save_cb B K), (''crstcomm'', can_rst_comm_cb B K),
     (''crstfrz'', can_rst_freeze_cb B K), (''crst'', can_rst_cb B K), (''cid'', can_id_cb B K), (''cemcy'', other ''cemcy''),
     (''cbaud'', can_baud_cb B K), (''crole'', can_role_cb B K), (''cmeteo'', can_meteo_cb B K), (''sli'', other ''sli''),
     (''gtw'', co_gtw_cb B), (''cfg_mains_sns'', cfg_mains_sns_cb B), (''cfg_poe_sw'', cfg_poe_sw_cb B), (''poe_sw'', poe_sw_cb B),
     (''mg'', mains_get_cb B), (''mr'', mains_rst_cb B), (''mqtt'', other ''mqtt''), (''route'', route_cb B)]"

section \<open>A print that fits\<close>

lemma con_print_sends:
  assumes "con_port s \<noteq> 0" "length (print_buf s) = 256" "list_all va_small args" "printf_text 0 fmt args = Some t"
    "length t < 255" "env_ram env (length (con_sent s)) (Suc (length t))"
  shows "\<exists>b. length b = 256
    \<and> con_print env fmt args s = Some (s\<lparr>print_buf := b, con_sent := con_sent s @ [(con_addr s, con_port s, t @ [0])]\<rparr>)"
proof -
  let ?b = "t @ 0 # drop (Suc (length t)) (print_buf s)"
  have v: "printf_vsnprintf (Some (print_buf s)) 255 fmt args = Some (length t, Some ?b)"
    using vsnprintf_written [of args fmt t 255 "print_buf s"] assms by (simp add: min_absorb2)
  have "?b[length t := 0] = ?b" by (simp add: list_update_append)
  then show ?thesis using assms(1,2,5,6) by (intro exI [of _ ?b]) (simp add: con_print_def v Let_def)
qed

section \<open>Addresses\<close>

definition dotted :: "u8 \<Rightarrow> u8 \<Rightarrow> u8 \<Rightarrow> u8 \<Rightarrow> bytes" where
  "dotted a b c d = dec_digits (unat a) @ 0x2E # dec_digits (unat b) @ 0x2E # dec_digits (unat c) @ 0x2E # dec_digits (unat d)"

lemma unat_u8_less: "unat (a :: u8) < 256"
  using unsigned_less [of a] by simp

lemma of_nat_unat_u8: "(of_nat (unat (a :: u8)) :: u32) = ucast a"
  by (rule of_nat_unat)

lemma dotted_digits: "x \<in> set (dotted a b c d) \<Longrightarrow> is_dec x \<or> x = 0x2E"
  using dec_digits_dec by (auto simp: dotted_def)

lemma dotted_plain: "0 \<notin> set (dotted a b c d)" "0x25 \<notin> set (dotted a b c d)"
  using dotted_digits [of 0 a b c d] dotted_digits [of "0x25" a b c d] by (auto simp: is_dec_def)

lemma scan_dotted:
  "sscanf scan_ip (0x20 # dotted a b c d @ 0x0A # 0 # r) = (4, map (\<lambda>x. V_int (ucast x)) [a, b, c, d])"
proof -
  let ?s = "0x20 # dotted a b c d @ [0x0A]"
  have "0 \<notin> set ?s" using dotted_plain by simp
  then have c: "c_str (0x20 # dotted a b c d @ 0x0A # 0 # r) = ?s" using c_str_append_zero [of ?s r] by simp
  have l: "unat (x :: u8) < 4294967296" for x using unat_u8_less [of x] by simp
  have n: "\<not> is_dec 0x2E" "\<not> is_dec 0x0A" "is_space 0x20" by (simp_all add: is_dec_def is_space_def)
  have "scan_items k scan_ip ?s = (map (\<lambda>x. V_int (ucast x)) [a, b, c, d], False)" for k
  proof -
    have "scan_items k scan_ip ?s = scan_items k scan_ip (dotted a b c d @ [0x0A])" by (simp add: scan_ip_def n)
    also have "\<dots> = (map (\<lambda>x. V_int (ucast x)) [a, b, c, d], False)"
      unfolding scan_ip_def dotted_def append_assoc append_Cons
      by (simp add: scan_items_dec l n of_nat_unat_u8 del: scan_items.simps(2))
    finally show ?thesis .
  qed
  then show ?thesis by (simp add: sscanf_def c counted_def)
qed

lemma printf_dotted:
  assumes "0 \<notin> set l" "0x25 \<notin> set l"
  shows "printf_text 0 (l @ ascii ''%d.%d.%d.%d'' @ [0x0A, 0]) (ip_va [a, b, c, d]) = Some (l @ dotted a b c d @ [0x0A])"
proof -
  let ?ps = "[(l, True, False, ucast a), ([0x2E], True, False, ucast b), ([0x2E], True, False, ucast c), ([0x2E], True, False, ucast d)]"
  have s: "sint (ucast x :: u32) = int (unat x)" for x :: u8
  proof -
    have u: "uint (ucast x :: u32) = uint x" by (rule uint_up_ucast) (simp add: is_up)
    have "uint x < 2 ^ LENGTH(8)" by (rule unsigned_less)
    then have "signed_take_bit 31 (uint x) = uint x" using order_trans [of "- 2147483648" 0 "uint x"] by (intro signed_take_bit_int_eq_self) simp_all
    then show ?thesis by (simp add: sint_uint u)
  qed
  have n: "ucast x \<noteq> (0x80000000 :: u32)" for x :: u8
  proof
    assume "ucast x = (0x80000000 :: u32)"
    then have "sint (0x80000000 :: u32) = int (unat x)" using s [of x] by simp
    then have "uint x = - 2147483648" by simp
    moreover have "0 \<le> uint x" by simp
    ultimately show False by linarith
  qed
  have "list_all part_ok ?ps" using assms n by simp
  from loop_parts [OF _ _ this, of "[0x0A]" out_text "(0, [])"] show ?thesis
    by (simp add: printf_text_def emits_out_text ip_va_def ascii_def dotted_def int_digits_def s)
qed


lemma length_dotted: "length (dotted a b c d) \<le> 15"
proof -
  have "length (dec_digits (unat x)) \<le> 3" for x :: u8 using unat_u8_less [of x] by (intro length_dec_digits) simp_all
  from this [of a] this [of b] this [of c] this [of d] show ?thesis by (simp add: dotted_def)
qed

lemma app_con_cmds_names: "map fst (app_con_cmds B K other) = app_con_names"
  by (simp add: app_con_cmds_def app_con_names_def)

lemma app_dispatch:
  assumes "(name, Some f) \<in> set (app_con_cmds B K other)" "sep = 0x20 \<or> sep = 0x0A \<or> sep = 0"
  shows "con_dispatch env (app_con_cmds B K other) (name @ sep # rest) len st = con_run env name f (name @ sep # rest) len st"
proof -
  have "list_all (\<lambda>n. 0 \<notin> set n \<and> sep \<notin> set n) app_con_names"
    using assms(2) con_names_ok by (auto simp: list_all_iff)
  then show ?thesis
    using con_names_ok assms(1) by (intro con_dispatch_first) (simp_all only: app_con_cmds_names)
qed

text \<open>A request that is a line of its own, not the repetition of the last one.\<close>

lemma cb_udp_line:
  assumes "l \<noteq> []" "l \<noteq> [0x0A]" "length l < 256" "hd l \<noteq> 0x68" "hd l \<noteq> 0x23" "hd l \<noteq> 0" "0 \<notin> set l"
  shows "\<exists>s2. cb_udp_console env cmds (l @ x # rest) (length l) addr port (s, w)
      = map_option (\<lambda>st. (st, True)) (con_dispatch env cmds (l @ 0 # rest) (length l) (s2, w))
    \<and> con_addr s2 = addr \<and> con_port s2 = port \<and> print_buf s2 = print_buf s \<and> con_sent s2 = con_sent s"
proof -
  have d: "(l @ x # rest)[length l := 0] = l @ 0 # rest" by (simp add: list_update_append)
  have c: "c_str (l @ 0 # rest) = l" using assms(7) by simp
  have h: "\<not> strncmp_eq 4 (l @ 0 # rest) (lit ''help'')" using assms(1,4)
    by (cases l) (simp_all add: lit_def ascii_def numeral_eq_Suc of_char_of)
  have z: "(l @ 0 # rest) ! 0 = hd l" using assms(1) by (cases l) simp_all
  have k: "con_command env cmds (l @ 0 # rest) (length l) st = con_dispatch env cmds (l @ 0 # rest) (length l) st" for st
    using h assms(2,5,6) by (simp add: con_command_def c z)
  have o: "\<not> (length l = 1 \<and> (l @ 0 # rest) ! 0 = 0x0A)" using assms(2) by (cases l) (auto simp: length_Suc_conv)
  let ?s0 = "s\<lparr>con_stay_in_boot := True, con_addr := addr, con_port := port\<rparr>"
  let ?s1 = "if port \<noteq> prev_port ?s0 then ?s0\<lparr>prev_port := port, prev_request := (prev_request ?s0)[0 := 0]\<rparr> else ?s0"
  let ?s2 = "?s1\<lparr>prev_request := l @ 0 # drop (Suc (length l)) (prev_request ?s1), prev_request_len := length l\<rparr>"
  have "cb_udp_console env cmds (l @ x # rest) (length l) addr port (s, w)
      = map_option (\<lambda>st. (st, True)) (con_dispatch env cmds (l @ 0 # rest) (length l) (?s2, w))"
    unfolding cb_udp_console_def Let_def d if_not_P [OF o] using assms(3) by (simp add: k)
  moreover have "con_addr ?s2 = addr" "con_port ?s2 = port" "print_buf ?s2 = print_buf s" "con_sent ?s2 = con_sent s"
    by simp_all
  ultimately show ?thesis by blast
qed


lemma ip_cb_sets:
  assumes "con_port s \<noteq> 0" "length (print_buf s) = 256" "\<forall>n < 40. env_ram (cb_env B) (length (con_sent s)) n"
  shows "\<exists>s'. ip_cb B (Some (0x20 # dotted a b c d @ 0x0A # 0 # r)) n e (s, w)
      = Some (e, s', w\<lparr>ca_set := (ca_set w)\<lparr>cfg_ip_address := [a, b, c, d]\<rparr>\<rparr>)
    \<and> con_sent s' = con_sent s @ [(con_addr s, con_port s, ascii ''OK, New IP: '' @ dotted a b c d @ [0x0A, 0])]"
proof -
  let ?t = "ascii ''OK, New IP: '' @ dotted a b c d @ [0x0A]"
  have t: "printf_text 0 (fmt_ln ''OK, New IP: %d.%d.%d.%d'') (ip_va [a, b, c, d]) = Some ?t"
    using printf_dotted [of "ascii ''OK, New IP: ''" a b c d] by (simp add: fmt_ln_def ascii_def)
  have l: "length ?t < 39" using length_dotted [of a b c d] by simp
  then have r: "env_ram (cb_env B) (length (con_sent s)) (Suc (length ?t))" using assms(3) by simp
  have v: "list_all va_small (ip_va [a, b, c, d])" by (simp add: ip_va_def va_small_def)
  from con_print_sends [OF assms(1,2) v t _ r] l obtain b' where p: "con_print (cb_env B) (fmt_ln ''OK, New IP: %d.%d.%d.%d'') (ip_va [a, b, c, d]) s
      = Some (s\<lparr>print_buf := b', con_sent := con_sent s @ [(con_addr s, con_port s, ?t @ [0])]\<rparr>)"
    by auto
  obtain x xs where x: "dec_digits (unat a) = x # xs" using dec_digits_nonempty by (cases "dec_digits (unat a)") auto
  then have "is_dec x" using dec_digits_dec [of "unat a"] by simp
  then have xz: "x \<noteq> 0" "\<not> is_space x" by (auto simp: is_dec_def is_space_def word_le_nat_alt)
  have sp: "is_space 0x20" by (simp add: is_space_def)
  have na: "\<not> no_args (0x20 # dotted a b c d @ 0x0A # 0 # r)"
    using xz by (simp add: no_args_def c_str_def dotted_def x sp)
  have big: "\<not> (255 < (ucast y :: u32))" for y :: u8
    using unat_u8_less [of y] by (simp add: word_less_nat_alt unat_ucast_u8)
  have uc: "ucast (ucast y :: u32) = y" for y :: u8 by (rule ucast_up_ucast_id) (simp add: is_up)
  show ?thesis
    using p by (simp add: ip_cb_def cmd_arg_def set_ip_cb_def scan_dotted na int_or_def big uc upd_def say_def Let_def)
qed


text \<open>C28: the line \<open>ip a.b.c.d\<close> sent to the console of the gateway from any address, whatever console and gateway did
  before, sets the address of the gateway to exactly these four bytes, changes nothing else of the program, is
  answered with the same address in one datagram to the sender, and gives its buffer back.
\<close>

theorem console_sets_ip:
  assumes "length (print_buf s) = 256" "port \<noteq> 0" "\<forall>n < 40. env_ram (cb_env B) (length (con_sent s)) n"
    and "line = ascii ''ip '' @ dotted a b c d @ [0x0A]"
  shows "\<exists>s'. cb_udp_console (cb_env B) (app_con_cmds B K other) (line @ x # rest) (length line) addr port (s, w)
      = Some ((s', w\<lparr>ca_set := (ca_set w)\<lparr>cfg_ip_address := [a, b, c, d]\<rparr>\<rparr>), True)
    \<and> con_sent s' = con_sent s @ [(addr, port, ascii ''OK, New IP: '' @ dotted a b c d @ [0x0A, 0])]"
proof -
  have l: "line = ascii ''ip'' @ 0x20 # dotted a b c d @ [0x0A]" using assms(4) by (simp add: ascii_def)
  have h: "hd line = 0x69" "line \<noteq> []" "line \<noteq> [0x0A]" by (simp_all add: l ascii_def)
  have z: "0 \<notin> set line" using dotted_plain(1) by (simp add: l ascii_def)
  have n: "length line < 256" "length line > 2" using length_dotted [of a b c d] by (simp_all add: l)
  obtain s2 where s2: "cb_udp_console (cb_env B) (app_con_cmds B K other) (line @ x # rest) (length line) addr port (s, w)
      = map_option (\<lambda>st. (st, True)) (con_dispatch (cb_env B) (app_con_cmds B K other) (line @ 0 # rest) (length line) (s2, w))"
    "con_addr s2 = addr" "con_port s2 = port" "print_buf s2 = print_buf s" "con_sent s2 = con_sent s"
    using cb_udp_line [OF h(2,3) n(1) _ _ _ z] h(1) by fastforce
  have m: "(ascii ''ip'', Some (ip_cb B)) \<in> set (app_con_cmds B K other)" by (simp add: app_con_cmds_def)
  have e: "line @ 0 # rest = ascii ''ip'' @ 0x20 # dotted a b c d @ 0x0A # 0 # rest" by (simp add: l)
  obtain s' where s': "ip_cb B (Some (0x20 # dotted a b c d @ 0x0A # 0 # rest)) (int (length line) - 2) 1 (s2, w)
      = Some (1, s', w\<lparr>ca_set := (ca_set w)\<lparr>cfg_ip_address := [a, b, c, d]\<rparr>\<rparr>)"
    "con_sent s' = con_sent s2 @ [(addr, port, ascii ''OK, New IP: '' @ dotted a b c d @ [0x0A, 0])]"
    using ip_cb_sets [of s2 B a b c d rest "int (length line) - 2" 1 w] assms(1-3) s2 by auto
  have "con_dispatch (cb_env B) (app_con_cmds B K other) (line @ 0 # rest) (length line) (s2, w)
      = Some (s', w\<lparr>ca_set := (ca_set w)\<lparr>cfg_ip_address := [a, b, c, d]\<rparr>\<rparr>)"
    unfolding e app_dispatch [OF m disjI1 [OF refl]] using s'(1) n by (simp add: con_run_def con_report_def Let_def)
  with s2 s' show ?thesis by auto
qed

definition ex_con_board :: "(unit, unit) con_board" where
  "ex_con_board = \<lparr>cb_env = ex_env, cb_crc = (\<lambda>_ _. 0), cb_flash = nor_dev,
    cb_spi = \<lparr>spi_byte = (\<lambda>b _. (b, ())), spi_cs = (\<lambda>_ _. ())\<rparr>, cb_rtc_ok = (\<lambda>_. True), cb_pc_on = False,
    cb_gtw = (\<lambda>bs _. (length bs, ()))\<rparr>"

lemma console_sets_ip_witness:
  "\<forall>(K :: unit can_board) other w. \<exists>s'.
    cb_udp_console ex_env (app_con_cmds ex_con_board K other) (ascii ''ip 10.0.0.77'' @ [0x0A, 0xEE]) 13 0x0A000002 2000 (con_boot, w)
      = Some ((s', w\<lparr>ca_set := (ca_set w)\<lparr>cfg_ip_address := [10, 0, 0, 77]\<rparr>\<rparr>), True)
    \<and> con_sent s' = [(0x0A000002, 2000, ascii ''OK, New IP: 10.0.0.77'' @ [0x0A, 0])]"
proof (intro allI)
  fix K :: "unit can_board" and other w
  have d: "dotted 10 0 0 77 = ascii ''10.0.0.77''" by code_simp
  have b: "length (print_buf con_boot) = 256" "(2000 :: u16) \<noteq> 0" "con_sent con_boot = []" by (simp_all add: con_boot_def)
  have m: "\<forall>n < 40. env_ram (cb_env ex_con_board) (length (con_sent con_boot)) n" by (simp add: ex_con_board_def ex_env_def)
  from console_sets_ip [OF b(1,2) m refl, where a = 10 and b = 0 and c = 0 and d = 77 and K = K and other = other and x = "0xEE"
      and rest = "[]" and addr = "0x0A000002" and w = w]
  show "\<exists>s'. cb_udp_console ex_env (app_con_cmds ex_con_board K other) (ascii ''ip 10.0.0.77'' @ [0x0A, 0xEE]) 13 0x0A000002 2000 (con_boot, w)
      = Some ((s', w\<lparr>ca_set := (ca_set w)\<lparr>cfg_ip_address := [10, 0, 0, 77]\<rparr>\<rparr>), True)
    \<and> con_sent s' = [(0x0A000002, 2000, ascii ''OK, New IP: 10.0.0.77'' @ [0x0A, 0])]"
    by (simp add: d b ex_con_board_def ascii_def numeral_eq_Suc)
qed

section \<open>Channel masks\<close>

lemma bit_BIT_WR:
  assumes "b < 32" "i < 32"
  shows "bit (BIT_WR reg b v) i = (if i = unat b then v \<noteq> 0 else bit reg i)"
  using assms by (auto simp: BIT_WR_def bit_simps word_less_nat_alt)

end
