(* ===== verification/Console_Inv.thy ===== *)
theory Console_Inv
  imports Console_Can
begin

text \<open>
  What no command of the gateway's console can break: the invariants of the components it works on, for every
  request, and for every behaviour of the memory chip, the flash, the bus and the nodes on it.  The locale
  \<open>con_inv\<close> is the contract between the console and the program it changes: an invariant that printing and the bus keep.
\<close>

section \<open>The table of settings keeps its shape\<close>

definition cfg_shape :: "config_entry \<Rightarrow> bytes \<times> u16 \<times> nat option" where
  "cfg_shape e = (ce_key e, ce_size e, map_option length (ce_data e))"

definition gw_shapes :: "(bytes \<times> u16 \<times> nat option) list" where
  "gw_shapes = map cfg_shape (device_config (settings_default 0))"

definition shaped :: "cfg_st \<Rightarrow> bool" where
  "shaped c \<longleftrightarrow> map cfg_shape (g_device_config c) = gw_shapes"

lemma gw_shapes_eq: "gw_shapes =
  [(ascii ''can_id'', 1, Some 1), (ascii ''can_baud'', 2, Some 2), (ascii ''hb_prod_ms'', 2, Some 2), (ascii ''ip'', 4, Some 4),
   (ascii ''ip_mst'', 4, Some 4), (ascii ''ip_gw'', 20, Some 20), (ascii ''mains_chnls'', 4, Some 4), (ascii ''poe_sw'', 4, Some 4),
   (ascii ''i2c_remap'', 1, Some 1)]"
  by (simp add: gw_shapes_def device_config_def cfg_shape_def settings_default_def rd_le)

lemma device_config_shape: "settings_ok g \<Longrightarrow> map cfg_shape (device_config g) = gw_shapes"
  by (simp add: gw_shapes_eq device_config_def cfg_shape_def settings_ok_def rd_le)

lemma length_gw_shapes: "length gw_shapes = 9"
  by (simp add: gw_shapes_eq)

lemma shaped_nth:
  assumes "map cfg_shape es = gw_shapes" "i < 9"
  shows "cfg_shape (es ! i) = gw_shapes ! i" "length es = 9"
proof -
  show l: "length es = 9" using assms(1) length_gw_shapes by (metis length_map)
  show "cfg_shape (es ! i) = gw_shapes ! i" using assms l by (metis nth_map)
qed

lemma settings_of_ok:
  assumes "map cfg_shape es = gw_shapes"
  shows "settings_ok (settings_of es)"
  using shaped_nth(1) [OF assms, of 3] shaped_nth(1) [OF assms, of 4] shaped_nth(1) [OF assms, of 5]
  by (auto simp: settings_ok_def settings_of_def Let_def gw_shapes_eq cfg_shape_def)

lemma cfg_in_shaped:
  assumes "settings_ok g" "shaped c"
  shows "shaped (cfg_in g c)"
proof -
  note d = shaped_nth [OF device_config_shape [OF assms(1)]] and t = shaped_nth [OF assms(2) [unfolded shaped_def]]
  have "map cfg_shape (map2 (\<lambda>e r. e\<lparr>ce_data := ce_data r\<rparr>) (g_device_config c) (device_config g)) = gw_shapes"
  proof (rule nth_equalityI)
    fix i assume "i < length (map cfg_shape (map2 (\<lambda>e r. e\<lparr>ce_data := ce_data r\<rparr>) (g_device_config c) (device_config g)))"
    then have i: "i < 9" using d(2) [of 0] t(2) [of 0] by simp
    show "map cfg_shape (map2 (\<lambda>e r. e\<lparr>ce_data := ce_data r\<rparr>) (g_device_config c) (device_config g)) ! i = gw_shapes ! i"
      using d(1) [OF i, symmetric] t(1) [OF i] i d(2) [of 0] t(2) [of 0] by (auto simp: cfg_shape_def)
  qed (use d(2) [of 0] t(2) [of 0] length_gw_shapes in simp)
  then show ?thesis by (simp add: shaped_def cfg_in_def)
qed

lemma find_entry_shape: "map cfg_shape (snd (find_entry p off es)) = map cfg_shape es"
  by (induction es) (auto simp: cfg_shape_def split: prod.split)

lemma parse_byte_shaped: "shaped (snd (parse_byte addr b st)) = shaped st"
proof -
  have "map cfg_shape es' = map cfg_shape es" if "find_entry p off es = (r, es')" for p off es r es'
    using find_entry_shape [of p off es] that by simp
  then show ?thesis
    by (auto simp: shaped_def parse_byte_def parse_value_def Let_def split: sts_t.split prod.split)
qed

lemma parse_data_shaped: "shaped (snd (parse_data addr bs st)) = shaped st"
proof (induction bs arbitrary: addr st)
  case (Cons b bs)
  then show ?case using parse_byte_shaped [of addr b st]
    by (cases "parse_byte addr b st") (auto simp: and_then_def)
qed simp

lemma validate_loop_shaped: "shaped (snd (validate_loop off n st)) = shaped st"
proof (induction off n st rule: validate_loop.induct)
  case (1 off n st)
  let ?sz = "if BUFFER_SIZE > n - off then n - off else BUFFER_SIZE"
  show ?case
  proof (cases "parse_data (CFG_ORIGIN + of_nat off) (cfg_read st off ?sz) st")
    case (Pair r st1)
    then have s: "shaped st1 = shaped st" using parse_data_shaped [of "CFG_ORIGIN + of_nat off" "cfg_read st off ?sz" st] by simp
    show ?thesis
    proof (cases "r \<noteq> CONFIG_STS_OK \<or> off + ?sz \<ge> n")
      case True
      then show ?thesis by (subst validate_loop.simps) (auto simp: Let_def Pair s [unfolded shaped_def] shaped_def split: if_splits)
    next
      case False
      then have "shaped (snd (validate_loop (off + ?sz) n st1)) = shaped st1"
        using 1 [OF refl Pair [symmetric]] by blast
      with False show ?thesis by (subst validate_loop.simps) (simp add: Let_def Pair s)
    qed
  qed
qed

lemma config_validate_shaped: "shaped (snd (config_validate dr st)) = shaped st"
proof -
  have "shaped (snd (validate_loop 4 n (st\<lparr>config_valid := False, crc_reg := r, cfg_parser := parser_zero\<rparr>))) = shaped st" for n r
    unfolding validate_loop_shaped by (simp add: shaped_def)
  then show ?thesis by (simp add: config_validate_def Let_def) (simp add: shaped_def)
qed

lemma config_read_shaped:
  assumes "shaped st"
  shows "shaped (config_read_storage st)"
proof -
  have "cfg_shape (read_entry fl e) = cfg_shape e" if "e \<in> set (g_device_config st)" for fl e
  proof -
    have "cfg_shape e \<in> set gw_shapes" using that assms unfolding shaped_def by (metis image_eqI set_map)
    then have "\<exists>d. ce_data e = Some d \<and> length d = unat (ce_size e)" by (auto simp: gw_shapes_eq cfg_shape_def)
    moreover have "unat (ucast (w :: u16) :: u32) = unat w" for w
    proof -
      have "unat w < 2 ^ LENGTH(16)" by (rule unsigned_less)
      then show ?thesis by (simp add: unsigned_ucast_eq take_bit_nat_eq_self)
    qed
    ultimately show ?thesis by (auto simp: cfg_shape_def read_entry_def platform_flash_read_def length_mem_bytes)
  qed
  then show ?thesis using assms by (simp add: shaped_def config_read_storage_def cong: map_cong)
qed

text \<open>Saving leaves the table alone.\<close>

definition same_entries :: "(cfg_st \<Rightarrow> config_sts \<times> cfg_st) \<Rightarrow> bool" where
  "same_entries f \<longleftrightarrow> (\<forall>st. g_device_config (snd (f st)) = g_device_config st)"

lemma same_entries_then [intro]: "same_entries f \<Longrightarrow> same_entries g \<Longrightarrow> same_entries (and_then z f g)"
  by (auto simp: same_entries_def and_then_def split: prod.split) (metis snd_conv)+

lemma same_entries_each [intro]: "(\<And>x. same_entries (f x)) \<Longrightarrow> same_entries (each_then CONFIG_STS_OK f xs)"
proof (induction xs)
  case (Cons x xs)
  from same_entries_then [OF Cons.prems Cons.IH [OF Cons.prems], of CONFIG_STS_OK x] show ?case by (simp add: same_entries_def)
qed (simp add: same_entries_def)

lemma flush_loop_entries: "same_entries (flush_loop dr dev now bs)"
proof (induction bs)
  case (Cons b bs)
  have "same_entries (flush_byte dr dev n b)" for n
    by (auto simp: same_entries_def flush_byte_def Let_def split: prod.split)
  from same_entries_then [OF this Cons, of CONFIG_STS_OK "bs = [] \<and> now"] show ?case by (simp add: same_entries_def)
qed (simp add: same_entries_def)

lemma flush_data_entries [intro]: "same_entries (flush_data_calc_crc dr dev d now)"
  using flush_loop_entries [of dr dev now d] by (simp add: same_entries_def flush_data_calc_crc_def)


lemma write_image_entries: "g_device_config (snd (write_image dr dev n z olds st)) = g_device_config st"
proof -
  have e: "same_entries (write_entry dr dev x)" for x
    unfolding write_entry_def by (intro same_entries_then flush_data_entries)
  have o: "same_entries (write_old dr dev x)" for x
    by (cases x) (simp add: write_old_def, intro same_entries_then flush_data_entries)
  have c: "same_entries (write_crc dr dev)"
    using flush_data_entries by (simp add: same_entries_def write_crc_def Let_def)
  have f: "same_entries (\<lambda>st. (CONFIG_STS_OK, st\<lparr>config_valid := True\<rparr>))" by (simp add: same_entries_def)
  have "same_entries (\<lambda>st'. and_then CONFIG_STS_OK (flush_data_calc_crc dr dev (le32 n) False)
    (and_then CONFIG_STS_OK (each_then CONFIG_STS_OK (write_old dr dev) olds)
    (and_then CONFIG_STS_OK (each_then CONFIG_STS_OK (write_entry dr dev) (g_device_config st))
    (and_then CONFIG_STS_OK (flush_data_calc_crc dr dev (replicate (unat z) 0) False)
    (and_then CONFIG_STS_OK (write_crc dr dev) (\<lambda>st. (CONFIG_STS_OK, st\<lparr>config_valid := True\<rparr>)))))) st')"
    by (intro same_entries_then same_entries_each flush_data_entries e o c f)
  then have "g_device_config (snd (write_image dr dev n z olds st)) = g_device_config (write_begin st)"
    by (simp add: same_entries_def write_image_def)
  then show ?thesis by (simp add: write_begin_def)
qed

lemma config_write_entries:
  assumes "config_write_storage dr dev st = Some (sts, st')"
  shows "g_device_config st' = g_device_config st"
proof -
  have w: "g_device_config x = g_device_config y" if "write_image dr dev n z o' y = (r, x)" for r x y n z o'
    using write_image_entries [of dr dev n z o' y] that by simp
  have f: "g_device_config x = g_device_config st" if "config_write_fresh dr dev st = (r, x)" for r x
    using that w by (fastforce simp: config_write_fresh_def Let_def split: if_splits)
  have m: "g_device_config x = g_device_config st" if "config_write_merge dr dev st = Some (r, x)" for r x
    using that w by (fastforce simp: config_write_merge_def Let_def split: if_splits option.splits)
  show ?thesis using assms f m by (auto simp: config_write_storage_def split: if_splits)
qed

section \<open>A print keeps its buffer\<close>

definition keeps_out :: "'o out_fct \<Rightarrow> ('o \<Rightarrow> bool) \<Rightarrow> bool" where
  "keeps_out out Q \<longleftrightarrow> (\<forall>c i b. Q b \<longrightarrow> Q (out c i b))"

lemma emits_keeps: "keeps_out out Q \<Longrightarrow> Q (snd st) \<Longrightarrow> Q (snd (Printf.emits out cs st))"
proof (induction cs arbitrary: st)
  case (Cons c cs)
  moreover have "Q (snd (emit out c st))" using Cons.prems by (cases st) (simp add: keeps_out_def)
  ultimately show ?case by simp
qed simp

lemma emit_keeps: "keeps_out out Q \<Longrightarrow> Q (snd st) \<Longrightarrow> Q (snd (emit out c st))"
  using emits_keeps [of out Q st "[c]"] by simp

lemma ntoa_long_keeps: "keeps_out out Q \<Longrightarrow> Q (snd st) \<Longrightarrow> ntoa_long out v neg b p w fl st = Some st' \<Longrightarrow> Q (snd st')"
  using emits_keeps [of out Q st] by (auto simp: ntoa_long_emits)

lemma ftoa_keeps: "keeps_out out Q \<Longrightarrow> Q (snd st) \<Longrightarrow> ftoa out v p w fl st = Some st' \<Longrightarrow> Q (snd st')"
  using emits_keeps [of out Q st] by (auto simp: ftoa_def Let_def put_padded_emits split: if_splits prod.splits)

lemma spec_int_keeps:
  assumes "keeps_out out Q" "Q (snd st)" "spec_int out c p w fl args st = Some (a, st')"
  shows "Q (snd st')"
  using assms(3) ntoa_long_keeps [OF assms(1,2)]
  by (auto simp: spec_int_def spec_signed_def spec_unsigned_def Let_def bind_eq_Some_conv split: if_splits)

lemma specifier_keeps:
  assumes "keeps_out out Q" "Q (snd st)" "specifier out c p w fl args st = Some (a, st')"
  shows "Q (snd st')"
proof -
  note k = emits_keeps [OF assms(1)] emit_keeps [OF assms(1)]
  have "Q (snd st')" if "spec_char out w fl args st = Some (a, st')"
    using that assms(2) by (auto simp: spec_char_def Let_def bind_eq_Some_conv intro!: k simp del: split_paired_All split: if_splits)
  moreover have "Q (snd st')" if "spec_str out p w fl args st = Some (a, st')"
    using that assms(2) by (auto simp: spec_str_def Let_def bind_eq_Some_conv intro!: k split: if_splits)
  moreover have "Q (snd st')" if "spec_ptr out p fl args st = Some (a, st')"
    using that ntoa_long_keeps [OF assms(1,2)] by (auto simp: spec_ptr_def bind_eq_Some_conv)
  moreover have "Q (snd st')" if "ftoa out v p w fl st = Some st'" for v
    using that ftoa_keeps [OF assms(1,2)] by blast
  ultimately show ?thesis using assms(3) spec_int_keeps [OF assms(1,2)] k(2) [OF assms(2)]
    unfolding specifier_def by (auto simp: bind_eq_Some_conv split: if_splits)
qed

lemma directive_keeps:
  "keeps_out out Q \<Longrightarrow> Q (snd st) \<Longrightarrow> directive out f args st = Some (f', a, st') \<Longrightarrow> Q (snd st')"
  by (auto simp: directive_def bind_eq_Some_conv dest: specifier_keeps)

lemma loop_keeps:
  "keeps_out out Q \<Longrightarrow> Q (snd st) \<Longrightarrow> vsnprintf_loop out f args st = Some st' \<Longrightarrow> Q (snd st')"
proof (induction out f args st rule: vsnprintf_loop.induct)
  case (2 out c f args st)
  show ?case
  proof (cases "c = 0 \<or> c \<noteq> 0x25")
    case True
    then show ?thesis using 2 emit_keeps [OF 2(3,4)] by (auto split: if_splits)
  next
    case False
    then obtain f' a st1 where d: "directive out f args st = Some (f', a, st1)"
      using 2(5) by (auto split: option.splits)
    show ?thesis using 2(2) [of "(f', a, st1)" f' "(a, st1)" a st1] 2(3,5) False d directive_keeps [OF 2(3,4) d] by simp
  qed
qed simp

lemma con_print_buf:
  assumes "con_print env f args s = Some s'"
  shows "length (print_buf s') = length (print_buf s)" "prev_request s' = prev_request s"
proof -
  let ?Q = "\<lambda>b. pred_option (\<lambda>b. length b = length (print_buf s)) b"
  have o: "?Q b \<Longrightarrow> ?Q (out_buffer 255 c i b)" for c i b by (cases b) (simp_all add: pred_option_def)
  then have k: "keeps_out (out_buffer 255) ?Q" by (simp add: keeps_out_def)
  have v: "length b = length (print_buf s)" if "printf_vsnprintf (Some (print_buf s)) 255 f args = Some (n, Some b)" for n b
  proof -
    from that obtain i r where l: "vsnprintf_loop (out_buffer 255) f args (0, Some (print_buf s)) = Some (i, r)"
      and r: "out_buffer 255 0 (if i < 255 then i else 254) r = Some b"
      unfolding printf_vsnprintf_def vsnprintf_core_def Let_def
      by (simp only: option.case bind_eq_Some_conv if_False) (auto split: if_splits)
    have "?Q r" using loop_keeps [OF k _ l] by (simp add: pred_option_def)
    from o [OF this, of 0 "if i < 255 then i else 254"] have "?Q (Some b)" unfolding r .
    then show ?thesis by simp
  qed
  have "s' = s \<or> (\<exists>n b. printf_vsnprintf (Some (print_buf s)) 255 f args = Some (n, Some b)
      \<and> print_buf s' = b[n := 0] \<and> prev_request s' = prev_request s)"
  proof (cases "con_port s = 0")
    case False
    with assms obtain n b where p: "printf_vsnprintf (Some (print_buf s)) 255 f args = Some (n, Some b)"
      unfolding con_print_def by (auto simp: bind_eq_Some_conv simp del: One_nat_def)
    with assms False show ?thesis by (auto simp: con_print_def Let_def split: if_splits)
  qed (use assms in \<open>simp add: con_print_def\<close>)
  then show "length (print_buf s') = length (print_buf s)" "prev_request s' = prev_request s"
    using v by auto
qed

section \<open>Commands that keep an invariant\<close>

text \<open>What a step, a step that may leave, and a callback keep when they return.\<close>

definition post :: "(con_udp \<times> 'w \<Rightarrow> bool) \<Rightarrow> 'w con_st option \<Rightarrow> bool" where
  "post I r \<longleftrightarrow> pred_option (\<lambda>st. I (snd st)) r"

definition keep :: "(con_udp \<times> 'w \<Rightarrow> bool) \<Rightarrow> ('w con_st \<Rightarrow> 'w con_st option) \<Rightarrow> bool" where
  "keep I f \<longleftrightarrow> (\<forall>st. I (snd st) \<longrightarrow> post I (f st))"

definition keepf :: "(con_udp \<times> 'w \<Rightarrow> bool) \<Rightarrow> 'w flow \<Rightarrow> bool" where
  "keepf I f \<longleftrightarrow> (\<forall>st. I (snd st) \<longrightarrow> post I (map_option snd (f st)))"

definition kept :: "(con_udp \<times> 'w \<Rightarrow> bool) \<Rightarrow> 'w con_cb \<Rightarrow> bool" where
  "kept I f \<longleftrightarrow> (\<forall>param n e st. I st \<longrightarrow> post I (f param n e st))"

lemma post_simps [simp]: "post I None" "post I (Some st) = I (snd st)"
  by (simp_all add: post_def)

lemma keepI: "(\<And>e s w. I (s, w) \<Longrightarrow> post I (f (e, s, w))) \<Longrightarrow> keep I f"
  by (simp add: keep_def)

lemma keepD: "keep I f \<Longrightarrow> I (s, w) \<Longrightarrow> post I (f (e, s, w))"
  by (simp add: keep_def)

lemma keepfD:
  assumes "keepf I f" "I (snd st)" "f st = Some (b, st')"
  shows "I (snd st')"
proof -
  have "post I (map_option snd (f st))" using assms(1,2) unfolding keepf_def by blast
  then show ?thesis using assms(3) by simp
qed

lemma keepfI:
  fixes f :: "'w flow"
  assumes "\<And>st b st'. I (snd st) \<Longrightarrow> f st = Some (b, st') \<Longrightarrow> I (snd st')"
  shows "keepf I f"
  unfolding keepf_def
proof (intro allI impI)
  fix st :: "'w con_st"
  assume "I (snd st)"
  then show "post I (map_option snd (f st))" using assms [of st] by (cases "f st") auto
qed

lemma keep_fails [simp]: "keep I (fails e)"
  by (rule keepI) (simp add: fails_def)

lemma keep_upd: "(\<And>s w. I (s, w) \<Longrightarrow> I (s, g w)) \<Longrightarrow> keep I (upd g)"
  by (rule keepI) (simp add: upd_def)

lemma post_steps: "list_all (keep I) fs \<Longrightarrow> I (snd st) \<Longrightarrow> post I (steps fs st)"
proof (induction fs arbitrary: st)
  case (Cons f fs)
  then have "keep I f" by simp
  then have "post I (f st)" using Cons.prems(2) unfolding keep_def by blast
  then show ?case using Cons by (cases "f st") auto
qed simp

lemma keep_steps: "list_all (keep I) fs \<Longrightarrow> keep I (steps fs)"
  by (simp add: keep_def post_steps)

lemma post_upd: "I (s, g w) \<Longrightarrow> list_all (keep I) fs \<Longrightarrow> post I (steps (upd g # fs) (e, s, w))"
  using post_steps [of I fs "(e, s, g w)"] by (simp add: upd_def)

lemma keep_look_at: "(\<And>e s w. I (s, w) \<Longrightarrow> post I (f w (e, s, w))) \<Longrightarrow> keep I (look f)"
  by (simp add: keep_def look_def)

lemma keep_look_case:
  "(\<And>e s w x y. I (s, w) \<Longrightarrow> g w = (x, y) \<Longrightarrow> post I (f x y (e, s, w))) \<Longrightarrow> keep I (look (\<lambda>w. case g w of (x, y) \<Rightarrow> f x y))"
  by (rule keep_look_at) (simp split: prod.split)

lemma kept_if: "kept I f \<Longrightarrow> kept I g \<Longrightarrow> kept I (\<lambda>p n e st. if c p n e st then f p n e st else g p n e st)"
  unfolding kept_def by (intro allI impI, split if_split) blast

lemma keep_look: "(\<And>w. keep I (f w)) \<Longrightarrow> keep I (look f)"
  by (simp add: keep_def look_def)

lemma keepf_go [simp]: "keepf I (go f) = keep I f" "keepf I (leave f) = keep I f"
  by (simp_all add: keepf_def keep_def go_def leave_def option.map_comp comp_def option.map_ident)

lemma keepf_flows: "list_all (keepf I) fs \<Longrightarrow> keepf I (flows fs)"
proof (induction fs)
  case (Cons f fs)
  then have "keepf I f" "keepf I (flows fs)" by simp_all
  then show ?case by (intro keepfI) (auto simp: bind_eq_Some_conv split: if_splits dest: keepfD)
qed (simp add: keepf_def)

lemma keep_run_flow: "keepf I f \<Longrightarrow> keep I (run_flow f)"
  by (simp add: keepf_def keep_def run_flow_def)

lemma keepf_each: "(\<And>x. keepf I (f x)) \<Longrightarrow> keepf I (each_node K f)"
proof -
  assume f: "\<And>x. keepf I (f x)"
  have "keepf I (flows (map (\<lambda>i st. f (nodes_now K st ! i) st) is))" for "is"
    using f by (intro keepf_flows) (simp add: list_all_iff keepf_def)
  then show ?thesis by (simp add: each_node_def keepf_def)
qed

lemma kept_cmd: "keep I f \<Longrightarrow> kept I (cmd f)" "(\<And>arg. keep I (g arg)) \<Longrightarrow> kept I (cmd_arg g)"
  by (auto simp: keep_def kept_def cmd_def cmd_arg_def split: option.split)

lemma sub_loop_keeps:
  assumes "\<And>c. keep I (f c)"
  shows "keep I (sub_loop f cur end_sub)"
proof -
  have "(\<forall>c. keep I (f c)) \<longrightarrow> I (snd st) \<longrightarrow> I (snd st')" if "sub_loop f cur end_sub st = Some st'" for st st'
  proof (rule sub_loop.raw_induct [OF _ that, where P = "\<lambda>f cur end_sub st y. (\<forall>c. keep I (f c)) \<longrightarrow> I (snd st) \<longrightarrow> I (snd y)"])
    fix sl and f :: "u8 \<Rightarrow> 'a con_st \<Rightarrow> 'a con_st option" and cur end_sub st y
    assume ih: "\<And>f cur end_sub st y. sl f cur end_sub st = Some y \<Longrightarrow> (\<forall>c. keep I (f c)) \<longrightarrow> I (snd st) \<longrightarrow> I (snd y)"
      and y: "(if cur \<le> end_sub then Option.bind (f cur st) (sl f (cur + 1) end_sub) else Some st) = Some y"
    show "(\<forall>c. keep I (f c)) \<longrightarrow> I (snd st) \<longrightarrow> I (snd y)"
    proof (intro impI)
      assume f: "\<forall>c. keep I (f c)" and i: "I (snd st)"
      show "I (snd y)"
      proof (cases "cur \<le> end_sub")
        case True
        then obtain st1 where st1: "f cur st = Some st1" "sl f (cur + 1) end_sub st1 = Some y"
          using y by (auto simp: bind_eq_Some_conv)
        have "post I (f cur st)" using f i unfolding keep_def by blast
        then show ?thesis using ih [OF st1(2)] f st1(1) by simp
      qed (use y i in simp)
    qed
  qed
  then have *: "I (snd st')" if "sub_loop f cur end_sub st = Some st'" "I (snd st)" for st st' using that assms by blast
  show ?thesis unfolding keep_def post_def pred_option_def using * by (auto split: option.splits)
qed

text \<open>One rule for each way a command is put together.\<close>

lemma list_all_rules:
  "list_all P []" "P x \<Longrightarrow> list_all P xs \<Longrightarrow> list_all P (x # xs)" "list_all P xs \<Longrightarrow> list_all P ys \<Longrightarrow> list_all P (xs @ ys)"
  "(\<And>z. P (f z)) \<Longrightarrow> list_all P (map f zs)" "(c \<Longrightarrow> list_all P xs) \<Longrightarrow> (\<not> c \<Longrightarrow> list_all P ys) \<Longrightarrow> list_all P (if c then xs else ys)"
  "(\<And>xs. xs \<in> set xss \<Longrightarrow> list_all P xs) \<Longrightarrow> list_all P (concat xss)"
  by (auto simp: list_all_iff)

lemma branch_rules:
  "(c \<Longrightarrow> keep I a) \<Longrightarrow> (\<not> c \<Longrightarrow> keep I b) \<Longrightarrow> keep I (if c then a else b)"
  "(c \<Longrightarrow> keepf I f) \<Longrightarrow> (\<not> c \<Longrightarrow> keepf I g) \<Longrightarrow> keepf I (if c then f else g)"
  "(c \<Longrightarrow> post I q) \<Longrightarrow> (\<not> c \<Longrightarrow> post I r) \<Longrightarrow> post I (if c then q else r)"
  "(\<And>x y. keep I (h x y)) \<Longrightarrow> keep I (case p of (x, y) \<Rightarrow> h x y)"
  "(\<And>x y. keepf I (k x y)) \<Longrightarrow> keepf I (case p of (x, y) \<Rightarrow> k x y)"
  "(\<And>x y. post I (l x y st)) \<Longrightarrow> post I ((case p of (x, y) \<Rightarrow> l x y) st)"
  by (auto split: prod.split)

section \<open>The commands for the nodes\<close>

text \<open>
  The contract: of the console the invariant asks no more than that its buffers have their sizes, and it survives
  whatever happens on the bus.
\<close>

definition con_ok :: "con_udp \<Rightarrow> bool" where
  "con_ok s \<longleftrightarrow> length (print_buf s) = 256 \<and> length (prev_request s) = 256"

locale con_inv =
  fixes I :: "con_udp \<times> ('h, 'n) con_app \<Rightarrow> bool"
  assumes sizes: "I (s, w) \<Longrightarrow> con_ok s"
    and any_console: "I (s, w) \<Longrightarrow> con_ok s' \<Longrightarrow> I (s', w)"
    and on_the_bus: "I (s, w) \<Longrightarrow> I (s, w\<lparr>ca_bus := n\<rparr>)"
begin

lemma print: "I (s, w) \<Longrightarrow> con_print env f args s = Some s' \<Longrightarrow> I (s', w)"
  using sizes any_console [of s w s'] by (simp add: con_ok_def con_print_buf)

lemma keep_say [simp]: "keep I (say env f args)"
  by (rule keepI) (auto simp: say_def post_def pred_option_def dest: print)

lemma set_bus_keeps: "I (snd st) \<Longrightarrow> I (snd (set_bus n st))"
  by (cases st) (simp add: set_bus_def on_the_bus)

lemma keep_on_bus [simp]: "keep I (on_bus f)"
  unfolding keep_def on_bus_def using set_bus_keeps by (metis post_simps(2))

lemma keepf_sdo_read: "(\<And>sts bs. keepf I (k sts bs)) \<Longrightarrow> keepf I (sdo_read K nid idx sub sz tmo k)"
proof (rule keepfI)
  fix st :: "('h, 'n) con_app con_st" and b st'
  assume k: "\<And>sts bs. keepf I (k sts bs)" and i: "I (snd st)" and r: "sdo_read K nid idx sub sz tmo k st = Some (b, st')"
  from r obtain sts bs n where "k sts bs (set_bus n st) = Some (b, st')"
    unfolding sdo_read_def bind_eq_Some_conv by (auto simp only: split_paired_Ex prod.case)
  from keepfD [OF k set_bus_keeps [OF i] this] show "I (snd st')" .
qed

lemma keepf_sdo_write: "(\<And>sts. keepf I (k sts)) \<Longrightarrow> keepf I (sdo_write K nid idx sub bs tmo k)"
proof (rule keepfI)
  fix st :: "('h, 'n) con_app con_st" and b st'
  assume k: "\<And>sts. keepf I (k sts)" and i: "I (snd st)" and r: "sdo_write K nid idx sub bs tmo k st = Some (b, st')"
  from r obtain sts n where "k sts (set_bus n st) = Some (b, st')"
    unfolding sdo_write_def bind_eq_Some_conv by (auto simp only: split_paired_Ex prod.case)
  from keepfD [OF k set_bus_keeps [OF i] this] show "I (snd st')" .
qed

lemma keepf_lss: "(\<And>r. keepf I (k r)) \<Longrightarrow> keepf I (lss_call f k)"
proof (rule keepfI)
  fix st :: "('h, 'n) con_app con_st" and b st'
  assume k: "\<And>r. keepf I (k r)" and i: "I (snd st)" and r: "lss_call f k st = Some (b, st')"
  from r obtain a c n where "k a (set_bus n st) = Some (b, st')"
    unfolding lss_call_def bind_eq_Some_conv by (auto simp only: split_paired_Ex prod.case)
  from keepfD [OF k set_bus_keeps [OF i] this] show "I (snd st')" .
qed

lemmas keepf_sdo = keepf_sdo_read keepf_sdo_write

lemma keepf_steps: "keep I f \<Longrightarrow> keepf I (go f)" "keep I f \<Longrightarrow> keepf I (leave f)"
  by simp_all

lemma keepf_abort: "keepf I (say_read_abort env nid sts)" "keepf I (say_write_abort env nid sts)"
  by (simp_all add: say_read_abort_def say_write_abort_def abort_msg_def)

lemmas keep_rules = list_all_rules branch_rules keep_say keep_fails keep_on_bus keep_steps keep_look keepf_steps keepf_abort
  keepf_flows keep_run_flow keepf_each keepf_sdo keepf_lss kept_cmd sub_loop_keeps

lemma keepf_rd_addr: "(\<And>acc. keepf I (k acc)) \<Longrightarrow> keepf I (rd_addr K env nid subs acc k)"
proof (induction subs arbitrary: acc)
  case (Cons sub subs)
  show ?case unfolding rd_addr.simps by (intro keep_rules Cons)
qed simp

lemma keepf_rd_words: "(\<And>acc. keepf I (k acc)) \<Longrightarrow> keepf I (rd_words K env nid subs acc k)"
proof (induction subs arbitrary: acc)
  case (Cons sub subs)
  show ?case unfolding rd_words.simps by (intro keep_rules Cons)
qed simp

lemma keepf_met_read: "(\<And>vs. keepf I (k vs)) \<Longrightarrow> keepf I (met_read env K nid objs t acc k)"
proof (induction objs arbitrary: acc)
  case (Cons x objs)
  show ?case by (cases x) (simp only: met_read.simps, intro keep_rules Cons)
qed simp

lemma keepf_met_flow: "keepf I (met_flow env K nid m)"
  by (cases m; simp only: met_flow_def met_step.case; intro keep_rules keepf_met_read)

lemma keepf_one_or_all: "(\<And>nid. keepf I (f nid)) \<Longrightarrow> keepf I (one_or_all K arg f)"
  unfolding one_or_all_def Let_def by (intro keep_rules) assumption

lemma keepf_freeze_node: "keepf I (freeze_node env K nd r)"
proof (induction r)
  case (Suc r)
  show ?case unfolding freeze_node.simps by (intro keep_rules Suc)
qed (simp add: keep_steps)

lemma keepf_say_role: "(\<And>p. keepf I (k p)) \<Longrightarrow> keepf I (say_role env K f nid p k)"
  unfolding say_role_def Let_def by (intro keep_rules) assumption

lemma keepf_roles: "keepf I (roles env K ks p)"
proof (induction ks arbitrary: p)
  case (Cons k ks)
  show ?case
  proof (rule keepfI)
    fix st :: "('h, 'n) con_app con_st" and b st'
    assume i: "I (snd st)" and q: "roles env K (k # ks) p st = Some (b, st')"
    show "I (snd st')"
    proof (cases "HBstate (nodes_now K st ! k) \<noteq> HB_UNKNOWN")
      case True
      with q have "say_role env K (fmt_ln ''#%d prod_id: %.*s'') (ucast (nodeId (nodes_now K st ! k))) p (roles env K ks) st = Some (b, st')"
        by (simp add: Let_def)
      from keepfD [OF keepf_say_role [OF Cons] i this] show ?thesis .
    next
      case False
      with q have "roles env K ks p st = Some (b, st')" by (simp add: Let_def)
      from keepfD [OF Cons i this] show ?thesis .
    qed
  qed
qed (simp add: keepf_def)

lemma keep_rst_steps: "list_all (keep I) (rst_steps env K a f c arg)"
  unfolding rst_steps_def Let_def by (cases "sscanf [S_u] arg") (simp del: steps.simps)

lemma keep_sdo_rd_one: "keep I (sdo_rd_one env K nid idx sub)"
  unfolding sdo_rd_one_def say_value_def by (intro keep_rules)

lemma keepf_baud_node: "keepf I (baud_node env K baud x)"
  unfolding baud_node_def Let_def by (intro keep_rules keepf_rd_addr)

lemma kept_can_hb: "kept I (can_hb_cb B K)"
  unfolding can_hb_cb_def Let_def by (intro kept_cmd, unfold keep_def, intro allI impI post_steps keep_rules)

lemma kept_can_role: "kept I (can_role_cb B K)"
proof -
  have s: "post I (run_flow f st)" if "keepf I f" "I (snd st)" for f st
    using keep_run_flow [OF that(1)] that(2) unfolding keep_def by blast
  show ?thesis unfolding can_role_cb_def Let_def
    by (intro kept_cmd, unfold keep_def, intro allI impI)
      (auto split: prod.split simp del: steps.simps intro!: s keepf_roles keepf_say_role keepf_sdo keepf_steps keep_steps keepf_abort branch_rules)
qed

lemma kept_node_commands:
  "kept I (can_fw_cb B K)" "kept I (can_save_cb B K)" "kept I (sdo_rd_cb B K)" "kept I (sdo_wr_cb B K)"
  "kept I (can_rst_comm_cb B K)" "kept I (can_rst_cb B K)" "kept I (can_rst_freeze_cb B K)" "kept I (can_id_cb B K)" "kept I (can_meteo_cb B K)"
  unfolding can_fw_cb_def can_save_cb_def sdo_rd_cb_def sdo_wr_cb_def can_rst_comm_cb_def can_rst_cb_def can_rst_freeze_cb_def
    can_id_cb_def can_meteo_cb_def fw_node_def rd_str_def Let_def
  by (intro keep_rules keepf_one_or_all keepf_rd_words keepf_rd_addr keepf_freeze_node keep_rst_steps keep_sdo_rd_one keepf_met_flow)+

text \<open>A request: what all commands keep, the console keeps.\<close>

lemma report_keeps: "I (s, w) \<Longrightarrow> con_report env e s = Some s' \<Longrightarrow> I (s', w)"
  by (auto simp: con_report_def bind_eq_Some_conv dest: print split: if_splits)

lemma con_PRINTF_keeps: "I (s, w) \<Longrightarrow> con_PRINTF env f args s = Some s' \<Longrightarrow> I (s', w)"
  by (auto simp: con_PRINTF_def print_prefix_def bind_eq_Some_conv dest: print split: if_splits)

lemma help_keeps: "I (s, w) \<Longrightarrow> con_help env names s = Some s' \<Longrightarrow> I (s', w)"
  by (induction names arbitrary: s) (auto simp: bind_eq_Some_conv dest: print)

lemma run_keeps: "kept I f \<Longrightarrow> I st \<Longrightarrow> con_run env name f data n st = Some st' \<Longrightarrow> I st'"
proof -
  assume f: "kept I f" and i: "I st" and r: "con_run env name f data n st = Some st'"
  let ?p = "if int n - int (length name) > 0 then Some (drop (length name) data) else None"
  from r obtain e s w s' where "f ?p (int n - int (length name)) CON_CB_SILENT st = Some (e, s, w)"
    "con_report env e s = Some s'" "st' = (s', w)"
    by (auto simp: con_run_def Let_def bind_eq_Some_conv)
  moreover have "post I (f ?p (int n - int (length name)) CON_CB_SILENT st)" using f i unfolding kept_def by blast
  ultimately show "I st'" using report_keeps by simp
qed

lemma dispatch_keeps:
  "list_all (\<lambda>c. pred_option (kept I) (snd c)) cmds \<Longrightarrow> I st \<Longrightarrow> con_dispatch env cmds data n st = Some st' \<Longrightarrow> I st'"
proof (induction env cmds data n st rule: con_dispatch.induct)
  case (2 env name cb cmds data n st)
  show ?case
  proof (cases "if cb \<noteq> None \<and> strncmp_eq (length name) data (name @ [0]) then cb else None")
    case None
    note r = 2(4) [unfolded con_dispatch.simps None option.case]
    show ?thesis
    proof (cases "cmds = []")
      case True
      then show ?thesis using r con_PRINTF_keeps [of "fst st" "snd st"] 2(3) by auto
    next
      case False
      then show ?thesis using r 2(1) [OF None False] 2(2,3) by simp
    qed
  next
    case (Some f)
    then have "kept I f" using 2(2) by (auto split: if_splits)
    from run_keeps [OF this 2(3) 2(4) [unfolded con_dispatch.simps Some option.case]] show ?thesis .
  qed
qed simp

lemma command_keeps:
  assumes "list_all (\<lambda>c. pred_option (kept I) (snd c)) cmds" "I st" "con_command env cmds data n st = Some st'"
  shows "I st'"
proof -
  have i: "I (fst st, snd st)" using assms(2) by simp
  have h: "I (z, snd st)" if "con_print env f [] (fst st) = Some y" "con_help env names y = Some z" for f y z names
    using help_keeps [OF print [OF i that(1)] that(2)] .
  show ?thesis
    using assms(3) dispatch_keeps [OF assms(1,2)] h con_PRINTF_keeps [OF i]
    unfolding con_command_def by (auto simp: bind_eq_Some_conv split: if_splits)
qed

lemma console_keeps:
  assumes "list_all (\<lambda>c. pred_option (kept I) (snd c)) cmds" "I st" "cb_udp_console env cmds mem len addr port st = Some (st', freed)"
  shows "I st'"
proof -
  let ?s0 = "(fst st)\<lparr>con_stay_in_boot := True, con_addr := addr, con_port := port\<rparr>"
  let ?s1 = "if port \<noteq> prev_port ?s0 then ?s0\<lparr>prev_port := port, prev_request := (prev_request ?s0)[0 := 0]\<rparr> else ?s0"
  have c: "con_ok (fst st)" and i: "I (fst st, snd st)" using sizes [of "fst st" "snd st"] assms(2) by simp_all
  then have c1: "con_ok ?s1" by (simp add: con_ok_def)
  then have i1: "I (?s1, snd st)" using any_console [OF i] by blast
  have i2: "I (?s1\<lparr>prev_request := take len d @ 0 # drop (Suc len) (prev_request ?s1), prev_request_len := len\<rparr>, snd st)"
    if "len < 256" "len < length d" for d
    using c1 that by (intro any_console [OF i]) (auto simp: con_ok_def)
  let ?d = "mem[len := 0]"
  let ?b = "if len = 1 \<and> ?d ! 0 = 0x0A
    then map_option (\<lambda>s. (s, prev_request ?s1, prev_request_len ?s1))
      (if prev_request ?s1 ! 0 \<noteq> 0x0A \<and> prev_request ?s1 ! 0 \<noteq> 0 then con_print env [0x3E, 0x0A, 0] [] ?s1 else Some ?s1)
    else Some (?s1\<lparr>prev_request := take len ?d @ 0 # drop (Suc len) (prev_request ?s1), prev_request_len := len\<rparr>, ?d, len)"
  have b: "I (s2, snd st)" if "?b = Some (s2, d', n)" "len < 256" "len < length mem" for s2 d' n
  proof (cases "len = 1 \<and> ?d ! 0 = 0x0A")
    case True
    show ?thesis using that(1) [unfolded if_P [OF True]] i1 print [OF i1] by (auto simp only: map_option_eq_Some prod.inject option.inject split: if_splits)
  next
    case False
    show ?thesis using that(1) [unfolded if_not_P [OF False]] i2 [of ?d] that(2,3) by (auto simp only: prod.inject option.inject length_list_update)
  qed
  show ?thesis
  proof (cases "len \<ge> length mem \<or> len \<ge> 256")
    case True
    then show ?thesis using assms(3) i1 unfolding cb_udp_console_def Let_def by (auto simp only: if_True if_False prod.inject option.inject split: if_splits)
  next
    case False
    then have "\<not> len \<ge> length mem" "\<not> len \<ge> 256" by simp_all
    with assms(3) obtain s2 d' n where "?b = Some (s2, d', n)" "con_command env cmds d' n (s2, snd st) = Some st'"
      unfolding cb_udp_console_def Let_def bind_eq_Some_conv by (auto simp only: if_False prod.inject option.inject map_option_eq_Some split_paired_Ex prod.case bind_eq_Some_conv)
    then show ?thesis using b command_keeps [OF assms(1)] False by auto
  qed
qed

end

section \<open>All commands\<close>

text \<open>What holds of the console and of the gateway's variables.\<close>

definition app_ok :: "('h, 'n) con_app \<Rightarrow> bool" where
  "app_ok w \<longleftrightarrow> settings_ok (ca_set w) \<and> shaped (ca_cfg w) \<and> router_ok (ca_routes w) \<and> length (ca_mains w) = NUM_CH
    \<and> poe_pins (ca_poe w) = poe_inst (ca_poe w) \<and> length (poe_inst (ca_poe w)) = POE_CH
    \<and> ld_pin (ca_load w) = ld_enabled (ca_load w) \<and> press_tmr (ca_pc w) \<le> 600"

definition gw_ok :: "con_udp \<times> ('h, 'n) con_app \<Rightarrow> bool" where
  "gw_ok st \<longleftrightarrow> con_ok (fst st) \<and> app_ok (snd st)"

interpretation gwc: con_inv gw_ok
  by unfold_locales (auto simp: gw_ok_def app_ok_def)

lemma gw_ok_upd: "(\<And>w. app_ok w \<Longrightarrow> app_ok (g w)) \<Longrightarrow> keep gw_ok (upd g)"
  by (rule keep_upd) (simp add: gw_ok_def)

lemma kept_switches:
  "kept gw_ok (reset_cb)" "kept gw_ok (lon_cb B)" "kept gw_ok (loff_cb B)" "kept gw_ok (adc_cb B)" "kept gw_ok (pc_cb B)"
  "kept gw_ok (i2c_remap_cb B)" "kept gw_ok (mains_get_cb B)" "kept gw_ok (mains_rst_cb B)" "kept gw_ok (poe_sw_cb B)"
  "kept gw_ok (fram_cb junk B)" "kept gw_ok (co_gtw_cb B)"
  unfolding reset_cb_def lon_cb_def loff_cb_def adc_cb_def pc_cb_def i2c_remap_cb_def mains_get_cb_def mains_rst_cb_def poe_sw_cb_def
    fram_cb_def co_gtw_cb_def Let_def
  by (intro gwc.keep_rules gw_ok_upd;
    simp add: app_ok_def settings_ok_def load_switcher_on_def load_switcher_off_def pc_switch_def mains_stat_rst_def
      poe_switcher_on_def poe_switcher_off_def)+

lemma kept_addresses:
  "kept gw_ok (ip_cb B)" "kept gw_ok (sock_mst_ip_cb B)" "kept gw_ok (cfg_mains_sns_cb B)" "kept gw_ok (cfg_poe_sw_cb B)"
  unfolding ip_cb_def sock_mst_ip_cb_def set_ip_cb_def cfg_mains_sns_cb_def cfg_poe_sw_cb_def cfg_mask_cb_def Let_def
  by (intro gwc.keep_rules gw_ok_upd; simp add: app_ok_def settings_ok_def)+

lemma kept_gw_addresses: "kept gw_ok (sock_gw_ip_cb B)"
  unfolding sock_gw_ip_cb_def show_gw_def Let_def
  by (intro gwc.keep_rules gw_ok_upd) (simp_all add: app_ok_def settings_ok_def not_le)

lemma kept_baud: "kept gw_ok (can_baud_cb B K)"
  unfolding can_baud_cb_def Let_def
  by (intro gwc.keep_rules gwc.keepf_baud_node gw_ok_upd; simp add: app_ok_def settings_ok_def)+

lemma kept_route: "kept gw_ok (route_cb B)"
proof -
  have r: "route_cb B = (\<lambda>param n e st. if n > 1
     then cmd_arg (\<lambda>arg. look (\<lambda>w. case router_add_entry arg (ca_routes w) of (sts, g) \<Rightarrow>
       steps [upd (\<lambda>w. w\<lparr>ca_routes := g\<rparr>), say (cb_env B) (fmt_ln ''sts: %d '') [W32 (of_int sts)]])) param n e st
     else cmd (look (\<lambda>w. router_print (cb_env B) (ca_routes w))) param n e st)"
    by (intro ext) (rule route_cb_def)
  have g: "gw_ok (s, w\<lparr>ca_routes := g\<rparr>)" if "gw_ok (s, w)" "router_add_entry arg (ca_routes w) = (sts, g)" for s w arg sts g
    using router_add_ok [of "ca_routes w" arg] that by (simp add: gw_ok_def app_ok_def)
  show ?thesis unfolding r router_print_def say_route_def
    by (intro kept_if kept_cmd keep_look_case post_upd g gwc.keep_rules; assumption?)
qed

lemma kept_time: "kept gw_ok (timedate_cb B)"
proof -
  have r: "timedate_cb B = (\<lambda>req n e st. if n = 0 then cmd (show_time (cb_env B)) req n e st
    else cmd_arg (\<lambda>arg. (case sscanf (scan_us 7) arg of (k, vs) \<Rightarrow>
           if k = 7
           then look (\<lambda>w. case mcu_rtc_set_date (cb_rtc_ok B) (ucast (int_or 0 0 vs)) (ucast (int_or 0 3 vs)) (ucast (int_or 0 1 vs)) (ucast (int_or 0 2 vs)) (ca_rtc w) of (sts0, r0) \<Rightarrow>
                  case mcu_rtc_set_time (cb_rtc_ok B) (ucast (int_or 0 4 vs)) (ucast (int_or 0 5 vs)) (ucast (int_or 0 6 vs)) r0 of (sts1, r1) \<Rightarrow>
                    steps [upd (\<lambda>w. w\<lparr>ca_rtc := r1\<rparr>),
                      say (cb_env B) (fmt_ln ''Set: %u/%u/%u (%u) - %u:%u:%u | status [%d %d]'')
                        (map (\<lambda>i. W32 (int_or 0 i vs)) [0, 1, 2, 3, 4, 5, 6] @ [W32 (of_int sts0), W32 (of_int sts1)])])
           else show_time (cb_env B))) req n e st)"
    by (intro ext) (simp only: timedate_cb_def Let_def)
  have s: "keep gw_ok (show_time env)" for env
    unfolding show_time_def Let_def by (intro gwc.keep_rules)
  have u: "keep gw_ok (upd (\<lambda>w. w\<lparr>ca_rtc := r\<rparr>))" for r :: rtc_dev
    by (rule gw_ok_upd) (simp add: app_ok_def)
  show ?thesis unfolding r by (intro kept_if gwc.keep_rules s u)
qed

text \<open>The store: its table keeps its shape, so what is loaded from it is a set of settings again.\<close>

lemma cmd_validate_ok: "app_ok w \<Longrightarrow> cmd_validate B w = (sts, w') \<Longrightarrow> app_ok w' \<and> shaped (ca_cfg w') \<and> ca_set w' = ca_set w"
  using config_validate_shaped [of "cb_crc B" "cfg_in (ca_set w) (ca_cfg w)"] cfg_in_shaped [of "ca_set w" "ca_cfg w"]
  by (auto simp: cmd_validate_def app_ok_def split: prod.splits)

lemma gw_ok_validate: "gw_ok (s, w) \<Longrightarrow> cmd_validate B w = (sts, w') \<Longrightarrow> gw_ok (s, w')"
  using cmd_validate_ok by (auto simp: gw_ok_def)

lemma gw_ok_read:
  assumes "gw_ok (s, w)" "cmd_validate B w = (sts, w1)"
  shows "gw_ok (s, if sts = CONFIG_STS_OK then w1\<lparr>ca_cfg := config_read_storage (ca_cfg w1),
    ca_set := settings_of (g_device_config (config_read_storage (ca_cfg w1)))\<rparr> else w1)"
proof -
  have w1: "app_ok w1" "shaped (ca_cfg w1)" using assms cmd_validate_ok by (auto simp: gw_ok_def)
  from config_read_shaped [OF w1(2)] settings_of_ok show ?thesis
    using w1 assms(1) by (simp add: gw_ok_def app_ok_def shaped_def)
qed

lemma gw_ok_write:
  assumes "gw_ok (s, w)" "config_write_storage dr dev (cfg_in (ca_set w) (ca_cfg w)) = Some (sts, c)"
  shows "gw_ok (s, w\<lparr>ca_cfg := c\<rparr>)"
  using assms(1) config_write_entries [OF assms(2)] cfg_in_shaped [of "ca_set w" "ca_cfg w"]
  by (simp add: gw_ok_def app_ok_def shaped_def)

lemma kept_cfg_state: "kept gw_ok (cfg_state_cb B)"
  unfolding cfg_state_cb_def by (intro kept_cmd keep_look_case post_upd gwc.keep_rules) (rule gw_ok_validate)

lemma kept_read: "kept gw_ok (read_cb B)"
  unfolding read_cb_def Let_def append_Cons append_Nil say_row_def
  by (intro kept_cmd keep_look_case post_upd gwc.keep_rules) (erule gw_ok_read, auto simp: list_all_iff)

lemma kept_save: "kept gw_ok (save_cb B)"
  unfolding save_cb_def Let_def
proof (intro kept_cmd keep_look_at)
  fix e s and w :: "('a, 'b) con_app"
  assume i: "gw_ok (s, w)"
  show "post gw_ok (Option.bind (config_write_storage (cb_crc B) (cb_flash B) (cfg_in (ca_set w) (ca_cfg w))) (\<lambda>(sts, c).
    if sts \<noteq> CONFIG_STS_OK then steps [upd (\<lambda>_. w\<lparr>ca_cfg := c\<rparr>), say (cb_env B) (fmt_ln ''SAVE ERROR: %d'') [W32 (config_sts_int sts)]] (e, s, w)
    else case cmd_validate B (w\<lparr>ca_cfg := c\<rparr>) of (sts', w2) \<Rightarrow>
      steps [upd (\<lambda>_. w2), say (cb_env B) (fmt_ln ''SAVE config status: %d'') [W32 (config_sts_int sts')]] (e, s, w)))"
  proof (cases "config_write_storage (cb_crc B) (cb_flash B) (cfg_in (ca_set w) (ca_cfg w))")
    case (Some r)
    obtain sts c where r: "r = (sts, c)" by (cases r)
    note w = gw_ok_write [OF i Some [unfolded r]]
    obtain sts' w2 where v: "cmd_validate B (w\<lparr>ca_cfg := c\<rparr>) = (sts', w2)" by (cases "cmd_validate B (w\<lparr>ca_cfg := c\<rparr>)")
    show ?thesis unfolding Some r bind.bind_lunit prod.case v
      by (intro branch_rules post_upd gwc.keep_rules w gw_ok_validate [OF w v])
  qed simp
qed

text \<open>The commands of the table that are parameters.\<close>

definition printing_cmds :: "string list" where
  "printing_cmds = [''fw'', ''info'', ''can'', ''cemcy'', ''sli'', ''mqtt'']"

lemma table_kept:
  assumes "\<And>n. n \<in> set printing_cmds \<Longrightarrow> kept gw_ok (other n)"
  shows "list_all (\<lambda>c. pred_option (kept gw_ok) (snd c)) (app_con_cmds B K other)"
  unfolding app_con_cmds_def list.map prod.case list.pred_inject snd_conv option.pred_inject
  by (intro conjI TrueI assms kept_switches kept_addresses kept_gw_addresses kept_baud kept_route kept_time kept_cfg_state kept_read kept_save
      gwc.kept_can_hb gwc.kept_can_role gwc.kept_node_commands) (simp_all add: printing_cmds_def)


section \<open>Commands for nodes leave the gateway alone\<close>

definition only_bus :: "('h, 'n) con_app \<Rightarrow> con_udp \<times> ('h, 'n) con_app \<Rightarrow> bool" where
  "only_bus w0 st \<longleftrightarrow> con_ok (fst st) \<and> (snd st)\<lparr>ca_bus := ca_bus w0\<rparr> = w0"

interpretation fr: con_inv "only_bus w0" for w0 :: "('h, 'n) con_app"
  by unfold_locales (auto simp: only_bus_def)

definition node_cmds :: "string list" where
  "node_cmds = [''chb'', ''cfw'', ''csdor'', ''csdow'', ''csave'', ''crstcomm'', ''crstfrz'', ''crst'', ''cid'', ''crole'', ''cmeteo'']"

lemma node_cmds_in_table:
  "(ascii ''chb'', Some (can_hb_cb B K)) \<in> set (app_con_cmds B K other)"
  "(ascii ''cfw'', Some (can_fw_cb B K)) \<in> set (app_con_cmds B K other)"
  "(ascii ''csdor'', Some (sdo_rd_cb B K)) \<in> set (app_con_cmds B K other)"
  "(ascii ''csdow'', Some (sdo_wr_cb B K)) \<in> set (app_con_cmds B K other)"
  "(ascii ''csave'', Some (can_save_cb B K)) \<in> set (app_con_cmds B K other)"
  "(ascii ''crstcomm'', Some (can_rst_comm_cb B K)) \<in> set (app_con_cmds B K other)"
  "(ascii ''crstfrz'', Some (can_rst_freeze_cb B K)) \<in> set (app_con_cmds B K other)"
  "(ascii ''crst'', Some (can_rst_cb B K)) \<in> set (app_con_cmds B K other)"
  "(ascii ''cid'', Some (can_id_cb B K)) \<in> set (app_con_cmds B K other)"
  "(ascii ''crole'', Some (can_role_cb B K)) \<in> set (app_con_cmds B K other)"
  "(ascii ''cmeteo'', Some (can_meteo_cb B K)) \<in> set (app_con_cmds B K other)"
  by (simp_all add: app_con_cmds_def)

lemma node_cmds_kept:
  assumes "name \<in> set node_cmds"
  shows "\<exists>f. (ascii name, Some f) \<in> set (app_con_cmds B K other) \<and> kept (only_bus w0) f"
proof -
  let ?P = "\<lambda>n. \<exists>f. (ascii n, Some f) \<in> set (app_con_cmds B K other) \<and> kept (only_bus w0) f"
  note t = node_cmds_in_table [of B K other] and k = fr.kept_node_commands [of w0 B K]
  have "?P ''chb''" "?P ''cfw''" "?P ''csdor''" "?P ''csdow''" "?P ''csave''" "?P ''crstcomm''" "?P ''crstfrz''" "?P ''crst''" "?P ''cid''"
    "?P ''crole''" "?P ''cmeteo''"
    using t(1) fr.kept_can_hb [of w0 B K] t(2) k(1) t(3) k(3) t(4) k(4) t(5) k(2) t(6) k(5) t(7) k(7) t(8) k(6) t(9) k(8)
      t(10) fr.kept_can_role [of w0 B K] t(11) k(9) by - (intro exI conjI, assumption+)+
  with assms show ?thesis unfolding node_cmds_def list.set insert_iff empty_iff by (elim disjE FalseE) (simp only:)+
qed


section \<open>Witnesses\<close>

definition ex_app :: "(unit, unit) con_app" where
  "ex_app = \<lparr>ca_set = ex_gateway, ca_cfg = ex_store_st,
    ca_load = \<lparr>ld_enabled = False, timeout_on_ms = 0, timeout_cur_longterm_ms = 0, ld_pin = False\<rparr>,
    ca_pc = \<lparr>press_tmr = 0, pc_pressed = False\<rparr>,
    ca_poe = \<lparr>poe_inst = replicate POE_CH False, poe_pins = replicate POE_CH False\<rparr>,
    ca_mains = replicate NUM_CH \<lparr>tmr_off = 0, tmr_on = 0, on_phase = False, mains_on = False, cnt_on = 0, cnt_hit = 0,
      cnt_on_max = 9, cnt_on_max_hit = 0, ctrl_pin = False\<rparr>,
    ca_routes = router_init, ca_fram = (),
    ca_rtc = \<lparr>bkp_dr2 = 0, rtc_now = \<lparr>rtc_hours = 0, rtc_minutes = 0, rtc_seconds = 0\<rparr>,
      rtc_today = \<lparr>rtc_weekday = 1, rtc_month = 1, rtc_day = 1, rtc_year = 0\<rparr>\<rparr>,
    ca_ir_min = 0, ca_ir_max = 0,
    ca_adc = \<lparr>adc_vin = 0, adc_vout = 0, adc_ir = 0, adc_i_sns = 0, adc_t_mcu = 0, adc_poe_sns = [0, 0, 0]\<rparr>,
    ca_bus = (), ca_reset = False\<rparr>"

lemma ex_app_ok: "gw_ok (con_boot, ex_app)"
  using device_config_shape [OF ex_gateway_ok(1)] ex_gateway_ok(1) router_init_ok
  by (simp add: gw_ok_def con_ok_def app_ok_def con_boot_def ex_app_def shaped_def ex_store_st_def)



section \<open>The command that may not end\<close>

lemma sub_loop_endless: "sub_loop f cur 255 st = None"
proof (rule ccontr)
  assume "sub_loop f cur 255 st \<noteq> None"
  then obtain y where "sub_loop f cur 255 st = Some y" by blast
  then have "(255 :: u8) = 255 \<longrightarrow> False"
  proof (rule sub_loop.raw_induct [where P = "\<lambda>f cur end_sub st y. end_sub = 255 \<longrightarrow> False", rotated])
    fix sl and f :: "u8 \<Rightarrow> 'a \<Rightarrow> 'a option" and cur end_sub st y
    assume ih: "\<And>f cur end_sub st y. sl f cur end_sub st = Some y \<Longrightarrow> end_sub = 255 \<longrightarrow> False"
      and y: "(if cur \<le> end_sub then Option.bind (f cur st) (sl f (cur + 1) end_sub) else Some st) = Some y"
    show "end_sub = 255 \<longrightarrow> False"
    proof
      assume e: "end_sub = 255"
      have "cur \<le> end_sub" using unat_u8_less [of cur] by (simp add: e word_le_nat_alt)
      with y obtain st1 where "sl f (cur + 1) end_sub st1 = Some y" by (auto simp: bind_eq_Some_conv)
      with ih e show False by blast
    qed
  qed
  then show False by simp
qed

lemma sub_loop_ends:
  assumes "\<And>c st. P st \<Longrightarrow> \<exists>st'. f c st = Some st' \<and> P st'" "P st" "end_sub \<noteq> 255"
  shows "\<exists>st'. sub_loop f cur end_sub st = Some st' \<and> P st'"
  using assms(2)
proof (induction "256 - unat cur" arbitrary: cur st rule: less_induct)
  case less
  show ?case
  proof (cases "cur \<le> end_sub")
    case True
    have "unat end_sub \<noteq> unat (255 :: u8)" using assms(3) by (metis word_unat_eq_iff)
    then have "unat cur < 255" using True unat_u8_less [of end_sub] by (simp add: word_le_nat_alt)
    then have "unat (cur + 1) = Suc (unat cur)" by (simp add: unat_word_ariths)
    with \<open>unat cur < 255\<close> have m: "256 - unat (cur + 1) < 256 - unat cur" by simp
    obtain st1 where st1: "f cur st = Some st1" "P st1" using assms(1) [OF less.prems] by blast
    from less.hyps [OF m st1(2)] show ?thesis using True st1(1) by (subst sub_loop.simps) simp
  qed (use less.prems in \<open>subst sub_loop.simps, simp\<close>)
qed

text \<open>C27: the command \<open>csdor\<close> with a node and an object reads the number of sub-indices and then each of them; on nodes
  that answer every request, with data or with an abort, it returns if and only if that number is not 255, the
  greatest its counter can hold.
\<close>

theorem csdor_returns:
  assumes "sscanf [S_u, S_blank, S_x, S_blank, S_u] arg = (2, vs)"
    and "read_SDO (kb_sdo K) (ucast (int_or 0 0 vs)) (ucast (int_or 0 1 vs)) 0 256 3000 (ca_bus w) = Some (0, Some (c # bs), n)"
    and "\<And>sub st. P st \<Longrightarrow> \<exists>st'. sdo_rd_one (cb_env B) K (int_or 0 0 vs) (int_or 0 1 vs) sub st = Some st' \<and> P st'"
    and "P (e, s, w\<lparr>ca_bus := n\<rparr>)"
  shows "sdo_rd_cb B K (Some arg) len e (s, w) \<noteq> None \<longleftrightarrow> c \<noteq> 255"
proof -
  let ?loop = "sub_loop (sdo_rd_one (cb_env B) K (int_or 0 0 vs) (int_or 0 1 vs)) 1 c (e, s, w\<lparr>ca_bus := n\<rparr>)"
  have "sdo_rd_cb B K (Some arg) len e (s, w) = map_option (\<lambda>st. st) ?loop"
    using assms(2) by (simp add: sdo_rd_cb_def cmd_arg_def assms(1) run_flow_def sdo_read_def bus_def set_bus_def rd_len_def go_def
        option.map_comp comp_def Let_def)
  moreover have "?loop = None" if "c = 255" unfolding that by (rule sub_loop_endless)
  moreover have "?loop \<noteq> None" if "c \<noteq> 255" using sub_loop_ends [where P = P and cur = 1
        and f = "sdo_rd_one (cb_env B) K (int_or 0 0 vs) (int_or 0 1 vs)", OF assms(3,4) that] by blast
  ultimately show ?thesis by (cases "c = 255") simp_all
qed

text \<open>Nodes that answer every read with the one byte \<open>c\<close>.\<close>

definition ex_nodes :: "u8 \<Rightarrow> unit can_board" where
  "ex_nodes c = \<lparr>kb_sdo = \<lparr>cl_setup = (\<lambda>_ _. (0, ())), cl_upload_init = (\<lambda>_ _ _ _. (0, ())), cl_upload = (\<lambda>_. (0, 0, ())),
      cl_buf_read = (\<lambda>_ _. ([c], ())), cl_download_init = (\<lambda>_ _ _ _ _. (0, ())), cl_buf_write = (\<lambda>bs _. (length bs, ())),
      cl_download = (\<lambda>_ _. (0, 0, ())), cl_delay = (\<lambda>_ _. ())\<rparr>,
    kb_lss = \<lparr>lm_poll = (\<lambda>_ _ _. (0, [], ())), lm_activate = (\<lambda>_ _. (0, ())), lm_deselect = (\<lambda>_. ()), lm_timeout = (\<lambda>_ _. ()),
      lm_delay = (\<lambda>_. ())\<rparr>,
    kb_nmt = (\<lambda>_ _ _. ()), kb_nodes = (\<lambda>_. []), kb_can = ex_dev, kb_junk = replicate 16 0\<rparr>"

lemma ex_nodes_read: "read_SDO (kb_sdo (ex_nodes c)) nid idx sub sz tmo n = Some (0, Some [c], ())"
  by (simp add: read_SDO_def ex_nodes_def poll_while.simps)

lemma csdor_returns_witness:
  "\<forall>w. sdo_rd_cb ex_con_board (ex_nodes 2) (Some (ascii '' 5 1000'' @ [0])) 7 1 (con_boot, w) \<noteq> None
    \<and> sdo_rd_cb ex_con_board (ex_nodes 255) (Some (ascii '' 5 1000'' @ [0])) 7 1 (con_boot, w) = None"
proof
  fix w :: "(unit, unit) con_app"
  let ?a = "ascii '' 5 1000'' @ [0]" and ?vs = "[V_int 5, V_int 0x1000]"
  let ?P = "\<lambda>st. con_port (fst (snd st)) = 0"
  have sc: "sscanf [S_u, S_blank, S_x, S_blank, S_u] ?a = (2, ?vs)"
    by (simp add: sscanf_def c_str_def is_space_def scan_num_def skip_sign_def skip_0x_def is_hex_def is_dec_def num_value_def hex_val_def
        strtoul_word_def counted_def ascii_def Let_def)
  have one: "\<exists>st'. sdo_rd_one (cb_env ex_con_board) (ex_nodes c) (int_or 0 0 ?vs) (int_or 0 1 ?vs) sub st = Some st' \<and> ?P st'"
    if "?P st" for c sub st
    using that by (cases st) (simp add: sdo_rd_one_def run_flow_def sdo_read_def ex_nodes_read go_def say_def con_print_def set_bus_def
        say_value_def rd_len_def bus_def)
  have p: "?P (1, con_boot, w\<lparr>ca_bus := ()\<rparr>)" by (simp add: con_boot_def)
  have r: "sdo_rd_cb ex_con_board (ex_nodes c) (Some ?a) 7 1 (con_boot, w) \<noteq> None \<longleftrightarrow> c \<noteq> 255" for c
    by (rule csdor_returns [where P = ?P, OF sc ex_nodes_read one p])
  have "(2 :: u8) \<noteq> 255" by simp
  with r [of 2] r [of 255] show "sdo_rd_cb ex_con_board (ex_nodes 2) (Some ?a) 7 1 (con_boot, w) \<noteq> None
    \<and> sdo_rd_cb ex_con_board (ex_nodes 255) (Some ?a) 7 1 (con_boot, w) = None" by blast
qed

end
