(* ===== verification/Ethernet.thy ===== *)
theory Ethernet
  imports Gw_Prelude
begin

text \<open>
  The Ethernet interface (lwip/port/STM32F4x7/ethernetif.c) with the part of ST's driver it uses
  (STM32F4x7_ETH_Driver/src/stm32f4x7_eth.c): two rings of five DMA descriptors with a buffer each.  A descriptor
  whose OWN bit is set belongs to the DMA, which reads or fills its buffer.  A packet of lwIP is the list of the
  payloads of its chain.
\<close>

section \<open>Rings of descriptors\<close>

abbreviation ETH_BUF_SIZE :: nat where "ETH_BUF_SIZE \<equiv> 1524"
abbreviation ETH_BUFNB :: nat where "ETH_BUFNB \<equiv> 5"

abbreviation ETH_DESC_OWN :: u32 where "ETH_DESC_OWN \<equiv> 0x80000000"
abbreviation ETH_DMATxDesc_LS :: u32 where "ETH_DMATxDesc_LS \<equiv> 0x20000000"
abbreviation ETH_DMATxDesc_FS :: u32 where "ETH_DMATxDesc_FS \<equiv> 0x10000000"
abbreviation ETH_DMATxDesc_CIC :: u32 where "ETH_DMATxDesc_CIC \<equiv> 0x00C00000"
abbreviation ETH_DMATxDesc_TCH :: u32 where "ETH_DMATxDesc_TCH \<equiv> 0x00100000"
abbreviation ETH_DMATxDesc_TBS1 :: u32 where "ETH_DMATxDesc_TBS1 \<equiv> 0x00001FFF"
abbreviation ETH_DMARxDesc_FL :: u32 where "ETH_DMARxDesc_FL \<equiv> 0x3FFF0000"
abbreviation ETH_DMARxDesc_FS :: u32 where "ETH_DMARxDesc_FS \<equiv> 0x00000200"
abbreviation ETH_DMARxDesc_LS :: u32 where "ETH_DMARxDesc_LS \<equiv> 0x00000100"
abbreviation ETH_DMARxDesc_RCH :: u32 where "ETH_DMARxDesc_RCH \<equiv> 0x00004000"
abbreviation ETH_DMASR_RBUS :: u32 where "ETH_DMASR_RBUS \<equiv> 0x80"
abbreviation ETH_DMASR_TUS :: u32 where "ETH_DMASR_TUS \<equiv> 0x20"
abbreviation ETH_DMASR_TBUS :: u32 where "ETH_DMASR_TBUS \<equiv> 0x04"

record dma_desc =
  d_status :: u32
  d_ctrl :: u32
  d_buf :: bytes
  d_next :: nat

text \<open>\<open>Seg_Count\<close> and the two pointers are those of \<open>DMA_RX_FRAME_infos\<close>; the demands count the writes that resume the DMA.\<close>

record eth_drv =
  tx_tab :: "dma_desc list"
  tx_set :: nat
  rx_tab :: "dma_desc list"
  rx_get :: nat
  FS_Rx_Desc :: nat
  LS_Rx_Desc :: "nat option"
  Seg_Count :: nat
  DMASR :: u32
  tx_demands :: nat
  rx_demands :: nat
  eth_on :: bool

definition owned :: "dma_desc \<Rightarrow> bool" where
  "owned x \<longleftrightarrow> d_status x AND ETH_DESC_OWN \<noteq> 0"

definition has :: "u32 \<Rightarrow> dma_desc \<Rightarrow> bool" where
  "has f x \<longleftrightarrow> d_status x AND f \<noteq> 0"

text \<open>A flag of \<open>DMASR\<close> is cleared by writing it, and the DMA told to go on.\<close>

definition resume_tx :: "u32 \<Rightarrow> eth_drv \<Rightarrow> eth_drv" where
  "resume_tx f d = (if DMASR d AND f \<noteq> 0 then d\<lparr>DMASR := DMASR d AND NOT f, tx_demands := Suc (tx_demands d)\<rparr> else d)"

definition resume_rx :: "u32 \<Rightarrow> eth_drv \<Rightarrow> eth_drv" where
  "resume_rx f d = (if DMASR d AND f \<noteq> 0 then d\<lparr>DMASR := DMASR d AND NOT f, rx_demands := Suc (rx_demands d)\<rparr> else d)"

definition chain_next :: "nat \<Rightarrow> nat \<Rightarrow> nat" where
  "chain_next n i = (if i < n - 1 then i + 1 else 0)"

definition ETH_DMATxDescChainInit :: "nat \<Rightarrow> eth_drv \<Rightarrow> eth_drv" where
  "ETH_DMATxDescChainInit n d = d\<lparr>tx_set := 0,
    tx_tab := map (\<lambda>i. (tx_tab d ! i)\<lparr>d_status := ETH_DMATxDesc_TCH, d_next := chain_next n i\<rparr>) [0..<n]\<rparr>"

definition ETH_DMARxDescChainInit :: "nat \<Rightarrow> eth_drv \<Rightarrow> eth_drv" where
  "ETH_DMARxDescChainInit n d = d\<lparr>rx_get := 0,
    rx_tab := map (\<lambda>i. (rx_tab d ! i)\<lparr>d_status := ETH_DESC_OWN, d_ctrl := ETH_DMARxDesc_RCH OR of_nat ETH_BUF_SIZE,
      d_next := chain_next n i\<rparr>) [0..<n]\<rparr>"

definition low_level_init :: "eth_drv \<Rightarrow> eth_drv" where
  "low_level_init d =
    (let d1 = ETH_DMARxDescChainInit ETH_BUFNB (ETH_DMATxDescChainInit ETH_BUFNB d)
     in d1\<lparr>tx_tab := map (\<lambda>x. x\<lparr>d_status := d_status x OR ETH_DMATxDesc_CIC\<rparr>) (tx_tab d1), eth_on := True\<rparr>)"

section \<open>Sending\<close>

definition splice :: "nat \<Rightarrow> bytes \<Rightarrow> bytes \<Rightarrow> bytes" where
  "splice off bs b = take off b @ bs @ drop (off + length bs) b"

definition put_tx :: "nat \<Rightarrow> nat \<Rightarrow> bytes \<Rightarrow> eth_drv \<Rightarrow> eth_drv" where
  "put_tx j off bs d = d\<lparr>tx_tab := (tx_tab d)[j := (tx_tab d ! j)\<lparr>d_buf := splice off bs (d_buf (tx_tab d ! j))\<rparr>]\<rparr>"

abbreviation ETH_ERR_BUF :: int where "ETH_ERR_BUF \<equiv> -2"
abbreviation ETH_ERR_USE :: int where "ETH_ERR_USE \<equiv> -8"

text \<open>One payload: the result, the descriptor, the length of the frame and the offset in its buffer afterwards.\<close>

function copy_out :: "bytes \<Rightarrow> nat \<Rightarrow> u16 \<Rightarrow> nat \<Rightarrow> eth_drv \<Rightarrow> int \<times> nat \<times> u16 \<times> nat \<times> eth_drv" where
  "copy_out q j fl off d =
    (if length q + off > ETH_BUF_SIZE
     then (let n = ETH_BUF_SIZE - off; d1 = put_tx j off (take n q) d; j1 = d_next (tx_tab d1 ! j)
           in if owned (tx_tab d1 ! j1) then (ETH_ERR_USE, j1, fl, off, d1)
              else copy_out (drop n q) j1 (fl + of_nat n) 0 d1)
     else (0, j, fl + of_nat (length q), off + length q, put_tx j off q d))"
  by pat_completeness auto

termination by (relation "measure (\<lambda>(q, j, fl, off, d). length q + off)") auto

declare copy_out.simps [simp del]

fun out_segs :: "bytes list \<Rightarrow> nat \<Rightarrow> u16 \<Rightarrow> nat \<Rightarrow> eth_drv \<Rightarrow> int \<times> u16 \<times> eth_drv" where
  "out_segs [] j fl off d = (0, fl, d)"
| "out_segs (q # qs) j fl off d =
    (if owned (tx_tab d ! j) then (ETH_ERR_BUF, fl, d)
     else case copy_out q j fl off d of (e, j1, fl1, off1, d1) \<Rightarrow> if e \<noteq> 0 then (e, fl1, d1) else out_segs qs j1 fl1 off1 d1)"

text \<open>The loop that marks several descriptors; \<open>i\<close> runs over the list.\<close>

fun tx_mark :: "nat list \<Rightarrow> nat \<Rightarrow> nat \<Rightarrow> nat \<Rightarrow> dma_desc list \<Rightarrow> dma_desc list \<times> nat" where
  "tx_mark [] cnt fl j tab = (tab, j)"
| "tx_mark (i # idxs) cnt fl j tab =
    (let x = tab ! j;
         s0 = d_status x AND NOT (ETH_DMATxDesc_FS OR ETH_DMATxDesc_LS);
         s1 = (if i = 0 then s0 OR ETH_DMATxDesc_FS else s0);
         s2 = (if i = cnt - 1 then s1 OR ETH_DMATxDesc_LS else s1);
         c = (if i = cnt - 1 then of_nat (fl - (cnt - 1) * ETH_BUF_SIZE) else of_nat ETH_BUF_SIZE) AND ETH_DMATxDesc_TBS1
     in tx_mark idxs cnt fl (d_next x) (tab[j := x\<lparr>d_status := s2 OR ETH_DESC_OWN, d_ctrl := c\<rparr>]))"

definition buf_count :: "nat \<Rightarrow> nat" where
  "buf_count fl = (if fl > ETH_BUF_SIZE then fl div ETH_BUF_SIZE + (if fl mod ETH_BUF_SIZE \<noteq> 0 then 1 else 0) else 1)"

definition tx_single :: "nat \<Rightarrow> dma_desc \<Rightarrow> dma_desc" where
  "tx_single fl x = x\<lparr>d_status := (d_status x OR ETH_DMATxDesc_FS OR ETH_DMATxDesc_LS) OR ETH_DESC_OWN,
    d_ctrl := of_nat fl AND ETH_DMATxDesc_TBS1\<rparr>"

definition ETH_Prepare_Transmit_Descriptors :: "u16 \<Rightarrow> eth_drv \<Rightarrow> nat \<times> eth_drv" where
  "ETH_Prepare_Transmit_Descriptors FrameLength d =
    (let x = tx_tab d ! tx_set d; fl = unat FrameLength
     in if owned x then (0, d)
        else (case (if buf_count fl = 1 then ((tx_tab d)[tx_set d := tx_single fl x], d_next x)
                    else tx_mark [0..<buf_count fl] (buf_count fl) fl (tx_set d) (tx_tab d)) of
                (tab, j) \<Rightarrow> (1, resume_tx ETH_DMASR_TBUS (d\<lparr>tx_tab := tab, tx_set := j\<rparr>))))"

definition low_level_output :: "bytes list \<Rightarrow> eth_drv \<Rightarrow> int \<times> eth_drv" where
  "low_level_output p d =
    (case out_segs p (tx_set d) 0 0 d of (errval, framelength, d1) \<Rightarrow>
      (errval, resume_tx ETH_DMASR_TUS (if errval = 0 then snd (ETH_Prepare_Transmit_Descriptors framelength d1) else d1)))"

section \<open>Receiving\<close>

definition ETH_CheckFrameReceived :: "eth_drv \<Rightarrow> bool \<times> eth_drv" where
  "ETH_CheckFrameReceived d =
    (let j = rx_get d; x = rx_tab d ! j
     in if \<not> owned x \<and> has ETH_DMARxDesc_LS x
        then (let d1 = d\<lparr>Seg_Count := Seg_Count d + 1\<rparr>;
                  d2 = (if Seg_Count d1 = 1 then d1\<lparr>FS_Rx_Desc := j\<rparr> else d1)
              in (True, d2\<lparr>LS_Rx_Desc := Some j\<rparr>))
        else if \<not> owned x \<and> has ETH_DMARxDesc_FS x \<and> \<not> has ETH_DMARxDesc_LS x
        then (False, d\<lparr>FS_Rx_Desc := j, LS_Rx_Desc := None, Seg_Count := 1, rx_get := d_next x\<rparr>)
        else if \<not> owned x \<and> \<not> has ETH_DMARxDesc_FS x \<and> \<not> has ETH_DMARxDesc_LS x
        then (False, d\<lparr>Seg_Count := Seg_Count d + 1, rx_get := d_next x\<rparr>)
        else (False, d))"

definition ETH_Get_Received_Frame :: "eth_drv \<Rightarrow> u32 \<times> nat \<times> eth_drv" where
  "ETH_Get_Received_Frame d =
    (let x = rx_tab d ! rx_get d
     in (drop_bit 16 (d_status x AND ETH_DMARxDesc_FL) - 4, FS_Rx_Desc d, d\<lparr>rx_get := d_next x\<rparr>))"

text \<open>One payload of \<open>left\<close> bytes from the buffers, and where it ends.\<close>

function copy_in :: "nat \<Rightarrow> nat \<Rightarrow> nat \<Rightarrow> dma_desc list \<Rightarrow> bytes \<times> nat \<times> nat" where
  "copy_in left j off tab =
    (if left + off > ETH_BUF_SIZE
     then (let n = ETH_BUF_SIZE - off
           in case copy_in (left - n) (d_next (tab ! j)) 0 tab of (bs, j1, off1) \<Rightarrow>
                (take n (drop off (d_buf (tab ! j))) @ bs, j1, off1))
     else (take left (drop off (d_buf (tab ! j))), j, off + left))"
  by pat_completeness auto

termination by (relation "measure (\<lambda>(left, j, off, tab). left + off)") auto

declare copy_in.simps [simp del]

fun in_segs :: "nat list \<Rightarrow> nat \<Rightarrow> nat \<Rightarrow> dma_desc list \<Rightarrow> bytes list" where
  "in_segs [] j off tab = []"
| "in_segs (n # ns) j off tab = (case copy_in n j off tab of (bs, j1, off1) \<Rightarrow> bs # in_segs ns j1 off1 tab)"

fun give_back :: "nat \<Rightarrow> nat \<Rightarrow> dma_desc list \<Rightarrow> dma_desc list" where
  "give_back 0 j tab = tab"
| "give_back (Suc k) j tab = give_back k (d_next (tab ! j)) (tab[j := (tab ! j)\<lparr>d_status := ETH_DESC_OWN\<rparr>])"

text \<open>\<open>alloc n\<close>: the lengths of the buffers \<open>pbuf_alloc\<close> chains for \<open>n\<close> bytes, if it has them.\<close>

definition low_level_input :: "(nat \<Rightarrow> nat list option) \<Rightarrow> eth_drv \<Rightarrow> bytes list option \<times> eth_drv" where
  "low_level_input alloc d =
    (case ETH_Get_Received_Frame d of (len, descriptor, d1) \<Rightarrow>
      (let p = map_option (\<lambda>ns. in_segs ns descriptor 0 (rx_tab d1)) (alloc (unat len));
           d2 = d1\<lparr>rx_tab := give_back (Seg_Count d1) descriptor (rx_tab d1), Seg_Count := 0\<rparr>
       in (p, resume_rx ETH_DMASR_RBUS d2)))"

text \<open>
  The packet is handed to the stack, which may send in its turn and refuses the packet or keeps it; the last part
  tells whether it was freed here.
\<close>

type_synonym 'n lwip = "eth_drv \<times> 'n"

definition ethernetif_input :: "(nat \<Rightarrow> nat list option) \<Rightarrow> (bytes list \<Rightarrow> 'n lwip \<Rightarrow> int \<times> 'n lwip) \<Rightarrow> 'n lwip \<Rightarrow> int \<times> 'n lwip \<times> bool" where
  "ethernetif_input alloc input_fn st =
    (case low_level_input alloc (fst st) of
       (None, d) \<Rightarrow> (-1, (d, snd st), False)
     | (Some p, d) \<Rightarrow> (case input_fn p (d, snd st) of (err, st1) \<Rightarrow> (err, st1, err \<noteq> 0)))"

section \<open>The packet the DMA sends\<close>

text \<open>What the DMA reads from a descriptor on: nothing while one is not its own; the bytes up to the last segment and where the next frame begins.\<close>

fun dma_reads :: "nat \<Rightarrow> nat \<Rightarrow> dma_desc list \<Rightarrow> (bytes \<times> nat) option" where
  "dma_reads 0 j tab = None"
| "dma_reads (Suc k) j tab =
    (let x = tab ! j; bs = take (unat (d_ctrl x)) (d_buf x)
     in if \<not> owned x then None
        else if has ETH_DMATxDesc_LS x then Some (bs, d_next x)
        else map_option (\<lambda>(r, j'). (bs @ r, j')) (dma_reads k (d_next x) tab))"

definition ring_ok :: "dma_desc list \<Rightarrow> bool" where
  "ring_ok tab \<longleftrightarrow> length tab = ETH_BUFNB \<and> (\<forall>i < ETH_BUFNB. d_next (tab ! i) = (i + 1) mod ETH_BUFNB \<and> length (d_buf (tab ! i)) = ETH_BUF_SIZE)"

text \<open>The ring but for its buffers.\<close>

definition marks :: "dma_desc list \<Rightarrow> (u32 \<times> u32 \<times> nat) list" where
  "marks tab = map (\<lambda>x. (d_status x, d_ctrl x, d_next x)) tab"

lemma marks_nth:
  assumes "marks t = marks t'" "i < length t"
  shows "d_status (t ! i) = d_status (t' ! i)" "d_ctrl (t ! i) = d_ctrl (t' ! i)" "d_next (t ! i) = d_next (t' ! i)" "length t' = length t"
proof -
  have "length (marks t) = length (marks t')" by (simp add: assms(1))
  then show l: "length t' = length t" by (simp add: marks_def)
  have "marks t ! i = marks t' ! i" using assms(1) by simp
  then show "d_status (t ! i) = d_status (t' ! i)" "d_ctrl (t ! i) = d_ctrl (t' ! i)" "d_next (t ! i) = d_next (t' ! i)"
    using assms(2) l by (simp_all add: marks_def)
qed

text \<open>
  From descriptor \<open>j0\<close> on the buffers hold the bytes \<open>s\<close>: \<open>c\<close> of them full, and \<open>off\<close> bytes in the next.
\<close>

definition filled :: "nat \<Rightarrow> bytes \<Rightarrow> nat \<Rightarrow> nat \<Rightarrow> dma_desc list \<Rightarrow> bool" where
  "filled j0 s c off tab \<longleftrightarrow> length s = c * ETH_BUF_SIZE + off \<and> off \<le> ETH_BUF_SIZE \<and> c < ETH_BUFNB
    \<and> (\<forall>i < c. d_buf (tab ! ((j0 + i) mod ETH_BUFNB)) = take ETH_BUF_SIZE (drop (i * ETH_BUF_SIZE) s))
    \<and> take off (d_buf (tab ! ((j0 + c) mod ETH_BUFNB))) = drop (c * ETH_BUF_SIZE) s"

lemma put_tx_ring:
  assumes "ring_ok (tx_tab d)" "j < ETH_BUFNB" "off + length bs \<le> ETH_BUF_SIZE"
  shows "ring_ok (tx_tab (put_tx j off bs d))" "marks (tx_tab (put_tx j off bs d)) = marks (tx_tab d)"
    "tx_set (put_tx j off bs d) = tx_set d"
    "i < ETH_BUFNB \<Longrightarrow> d_buf (tx_tab (put_tx j off bs d) ! i) = (if i = j then splice off bs (d_buf (tx_tab d ! j)) else d_buf (tx_tab d ! i))"
proof -
  have l: "length (tx_tab d) = ETH_BUFNB" using assms(1) by (simp add: ring_ok_def)
  show "ring_ok (tx_tab (put_tx j off bs d))"
    using assms by (auto simp: ring_ok_def put_tx_def nth_list_update splice_def)
  show "marks (tx_tab (put_tx j off bs d)) = marks (tx_tab d)"
    using assms(2) l by (auto simp: marks_def put_tx_def map_update intro!: nth_equalityI simp: nth_list_update)
qed (use assms in \<open>auto simp: put_tx_def ring_ok_def nth_list_update\<close>)

lemma mod_ring_eq:
  assumes "(j + a) mod n = (j + b) mod n" "a < n" "b < (n :: nat)"
  shows "a = b"
proof -
  have *: "x = y" if "(j + y) mod n = (j + x) mod n" "x \<le> y" "y < n" for x y
  proof -
    have "n dvd (j + y) - (j + x)" using that(1,2) mod_eq_dvd_iff_nat [of "j + x" "j + y" n] by simp
    then have "n dvd y - x" by simp
    then show ?thesis using that(2,3) by (auto dest: dvd_imp_le)
  qed
  show ?thesis using * [of a b] * [of b a] assms by (cases "a \<le> b") auto
qed

lemma filled_put:
  assumes "ring_ok (tx_tab d)" "filled j0 s c off (tx_tab d)" "off + length bs \<le> ETH_BUF_SIZE"
  shows "filled j0 (s @ bs) c (off + length bs) (tx_tab (put_tx ((j0 + c) mod ETH_BUFNB) off bs d))"
proof -
  let ?j = "(j0 + c) mod ETH_BUFNB" and ?t = "tx_tab (put_tx ((j0 + c) mod ETH_BUFNB) off bs d)"
  have j: "?j < ETH_BUFNB" and c: "c < ETH_BUFNB" using assms(2) by (simp_all add: filled_def)
  have lb: "length (d_buf (tx_tab d ! ?j)) = ETH_BUF_SIZE" using assms(1) j by (simp add: ring_ok_def)
  have "d_buf (?t ! ((j0 + i) mod ETH_BUFNB)) = take ETH_BUF_SIZE (drop (i * ETH_BUF_SIZE) (s @ bs))" if i: "i < c" for i
  proof -
    have "(j0 + i) mod ETH_BUFNB \<noteq> ?j" using mod_ring_eq [of j0 i ETH_BUFNB c] i c by auto
    then have "d_buf (?t ! ((j0 + i) mod ETH_BUFNB)) = take ETH_BUF_SIZE (drop (i * ETH_BUF_SIZE) s)"
      using put_tx_ring(4) [OF assms(1) j assms(3), of "(j0 + i) mod ETH_BUFNB"] assms(2) i by (simp add: filled_def)
    moreover have "(i + 1) * ETH_BUF_SIZE \<le> length s" using assms(2) i by (simp add: filled_def)
    ultimately show ?thesis by simp
  qed
  moreover have "take (off + length bs) (d_buf (?t ! ?j)) = drop (c * ETH_BUF_SIZE) (s @ bs)"
    using put_tx_ring(4) [OF assms(1) j assms(3) j] assms(2) lb by (simp add: filled_def splice_def)
  ultimately show ?thesis using assms(2,3) by (simp add: filled_def)
qed

lemma filled_next:
  assumes "ring_ok tab" "filled j0 s c ETH_BUF_SIZE tab" "c + 1 < ETH_BUFNB"
  shows "filled j0 s (c + 1) 0 tab"
proof -
  let ?b = "d_buf (tab ! ((j0 + c) mod ETH_BUFNB))"
  have "length ?b = ETH_BUF_SIZE" using assms(1) by (simp add: ring_ok_def)
  then have b: "?b = drop (c * ETH_BUF_SIZE) s" "length (drop (c * ETH_BUF_SIZE) s) = ETH_BUF_SIZE"
    using assms(2) by (simp_all add: filled_def)
  have "d_buf (tab ! ((j0 + i) mod ETH_BUFNB)) = take ETH_BUF_SIZE (drop (i * ETH_BUF_SIZE) s)" if "i < c + 1" for i
    using that assms(2) b by (cases "i = c") (auto simp: filled_def)
  then show ?thesis using assms(2,3) by (auto simp: filled_def)
qed

lemma ring_next:
  assumes "ring_ok tab"
  shows "d_next (tab ! ((j0 + c) mod ETH_BUFNB)) = (j0 + (c + 1)) mod ETH_BUFNB"
  using assms by (simp add: ring_ok_def mod_Suc_eq)

lemma owned_marks: "marks t = marks t' \<Longrightarrow> i < length t \<Longrightarrow> owned (t ! i) = owned (t' ! i)"
  using marks_nth(1) [of t t' i] by (simp add: owned_def)

lemma copy_out_filled:
  assumes "ring_ok (tx_tab d)" "filled j0 s c off (tx_tab d)" "length s + length q \<le> ETH_BUFNB * ETH_BUF_SIZE"
    "copy_out q ((j0 + c) mod ETH_BUFNB) fl off d = (e, j', fl', off', d')"
  shows "ring_ok (tx_tab d') \<and> marks (tx_tab d') = marks (tx_tab d) \<and> d' = d\<lparr>tx_tab := tx_tab d'\<rparr>
    \<and> (if e = 0 then fl' = fl + of_nat (length q) \<and> (\<exists>c'. j' = (j0 + c') mod ETH_BUFNB \<and> filled j0 (s @ q) c' off' (tx_tab d')
           \<and> c \<le> c' \<and> (\<forall>i. c < i \<and> i \<le> c' \<longrightarrow> \<not> owned (tx_tab d ! ((j0 + i) mod ETH_BUFNB))))
       else \<exists>i < ETH_BUFNB. owned (tx_tab d ! i))"
  using assms
proof (induction "length q + off" arbitrary: q fl off d s c rule: less_induct)
  case less
  let ?j = "(j0 + c) mod ETH_BUFNB" and ?n = "ETH_BUF_SIZE - off"
  have off: "off \<le> ETH_BUF_SIZE" and cb: "c < ETH_BUFNB" and ls: "length s = c * ETH_BUF_SIZE + off" using less.prems(2) by (simp_all add: filled_def)
  have jb: "?j < ETH_BUFNB" by simp
  show ?case
  proof (cases "length q + off > ETH_BUF_SIZE")
    case False
    then have r: "e = 0" "j' = ?j" "fl' = fl + of_nat (length q)" "off' = off + length q" "d' = put_tx ?j off q d"
      using less.prems(4) by (subst (asm) copy_out.simps, simp)+
    have fit: "off + length q \<le> ETH_BUF_SIZE" using False by simp
    note p = put_tx_ring [OF less.prems(1) jb fit] and f = filled_put [OF less.prems(1,2) fit]
    have "put_tx ?j off q d = d\<lparr>tx_tab := tx_tab (put_tx ?j off q d)\<rparr>" by (simp add: put_tx_def)
    then show ?thesis unfolding r using p(1,2) f by auto
  next
    case True
    let ?d1 = "put_tx ?j off (take ?n q) d"
    have fit: "off + length (take ?n q) \<le> ETH_BUF_SIZE" and full: "off + length (take ?n q) = ETH_BUF_SIZE" using True off by auto
    note p = put_tx_ring [OF less.prems(1) jb fit] and f = filled_put [OF less.prems(1,2) fit, unfolded full]
    have c1: "c + 1 < ETH_BUFNB" using less.prems(3) ls True by auto
    note f1 = filled_next [OF p(1) f c1]
    have j1: "d_next (tx_tab ?d1 ! ?j) = (j0 + (c + 1)) mod ETH_BUFNB" by (rule ring_next [OF p(1)])
    have o: "owned (tx_tab ?d1 ! ((j0 + (c + 1)) mod ETH_BUFNB)) = owned (tx_tab d ! ((j0 + (c + 1)) mod ETH_BUFNB))"
      using owned_marks [OF p(2)] p(1) by (simp add: ring_ok_def)
    have d1: "?d1 = d\<lparr>tx_tab := tx_tab ?d1\<rparr>" by (simp add: put_tx_def)
    show ?thesis
    proof (cases "owned (tx_tab d ! ((j0 + (c + 1)) mod ETH_BUFNB))")
      case busy: True
      then have "e = ETH_ERR_USE" "d' = ?d1" using less.prems(4) True o j1 by (subst (asm) copy_out.simps, simp add: Let_def)+
      moreover have "\<exists>i < ETH_BUFNB. owned (tx_tab d ! i)"
        using busy by (intro exI [of _ "(j0 + (c + 1)) mod ETH_BUFNB"] conjI) (simp_all only: mod_less_divisor zero_less_numeral)
      ultimately show ?thesis using p(1,2) d1 by auto
    next
      case free: False
      have r: "copy_out (drop ?n q) ((j0 + (c + 1)) mod ETH_BUFNB) (fl + of_nat ?n) 0 ?d1 = (e, j', fl', off', d')"
        using less.prems(4) True o j1 free by (subst (asm) copy_out.simps, simp add: Let_def)
      have m: "length (drop ?n q) + 0 < length q + off" using True off by auto
      have ln: "length (s @ take ?n q) + length (drop ?n q) \<le> ETH_BUFNB * ETH_BUF_SIZE" using less.prems(3) by simp
      note ih = less.hyps [OF m p(1) f1 ln r]
      have "?n + length (drop ?n q) = length q" using True off by simp
      then have "(of_nat ?n + of_nat (length (drop ?n q)) :: u16) = of_nat (length q)" by (metis of_nat_add)
      then have fl: "fl + of_nat ?n + of_nat (length (drop ?n q)) = fl + (of_nat (length q) :: u16)"
        by (simp only: add.assoc)
      have od: "owned (tx_tab ?d1 ! ((j0 + i) mod ETH_BUFNB)) = owned (tx_tab d ! ((j0 + i) mod ETH_BUFNB))" for i
        using owned_marks [OF p(2)] p(1) by (simp add: ring_ok_def)
      have keep: "ring_ok (tx_tab d')" "marks (tx_tab d') = marks (tx_tab d)" "d' = d\<lparr>tx_tab := tx_tab d'\<rparr>"
        using ih p(2) d1 by (auto, metis (no_types) eth_drv.update_convs(1) eth_drv.surjective)
      show ?thesis
      proof (cases "e = 0")
        case True
        then obtain c' where c': "j' = (j0 + c') mod ETH_BUFNB" "filled j0 ((s @ take ?n q) @ drop ?n q) c' off' (tx_tab d')" "c + 1 \<le> c'"
          "\<And>i. c + 1 < i \<Longrightarrow> i \<le> c' \<Longrightarrow> \<not> owned (tx_tab ?d1 ! ((j0 + i) mod ETH_BUFNB))"
          and fl': "fl' = fl + of_nat ?n + of_nat (length (drop ?n q))"
          using ih by auto
        have "\<not> owned (tx_tab d ! ((j0 + i) mod ETH_BUFNB))" if "c < i" "i \<le> c'" for i
          using that free c'(4) [of i] od by (cases "i = c + 1") auto
        then show ?thesis using True keep c'(1,2,3) fl' fl by auto
      next
        case False
        then obtain i where "i < ETH_BUFNB" "owned (tx_tab ?d1 ! i)" using ih by auto
        then have "owned (tx_tab d ! i)" using owned_marks [OF p(2)] p(1) by (simp add: ring_ok_def)
        with False keep \<open>i < ETH_BUFNB\<close> show ?thesis by auto
      qed
    qed
  qed
qed

text \<open>The whole packet.\<close>

lemma out_segs_filled:
  assumes "ring_ok (tx_tab d)" "filled j0 s c off (tx_tab d)" "length s + length (concat qs) \<le> ETH_BUFNB * ETH_BUF_SIZE"
    "out_segs qs ((j0 + c) mod ETH_BUFNB) fl off d = (e, fl', d')"
  shows "ring_ok (tx_tab d') \<and> marks (tx_tab d') = marks (tx_tab d) \<and> d' = d\<lparr>tx_tab := tx_tab d'\<rparr>
    \<and> (if e = 0 then fl' = fl + of_nat (length (concat qs)) \<and> (\<exists>c' off'. filled j0 (s @ concat qs) c' off' (tx_tab d')
           \<and> c \<le> c' \<and> (\<forall>i. c < i \<and> i \<le> c' \<longrightarrow> \<not> owned (tx_tab d ! ((j0 + i) mod ETH_BUFNB))))
       else \<exists>i < ETH_BUFNB. owned (tx_tab d ! i))"
  using assms
proof (induction qs arbitrary: s c fl off d)
  case Nil
  then show ?case by auto
next
  case (Cons q qs)
  let ?j = "(j0 + c) mod ETH_BUFNB"
  show ?case
  proof (cases "owned (tx_tab d ! ?j)")
    case True
    then have "\<exists>i < ETH_BUFNB. owned (tx_tab d ! i)" by (intro exI [of _ ?j]) simp
    then show ?thesis using True Cons.prems by auto
  next
    case False
    obtain e1 j1 fl1 off1 d1 where q: "copy_out q ?j fl off d = (e1, j1, fl1, off1, d1)"
      by (cases "copy_out q ?j fl off d") auto
    have lq: "length s + length q \<le> ETH_BUFNB * ETH_BUF_SIZE" using Cons.prems(3) by simp
    note c = copy_out_filled [OF Cons.prems(1,2) lq q]
    show ?thesis
    proof (cases "e1 = 0")
      case e1: False
      then have "e = e1" "fl' = fl1" "d' = d1" using Cons.prems(4) False q by simp_all
      then show ?thesis using c e1 by auto
    next
      case True
      from True c obtain c1 where c1: "j1 = (j0 + c1) mod ETH_BUFNB" "filled j0 (s @ q) c1 off1 (tx_tab d1)" "c \<le> c1"
        "\<And>i. c < i \<Longrightarrow> i \<le> c1 \<Longrightarrow> \<not> owned (tx_tab d ! ((j0 + i) mod ETH_BUFNB))" and fl1: "fl1 = fl + of_nat (length q)"
        and k: "ring_ok (tx_tab d1)" "marks (tx_tab d1) = marks (tx_tab d)" "d1 = d\<lparr>tx_tab := tx_tab d1\<rparr>"
        by auto
      have r: "out_segs qs ((j0 + c1) mod ETH_BUFNB) fl1 off1 d1 = (e, fl', d')" using Cons.prems(4) False q True c1(1) by simp
      have ln: "length (s @ q) + length (concat qs) \<le> ETH_BUFNB * ETH_BUF_SIZE" using Cons.prems(3) by simp
      note ih = Cons.IH [OF k(1) c1(2) ln r]
      have od: "owned (tx_tab d1 ! i) = owned (tx_tab d ! i)" if "i < ETH_BUFNB" for i
        using owned_marks [OF k(2), of i] k(1) that by (simp add: ring_ok_def)
      have keep: "ring_ok (tx_tab d')" "marks (tx_tab d') = marks (tx_tab d)" "d' = d\<lparr>tx_tab := tx_tab d'\<rparr>"
        using ih k(2,3) by (auto, metis (no_types) eth_drv.update_convs(1) eth_drv.surjective)
      show ?thesis
      proof (cases "e = 0")
        case True
        then obtain c' off' where c': "filled j0 ((s @ q) @ concat qs) c' off' (tx_tab d')" "c1 \<le> c'"
          "\<And>i. c1 < i \<Longrightarrow> i \<le> c' \<Longrightarrow> \<not> owned (tx_tab d1 ! ((j0 + i) mod ETH_BUFNB))"
          and fl': "fl' = fl1 + of_nat (length (concat qs))"
          using ih by auto
        have "\<not> owned (tx_tab d ! ((j0 + i) mod ETH_BUFNB))" if "c < i" "i \<le> c'" for i
          using that c1(4) [of i] c'(3) [of i] od [of "(j0 + i) mod ETH_BUFNB"] by (cases "i \<le> c1") auto
        moreover have "fl' = fl + of_nat (length (concat (q # qs)))" by (simp add: fl' fl1 add.assoc)
        moreover have "filled j0 (s @ concat (q # qs)) c' off' (tx_tab d')" "c \<le> c'" using c'(1,2) c1(3) by simp_all
        ultimately have "fl' = fl + of_nat (length (concat (q # qs))) \<and> (\<exists>c' off'. filled j0 (s @ concat (q # qs)) c' off' (tx_tab d')
            \<and> c \<le> c' \<and> (\<forall>i. c < i \<and> i \<le> c' \<longrightarrow> \<not> owned (tx_tab d ! ((j0 + i) mod ETH_BUFNB))))" by blast
        then show ?thesis unfolding if_P [OF True] using keep by blast
      next
        case False
        then show ?thesis using keep ih od by auto
      qed
    qed
  qed
qed

section \<open>The marks of the descriptors\<close>

definition tx_marked :: "nat \<Rightarrow> nat \<Rightarrow> nat \<Rightarrow> dma_desc \<Rightarrow> dma_desc" where
  "tx_marked cnt fl i x =
    (let s0 = d_status x AND NOT (ETH_DMATxDesc_FS OR ETH_DMATxDesc_LS);
         s1 = (if i = 0 then s0 OR ETH_DMATxDesc_FS else s0);
         s2 = (if i = cnt - 1 then s1 OR ETH_DMATxDesc_LS else s1);
         c = (if i = cnt - 1 then of_nat (fl - (cnt - 1) * ETH_BUF_SIZE) else of_nat ETH_BUF_SIZE) AND ETH_DMATxDesc_TBS1
     in x\<lparr>d_status := s2 OR ETH_DESC_OWN, d_ctrl := c\<rparr>)"

lemma tx_mark_Cons: "tx_mark (i # idxs) cnt fl j tab = tx_mark idxs cnt fl (d_next (tab ! j)) (tab[j := tx_marked cnt fl i (tab ! j)])"
  by (simp add: tx_marked_def Let_def)

lemma flag_bits:
  "owned x \<longleftrightarrow> bit (d_status x) 31" "has ETH_DMATxDesc_LS x \<longleftrightarrow> bit (d_status x) 29" "has ETH_DMATxDesc_FS x \<longleftrightarrow> bit (d_status x) 28"
proof -
  have "(0x80000000 :: u32) = push_bit 31 1" "(0x20000000 :: u32) = push_bit 29 1" "(0x10000000 :: u32) = push_bit 28 1" by simp_all
  then show "owned x \<longleftrightarrow> bit (d_status x) 31" "has ETH_DMATxDesc_LS x \<longleftrightarrow> bit (d_status x) 29" "has ETH_DMATxDesc_FS x \<longleftrightarrow> bit (d_status x) 28"
    by (simp_all only: owned_def has_def bit_iff_and_push_bit_not_eq_0)
qed

lemma size_field: "m \<le> ETH_BUF_SIZE \<Longrightarrow> unat (of_nat m AND ETH_DMATxDesc_TBS1 :: u32) = m"
proof -
  assume m: "m \<le> ETH_BUF_SIZE"
  have "(0x1FFF :: u32) = mask 13" by (simp add: mask_eq_exp_minus_1)
  then have "(of_nat m AND 0x1FFF :: u32) = take_bit 13 (of_nat m)" by (simp only: take_bit_eq_mask)
  then have "unat (of_nat m AND ETH_DMATxDesc_TBS1 :: u32) = take_bit 13 (unat (of_nat m :: u32))"
    by (simp only: unsigned_take_bit_eq)
  also have "unat (of_nat m :: u32) = m" using m by (intro unat_of_nat_u32) simp
  finally show ?thesis using m by (simp add: take_bit_nat_eq_self)
qed

lemma tx_marked_facts:
  assumes "cnt \<le> ETH_BUFNB" "fl \<le> cnt * ETH_BUF_SIZE"
  shows "owned (tx_marked cnt fl i x)" "has ETH_DMATxDesc_LS (tx_marked cnt fl i x) \<longleftrightarrow> i = cnt - 1"
    "has ETH_DMATxDesc_FS (tx_marked cnt fl i x) \<longleftrightarrow> i = 0" "d_next (tx_marked cnt fl i x) = d_next x" "d_buf (tx_marked cnt fl i x) = d_buf x"
    "unat (d_ctrl (tx_marked cnt fl i x)) = (if i = cnt - 1 then fl - (cnt - 1) * ETH_BUF_SIZE else ETH_BUF_SIZE)"
proof -
  have w: "(0x80000000 :: u32) = push_bit 31 1" "(0x20000000 :: u32) = push_bit 29 1" "(0x10000000 :: u32) = push_bit 28 1" by simp_all
  show "owned (tx_marked cnt fl i x)" "has ETH_DMATxDesc_LS (tx_marked cnt fl i x) \<longleftrightarrow> i = cnt - 1"
    "has ETH_DMATxDesc_FS (tx_marked cnt fl i x) \<longleftrightarrow> i = 0"
    unfolding flag_bits unfolding tx_marked_def Let_def w
    by (auto simp add: bit_simps simp del: push_bit_of_1 push_bit_numeral)
  show "d_next (tx_marked cnt fl i x) = d_next x" "d_buf (tx_marked cnt fl i x) = d_buf x" by (simp_all add: tx_marked_def Let_def)
  have "fl - (cnt - 1) * ETH_BUF_SIZE \<le> ETH_BUF_SIZE" using assms(2) by (cases cnt) auto
  then show "unat (d_ctrl (tx_marked cnt fl i x)) = (if i = cnt - 1 then fl - (cnt - 1) * ETH_BUF_SIZE else ETH_BUF_SIZE)"
    by (simp add: tx_marked_def Let_def size_field del: of_nat_diff of_nat_numeral)
qed

text \<open>After the loop exactly the \<open>cnt\<close> descriptors from \<open>j0\<close> on are marked.\<close>

lemma tx_mark_all:
  assumes "ring_ok tab" "i \<le> cnt" "cnt \<le> ETH_BUFNB" "fl \<le> cnt * ETH_BUF_SIZE" "tx_mark [i..<cnt] cnt fl ((j0 + i) mod ETH_BUFNB) tab = (tab', j')"
  shows "ring_ok tab' \<and> j' = (j0 + cnt) mod ETH_BUFNB
    \<and> (\<forall>k < ETH_BUFNB. tab' ! ((j0 + k) mod ETH_BUFNB) = (if i \<le> k \<and> k < cnt then tx_marked cnt fl k (tab ! ((j0 + k) mod ETH_BUFNB)) else tab ! ((j0 + k) mod ETH_BUFNB)))"
  using assms
proof (induction "cnt - i" arbitrary: i tab)
  case 0
  then show ?case by auto
next
  case (Suc m)
  let ?j = "(j0 + i) mod ETH_BUFNB"
  let ?t = "tab[?j := tx_marked cnt fl i (tab ! ?j)]"
  have i: "i < cnt" using Suc.hyps(2) by simp
  have j: "?j < length tab" using Suc.prems(1) by (simp add: ring_ok_def)
  have nx: "d_next (tab ! ?j) = (j0 + Suc i) mod ETH_BUFNB" using ring_next [OF Suc.prems(1), of j0 i] by simp
  note f = tx_marked_facts [OF Suc.prems(3,4)]
  have r: "ring_ok ?t" using Suc.prems(1) by (auto simp: ring_ok_def nth_list_update f)
  have e: "tx_mark [Suc i..<cnt] cnt fl ((j0 + Suc i) mod ETH_BUFNB) ?t = (tab', j')"
    using Suc.prems(5) i by (simp add: upt_conv_Cons tx_mark_Cons nx del: tx_mark.simps(2))
  have ih: "ring_ok tab' \<and> j' = (j0 + cnt) mod ETH_BUFNB
    \<and> (\<forall>k < ETH_BUFNB. tab' ! ((j0 + k) mod ETH_BUFNB) = (if Suc i \<le> k \<and> k < cnt then tx_marked cnt fl k (?t ! ((j0 + k) mod ETH_BUFNB)) else ?t ! ((j0 + k) mod ETH_BUFNB)))"
    using Suc.hyps(1) [OF _ r _ Suc.prems(3,4) e] Suc.hyps(2) i by simp
  have "tab' ! ((j0 + k) mod ETH_BUFNB) = (if i \<le> k \<and> k < cnt then tx_marked cnt fl k (tab ! ((j0 + k) mod ETH_BUFNB)) else tab ! ((j0 + k) mod ETH_BUFNB))"
    if k: "k < ETH_BUFNB" for k
  proof (cases "k = i")
    case True
    then show ?thesis using ih k j i by simp
  next
    case False
    then have "(j0 + k) mod ETH_BUFNB \<noteq> ?j" using mod_ring_eq [of j0 k ETH_BUFNB i] k i Suc.prems(3) by auto
    then show ?thesis using ih k False by auto
  qed
  then show ?case using ih by blast
qed

lemma tx_single_facts:
  assumes "fl \<le> ETH_BUF_SIZE"
  shows "owned (tx_single fl x)" "has ETH_DMATxDesc_LS (tx_single fl x)" "d_next (tx_single fl x) = d_next x" "d_buf (tx_single fl x) = d_buf x"
    "unat (d_ctrl (tx_single fl x)) = fl"
proof -
  have w: "(0x80000000 :: u32) = push_bit 31 1" "(0x20000000 :: u32) = push_bit 29 1" "(0x10000000 :: u32) = push_bit 28 1" by simp_all
  show "owned (tx_single fl x)" "has ETH_DMATxDesc_LS (tx_single fl x)"
    unfolding flag_bits unfolding tx_single_def w
    by (auto simp add: bit_simps simp del: push_bit_of_1 push_bit_numeral)
  show "d_next (tx_single fl x) = d_next x" "d_buf (tx_single fl x) = d_buf x" by (simp_all add: tx_single_def)
  show "unat (d_ctrl (tx_single fl x)) = fl" using assms by (simp add: tx_single_def size_field)
qed

text \<open>Enough descriptors are marked for the bytes and the last of them has the rest.\<close>

lemma buf_count_bounds:
  assumes "fl \<le> ETH_BUFNB * ETH_BUF_SIZE"
  shows "0 < buf_count fl" "buf_count fl \<le> ETH_BUFNB" "fl \<le> buf_count fl * ETH_BUF_SIZE" "(buf_count fl - 1) * ETH_BUF_SIZE \<le> fl"
    "0 < fl \<Longrightarrow> (buf_count fl - 1) * ETH_BUF_SIZE < fl"
proof -
  define a b where "a = fl div ETH_BUF_SIZE" and "b = fl mod ETH_BUF_SIZE"
  have ab: "fl = a * ETH_BUF_SIZE + b" "b < ETH_BUF_SIZE" by (simp_all add: a_def b_def)
  have c: "buf_count fl = (if fl > ETH_BUF_SIZE then a + (if b \<noteq> 0 then 1 else 0) else 1)" by (simp add: buf_count_def a_def b_def)
  show "0 < buf_count fl" "buf_count fl \<le> ETH_BUFNB" "fl \<le> buf_count fl * ETH_BUF_SIZE" "(buf_count fl - 1) * ETH_BUF_SIZE \<le> fl"
    "0 < fl \<Longrightarrow> (buf_count fl - 1) * ETH_BUF_SIZE < fl"
    unfolding c using assms ab by (cases a; auto)+
qed

lemma filled_buffers:
  assumes "filled j0 s c off tab" "length s \<le> ETH_BUFNB * ETH_BUF_SIZE" "i < buf_count (length s)"
  shows "take (min ETH_BUF_SIZE (length s - i * ETH_BUF_SIZE)) (d_buf (tab ! ((j0 + i) mod ETH_BUFNB))) = take ETH_BUF_SIZE (drop (i * ETH_BUF_SIZE) s)"
proof (cases "i < c")
  case True
  then have "d_buf (tab ! ((j0 + i) mod ETH_BUFNB)) = take ETH_BUF_SIZE (drop (i * ETH_BUF_SIZE) s)"
    "ETH_BUF_SIZE \<le> length s - i * ETH_BUF_SIZE" using assms(1) by (simp_all add: filled_def)
  then show ?thesis by (simp add: min_absorb1)
next
  case False
  have l: "length s = c * ETH_BUF_SIZE + off" "off \<le> ETH_BUF_SIZE" "take off (d_buf (tab ! ((j0 + c) mod ETH_BUFNB))) = drop (c * ETH_BUF_SIZE) s"
    using assms(1) by (simp_all add: filled_def)
  have "i * ETH_BUF_SIZE \<le> (buf_count (length s) - 1) * ETH_BUF_SIZE" using assms(3) by (intro mult_right_mono) simp_all
  then have "i = c \<or> length s = 0 \<and> i = 0"
    using buf_count_bounds(4,5) [OF assms(2)] l(1,2) False by (cases "length s = 0") auto
  then have "i = c" using l(1) False by auto
  moreover have "min ETH_BUF_SIZE (length s - c * ETH_BUF_SIZE) = off" using l(1,2) by simp
  ultimately show ?thesis using l by simp
qed

text \<open>The DMA reads what the marks and the buffers of \<open>n\<close> descriptors say.\<close>

lemma dma_reads_marked:
  assumes "ring_ok tab" "i < cnt" "cnt \<le> ETH_BUFNB" "cnt - i \<le> k"
    "\<And>m. i \<le> m \<Longrightarrow> m < cnt \<Longrightarrow> owned (tab ! ((j0 + m) mod ETH_BUFNB)) \<and> (has ETH_DMATxDesc_LS (tab ! ((j0 + m) mod ETH_BUFNB)) \<longleftrightarrow> m = cnt - 1)
      \<and> take (unat (d_ctrl (tab ! ((j0 + m) mod ETH_BUFNB)))) (d_buf (tab ! ((j0 + m) mod ETH_BUFNB))) = take ETH_BUF_SIZE (drop (m * ETH_BUF_SIZE) s)"
    "length s \<le> cnt * ETH_BUF_SIZE"
  shows "dma_reads k ((j0 + i) mod ETH_BUFNB) tab = Some (drop (i * ETH_BUF_SIZE) s, (j0 + cnt) mod ETH_BUFNB)"
  using assms
proof (induction k arbitrary: i)
  case 0
  then show ?case by simp
next
  case (Suc k)
  let ?x = "tab ! ((j0 + i) mod ETH_BUFNB)"
  have x: "owned ?x" "has ETH_DMATxDesc_LS ?x \<longleftrightarrow> i = cnt - 1" "take (unat (d_ctrl ?x)) (d_buf ?x) = take ETH_BUF_SIZE (drop (i * ETH_BUF_SIZE) s)"
    using Suc.prems(5) [of i] Suc.prems(2) by auto
  have nx: "d_next ?x = (j0 + (i + 1)) mod ETH_BUFNB" by (rule ring_next [OF Suc.prems(1)])
  show ?case
  proof (cases "i = cnt - 1")
    case True
    then have "length (drop (i * ETH_BUF_SIZE) s) \<le> ETH_BUF_SIZE" "(j0 + (i + 1)) mod ETH_BUFNB = (j0 + cnt) mod ETH_BUFNB"
      using Suc.prems(2,6) by (cases cnt; simp)+
    then show ?thesis using x nx True by (simp add: Let_def)
  next
    case False
    then have "dma_reads k ((j0 + (i + 1)) mod ETH_BUFNB) tab = Some (drop ((i + 1) * ETH_BUF_SIZE) s, (j0 + cnt) mod ETH_BUFNB)"
      using Suc.prems by (intro Suc.IH) auto
    moreover have "take ETH_BUF_SIZE (drop (i * ETH_BUF_SIZE) s) @ drop ((i + 1) * ETH_BUF_SIZE) s = drop (i * ETH_BUF_SIZE) s"
      using append_take_drop_id [of ETH_BUF_SIZE "drop (i * ETH_BUF_SIZE) s"] by (simp add: algebra_simps)
    ultimately show ?thesis using x nx False by (simp add: Let_def)
  qed
qed

text \<open>What marking does to the ring.\<close>

lemma prepare_marks:
  assumes "ring_ok (tx_tab d)" "tx_set d < ETH_BUFNB" "\<not> owned (tx_tab d ! tx_set d)" "unat fl \<le> ETH_BUFNB * ETH_BUF_SIZE"
  defines "d' \<equiv> snd (ETH_Prepare_Transmit_Descriptors fl d)" and "cnt \<equiv> buf_count (unat fl)" and "j0 \<equiv> tx_set d"
  shows "ring_ok (tx_tab d')" "tx_set d' = (j0 + cnt) mod ETH_BUFNB"
    "k < ETH_BUFNB \<Longrightarrow> d_buf (tx_tab d' ! ((j0 + k) mod ETH_BUFNB)) = d_buf (tx_tab d ! ((j0 + k) mod ETH_BUFNB))"
    "k < cnt \<Longrightarrow> owned (tx_tab d' ! ((j0 + k) mod ETH_BUFNB)) \<and> (has ETH_DMATxDesc_LS (tx_tab d' ! ((j0 + k) mod ETH_BUFNB)) \<longleftrightarrow> k = cnt - 1)
      \<and> unat (d_ctrl (tx_tab d' ! ((j0 + k) mod ETH_BUFNB))) = min ETH_BUF_SIZE (unat fl - k * ETH_BUF_SIZE)"
    "cnt \<le> k \<Longrightarrow> k < ETH_BUFNB \<Longrightarrow> tx_tab d' ! ((j0 + k) mod ETH_BUFNB) = tx_tab d ! ((j0 + k) mod ETH_BUFNB)"
proof -
  note b = buf_count_bounds [OF assms(4), folded cnt_def]
  obtain tab j where tj: "(if cnt = 1 then ((tx_tab d)[j0 := tx_single (unat fl) (tx_tab d ! j0)], d_next (tx_tab d ! j0))
      else tx_mark [0..<cnt] cnt (unat fl) j0 (tx_tab d)) = (tab, j)" by fastforce
  have d': "tx_tab d' = tab" "tx_set d' = j"
    using assms(3) tj by (auto simp: d'_def ETH_Prepare_Transmit_Descriptors_def Let_def resume_tx_def cnt_def [symmetric] j0_def [symmetric])
  have j0: "j0 < ETH_BUFNB" "j0 mod ETH_BUFNB = j0" using assms(2) by (simp_all add: j0_def)
  have "ring_ok tab \<and> j = (j0 + cnt) mod ETH_BUFNB
      \<and> (\<forall>k < ETH_BUFNB. d_buf (tab ! ((j0 + k) mod ETH_BUFNB)) = d_buf (tx_tab d ! ((j0 + k) mod ETH_BUFNB)))
      \<and> (\<forall>k < cnt. owned (tab ! ((j0 + k) mod ETH_BUFNB)) \<and> (has ETH_DMATxDesc_LS (tab ! ((j0 + k) mod ETH_BUFNB)) \<longleftrightarrow> k = cnt - 1)
      \<and> unat (d_ctrl (tab ! ((j0 + k) mod ETH_BUFNB))) = min ETH_BUF_SIZE (unat fl - k * ETH_BUF_SIZE))
      \<and> (\<forall>k < ETH_BUFNB. cnt \<le> k \<longrightarrow> tab ! ((j0 + k) mod ETH_BUFNB) = tx_tab d ! ((j0 + k) mod ETH_BUFNB))"
  proof (cases "cnt = 1")
    case True
    then have t: "tab = (tx_tab d)[j0 := tx_single (unat fl) (tx_tab d ! j0)]" "j = d_next (tx_tab d ! j0)" using tj by simp_all
    have s: "unat fl \<le> ETH_BUF_SIZE" using b(3) True by simp
    have len: "length (tx_tab d) = ETH_BUFNB" using assms(1) by (simp add: ring_ok_def)
    have r: "ring_ok tab" using assms(1) using j0(1) unfolding t by (auto simp: ring_ok_def nth_list_update tx_single_facts [OF s])
    have j: "j = (j0 + cnt) mod ETH_BUFNB" using assms(1) j0 True by (simp add: ring_ok_def t(2))
    have bf: "\<forall>k < ETH_BUFNB. d_buf (tab ! ((j0 + k) mod ETH_BUFNB)) = d_buf (tx_tab d ! ((j0 + k) mod ETH_BUFNB))"
      using len j0(1) by (auto simp: t(1) nth_list_update tx_single_facts [OF s])
    have x: "tab ! j0 = tx_single (unat fl) (tx_tab d ! j0)" using len j0 by (simp add: t(1))
    have "j0 \<noteq> (j0 + k) mod ETH_BUFNB" if "0 < k" "k < ETH_BUFNB" for k
      using mod_ring_eq [of j0 k ETH_BUFNB 0] that j0 by auto
    then have "\<forall>k < ETH_BUFNB. cnt \<le> k \<longrightarrow> tab ! ((j0 + k) mod ETH_BUFNB) = tx_tab d ! ((j0 + k) mod ETH_BUFNB)"
      using True by (auto simp: t(1) nth_list_update)
    then show ?thesis using r j bf x j0 s True by (auto simp: tx_single_facts [OF s] min_absorb2)
  next
    case False
    then have m: "tx_mark [0..<cnt] cnt (unat fl) ((j0 + 0) mod ETH_BUFNB) (tx_tab d) = (tab, j)" using tj j0 by simp
    note a = tx_mark_all [OF assms(1) le0 b(2) b(3) m]
    note f = tx_marked_facts [OF b(2,3)]
    have "unat (d_ctrl (tx_marked cnt (unat fl) k x)) = min ETH_BUF_SIZE (unat fl - k * ETH_BUF_SIZE)" if k: "k < cnt" for k x
    proof (cases "k = cnt - 1")
      case True
      then show ?thesis using f(6) [of k x] b(3) k by (cases cnt) auto
    next
      case False
      then have "(k + 1) * ETH_BUF_SIZE \<le> (cnt - 1) * ETH_BUF_SIZE" using k by (intro mult_right_mono) auto
      then show ?thesis using f(6) [of k x] b(4) False by auto
    qed
    then show ?thesis using a b(2) f by auto
  qed
  then show "ring_ok (tx_tab d')" "tx_set d' = (j0 + cnt) mod ETH_BUFNB"
    "k < ETH_BUFNB \<Longrightarrow> d_buf (tx_tab d' ! ((j0 + k) mod ETH_BUFNB)) = d_buf (tx_tab d ! ((j0 + k) mod ETH_BUFNB))"
    "k < cnt \<Longrightarrow> owned (tx_tab d' ! ((j0 + k) mod ETH_BUFNB)) \<and> (has ETH_DMATxDesc_LS (tx_tab d' ! ((j0 + k) mod ETH_BUFNB)) \<longleftrightarrow> k = cnt - 1)
      \<and> unat (d_ctrl (tx_tab d' ! ((j0 + k) mod ETH_BUFNB))) = min ETH_BUF_SIZE (unat fl - k * ETH_BUF_SIZE)"
    "cnt \<le> k \<Longrightarrow> k < ETH_BUFNB \<Longrightarrow> tx_tab d' ! ((j0 + k) mod ETH_BUFNB) = tx_tab d ! ((j0 + k) mod ETH_BUFNB)"
    unfolding d' by blast+
qed

text \<open>The copying spares the buffers of the DMA.\<close>

definition spares :: "dma_desc list \<Rightarrow> dma_desc list \<Rightarrow> bool" where
  "spares t t' \<longleftrightarrow> (\<forall>i. owned (t' ! i) = owned (t ! i) \<and> (owned (t ! i) \<longrightarrow> t' ! i = t ! i))"

lemma spares_trans: "spares t t' \<Longrightarrow> spares t' t'' \<Longrightarrow> spares t t''"
  by (simp add: spares_def)

lemma put_tx_spares: "\<not> owned (tx_tab d ! j) \<Longrightarrow> spares (tx_tab d) (tx_tab (put_tx j off bs d))"
  by (cases "j < length (tx_tab d)") (auto simp: spares_def put_tx_def nth_list_update owned_def list_update_beyond not_less)

lemma copy_out_spares:
  assumes "\<not> owned (tx_tab d ! j)" "copy_out q j fl off d = (e, j', fl', off', d')"
  shows "spares (tx_tab d) (tx_tab d')"
  using assms
proof (induction q j fl off d rule: copy_out.induct)
  case (1 q j fl off d)
  let ?d1 = "put_tx j off (take (ETH_BUF_SIZE - off) q) d"
  note s1 = put_tx_spares [OF 1(2), of off "take (ETH_BUF_SIZE - off) q"] and s2 = put_tx_spares [OF 1(2), of off q]
  show ?case
  proof (cases "length q + off > ETH_BUF_SIZE \<and> \<not> owned (tx_tab ?d1 ! d_next (tx_tab ?d1 ! j))")
    case True
    then have "spares (tx_tab ?d1) (tx_tab d')"
      using 1(1) [OF _ refl refl refl] 1(3) copy_out.simps [of q j fl off d] by (simp add: Let_def)
    then show ?thesis by (rule spares_trans [OF s1])
  next
    case False
    then show ?thesis using s1 s2 1(3) copy_out.simps [of q j fl off d] by (auto simp: Let_def split: if_splits)
  qed
qed

lemma out_segs_spares: "out_segs segs j fl off d = (e, fl', d') \<Longrightarrow> spares (tx_tab d) (tx_tab d')"
proof (induction segs j fl off d rule: out_segs.induct)
  case (1 j fl off d)
  then show ?case by (simp add: spares_def)
next
  case (2 q qs j fl off d)
  obtain e1 j1 fl1 off1 d1 where q: "copy_out q j fl off d = (e1, j1, fl1, off1, d1)" by (metis prod_cases5)
  show ?case
  proof (cases "owned (tx_tab d ! j)")
    case True
    then show ?thesis using 2(2) by (simp add: spares_def)
  next
    case False
    note s = copy_out_spares [OF False q]
    show ?thesis
    proof (cases "e1 = 0")
      case True
      then have "spares (tx_tab d1) (tx_tab d')" using 2(1) [OF False q [symmetric] refl refl refl] 2(2) False q by simp
      then show ?thesis by (rule spares_trans [OF s])
    next
      case e1: False
      then show ?thesis using s 2(2) False q by simp
    qed
  qed
qed

text \<open>A packet the interface accepts is read back by the DMA.\<close>

lemma ring_index:
  assumes "i < ETH_BUFNB" "j < ETH_BUFNB"
  obtains m where "m < ETH_BUFNB" "i = (j + m) mod ETH_BUFNB"
proof (cases "j \<le> i")
  case True
  then show ?thesis using that [of "i - j"] assms by simp
next
  case False
  then show ?thesis using that [of "i + ETH_BUFNB - j"] assms by simp
qed

lemma tx_sent:
  assumes "ring_ok (tx_tab d)" "tx_set d < ETH_BUFNB" "segs \<noteq> []" "length (concat segs) \<le> ETH_BUFNB * ETH_BUF_SIZE"
    "low_level_output segs d = (0, d')"
  shows "ring_ok (tx_tab d') \<and> tx_set d' < ETH_BUFNB
    \<and> dma_reads ETH_BUFNB (tx_set d) (tx_tab d') = Some (concat segs, tx_set d')
    \<and> (\<forall>i < ETH_BUFNB. owned (tx_tab d ! i) \<longrightarrow> tx_tab d' ! i = tx_tab d ! i)"
proof -
  let ?s = "concat segs" and ?j = "tx_set d"
  obtain e fl d1 where o: "out_segs segs ?j 0 0 d = (e, fl, d1)" by (cases "out_segs segs ?j 0 0 d") auto
  have free: "\<not> owned (tx_tab d ! ?j)" and e: "e = 0"
    using assms(3,5) o by (cases segs; auto simp: low_level_output_def split: if_splits)+
  have j: "(?j + 0) mod ETH_BUFNB = ?j" using assms(2) by simp
  have f0: "filled ?j [] 0 0 (tx_tab d)" by (simp add: filled_def)
  have r: "out_segs segs ((?j + 0) mod ETH_BUFNB) 0 0 d = (0, fl, d1)" using o e j by simp
  have "length ([] :: bytes) + length ?s \<le> ETH_BUFNB * ETH_BUF_SIZE" using assms(4) by simp
  note c = out_segs_filled [OF assms(1) f0 this r]
  then obtain c' off' where k: "ring_ok (tx_tab d1)" "marks (tx_tab d1) = marks (tx_tab d)" "d1 = d\<lparr>tx_tab := tx_tab d1\<rparr>"
    and fl: "fl = of_nat (length ?s)" and f: "filled ?j ?s c' off' (tx_tab d1)"
    and fr: "\<And>i. 0 < i \<Longrightarrow> i \<le> c' \<Longrightarrow> \<not> owned (tx_tab d ! ((?j + i) mod ETH_BUFNB))" by auto
  have fl': "unat fl = length ?s" using assms(4) unfolding fl by (intro unat_of_nat_u16) simp
  have d1: "tx_set d1 = ?j" by (subst k(3)) simp
  have "?j < length (tx_tab d1)" using k(1) assms(2) by (simp add: ring_ok_def)
  then have "\<not> owned (tx_tab d1 ! tx_set d1)" using owned_marks [OF k(2)] free d1 by simp
  note p = prepare_marks [OF k(1) _ this, of fl, unfolded d1 fl', OF assms(2,4)]
  let ?d2 = "snd (ETH_Prepare_Transmit_Descriptors fl d1)" and ?n = "buf_count (length ?s)"
  note b = buf_count_bounds [OF assms(4)]
  have d': "tx_tab d' = tx_tab ?d2" "tx_set d' = tx_set ?d2"
    using assms(5) o e by (auto simp: low_level_output_def resume_tx_def split: if_splits)
  have "dma_reads ETH_BUFNB ((?j + 0) mod ETH_BUFNB) (tx_tab ?d2) = Some (drop (0 * ETH_BUF_SIZE) ?s, (?j + ?n) mod ETH_BUFNB)"
  proof (rule dma_reads_marked [OF p(1) b(1,2) _ _ b(3)])
    show "?n - 0 \<le> ETH_BUFNB" using b(2) by simp
    show "owned (tx_tab ?d2 ! ((?j + m) mod ETH_BUFNB)) \<and> has ETH_DMATxDesc_LS (tx_tab ?d2 ! ((?j + m) mod ETH_BUFNB)) = (m = ?n - 1)
      \<and> take (unat (d_ctrl (tx_tab ?d2 ! ((?j + m) mod ETH_BUFNB)))) (d_buf (tx_tab ?d2 ! ((?j + m) mod ETH_BUFNB))) = take ETH_BUF_SIZE (drop (m * ETH_BUF_SIZE) ?s)"
      if m: "m < ?n" for m
      using p(4) [OF m] p(3) [of m] filled_buffers [OF f assms(4) m] m b(2) by simp
  qed
  moreover have "tx_tab ?d2 ! i = tx_tab d ! i" if i: "i < ETH_BUFNB" "owned (tx_tab d ! i)" for i
  proof -
    obtain m where m: "m < ETH_BUFNB" "i = (?j + m) mod ETH_BUFNB" using i(1) assms(2) by (rule ring_index)
    have "length ?s = c' * ETH_BUF_SIZE + off'" "off' \<le> ETH_BUF_SIZE" using f by (simp_all add: filled_def)
    then have "?n - 1 \<le> c'"
    proof (cases "length ?s = 0")
      case False
      then have "(?n - 1) * ETH_BUF_SIZE < c' * ETH_BUF_SIZE + off'" using b(5) \<open>length ?s = _\<close> by simp
      then show ?thesis using \<open>off' \<le> _\<close> by linarith
    qed (simp only: buf_count_def, simp)
    then have "\<not> m \<le> c' \<Longrightarrow> ?n \<le> m" by linarith
    moreover have "\<not> m \<le> c'" using fr [of m] i(2) m free j by (cases "m = 0") auto
    ultimately have "tx_tab ?d2 ! i = tx_tab d1 ! i" using p(5) [of m] m by simp
    then show ?thesis using out_segs_spares [OF o] i(2) by (simp add: spares_def)
  qed
  ultimately show ?thesis using p(1,2) d' j by simp
qed

text \<open>A packet it refuses leaves the marks as they were, and so nothing to read.\<close>

lemma tx_refused:
  assumes "ring_ok (tx_tab d)" "tx_set d < ETH_BUFNB" "length (concat segs) \<le> ETH_BUFNB * ETH_BUF_SIZE"
    "low_level_output segs d = (e, d')" "e \<noteq> 0"
  shows "ring_ok (tx_tab d') \<and> tx_set d' = tx_set d \<and> marks (tx_tab d') = marks (tx_tab d) \<and> (\<exists>i < ETH_BUFNB. owned (tx_tab d ! i))
    \<and> (\<forall>i < ETH_BUFNB. owned (tx_tab d ! i) \<longrightarrow> tx_tab d' ! i = tx_tab d ! i)"
proof -
  let ?s = "concat segs" and ?j = "tx_set d"
  obtain e1 fl d1 where o: "out_segs segs ?j 0 0 d = (e1, fl, d1)" by (cases "out_segs segs ?j 0 0 d") auto
  have e: "e1 = e" "d' = resume_tx ETH_DMASR_TUS d1" using assms(4,5) o by (auto simp: low_level_output_def)
  have j: "(?j + 0) mod ETH_BUFNB = ?j" using assms(2) by simp
  have f0: "filled ?j [] 0 0 (tx_tab d)" by (simp add: filled_def)
  have r: "out_segs segs ((?j + 0) mod ETH_BUFNB) 0 0 d = (e, fl, d1)" using o e j by simp
  have "length ([] :: bytes) + length ?s \<le> ETH_BUFNB * ETH_BUF_SIZE" using assms(3) by simp
  note c = out_segs_filled [OF assms(1) f0 this r]
  then have k: "ring_ok (tx_tab d1)" "marks (tx_tab d1) = marks (tx_tab d)" "d1 = d\<lparr>tx_tab := tx_tab d1\<rparr>" "\<exists>i < ETH_BUFNB. owned (tx_tab d ! i)"
    using assms(5) by auto
  have "tx_set d1 = tx_set d" by (subst k(3)) simp
  then show ?thesis using k(1,2,4) out_segs_spares [OF o] by (auto simp: e(2) resume_tx_def spares_def)
qed

section \<open>The frame the DMA received\<close>

text \<open>
  The DMA put \<open>raw\<close>, a frame and its four bytes of checksum, into the buffers of the \<open>k\<close> descriptors from \<open>j0\<close> on,
  and marked the first, the last and the length.
\<close>

definition rx_frame :: "nat \<Rightarrow> bytes \<Rightarrow> nat \<Rightarrow> dma_desc list \<Rightarrow> bool" where
  "rx_frame j0 raw k tab \<longleftrightarrow> 0 < k \<and> k \<le> ETH_BUFNB \<and> length raw \<le> k * ETH_BUF_SIZE
    \<and> (\<forall>i < k. let x = tab ! ((j0 + i) mod ETH_BUFNB)
         in \<not> owned x \<and> has ETH_DMARxDesc_FS x = (i = 0) \<and> has ETH_DMARxDesc_LS x = (i = k - 1)
            \<and> (i = k - 1 \<longrightarrow> drop_bit 16 (d_status x AND ETH_DMARxDesc_FL) = of_nat (length raw))
            \<and> take (length raw - i * ETH_BUF_SIZE) (d_buf x) = take ETH_BUF_SIZE (drop (i * ETH_BUF_SIZE) raw))"

lemma rx_buffer:
  assumes "rx_frame j0 raw k tab" "i < k" "i * ETH_BUF_SIZE + n \<le> length raw" "n \<le> ETH_BUF_SIZE"
  shows "take n (d_buf (tab ! ((j0 + i) mod ETH_BUFNB))) = take n (drop (i * ETH_BUF_SIZE) raw)"
proof -
  have "take n (take (length raw - i * ETH_BUF_SIZE) (d_buf (tab ! ((j0 + i) mod ETH_BUFNB)))) = take n (take ETH_BUF_SIZE (drop (i * ETH_BUF_SIZE) raw))"
    using assms(1,2) by (simp add: rx_frame_def Let_def)
  then show ?thesis using assms(3,4) by (simp add: min_absorb1)
qed

text \<open>A payload is the bytes from \<open>c * ETH_BUF_SIZE + off\<close> on.\<close>

lemma copy_in_reads:
  assumes "ring_ok tab" "rx_frame j0 raw k tab" "c < k" "off \<le> ETH_BUF_SIZE" "c * ETH_BUF_SIZE + off + left \<le> length raw"
    "copy_in left ((j0 + c) mod ETH_BUFNB) off tab = (bs, j', off')"
  shows "bs = take left (drop (c * ETH_BUF_SIZE + off) raw)
    \<and> (\<exists>c' < k. j' = (j0 + c') mod ETH_BUFNB \<and> off' \<le> ETH_BUF_SIZE \<and> c' * ETH_BUF_SIZE + off' = c * ETH_BUF_SIZE + off + left)"
  using assms(3-)
proof (induction "left + off" arbitrary: left c off bs rule: less_induct)
  case less
  let ?b = "d_buf (tab ! ((j0 + c) mod ETH_BUFNB))" and ?n = "ETH_BUF_SIZE - off"
  show ?case
  proof (cases "left + off > ETH_BUF_SIZE")
    case False
    then have r: "bs = take left (drop off ?b)" "j' = (j0 + c) mod ETH_BUFNB" "off' = off + left"
      using less.prems(4) copy_in.simps [of left "(j0 + c) mod ETH_BUFNB" off tab] by auto
    have "take (off + left) ?b = take (off + left) (drop (c * ETH_BUF_SIZE) raw)"
      using less.prems(3) False by (intro rx_buffer [OF assms(2) less.prems(1)]) simp_all
    then have "drop off (take (off + left) ?b) = drop off (take (off + left) (drop (c * ETH_BUF_SIZE) raw))" by simp
    then have "take left (drop off ?b) = take left (drop (c * ETH_BUF_SIZE + off) raw)"
      by (simp only: drop_take drop_drop add_diff_cancel_left' add.commute [of off "c * ETH_BUF_SIZE"])
    then have "bs = take left (drop (c * ETH_BUF_SIZE + off) raw)" by (simp only: r(1))
    then show ?thesis using r False less.prems(1) by auto
  next
    case True
    obtain bs1 j1 off1 where c: "copy_in (left - ?n) (d_next (tab ! ((j0 + c) mod ETH_BUFNB))) 0 tab = (bs1, j1, off1)"
      by (metis prod_cases3)
    have r: "bs = take ?n (drop off ?b) @ bs1" "j' = j1" "off' = off1"
      using less.prems(4) copy_in.simps [of left "(j0 + c) mod ETH_BUFNB" off tab] True by (auto simp: Let_def c)
    have "length raw \<le> k * ETH_BUF_SIZE" using assms(2) by (simp add: rx_frame_def)
    then have c1: "c + 1 < k" using less.prems(3) True by linarith
    have c': "copy_in (left - ?n) ((j0 + (c + 1)) mod ETH_BUFNB) 0 tab = (bs1, j', off')"
      using c r ring_next [OF assms(1), of j0 c] by simp
    have e: "(c + 1) * ETH_BUF_SIZE + 0 + (left - ?n) = c * ETH_BUF_SIZE + off + left" using True less.prems(2) by simp
    have ih: "bs1 = take (left - ?n) (drop ((c + 1) * ETH_BUF_SIZE + 0) raw)
      \<and> (\<exists>c' < k. j' = (j0 + c') mod ETH_BUFNB \<and> off' \<le> ETH_BUF_SIZE \<and> c' * ETH_BUF_SIZE + off' = (c + 1) * ETH_BUF_SIZE + 0 + (left - ?n))"
      using less.prems(2,3) True c1 by (intro less.hyps [OF _ _ _ _ c']) (simp_all add: e)
    have "take ETH_BUF_SIZE ?b = take ETH_BUF_SIZE (drop (c * ETH_BUF_SIZE) raw)"
      using less.prems(2,3) True by (intro rx_buffer [OF assms(2) less.prems(1)]) simp_all
    then have "drop off (take ETH_BUF_SIZE ?b) = drop off (take ETH_BUF_SIZE (drop (c * ETH_BUF_SIZE) raw))" by (simp only:)
    then have "take ?n (drop off ?b) = take ?n (drop (c * ETH_BUF_SIZE + off) raw)"
      by (simp only: drop_take drop_drop add.commute [of off "c * ETH_BUF_SIZE"])
    moreover have "take left xs = take ?n xs @ take (left - ?n) (drop ?n xs)" for xs :: bytes
      using take_add [of ?n "left - ?n" xs] True less.prems(2) by simp
    moreover have "drop ?n (drop (c * ETH_BUF_SIZE + off) raw) = drop ((c + 1) * ETH_BUF_SIZE + 0) raw"
      using less.prems(2) by (simp add: algebra_simps)
    ultimately have "bs = take left (drop (c * ETH_BUF_SIZE + off) raw)" using ih r(1) by simp
    then show ?thesis using ih by (simp only: e)
  qed
qed

lemma in_segs_reads:
  assumes "ring_ok tab" "rx_frame j0 raw k tab" "c < k" "off \<le> ETH_BUF_SIZE" "c * ETH_BUF_SIZE + off + sum_list ns \<le> length raw"
  shows "concat (in_segs ns ((j0 + c) mod ETH_BUFNB) off tab) = take (sum_list ns) (drop (c * ETH_BUF_SIZE + off) raw)
    \<and> map length (in_segs ns ((j0 + c) mod ETH_BUFNB) off tab) = ns"
  using assms(3-)
proof (induction ns arbitrary: c off)
  case Nil
  then show ?case by simp
next
  case (Cons n ns)
  obtain bs j1 off1 where q: "copy_in n ((j0 + c) mod ETH_BUFNB) off tab = (bs, j1, off1)" by (metis prod_cases3)
  have "c * ETH_BUF_SIZE + off + n \<le> length raw" using Cons.prems(3) by simp
  note r = copy_in_reads [OF assms(1,2) Cons.prems(1,2) this q]
  then obtain c' where c': "c' < k" "j1 = (j0 + c') mod ETH_BUFNB" "off1 \<le> ETH_BUF_SIZE" "c' * ETH_BUF_SIZE + off1 = c * ETH_BUF_SIZE + off + n" by auto
  have ih: "concat (in_segs ns ((j0 + c') mod ETH_BUFNB) off1 tab) = take (sum_list ns) (drop (c' * ETH_BUF_SIZE + off1) raw)
    \<and> map length (in_segs ns ((j0 + c') mod ETH_BUFNB) off1 tab) = ns"
    using Cons.prems(3) c' by (intro Cons.IH) simp_all
  have "take (n + sum_list ns) xs = take n xs @ take (sum_list ns) (drop n xs)" for xs :: bytes by (rule take_add)
  moreover have "drop n (drop (c * ETH_BUF_SIZE + off) raw) = drop (c' * ETH_BUF_SIZE + off1) raw" by (simp only: c'(4) drop_drop add.commute [of n])
  moreover have "length bs = n" using r Cons.prems(3) by simp
  ultimately show ?case using q r ih c'(2) by simp
qed

text \<open>The polls that pass over the segments before the last.\<close>

abbreviation poll :: "eth_drv \<Rightarrow> eth_drv" where
  "poll d \<equiv> snd (ETH_CheckFrameReceived d)"

lemma rx_frame_desc:
  assumes "rx_frame j0 raw k tab" "i < k"
  shows "\<not> owned (tab ! ((j0 + i) mod ETH_BUFNB))" "has ETH_DMARxDesc_FS (tab ! ((j0 + i) mod ETH_BUFNB)) \<longleftrightarrow> i = 0"
    "has ETH_DMARxDesc_LS (tab ! ((j0 + i) mod ETH_BUFNB)) \<longleftrightarrow> i = k - 1"
    "i = k - 1 \<Longrightarrow> drop_bit 16 (d_status (tab ! ((j0 + i) mod ETH_BUFNB)) AND ETH_DMARxDesc_FL) = of_nat (length raw)"
  using assms by (auto simp: rx_frame_def Let_def)

lemma polls_state:
  assumes "ring_ok (rx_tab d)" "rx_get d < ETH_BUFNB" "rx_frame (rx_get d) raw k (rx_tab d)" "m < k"
  shows "(poll ^^ m) d = (if m = 0 then d else d\<lparr>rx_get := (rx_get d + m) mod ETH_BUFNB, FS_Rx_Desc := rx_get d, LS_Rx_Desc := None, Seg_Count := m\<rparr>)"
  using assms(4)
proof (induction m)
  case 0
  then show ?case by simp
next
  case (Suc m)
  have m: "m < k" "m \<noteq> k - 1" using Suc.prems by simp_all
  note x = rx_frame_desc(1,2,3) [OF assms(3) m(1)] and nx = ring_next [OF assms(1), of "rx_get d" m]
  have j: "rx_get d mod ETH_BUFNB = rx_get d" using assms(2) by simp
  show ?case
  proof (cases "m = 0")
    case True
    then show ?thesis using x nx m j by (simp add: ETH_CheckFrameReceived_def Let_def)
  next
    case False
    then show ?thesis using x nx m Suc.IH by (simp add: ETH_CheckFrameReceived_def Let_def)
  qed
qed

lemma poll_last:
  assumes "\<not> owned (rx_tab e ! rx_get e)" "has ETH_DMARxDesc_LS (rx_tab e ! rx_get e)"
  shows "poll e = (if Seg_Count e = 0 then e\<lparr>Seg_Count := Suc (Seg_Count e), FS_Rx_Desc := rx_get e\<rparr>
    else e\<lparr>Seg_Count := Suc (Seg_Count e)\<rparr>)\<lparr>LS_Rx_Desc := Some (rx_get e)\<rparr>"
  using assms by (simp add: ETH_CheckFrameReceived_def Let_def)

lemma polls_result:
  assumes "ring_ok (rx_tab d)" "rx_get d < ETH_BUFNB" "rx_frame (rx_get d) raw k (rx_tab d)" "Seg_Count d = 0" "m < k"
  shows "fst (ETH_CheckFrameReceived ((poll ^^ m) d)) \<longleftrightarrow> m = k - 1"
    "m = k - 1 \<Longrightarrow> poll ((poll ^^ m) d) = d\<lparr>rx_get := (rx_get d + m) mod ETH_BUFNB, FS_Rx_Desc := rx_get d, LS_Rx_Desc := Some ((rx_get d + m) mod ETH_BUFNB), Seg_Count := k\<rparr>"
proof -
  let ?x = "rx_tab d ! ((rx_get d + m) mod ETH_BUFNB)"
  have x: "\<not> owned ?x" "has ETH_DMARxDesc_FS ?x \<longleftrightarrow> m = 0" "has ETH_DMARxDesc_LS ?x \<longleftrightarrow> m = k - 1"
    by (rule rx_frame_desc [OF assms(3,5)])+
  have g: "rx_get ((poll ^^ m) d) = (rx_get d + m) mod ETH_BUFNB" "rx_tab ((poll ^^ m) d) = rx_tab d" "Seg_Count ((poll ^^ m) d) = m"
    using assms(2,4) by (simp_all add: polls_state [OF assms(1,2,3,5)])
  then show "fst (ETH_CheckFrameReceived ((poll ^^ m) d)) \<longleftrightarrow> m = k - 1"
    using x by (simp add: ETH_CheckFrameReceived_def Let_def)
  assume m: "m = k - 1"
  then have l: "has ETH_DMARxDesc_LS ?x" and k: "k = Suc m" using x assms(5) by simp_all
  have p: "poll ((poll ^^ m) d) = (if m = 0 then (poll ^^ m) d\<lparr>Seg_Count := Suc m, FS_Rx_Desc := (rx_get d + m) mod ETH_BUFNB\<rparr>
      else (poll ^^ m) d\<lparr>Seg_Count := Suc m\<rparr>)\<lparr>LS_Rx_Desc := Some ((rx_get d + m) mod ETH_BUFNB)\<rparr>"
    using poll_last [of "(poll ^^ m) d"] x(1) l unfolding g by simp
  show "poll ((poll ^^ m) d) = d\<lparr>rx_get := (rx_get d + m) mod ETH_BUFNB, FS_Rx_Desc := rx_get d, LS_Rx_Desc := Some ((rx_get d + m) mod ETH_BUFNB), Seg_Count := k\<rparr>"
  proof (cases "m = 0")
    case True
    then show ?thesis unfolding p k using assms(2) by simp
  next
    case False
    then show ?thesis unfolding p k unfolding polls_state [OF assms(1,2,3,5)] by simp
  qed
qed

text \<open>The descriptors given back.\<close>

lemma give_back_ring:
  assumes "ring_ok tab" "n \<le> ETH_BUFNB"
  shows "ring_ok (give_back n (j0 mod ETH_BUFNB) tab)
    \<and> (\<forall>i < ETH_BUFNB. d_status (give_back n (j0 mod ETH_BUFNB) tab ! ((j0 + i) mod ETH_BUFNB)) = (if i < n then ETH_DESC_OWN else d_status (tab ! ((j0 + i) mod ETH_BUFNB))))"
  using assms
proof (induction n arbitrary: j0 tab)
  case 0
  then show ?case by simp
next
  case (Suc n)
  let ?t = "tab[j0 mod ETH_BUFNB := (tab ! (j0 mod ETH_BUFNB))\<lparr>d_status := ETH_DESC_OWN\<rparr>]"
  have len: "length tab = ETH_BUFNB" using Suc.prems(1) by (simp add: ring_ok_def)
  have r: "ring_ok ?t" using Suc.prems(1) by (auto simp: ring_ok_def nth_list_update)
  have nx: "d_next (tab ! (j0 mod ETH_BUFNB)) = (j0 + 1) mod ETH_BUFNB" using ring_next [OF Suc.prems(1), of j0 0] by simp
  have n: "n \<le> ETH_BUFNB" using Suc.prems(2) by simp
  note ih = Suc.IH [OF r n, of "j0 + 1"]
  have g: "give_back (Suc n) (j0 mod ETH_BUFNB) tab = give_back n ((j0 + 1) mod ETH_BUFNB) ?t" using nx by simp
  have "d_status (give_back n ((j0 + 1) mod ETH_BUFNB) ?t ! ((j0 + i) mod ETH_BUFNB)) = (if i < Suc n then ETH_DESC_OWN else d_status (tab ! ((j0 + i) mod ETH_BUFNB)))"
    if i: "i < ETH_BUFNB" for i
  proof (cases i)
    case 0
    have "(j0 + 1 + 4) mod ETH_BUFNB = j0 mod ETH_BUFNB" by presburger
    then show ?thesis using ih [THEN conjunct2, rule_format, of 4] Suc.prems(2) len 0 by (auto simp: nth_list_update)
  next
    case (Suc m)
    then have "(j0 + i) mod ETH_BUFNB \<noteq> j0 mod ETH_BUFNB" using mod_ring_eq [of j0 i ETH_BUFNB 0] i by auto
    moreover have "j0 + 1 + m = j0 + i" using Suc by simp
    ultimately show ?thesis using ih [THEN conjunct2, rule_format, of m] Suc i by auto
  qed
  then show ?case using g ih by simp
qed

lemma resume_rx_simps [simp]:
  "rx_tab (resume_rx f d) = rx_tab d" "rx_get (resume_rx f d) = rx_get d" "Seg_Count (resume_rx f d) = Seg_Count d"
  by (simp_all add: resume_rx_def)

text \<open>A whole frame.\<close>

lemma rx_delivered:
  assumes "ring_ok (rx_tab d)" "rx_get d < ETH_BUFNB" "rx_frame (rx_get d) raw k (rx_tab d)" "Seg_Count d = 0" "4 \<le> length raw"
    "\<And>ns. alloc (length raw - 4) = Some ns \<Longrightarrow> sum_list ns = length raw - 4"
    "low_level_input alloc (poll ((poll ^^ (k - 1)) d)) = (p, d')"
  shows "(case p of None \<Rightarrow> alloc (length raw - 4) = None
      | Some segs \<Rightarrow> concat segs = take (length raw - 4) raw \<and> alloc (length raw - 4) = Some (map length segs))"
    "ring_ok (rx_tab d')" "rx_get d' = (rx_get d + k) mod ETH_BUFNB" "Seg_Count d' = 0"
    "i < ETH_BUFNB \<Longrightarrow> owned (rx_tab d' ! ((rx_get d + i) mod ETH_BUFNB)) \<longleftrightarrow> i < k \<or> owned (rx_tab d ! ((rx_get d + i) mod ETH_BUFNB))"
proof -
  let ?j = "rx_get d" and ?n = "length raw - 4"
  define m where "m = k - 1"
  have k: "0 < k" "k \<le> ETH_BUFNB" "length raw \<le> k * ETH_BUF_SIZE" using assms(3) by (simp_all add: rx_frame_def)
  have k1: "k - 1 < k" and jm: "?j mod ETH_BUFNB = ?j" "(?j + 0) mod ETH_BUFNB = ?j" using k(1) assms(2) by simp_all
  note s = polls_result(2) [OF assms(1,2,3,4) k1 refl, folded m_def] and x = rx_frame_desc(4) [OF assms(3) k1 refl, folded m_def]
  have nx: "d_next (rx_tab d ! ((?j + m) mod ETH_BUFNB)) = (?j + k) mod ETH_BUFNB" using ring_next [OF assms(1), of ?j m] k(1) by (simp add: m_def)
  have "k * ETH_BUF_SIZE \<le> ETH_BUFNB * ETH_BUF_SIZE" using k(2) by (intro mult_right_mono) simp_all
  then have "length raw < 2 ^ 32" using k(3) by simp
  moreover have "(of_nat (length raw) - 4 :: u32) = of_nat ?n" using assms(5) by simp
  ultimately have ln: "unat (of_nat (length raw) - 4 :: u32) = ?n" by (simp only: unat_of_nat_u32)
  have p: "p = map_option (\<lambda>ns. in_segs ns ?j 0 (rx_tab d)) (alloc ?n)"
    and d': "rx_tab d' = give_back k ?j (rx_tab d)" "rx_get d' = (?j + k) mod ETH_BUFNB" "Seg_Count d' = 0"
    using assms(7) unfolding m_def [symmetric] s
    by (auto simp: low_level_input_def ETH_Get_Received_Frame_def Let_def x nx ln simp del: drop_bit_and)
  show "(case p of None \<Rightarrow> alloc ?n = None | Some segs \<Rightarrow> concat segs = take ?n raw \<and> alloc ?n = Some (map length segs))"
  proof (cases "alloc ?n")
    case None
    then show ?thesis using p by simp
  next
    case (Some ns)
    then have "sum_list ns = ?n" by (rule assms(6))
    then show ?thesis using in_segs_reads [OF assms(1,3) k(1) le0, of ns] p Some jm by simp
  qed
  note g = give_back_ring [OF assms(1) k(2), of ?j, unfolded jm]
  show "ring_ok (rx_tab d')" "rx_get d' = (?j + k) mod ETH_BUFNB" "Seg_Count d' = 0" using g d' by simp_all
  show "i < ETH_BUFNB \<Longrightarrow> owned (rx_tab d' ! ((?j + i) mod ETH_BUFNB)) \<longleftrightarrow> i < k \<or> owned (rx_tab d ! ((?j + i) mod ETH_BUFNB))"
    using g unfolding d' by (simp add: owned_def)
qed

section \<open>The interface started\<close>

definition reset_ring :: "dma_desc list" where
  "reset_ring = replicate ETH_BUFNB \<lparr>d_status = 0, d_ctrl = 0, d_buf = replicate ETH_BUF_SIZE 0, d_next = 0\<rparr>"

definition eth_reset :: eth_drv where
  "eth_reset = \<lparr>tx_tab = reset_ring, tx_set = 0, rx_tab = reset_ring, rx_get = 0, FS_Rx_Desc = 0, LS_Rx_Desc = None, Seg_Count = 0,
    DMASR = 0, tx_demands = 0, rx_demands = 0, eth_on = False\<rparr>"

lemma ring_upt: "[0..<ETH_BUFNB] = [0, 1, 2, 3, 4]"
  by (simp add: upt_rec)

lemma all_ring: "(\<forall>i < ETH_BUFNB. P i) \<longleftrightarrow> P 0 \<and> P 1 \<and> P 2 \<and> P 3 \<and> P 4"
proof -
  have "(\<forall>i < ETH_BUFNB. P i) \<longleftrightarrow> (\<forall>i \<in> set [0..<ETH_BUFNB]. P i)" by auto
  then show ?thesis by (simp only: ring_upt list.set ball_simps simp_thms)
qed

lemma low_level_init_ring:
  "ring_ok (tx_tab (low_level_init eth_reset))" "ring_ok (rx_tab (low_level_init eth_reset))"
  "tx_set (low_level_init eth_reset) = 0" "rx_get (low_level_init eth_reset) = 0" "Seg_Count (low_level_init eth_reset) = 0"
  "\<forall>i < ETH_BUFNB. \<not> owned (tx_tab (low_level_init eth_reset) ! i)" "\<forall>i < ETH_BUFNB. owned (rx_tab (low_level_init eth_reset) ! i)"
proof -
  have d: "low_level_init eth_reset = eth_reset\<lparr>tx_set := 0, rx_get := 0, eth_on := True,
      tx_tab := map (\<lambda>i. \<lparr>d_status = ETH_DMATxDesc_TCH OR ETH_DMATxDesc_CIC, d_ctrl = 0, d_buf = replicate ETH_BUF_SIZE 0, d_next = chain_next ETH_BUFNB i\<rparr>) [0..<ETH_BUFNB],
      rx_tab := map (\<lambda>i. \<lparr>d_status = ETH_DESC_OWN, d_ctrl = ETH_DMARxDesc_RCH OR of_nat ETH_BUF_SIZE, d_buf = replicate ETH_BUF_SIZE 0, d_next = chain_next ETH_BUFNB i\<rparr>) [0..<ETH_BUFNB]\<rparr>"
    by (simp add: low_level_init_def ETH_DMATxDescChainInit_def ETH_DMARxDescChainInit_def eth_reset_def reset_ring_def Let_def)
  show "ring_ok (tx_tab (low_level_init eth_reset))" "ring_ok (rx_tab (low_level_init eth_reset))"
    unfolding d ring_ok_def all_ring by (simp_all add: chain_next_def)
  show "\<forall>i < ETH_BUFNB. \<not> owned (tx_tab (low_level_init eth_reset) ! i)" "\<forall>i < ETH_BUFNB. owned (rx_tab (low_level_init eth_reset) ! i)"
    unfolding d by (simp_all add: owned_def)
  show "tx_set (low_level_init eth_reset) = 0" "rx_get (low_level_init eth_reset) = 0" "Seg_Count (low_level_init eth_reset) = 0"
    unfolding d by (simp_all add: eth_reset_def)
qed

text \<open>C24: the interface sends what it accepts.  On a ring of descriptors as the initialisation leaves it, a packet of
  any number of payloads that fits the ring is either accepted, and then what the DMA reads from the current
  descriptor on, over all the segments marked, is exactly the packet's bytes, ending where the next frame begins; or
  it is refused because the DMA still owns a descriptor, and no mark changes.  In both cases a descriptor the DMA
  owns, and its buffer, stay untouched.
\<close>

theorem eth_sends:
  assumes "ring_ok (tx_tab d)" "tx_set d < ETH_BUFNB" "segs \<noteq> []" "length (concat segs) \<le> ETH_BUFNB * ETH_BUF_SIZE"
    "low_level_output segs d = (e, d')"
  shows "ring_ok (tx_tab d') \<and> tx_set d' < ETH_BUFNB
    \<and> (\<forall>i < ETH_BUFNB. owned (tx_tab d ! i) \<longrightarrow> tx_tab d' ! i = tx_tab d ! i)
    \<and> (if e = 0 then dma_reads ETH_BUFNB (tx_set d) (tx_tab d') = Some (concat segs, tx_set d')
       else marks (tx_tab d') = marks (tx_tab d) \<and> tx_set d' = tx_set d \<and> (\<exists>i < ETH_BUFNB. owned (tx_tab d ! i)))"
proof (cases "e = 0")
  case True
  then show ?thesis using tx_sent [OF assms(1-4)] assms(5) by simp
next
  case False
  then show ?thesis using tx_refused [OF assms(1,2,4,5)] assms(2) by simp
qed

theorem eth_sends_witness:
  "dma_reads ETH_BUFNB 0 (tx_tab (snd (low_level_output [replicate 2000 1, [2, 3]] (low_level_init eth_reset))))
   = Some (replicate 2000 1 @ [2, 3], tx_set (snd (low_level_output [replicate 2000 1, [2, 3]] (low_level_init eth_reset))))"
proof -
  let ?d = "low_level_init eth_reset" and ?segs = "[replicate 2000 1, [2, 3]] :: bytes list"
  obtain e d' where o: "low_level_output ?segs ?d = (e, d')" by fastforce
  have "length (concat ?segs) \<le> ETH_BUFNB * ETH_BUF_SIZE" by simp
  moreover have "tx_set ?d < ETH_BUFNB" by (simp add: low_level_init_ring)
  ultimately show ?thesis
    using eth_sends [OF low_level_init_ring(1) _ _ _ o] low_level_init_ring(3,6) o by (auto split: if_splits)
qed

text \<open>C25: the interface delivers what the DMA received.  A frame whose bytes and checksum the DMA put into up to five
  descriptors is not announced before the poll of its last one; that poll announces it, and the input hands on a
  chain of the lengths the allocator gave whose payloads are exactly the frame without the checksum, or nothing when
  there is no memory.  In both cases all its descriptors, and no other, are given back to the DMA, and the next poll
  looks at the one after them.
\<close>

theorem eth_receives:
  assumes "ring_ok (rx_tab d)" "rx_get d < ETH_BUFNB" "rx_frame (rx_get d) raw k (rx_tab d)" "Seg_Count d = 0" "4 \<le> length raw"
    "\<And>ns. alloc (length raw - 4) = Some ns \<Longrightarrow> sum_list ns = length raw - 4"
    "low_level_input alloc (poll ((poll ^^ (k - 1)) d)) = (p, d')"
  shows "(\<forall>m < k. fst (ETH_CheckFrameReceived ((poll ^^ m) d)) = (m = k - 1))
    \<and> (case p of None \<Rightarrow> alloc (length raw - 4) = None
       | Some segs \<Rightarrow> concat segs = take (length raw - 4) raw \<and> alloc (length raw - 4) = Some (map length segs))
    \<and> ring_ok (rx_tab d') \<and> rx_get d' = (rx_get d + k) mod ETH_BUFNB \<and> Seg_Count d' = 0
    \<and> (\<forall>i < ETH_BUFNB. owned (rx_tab d' ! ((rx_get d + i) mod ETH_BUFNB)) = (i < k \<or> owned (rx_tab d ! ((rx_get d + i) mod ETH_BUFNB))))"
  using rx_delivered [OF assms] polls_result(1) [OF assms(1-4)] by simp

definition rx_two :: eth_drv where
  "rx_two = (low_level_init eth_reset)\<lparr>rx_tab := (rx_tab (low_level_init eth_reset))
    [0 := \<lparr>d_status = 0x200, d_ctrl = 0x45F4, d_buf = replicate ETH_BUF_SIZE 7, d_next = 1\<rparr>,
     1 := \<lparr>d_status = 0x05FA0100, d_ctrl = 0x45F4, d_buf = replicate 6 7 @ replicate 1518 0, d_next = 2\<rparr>]\<rparr>"

lemma rx_two_facts:
  "ring_ok (rx_tab rx_two)" "rx_get rx_two = 0" "Seg_Count rx_two = 0" "rx_frame 0 (replicate 1530 7) 2 (rx_tab rx_two)"
proof -
  have r: "ring_ok (rx_tab (low_level_init eth_reset))" and len: "length (rx_tab (low_level_init eth_reset)) = ETH_BUFNB"
    using low_level_init_ring(2) by (simp_all add: ring_ok_def)
  show "ring_ok (rx_tab rx_two)" using r by (auto simp: ring_ok_def rx_two_def nth_list_update)
  show "rx_get rx_two = 0" "Seg_Count rx_two = 0" by (simp_all add: rx_two_def low_level_init_ring)
  have two: "i < (2 :: nat) \<longleftrightarrow> i = 0 \<or> i = 1" for i by auto
  show "rx_frame 0 (replicate 1530 7) 2 (rx_tab rx_two)"
    unfolding rx_frame_def two by (auto simp: rx_two_def len owned_def has_def Let_def)
qed

theorem eth_receives_witness:
  "map_option concat (fst (low_level_input (\<lambda>n. Some [1000, n - 1000]) (poll ((poll ^^ (2 - 1)) rx_two)))) = Some (replicate 1526 7)"
proof -
  obtain p d' where o: "low_level_input (\<lambda>n. Some [1000, n - 1000]) (poll ((poll ^^ (2 - 1)) rx_two)) = (p, d')" by fastforce
  have f: "rx_frame (rx_get rx_two) (replicate 1530 7) 2 (rx_tab rx_two)" by (simp only: rx_two_facts)
  have a: "sum_list ns = length (replicate 1530 (7 :: 8 word)) - 4"
    if "Some [1000, length (replicate 1530 (7 :: 8 word)) - 4 - 1000] = Some ns" for ns
    using that by auto
  have "rx_get rx_two < ETH_BUFNB" "4 \<le> length (replicate 1530 (7 :: 8 word))" by (simp_all add: rx_two_facts)
  then show ?thesis
    using eth_receives [OF rx_two_facts(1) _ f rx_two_facts(3) _ a o] o by (auto split: option.splits)
qed

end
