(* ===== verification/Netconf.thy ===== *)
theory Netconf
  imports Ethernet
begin

text \<open>
  The network set-up (common/eth/netconf.c) with the interface of lwIP it drives (lwip/src/core/netif.c, IPv4 with
  static addresses, as lwipopts.h chooses): the supervision of the link, the start and stop of the MAC, and the
  frame polled in each turn.  The rest of lwIP is a parameter that works on the driver and on a state \<open>'n\<close> of its
  own; the calls the interface makes into ARP and TCP are logged.  What the PHY answers is an argument.
\<close>

section \<open>State\<close>

abbreviation LINK_CHECK_INTERVAL :: u32 where "LINK_CHECK_INTERVAL \<equiv> 200"
abbreviation ETH_INIT_FLAG :: u32 where "ETH_INIT_FLAG \<equiv> 1"
abbreviation ETH_LINK_FLAG :: u32 where "ETH_LINK_FLAG \<equiv> 0x10"
abbreviation PHY_READ_TO :: nat where "PHY_READ_TO \<equiv> 0x4FFFF"
abbreviation PHY_AutoNegotiation :: u16 where "PHY_AutoNegotiation \<equiv> 0x1000"
abbreviation PHY_AutoNego_Complete :: u16 where "PHY_AutoNego_Complete \<equiv> 0x0020"
abbreviation PHY_Linked_Status :: u16 where "PHY_Linked_Status \<equiv> 0x0004"
abbreviation PHY_SPEED_STATUS :: u16 where "PHY_SPEED_STATUS \<equiv> 0x0004"
abbreviation PHY_DUPLEX_STATUS :: u16 where "PHY_DUPLEX_STATUS \<equiv> 0x0010"
abbreviation ETH_Speed_100M :: u32 where "ETH_Speed_100M \<equiv> 0x4000"
abbreviation ETH_Mode_FullDuplex :: u32 where "ETH_Mode_FullDuplex \<equiv> 0x0800"

datatype lwip_call = Etharp_gratuitous | Etharp_cleanup | Ip_addr_changed bytes bytes

record 'n net =
  n_lwip :: "'n lwip"
  nif_link :: bool
  nif_up :: bool
  nif_ip :: bytes
  nif_mask :: bytes
  nif_gw :: bytes
  nif_callback :: bool
  cfg_ip :: bytes
  cfg_mask :: bytes
  cfg_gw :: bytes
  g_eth_status :: u32
  tmr_link_check :: u32
  ini_AutoNegotiation :: u32
  ini_Speed :: u32
  ini_Mode :: u32
  MACCR :: u32
  phy_bcr :: u16
  nego_polls :: nat
  n_calls :: "lwip_call list"

text \<open>The status register at a check and at each poll of the negotiation, and the special status register.\<close>

record phy =
  phy_bsr :: u16
  phy_nego :: "nat \<Rightarrow> u16"
  phy_sr :: u16

section \<open>The interface of lwIP\<close>

definition nif_log :: "lwip_call \<Rightarrow> 'n net \<Rightarrow> 'n net" where
  "nif_log c n = n\<lparr>n_calls := n_calls n @ [c]\<rparr>"

definition nif_eth :: "bool \<Rightarrow> 'n net \<Rightarrow> 'n net" where
  "nif_eth on n = n\<lparr>n_lwip := ((fst (n_lwip n))\<lparr>eth_on := on\<rparr>, snd (n_lwip n))\<rparr>"

definition netif_issue_reports :: "'n net \<Rightarrow> 'n net" where
  "netif_issue_reports n =
    (if \<not> nif_link n \<or> \<not> nif_up n then n
     else if nif_ip n \<noteq> [0, 0, 0, 0] then nif_log Etharp_gratuitous n else n)"

definition netif_do_set_ipaddr :: "bytes \<Rightarrow> 'n net \<Rightarrow> 'n net" where
  "netif_do_set_ipaddr ip n =
    (if ip \<noteq> nif_ip n then netif_issue_reports ((nif_log (Ip_addr_changed (nif_ip n) ip) n)\<lparr>nif_ip := ip\<rparr>) else n)"

definition netif_set_addr :: "bytes \<Rightarrow> bytes \<Rightarrow> bytes \<Rightarrow> 'n net \<Rightarrow> 'n net" where
  "netif_set_addr ip msk gw n =
    (let rm = ip = [0, 0, 0, 0];
         n1 = (if rm then netif_do_set_ipaddr ip n else n);
         n2 = n1\<lparr>nif_mask := msk, nif_gw := gw\<rparr>
     in if \<not> rm then netif_do_set_ipaddr ip n2 else n2)"

definition netif_set_up :: "'n net \<Rightarrow> 'n net" where
  "netif_set_up n = (if \<not> nif_up n then netif_issue_reports (n\<lparr>nif_up := True\<rparr>) else n)"

definition netif_set_down :: "'n net \<Rightarrow> 'n net" where
  "netif_set_down n = (if nif_up n then nif_log Etharp_cleanup (n\<lparr>nif_up := False\<rparr>) else n)"

section \<open>The link\<close>

text \<open>Polls of the PHY until the negotiation is complete or the time is over.\<close>

function nego_wait :: "(nat \<Rightarrow> u16) \<Rightarrow> nat \<Rightarrow> nat" where
  "nego_wait rd timeout =
    (let t = timeout + 1
     in if rd t AND PHY_AutoNego_Complete = 0 \<and> t < PHY_READ_TO then nego_wait rd t else t)"
  by pat_completeness auto

termination by (relation "measure (\<lambda>(rd, t). PHY_READ_TO - t)") auto

declare nego_wait.simps [simp del]

definition mac_reconfigure :: "phy \<Rightarrow> 'n net \<Rightarrow> 'n net" where
  "mac_reconfigure y n =
    (if ini_AutoNegotiation n \<noteq> 0
     then (let n1 = n\<lparr>phy_bcr := PHY_AutoNegotiation, nego_polls := nego_wait (phy_nego y) 0,
                  ini_Mode := if phy_sr y AND PHY_DUPLEX_STATUS \<noteq> 0 then ETH_Mode_FullDuplex else 0,
                  ini_Speed := if phy_sr y AND PHY_SPEED_STATUS \<noteq> 0 then 0 else ETH_Speed_100M\<rparr>
           in n1\<lparr>MACCR := MACCR n1 OR (ini_Speed n1 OR ini_Mode n1)\<rparr>)
     else n)"

definition cb_eth_link :: "phy \<Rightarrow> 'n net \<Rightarrow> 'n net" where
  "cb_eth_link y n =
    (if nif_link n
     then (let n1 = nif_eth True (mac_reconfigure y n) in netif_set_up (netif_set_addr (cfg_ip n1) (cfg_mask n1) (cfg_gw n1) n1))
     else netif_set_down (nif_eth False n))"

definition netif_link_callback :: "phy \<Rightarrow> 'n net \<Rightarrow> 'n net" where
  "netif_link_callback y n = (if nif_callback n then cb_eth_link y n else n)"

definition netif_set_link_up :: "phy \<Rightarrow> 'n net \<Rightarrow> 'n net" where
  "netif_set_link_up y n = (if \<not> nif_link n then netif_link_callback y (netif_issue_reports (n\<lparr>nif_link := True\<rparr>)) else n)"

definition netif_set_link_down :: "phy \<Rightarrow> 'n net \<Rightarrow> 'n net" where
  "netif_set_link_down y n = (if nif_link n then netif_link_callback y (n\<lparr>nif_link := False\<rparr>) else n)"

definition LwIP_check_eth_link :: "phy \<Rightarrow> bool" where
  "LwIP_check_eth_link y \<longleftrightarrow> phy_bsr y AND PHY_Linked_Status \<noteq> 0"

definition LwIP_is_link_up :: "'n net \<Rightarrow> bool" where
  "LwIP_is_link_up n \<longleftrightarrow> g_eth_status n AND ETH_LINK_FLAG \<noteq> 0"

section \<open>Start and turn\<close>

text \<open>\<open>st\<close>, \<open>speed\<close>, \<open>mode\<close> and \<open>cr\<close> are what ETH_Init returns and leaves in its structure and in the MAC.\<close>

definition eth_board_config :: "u32 \<Rightarrow> u32 \<Rightarrow> u32 \<Rightarrow> u32 \<Rightarrow> phy \<Rightarrow> 'n net \<Rightarrow> 'n net" where
  "eth_board_config st speed mode cr y n =
    n\<lparr>ini_AutoNegotiation := 1, ini_Speed := speed, ini_Mode := mode, MACCR := cr,
      g_eth_status := if LwIP_check_eth_link y then st OR ETH_LINK_FLAG else st\<rparr>"

definition netif_add :: "'n net \<Rightarrow> 'n net" where
  "netif_add n =
    (let n1 = netif_set_addr (cfg_ip n) (cfg_mask n) (cfg_gw n)
            (n\<lparr>nif_ip := [0, 0, 0, 0], nif_mask := [0, 0, 0, 0], nif_gw := [0, 0, 0, 0], nif_link := False, nif_up := False, nif_callback := False\<rparr>)
     in n1\<lparr>n_lwip := (low_level_init (fst (n_lwip n1)), snd (n_lwip n1))\<rparr>)"

definition LwIP_init :: "u32 \<Rightarrow> u32 \<Rightarrow> u32 \<Rightarrow> u32 \<Rightarrow> phy \<Rightarrow> 'n net \<Rightarrow> 'n net" where
  "LwIP_init st speed mode cr y n =
    (let n1 = netif_add (eth_board_config st speed mode cr y n);
         n2 = (if g_eth_status n1 = (ETH_INIT_FLAG OR ETH_LINK_FLAG) then netif_set_up (n1\<lparr>nif_link := True\<rparr>) else netif_set_down n1)
     in n2\<lparr>nif_callback := True\<rparr>)"

record 'n lwip_env =
  le_alloc :: "nat \<Rightarrow> nat list option"
  le_input :: "bytes list \<Rightarrow> 'n lwip \<Rightarrow> int \<times> 'n lwip"
  le_timeouts :: "'n lwip \<Rightarrow> 'n lwip"

definition LwIP_packet_handle :: "'n lwip_env \<Rightarrow> 'n net \<Rightarrow> 'n net" where
  "LwIP_packet_handle E n = n\<lparr>n_lwip := fst (snd (ethernetif_input (le_alloc E) (le_input E) (n_lwip n)))\<rparr>"

definition LwIP_link_turn :: "phy \<Rightarrow> u32 \<Rightarrow> 'n net \<Rightarrow> 'n net" where
  "LwIP_link_turn y diff_ms n =
    (let n1 = n\<lparr>tmr_link_check := tmr_link_check n + diff_ms\<rparr>
     in if tmr_link_check n1 \<ge> LINK_CHECK_INTERVAL
        then (let n2 = n1\<lparr>tmr_link_check := 0\<rparr>
              in if LwIP_check_eth_link y then netif_set_link_up y (n2\<lparr>g_eth_status := g_eth_status n2 OR ETH_LINK_FLAG\<rparr>)
                 else netif_set_link_down y (n2\<lparr>g_eth_status := g_eth_status n2 AND NOT ETH_LINK_FLAG\<rparr>))
        else n1)"

definition LwIP_periodic_handle :: "'n lwip_env \<Rightarrow> phy \<Rightarrow> u32 \<Rightarrow> 'n net \<Rightarrow> 'n net" where
  "LwIP_periodic_handle E y diff_ms n =
    (case ETH_CheckFrameReceived (fst (n_lwip n)) of (got, d) \<Rightarrow>
      (let n1 = n\<lparr>n_lwip := (d, snd (n_lwip n))\<rparr>;
           n2 = LwIP_link_turn y diff_ms (if got then LwIP_packet_handle E n1 else n1)
       in n2\<lparr>n_lwip := le_timeouts E (n_lwip n2)\<rparr>))"

section \<open>The interface follows the link\<close>

lemma nego_wait_bound: "timeout < PHY_READ_TO \<Longrightarrow> nego_wait rd timeout \<le> PHY_READ_TO"
proof (induction rd timeout rule: nego_wait.induct)
  case (1 rd t)
  then show ?case by (subst nego_wait.simps) (auto simp: Let_def)
qed

text \<open>What the calls of the interface leave as it is.\<close>

definition nif_same :: "'n net \<Rightarrow> 'n net \<Rightarrow> bool" where
  "nif_same n n' \<longleftrightarrow> nif_link n' = nif_link n \<and> nif_callback n' = nif_callback n \<and> g_eth_status n' = g_eth_status n
    \<and> tmr_link_check n' = tmr_link_check n \<and> n_lwip n' = n_lwip n \<and> cfg_ip n' = cfg_ip n \<and> cfg_mask n' = cfg_mask n \<and> cfg_gw n' = cfg_gw n"

lemmas nif_defs = netif_set_up_def netif_set_down_def netif_set_addr_def netif_do_set_ipaddr_def netif_issue_reports_def nif_log_def nif_same_def

lemma netif_set_addr_same: "nif_same n (netif_set_addr ip m g n) \<and> nif_up (netif_set_addr ip m g n) = nif_up n
    \<and> nif_ip (netif_set_addr ip m g n) = ip \<and> nif_mask (netif_set_addr ip m g n) = m \<and> nif_gw (netif_set_addr ip m g n) = g"
  by (simp add: nif_defs Let_def)

lemma netif_set_up_same: "nif_same n (netif_set_up n) \<and> nif_up (netif_set_up n)
    \<and> nif_ip (netif_set_up n) = nif_ip n \<and> nif_mask (netif_set_up n) = nif_mask n \<and> nif_gw (netif_set_up n) = nif_gw n"
  by (simp add: nif_defs)

lemma netif_set_down_same: "nif_same n (netif_set_down n) \<and> \<not> nif_up (netif_set_down n)"
  by (simp add: nif_defs)

lemma mac_reconfigure_same: "nif_same n (mac_reconfigure y n) \<and> nif_up (mac_reconfigure y n) = nif_up n"
  by (simp add: mac_reconfigure_def nif_same_def Let_def)

lemma nif_same_trans: "nif_same n n' \<Longrightarrow> nif_same n' n'' \<Longrightarrow> nif_same n n''"
  by (simp add: nif_same_def)

text \<open>
  Between the turns: up exactly while the link is, the MAC on and the link flag set whenever it is, the callback
  installed.
\<close>

definition net_inv :: "'n net \<Rightarrow> bool" where
  "net_inv n \<longleftrightarrow> nif_callback n \<and> nif_up n = nif_link n \<and> (nif_link n \<longrightarrow> LwIP_is_link_up n \<and> eth_on (fst (n_lwip n)))"

lemma link_flag:
  "(w OR ETH_LINK_FLAG) AND ETH_LINK_FLAG \<noteq> 0" "(w AND NOT ETH_LINK_FLAG) AND ETH_LINK_FLAG = 0"
proof -
  have "(0x10 :: u32) = push_bit 4 1" by simp
  then have "bit ((w OR ETH_LINK_FLAG) AND ETH_LINK_FLAG) 4" by (simp only: bit_simps) simp
  then show "(w OR ETH_LINK_FLAG) AND ETH_LINK_FLAG \<noteq> 0" by force
  show "(w AND NOT ETH_LINK_FLAG) AND ETH_LINK_FLAG = 0" by (simp add: and.assoc)
qed

text \<open>The callback, on a link that came up and on one that was lost.\<close>

lemma cb_link_up:
  assumes "nif_link n"
  shows "nif_same (nif_eth True n) (cb_eth_link y n) \<and> nif_up (cb_eth_link y n)
    \<and> nif_ip (cb_eth_link y n) = cfg_ip n \<and> nif_mask (cb_eth_link y n) = cfg_mask n \<and> nif_gw (cb_eth_link y n) = cfg_gw n"
proof -
  let ?m = "nif_eth True (mac_reconfigure y n)"
  let ?a = "netif_set_addr (cfg_ip ?m) (cfg_mask ?m) (cfg_gw ?m) ?m"
  have m: "nif_same (nif_eth True n) ?m" using mac_reconfigure_same [of n y] by (simp add: nif_eth_def nif_same_def)
  have c: "cb_eth_link y n = netif_set_up ?a" using assms by (simp add: cb_eth_link_def Let_def)
  have "cfg_ip ?m = cfg_ip n" "cfg_mask ?m = cfg_mask n" "cfg_gw ?m = cfg_gw n" using m by (simp_all add: nif_same_def nif_eth_def)
  then show ?thesis unfolding c using nif_same_trans [OF m] nif_same_trans netif_set_addr_same [of ?m "cfg_ip ?m" "cfg_mask ?m" "cfg_gw ?m"] netif_set_up_same [of ?a]
    by metis
qed

lemma cb_link_down: "\<not> nif_link n \<Longrightarrow> nif_same (nif_eth False n) (cb_eth_link y n) \<and> \<not> nif_up (cb_eth_link y n)"
  using netif_set_down_same [of "nif_eth False n"] by (simp add: cb_eth_link_def)

text \<open>One supervision of the link.\<close>

lemma link_turn:
  assumes "net_inv n"
  shows "net_inv (LwIP_link_turn y ms n)"
    "tmr_link_check n + ms < LINK_CHECK_INTERVAL \<Longrightarrow> LwIP_link_turn y ms n = n\<lparr>tmr_link_check := tmr_link_check n + ms\<rparr>"
    "\<not> tmr_link_check n + ms < LINK_CHECK_INTERVAL \<Longrightarrow> tmr_link_check (LwIP_link_turn y ms n) = 0
      \<and> nif_link (LwIP_link_turn y ms n) = LwIP_check_eth_link y \<and> LwIP_is_link_up (LwIP_link_turn y ms n) = LwIP_check_eth_link y
      \<and> (LwIP_check_eth_link y \<noteq> nif_link n \<longrightarrow> eth_on (fst (n_lwip (LwIP_link_turn y ms n))) = LwIP_check_eth_link y)
      \<and> (LwIP_check_eth_link y \<and> \<not> nif_link n \<longrightarrow> nif_ip (LwIP_link_turn y ms n) = cfg_ip n
          \<and> nif_mask (LwIP_link_turn y ms n) = cfg_mask n \<and> nif_gw (LwIP_link_turn y ms n) = cfg_gw n)"
proof -
  show quiet: "tmr_link_check n + ms < LINK_CHECK_INTERVAL \<Longrightarrow> LwIP_link_turn y ms n = n\<lparr>tmr_link_check := tmr_link_check n + ms\<rparr>"
    by (simp add: LwIP_link_turn_def Let_def)
  let ?n' = "LwIP_link_turn y ms n" and ?up = "LwIP_check_eth_link y"
  have i: "nif_callback n" "nif_up n = nif_link n" "nif_link n \<Longrightarrow> LwIP_is_link_up n \<and> eth_on (fst (n_lwip n))"
    using assms by (simp_all add: net_inv_def)
  have check: "net_inv ?n' \<and> tmr_link_check ?n' = 0 \<and> nif_link ?n' = ?up \<and> LwIP_is_link_up ?n' = ?up
      \<and> (?up \<noteq> nif_link n \<longrightarrow> eth_on (fst (n_lwip ?n')) = ?up)
      \<and> (?up \<and> \<not> nif_link n \<longrightarrow> nif_ip ?n' = cfg_ip n \<and> nif_mask ?n' = cfg_mask n \<and> nif_gw ?n' = cfg_gw n)"
    if t: "\<not> tmr_link_check n + ms < LINK_CHECK_INTERVAL"
  proof (cases ?up)
    case True
    let ?m = "n\<lparr>tmr_link_check := 0, g_eth_status := g_eth_status n OR ETH_LINK_FLAG\<rparr>"
    have e: "?n' = netif_set_link_up y ?m" using t True by (simp add: LwIP_link_turn_def Let_def)
    show ?thesis
    proof (cases "nif_link n")
      case linked: True
      then show ?thesis using i True link_flag(1) by (simp add: e netif_set_link_up_def net_inv_def LwIP_is_link_up_def)
    next
      case False
      let ?r = "netif_issue_reports (?m\<lparr>nif_link := True\<rparr>)"
      have r: "nif_same (?m\<lparr>nif_link := True\<rparr>) ?r" by (simp add: nif_defs)
      then have "nif_callback ?r" "nif_link ?r" using i by (simp_all add: nif_same_def)
      then have "?n' = cb_eth_link y ?r" using False by (simp add: e netif_set_link_up_def netif_link_callback_def)
      then show ?thesis using cb_link_up [OF \<open>nif_link ?r\<close>, of y] r i True link_flag(1)
        by (simp add: nif_same_def net_inv_def LwIP_is_link_up_def nif_eth_def)
    qed
  next
    case False
    let ?m = "n\<lparr>tmr_link_check := 0, g_eth_status := g_eth_status n AND NOT ETH_LINK_FLAG\<rparr>"
    have e: "?n' = netif_set_link_down y ?m" using t False by (simp add: LwIP_link_turn_def Let_def)
    show ?thesis
    proof (cases "nif_link n")
      case linked: True
      let ?r = "?m\<lparr>nif_link := False\<rparr>"
      have "?n' = cb_eth_link y ?r" using linked i by (simp add: e netif_set_link_down_def netif_link_callback_def)
      then show ?thesis using cb_link_down [of ?r y] i False link_flag(2)
        by (simp add: nif_same_def net_inv_def LwIP_is_link_up_def nif_eth_def)
    next
      case down: False
      then show ?thesis using i False link_flag(2) by (simp add: e netif_set_link_down_def net_inv_def LwIP_is_link_up_def)
    qed
  qed
  show "net_inv ?n'"
  proof (cases "tmr_link_check n + ms < LINK_CHECK_INTERVAL")
    case True
    then show ?thesis using assms unfolding quiet [OF True] by (simp add: net_inv_def LwIP_is_link_up_def)
  next
    case False
    then show ?thesis using check by blast
  qed
  show "\<not> tmr_link_check n + ms < LINK_CHECK_INTERVAL \<Longrightarrow> tmr_link_check ?n' = 0
      \<and> nif_link ?n' = ?up \<and> LwIP_is_link_up ?n' = ?up \<and> (?up \<noteq> nif_link n \<longrightarrow> eth_on (fst (n_lwip ?n')) = ?up)
      \<and> (?up \<and> \<not> nif_link n \<longrightarrow> nif_ip ?n' = cfg_ip n \<and> nif_mask ?n' = cfg_mask n \<and> nif_gw ?n' = cfg_gw n)"
    using check by blast
qed

lemma init_flag: "ETH_INIT_FLAG OR ETH_LINK_FLAG = (0x11 :: u32)"
  by simp

lemma LwIP_init_inv: "net_inv (LwIP_init st speed mode cr y n)"
proof -
  let ?n1 = "netif_add (eth_board_config st speed mode cr y n)"
  have a: "\<not> nif_link ?n1 \<and> \<not> nif_up ?n1 \<and> eth_on (fst (n_lwip ?n1))"
    by (simp add: netif_add_def Let_def nif_defs low_level_init_def)
  show ?thesis
  proof (cases "g_eth_status ?n1 = (ETH_INIT_FLAG OR ETH_LINK_FLAG)")
    case True
    let ?u = "netif_set_up (?n1\<lparr>nif_link := True\<rparr>)"
    have u: "nif_same (?n1\<lparr>nif_link := True\<rparr>) ?u" "nif_up ?u" using netif_set_up_same [of "?n1\<lparr>nif_link := True\<rparr>"] by blast+
    then have "LwIP_is_link_up ?u" using True by (simp add: nif_same_def LwIP_is_link_up_def)
    then show ?thesis using True u a by (simp add: LwIP_init_def Let_def net_inv_def nif_same_def LwIP_is_link_up_def)
  next
    case False
    then show ?thesis using a by (simp add: LwIP_init_def Let_def net_inv_def netif_set_down_def)
  qed
qed

text \<open>lwIP does not start or stop the MAC.\<close>

definition keeps_mac :: "'n lwip_env \<Rightarrow> bool" where
  "keeps_mac E \<longleftrightarrow> (\<forall>p s. eth_on (fst (snd (le_input E p s))) = eth_on (fst s)) \<and> (\<forall>s. eth_on (fst (le_timeouts E s)) = eth_on (fst s))"

lemma poll_eth_on: "eth_on (snd (ETH_CheckFrameReceived d)) = eth_on d"
  by (simp add: ETH_CheckFrameReceived_def Let_def)

lemma low_level_input_eth_on: "eth_on (snd (low_level_input alloc d)) = eth_on d"
  by (simp add: low_level_input_def ETH_Get_Received_Frame_def Let_def resume_rx_def)

lemma ethernetif_input_eth_on:
  "keeps_mac E \<Longrightarrow> eth_on (fst (fst (snd (ethernetif_input (le_alloc E) (le_input E) st)))) = eth_on (fst st)"
  using low_level_input_eth_on [of "le_alloc E" "fst st"]
  by (auto simp: ethernetif_input_def keeps_mac_def split: prod.splits option.splits) (metis fst_conv snd_conv)+

text \<open>A turn is the supervision of the link on a driver that may have changed otherwise.\<close>

lemma periodic_shape:
  assumes "keeps_mac E"
  obtains st st' where "LwIP_periodic_handle E y ms n = (LwIP_link_turn y ms (n\<lparr>n_lwip := st\<rparr>))\<lparr>n_lwip := st'\<rparr>"
    "eth_on (fst st) = eth_on (fst (n_lwip n))" "eth_on (fst st') = eth_on (fst (n_lwip (LwIP_link_turn y ms (n\<lparr>n_lwip := st\<rparr>))))"
proof -
  obtain got d where g: "ETH_CheckFrameReceived (fst (n_lwip n)) = (got, d)" by fastforce
  let ?s = "(d, snd (n_lwip n))"
  define st where "st = (if got then fst (snd (ethernetif_input (le_alloc E) (le_input E) ?s)) else ?s)"
  let ?t = "LwIP_link_turn y ms (n\<lparr>n_lwip := st\<rparr>)"
  have "eth_on d = eth_on (fst (n_lwip n))" using poll_eth_on [of "fst (n_lwip n)"] g by simp
  then have "eth_on (fst st) = eth_on (fst (n_lwip n))" using ethernetif_input_eth_on [OF assms, of ?s] by (simp add: st_def)
  moreover have "LwIP_periodic_handle E y ms n = ?t\<lparr>n_lwip := le_timeouts E (n_lwip ?t)\<rparr>"
    by (simp add: LwIP_periodic_handle_def g Let_def LwIP_packet_handle_def st_def)
  moreover have "eth_on (fst (le_timeouts E (n_lwip ?t))) = eth_on (fst (n_lwip ?t))" using assms unfolding keeps_mac_def by blast
  ultimately show ?thesis using that by blast
qed

lemma net_inv_lwip: "net_inv n \<Longrightarrow> eth_on (fst st) = eth_on (fst (n_lwip n)) \<Longrightarrow> net_inv (n\<lparr>n_lwip := st\<rparr>)"
  by (simp add: net_inv_def LwIP_is_link_up_def)

lemma periodic_inv:
  assumes "net_inv n" "keeps_mac E"
  shows "net_inv (LwIP_periodic_handle E y ms n)"
proof -
  obtain st st' where p: "LwIP_periodic_handle E y ms n = (LwIP_link_turn y ms (n\<lparr>n_lwip := st\<rparr>))\<lparr>n_lwip := st'\<rparr>"
    "eth_on (fst st) = eth_on (fst (n_lwip n))" "eth_on (fst st') = eth_on (fst (n_lwip (LwIP_link_turn y ms (n\<lparr>n_lwip := st\<rparr>))))"
    by (rule periodic_shape [OF assms(2)])
  show ?thesis unfolding p(1) by (rule net_inv_lwip [OF link_turn(1) [OF net_inv_lwip [OF assms(1) p(2)]] p(3)])
qed

definition net_run :: "('n lwip_env \<times> phy \<times> u32) list \<Rightarrow> 'n net \<Rightarrow> 'n net" where
  "net_run ts n = fold (\<lambda>(E, y, ms). LwIP_periodic_handle E y ms) ts n"

lemma net_run_inv: "net_inv n \<Longrightarrow> \<forall>t \<in> set ts. keeps_mac (fst t) \<Longrightarrow> net_inv (net_run ts n)"
  unfolding net_run_def by (induction ts arbitrary: n) (auto simp: periodic_inv split: prod.splits)

text \<open>The speed and the mode that are set in the MAC are never cleared.\<close>

lemma mac_keeps_speed: "bit (MACCR n) i \<Longrightarrow> bit (MACCR (mac_reconfigure y n)) i"
  by (simp add: mac_reconfigure_def Let_def bit_or_iff)


definition idle_lwip :: "unit lwip_env" where
  "idle_lwip = \<lparr>le_alloc = \<lambda>n. Some [n], le_input = \<lambda>p s. (0, s), le_timeouts = \<lambda>s. s\<rparr>"

definition net_blank :: "unit net" where
  "net_blank = \<lparr>n_lwip = (eth_reset, ()), nif_link = False, nif_up = False, nif_ip = [], nif_mask = [], nif_gw = [], nif_callback = False,
    cfg_ip = [192, 168, 0, 10], cfg_mask = [255, 255, 255, 0], cfg_gw = [192, 168, 0, 1], g_eth_status = 0, tmr_link_check = 0,
    ini_AutoNegotiation = 0, ini_Speed = 0, ini_Mode = 0, MACCR = 0, phy_bcr = 0, nego_polls = 0, n_calls = []\<rparr>"


end
